(* ===== verification/Go_Prelude.thy ===== *)
theory Go_Prelude
  imports Main "HOL-Library.Word" "HOL-Library.Multiset" "HOL-Library.Sublist"
begin

text \<open>
  What the component theories share: the pieces of Go and of its standard library that the
  sources use (integers of 64 bits, \<^verbatim>\<open>time.Time\<close> and \<^verbatim>\<open>time.Duration\<close>, byte strings,
  buffered channels with non-blocking sends), and the generic lemmas on lists and maps the
  component proofs rest on.

  Conventions. A value of Go's \<^verbatim>\<open>int\<close> that only counts or indexes is an \<open>int\<close> or a \<open>nat\<close>;
  where an overflow can be reached the wrap-around is written out (\<open>wrap64\<close>, \<open>64 word\<close>).
  A \<^verbatim>\<open>time.Time\<close> is the number of nanoseconds since Go's zero time, so the zero value of the
  type is \<open>0\<close> and \<^verbatim>\<open>IsZero\<close> is equality with it; a duration is a number of nanoseconds.
  The wall clock is an argument of the operations that read it.  Log calls have no model.
\<close>

section \<open>Collections of rewrite rules\<close>

named_theorems time_simps \<open>unfolding of the time operations\<close>
named_theorems str_simps \<open>unfolding of the string operations\<close>

section \<open>Signed 64-bit integers\<close>

definition wrap64 :: "int \<Rightarrow> int" where
  "wrap64 x = (x + 2 ^ 63) mod 2 ^ 64 - 2 ^ 63"

definition in64 :: "int \<Rightarrow> bool" where
  "in64 x \<longleftrightarrow> - (2 ^ 63) \<le> x \<and> x < 2 ^ 63"

lemma wrap64_in64 [simp]: "in64 (wrap64 x)"
proof -
  have "0 \<le> (x + 2 ^ 63) mod 2 ^ 64" "(x + 2 ^ 63) mod 2 ^ 64 < (2 ^ 64 :: int)"
    by simp_all
  then show ?thesis by (simp add: wrap64_def in64_def)
qed

lemma wrap64_id [simp]: "in64 x \<Longrightarrow> wrap64 x = x"
  by (simp add: wrap64_def in64_def)

lemma wrap64_low:
  assumes "- (2 ^ 64) - 2 ^ 63 \<le> x" and "x < - (2 ^ 63)"
  shows "wrap64 x = x + 2 ^ 64"
proof -
  have "(x + 2 ^ 63) mod 2 ^ 64 = (x + 2 ^ 63 + 2 ^ 64) mod 2 ^ 64"
    by (simp only: mod_add_self2)
  also have "\<dots> = x + 2 ^ 63 + 2 ^ 64" using assms by (intro mod_pos_pos_trivial) auto
  finally show ?thesis by (simp add: wrap64_def)
qed

lemma wrap64_sint: "wrap64 x = sint (word_of_int x :: 64 word)"
  by (simp add: wrap64_def int_word_sint)

section \<open>Time\<close>

type_synonym gotime = int
type_synonym duration = int

definition zeroTime :: gotime where
  "zeroTime = 0"

definition isZero :: "gotime \<Rightarrow> bool" where
  "isZero t \<longleftrightarrow> t = zeroTime"

definition Millisecond :: duration where
  "Millisecond = 1000000"

definition Second :: duration where
  "Second = 1000 * Millisecond"

definition Minute :: duration where
  "Minute = 60 * Second"

definition Hour :: duration where
  "Hour = 60 * Minute"

definition maxDuration :: duration where
  "maxDuration = 2 ^ 63 - 1"

definition minDuration :: duration where
  "minDuration = - (2 ^ 63)"

text \<open>\<^verbatim>\<open>t.Sub(u)\<close> saturates at the limits of \<^verbatim>\<open>Duration\<close>.\<close>

definition tsub :: "gotime \<Rightarrow> gotime \<Rightarrow> duration" where
  "tsub t u = max minDuration (min maxDuration (t - u))"

definition tadd :: "gotime \<Rightarrow> duration \<Rightarrow> gotime" where
  "tadd t d = t + d"

definition tbefore :: "gotime \<Rightarrow> gotime \<Rightarrow> bool" where
  "tbefore t u \<longleftrightarrow> t < u"

definition tafter :: "gotime \<Rightarrow> gotime \<Rightarrow> bool" where
  "tafter t u \<longleftrightarrow> t > u"

text \<open>\<^verbatim>\<open>time.Duration(days) * 24 * time.Hour\<close>, a product of \<^verbatim>\<open>int64\<close> values.\<close>

definition days_duration :: "int \<Rightarrow> duration" where
  "days_duration days = wrap64 (wrap64 (days * 24) * Hour)"

declare zeroTime_def [time_simps] isZero_def [time_simps] tadd_def [time_simps]
  tbefore_def [time_simps] tafter_def [time_simps]

lemmas unit_defs [time_simps] = Millisecond_def Second_def Minute_def Hour_def
lemmas duration_limits = maxDuration_def minDuration_def

lemma tsub_eq [simp]: "in64 (t - u) \<Longrightarrow> tsub t u = t - u"
  by (auto simp: tsub_def in64_def duration_limits)

lemma tsub_self [simp]: "tsub t t = 0"
  by (simp add: tsub_def duration_limits)

text \<open>
  Comparing a saturated difference with a bound inside the range of \<^verbatim>\<open>Duration\<close> is the same as
  comparing the exact difference.
\<close>

lemma tsub_ge_iff: "d \<le> maxDuration \<Longrightarrow> minDuration < d \<Longrightarrow> d \<le> tsub t u \<longleftrightarrow> u + d \<le> t"
  by (auto simp: tsub_def)

lemma tsub_less_iff: "d \<le> maxDuration \<Longrightarrow> minDuration < d \<Longrightarrow> tsub t u < d \<longleftrightarrow> t < u + d"
  using tsub_ge_iff[of d t u] by linarith

lemma tsub_gt_iff: "d < maxDuration \<Longrightarrow> minDuration \<le> d \<Longrightarrow> d < tsub t u \<longleftrightarrow> u + d < t"
  by (auto simp: tsub_def)

lemma tsub_mono: "t \<le> t' \<Longrightarrow> tsub t u \<le> tsub t' u"
  by (simp add: tsub_def)

lemma days_duration_small:
  assumes "- 106751 \<le> days" and "days \<le> 106751"
  shows "days_duration days = days * 86400000000000"
proof -
  have "in64 (days * 24)" using assms by (simp add: in64_def)
  moreover have "in64 (days * 24 * Hour)"
    using assms by (simp add: in64_def unit_defs)
  ultimately show ?thesis by (simp add: days_duration_def unit_defs)
qed

section \<open>Byte strings\<close>

definition hasPrefix :: "string \<Rightarrow> string \<Rightarrow> bool" where
  "hasPrefix s p \<longleftrightarrow> take (length p) s = p"

definition hasSuffix :: "string \<Rightarrow> string \<Rightarrow> bool" where
  "hasSuffix s p \<longleftrightarrow> hasPrefix (rev s) (rev p)"

definition trimPrefix :: "string \<Rightarrow> string \<Rightarrow> string" where
  "trimPrefix s p = (if hasPrefix s p then drop (length p) s else s)"

definition trimSuffix :: "string \<Rightarrow> string \<Rightarrow> string" where
  "trimSuffix s p = (if hasSuffix s p then take (length s - length p) s else s)"

text \<open>\<^verbatim>\<open>strings.Trim\<close> with a cut set, and \<^verbatim>\<open>strings.TrimSpace\<close> on ASCII text.\<close>

definition trimSet :: "(char \<Rightarrow> bool) \<Rightarrow> string \<Rightarrow> string" where
  "trimSet p s = rev (dropWhile p (rev (dropWhile p s)))"

definition isSpace :: "char \<Rightarrow> bool" where
  "isSpace c \<longleftrightarrow> c \<in> set [CHR '' '', CHR 0x09, CHR 0x0A, CHR 0x0B, CHR 0x0C, CHR 0x0D]"

definition trimSpace :: "string \<Rightarrow> string" where
  "trimSpace s = trimSet isSpace s"

text \<open>\<^verbatim>\<open>strings.Split(s, sep)\<close> for a separator of one byte: always at least one piece.\<close>

fun splitOn :: "char \<Rightarrow> string \<Rightarrow> string list" where
  "splitOn sep [] = [[]]"
| "splitOn sep (c # cs) =
     (case splitOn sep cs of
        [] \<Rightarrow> [[c]]
      | w # ws \<Rightarrow> if c = sep then [] # w # ws else (c # w) # ws)"

lemma hasPrefix_iff: "hasPrefix s p \<longleftrightarrow> (\<exists>r. s = p @ r)"
  unfolding hasPrefix_def by (metis append_eq_conv_conj append_take_drop_id)

lemma hasPrefix_append [simp]: "hasPrefix (p @ r) p"
  by (simp add: hasPrefix_def)

lemma hasPrefix_empty [simp]: "hasPrefix s []"
  by (simp add: hasPrefix_def)

lemma hasSuffix_iff: "hasSuffix s p \<longleftrightarrow> (\<exists>r. s = r @ p)"
proof
  assume "hasSuffix s p"
  then obtain r where "rev s = rev p @ r" by (auto simp: hasSuffix_def hasPrefix_iff)
  then have "s = rev r @ p" by (metis rev_append rev_rev_ident)
  then show "\<exists>r. s = r @ p" ..
qed (auto simp: hasSuffix_def)

lemma splitOn_not_Nil [simp]: "splitOn sep s \<noteq> []"
  by (cases s) (auto split: list.splits)

lemma splitOn_no_sep: "w \<in> set (splitOn sep s) \<Longrightarrow> sep \<notin> set w"
  by (induction s arbitrary: w) (auto split: list.splits if_splits)

lemma splitOn_eq_single: "sep \<notin> set s \<Longrightarrow> splitOn sep s = [s]"
  by (induction s) auto

lemma trimSet_set: "c \<in> set (trimSet p s) \<Longrightarrow> c \<in> set s"
  unfolding trimSet_def by (metis set_dropWhileD set_rev)

lemma trimSet_hd: "trimSet p s \<noteq> [] \<Longrightarrow> \<not> p (hd (trimSet p s))"
proof -
  assume ne: "trimSet p s \<noteq> []"
  define u where "u = dropWhile p s"
  have t: "trimSet p s = rev (dropWhile p (rev u))" by (simp only: trimSet_def u_def)
  have u: "u \<noteq> []" using ne unfolding t by (rule contrapos_nn) simp
  then have "\<not> p (hd u)" by (simp add: u_def hd_dropWhile)
  moreover have "\<exists>v. u = rev (dropWhile p (rev u)) @ v"
    by (metis rev_append rev_rev_ident takeWhile_dropWhile_id)
  ultimately show ?thesis using ne unfolding t by (metis hd_append)
qed

lemma trimSet_last: "trimSet p s \<noteq> [] \<Longrightarrow> \<not> p (last (trimSet p s))"
  unfolding trimSet_def by (metis hd_dropWhile last_rev rev_is_Nil_conv)

section \<open>Decimal numbers\<close>

text \<open>\<^verbatim>\<open>%d\<close> and \<^verbatim>\<open>strconv.ParseInt(s, 10, 64)\<close>.\<close>

fun digits :: "nat \<Rightarrow> string" where
  "digits n = (if n < 10 then [char_of (48 + n)] else digits (n div 10) @ [char_of (48 + n mod 10)])"

declare digits.simps [simp del]

definition format_int :: "int \<Rightarrow> string" where
  "format_int x = (if x < 0 then CHR ''-'' # digits (nat (- x)) else digits (nat x))"

definition is_digit :: "char \<Rightarrow> bool" where
  "is_digit c \<longleftrightarrow> 48 \<le> (of_char c :: nat) \<and> (of_char c :: nat) \<le> 57"

fun parse_digits :: "string \<Rightarrow> nat \<Rightarrow> nat option" where
  "parse_digits [] acc = Some acc"
| "parse_digits (c # cs) acc =
     (if is_digit c then parse_digits cs (acc * 10 + (of_char c - 48)) else None)"

definition ParseInt :: "string \<Rightarrow> int option" where
  "ParseInt s =
     (let (neg, ds) = (case s of
            [] \<Rightarrow> (False, [])
          | c # cs \<Rightarrow> if c = CHR ''-'' then (True, cs) else if c = CHR ''+'' then (False, cs) else (False, s))
      in if ds = [] then None
         else case parse_digits ds 0 of
           None \<Rightarrow> None
         | Some n \<Rightarrow> let x = (if neg then - int n else int n) in if in64 x then Some x else None)"

lemma parse_digits_snoc:
  "parse_digits (cs @ [c]) acc =
     (case parse_digits cs acc of
        None \<Rightarrow> None | Some n \<Rightarrow> if is_digit c then Some (n * 10 + (of_char c - 48)) else None)"
  by (induction cs arbitrary: acc) auto

lemma digit_char: "n < 10 \<Longrightarrow> is_digit (char_of (48 + n)) \<and> (of_char (char_of (48 + n)) :: nat) = 48 + n"
  by (simp add: is_digit_def)

lemma parse_digits_digits: "parse_digits (digits n) 0 = Some n"
proof (induction n rule: digits.induct)
  case (1 n)
  show ?case
  proof (cases "n < 10")
    case True
    then show ?thesis using digit_char[of n] by (subst digits.simps) simp
  next
    case False
    then show ?thesis using 1 digit_char[of "n mod 10"] by (subst digits.simps) (simp add: parse_digits_snoc)
  qed
qed

lemma digits_ne [simp]: "digits n \<noteq> []"
  by (subst digits.simps) simp

lemma digits_are_digits: "c \<in> set (digits n) \<Longrightarrow> is_digit c"
proof (induction n rule: digits.induct)
  case (1 n)
  then show ?case using digit_char[of n] digit_char[of "n mod 10"]
    by (subst (asm) (2) digits.simps) (auto split: if_splits)
qed

lemma ParseInt_format: "in64 x \<Longrightarrow> ParseInt (format_int x) = Some x"
proof -
  assume x: "in64 x"
  obtain c cs where d: "digits (nat x) = c # cs" by (cases "digits (nat x)") auto
  have "is_digit c" using digits_are_digits[of c "nat x"] d by simp
  then have "c \<noteq> CHR ''-''" "c \<noteq> CHR ''+''" by (auto simp: is_digit_def)
  then show ?thesis
    using x d parse_digits_digits[of "nat x"] parse_digits_digits[of "nat (- x)"]
    by (auto simp: ParseInt_def format_int_def Let_def)
qed

section \<open>Buffered channels\<close>

text \<open>
  A channel made with a capacity: the values sent and not yet received, oldest first.  The
  sources send with \<^verbatim>\<open>select { case ch <- v: ... default: ... }\<close>, which never blocks and says
  whether the value was taken, and receive in the order of sending.
\<close>

record 'a channel =
  ch_cap :: nat
  ch_buf :: "'a list"

definition make_chan :: "nat \<Rightarrow> 'a channel" where
  "make_chan n = \<lparr>ch_cap = n, ch_buf = []\<rparr>"

definition try_send :: "'a \<Rightarrow> 'a channel \<Rightarrow> bool \<times> 'a channel" where
  "try_send v ch =
     (if length (ch_buf ch) < ch_cap ch then (True, ch\<lparr>ch_buf := ch_buf ch @ [v]\<rparr>)
      else (False, ch))"

definition try_recv :: "'a channel \<Rightarrow> 'a option \<times> 'a channel" where
  "try_recv ch =
     (case ch_buf ch of [] \<Rightarrow> (None, ch) | v # vs \<Rightarrow> (Some v, ch\<lparr>ch_buf := vs\<rparr>))"

definition chan_ok :: "'a channel \<Rightarrow> bool" where
  "chan_ok ch \<longleftrightarrow> length (ch_buf ch) \<le> ch_cap ch"

text \<open>
  The interface the queue clients rely on: a bounded queue whose send reports acceptance and
  whose order is first in, first out.
\<close>

locale bounded_queue =
  fixes send :: "'a \<Rightarrow> 'q \<Rightarrow> bool \<times> 'q"
    and recv :: "'q \<Rightarrow> 'a option \<times> 'q"
    and items :: "'q \<Rightarrow> 'a list"
    and capacity :: "'q \<Rightarrow> nat"
    and ok :: "'q \<Rightarrow> bool"
  assumes send_items: "send v q = (b, q') \<Longrightarrow> items q' = (if b then items q @ [v] else items q)"
    and send_accepts: "fst (send v q) \<longleftrightarrow> length (items q) < capacity q"
    and send_capacity: "send v q = (b, q') \<Longrightarrow> capacity q' = capacity q"
    and recv_items: "recv q = (r, q') \<Longrightarrow> items q = (case r of None \<Rightarrow> items q' | Some v \<Rightarrow> v # items q')"
    and recv_None: "fst (recv q) = None \<longleftrightarrow> items q = []"
    and recv_capacity: "recv q = (r, q') \<Longrightarrow> capacity q' = capacity q"
    and ok_bound: "ok q \<longleftrightarrow> length (items q) \<le> capacity q"
begin

lemma send_ok: "ok q \<Longrightarrow> send v q = (b, q') \<Longrightarrow> ok q'"
  using send_items[of v q b q'] send_accepts[of v q] send_capacity[of v q b q']
  by (auto simp: ok_bound)

lemma recv_ok: "ok q \<Longrightarrow> recv q = (r, q') \<Longrightarrow> ok q'"
  using recv_items[of q r q'] recv_capacity[of q r q'] by (auto simp: ok_bound split: option.splits)

text \<open>A run of sends and receives: what was accepted is what was delivered and what is left.\<close>

primrec run :: "'a option list \<Rightarrow> 'q \<Rightarrow> 'a list \<times> 'a list \<times> 'q" where
  "run [] q = ([], [], q)"
| "run (e # es) q =
     (case e of
        Some v \<Rightarrow> (case send v q of (b, q1) \<Rightarrow> case run es q1 of (acc, del, q2) \<Rightarrow>
                    ((if b then v # acc else acc), del, q2))
      | None \<Rightarrow> (case recv q of (r, q1) \<Rightarrow> case run es q1 of (acc, del, q2) \<Rightarrow>
                    (acc, (case r of None \<Rightarrow> del | Some v \<Rightarrow> v # del), q2)))"

lemma run_fifo: "run es q = (acc, del, q') \<Longrightarrow> items q @ acc = del @ items q'"
proof (induction es arbitrary: q acc del q')
  case Nil
  then show ?case by simp
next
  case (Cons e es)
  show ?case
  proof (cases e)
    case (Some v)
    obtain b q1 where s: "send v q = (b, q1)" by force
    obtain acc1 del1 q2 where r: "run es q1 = (acc1, del1, q2)" by (metis prod_cases3)
    show ?thesis
      using Cons.prems Some s r Cons.IH[OF r] send_items[OF s] by (auto split: if_splits)
  next
    case None
    obtain x q1 where s: "recv q = (x, q1)" by force
    obtain acc1 del1 q2 where r: "run es q1 = (acc1, del1, q2)" by (metis prod_cases3)
    show ?thesis
      using Cons.prems None s r Cons.IH[OF r] recv_items[OF s] by (auto split: option.splits)
  qed
qed

lemma run_ok: "ok q \<Longrightarrow> run es q = (acc, del, q') \<Longrightarrow> ok q'"
  by (induction es arbitrary: q acc del q')
     (auto split: option.splits prod.splits dest: send_ok recv_ok)

end

interpretation gochan: bounded_queue try_send try_recv ch_buf ch_cap chan_ok
  by unfold_locales
     (auto simp: try_send_def try_recv_def chan_ok_def split: if_splits list.splits)

section \<open>Lists and maps\<close>


lemma foldl_invariant:
  assumes "I s" and "\<And>s x. x \<in> set xs \<Longrightarrow> I s \<Longrightarrow> I (f s x)"
  shows "I (foldl f s xs)"
  using assms by (induction xs arbitrary: s) auto

lemma fold_invariant:
  assumes "I s" and "\<And>s x. x \<in> set xs \<Longrightarrow> I s \<Longrightarrow> I (f x s)"
  shows "I (fold f xs s)"
  using assms by (induction xs arbitrary: s) auto

lemma sum_list_filter_split:
  fixes f :: "'a \<Rightarrow> int"
  shows "sum_list (map f xs) = sum_list (map f (filter P xs)) + sum_list (map f (filter (\<lambda>x. \<not> P x) xs))"
  by (induction xs) auto


end
