(* ===== verification/Segment_Store.thy ===== *)
theory Segment_Store
  imports Go_Prelude
begin

text \<open>
  The segments table and the recorded files: \<^verbatim>\<open>internal/storage/db.go\<close> (the queries on
  \<^verbatim>\<open>segments\<close>) and \<^verbatim>\<open>RemoveSegment\<close> of \<^verbatim>\<open>internal/recording/segment.go\<close>.

  The table is the list of its rows in rowid order; the schema makes \<^verbatim>\<open>path\<close> unique, which is
  the invariant \<open>store_ok\<close>.  An \<^verbatim>\<open>ORDER BY\<close> is a stable sort, rows with equal keys staying in
  rowid order.  Failures of the file system and of the database are decided by \<open>faults\<close>, which
  may change from one call to the next: they see the number of calls made so far.
\<close>

section \<open>Rows, files and failures\<close>

record SegmentRecord =
  seg_ID :: int
  seg_Camera :: string
  seg_Path :: string
  seg_StartTime :: gotime
  seg_EndTime :: gotime
  seg_SizeBytes :: int
  seg_Recompressed :: bool
  seg_RecompressedAt :: gotime
  seg_RecompressFailures :: int

record store =
  rows :: "SegmentRecord list"
  nextSegID :: int
  files :: "string set"
  ops :: nat

record faults =
  os_remove_err :: "nat \<Rightarrow> string \<Rightarrow> bool"
  db_delete_err :: "nat \<Rightarrow> string \<Rightarrow> bool"
  db_query_err :: "nat \<Rightarrow> bool"
  db_camera_query_err :: "nat \<Rightarrow> string \<Rightarrow> bool"
  db_oldest_err :: "nat \<Rightarrow> bool"

definition no_faults :: faults where
  "no_faults = \<lparr>os_remove_err = \<lambda>_ _. False, db_delete_err = \<lambda>_ _. False,
                db_query_err = \<lambda>_. False, db_camera_query_err = \<lambda>_ _. False,
                db_oldest_err = \<lambda>_. False\<rparr>"

definition store_ok :: "store \<Rightarrow> bool" where
  "store_ok s \<longleftrightarrow> distinct (map seg_Path (rows s))"

lemma no_faults_simps [simp]:
  "os_remove_err no_faults n p = False" "db_delete_err no_faults n p = False"
  "db_query_err no_faults n = False" "db_camera_query_err no_faults n p = False"
  "db_oldest_err no_faults n = False"
  by (simp_all add: no_faults_def)

text \<open>A fresh row, for the examples of the theories below.\<close>

definition seg_at :: "string \<Rightarrow> string \<Rightarrow> gotime \<Rightarrow> gotime \<Rightarrow> int \<Rightarrow> SegmentRecord" where
  "seg_at cam path start fin bytes =
     \<lparr>seg_ID = 0, seg_Camera = cam, seg_Path = path, seg_StartTime = start, seg_EndTime = fin,
      seg_SizeBytes = bytes, seg_Recompressed = False, seg_RecompressedAt = zeroTime,
      seg_RecompressFailures = 0\<rparr>"

section \<open>Statements on the segments table\<close>

text \<open>
  The upsert on \<^verbatim>\<open>path\<close>: an existing row keeps its id, its camera and its recompression state.
\<close>

definition SaveSegment :: "SegmentRecord \<Rightarrow> store \<Rightarrow> store" where
  "SaveSegment seg s =
     (if seg_Path seg \<in> set (map seg_Path (rows s))
      then s\<lparr>rows := map (\<lambda>r. if seg_Path r = seg_Path seg
                 then r\<lparr>seg_StartTime := seg_StartTime seg, seg_EndTime := seg_EndTime seg,
                        seg_SizeBytes := seg_SizeBytes seg\<rparr>
                 else r) (rows s)\<rparr>
      else s\<lparr>rows := rows s @ [seg\<lparr>seg_ID := nextSegID s, seg_Recompressed := False,
                 seg_RecompressedAt := zeroTime, seg_RecompressFailures := 0\<rparr>],
             nextSegID := nextSegID s + 1\<rparr>)"

definition DeleteSegment :: "string \<Rightarrow> store \<Rightarrow> store" where
  "DeleteSegment path s = s\<lparr>rows := filter (\<lambda>r. seg_Path r \<noteq> path) (rows s)\<rparr>"

definition DeleteSegmentByID :: "int \<Rightarrow> store \<Rightarrow> store" where
  "DeleteSegmentByID i s = s\<lparr>rows := filter (\<lambda>r. seg_ID r \<noteq> i) (rows s)\<rparr>"

definition GetAllSegments :: "string \<Rightarrow> store \<Rightarrow> SegmentRecord list" where
  "GetAllSegments cam s = sort_key seg_StartTime (filter (\<lambda>r. seg_Camera r = cam) (rows s))"

definition TotalStorageBytes :: "store \<Rightarrow> int" where
  "TotalStorageBytes s = sum_list (map seg_SizeBytes (rows s))"

definition GetSegmentsOverlapping :: "string \<Rightarrow> gotime \<Rightarrow> gotime \<Rightarrow> store \<Rightarrow> SegmentRecord list" where
  "GetSegmentsOverlapping cam start fin s =
     sort_key seg_StartTime
       (filter (\<lambda>r. (cam \<noteq> [] \<longrightarrow> seg_Camera r = cam) \<and> seg_StartTime r < fin \<and> seg_EndTime r > start)
          (rows s))"

definition GetSegmentsEndingBefore :: "gotime \<Rightarrow> store \<Rightarrow> SegmentRecord list" where
  "GetSegmentsEndingBefore cutoff s =
     sort_key seg_EndTime (filter (\<lambda>r. seg_EndTime r < cutoff) (rows s))"

definition GetSegmentsEndingBeforeForCamera :: "string \<Rightarrow> gotime \<Rightarrow> store \<Rightarrow> SegmentRecord list" where
  "GetSegmentsEndingBeforeForCamera cam cutoff s =
     sort_key seg_EndTime (filter (\<lambda>r. seg_Camera r = cam \<and> seg_EndTime r < cutoff) (rows s))"

definition GetOldestSegments :: "nat \<Rightarrow> store \<Rightarrow> SegmentRecord list" where
  "GetOldestSegments limit s = take limit (sort_key seg_StartTime (rows s))"

definition GetOldestSegmentsOlderThan :: "nat \<Rightarrow> gotime \<Rightarrow> store \<Rightarrow> SegmentRecord list" where
  "GetOldestSegmentsOlderThan limit cutoff s =
     take limit (sort_key seg_StartTime (filter (\<lambda>r. seg_EndTime r < cutoff) (rows s)))"

text \<open>\<^verbatim>\<open>SELECT MAX(size_bytes)\<close> over no rows is \<^verbatim>\<open>NULL\<close>, which the code reads as 0.\<close>

definition GetLargestSegmentSizeSince :: "gotime \<Rightarrow> store \<Rightarrow> int" where
  "GetLargestSegmentSizeSince since s =
     (case map seg_SizeBytes (filter (\<lambda>r. seg_StartTime r > since) (rows s)) of
        [] \<Rightarrow> 0
      | x # xs \<Rightarrow> fold max xs x)"

definition SegmentsByCameraOlderThan :: "string \<Rightarrow> gotime \<Rightarrow> store \<Rightarrow> SegmentRecord list" where
  "SegmentsByCameraOlderThan cam cutoff s =
     sort_key seg_StartTime (filter (\<lambda>r. seg_Camera r = cam \<and> seg_StartTime r < cutoff) (rows s))"

definition SegmentsByCameraInRange :: "string \<Rightarrow> gotime \<Rightarrow> gotime \<Rightarrow> store \<Rightarrow> SegmentRecord list" where
  "SegmentsByCameraInRange cam from until s =
     sort_key seg_StartTime
       (filter (\<lambda>r. seg_Camera r = cam \<and> seg_StartTime r \<ge> from \<and> seg_StartTime r < until) (rows s))"

text \<open>The row loop of \<^verbatim>\<open>OldestSegmentsUntilBytes\<close>, with its running total.\<close>

fun until_bytes :: "int \<Rightarrow> int \<Rightarrow> SegmentRecord list \<Rightarrow> SegmentRecord list" where
  "until_bytes target acc [] = []"
| "until_bytes target acc (seg # rest) =
     (let acc' = wrap64 (acc + seg_SizeBytes seg)
      in if acc' \<ge> target then [seg] else seg # until_bytes target acc' rest)"

definition OldestSegmentsUntilBytes :: "int \<Rightarrow> store \<Rightarrow> SegmentRecord list" where
  "OldestSegmentsUntilBytes target s =
     (if target \<le> 0 then [] else until_bytes target 0 (sort_key seg_StartTime (rows s)))"

section \<open>Removing a segment\<close>

text \<open>
  \<^verbatim>\<open>RemoveSegment\<close>: the file first, then the row.  A missing file is no error.  The result is
  \<open>True\<close> for a nil error.
\<close>

definition RemoveSegment :: "faults \<Rightarrow> string \<Rightarrow> string \<Rightarrow> store \<Rightarrow> bool \<times> store" where
  "RemoveSegment F cam path s =
     (let s1 = s\<lparr>ops := Suc (ops s)\<rparr>
      in if os_remove_err F (ops s) path then (False, s1)
         else let s2 = s1\<lparr>files := files s1 - {path}\<rparr>
              in if db_delete_err F (ops s) path then (False, s2)
                 else (True, DeleteSegment path s2))"

lemma RemoveSegment_no_faults:
  "RemoveSegment no_faults cam path s =
     (True, DeleteSegment path (s\<lparr>ops := Suc (ops s), files := files s - {path}\<rparr>))"
  by (simp add: RemoveSegment_def)

text \<open>
  What the clean-up passes rely on: a successful removal takes away the rows with that path
  and nothing else, a failed one takes away no row.
\<close>

locale segment_remover =
  fixes remove :: "string \<Rightarrow> string \<Rightarrow> 's \<Rightarrow> bool \<times> 's"
    and rows_of :: "'s \<Rightarrow> SegmentRecord list"
  assumes remove_ok: "remove cam p s = (True, s') \<Longrightarrow> rows_of s' = filter (\<lambda>r. seg_Path r \<noteq> p) (rows_of s)"
    and remove_err: "remove cam p s = (False, s') \<Longrightarrow> rows_of s' = rows_of s"
begin

lemma remove_rows:
  "rows_of (snd (remove cam p s)) =
     (if fst (remove cam p s) then filter (\<lambda>r. seg_Path r \<noteq> p) (rows_of s) else rows_of s)"
  by (cases "remove cam p s") (auto simp: remove_ok remove_err)

lemma remove_subset: "set (rows_of (snd (remove cam p s))) \<subseteq> set (rows_of s)"
  by (auto simp: remove_rows)

lemma remove_keeps:
  "r \<in> set (rows_of s) \<Longrightarrow> seg_Path r \<noteq> p \<Longrightarrow> r \<in> set (rows_of (snd (remove cam p s)))"
  by (auto simp: remove_rows)

lemma remove_distinct:
  "distinct (map seg_Path (rows_of s)) \<Longrightarrow> distinct (map seg_Path (rows_of (snd (remove cam p s))))"
  by (auto simp: remove_rows distinct_map intro: inj_on_subset)

end

interpretation remover: segment_remover "RemoveSegment F" rows for F
  by unfold_locales (auto simp: RemoveSegment_def DeleteSegment_def Let_def split: if_splits)

lemma store_ok_RemoveSegment: "store_ok s \<Longrightarrow> store_ok (snd (RemoveSegment F cam p s))"
  unfolding store_ok_def by (rule remover.remove_distinct)

lemma SaveSegment_paths:
  "map seg_Path (rows (SaveSegment seg s)) =
     (if seg_Path seg \<in> set (map seg_Path (rows s)) then map seg_Path (rows s)
      else map seg_Path (rows s) @ [seg_Path seg])"
  by (simp add: SaveSegment_def comp_def if_distrib cong: if_cong)

lemma store_ok_SaveSegment: "store_ok s \<Longrightarrow> store_ok (SaveSegment seg s)"
  unfolding store_ok_def SaveSegment_paths by auto

section \<open>The rows in the order of their age\<close>

definition by_age :: "store \<Rightarrow> SegmentRecord list" where
  "by_age s = sort_key seg_StartTime (rows s)"

lemma set_by_age [simp]: "set (by_age s) = set (rows s)"
  by (simp add: by_age_def)

lemma mset_by_age [simp]: "mset (by_age s) = mset (rows s)"
  by (simp add: by_age_def)

lemma sum_by_age: "sum_list (map seg_SizeBytes (by_age s)) = TotalStorageBytes s"
  unfolding TotalStorageBytes_def by (metis mset_by_age mset_map sum_mset_sum_list)

lemma distinct_by_age: "distinct (map seg_Path (by_age s)) \<longleftrightarrow> store_ok s"
  unfolding store_ok_def by (metis mset_by_age mset_eq_imp_distinct_iff mset_map)

lemma GetOldestSegments_by_age: "GetOldestSegments n s = take n (by_age s)"
  by (simp add: GetOldestSegments_def by_age_def)

lemma by_age_Remove:
  "fst (RemoveSegment F cam p s) \<Longrightarrow>
     by_age (snd (RemoveSegment F cam p s)) = filter (\<lambda>r. seg_Path r \<noteq> p) (by_age s)"
  by (simp add: by_age_def remover.remove_rows filter_sort)

text \<open>Removing the oldest segment pops the queue of segments by age.\<close>

lemma by_age_Remove_hd:
  assumes "store_ok s" and "by_age s = seg # rest"
    and "fst (RemoveSegment F cam (seg_Path seg) s)"
  shows "by_age (snd (RemoveSegment F cam (seg_Path seg) s)) = rest"
proof -
  have "seg_Path seg \<notin> set (map seg_Path rest)"
    using assms(1,2) by (simp add: distinct_by_age[symmetric])
  then have "filter (\<lambda>r. seg_Path r \<noteq> seg_Path seg) rest = rest"
    by (simp add: filter_id_conv) (metis imageI)
  then show ?thesis using assms(2) by_age_Remove[OF assms(3)] by simp
qed

end
