(* ===== verification/Retention.thy ===== *)
theory Retention
  imports Segment_Store "HOL-Library.AList"
begin

text \<open>
  Retention of recordings: \<^verbatim>\<open>internal/recording/retention.go\<close> (\<^verbatim>\<open>cleanSegments\<close>,
  \<^verbatim>\<open>enforceStorageCap\<close>) and \<^verbatim>\<open>internal/recording/emergency_cleanup.go\<close>.

  The map of per-camera overrides is the association list of its entries in the order the
  \<^verbatim>\<open>range\<close> loop visits them; the theorems hold for every such order.
\<close>

section \<open>Age-based retention\<close>

record retention_config =
  RetainDays :: int
  cameraRetention :: "(string \<times> int) list"

text \<open>\<^verbatim>\<open>buildCameraRetention\<close> keeps the positive overrides, a later camera of the same name winning.\<close>

fun buildCameraRetention :: "(string \<times> int option) list \<Rightarrow> (string \<times> int) list \<Rightarrow> (string \<times> int) list" where
  "buildCameraRetention [] m = m"
| "buildCameraRetention ((name, days) # cams) m =
     (case days of
        Some d \<Rightarrow> if d > 0 then buildCameraRetention cams (AList.update name d m)
                  else buildCameraRetention cams m
      | None \<Rightarrow> buildCameraRetention cams m)"

definition cutoff_days :: "gotime \<Rightarrow> int \<Rightarrow> gotime" where
  "cutoff_days now days = tadd now (days_duration (- days))"

text \<open>The loop over the overrides: each contributes the rows past its own cutoff.\<close>

fun override_rows ::
  "faults \<Rightarrow> bool \<Rightarrow> gotime \<Rightarrow> gotime \<Rightarrow> (string \<times> int) list \<Rightarrow> store \<Rightarrow> SegmentRecord list" where
  "override_rows F globalEnabled globalCutoff now [] s = []"
| "override_rows F globalEnabled globalCutoff now ((cam, days) # ovs) s =
     (let camCutoff = cutoff_days now days
      in if globalEnabled \<and> \<not> tafter camCutoff globalCutoff
         then override_rows F globalEnabled globalCutoff now ovs s
         else if db_camera_query_err F (ops s) cam
         then override_rows F globalEnabled globalCutoff now ovs s
         else GetSegmentsEndingBeforeForCamera cam camCutoff s
                @ override_rows F globalEnabled globalCutoff now ovs s)"

text \<open>The removal loop, with the set of paths already handled.\<close>

fun remove_expired ::
  "faults \<Rightarrow> gotime \<Rightarrow> (string \<rightharpoonup> int) \<Rightarrow> SegmentRecord list \<Rightarrow> string set \<Rightarrow> store \<Rightarrow> store" where
  "remove_expired F now ret [] seen s = s"
| "remove_expired F now ret (seg # rest) seen s =
     (if seg_Path seg \<in> seen then remove_expired F now ret rest seen s
      else
        let seen' = insert (seg_Path seg) seen;
            keep = (case ret (seg_Camera seg) of
                      Some days \<Rightarrow> tafter (seg_EndTime seg) (cutoff_days now days)
                    | None \<Rightarrow> False)
        in if keep then remove_expired F now ret rest seen' s
           else remove_expired F now ret rest seen'
                  (snd (RemoveSegment F (seg_Camera seg) (seg_Path seg) s)))"

definition cleanSegments :: "faults \<Rightarrow> retention_config \<Rightarrow> gotime \<Rightarrow> store \<Rightarrow> store" where
  "cleanSegments F cfg now s =
     (let globalEnabled = RetainDays cfg > 0;
          globalCutoff = cutoff_days now (RetainDays cfg)
      in if globalEnabled \<and> db_query_err F (ops s) then s
         else
           let expired = (if globalEnabled then GetSegmentsEndingBefore globalCutoff s else [])
                 @ override_rows F globalEnabled globalCutoff now (cameraRetention cfg) s
           in if expired = [] then s
              else remove_expired F now (map_of (cameraRetention cfg)) expired {} s)"

text \<open>
  What retention promises, row by row: without an override a segment expires at the global
  cutoff, with one at the camera's own cutoff.  (When the override is longer than the global
  period, a segment that ends exactly at the camera's cutoff goes too.)
\<close>

definition segment_expired :: "retention_config \<Rightarrow> gotime \<Rightarrow> SegmentRecord \<Rightarrow> bool" where
  "segment_expired cfg now r \<longleftrightarrow>
     (case map_of (cameraRetention cfg) (seg_Camera r) of
        None \<Rightarrow> RetainDays cfg > 0 \<and> seg_EndTime r < cutoff_days now (RetainDays cfg)
      | Some days \<Rightarrow>
          seg_EndTime r < cutoff_days now days \<or>
          (RetainDays cfg > 0 \<and> seg_EndTime r = cutoff_days now days
             \<and> cutoff_days now days < cutoff_days now (RetainDays cfg)))"

subsection \<open>The candidate list\<close>

lemma set_override_rows_no_faults:
  "set (override_rows no_faults ge gc now ovs s) =
     {r \<in> set (rows s). \<exists>days. (seg_Camera r, days) \<in> set ovs
         \<and> \<not> (ge \<and> cutoff_days now days \<le> gc) \<and> seg_EndTime r < cutoff_days now days}"
proof (induction ovs)
  case (Cons o' ovs)
  obtain cam days where o': "o' = (cam, days)" by fastforce
  show ?case
    using Cons.IH
    by (cases ge; cases "cutoff_days now days \<le> gc")
       (auto simp: o' GetSegmentsEndingBeforeForCamera_def time_simps Let_def)
qed simp

lemma set_override_rows:
  "r \<in> set (override_rows F ge gc now ovs s) \<Longrightarrow> r \<in> set (override_rows no_faults ge gc now ovs s)"
  by (induction ovs) (auto simp: Let_def split: if_splits)

text \<open>The rows the queries put forward that the per-camera filter does not hold back.\<close>

definition selected :: "retention_config \<Rightarrow> gotime \<Rightarrow> SegmentRecord list \<Rightarrow> SegmentRecord set" where
  "selected cfg now cands =
     {r \<in> set cands. case map_of (cameraRetention cfg) (seg_Camera r) of
         Some days \<Rightarrow> \<not> tafter (seg_EndTime r) (cutoff_days now days) | None \<Rightarrow> True}"

lemma selected_iff_expired:
  assumes "distinct (map fst (cameraRetention cfg))"
    and "cands = (if RetainDays cfg > 0 then GetSegmentsEndingBefore (cutoff_days now (RetainDays cfg)) s else [])
            @ override_rows no_faults (RetainDays cfg > 0) (cutoff_days now (RetainDays cfg)) now (cameraRetention cfg) s"
  shows "r \<in> selected cfg now cands \<longleftrightarrow> r \<in> set (rows s) \<and> segment_expired cfg now r"
proof (cases "map_of (cameraRetention cfg) (seg_Camera r)")
  case None
  then have "(seg_Camera r, days) \<notin> set (cameraRetention cfg)" for days
    by (metis map_of_eq_None_iff fst_conv image_eqI)
  with None show ?thesis
    by (auto simp: selected_def assms(2) set_override_rows_no_faults segment_expired_def
        GetSegmentsEndingBefore_def)
next
  case (Some days)
  then have mem: "(seg_Camera r, d) \<in> set (cameraRetention cfg) \<longleftrightarrow> d = days" for d
    using assms(1) by (metis map_of_SomeD map_of_is_SomeI option.inject)
  from Some show ?thesis
    by (auto simp: selected_def assms(2) set_override_rows_no_faults segment_expired_def
        GetSegmentsEndingBefore_def mem time_simps)
qed

subsection \<open>The removal loop\<close>

lemma remove_expired_subset: "set (rows (remove_expired F now ret cands seen s)) \<subseteq> set (rows s)"
proof (induction cands arbitrary: seen s)
  case (Cons seg rest)
  let ?s' = "snd (RemoveSegment F (seg_Camera seg) (seg_Path seg) s)"
  have "set (rows (remove_expired F now ret rest seen' ?s')) \<subseteq> set (rows s)" for seen'
    using Cons.IH[of seen' ?s'] remover.remove_subset by blast
  with Cons.IH show ?case by (simp add: Let_def split: option.splits)
qed simp

lemma remove_expired_store_ok: "store_ok s \<Longrightarrow> store_ok (remove_expired F now ret cands seen s)"
  by (induction cands arbitrary: seen s)
     (auto simp: Let_def store_ok_RemoveSegment split: option.splits)

lemma remove_expired_keeps:
  assumes "r \<in> set (rows s)" and "seg_Path r \<notin> seg_Path ` selected cfg now cands"
  shows "r \<in> set (rows (remove_expired F now (map_of (cameraRetention cfg)) cands seen s))"
  using assms
proof (induction cands arbitrary: seen s)
  case (Cons seg rest)
  have rest: "seg_Path r \<notin> seg_Path ` selected cfg now rest"
    using Cons.prems(2) by (auto simp: selected_def)
  have step: "r \<in> set (rows (snd (RemoveSegment F (seg_Camera seg) (seg_Path seg) s)))"
    if "seg \<in> selected cfg now (seg # rest)"
    using that Cons.prems by (intro remover.remove_keeps) auto
  have mem: "seg \<in> selected cfg now (seg # rest) \<longleftrightarrow>
      (case map_of (cameraRetention cfg) (seg_Camera seg) of
         Some days \<Rightarrow> \<not> tafter (seg_EndTime seg) (cutoff_days now days) | None \<Rightarrow> True)"
    by (auto simp: selected_def split: option.splits)
  show ?case
    using step mem Cons.IH[OF _ rest] Cons.prems(1) by (auto simp: Let_def split: option.splits)
qed simp

lemma remove_expired_removes:
  assumes "seg_Path r \<notin> seen" and "r \<in> selected cfg now cands" and "store_ok s"
    and "set cands \<subseteq> R" and "set (rows s) \<subseteq> R" and "inj_on seg_Path R"
  shows "r \<notin> set (rows (remove_expired no_faults now (map_of (cameraRetention cfg)) cands seen s))"
  using assms(1-5)
proof (induction cands arbitrary: seen s)
  case (Cons seg rest)
  let ?s' = "snd (RemoveSegment no_faults (seg_Camera seg) (seg_Path seg) s)"
  show ?case
  proof (cases "seg = r")
    case True
    have "r \<notin> set (rows ?s')" by (simp add: True RemoveSegment_no_faults DeleteSegment_def)
    then have "r \<notin> set (rows (remove_expired no_faults now (map_of (cameraRetention cfg)) rest seen' ?s'))" for seen'
      using remove_expired_subset by blast
    then show ?thesis
      using True Cons.prems(1,2) by (auto simp: selected_def Let_def split: option.splits)
  next
    case False
    have r: "r \<in> set rest" "r \<in> selected cfg now rest"
      using False Cons.prems(2) by (auto simp: selected_def)
    then have "seg_Path seg \<noteq> seg_Path r"
      using False Cons.prems(4) assms(6) by (auto dest: inj_onD)
    moreover have "set (rows ?s') \<subseteq> R" "store_ok ?s'"
      using Cons.prems(3,5) remover.remove_subset[of no_faults "seg_Camera seg" "seg_Path seg" s]
        store_ok_RemoveSegment by auto
    ultimately show ?thesis
      using Cons.IH[OF _ r(2)] Cons.prems by (auto simp: Let_def split: option.splits)
  qed
qed (simp add: selected_def)

lemma remove_expired_filter: "\<exists>P. rows (remove_expired F now ret cands seen s) = filter P (rows s)"
proof (induction cands arbitrary: seen s)
  case Nil
  show ?case by (rule exI[of _ "\<lambda>_. True"]) simp
next
  case (Cons seg rest)
  let ?s' = "snd (RemoveSegment F (seg_Camera seg) (seg_Path seg) s)"
  have "\<exists>P. rows ?s' = filter P (rows s)"
    by (cases "fst (RemoveSegment F (seg_Camera seg) (seg_Path seg) s)")
       (auto simp: remover.remove_rows intro: exI[of _ "\<lambda>_. True"])
  then have "\<exists>P. rows (remove_expired F now ret rest seen' ?s') = filter P (rows s)" for seen'
    using Cons.IH[of seen' ?s'] by (metis filter_filter)
  with Cons.IH show ?case by (simp add: Let_def split: option.splits)
qed

lemma filter_eq_of_set:
  assumes "ys = filter P xs" and "\<And>x. x \<in> set xs \<Longrightarrow> x \<in> set ys \<longleftrightarrow> Q x"
  shows "ys = filter Q xs"
  using assms by (auto intro: filter_cong)

subsection \<open>What a pass deletes\<close>

definition retention_ok :: "retention_config \<Rightarrow> bool" where
  "retention_ok cfg \<longleftrightarrow> distinct (map fst (cameraRetention cfg))"

lemma cleanSegments_set_no_faults:
  assumes ok: "store_ok s" and ret: "retention_ok cfg" and r: "r \<in> set (rows s)"
  shows "r \<in> set (rows (cleanSegments no_faults cfg now s)) \<longleftrightarrow> \<not> segment_expired cfg now r"
proof -
  define cands where "cands = (if RetainDays cfg > 0
      then GetSegmentsEndingBefore (cutoff_days now (RetainDays cfg)) s else [])
      @ override_rows no_faults (RetainDays cfg > 0) (cutoff_days now (RetainDays cfg)) now (cameraRetention cfg) s"
  have sel: "q \<in> selected cfg now cands \<longleftrightarrow> q \<in> set (rows s) \<and> segment_expired cfg now q" for q
    using selected_iff_expired[OF _ cands_def] ret by (simp add: retention_ok_def)
  have clean: "cleanSegments no_faults cfg now s =
      remove_expired no_faults now (map_of (cameraRetention cfg)) cands {} s"
    by (auto simp: cleanSegments_def cands_def Let_def)
  have inj: "inj_on seg_Path (set (rows s))"
    using ok by (simp add: store_ok_def distinct_map)
  have sub: "set cands \<subseteq> set (rows s)"
    by (auto simp: cands_def set_override_rows_no_faults GetSegmentsEndingBefore_def)
  show ?thesis
  proof (cases "segment_expired cfg now r")
    case True
    then have "r \<in> selected cfg now cands" using sel r by simp
    then show ?thesis
      using remove_expired_removes[OF _ _ ok sub subset_refl inj, of r "{}" cfg now] True
      by (simp add: clean)
  next
    case False
    then have "seg_Path r \<notin> seg_Path ` selected cfg now cands"
      using sel r inj by (auto dest: inj_onD)
    then show ?thesis using remove_expired_keeps[OF r] False by (simp add: clean)
  qed
qed

lemma cleanSegments_filter: "\<exists>P. rows (cleanSegments F cfg now s) = filter P (rows s)"
proof -
  have "\<exists>P. rows s = filter P (rows s)" by (rule exI[of _ "\<lambda>_. True"]) simp
  then show ?thesis using remove_expired_filter by (simp add: cleanSegments_def Let_def)
qed

lemma cleanSegments_keeps_fresh:
  assumes ok: "store_ok s" and ret: "retention_ok cfg" and r: "r \<in> set (rows s)"
    and fresh: "\<not> segment_expired cfg now r"
  shows "r \<in> set (rows (cleanSegments F cfg now s))"
proof -
  let ?glob = "if RetainDays cfg > 0 then GetSegmentsEndingBefore (cutoff_days now (RetainDays cfg)) s else []"
  define cands where "cands = ?glob @ override_rows F (RetainDays cfg > 0)
      (cutoff_days now (RetainDays cfg)) now (cameraRetention cfg) s"
  define full where "full = ?glob @ override_rows no_faults (RetainDays cfg > 0)
      (cutoff_days now (RetainDays cfg)) now (cameraRetention cfg) s"
  have "selected cfg now cands \<subseteq> selected cfg now full"
    using set_override_rows by (fastforce simp: selected_def cands_def full_def)
  moreover have "q \<in> selected cfg now full \<longleftrightarrow> q \<in> set (rows s) \<and> segment_expired cfg now q" for q
    using selected_iff_expired[OF _ full_def] ret by (simp add: retention_ok_def)
  moreover have "inj_on seg_Path (set (rows s))"
    using ok by (simp add: store_ok_def distinct_map)
  ultimately have "seg_Path r \<notin> seg_Path ` selected cfg now cands"
    using r fresh by (auto dest: inj_onD)
  then show ?thesis
    using remove_expired_keeps[OF r] r by (auto simp: cleanSegments_def cands_def[symmetric] Let_def)
qed

lemma cleanSegments_store_ok: "store_ok s \<Longrightarrow> store_ok (cleanSegments F cfg now s)"
  by (simp add: cleanSegments_def remove_expired_store_ok Let_def)

text \<open>
  C1. Without failures a retention pass deletes exactly the expired segments: the rows left are
  the rows that are not expired under their camera's override or, lacking one, the global
  period, in their old order.  The result does not depend on the order in which the overrides
  are visited.
\<close>

theorem cleanSegments_exact:
  assumes "store_ok s" and "retention_ok cfg"
  shows "rows (cleanSegments no_faults cfg now s) = filter (\<lambda>r. \<not> segment_expired cfg now r) (rows s)"
proof -
  obtain P where "rows (cleanSegments no_faults cfg now s) = filter P (rows s)"
    using cleanSegments_filter by blast
  then show ?thesis
    by (rule filter_eq_of_set) (rule cleanSegments_set_no_faults[OF assms])
qed

text \<open>A camera with a two-day override next to a global period of seven days.\<close>

definition sample_store :: store where
  "sample_store =
     \<lparr>rows = [seg_at ''door'' ''a'' 1 2 10, seg_at ''door'' ''b'' 800000000000000 900000000000000 10,
              seg_at ''yard'' ''c'' 1 2 10, seg_at ''yard'' ''d'' 300000000000000 400000000000000 10],
      nextSegID = 5, files = {''a'', ''b'', ''c'', ''d''}, ops = 0\<rparr>"

definition sample_cfg :: retention_config where
  "sample_cfg = \<lparr>RetainDays = 7, cameraRetention = [(''door'', 2)]\<rparr>"

lemmas sample_simps = sample_store_def sample_cfg_def seg_at_def store_ok_def retention_ok_def
  segment_expired_def cutoff_days_def days_duration_small time_simps

theorem cleanSegments_exact_witness:
  "store_ok sample_store \<and> retention_ok sample_cfg \<and>
   map seg_Path (rows (cleanSegments no_faults sample_cfg 1000000000000000 sample_store)) = [''b'', ''d'']"
proof -
  have "store_ok sample_store" "retention_ok sample_cfg" by (simp_all add: sample_simps)
  then show ?thesis using cleanSegments_exact[of sample_store sample_cfg 1000000000000000]
    by (simp add: sample_simps)
qed

text \<open>
  Whatever fails on the way (a file that cannot be removed, a statement or a query that
  errors), a retention pass never deletes a segment that ended within the retention period of
  its camera, for periods of 1 to 106751 days; a period of zero without an override keeps
  everything.
\<close>

definition effective_days :: "retention_config \<Rightarrow> string \<Rightarrow> int" where
  "effective_days cfg cam = (case map_of (cameraRetention cfg) cam of Some d \<Rightarrow> d | None \<Rightarrow> RetainDays cfg)"

theorem cleanSegments_keeps_retained:
  assumes "store_ok s" and "retention_ok cfg" and "r \<in> set (rows s)"
    and "map_of (cameraRetention cfg) (seg_Camera r) = None \<and> RetainDays cfg \<le> 0 \<or>
         1 \<le> effective_days cfg (seg_Camera r) \<and> effective_days cfg (seg_Camera r) \<le> 106751 \<and>
         now - effective_days cfg (seg_Camera r) * 86400000000000 < seg_EndTime r"
  shows "r \<in> set (rows (cleanSegments F cfg now s))"
proof (rule cleanSegments_keeps_fresh[OF assms(1-3)])
  show "\<not> segment_expired cfg now r"
    using assms(4)
    by (auto simp: segment_expired_def effective_days_def cutoff_days_def days_duration_small tadd_def
        split: option.splits)
qed

theorem cleanSegments_keeps_retained_witness:
  "''b'' \<in> set (map seg_Path (rows (cleanSegments
      (no_faults\<lparr>os_remove_err := \<lambda>_ p. p = ''a''\<rparr>) sample_cfg 1000000000000000 sample_store)))"
proof -
  let ?r = "seg_at ''door'' ''b'' 800000000000000 900000000000000 10"
  have "?r \<in> set (rows (cleanSegments (no_faults\<lparr>os_remove_err := \<lambda>_ p. p = ''a''\<rparr>)
          sample_cfg 1000000000000000 sample_store))"
    by (rule cleanSegments_keeps_retained) (simp_all add: sample_simps effective_days_def)
  then have "seg_Path ?r \<in> seg_Path ` set (rows (cleanSegments
      (no_faults\<lparr>os_remove_err := \<lambda>_ p. p = ''a''\<rparr>) sample_cfg 1000000000000000 sample_store))"
    by (rule imageI)
  then show ?thesis by (simp add: seg_at_def)
qed

text \<open>
  The bound of 106751 days is sharp.  The period is multiplied out in 64-bit nanoseconds, so
  a \<^verbatim>\<open>retain_days\<close> from 106752 to 213503, and values such as 365000 or 999999 written to mean
  "forever", wrap around to a cutoff in the future: every segment that has ended is deleted.
  The configuration check accepts these values.
\<close>

theorem retain_days_overflow_deletes_all:
  assumes "store_ok s" and "cameraRetention cfg = []"
    and "106752 \<le> RetainDays cfg \<and> RetainDays cfg \<le> 213503 \<or> RetainDays cfg \<in> {365000, 999999}"
    and "r \<in> set (rows s)" and "seg_EndTime r \<le> now"
  shows "r \<notin> set (rows (cleanSegments no_faults cfg now s))"
proof -
  have "0 < days_duration (- RetainDays cfg)"
  proof (cases "RetainDays cfg \<in> {365000, 999999}")
    case True
    then show ?thesis by (auto simp: days_duration_def wrap64_def unit_defs)
  next
    case False
    then have d: "106752 \<le> RetainDays cfg" "RetainDays cfg \<le> 213503" using assms(3) by auto
    have "in64 (- RetainDays cfg * 24)" using d by (simp add: in64_def)
    moreover have "wrap64 (- RetainDays cfg * 24 * Hour) = 2 ^ 64 - RetainDays cfg * 86400000000000"
      using d by (subst wrap64_low) (simp_all add: unit_defs)
    ultimately show ?thesis using d by (simp add: days_duration_def)
  qed
  then have "segment_expired cfg now r"
    using assms(2,3,5) by (auto simp: segment_expired_def cutoff_days_def tadd_def)
  moreover have "retention_ok cfg" using assms(2) by (simp add: retention_ok_def)
  ultimately show ?thesis
    using cleanSegments_set_no_faults[OF assms(1) _ assms(4)] by blast
qed

theorem retain_days_overflow_deletes_all_witness:
  "seg_at ''door'' ''b'' 800000000000000 900000000000000 10 \<notin> set (rows (cleanSegments no_faults
     \<lparr>RetainDays = 999999, cameraRetention = []\<rparr> 1000000000000000 sample_store))"
  by (rule retain_days_overflow_deletes_all) (simp_all add: sample_simps)

end
