(* ===== verification/Storage_Cap.thy ===== *)
theory Storage_Cap
  imports Segment_Store
begin

text \<open>
  The two clean-up passes driven by space rather than age: \<^verbatim>\<open>enforceStorageCap\<close> of
  \<^verbatim>\<open>internal/recording/retention.go\<close> and \<^verbatim>\<open>emergencyDeleteLocked\<close> of
  \<^verbatim>\<open>internal/recording/emergency_cleanup.go\<close>.

  The outer loop of \<^verbatim>\<open>enforceStorageCap\<close> has no bound of its own, so it is a
  \<^theory_text>\<open>partial_function (option)\<close>: \<open>None\<close> means that it never returns.
\<close>

section \<open>The storage cap\<close>

text \<open>One batch: (returned early, running total, store).\<close>

fun cap_batch :: "faults \<Rightarrow> int \<Rightarrow> SegmentRecord list \<Rightarrow> int \<Rightarrow> store \<Rightarrow> bool \<times> int \<times> store" where
  "cap_batch F cap [] totalBytes s = (False, totalBytes, s)"
| "cap_batch F cap (seg # rest) totalBytes s =
     (if totalBytes \<le> cap then (True, totalBytes, s)
      else case RemoveSegment F (seg_Camera seg) (seg_Path seg) s of
             (ok, s') \<Rightarrow>
               if ok then cap_batch F cap rest (wrap64 (totalBytes - seg_SizeBytes seg)) s'
               else cap_batch F cap rest totalBytes s')"

partial_function (option) cap_loop :: "faults \<Rightarrow> int \<Rightarrow> int \<Rightarrow> store \<Rightarrow> store option" where
  "cap_loop F cap totalBytes s =
     (if totalBytes \<le> cap then Some s
      else if db_oldest_err F (ops s) then Some s
      else if GetOldestSegments 20 s = [] then Some s
      else case cap_batch F cap (GetOldestSegments 20 s) totalBytes s of
             (stop, totalBytes', s') \<Rightarrow>
               if stop then Some s' else cap_loop F cap totalBytes' s')"

definition enforceStorageCap :: "faults \<Rightarrow> int \<Rightarrow> store \<Rightarrow> store option" where
  "enforceStorageCap F cap s =
     (if cap \<le> 0 then Some s
      else if db_query_err F (ops s) then Some s
      else if TotalStorageBytes s \<le> cap then Some s
      else cap_loop F cap (TotalStorageBytes s) s)"

definition sizes_ok :: "store \<Rightarrow> bool" where
  "sizes_ok s \<longleftrightarrow> (\<forall>r \<in> set (rows s). 0 \<le> seg_SizeBytes r) \<and> TotalStorageBytes s < 2 ^ 63"

abbreviation bytes :: "SegmentRecord list \<Rightarrow> int" where
  "bytes q \<equiv> sum_list (map seg_SizeBytes q)"

lemma bytes_nonneg: "\<forall>r \<in> set q. 0 \<le> seg_SizeBytes r \<Longrightarrow> 0 \<le> bytes q"
  by (induction q) auto

lemma sizes_ok_in64: "sizes_ok s \<Longrightarrow> in64 (TotalStorageBytes s)"
  using bytes_nonneg[of "rows s"] by (auto simp: sizes_ok_def in64_def TotalStorageBytes_def)

text \<open>Removing the oldest segment, in terms of the queue by age.\<close>

lemma remove_oldest:
  assumes "store_ok s" and "sizes_ok s" and "by_age s = seg # rest"
    and "RemoveSegment no_faults cam (seg_Path seg) s = (ok, s')"
  shows "ok" "by_age s' = rest" "store_ok s'" "sizes_ok s'"
    "wrap64 (TotalStorageBytes s - seg_SizeBytes seg) = TotalStorageBytes s'"
proof -
  show ok: ok using assms(4) by (simp add: RemoveSegment_no_faults)
  show q: "by_age s' = rest"
    using by_age_Remove_hd[OF assms(1,3), of no_faults cam] assms(4) ok by simp
  show "store_ok s'" using store_ok_RemoveSegment[OF assms(1)] assms(4) by (metis snd_conv)
  have total: "TotalStorageBytes s = seg_SizeBytes seg + TotalStorageBytes s'"
    using sum_by_age[of s] sum_by_age[of s'] assms(3) q by simp
  have sub: "set (rows s') \<subseteq> set (rows s)"
    using set_by_age[of s] set_by_age[of s'] assms(3) q by auto
  then have "0 \<le> seg_SizeBytes seg"
    using assms(2,3) set_by_age[of s] by (auto simp: sizes_ok_def)
  then show sz: "sizes_ok s'" using sub total assms(2) by (auto simp: sizes_ok_def)
  show "wrap64 (TotalStorageBytes s - seg_SizeBytes seg) = TotalStorageBytes s'"
    using total sizes_ok_in64[OF sz] by simp
qed

lemma cap_batch_pops:
  assumes "store_ok s" and "sizes_ok s" and "by_age s = batch @ rest"
    and "cap_batch no_faults cap batch (TotalStorageBytes s) s = (stop, t', s')"
  shows "store_ok s' \<and> sizes_ok s' \<and> t' = TotalStorageBytes s' \<and>
     (\<exists>k \<le> length batch. by_age s' = drop k (by_age s) \<and> (\<forall>j < k. cap < bytes (drop j (by_age s)))
        \<and> (if stop then t' \<le> cap else k = length batch))"
  using assms
proof (induction batch arbitrary: s)
  case (Cons seg batch)
  show ?case
  proof (cases "TotalStorageBytes s \<le> cap")
    case True
    with Cons.prems show ?thesis by (auto intro!: exI[of _ 0])
  next
    case False
    obtain ok s1 where rm: "RemoveSegment no_faults (seg_Camera seg) (seg_Path seg) s = (ok, s1)"
      by force
    note popped = remove_oldest[OF Cons.prems(1,2) _ rm, of "batch @ rest"]
    have age: "by_age s = seg # batch @ rest" using Cons.prems(3) by simp
    have run: "cap_batch no_faults cap batch (TotalStorageBytes s1) s1 = (stop, t', s')"
      using Cons.prems(4) False popped[OF age] rm by simp
    obtain k where ih: "store_ok s'" "sizes_ok s'" "t' = TotalStorageBytes s'" "k \<le> length batch"
        "by_age s' = drop k (by_age s1)" "\<forall>j < k. cap < bytes (drop j (by_age s1))"
        "if stop then t' \<le> cap else k = length batch"
      using Cons.IH[OF popped(3)[OF age] popped(4)[OF age] popped(2)[OF age] run] by blast
    have "\<forall>j < Suc k. cap < bytes (drop j (by_age s))"
      using ih(6) False sum_by_age[of s] age popped(2)[OF age] by (auto simp: less_Suc_eq_0_disj)
    then show ?thesis
      using ih age popped(2)[OF age] by (intro conjI exI[of _ "Suc k"]) (auto split: if_splits)
  qed
qed auto

lemma cap_loop_pops:
  assumes "store_ok s" and "sizes_ok s" and "0 \<le> cap"
  shows "\<exists>s' k. cap_loop no_faults cap (TotalStorageBytes s) s = Some s' \<and> by_age s' = drop k (by_age s)
     \<and> TotalStorageBytes s' \<le> cap \<and> (\<forall>j < k. cap < bytes (drop j (by_age s)))"
  using assms
proof (induction "length (by_age s)" arbitrary: s rule: less_induct)
  case less
  note unfold = cap_loop.simps[of no_faults cap "TotalStorageBytes s" s]
  show ?case
  proof (cases "TotalStorageBytes s \<le> cap")
    case True
    then show ?thesis by (auto simp: unfold intro!: exI[of _ 0])
  next
    case False
    have ne: "by_age s \<noteq> []"
      using False less.prems(3) sum_by_age[of s] by auto
    let ?b = "take 20 (by_age s)"
    obtain stop t' s1 where b: "cap_batch no_faults cap ?b (TotalStorageBytes s) s = (stop, t', s1)"
      using prod_cases3 by blast
    obtain k where k: "store_ok s1" "sizes_ok s1" "t' = TotalStorageBytes s1"
        "k \<le> length ?b" "by_age s1 = drop k (by_age s)" "\<forall>j < k. cap < bytes (drop j (by_age s))"
        "if stop then t' \<le> cap else k = length ?b"
      using cap_batch_pops[OF less.prems(1,2) _ b, of "drop 20 (by_age s)"] by auto
    have step: "cap_loop no_faults cap (TotalStorageBytes s) s =
        (if stop then Some s1 else cap_loop no_faults cap (TotalStorageBytes s1) s1)"
      using False ne b k(3) by (simp add: unfold GetOldestSegments_by_age)
    show ?thesis
    proof (cases stop)
      case True
      then show ?thesis using step k by auto
    next
      case False
      have "length (by_age s1) < length (by_age s)" using k(5,7) ne False by auto
      then obtain s' m where m: "cap_loop no_faults cap (TotalStorageBytes s1) s1 = Some s'"
          "by_age s' = drop m (by_age s1)" "TotalStorageBytes s' \<le> cap"
          "\<forall>j < m. cap < bytes (drop j (by_age s1))"
        using less.hyps[OF _ k(1,2) less.prems(3)] by blast
      have "cap < bytes (drop j (by_age s))" if "j < k + m" for j
        using that k(5,6) m(4) by (cases "j < k") (auto simp: not_less le_iff_add add.commute)
      then show ?thesis using step False m k(5) by (intro exI[of _ s'] exI[of _ "k + m"]) (auto simp: add.commute)
    qed
  qed
qed

text \<open>
  C2. With a cap configured and no failing removals, \<^verbatim>\<open>enforceStorageCap\<close> returns, brings the
  total under the cap, and does so by deleting the oldest segments only and no more of them
  than needed: what is left is the list by age without its first \<open>k\<close> entries, for the least
  \<open>k\<close> that fits.
\<close>

theorem enforceStorageCap_minimal:
  assumes "store_ok s" and "sizes_ok s" and "0 < cap"
  shows "\<exists>s' k. enforceStorageCap no_faults cap s = Some s' \<and> by_age s' = drop k (by_age s)
     \<and> TotalStorageBytes s' \<le> cap \<and> (\<forall>j < k. cap < bytes (drop j (by_age s)))"
proof (cases "TotalStorageBytes s \<le> cap")
  case True
  then show ?thesis using assms(3) by (auto simp: enforceStorageCap_def intro!: exI[of _ s] exI[of _ 0])
next
  case False
  then show ?thesis using cap_loop_pops[OF assms(1,2)] assms(3) by (auto simp: enforceStorageCap_def)
qed

definition three_segments :: store where
  "three_segments =
     \<lparr>rows = [seg_at ''cam'' ''b'' 2 3 40, seg_at ''cam'' ''a'' 1 2 30, seg_at ''cam'' ''c'' 3 4 50],
      nextSegID = 4, files = {''a'', ''b'', ''c''}, ops = 0\<rparr>"

lemma three_segments_ok: "store_ok three_segments" "sizes_ok three_segments"
  by (simp_all add: three_segments_def store_ok_def sizes_ok_def seg_at_def TotalStorageBytes_def)

theorem enforceStorageCap_minimal_witness:
  "\<exists>s' k. enforceStorageCap no_faults 100 three_segments = Some s'
     \<and> by_age s' = drop k (by_age three_segments) \<and> TotalStorageBytes s' \<le> 100
     \<and> (\<forall>j < k. 100 < bytes (drop j (by_age three_segments)))"
  by (rule enforceStorageCap_minimal[OF three_segments_ok]) simp

subsection \<open>A removal that keeps failing\<close>

lemma cap_batch_stuck:
  assumes "\<And>seg n. seg \<in> set batch \<Longrightarrow> os_remove_err F n (seg_Path seg)" and "cap < t"
  shows "\<exists>n. cap_batch F cap batch t s = (False, t, s\<lparr>ops := n\<rparr>)"
  using assms
proof (induction batch arbitrary: s)
  case Nil
  show ?case by (rule exI[of _ "ops s"]) simp
next
  case (Cons seg batch)
  have "\<exists>n. cap_batch F cap batch t (s\<lparr>ops := Suc (ops s)\<rparr>) = (False, t, s\<lparr>ops := n\<rparr>)"
    using Cons.IH[of "s\<lparr>ops := Suc (ops s)\<rparr>"] Cons.prems by auto
  then show ?case using Cons.prems by (simp add: RemoveSegment_def Let_def)
qed

lemma GetOldestSegments_ops [simp]: "GetOldestSegments k (s\<lparr>ops := n\<rparr>) = GetOldestSegments k s"
  by (simp add: GetOldestSegments_def)

definition cap_stuck :: "faults \<Rightarrow> int \<Rightarrow> int \<Rightarrow> store \<Rightarrow> bool" where
  "cap_stuck F cap t s \<longleftrightarrow>
     (\<forall>seg \<in> set (GetOldestSegments 20 s). \<forall>n. os_remove_err F n (seg_Path seg)) \<and>
     (\<forall>n. \<not> db_oldest_err F n) \<and> cap < t \<and> GetOldestSegments 20 s \<noteq> []"

lemma cap_loop_stuck:
  assumes "cap_stuck F cap t s"
  shows "cap_loop F cap t s = None"
proof -
  have "\<not> cap_stuck F cap t s" if "cap_loop F cap t s = Some s'" for s'
    using that
  proof (rule cap_loop.raw_induct[where P = "\<lambda>F cap t s _. \<not> cap_stuck F cap t s", rotated])
    fix loop and F :: faults and cap t :: int and s s' :: store
    assume ih: "\<And>F cap t s s'. loop F cap t s = Some s' \<Longrightarrow> \<not> cap_stuck F cap t s"
      and run: "(if t \<le> cap then Some s
         else if db_oldest_err F (ops s) then Some s
         else if GetOldestSegments 20 s = [] then Some s
         else case cap_batch F cap (GetOldestSegments 20 s) t s of
                (stop, t', s') \<Rightarrow> if stop then Some s' else loop F cap t' s') = Some s'"
    show "\<not> cap_stuck F cap t s"
    proof
      assume stuck: "cap_stuck F cap t s"
      then obtain n where "cap_batch F cap (GetOldestSegments 20 s) t s = (False, t, s\<lparr>ops := n\<rparr>)"
        using cap_batch_stuck[of "GetOldestSegments 20 s" F cap t s] by (auto simp: cap_stuck_def)
      then have "loop F cap t (s\<lparr>ops := n\<rparr>) = Some s'"
        using run stuck by (simp add: cap_stuck_def)
      then show False using ih stuck by (fastforce simp: cap_stuck_def)
    qed
  qed
  then show ?thesis using assms by (cases "cap_loop F cap t s") auto
qed

text \<open>
  C3. The clean-up can hang.  When the total is over the cap and the files of the oldest segments
  (at most twenty) can persistently not be removed, the outer loop fetches the same batch again
  and again and \<^verbatim>\<open>enforceStorageCap\<close> never returns; its caller holds \<^verbatim>\<open>segmentOpMu\<close> meanwhile.
\<close>

theorem enforceStorageCap_diverges:
  assumes "\<forall>seg \<in> set (GetOldestSegments 20 s). \<forall>n. os_remove_err F n (seg_Path seg)"
    and "\<forall>n. \<not> db_oldest_err F n" and "\<not> db_query_err F (ops s)"
    and "0 < cap" and "cap < TotalStorageBytes s"
  shows "enforceStorageCap F cap s = None"
proof -
  have "by_age s \<noteq> []" using assms(4,5) sum_by_age[of s] by auto
  then have "GetOldestSegments 20 s \<noteq> []" by (simp add: GetOldestSegments_by_age)
  then have "cap_loop F cap (TotalStorageBytes s) s = None"
    using assms by (intro cap_loop_stuck) (simp add: cap_stuck_def)
  then show ?thesis using assms(3-5) by (simp add: enforceStorageCap_def)
qed

theorem enforceStorageCap_diverges_witness:
  "enforceStorageCap (no_faults\<lparr>os_remove_err := \<lambda>_ _. True\<rparr>) 100 three_segments = None"
  by (rule enforceStorageCap_diverges)
     (simp_all add: three_segments_def seg_at_def TotalStorageBytes_def)

section \<open>The manual "free this many bytes" selection\<close>

lemma until_bytes_prefix:
  assumes "\<forall>r \<in> set q. 0 \<le> seg_SizeBytes r" and "0 \<le> acc" and "acc + bytes q < 2 ^ 63" and "acc < target"
  shows "\<exists>k. until_bytes target acc q = take k q \<and> (target \<le> acc + bytes q \<longrightarrow> target \<le> acc + bytes (take k q))
     \<and> (\<forall>j < k. acc + bytes (take j q) < target)"
  using assms
proof (induction q arbitrary: acc)
  case (Cons seg q)
  have nn: "0 \<le> bytes q" using Cons.prems(1) by (intro bytes_nonneg) auto
  have w: "wrap64 (acc + seg_SizeBytes seg) = acc + seg_SizeBytes seg"
    using Cons.prems nn by (intro wrap64_id) (auto simp: in64_def)
  show ?case
  proof (cases "target \<le> acc + seg_SizeBytes seg")
    case True
    then show ?thesis using w Cons.prems(4) by (intro exI[of _ 1]) (auto simp: Let_def)
  next
    case False
    obtain k where "until_bytes target (acc + seg_SizeBytes seg) q = take k q"
        "target \<le> acc + seg_SizeBytes seg + bytes q \<longrightarrow> target \<le> acc + seg_SizeBytes seg + bytes (take k q)"
        "\<forall>j < k. acc + seg_SizeBytes seg + bytes (take j q) < target"
      using Cons.IH[of "acc + seg_SizeBytes seg"] Cons.prems False by auto
    then show ?thesis using w False Cons.prems(4)
      by (intro exI[of _ "Suc k"]) (auto simp: Let_def less_Suc_eq_0_disj add.assoc)
  qed
qed auto

text \<open>
  \<^verbatim>\<open>OldestSegmentsUntilBytes\<close> returns a prefix of the segments by age that frees at least the
  requested bytes whenever the whole table holds that many, and no shorter prefix does.
\<close>

theorem OldestSegmentsUntilBytes_minimal:
  assumes "sizes_ok s" and "0 < target"
  shows "\<exists>k. OldestSegmentsUntilBytes target s = take k (by_age s)
     \<and> (target \<le> TotalStorageBytes s \<longrightarrow> target \<le> bytes (take k (by_age s)))
     \<and> (\<forall>j < k. bytes (take j (by_age s)) < target)"
  using until_bytes_prefix[of "by_age s" 0 target] assms
  by (auto simp: OldestSegmentsUntilBytes_def by_age_def[symmetric] sum_by_age sizes_ok_def)

theorem OldestSegmentsUntilBytes_minimal_witness:
  "\<exists>k. OldestSegmentsUntilBytes 60 three_segments = take k (by_age three_segments)
     \<and> (60 \<le> TotalStorageBytes three_segments \<longrightarrow> 60 \<le> bytes (take k (by_age three_segments)))
     \<and> (\<forall>j < k. bytes (take j (by_age three_segments)) < 60)"
  by (rule OldestSegmentsUntilBytes_minimal[OF three_segments_ok(2)]) simp

section \<open>Emergency deletion\<close>

text \<open>
  \<^verbatim>\<open>emergencyDeleteLocked\<close> reads the free space once at the start and once after every deletion:
  \<open>avail k\<close> is the reading after \<open>k\<close> deletions.  \<open>cancelled i\<close> says whether the context is done
  when the loop reaches its \<open>i\<close>-th candidate.
\<close>

record urgent_config =
  uc_Enabled :: bool
  uc_MinRetention :: duration
  uc_BatchSize :: nat

fun emergency_loop ::
  "faults \<Rightarrow> (nat \<Rightarrow> bool) \<Rightarrow> (nat \<Rightarrow> 64 word) \<Rightarrow> bool \<Rightarrow> 64 word \<Rightarrow> nat \<Rightarrow> SegmentRecord list
     \<Rightarrow> nat \<Rightarrow> store \<Rightarrow> nat \<times> store" where
  "emergency_loop F cancelled avail diskWasLow target i [] deleted s = (deleted, s)"
| "emergency_loop F cancelled avail diskWasLow target i (seg # rest) deleted s =
     (if cancelled i then (deleted, s)
      else case RemoveSegment F (seg_Camera seg) (seg_Path seg) s of
             (ok, s') \<Rightarrow>
               if \<not> ok then emergency_loop F cancelled avail diskWasLow target (Suc i) rest deleted s'
               else if diskWasLow \<and> avail (Suc deleted) > target then (Suc deleted, s')
               else emergency_loop F cancelled avail diskWasLow target (Suc i) rest (Suc deleted) s')"

definition emergencyDeleteLocked ::
  "faults \<Rightarrow> (nat \<Rightarrow> bool) \<Rightarrow> (nat \<Rightarrow> 64 word) \<Rightarrow> 64 word \<Rightarrow> urgent_config \<Rightarrow> gotime \<Rightarrow> store
     \<Rightarrow> nat option \<times> store" where
  "emergencyDeleteLocked F cancelled avail minRequired cfg now s =
     (if \<not> uc_Enabled cfg then (Some 0, s)
      else if db_oldest_err F (ops s) then (None, s)
      else
        let floor = tadd now (- uc_MinRetention cfg);
            candidates = GetOldestSegmentsOlderThan (uc_BatchSize cfg) floor s
        in if candidates = [] then (Some 0, s)
           else
             let target = minRequired * 3 div 2;
                 diskWasLow = avail 0 < minRequired
             in case emergency_loop F cancelled avail diskWasLow target 0 candidates 0 s of
                  (deleted, s') \<Rightarrow> (Some deleted, s'))"

lemma RemoveSegment_drops_one:
  assumes "store_ok s" and "seg \<in> set (rows s)"
  shows "length (rows s) = length (rows (snd (RemoveSegment F cam (seg_Path seg) s)))
           + (if fst (RemoveSegment F cam (seg_Path seg) s) then 1 else 0)"
proof -
  have "length (filter (\<lambda>r. seg_Path r = seg_Path seg) xs) = 1"
    if "distinct (map seg_Path xs)" and "seg \<in> set xs" for xs
    using that by (induction xs) (auto simp: filter_empty_conv rev_image_eqI intro: image_eqI)
  then have "length (filter (\<lambda>r. seg_Path r = seg_Path seg) (rows s)) = 1"
    using assms by (simp add: store_ok_def)
  then show ?thesis
    using sum_length_filter_compl[of "\<lambda>r. seg_Path r = seg_Path seg" "rows s"]
    by (simp add: remover.remove_rows)
qed

lemma emergency_loop_removes:
  assumes "store_ok s" and "set cands \<subseteq> set (rows s)" and "distinct (map seg_Path cands)"
    and "emergency_loop F cancelled avail low target i cands d s = (d', s')"
  shows "d \<le> d' \<and> d' \<le> d + length cands \<and> set (rows s) - set (rows s') \<subseteq> set cands
     \<and> length (rows s) = length (rows s') + (d' - d)"
  using assms
proof (induction cands arbitrary: i d s)
  case (Cons seg rest)
  obtain ok s1 where rm: "RemoveSegment F (seg_Camera seg) (seg_Path seg) s = (ok, s1)" by force
  have len: "length (rows s) = length (rows s1) + (if ok then 1 else 0)"
    using RemoveSegment_drops_one[of s seg F "seg_Camera seg"] Cons.prems(1,2) rm by simp
  have rows1: "rows s1 = (if ok then filter (\<lambda>r. seg_Path r \<noteq> seg_Path seg) (rows s) else rows s)"
    using remover.remove_rows[of F "seg_Camera seg" "seg_Path seg" s] rm by simp
  have inj: "inj_on seg_Path (set (rows s))"
    using Cons.prems(1) by (simp add: store_ok_def distinct_map)
  have gone: "set (rows s) - set (rows s1) \<subseteq> {seg}"
    using Cons.prems(2) inj by (auto simp: rows1 dest: inj_onD)
  have ok1: "store_ok s1"
    using store_ok_RemoveSegment[OF Cons.prems(1), of F "seg_Camera seg" "seg_Path seg"] rm by simp
  have "seg_Path r \<noteq> seg_Path seg" if "r \<in> set rest" for r
    using that Cons.prems(3) by (auto simp: rev_image_eqI)
  then have sub1: "set rest \<subseteq> set (rows s1)" using Cons.prems(2) by (auto simp: rows1)
  have dist: "distinct (map seg_Path rest)" using Cons.prems(3) by simp
  note ih = Cons.IH[OF ok1 sub1 dist]
  show ?case
  proof (cases "cancelled i")
    case True
    then show ?thesis using Cons.prems(4) by auto
  next
    case False
    show ?thesis
    proof (cases "ok \<and> low \<and> avail (Suc d) > target")
      case True
      then show ?thesis using False Cons.prems(4) rm len gone by auto
    next
      case False': False
      have "emergency_loop F cancelled avail low target (Suc i) rest (if ok then Suc d else d) s1 = (d', s')"
        using False False' Cons.prems(4) rm by (auto split: if_splits)
      then show ?thesis using ih len gone by (fastforce split: if_splits)
    qed
  qed
qed auto

lemma GetOldestSegmentsOlderThan_props:
  assumes "store_ok s"
  shows "set (GetOldestSegmentsOlderThan n c s) \<subseteq> {r \<in> set (rows s). seg_EndTime r < c}"
    "distinct (map seg_Path (GetOldestSegmentsOlderThan n c s))"
    "length (GetOldestSegmentsOlderThan n c s) \<le> n"
proof -
  show "set (GetOldestSegmentsOlderThan n c s) \<subseteq> {r \<in> set (rows s). seg_EndTime r < c}"
    by (auto simp: GetOldestSegmentsOlderThan_def dest!: in_set_takeD)
  have "filter (\<lambda>r. seg_EndTime r < c) (by_age s) = sort_key seg_StartTime (filter (\<lambda>r. seg_EndTime r < c) (rows s))"
    by (simp add: by_age_def filter_sort)
  moreover have "distinct (map seg_Path (filter (\<lambda>r. seg_EndTime r < c) (by_age s)))"
    using assms by (simp add: distinct_by_age[symmetric] distinct_map_filter)
  ultimately show "distinct (map seg_Path (GetOldestSegmentsOlderThan n c s))"
    by (simp add: GetOldestSegmentsOlderThan_def take_map[symmetric] distinct_take)
qed (simp add: GetOldestSegmentsOlderThan_def)

text \<open>
  C4. An emergency pass never deletes a segment that ended within the minimum retention, deletes
  at most one batch, and the count it reports is the number of rows that are gone, whatever
  removals fail and whenever it is cancelled.
\<close>

theorem emergencyDelete_respects_floor:
  assumes "store_ok s"
    and "emergencyDeleteLocked F cancelled avail minRequired cfg now s = (Some deleted, s')"
  shows "(\<forall>r \<in> set (rows s) - set (rows s'). seg_EndTime r < now - uc_MinRetention cfg)
     \<and> deleted \<le> uc_BatchSize cfg \<and> length (rows s) = length (rows s') + deleted"
proof -
  let ?c = "GetOldestSegmentsOlderThan (uc_BatchSize cfg) (now - uc_MinRetention cfg) s"
  note props = GetOldestSegmentsOlderThan_props[OF assms(1), of "uc_BatchSize cfg" "now - uc_MinRetention cfg"]
  have sub: "set ?c \<subseteq> set (rows s)" using props(1) by auto
  consider "s' = s" "deleted = 0" | low t where
      "emergency_loop F cancelled avail low t 0 ?c 0 s = (deleted, s')"
    using assms(2) by (auto simp: emergencyDeleteLocked_def tadd_def Let_def split: if_splits prod.splits)
  then show ?thesis
  proof cases
    case 2
    then show ?thesis
      using emergency_loop_removes[OF assms(1) sub props(2) 2] props(1,3) by auto
  qed auto
qed

definition urgent_all :: urgent_config where
  "urgent_all = \<lparr>uc_Enabled = True, uc_MinRetention = 5, uc_BatchSize = 2\<rparr>"

lemma sample_emergency:
  "emergencyDeleteLocked no_faults (\<lambda>_. False) (\<lambda>k. if k = 0 then 10 else 200) 100 urgent_all 10 three_segments =
     (Some 1, DeleteSegment ''a'' (three_segments\<lparr>ops := 1, files := {''b'', ''c''}\<rparr>))"
  by (simp add: emergencyDeleteLocked_def urgent_all_def three_segments_def seg_at_def tadd_def
      GetOldestSegmentsOlderThan_def RemoveSegment_no_faults DeleteSegment_def insert_Diff_if Let_def)

theorem emergencyDelete_respects_floor_witness:
  "set (rows three_segments) - set (rows (DeleteSegment ''a'' (three_segments\<lparr>ops := 1, files := {''b'', ''c''}\<rparr>)))
     \<subseteq> {r. seg_EndTime r < 10 - uc_MinRetention urgent_all}"
  using emergencyDelete_respects_floor[OF three_segments_ok(1) sample_emergency] by blast

lemma emergency_loop_stops:
  assumes "emergency_loop no_faults (\<lambda>_. False) avail low target i cands d s = (d', s')"
    and "\<forall>k. 1 \<le> k \<and> k \<le> d \<longrightarrow> \<not> (low \<and> avail k > target)"
  shows "(\<forall>k. 1 \<le> k \<and> k < d' \<longrightarrow> \<not> (low \<and> avail k > target))
     \<and> (d' = d + length cands \<or> low \<and> avail d' > target \<and> 1 \<le> d')"
  using assms
proof (induction cands arbitrary: i d s)
  case (Cons seg rest)
  show ?case
  proof (cases "low \<and> avail (Suc d) > target")
    case True
    then show ?thesis using Cons.prems by (auto simp: RemoveSegment_no_faults)
  next
    case False
    then obtain s1 i1 where "emergency_loop no_faults (\<lambda>_. False) avail low target i1 rest (Suc d) s1 = (d', s')"
      using Cons.prems(1) by (auto simp: RemoveSegment_no_faults split: if_splits)
    moreover have "\<forall>k. 1 \<le> k \<and> k \<le> Suc d \<longrightarrow> \<not> (low \<and> avail k > target)"
      using False Cons.prems(2) by (auto simp: le_Suc_eq)
    ultimately show ?thesis using Cons.IH by fastforce
  qed
qed auto

text \<open>
  An undisturbed emergency pass makes progress: it either goes through the whole batch of
  candidates, or stops at the first deletion after which the free space exceeds one and a half
  times the required minimum, the latter only when the space was below the minimum at the start.
\<close>

theorem emergencyDelete_progress:
  assumes "uc_Enabled cfg"
    and "emergencyDeleteLocked no_faults (\<lambda>_. False) avail minRequired cfg now s = (Some deleted, s')"
  shows "(\<forall>k. 1 \<le> k \<and> k < deleted \<longrightarrow> \<not> (avail 0 < minRequired \<and> avail k > minRequired * 3 div 2))
     \<and> (deleted = length (GetOldestSegmentsOlderThan (uc_BatchSize cfg) (now - uc_MinRetention cfg) s)
        \<or> avail 0 < minRequired \<and> avail deleted > minRequired * 3 div 2 \<and> 1 \<le> deleted)"
proof -
  let ?c = "GetOldestSegmentsOlderThan (uc_BatchSize cfg) (now - uc_MinRetention cfg) s"
  consider "?c = []" "deleted = 0" | "emergency_loop no_faults (\<lambda>_. False) avail (avail 0 < minRequired)
      (minRequired * 3 div 2) 0 ?c 0 s = (deleted, s')"
    using assms by (auto simp: emergencyDeleteLocked_def tadd_def Let_def split: if_splits prod.splits)
  then show ?thesis
  proof cases
    case 2
    then show ?thesis using emergency_loop_stops[OF 2] by auto
  qed auto
qed

theorem emergencyDelete_progress_witness:
  "uc_Enabled urgent_all \<and>
   (1 = length (GetOldestSegmentsOlderThan (uc_BatchSize urgent_all) (10 - uc_MinRetention urgent_all) three_segments)
    \<or> (10 :: 64 word) < 100 \<and> (200 :: 64 word) > 100 * 3 div 2)"
proof -
  have "uc_Enabled urgent_all" by (simp add: urgent_all_def)
  then show ?thesis using emergencyDelete_progress[OF _ sample_emergency] by simp
qed

end
