(* ===== verification/Disk_Pressure.thy ===== *)
theory Disk_Pressure
  imports Segment_Store
begin

text \<open>
  Free space: \<^verbatim>\<open>internal/media/diskspace.go\<close> (cached readings and the required minimum) and
  \<^verbatim>\<open>internal/recording/diskpressure.go\<close> (classification and change notifications).  Byte counts
  are \<^verbatim>\<open>uint64\<close>, so the doubling of a threshold wraps around.
\<close>

section \<open>DiskSpace\<close>

definition diskCheckInterval :: duration where
  "diskCheckInterval = 5 * Second"

definition thresholdCacheInterval :: duration where
  "thresholdCacheInterval = 5 * Minute"

definition defaultStaticFloor :: "64 word" where
  "defaultStaticFloor = 256 * 1024 * 1024"

text \<open>
  The provider of the largest recent segment is a function of the time to look back to;
  \<open>None\<close> is a query error.  A nil provider is \<open>None\<close> in \<open>ds_provider\<close>.
\<close>

record DiskSpace =
  ds_available :: "64 word"
  ds_total :: "64 word"
  ds_checkedAt :: gotime
  ds_staticFloor :: "64 word"
  ds_provider :: "(gotime \<Rightarrow> int option) option"
  ds_cachedMin :: "64 word"
  ds_thresholdTime :: gotime

text \<open>A successful \<^verbatim>\<open>statfs\<close> is (free blocks, all blocks, block size).\<close>

type_synonym statfs = "(64 word \<times> 64 word \<times> 64 word) option"

definition refresh :: "statfs \<Rightarrow> gotime \<Rightarrow> DiskSpace \<Rightarrow> DiskSpace" where
  "refresh st now ds =
     (case st of
        None \<Rightarrow> ds
      | Some (bavail, blocks, bsize) \<Rightarrow>
          ds\<lparr>ds_available := bavail * bsize, ds_total := blocks * bsize, ds_checkedAt := now\<rparr>)"

definition Available :: "statfs \<Rightarrow> gotime \<Rightarrow> gotime \<Rightarrow> DiskSpace \<Rightarrow> 64 word \<times> DiskSpace" where
  "Available st now now' ds =
     (let ds' = (if tsub now (ds_checkedAt ds) > diskCheckInterval then refresh st now' ds else ds)
      in (ds_available ds', ds'))"

definition Total :: "statfs \<Rightarrow> gotime \<Rightarrow> gotime \<Rightarrow> DiskSpace \<Rightarrow> 64 word \<times> DiskSpace" where
  "Total st now now' ds =
     (let ds' = (if tsub now (ds_checkedAt ds) > diskCheckInterval then refresh st now' ds else ds)
      in (ds_total ds', ds'))"

definition SetThreshold :: "64 word \<Rightarrow> (gotime \<Rightarrow> int option) option \<Rightarrow> DiskSpace \<Rightarrow> DiskSpace" where
  "SetThreshold floor provider ds =
     ds\<lparr>ds_staticFloor := (if floor = 0 then defaultStaticFloor else floor),
        ds_provider := provider, ds_cachedMin := 0, ds_thresholdTime := zeroTime\<rparr>"

definition MinRequired :: "gotime \<Rightarrow> gotime \<Rightarrow> gotime \<Rightarrow> DiskSpace \<Rightarrow> 64 word \<times> DiskSpace" where
  "MinRequired now now2 now3 ds =
     (if ds_cachedMin ds > 0 \<and> tsub now (ds_thresholdTime ds) < thresholdCacheInterval
      then (ds_cachedMin ds, ds)
      else
        let floor = ds_staticFloor ds;
            m = (case ds_provider ds of
                   None \<Rightarrow> floor
                 | Some provider \<Rightarrow>
                     (case provider (tadd now2 (- Hour)) of
                        None \<Rightarrow> floor
                      | Some largest \<Rightarrow>
                          if largest > 0
                          then let dyn = word_of_int largest * 2 in if dyn > floor then dyn else floor
                          else floor))
        in (m, ds\<lparr>ds_cachedMin := m, ds_thresholdTime := now3\<rparr>))"

text \<open>
  A threshold the monitor has computed is never below the configured floor: the cache is either
  empty or at least the floor.
\<close>

definition ds_ok :: "DiskSpace \<Rightarrow> bool" where
  "ds_ok ds \<longleftrightarrow> ds_staticFloor ds > 0 \<and> (ds_cachedMin ds > 0 \<longrightarrow> ds_staticFloor ds \<le> ds_cachedMin ds)"

lemma ds_ok_SetThreshold: "ds_ok (SetThreshold floor provider ds)"
  by (simp add: ds_ok_def SetThreshold_def defaultStaticFloor_def word_gt_0)

lemma ds_ok_refresh: "ds_ok ds \<Longrightarrow> ds_ok (refresh st now ds)"
  by (auto simp: ds_ok_def refresh_def split: option.splits)

lemma ds_ok_MinRequired: "ds_ok ds \<Longrightarrow> ds_ok (snd (MinRequired now now2 now3 ds))"
  by (auto simp: ds_ok_def MinRequired_def Let_def split: option.splits)

lemma MinRequired_dynamic:
  assumes "0 < largest" and "largest < 2 ^ 63"
  shows "unat (word_of_int largest * 2 :: 64 word) = 2 * nat largest"
proof -
  have "uint (word_of_int largest :: 64 word) = largest"
    using assms by (simp add: uint_word_of_int)
  then have "uint (word_of_int largest * 2 :: 64 word) = largest * 2"
    using assms by (simp add: uint_word_ariths)
  then show ?thesis using assms by (simp add: unat_eq_nat_uint)
qed

text \<open>
  The required free space is at least the configured floor, whether it is read from the cache
  or computed, and a computed value also covers two segments of the largest recent size.
\<close>

theorem MinRequired_covers:
  assumes "ds_ok ds" and "MinRequired now now2 now3 ds = (m, ds')"
  shows "ds_staticFloor ds \<le> m \<and> 0 < m \<and> ds_ok ds' \<and>
     (\<forall>provider largest. ds_provider ds = Some provider \<and> provider (tadd now2 (- Hour)) = Some largest
        \<and> 0 < largest \<and> largest < 2 ^ 63
        \<and> \<not> (ds_cachedMin ds > 0 \<and> tsub now (ds_thresholdTime ds) < thresholdCacheInterval)
        \<longrightarrow> 2 * nat largest \<le> unat m)"
proof -
  have ok: "ds_ok ds'" using ds_ok_MinRequired[OF assms(1), of now now2 now3] assms(2) by simp
  have floor: "ds_staticFloor ds \<le> m"
    using assms by (auto simp: MinRequired_def ds_ok_def Let_def split: option.splits if_splits)
  moreover from this have "0 < m" using assms(1) by (auto simp: ds_ok_def intro: less_le_trans)
  moreover have "2 * nat largest \<le> unat m"
    if "ds_provider ds = Some provider" "provider (tadd now2 (- Hour)) = Some largest"
      "0 < largest" "largest < 2 ^ 63"
      "\<not> (ds_cachedMin ds > 0 \<and> tsub now (ds_thresholdTime ds) < thresholdCacheInterval)"
    for provider largest
  proof -
    have "(if word_of_int largest * 2 > ds_staticFloor ds then word_of_int largest * 2 else ds_staticFloor ds) = m"
      using assms(2) that by (auto simp: MinRequired_def Let_def split: if_splits)
    then have "word_of_int largest * 2 \<le> m" by (auto split: if_splits)
    then show ?thesis using MinRequired_dynamic[OF that(3,4)] by (simp add: word_le_nat_alt)
  qed
  ultimately show ?thesis using ok by blast
qed

definition sample_ds :: DiskSpace where
  "sample_ds = SetThreshold 1000 (Some (\<lambda>_. Some 800))
     \<lparr>ds_available = 0, ds_total = 0, ds_checkedAt = 0, ds_staticFloor = 1, ds_provider = None,
      ds_cachedMin = 0, ds_thresholdTime = 0\<rparr>"

theorem MinRequired_covers_witness:
  "ds_ok sample_ds \<and> fst (MinRequired 7 7 7 sample_ds) = 1600 \<and> 2 * nat 800 \<le> unat (1600 :: 64 word)"
proof -
  have ok: "ds_ok sample_ds" by (simp add: sample_ds_def ds_ok_SetThreshold)
  have "MinRequired 7 7 7 sample_ds = (1600, sample_ds\<lparr>ds_cachedMin := 1600, ds_thresholdTime := 7\<rparr>)"
    by (simp add: sample_ds_def SetThreshold_def MinRequired_def)
  from MinRequired_covers[OF ok this] ok this show ?thesis by simp
qed

section \<open>DiskMonitor\<close>

datatype DiskLevel = DiskLevelOK | DiskLevelWarning | DiskLevelCritical | DiskLevelPaused

fun DiskLevel_String :: "DiskLevel \<Rightarrow> string" where
  "DiskLevel_String DiskLevelOK = ''ok''"
| "DiskLevel_String DiskLevelWarning = ''warning''"
| "DiskLevel_String DiskLevelCritical = ''critical''"
| "DiskLevel_String DiskLevelPaused = ''paused''"

record DiskEvent =
  de_Level :: DiskLevel
  de_Available :: "64 word"
  de_Total :: "64 word"

record DiskMonitor =
  dm_paused :: bool
  dm_lastLevel :: DiskLevel
  dm_subscribers :: "DiskEvent channel list"

definition NewDiskMonitor :: DiskMonitor where
  "NewDiskMonitor = \<lparr>dm_paused = False, dm_lastLevel = DiskLevelOK, dm_subscribers = []\<rparr>"

definition Classify :: "64 word \<Rightarrow> 64 word \<Rightarrow> DiskMonitor \<Rightarrow> DiskLevel" where
  "Classify avail thresh m =
     (if dm_paused m then DiskLevelPaused
      else if avail < thresh then DiskLevelCritical
      else if avail < 2 * thresh then DiskLevelWarning
      else DiskLevelOK)"

definition SetPaused :: "bool \<Rightarrow> DiskMonitor \<Rightarrow> DiskMonitor" where
  "SetPaused b m = m\<lparr>dm_paused := b\<rparr>"

definition Subscribe :: "DiskEvent channel \<Rightarrow> DiskMonitor \<Rightarrow> DiskMonitor" where
  "Subscribe ch m = m\<lparr>dm_subscribers := dm_subscribers m @ [ch]\<rparr>"

text \<open>
  One sample: the sampler is read for the classification and, after a change, once more for the
  event.  The event is offered to every subscriber without blocking.
\<close>

record reading =
  rd_available :: "64 word"
  rd_minRequired :: "64 word"
  rd_available2 :: "64 word"
  rd_total :: "64 word"

definition sampleOnce :: "reading \<Rightarrow> DiskMonitor \<Rightarrow> DiskEvent option \<times> DiskMonitor" where
  "sampleOnce rd m =
     (let level = Classify (rd_available rd) (rd_minRequired rd) m
      in if level = dm_lastLevel m then (None, m)
         else let ev = \<lparr>de_Level = level, de_Available = rd_available2 rd, de_Total = rd_total rd\<rparr>
              in (Some ev, m\<lparr>dm_lastLevel := level,
                             dm_subscribers := map (\<lambda>ch. snd (try_send ev ch)) (dm_subscribers m)\<rparr>))"

text \<open>
  The classification, for thresholds below \<open>2 ^ 63\<close> bytes: paused wins; otherwise critical is
  exactly "below the threshold", warning exactly "from the threshold up to twice the
  threshold", and OK everything above.
\<close>

theorem Classify_levels:
  assumes "unat thresh < 2 ^ 63"
  shows "Classify avail thresh m =
     (if dm_paused m then DiskLevelPaused
      else if unat avail < unat thresh then DiskLevelCritical
      else if unat avail < 2 * unat thresh then DiskLevelWarning
      else DiskLevelOK)"
proof -
  have "unat (2 * thresh) = 2 * unat thresh"
    using assms by (simp add: unat_word_ariths)
  then show ?thesis by (simp add: Classify_def word_less_nat_alt)
qed

theorem Classify_levels_witness:
  "Classify 150 100 NewDiskMonitor = DiskLevelWarning"
  using Classify_levels[of 100 150 NewDiskMonitor] by (simp add: NewDiskMonitor_def)

subsection \<open>What subscribers see\<close>

datatype monitor_op = Sample reading | Pause bool

fun monitor_run :: "monitor_op list \<Rightarrow> DiskMonitor \<Rightarrow> DiskEvent list \<times> DiskMonitor" where
  "monitor_run [] m = ([], m)"
| "monitor_run (Pause b # os) m = monitor_run os (SetPaused b m)"
| "monitor_run (Sample rd # os) m =
     (case sampleOnce rd m of (ev, m1) \<Rightarrow> case monitor_run os m1 of (evs, m2) \<Rightarrow>
        ((case ev of None \<Rightarrow> evs | Some e \<Rightarrow> e # evs), m2))"

text \<open>The level each sample of a run finds.\<close>

fun sampled_levels :: "monitor_op list \<Rightarrow> DiskMonitor \<Rightarrow> DiskLevel list" where
  "sampled_levels [] m = []"
| "sampled_levels (Pause b # os) m = sampled_levels os (SetPaused b m)"
| "sampled_levels (Sample rd # os) m =
     Classify (rd_available rd) (rd_minRequired rd) m # sampled_levels os m"

lemma sampled_levels_cong:
  "dm_paused m = dm_paused m' \<Longrightarrow> sampled_levels os m = sampled_levels os m'"
proof (induction os arbitrary: m m')
  case (Cons e os)
  have "sampled_levels os (SetPaused b m) = sampled_levels os (SetPaused b m')" for b
    by (rule Cons.IH) (simp add: SetPaused_def)
  moreover have "sampled_levels os m = sampled_levels os m'" using Cons.prems by (rule Cons.IH)
  ultimately show ?case using Cons.prems by (cases e) (simp_all add: Classify_def)
qed simp

lemma sampleOnce_paused: "sampleOnce rd m = (ev, m') \<Longrightarrow> dm_paused m' = dm_paused m"
  by (auto simp: sampleOnce_def Let_def split: if_splits)

lemma remdups_adj_Cons_tl:
  "tl (remdups_adj (x # y # ys)) = (if x = y then tl (remdups_adj (y # ys)) else y # tl (remdups_adj (y # ys)))"
  by (auto simp: remdups_adj_Cons split: list.splits)

lemma monitor_run_levels:
  "monitor_run os m = (evs, m') \<Longrightarrow>
     map de_Level evs = tl (remdups_adj (dm_lastLevel m # sampled_levels os m))"
proof (induction os m arbitrary: evs rule: monitor_run.induct)
  case (2 b os m)
  then show ?case by (auto simp: SetPaused_def)
next
  case (3 rd os m)
  obtain ev m1 where s: "sampleOnce rd m = (ev, m1)" by force
  obtain evs1 where r: "monitor_run os m1 = (evs1, m')" using "3.prems" s by (auto split: prod.splits)
  have lv: "sampled_levels os m1 = sampled_levels os m"
    using sampleOnce_paused[OF s] by (rule sampled_levels_cong)
  have "map de_Level evs1 = tl (remdups_adj (dm_lastLevel m1 # sampled_levels os m))"
    using "3.IH"[OF s[symmetric] r] lv by simp
  then show ?case
    using "3.prems" s r
    by (auto simp: sampleOnce_def Let_def remdups_adj_Cons_tl split: if_splits)
qed auto

text \<open>
  Over any sequence of samples and pauses the monitor emits exactly the level transitions:
  the levels of the emitted events are the sampled levels with consecutive repetitions
  removed, starting from the level known before.  No transition is missed and no level is
  announced twice in a row.
\<close>

theorem monitor_emits_transitions:
  "map de_Level (fst (monitor_run os m)) = tl (remdups_adj (dm_lastLevel m # sampled_levels os m))"
  using monitor_run_levels by (metis prod.collapse)

text \<open>A subscriber whose channel has room for everything receives every event, in order.\<close>

lemma sampleOnce_delivers:
  assumes "sampleOnce rd m = (Some ev, m')" and "i < length (dm_subscribers m)"
    and "length (ch_buf (dm_subscribers m ! i)) < ch_cap (dm_subscribers m ! i)"
  shows "ch_buf (dm_subscribers m' ! i) = ch_buf (dm_subscribers m ! i) @ [ev]"
  using assms by (auto simp: sampleOnce_def Let_def try_send_def split: if_splits)

end
