(* ===== verification/Recording_Sessions.thy ===== *)
theory Recording_Sessions
  imports Go_Prelude
begin

text \<open>
  Recording sessions and their leases: \<^verbatim>\<open>StartRecording\<close>, \<^verbatim>\<open>holdLease\<close>, \<^verbatim>\<open>releaseLease\<close> and
  \<^verbatim>\<open>StopRecording\<close> of \<^verbatim>\<open>internal/recording/segment.go\<close>.  Every locked section and every point where
  a goroutine waits is a step of its own, so all interleavings of callers, leases and recording
  goroutines are covered.

  A session is named by its position in the list of all sessions ever made.  The contexts of
  callers may end at any time; a session's own context is cancelled exactly when it is stopped.
\<close>

section \<open>State\<close>

text \<open>
  Where the goroutine of a session is: waiting for the previous session (or about to look at it),
  inside \<^verbatim>\<open>recordLoop\<close>, or gone.
\<close>

datatype phase = Waiting "nat option" | Recording | Exited

record recordingSession =
  rs_camera :: string
  rs_refs :: nat
  rs_stopped :: bool
  rs_leases :: nat
  rs_phase :: phase

text \<open>\<open>rs_leases\<close> counts the \<^verbatim>\<open>holdLease\<close> goroutines that have not released yet.\<close>

record SegmentRecorder =
  sr_all :: "recordingSession list"
  sr_sessions :: "string \<rightharpoonup> nat"

definition NewSegmentRecorder :: SegmentRecorder where
  "NewSegmentRecorder = \<lparr>sr_all = [], sr_sessions = Map.empty\<rparr>"

section \<open>Operations\<close>

definition on_session :: "nat \<Rightarrow> (recordingSession \<Rightarrow> recordingSession) \<Rightarrow> SegmentRecorder \<Rightarrow> SegmentRecorder" where
  "on_session k f sr = sr\<lparr>sr_all := (sr_all sr)[k := f (sr_all sr ! k)]\<rparr>"

definition StartRecording :: "string \<Rightarrow> SegmentRecorder \<Rightarrow> SegmentRecorder" where
  "StartRecording cam sr =
     (case sr_sessions sr cam of
        Some k \<Rightarrow>
          if \<not> rs_stopped (sr_all sr ! k)
          then on_session k (\<lambda>s. s\<lparr>rs_refs := rs_refs s + 1, rs_leases := rs_leases s + 1\<rparr>) sr
          else sr\<lparr>sr_all := sr_all sr @ [\<lparr>rs_camera = cam, rs_refs = 1, rs_stopped = False, rs_leases = 1,
                                        rs_phase = Waiting (Some k)\<rparr>],
                  sr_sessions := (sr_sessions sr)(cam \<mapsto> length (sr_all sr))\<rparr>
      | None \<Rightarrow>
          sr\<lparr>sr_all := sr_all sr @ [\<lparr>rs_camera = cam, rs_refs = 1, rs_stopped = False, rs_leases = 1,
                                   rs_phase = Waiting None\<rparr>],
             sr_sessions := (sr_sessions sr)(cam \<mapsto> length (sr_all sr))\<rparr>)"

definition releaseLease :: "nat \<Rightarrow> SegmentRecorder \<Rightarrow> SegmentRecorder" where
  "releaseLease k sr =
     on_session k (\<lambda>s.
       let s1 = s\<lparr>rs_refs := rs_refs s - 1, rs_leases := rs_leases s - 1\<rparr>
       in if rs_refs s1 = 0 \<and> \<not> rs_stopped s1 then s1\<lparr>rs_stopped := True\<rparr> else s1) sr"

definition StopRecording :: "string \<Rightarrow> SegmentRecorder \<Rightarrow> SegmentRecorder" where
  "StopRecording cam sr =
     (case sr_sessions sr cam of
        None \<Rightarrow> sr
      | Some k \<Rightarrow>
          if rs_stopped (sr_all sr ! k) then sr
          else on_session k (\<lambda>s. s\<lparr>rs_stopped := True, rs_refs := 0\<rparr>) sr)"

text \<open>The deferred clean-up of a recording goroutine: leave the table, close \<^verbatim>\<open>done\<close>.\<close>

definition session_exit :: "nat \<Rightarrow> SegmentRecorder \<Rightarrow> SegmentRecorder" where
  "session_exit k sr =
     (let cam = rs_camera (sr_all sr ! k);
          sr1 = on_session k (\<lambda>s. s\<lparr>rs_phase := Exited\<rparr>) sr
      in if sr_sessions sr cam = Some k then sr1\<lparr>sr_sessions := (sr_sessions sr)(cam := None)\<rparr> else sr1)"

section \<open>Steps\<close>

text \<open>
  \<open>patient\<close> rules out the step in which a session gives up waiting for its predecessor.  A recording
  goroutine may leave \<^verbatim>\<open>recordLoop\<close> at any time: its context ended, or no consumer could be built.
\<close>

inductive session_step :: "bool \<Rightarrow> SegmentRecorder \<Rightarrow> SegmentRecorder \<Rightarrow> bool" for patient :: bool where
  start: "session_step patient sr (StartRecording cam sr)"
| stop: "session_step patient sr (StopRecording cam sr)"
| release: "k < length (sr_all sr) \<Longrightarrow> 0 < rs_leases (sr_all sr ! k) \<Longrightarrow> session_step patient sr (releaseLease k sr)"
| begin_recording: "k < length (sr_all sr) \<Longrightarrow> rs_phase (sr_all sr ! k) = Waiting prev \<Longrightarrow>
     (\<And>p. prev = Some p \<Longrightarrow> rs_phase (sr_all sr ! p) = Exited) \<Longrightarrow>
     session_step patient sr (on_session k (\<lambda>s. s\<lparr>rs_phase := Recording\<rparr>) sr)"
| abandon: "\<not> patient \<Longrightarrow> k < length (sr_all sr) \<Longrightarrow> rs_phase (sr_all sr ! k) = Waiting (Some p) \<Longrightarrow>
     rs_stopped (sr_all sr ! k) \<Longrightarrow> session_step patient sr (session_exit k sr)"
| finish_recording: "k < length (sr_all sr) \<Longrightarrow> rs_phase (sr_all sr ! k) = Recording \<Longrightarrow>
     session_step patient sr (session_exit k sr)"

inductive session_reachable :: "bool \<Rightarrow> SegmentRecorder \<Rightarrow> bool" for patient :: bool where
  init: "session_reachable patient NewSegmentRecorder"
| step: "session_reachable patient sr \<Longrightarrow> session_step patient sr sr' \<Longrightarrow> session_reachable patient sr'"

definition writers :: "string \<Rightarrow> SegmentRecorder \<Rightarrow> nat set" where
  "writers cam sr = {k. k < length (sr_all sr) \<and> rs_camera (sr_all sr ! k) = cam \<and> rs_phase (sr_all sr ! k) = Recording}"

section \<open>Leases\<close>

text \<open>
  A session that is not stopped has as many references as callers that still hold it, and at
  least one; the table only names existing sessions of its camera.
\<close>

definition lease_ok :: "recordingSession \<Rightarrow> bool" where
  "lease_ok s \<longleftrightarrow> (\<not> rs_stopped s \<longrightarrow> rs_refs s = rs_leases s \<and> 0 < rs_refs s)"

definition table_ok :: "SegmentRecorder \<Rightarrow> bool" where
  "table_ok sr \<longleftrightarrow> (\<forall>cam k. sr_sessions sr cam = Some k \<longrightarrow> k < length (sr_all sr) \<and> rs_camera (sr_all sr ! k) = cam)"

definition leases_ok :: "SegmentRecorder \<Rightarrow> bool" where
  "leases_ok sr \<longleftrightarrow> table_ok sr \<and> (\<forall>s\<in>set (sr_all sr). lease_ok s)"

lemma on_session_length [simp]: "length (sr_all (on_session k f sr)) = length (sr_all sr)"
  by (simp add: on_session_def)

lemma on_session_nth:
  "i < length (sr_all sr) \<Longrightarrow>
     sr_all (on_session k f sr) ! i = (if i = k then f (sr_all sr ! k) else sr_all sr ! i)"
  by (auto simp: on_session_def nth_list_update)

lemma on_session_table [simp]: "sr_sessions (on_session k f sr) = sr_sessions sr"
  by (simp add: on_session_def)

lemma all_sessions_iff: "(\<forall>s\<in>set xs. P s) \<longleftrightarrow> (\<forall>i<length xs. P (xs ! i))"
  by (auto simp: all_set_conv_all_nth)

lemma on_session_leases_ok:
  assumes "leases_ok sr" and "k < length (sr_all sr)" and "lease_ok (f (sr_all sr ! k))"
    and "rs_camera (f (sr_all sr ! k)) = rs_camera (sr_all sr ! k)"
  shows "leases_ok (on_session k f sr)"
  using assms unfolding leases_ok_def table_ok_def all_sessions_iff
  by (auto simp: on_session_nth)

lemma session_step_leases_ok:
  assumes "session_step patient sr sr'" and "leases_ok sr"
  shows "leases_ok sr'"
proof -
  have at: "lease_ok (sr_all sr ! k)" if "k < length (sr_all sr)" for k
    using assms(2) that by (simp add: leases_ok_def)
  have tab: "k < length (sr_all sr) \<and> rs_camera (sr_all sr ! k) = cam" if "sr_sessions sr cam = Some k" for cam k
    using assms(2) that by (auto simp: leases_ok_def table_ok_def)
  have exit_ok: "leases_ok (session_exit k sr)" if k: "k < length (sr_all sr)" for k
  proof -
    have "leases_ok (on_session k (\<lambda>s. s\<lparr>rs_phase := Exited\<rparr>) sr)"
      by (rule on_session_leases_ok[OF assms(2) k]) (use at[OF k] in \<open>auto simp: lease_ok_def\<close>)
    then show ?thesis by (auto simp: session_exit_def Let_def leases_ok_def table_ok_def)
  qed
  have new_ok: "leases_ok (sr\<lparr>sr_all := sr_all sr @ [\<lparr>rs_camera = cam, rs_refs = 1, rs_stopped = False,
      rs_leases = 1, rs_phase = ph\<rparr>], sr_sessions := (sr_sessions sr)(cam \<mapsto> length (sr_all sr))\<rparr>)" for cam ph
    using assms(2) by (auto simp: leases_ok_def table_ok_def lease_ok_def nth_append less_SucI)
  from assms(1) show ?thesis
  proof cases
    case (start cam)
    then show ?thesis using new_ok tab at
      by (auto simp: StartRecording_def lease_ok_def split: option.splits intro!: on_session_leases_ok[OF assms(2)])
  next
    case (stop cam)
    then show ?thesis using assms(2) tab
      by (auto simp: StopRecording_def lease_ok_def split: option.splits intro!: on_session_leases_ok[OF assms(2)])
  next
    case (release k)
    then show ?thesis using at[of k] unfolding release(1) releaseLease_def
      by (intro on_session_leases_ok[OF assms(2)]) (auto simp: lease_ok_def Let_def)
  next
    case (begin_recording k prev)
    then show ?thesis using at[of k] by (auto simp: lease_ok_def intro!: on_session_leases_ok[OF assms(2)])
  next
    case (abandon k p)
    then show ?thesis using exit_ok by simp
  next
    case (finish_recording k)
    then show ?thesis using exit_ok by simp
  qed
qed

lemma reachable_leases_ok: "session_reachable patient sr \<Longrightarrow> leases_ok sr"
proof (induction rule: session_reachable.induct)
  case init
  show ?case by (simp add: NewSegmentRecorder_def leases_ok_def table_ok_def)
qed (rule session_step_leases_ok)

section \<open>One writer per camera\<close>

definition alive :: "SegmentRecorder \<Rightarrow> string \<Rightarrow> nat \<Rightarrow> bool" where
  "alive sr c i \<longleftrightarrow> i < length (sr_all sr) \<and> rs_camera (sr_all sr ! i) = c \<and> rs_phase (sr_all sr ! i) \<noteq> Exited"

text \<open>
  Per camera: the table names a live session at least as new as every live one; a live session with
  an older live one is waiting, for a session no older than that one; once a session is gone, so are
  all its elders.
\<close>

definition order_ok :: "SegmentRecorder \<Rightarrow> bool" where
  "order_ok sr \<longleftrightarrow>
     (\<forall>c j. alive sr c j \<longrightarrow> (\<exists>k\<ge>j. sr_sessions sr c = Some k \<and> alive sr c k)) \<and>
     (\<forall>c i j. alive sr c i \<longrightarrow> alive sr c j \<longrightarrow> i < j \<longrightarrow>
        (\<exists>p. rs_phase (sr_all sr ! j) = Waiting (Some p) \<and> i \<le> p \<and> p < length (sr_all sr) \<and>
             rs_camera (sr_all sr ! p) = c)) \<and>
     (\<forall>c i p. alive sr c i \<longrightarrow> i \<le> p \<longrightarrow> p < length (sr_all sr) \<longrightarrow> rs_camera (sr_all sr ! p) = c \<longrightarrow>
        alive sr c p)"

lemma order_okD_table: "order_ok sr \<Longrightarrow> alive sr c j \<Longrightarrow> \<exists>k\<ge>j. sr_sessions sr c = Some k \<and> alive sr c k"
  unfolding order_ok_def by blast

lemma order_okD_wait:
  "order_ok sr \<Longrightarrow> alive sr c i \<Longrightarrow> alive sr c j \<Longrightarrow> i < j \<Longrightarrow>
     \<exists>p. rs_phase (sr_all sr ! j) = Waiting (Some p) \<and> i \<le> p \<and> p < length (sr_all sr) \<and>
         rs_camera (sr_all sr ! p) = c"
  unfolding order_ok_def by blast

lemma order_okD_elder:
  "order_ok sr \<Longrightarrow> alive sr c i \<Longrightarrow> i \<le> p \<Longrightarrow> p < length (sr_all sr) \<Longrightarrow> rs_camera (sr_all sr ! p) = c \<Longrightarrow>
     alive sr c p"
  unfolding order_ok_def by blast

lemma order_okI:
  assumes "\<And>c j. alive sr c j \<Longrightarrow> \<exists>k\<ge>j. sr_sessions sr c = Some k \<and> alive sr c k"
    and "\<And>c i j. alive sr c i \<Longrightarrow> alive sr c j \<Longrightarrow> i < j \<Longrightarrow>
      \<exists>p. rs_phase (sr_all sr ! j) = Waiting (Some p) \<and> i \<le> p \<and> p < length (sr_all sr) \<and> rs_camera (sr_all sr ! p) = c"
    and "\<And>c i p. alive sr c i \<Longrightarrow> i \<le> p \<Longrightarrow> p < length (sr_all sr) \<Longrightarrow> rs_camera (sr_all sr ! p) = c \<Longrightarrow> alive sr c p"
  shows "order_ok sr"
  using assms unfolding order_ok_def by blast

text \<open>Steps that change neither camera nor phase of a session, nor the table, keep the order.\<close>

lemma on_session_order_ok:
  assumes "order_ok sr" and "rs_camera (f (sr_all sr ! k)) = rs_camera (sr_all sr ! k)"
    and "rs_phase (f (sr_all sr ! k)) = rs_phase (sr_all sr ! k)"
  shows "order_ok (on_session k f sr)"
proof -
  have nth: "rs_camera (sr_all (on_session k f sr) ! i) = rs_camera (sr_all sr ! i)"
       "rs_phase (sr_all (on_session k f sr) ! i) = rs_phase (sr_all sr ! i)" for i
  proof -
    consider "length (sr_all sr) \<le> k" | "k < length (sr_all sr)" "i = k" | "i \<noteq> k" by linarith
    then have "rs_camera (sr_all (on_session k f sr) ! i) = rs_camera (sr_all sr ! i) \<and>
        rs_phase (sr_all (on_session k f sr) ! i) = rs_phase (sr_all sr ! i)"
      using assms(2,3) by cases (simp_all add: on_session_def list_update_beyond)
    then show "rs_camera (sr_all (on_session k f sr) ! i) = rs_camera (sr_all sr ! i)"
       "rs_phase (sr_all (on_session k f sr) ! i) = rs_phase (sr_all sr ! i)" by simp_all
  qed
  have al: "alive (on_session k f sr) c i = alive sr c i" for c i by (simp add: alive_def nth)
  have "order_ok (on_session k f sr) = order_ok sr"
    by (simp only: order_ok_def al nth on_session_length on_session_table)
  then show ?thesis using assms(1) by blast
qed

lemma new_session_order_ok:
  assumes ok: "order_ok sr" and prev: "sr_sessions sr cam = prev"
    and tab: "\<And>k. prev = Some k \<Longrightarrow> k < length (sr_all sr) \<and> rs_camera (sr_all sr ! k) = cam"
    and s: "rs_camera s = cam" "rs_phase s = Waiting prev"
  shows "order_ok (sr\<lparr>sr_all := sr_all sr @ [s], sr_sessions := (sr_sessions sr)(cam \<mapsto> length (sr_all sr))\<rparr>)"
    (is "order_ok ?sr")
proof -
  let ?n = "length (sr_all sr)"
  have al: "alive ?sr c i \<longleftrightarrow> alive sr c i \<or> (i = ?n \<and> c = cam)" for c i
    using s by (auto simp: alive_def nth_append)
  have bnd: "alive sr c i \<Longrightarrow> i < ?n" for c i by (simp add: alive_def)
  show ?thesis
  proof (rule order_okI)
    fix c j assume a: "alive ?sr c j"
    show "\<exists>k\<ge>j. sr_sessions ?sr c = Some k \<and> alive ?sr c k"
    proof (cases "c = cam")
      case True
      then show ?thesis using a al bnd by (auto simp: less_imp_le)
    next
      case False
      then have "alive sr c j" using a al by blast
      then obtain k where "k \<ge> j" "sr_sessions sr c = Some k" "alive sr c k" using order_okD_table[OF ok] by blast
      then show ?thesis using False al by auto
    qed
  next
    fix c i j assume a: "alive ?sr c i" "alive ?sr c j" "i < j"
    show "\<exists>p. rs_phase (sr_all ?sr ! j) = Waiting (Some p) \<and> i \<le> p \<and> p < length (sr_all ?sr) \<and> rs_camera (sr_all ?sr ! p) = c"
    proof (cases "j = ?n")
      case True
      then have "c = cam" "alive sr cam i" using a al bnd by auto
      then obtain k where k: "k \<ge> i" "sr_sessions sr cam = Some k" using order_okD_table[OF ok] by blast
      then show ?thesis using True prev tab[of k] s \<open>c = cam\<close> by (auto simp: nth_append)
    next
      case False
      then have "alive sr c j" using a(2) al by blast
      then have "i < ?n" using bnd[of c j] a(3) by simp
      then have "alive sr c i" using a(1) al[of c i] by auto
      with \<open>alive sr c j\<close> obtain p where "rs_phase (sr_all sr ! j) = Waiting (Some p)" "i \<le> p" "p < ?n" "rs_camera (sr_all sr ! p) = c"
        using order_okD_wait[OF ok _ _ a(3)] by blast
      then show ?thesis using bnd[OF \<open>alive sr c j\<close>] by (auto simp: nth_append)
    qed
  next
    fix c i p assume a: "alive ?sr c i" "i \<le> p" "p < length (sr_all ?sr)" "rs_camera (sr_all ?sr ! p) = c"
    show "alive ?sr c p"
    proof (cases "p = ?n")
      case True
      then show ?thesis using a s al by (auto simp: nth_append)
    next
      case False
      then have p: "p < ?n" using a(3) by simp
      then have "alive sr c i" using a(1,2) al by auto
      moreover have "rs_camera (sr_all sr ! p) = c" using a(4) p by (simp add: nth_append)
      ultimately show ?thesis using order_okD_elder[OF ok _ a(2) p] al by blast
    qed
  qed
qed

lemma begin_order_ok:
  assumes ok: "order_ok sr" and k: "k < length (sr_all sr)" "rs_phase (sr_all sr ! k) = Waiting prev"
    and gone: "\<And>p. prev = Some p \<Longrightarrow> rs_phase (sr_all sr ! p) = Exited"
  shows "order_ok (on_session k (\<lambda>s. s\<lparr>rs_phase := Recording\<rparr>) sr)" (is "order_ok ?sr")
proof -
  have cam: "rs_camera (sr_all ?sr ! i) = rs_camera (sr_all sr ! i)" if "i < length (sr_all sr)" for i
    using that by (simp add: on_session_nth)
  have al: "alive ?sr c i = alive sr c i" for c i
    using k by (cases "i < length (sr_all sr)") (auto simp: alive_def on_session_nth)
  have no_elder: False if el: "alive sr c i" "alive sr c k" "i < k" for c i
  proof -
    obtain p where p: "rs_phase (sr_all sr ! k) = Waiting (Some p)" "i \<le> p" "p < length (sr_all sr)" "rs_camera (sr_all sr ! p) = c"
      using order_okD_wait[OF ok el] by blast
    then have "alive sr c p" using order_okD_elder[OF ok el(1)] by blast
    then show False using p gone k by (simp add: alive_def)
  qed
  show ?thesis
  proof (rule order_okI, unfold al)
    fix c j assume "alive sr c j"
    then show "\<exists>k'\<ge>j. sr_sessions ?sr c = Some k' \<and> alive sr c k'" using order_okD_table[OF ok] by simp
  next
    fix c i j assume a: "alive sr c i" "alive sr c j" "i < j"
    then have "j \<noteq> k" using no_elder by blast
    moreover have "j < length (sr_all sr)" using a(2) by (simp add: alive_def)
    moreover obtain p where "rs_phase (sr_all sr ! j) = Waiting (Some p)" "i \<le> p" "p < length (sr_all sr)" "rs_camera (sr_all sr ! p) = c"
      using order_okD_wait[OF ok a] by blast
    ultimately show "\<exists>p. rs_phase (sr_all ?sr ! j) = Waiting (Some p) \<and> i \<le> p \<and> p < length (sr_all ?sr) \<and> rs_camera (sr_all ?sr ! p) = c"
      by (auto simp: on_session_nth)
  next
    fix c i p assume "alive sr c i" "i \<le> p" "p < length (sr_all ?sr)" "rs_camera (sr_all ?sr ! p) = c"
    then show "alive sr c p" using order_okD_elder[OF ok] cam by simp
  qed
qed

lemma exit_order_ok:
  assumes ok: "order_ok sr" and tab: "table_ok sr" and k: "k < length (sr_all sr)" "rs_phase (sr_all sr ! k) = Recording"
  shows "order_ok (session_exit k sr)" (is "order_ok ?sr")
proof -
  let ?c = "rs_camera (sr_all sr ! k)"
  have len: "length (sr_all ?sr) = length (sr_all sr)" by (simp add: session_exit_def Let_def)
  have nth: "sr_all ?sr ! i = (if i = k then (sr_all sr ! k)\<lparr>rs_phase := Exited\<rparr> else sr_all sr ! i)"
    if "i < length (sr_all sr)" for i
    using that by (simp add: session_exit_def Let_def on_session_nth)
  have al: "alive ?sr c i \<longleftrightarrow> alive sr c i \<and> i \<noteq> k" for c i by (auto simp: alive_def len nth split: if_splits)
  have alk: "alive sr ?c k" using k by (simp add: alive_def)
  have no_elder: False if "alive sr ?c i" "i < k" for i
    using order_okD_wait[OF ok that(1) alk that(2)] k by simp
  show ?thesis
  proof (rule order_okI)
    fix c j assume "alive ?sr c j"
    then have j: "alive sr c j" "j \<noteq> k" using al by auto
    obtain m where m: "m \<ge> j" "sr_sessions sr c = Some m" "alive sr c m" using order_okD_table[OF ok j(1)] by blast
    have "m \<noteq> k"
    proof
      assume "m = k"
      then have "c = ?c" using m(3) by (simp add: alive_def)
      then show False using no_elder[of j] j m(1) \<open>m = k\<close> by simp
    qed
    moreover from this have "sr_sessions ?sr c = Some m" using m(2) by (auto simp: session_exit_def Let_def)
    ultimately show "\<exists>m\<ge>j. sr_sessions ?sr c = Some m \<and> alive ?sr c m" using m al by blast
  next
    fix c i j assume a: "alive ?sr c i" "alive ?sr c j" "i < j"
    then have a': "alive sr c i" "alive sr c j" "j \<noteq> k" using al by auto
    obtain p where "rs_phase (sr_all sr ! j) = Waiting (Some p)" "i \<le> p" "p < length (sr_all sr)" "rs_camera (sr_all sr ! p) = c"
      using order_okD_wait[OF ok a'(1,2) a(3)] by blast
    moreover have "j < length (sr_all sr)" using a'(2) by (simp add: alive_def)
    ultimately show "\<exists>p. rs_phase (sr_all ?sr ! j) = Waiting (Some p) \<and> i \<le> p \<and> p < length (sr_all ?sr) \<and> rs_camera (sr_all ?sr ! p) = c"
      using a'(3) by (auto simp: nth len)
  next
    fix c i p assume a: "alive ?sr c i" "i \<le> p" "p < length (sr_all ?sr)" "rs_camera (sr_all ?sr ! p) = c"
    then have p: "alive sr c p" using order_okD_elder[OF ok, of c i p] al len nth[of p] by (auto split: if_splits)
    moreover have "p \<noteq> k"
    proof
      assume "p = k"
      then have "c = ?c" using p by (simp add: alive_def)
      then show False using no_elder[of i] a(1,2) al \<open>p = k\<close> by auto
    qed
    ultimately show "alive ?sr c p" using al by blast
  qed
qed


lemma session_step_order_ok:
  assumes st: "session_step True sr sr'" and ok: "order_ok sr" and ls: "leases_ok sr"
  shows "order_ok sr'"
proof -
  have tab: "k < length (sr_all sr) \<and> rs_camera (sr_all sr ! k) = cam" if "sr_sessions sr cam = Some k" for cam k
    using ls that by (auto simp: leases_ok_def table_ok_def)
  from st show ?thesis
  proof cases
    case (start cam)
    then show ?thesis using tab
      by (auto simp: StartRecording_def split: option.splits
          intro!: on_session_order_ok[OF ok] new_session_order_ok[OF ok])
  next
    case (stop cam)
    then show ?thesis using ok
      by (auto simp: StopRecording_def split: option.splits intro!: on_session_order_ok[OF ok])
  next
    case (release k)
    then show ?thesis by (auto simp: releaseLease_def Let_def intro!: on_session_order_ok[OF ok])
  next
    case (begin_recording k prev)
    then show ?thesis using begin_order_ok[OF ok] by blast
  next
    case (abandon k p)
    then show ?thesis by simp
  next
    case (finish_recording k)
    then show ?thesis using exit_order_ok[OF ok] ls by (simp add: leases_ok_def)
  qed
qed

lemma reachable_order_ok: "session_reachable True sr \<Longrightarrow> order_ok sr"
proof (induction rule: session_reachable.induct)
  case init
  show ?case by (simp add: NewSegmentRecorder_def order_ok_def alive_def)
next
  case (step sr sr')
  then show ?case using session_step_order_ok reachable_leases_ok by blast
qed

section \<open>Running a schedule\<close>

datatype session_act = Start string | Stop string | Release nat | Begin nat | Abandon nat | Finish nat

fun do_act :: "bool \<Rightarrow> session_act \<Rightarrow> SegmentRecorder \<Rightarrow> SegmentRecorder option" where
  "do_act patient (Start cam) sr = Some (StartRecording cam sr)"
| "do_act patient (Stop cam) sr = Some (StopRecording cam sr)"
| "do_act patient (Release k) sr =
     (if k < length (sr_all sr) \<and> 0 < rs_leases (sr_all sr ! k) then Some (releaseLease k sr) else None)"
| "do_act patient (Begin k) sr =
     (if k < length (sr_all sr)
      then (case rs_phase (sr_all sr ! k) of
              Waiting None \<Rightarrow> Some (on_session k (\<lambda>s. s\<lparr>rs_phase := Recording\<rparr>) sr)
            | Waiting (Some p) \<Rightarrow>
                if rs_phase (sr_all sr ! p) = Exited
                then Some (on_session k (\<lambda>s. s\<lparr>rs_phase := Recording\<rparr>) sr) else None
            | _ \<Rightarrow> None)
      else None)"
| "do_act patient (Abandon k) sr =
     (if \<not> patient \<and> k < length (sr_all sr) \<and> rs_stopped (sr_all sr ! k)
      then (case rs_phase (sr_all sr ! k) of Waiting (Some p) \<Rightarrow> Some (session_exit k sr) | _ \<Rightarrow> None)
      else None)"
| "do_act patient (Finish k) sr =
     (if k < length (sr_all sr) \<and> rs_phase (sr_all sr ! k) = Recording then Some (session_exit k sr) else None)"

fun run_acts :: "bool \<Rightarrow> session_act list \<Rightarrow> SegmentRecorder \<Rightarrow> SegmentRecorder option" where
  "run_acts patient [] sr = Some sr"
| "run_acts patient (a # as) sr = (case do_act patient a sr of None \<Rightarrow> None | Some sr' \<Rightarrow> run_acts patient as sr')"

lemma do_act_step: "do_act patient a sr = Some sr' \<Longrightarrow> session_step patient sr sr'"
proof (cases a)
  case (Begin k)
  assume "do_act patient a sr = Some sr'"
  then show ?thesis using Begin
    by (auto split: if_splits phase.splits option.splits intro: session_step.begin_recording)
qed (auto split: if_splits phase.splits option.splits
     intro: session_step.start session_step.stop session_step.release session_step.abandon session_step.finish_recording)

lemma run_acts_reachable:
  "run_acts patient as sr = Some sr' \<Longrightarrow> session_reachable patient sr \<Longrightarrow> session_reachable patient sr'"
proof (induction as arbitrary: sr)
  case (Cons a as)
  then obtain sr1 where "do_act patient a sr = Some sr1" "run_acts patient as sr1 = Some sr'"
    by (auto split: option.splits)
  then show ?case using Cons session_reachable.step[OF Cons.prems(2) do_act_step] by blast
qed simp

lemma run_acts_from_start:
  "\<not> Option.is_none (run_acts patient as NewSegmentRecorder) \<Longrightarrow>
     session_reachable patient (the (run_acts patient as NewSegmentRecorder))"
  by (rule run_acts_reachable[OF _ session_reachable.init]) (simp add: Option.is_none_def)

definition hand_over :: "session_act list" where
  "hand_over = [Start ''door'', Begin 0, Start ''door'', Release 0, Stop ''door'', Start ''door'', Finish 0, Begin 1]"

definition abandoned_start :: "session_act list" where
  "abandoned_start =
     [Start ''door'', Begin 0, Stop ''door'', Start ''door'', Stop ''door'', Abandon 1, Start ''door'', Begin 2]"

section \<open>Properties\<close>

text \<open>
  C9. As long as no session gives up waiting for its predecessor, a camera never has two recording
  goroutines inside \<^verbatim>\<open>recordLoop\<close> at once, whatever the interleaving of starts, stops, releases and
  exits; and a recording session is the oldest live one of its camera.
\<close>

theorem one_writer_per_camera:
  assumes "session_reachable True sr" and "i \<in> writers cam sr" and "j \<in> writers cam sr"
  shows "i = j"
proof (rule ccontr)
  assume "i \<noteq> j"
  have al: "alive sr cam i" "alive sr cam j" and ph: "rs_phase (sr_all sr ! i) = Recording" "rs_phase (sr_all sr ! j) = Recording"
    using assms(2,3) by (auto simp: writers_def alive_def)
  show False using order_okD_wait[OF reachable_order_ok[OF assms(1)]] al ph \<open>i \<noteq> j\<close>
    by (metis linorder_neqE_nat phase.distinct(1))
qed

theorem one_writer_per_camera_witness:
  "writers ''door'' (the (run_acts True hand_over NewSegmentRecorder)) = {1}"
proof -
  let ?sr = "the (run_acts True hand_over NewSegmentRecorder)"
  have run: "\<not> Option.is_none (run_acts True hand_over NewSegmentRecorder)" by code_simp
  have "1 < length (sr_all ?sr) \<and> rs_camera (sr_all ?sr ! 1) = ''door'' \<and> rs_phase (sr_all ?sr ! 1) = Recording"
    by code_simp
  then have one: "1 \<in> writers ''door'' ?sr" unfolding writers_def by simp
  show ?thesis
    using one_writer_per_camera[OF run_acts_from_start[OF run] one] one by blast
qed

text \<open>
  The step left out above breaks this.  A session that is stopped while it waits for its
  predecessor leaves the table at once, and the next \<^verbatim>\<open>StartRecording\<close> finds no predecessor to wait
  for: both the first and the third session then record the same camera.
\<close>

theorem two_writers_possible:
  "\<exists>sr. session_reachable False sr \<and> {0, 2} \<subseteq> writers ''door'' sr"
proof -
  let ?sr = "the (run_acts False abandoned_start NewSegmentRecorder)"
  have run: "\<not> Option.is_none (run_acts False abandoned_start NewSegmentRecorder)" by code_simp
  have "\<forall>k\<in>{0, 2}. k < length (sr_all ?sr) \<and> rs_camera (sr_all ?sr ! k) = ''door'' \<and> rs_phase (sr_all ?sr ! k) = Recording"
    by code_simp
  then have "{0, 2} \<subseteq> writers ''door'' ?sr" unfolding writers_def by blast
  then show ?thesis using run_acts_from_start[OF run] by blast
qed

text \<open>
  Leases keep a session going: in every reachable state a session that is not stopped counts
  exactly the callers that still hold it, at least one, and a release stops it precisely when it is
  the last one.  No release ever revives a stopped session.
\<close>

theorem session_leases:
  assumes "session_reachable patient sr" and "k < length (sr_all sr)"
  shows "if rs_stopped (sr_all sr ! k) then rs_stopped (sr_all (releaseLease k sr) ! k)
      else rs_refs (sr_all sr ! k) = rs_leases (sr_all sr ! k) \<and> 0 < rs_leases (sr_all sr ! k) \<and>
           (rs_stopped (sr_all (releaseLease k sr) ! k) \<longleftrightarrow> rs_leases (sr_all sr ! k) = 1)"
proof -
  have "lease_ok (sr_all sr ! k)" using reachable_leases_ok[OF assms(1)] assms(2) by (simp add: leases_ok_def)
  then show ?thesis using assms(2) by (auto simp: lease_ok_def releaseLease_def on_session_nth Let_def)
qed

theorem session_leases_witness:
  "rs_leases (sr_all (the (run_acts True [Start ''door'', Start ''door'', Release 0] NewSegmentRecorder)) ! 0) = 1 \<and>
   rs_stopped (sr_all (releaseLease 0 (the (run_acts True [Start ''door'', Start ''door'', Release 0] NewSegmentRecorder))) ! 0)"
proof -
  let ?sr = "the (run_acts True [Start ''door'', Start ''door'', Release 0] NewSegmentRecorder)"
  have run: "\<not> Option.is_none (run_acts True [Start ''door'', Start ''door'', Release 0] NewSegmentRecorder)" by code_simp
  have c: "0 < length (sr_all ?sr)" "\<not> rs_stopped (sr_all ?sr ! 0)" "rs_leases (sr_all ?sr ! 0) = 1" by code_simp+
  show ?thesis using session_leases[OF run_acts_from_start[OF run] c(1)] c(2,3) by (simp only: if_False)
qed

end
