(* ===== verification/Event_Processor.thy ===== *)
theory Event_Processor
  imports Go_Prelude "HOL-Library.AList"
begin

text \<open>
  The event lifecycle: \<^verbatim>\<open>internal/event/processor.go\<close> (the handlers of the \<^verbatim>\<open>Run\<close> loop),
  \<^verbatim>\<open>internal/event/object_count.go\<close> (ordering of the object-count publishes) and
  \<^verbatim>\<open>internal/event/publisher_queue.go\<close> (the bounded MQTT queue).

  The \<^verbatim>\<open>Run\<close> loop is one goroutine, so its handlers are state transformers.  What it starts with
  \<^verbatim>\<open>goBackground\<close> becomes a task in \<open>background\<close>, which any later step may pick up in any order.
  Spans and log lines have no model.  The database is the table of event rows; a failing
  transaction is a flag of the environment of the call.
\<close>

section \<open>objectCountGate\<close>

text \<open>The sequence is a \<^verbatim>\<open>uint64\<close> that grows by one per event; it is a \<open>nat\<close> here.\<close>

record objectCountGate =
  gate_next :: nat
  gate_published :: "string \<times> string \<Rightarrow> nat"

definition newObjectCountGate :: objectCountGate where
  "newObjectCountGate = \<lparr>gate_next = 0, gate_published = (\<lambda>_. 0)\<rparr>"

definition gate_reserve :: "objectCountGate \<Rightarrow> nat \<times> objectCountGate" where
  "gate_reserve g = (gate_next g + 1, g\<lparr>gate_next := gate_next g + 1\<rparr>)"

text \<open>\<^verbatim>\<open>publish\<close>: whether the value is sent, and the gate afterwards.\<close>

definition gate_publish :: "string \<times> string \<Rightarrow> nat \<Rightarrow> objectCountGate \<Rightarrow> bool \<times> objectCountGate" where
  "gate_publish key seq g =
     (if seq \<le> gate_published g key then (False, g)
      else (True, g\<lparr>gate_published := (gate_published g)(key := seq)\<rparr>))"

section \<open>The MQTT queue\<close>

record Event =
  ev_ID :: string
  ev_CameraName :: string
  ev_Label :: string
  ev_Timestamp :: gotime
  ev_EndTime :: gotime
  ev_ZoneName :: string
  ev_SubLabel :: string
  ev_Kind :: string
  ev_Category :: string
  ev_HasSnapshotImage :: bool
  ev_HasAnnotatedImage :: bool

datatype job =
  JobEvent Event
| JobObjectCount string string int
| JobObjectSighting string Event
| JobSnapshot string string
| JobDoorbell string string

definition mqttPublishQueueCapacity :: nat where
  "mqttPublishQueueCapacity = 256"

datatype enqueue_error = ErrContextDone | ErrMQTTPublishQueueFull

text \<open>
  \<^verbatim>\<open>enqueue\<close> selects among a done context, room in the queue and the default.  When the context
  is done and there is room, Go picks either: \<open>pick\<close> is that choice.
\<close>

definition enqueue :: "bool \<Rightarrow> bool \<Rightarrow> job \<Rightarrow> job channel \<Rightarrow> (enqueue_error + unit) \<times> job channel" where
  "enqueue ctxDone pick j q =
     (let (sent, q') = try_send j q
      in if ctxDone \<and> (\<not> sent \<or> pick) then (Inl ErrContextDone, q)
         else if sent then (Inr (), q')
         else (Inl ErrMQTTPublishQueueFull, q))"

text \<open>One turn of the dispatcher's worker: a job received while no client exists is discarded.\<close>

definition dispatcher_step :: "bool \<Rightarrow> job channel \<Rightarrow> job list \<times> job channel" where
  "dispatcher_step client q =
     (case try_recv q of
        (None, q') \<Rightarrow> ([], q')
      | (Some j, q') \<Rightarrow> (if client then [j] else [], q'))"

section \<open>Processor\<close>

definition EventKindDoorbell :: string where "EventKindDoorbell = ''doorbell''"
definition EventKindCry :: string where "EventKindCry = ''cry''"
definition EventKindObject :: string where "EventKindObject = ''object''"
definition CategoryAlert :: string where "CategoryAlert = ''alert''"

definition counted :: "Event \<Rightarrow> bool" where
  "counted e \<longleftrightarrow> ev_Kind e \<noteq> EventKindDoorbell \<and> ev_Kind e \<noteq> EventKindCry"

definition pendingEndTTL :: duration where
  "pendingEndTTL = 2 * Minute"

definition maxPendingEnds :: nat where
  "maxPendingEnds = 1024"

record pendingEnd =
  pend_endTime :: gotime
  pend_parkedAt :: gotime

record activeEvent =
  ae_event :: Event
  ae_tempRecording :: bool
  ae_endTimer :: "gotime option"

record EventEnd =
  end_EventID :: string
  end_CameraName :: string
  end_EndTime :: gotime

datatype task =
  EmitArtifacts Event bool
| RecognizeObject Event
| PublishEventEnd Event bool "int option" nat
| StopTemporary string
| ExtractClip Event

datatype effect =
  RecordDoorbellPress string
| BroadcastDoorbell string string string
| ActivityUpdated string
| StartTemporaryRecording string
| StopTemporaryRecording string

record processor_config =
  CooldownSeconds :: int
  Continuous :: bool
  MaxEventDuration :: duration
  hasServer :: bool
  hasRecorder :: bool
  hasEmbedder :: bool
  CameraURL :: "string \<Rightarrow> string"
  doorbellClipSeconds :: int
  cameraClipSeconds :: "(string \<times> int option) list"

text \<open>
  \<open>env\<close>: what the outside answers while one handler runs; \<open>env_ctx\<close> is whether the context of a publish is done and the choice
  of the select then.
\<close>

record env =
  env_now :: gotime
  env_publisher :: bool
  env_ctx :: "bool \<times> bool"
  env_save_err :: bool
  env_end_err :: bool

record Processor =
  active :: "string \<rightharpoonup> activeEvent"
  timeout :: "string channel"
  objectCounts :: "string \<rightharpoonup> (string \<rightharpoonup> int)"
  gate :: objectCountGate
  cooldowns :: "string \<rightharpoonup> gotime"
  pendingEnds :: "(string \<times> pendingEnd) list"
  background :: "task list"
  db_events :: "string \<rightharpoonup> Event"
  effects :: "effect list"
  mqtt :: "job channel"
  published :: "(job \<times> bool) list"
  delivered :: "job list"

definition NewProcessor :: Processor where
  "NewProcessor =
     \<lparr>active = Map.empty, timeout = make_chan 100, objectCounts = Map.empty, gate = newObjectCountGate,
      cooldowns = Map.empty, pendingEnds = [], background = [], db_events = Map.empty, effects = [],
      mqtt = make_chan mqttPublishQueueCapacity, published = [], delivered = []\<rparr>"

text \<open>
  \<open>published\<close> logs the jobs handed to the queued publisher, in order, each with whether the bounded queue took it: a job
  that finds the queue full or its context done is lost.  \<open>delivered\<close> logs the jobs that the worker passed to a client.
\<close>

definition hand_over :: "bool \<times> bool \<Rightarrow> job \<Rightarrow> Processor \<Rightarrow> Processor" where
  "hand_over ctx j p =
     (let r = enqueue (fst ctx) (snd ctx) j (mqtt p)
      in p\<lparr>mqtt := snd r, published := published p @ [(j, fst r = Inr ())]\<rparr>)"

text \<open>The publishes of one task; \<open>ctx i\<close> answers the \<open>i\<close>-th.\<close>

definition hand_over_all :: "(nat \<Rightarrow> bool \<times> bool) \<Rightarrow> job list \<Rightarrow> Processor \<Rightarrow> Processor" where
  "hand_over_all ctx js p = fold (\<lambda>(i, j). hand_over (ctx i) j) (List.enumerate 0 js) p"

definition deliver_next :: "bool \<Rightarrow> Processor \<Rightarrow> Processor" where
  "deliver_next client p =
     (case dispatcher_step client (mqtt p) of (js, q) \<Rightarrow> p\<lparr>mqtt := q, delivered := delivered p @ js\<rparr>)"

definition cooldownKey :: "Event \<Rightarrow> string" where
  "cooldownKey e = ev_CameraName e @ ''|'' @ ev_Label e @ ''|'' @ ev_ZoneName e"

definition label_count :: "(string \<rightharpoonup> int) \<Rightarrow> string \<Rightarrow> int" where
  "label_count counts label = (case counts label of Some n \<Rightarrow> n | None \<Rightarrow> 0)"

definition goBackground :: "task list \<Rightarrow> Processor \<Rightarrow> Processor" where
  "goBackground ts p = p\<lparr>background := background p @ ts\<rparr>"

definition add_effects :: "effect list \<Rightarrow> Processor \<Rightarrow> Processor" where
  "add_effects es p = p\<lparr>effects := effects p @ es\<rparr>"

fun camera_clip :: "(string \<times> int option) list \<Rightarrow> string \<Rightarrow> int \<Rightarrow> int" where
  "camera_clip [] name glob = glob"
| "camera_clip ((n, own) # cams) name glob =
     (if n = name then (case own of Some s \<Rightarrow> s | None \<Rightarrow> glob) else camera_clip cams name glob)"

definition DoorbellClipWindow :: "processor_config \<Rightarrow> string \<Rightarrow> duration" where
  "DoorbellClipWindow cfg name =
     (let seconds = camera_clip (cameraClipSeconds cfg) name (doorbellClipSeconds cfg);
          seconds = (if seconds \<le> 0 then 15 else seconds)
      in wrap64 (seconds * Second))"

text \<open>\<^verbatim>\<open>SaveEvent\<close>: the id is the primary key; kind and category get their defaults.\<close>

definition SaveEvent :: "bool \<Rightarrow> Event \<Rightarrow> Processor \<Rightarrow> Processor option" where
  "SaveEvent err e p =
     (if err \<or> db_events p (ev_ID e) \<noteq> None then None
      else Some (p\<lparr>db_events := (db_events p)(ev_ID e \<mapsto>
             e\<lparr>ev_Category := (if ev_Category e = [] then CategoryAlert else ev_Category e),
               ev_Kind := (if ev_Kind e = [] then EventKindObject else ev_Kind e)\<rparr>)\<rparr>))"

definition UpdateEventEndTime :: "string \<Rightarrow> gotime \<Rightarrow> Processor \<Rightarrow> Processor" where
  "UpdateEventEndTime i t p =
     (case db_events p i of
        None \<Rightarrow> p
      | Some e \<Rightarrow> p\<lparr>db_events := (db_events p)(i \<mapsto> e\<lparr>ev_EndTime := t\<rparr>)\<rparr>)"

definition finalizeEvent :: "processor_config \<Rightarrow> env \<Rightarrow> activeEvent \<Rightarrow> gotime \<Rightarrow> Processor \<Rightarrow> Processor" where
  "finalizeEvent cfg e a endTime p =
     (let event = (ae_event a)\<lparr>ev_EndTime := endTime\<rparr>;
          p1 = (if env_end_err e then p
                else add_effects (if hasServer cfg then [ActivityUpdated (ev_ID event)] else [])
                       (UpdateEventEndTime (ev_ID event) endTime p));
          (objectCount, seq, p2) =
            (if counted event then
               (case objectCounts p1 (ev_CameraName event) of
                  Some counts \<Rightarrow>
                    let c = max 0 (label_count counts (ev_Label event) - 1);
                        (seq, g) = gate_reserve (gate p1)
                    in (Some c, seq,
                        p1\<lparr>objectCounts := (objectCounts p1)(ev_CameraName event \<mapsto> counts(ev_Label event \<mapsto> c)),
                           gate := g\<rparr>)
                | None \<Rightarrow> (None, 0, p1))
             else (None, 0, p1));
          p3 = goBackground [PublishEventEnd event (env_publisher e) objectCount seq] p2;
          p4 = p3\<lparr>cooldowns := (cooldowns p3)(cooldownKey event \<mapsto> endTime)\<rparr>;
          p5 = goBackground (if ae_tempRecording a then [StopTemporary (ev_CameraName event)] else []) p4
      in goBackground (if hasRecorder cfg then [ExtractClip event] else []) p5)"

text \<open>The branch of \<^verbatim>\<open>Run\<close> that finalizes an active event and forgets it.\<close>

definition finish :: "processor_config \<Rightarrow> env \<Rightarrow> string \<Rightarrow> activeEvent \<Rightarrow> gotime \<Rightarrow> Processor \<Rightarrow> Processor" where
  "finish cfg e i a endTime p =
     (let p1 = finalizeEvent cfg e a endTime p in p1\<lparr>active := (active p1)(i := None)\<rparr>)"

definition cooling_down :: "processor_config \<Rightarrow> env \<Rightarrow> Event \<Rightarrow> Processor \<Rightarrow> bool" where
  "cooling_down cfg e submitted p \<longleftrightarrow>
     counted submitted \<and>
     (case cooldowns p (cooldownKey submitted) of
        None \<Rightarrow> False
      | Some until \<Rightarrow> tsub (env_now e) until < wrap64 (CooldownSeconds cfg * Second))"

text \<open>The count of \<^verbatim>\<open>acceptEvent\<close>: incremented and published on the loop itself.\<close>

definition count_begin :: "env \<Rightarrow> Event \<Rightarrow> Processor \<Rightarrow> Processor" where
  "count_begin e submitted p =
     (if env_publisher e \<and> counted submitted then
        let cam = ev_CameraName submitted; label = ev_Label submitted;
            counts = (case objectCounts p cam of Some m \<Rightarrow> m | None \<Rightarrow> Map.empty);
            c = label_count counts label + 1;
            (seq, g) = gate_reserve (gate p);
            (sent, g') = gate_publish (cam, label) seq g
        in (if sent then hand_over (env_ctx e) (JobObjectCount cam label c) else id)
             (p\<lparr>objectCounts := (objectCounts p)(cam \<mapsto> counts(label \<mapsto> c)), gate := g'\<rparr>)
      else p)"

text \<open>
  What \<^verbatim>\<open>acceptEvent\<close> does once the row is stored, up to the entry in the table of active events.
  The \<^verbatim>\<open>MaxEventDuration\<close> timer is armed as long as the entry exists.
\<close>

definition new_active :: "processor_config \<Rightarrow> Event \<Rightarrow> activeEvent" where
  "new_active cfg submitted =
     \<lparr>ae_event = submitted,
      ae_tempRecording = (\<not> Continuous cfg \<and> hasRecorder cfg \<and> CameraURL cfg (ev_CameraName submitted) \<noteq> []),
      ae_endTimer = None\<rparr>"

definition open_event :: "processor_config \<Rightarrow> env \<Rightarrow> Event \<Rightarrow> Processor \<Rightarrow> Processor" where
  "open_event cfg e submitted p1 =
     (let p2 = add_effects (if hasServer cfg then
                   ActivityUpdated (ev_ID submitted) #
                   (if ev_Kind submitted = EventKindDoorbell
                    then [RecordDoorbellPress (ev_CameraName submitted),
                          BroadcastDoorbell (ev_CameraName submitted) (ev_ID submitted) (ev_SubLabel submitted)]
                    else [])
                 else []) p1;
          p3 = count_begin e submitted p2;
          p4 = goBackground (EmitArtifacts submitted (env_publisher e) #
                 (if hasEmbedder cfg \<and> ev_HasSnapshotImage submitted then [RecognizeObject submitted] else [])) p3;
          p5 = add_effects (if ae_tempRecording (new_active cfg submitted)
                            then [StartTemporaryRecording (ev_CameraName submitted)] else []) p4
      in p5\<lparr>active := (active p5)(ev_ID submitted \<mapsto> new_active cfg submitted)\<rparr>)"

definition acceptEvent :: "processor_config \<Rightarrow> env \<Rightarrow> Event \<Rightarrow> Processor \<Rightarrow> Processor" where
  "acceptEvent cfg e submitted p =
     (if cooling_down cfg e submitted p then p
      else case SaveEvent (env_save_err e) submitted p of
        None \<Rightarrow> p
      | Some p1 \<Rightarrow>
          let p6 = open_event cfg e submitted p1
          in case map_of (pendingEnds p6) (ev_ID submitted) of
               Some parked \<Rightarrow>
                 finish cfg e (ev_ID submitted) (new_active cfg submitted) (pend_endTime parked)
                   (p6\<lparr>pendingEnds := AList.delete (ev_ID submitted) (pendingEnds p6)\<rparr>)
             | None \<Rightarrow>
                 if ev_Kind submitted = EventKindDoorbell
                 then p6\<lparr>active := (active p6)(ev_ID submitted \<mapsto>
                        (new_active cfg submitted)
                          \<lparr>ae_endTimer := Some (tadd (ev_Timestamp submitted)
                                                (DoorbellClipWindow cfg (ev_CameraName submitted)))\<rparr>)\<rparr>
                 else p6)"

text \<open>\<^verbatim>\<open>parkEnd\<close>: the scan for the entry parked first, then its eviction when the table is full.\<close>

fun oldest_end :: "(string \<times> pendingEnd) list \<Rightarrow> string \<times> gotime \<Rightarrow> string \<times> gotime" where
  "oldest_end [] acc = acc"
| "oldest_end ((i, parked) # ps) (oldestID, oldest) =
     (if oldestID = [] \<or> tbefore (pend_parkedAt parked) oldest
      then oldest_end ps (i, pend_parkedAt parked)
      else oldest_end ps (oldestID, oldest))"

definition parkEnd :: "gotime \<Rightarrow> EventEnd \<Rightarrow> Processor \<Rightarrow> Processor" where
  "parkEnd now e p =
     (let ps = (if length (pendingEnds p) \<ge> maxPendingEnds
                then AList.delete (fst (oldest_end (pendingEnds p) ([], zeroTime))) (pendingEnds p)
                else pendingEnds p)
      in p\<lparr>pendingEnds := AList.update (end_EventID e)
                            \<lparr>pend_endTime = end_EndTime e, pend_parkedAt = now\<rparr> ps\<rparr>)"

definition expirePendingEnds :: "gotime \<Rightarrow> Processor \<Rightarrow> Processor" where
  "expirePendingEnds now p =
     p\<lparr>pendingEnds := filter (\<lambda>(i, parked). tsub now (pend_parkedAt parked) < pendingEndTTL) (pendingEnds p)\<rparr>"

text \<open>The branches of \<^verbatim>\<open>Run\<close> for an end, for a fired timer and for the sweep.\<close>

definition handle_end :: "processor_config \<Rightarrow> env \<Rightarrow> EventEnd \<Rightarrow> Processor \<Rightarrow> Processor" where
  "handle_end cfg e en p =
     (case active p (end_EventID en) of
        Some a \<Rightarrow> finish cfg e (end_EventID en) a (end_EndTime en) p
      | None \<Rightarrow> parkEnd (env_now e) en p)"

definition timer_fires :: "string \<Rightarrow> Processor \<Rightarrow> Processor" where
  "timer_fires i p = (if active p i = None then p else p\<lparr>timeout := snd (try_send i (timeout p))\<rparr>)"

definition handle_timeout :: "processor_config \<Rightarrow> env \<Rightarrow> Processor \<Rightarrow> Processor" where
  "handle_timeout cfg e p =
     (case try_recv (timeout p) of
        (None, _) \<Rightarrow> p
      | (Some i, ch) \<Rightarrow>
          let p1 = p\<lparr>timeout := ch\<rparr>
          in case active p1 i of
               Some a \<Rightarrow> finish cfg e i a (tadd (ev_Timestamp (ae_event a)) (MaxEventDuration cfg)) p1
             | None \<Rightarrow> p1)"

definition stopActiveTimers :: "Processor \<Rightarrow> Processor" where
  "stopActiveTimers p = p\<lparr>active := Map.empty\<rparr>"

text \<open>
  What the background goroutines publish.  \<open>names\<close> are the known objects the embedder matched, \<open>encodes\<close> says whether the
  snapshot could be encoded, and \<open>client\<close> whether a client exists when a recognition asks for the publisher; the other tasks use the
  publisher of the handler that started them.
\<close>

definition publish_count :: "bool \<times> bool \<Rightarrow> string \<Rightarrow> string \<Rightarrow> nat \<Rightarrow> int \<Rightarrow> Processor \<Rightarrow> Processor" where
  "publish_count ctx cam label seq c p =
     (case gate_publish (cam, label) seq (gate p) of (sent, g) \<Rightarrow>
        (if sent then hand_over ctx (JobObjectCount cam label c) else id) (p\<lparr>gate := g\<rparr>))"

fun run_task :: "(nat \<Rightarrow> bool \<times> bool) \<Rightarrow> bool \<Rightarrow> string list \<Rightarrow> bool \<Rightarrow> task \<Rightarrow> Processor \<Rightarrow> Processor" where
  "run_task ctx client names encodes (PublishEventEnd ev pub objectCount seq) p =
     (if \<not> pub then p
      else
        let p1 = hand_over (ctx 0) (JobEvent ev) p
        in case objectCount of
             None \<Rightarrow> p1
           | Some c \<Rightarrow> publish_count (ctx 1) (ev_CameraName ev) (ev_Label ev) seq c p1)"
| "run_task ctx client names encodes (EmitArtifacts ev pub) p =
     (if \<not> pub then p
      else hand_over_all ctx ([JobEvent ev]
               @ (if (ev_HasAnnotatedImage ev \<or> ev_HasSnapshotImage ev) \<and> encodes
                  then [JobSnapshot (ev_CameraName ev) (ev_Label ev)] else [])
               @ (if ev_Kind ev = EventKindDoorbell
                  then [JobDoorbell (ev_CameraName ev) (ev_SubLabel ev)] else [])) p)"
| "run_task ctx client names encodes (RecognizeObject ev) p =
     (if client then hand_over_all ctx (map (\<lambda>n. JobObjectSighting n ev) names) p else p)"
| "run_task ctx client names encodes (StopTemporary cam) p = add_effects [StopTemporaryRecording cam] p"
| "run_task ctx client names encodes (ExtractClip ev) p = p"

section \<open>Interleavings\<close>

text \<open>
  One step of the processor: a handler of the \<^verbatim>\<open>Run\<close> loop, a timer, a background task in any
  order, a turn of the MQTT worker, or a different iteration order of the parked ends.  \<open>steady\<close> says that an MQTT client
  exists during every handler and every turn of the worker.
\<close>

inductive proc_step :: "processor_config \<Rightarrow> bool \<Rightarrow> Processor \<Rightarrow> Processor \<Rightarrow> bool"
  for cfg :: processor_config and steady :: bool where
  event: "(steady \<Longrightarrow> env_publisher e) \<Longrightarrow> proc_step cfg steady p (acceptEvent cfg e submitted p)"
| event_end: "(steady \<Longrightarrow> env_publisher e) \<Longrightarrow> proc_step cfg steady p (handle_end cfg e en p)"
| timeout: "(steady \<Longrightarrow> env_publisher e) \<Longrightarrow> proc_step cfg steady p (handle_timeout cfg e p)"
| timer: "proc_step cfg steady p (timer_fires i p)"
| sweep: "proc_step cfg steady p (expirePendingEnds now p)"
| reorder: "mset ps = mset (pendingEnds p) \<Longrightarrow> proc_step cfg steady p (p\<lparr>pendingEnds := ps\<rparr>)"
| task: "background p = ts1 @ t # ts2 \<Longrightarrow>
     proc_step cfg steady p (run_task ctx client names encodes t (p\<lparr>background := ts1 @ ts2\<rparr>))"
| dispatch: "(steady \<Longrightarrow> client) \<Longrightarrow> proc_step cfg steady p (deliver_next client p)"

inductive proc_reachable :: "processor_config \<Rightarrow> bool \<Rightarrow> Processor \<Rightarrow> bool"
  for cfg :: processor_config and steady :: bool where
  init: "proc_reachable cfg steady NewProcessor"
| step: "proc_reachable cfg steady p \<Longrightarrow> proc_step cfg steady p p' \<Longrightarrow> proc_reachable cfg steady p'"

section \<open>Object counts\<close>

definition tally :: "Processor \<Rightarrow> string \<Rightarrow> string \<Rightarrow> int" where
  "tally p cam label = (case objectCounts p cam of None \<Rightarrow> 0 | Some m \<Rightarrow> label_count m label)"

definition active_in :: "Processor \<Rightarrow> string \<Rightarrow> string \<Rightarrow> string set" where
  "active_in p cam label = {i. \<exists>a. active p i = Some a \<and> counted (ae_event a)
     \<and> ev_CameraName (ae_event a) = cam \<and> ev_Label (ae_event a) = label}"

definition actives_ok :: "Processor \<Rightarrow> bool" where
  "actives_ok p \<longleftrightarrow> finite (dom (active p)) \<and>
     (\<forall>i a. active p i = Some a \<longrightarrow> ev_ID (ae_event a) = i \<and> db_events p i \<noteq> None)"

definition counts_ok :: "Processor \<Rightarrow> bool" where
  "counts_ok p \<longleftrightarrow> (\<forall>cam label. tally p cam label = int (card (active_in p cam label)))"

lemma label_count_upd [simp]: "label_count (m(l \<mapsto> c)) l' = (if l' = l then c else label_count m l')"
  by (simp add: label_count_def)

lemma label_count_empty [simp]: "label_count Map.empty l = 0"
  by (simp add: label_count_def)

lemmas proc_frame = goBackground_def add_effects_def

lemma hand_over_frame [simp]:
  "active (hand_over ctx j p) = active p" "timeout (hand_over ctx j p) = timeout p"
  "objectCounts (hand_over ctx j p) = objectCounts p" "gate (hand_over ctx j p) = gate p"
  "cooldowns (hand_over ctx j p) = cooldowns p" "pendingEnds (hand_over ctx j p) = pendingEnds p"
  "background (hand_over ctx j p) = background p" "db_events (hand_over ctx j p) = db_events p"
  "effects (hand_over ctx j p) = effects p" "delivered (hand_over ctx j p) = delivered p"
  "map fst (published (hand_over ctx j p)) = map fst (published p) @ [j]"
  by (simp_all add: hand_over_def Let_def)

lemma hand_over_queue:
  "mqtt (hand_over ctx j p) = snd (enqueue (fst ctx) (snd ctx) j (mqtt p))"
  "published (hand_over ctx j p) = published p @ [(j, fst (enqueue (fst ctx) (snd ctx) j (mqtt p)) = Inr ())]"
  by (simp_all add: hand_over_def Let_def)

lemma hand_over_all_induct:
  assumes "P p" "\<And>ctx j p. P p \<Longrightarrow> P (hand_over ctx j p)"
  shows "P (hand_over_all ctx js p)"
  unfolding hand_over_all_def
  by (rule fold_invariant[where I = P]) (auto intro: assms)

lemma hand_over_all_frame [simp]:
  "active (hand_over_all ctx js p) = active p" "timeout (hand_over_all ctx js p) = timeout p"
  "objectCounts (hand_over_all ctx js p) = objectCounts p" "gate (hand_over_all ctx js p) = gate p"
  "cooldowns (hand_over_all ctx js p) = cooldowns p" "pendingEnds (hand_over_all ctx js p) = pendingEnds p"
  "background (hand_over_all ctx js p) = background p" "db_events (hand_over_all ctx js p) = db_events p"
  "effects (hand_over_all ctx js p) = effects p" "delivered (hand_over_all ctx js p) = delivered p"
  by (rule hand_over_all_induct; simp)+

lemma hand_over_all_published [simp]: "map fst (published (hand_over_all ctx js p)) = map fst (published p) @ js"
proof -
  have "map fst (published (fold (\<lambda>(i, j). hand_over (ctx i) j) (List.enumerate n js) p)) = map fst (published p) @ js" for n p
    by (induction js arbitrary: n p) simp_all
  then show ?thesis by (simp add: hand_over_all_def)
qed

lemma deliver_next_frame [simp]:
  "active (deliver_next client p) = active p" "timeout (deliver_next client p) = timeout p"
  "objectCounts (deliver_next client p) = objectCounts p" "gate (deliver_next client p) = gate p"
  "pendingEnds (deliver_next client p) = pendingEnds p" "background (deliver_next client p) = background p"
  "db_events (deliver_next client p) = db_events p" "published (deliver_next client p) = published p"
  by (simp_all add: deliver_next_def split: prod.split)

lemma finalize_frame [simp]:
  "active (finalizeEvent cfg e a t p) = active p"
  "pendingEnds (finalizeEvent cfg e a t p) = pendingEnds p"
  "timeout (finalizeEvent cfg e a t p) = timeout p"
  "published (finalizeEvent cfg e a t p) = published p"
  "mqtt (finalizeEvent cfg e a t p) = mqtt p"
  "delivered (finalizeEvent cfg e a t p) = delivered p"
  "cooldowns (finalizeEvent cfg e a t p) = (cooldowns p)(cooldownKey (ae_event a) \<mapsto> t)"
  by (simp_all add: finalizeEvent_def Let_def proc_frame UpdateEventEndTime_def gate_reserve_def
      cooldownKey_def split: option.splits)

lemma finalize_db:
  "db_events (finalizeEvent cfg e a t p) =
     (if env_end_err e then db_events p
      else (db_events p)(ev_ID (ae_event a) :=
              map_option (\<lambda>r. r\<lparr>ev_EndTime := t\<rparr>) (db_events p (ev_ID (ae_event a)))))"
  by (auto simp: finalizeEvent_def Let_def proc_frame UpdateEventEndTime_def gate_reserve_def
      split: option.splits)

lemma counted_EndTime [simp]: "counted (ev\<lparr>ev_EndTime := t\<rparr>) = counted ev"
  by (simp add: counted_def)

lemma finalize_counts:
  "objectCounts (finalizeEvent cfg e a t p) =
     (let ev = ae_event a in
      if counted ev then
        case objectCounts p (ev_CameraName ev) of
          Some m \<Rightarrow> (objectCounts p)(ev_CameraName ev \<mapsto> m(ev_Label ev \<mapsto> max 0 (label_count m (ev_Label ev) - 1)))
        | None \<Rightarrow> objectCounts p
      else objectCounts p)"
  by (auto simp: finalizeEvent_def Let_def proc_frame UpdateEventEndTime_def gate_reserve_def
      split: option.splits)

lemma finalize_tally:
  "tally (finalizeEvent cfg e a t p) cam label =
     (if counted (ae_event a) \<and> ev_CameraName (ae_event a) = cam \<and> ev_Label (ae_event a) = label
      then (if objectCounts p cam = None then 0 else max 0 (tally p cam label - 1))
      else tally p cam label)"
  by (auto simp: tally_def finalize_counts Let_def split: option.splits)

lemma finish_active: "active (finish cfg e i a t p) = (active p)(i := None)"
  by (simp add: finish_def Let_def)

lemma finish_active_in:
  assumes "active p i = Some a"
  shows "active_in (finish cfg e i a t p) cam label = active_in p cam label - {i}"
  by (auto simp: active_in_def finish_active)

lemma active_in_finite: "actives_ok p \<Longrightarrow> finite (active_in p cam label)"
  unfolding actives_ok_def by (rule finite_subset[of _ "dom (active p)"]) (auto simp: active_in_def)

lemma finish_tally [simp]: "tally (finish cfg e i a t p) = tally (finalizeEvent cfg e a t p)"
  by (simp add: finish_def Let_def tally_def fun_eq_iff)

lemma finish_counts_ok:
  assumes "actives_ok p" and "counts_ok p" and a: "active p i = Some a"
  shows "counts_ok (finish cfg e i a t p)"
  unfolding counts_ok_def
proof (intro allI)
  fix cam label
  let ?hit = "counted (ae_event a) \<and> ev_CameraName (ae_event a) = cam \<and> ev_Label (ae_event a) = label"
  have fin: "finite (active_in p cam label)" using assms(1) by (rule active_in_finite)
  have t: "tally p cam label = int (card (active_in p cam label))"
    using assms(2) by (simp add: counts_ok_def)
  have "i \<in> active_in p cam label \<longleftrightarrow> ?hit" using a by (auto simp: active_in_def)
  moreover from this fin have "?hit \<Longrightarrow> card (active_in p cam label) > 0" by (auto simp: card_gt_0_iff)
  moreover have "objectCounts p cam = None \<Longrightarrow> tally p cam label = 0" by (simp add: tally_def)
  ultimately show "tally (finish cfg e i a t p) cam label = int (card (active_in (finish cfg e i a t p) cam label))"
    using t fin by (auto simp: finalize_tally finish_active_in[OF a] card_Diff_singleton)
qed

lemma finish_actives_ok:
  assumes "actives_ok p"
  shows "actives_ok (finish cfg e i a t p)"
  using assms
  by (auto simp: actives_ok_def finish_active finish_def Let_def finalize_db)


lemma open_frame [simp]:
  "active (open_event cfg e ev p) = (active p)(ev_ID ev \<mapsto> new_active cfg ev)"
  "db_events (open_event cfg e ev p) = db_events p"
  "pendingEnds (open_event cfg e ev p) = pendingEnds p"
  "timeout (open_event cfg e ev p) = timeout p"
  "cooldowns (open_event cfg e ev p) = cooldowns p"
  by (simp_all add: open_event_def Let_def proc_frame count_begin_def gate_reserve_def gate_publish_def)

lemma open_tally:
  "tally (open_event cfg e ev p) cam label =
     tally p cam label +
       (if env_publisher e \<and> counted ev \<and> ev_CameraName ev = cam \<and> ev_Label ev = label then 1 else 0)"
  by (auto simp: open_event_def Let_def proc_frame count_begin_def gate_reserve_def gate_publish_def
      tally_def split: option.splits)

lemma new_active_event [simp]: "ae_event (new_active cfg ev) = ev"
  by (simp add: new_active_def)

lemma active_in_cong:
  assumes "\<And>i. map_option ae_event (active p i) = map_option ae_event (active q i)"
  shows "active_in p cam label = active_in q cam label"
proof -
  have *: "active_in r cam label = {i. \<exists>ev. map_option ae_event (active r i) = Some ev \<and> counted ev
     \<and> ev_CameraName ev = cam \<and> ev_Label ev = label}" for r
    by (auto simp: active_in_def)
  show ?thesis unfolding *[of p] *[of q] assms ..
qed

text \<open>Only the active events and the tallies matter for the counting invariants.\<close>

lemma counts_ok_cong:
  assumes "counts_ok q" and "objectCounts p = objectCounts q"
    and "\<And>i. map_option ae_event (active p i) = map_option ae_event (active q i)"
  shows "counts_ok p"
  using assms(1,2) active_in_cong[OF assms(3)] by (simp add: counts_ok_def tally_def)

lemma open_counts_ok:
  assumes "actives_ok p" and "counts_ok p" and "active p (ev_ID ev) = None" and "env_publisher e"
  shows "counts_ok (open_event cfg e ev p)"
  unfolding counts_ok_def
proof (intro allI)
  fix cam label
  have "active_in (open_event cfg e ev p) cam label =
      (if counted ev \<and> ev_CameraName ev = cam \<and> ev_Label ev = label
       then insert (ev_ID ev) (active_in p cam label) else active_in p cam label)"
    using assms(3) by (auto simp: active_in_def)
  moreover have "ev_ID ev \<notin> active_in p cam label" using assms(3) by (simp add: active_in_def)
  ultimately show "tally (open_event cfg e ev p) cam label = int (card (active_in (open_event cfg e ev p) cam label))"
    using assms active_in_finite[OF assms(1), of cam label]
    by (simp add: open_tally counts_ok_def)
qed

lemma SaveEvent_frame:
  assumes "SaveEvent err ev p = Some p1"
  shows "active p1 = active p" "objectCounts p1 = objectCounts p" "pendingEnds p1 = pendingEnds p"
    "gate p1 = gate p" "background p1 = background p" "published p1 = published p"
    "timeout p1 = timeout p" "cooldowns p1 = cooldowns p"
    "db_events p (ev_ID ev) = None" "db_events p1 (ev_ID ev) \<noteq> None"
    "\<And>i. db_events p i \<noteq> None \<Longrightarrow> db_events p1 i \<noteq> None"
  using assms by (auto simp: SaveEvent_def split: if_splits)

lemma SaveEvent_actives_ok: "SaveEvent err ev p = Some p1 \<Longrightarrow> actives_ok p \<Longrightarrow> actives_ok p1"
  using SaveEvent_frame[of err ev p p1] by (simp add: actives_ok_def)

lemma SaveEvent_fresh: "SaveEvent err ev p = Some p1 \<Longrightarrow> actives_ok p \<Longrightarrow> active p1 (ev_ID ev) = None"
  using SaveEvent_frame[of err ev p p1] by (metis actives_ok_def option.exhaust)

lemma open_actives_ok:
  "actives_ok p \<Longrightarrow> db_events p (ev_ID ev) \<noteq> None \<Longrightarrow> actives_ok (open_event cfg e ev p)"
  by (auto simp: actives_ok_def split: if_splits)

lemma acceptEvent_cases [consumes 0, case_names unchanged adopted opened]:
  obtains "acceptEvent cfg e ev p = p"
  | p1 parked where "SaveEvent (env_save_err e) ev p = Some p1" "\<not> cooling_down cfg e ev p"
      "map_of (pendingEnds p) (ev_ID ev) = Some parked"
      "acceptEvent cfg e ev p =
         finish cfg e (ev_ID ev) (new_active cfg ev) (pend_endTime parked)
           ((open_event cfg e ev p1)\<lparr>pendingEnds := AList.delete (ev_ID ev) (pendingEnds p)\<rparr>)"
  | p1 tm where "SaveEvent (env_save_err e) ev p = Some p1" "\<not> cooling_down cfg e ev p"
      "map_of (pendingEnds p) (ev_ID ev) = None"
      "acceptEvent cfg e ev p =
         (open_event cfg e ev p1)\<lparr>active := (active p1)(ev_ID ev \<mapsto> (new_active cfg ev)\<lparr>ae_endTimer := tm\<rparr>)\<rparr>"
proof -
  have none: "(new_active cfg ev)\<lparr>ae_endTimer := None\<rparr> = new_active cfg ev" by (simp add: new_active_def)
  have same: "q\<lparr>active := active q\<rparr> = q" for q :: Processor by simp
  show thesis
  proof (cases "cooling_down cfg e ev p \<or> SaveEvent (env_save_err e) ev p = None")
    case True
    then show ?thesis using that(1) by (auto simp: acceptEvent_def)
  next
    case False
    then obtain p1 where s: "SaveEvent (env_save_err e) ev p = Some p1" by auto
    show ?thesis
    proof (cases "map_of (pendingEnds p) (ev_ID ev)")
      case None
      then show ?thesis
        using that(3)[OF s _ None, of "if ev_Kind ev = EventKindDoorbell
            then Some (tadd (ev_Timestamp ev) (DoorbellClipWindow cfg (ev_CameraName ev))) else None"]
          False s SaveEvent_frame[OF s] same[of "open_event cfg e ev p1"]
        by (auto simp: acceptEvent_def Let_def none split: if_splits)
    next
      case (Some parked)
      then show ?thesis using that(2)[OF s _ Some] False s SaveEvent_frame[OF s]
        by (simp add: acceptEvent_def Let_def)
    qed
  qed
qed


definition events_ok :: "Processor \<Rightarrow> bool" where
  "events_ok p \<longleftrightarrow> actives_ok p \<and> counts_ok p"

lemma events_ok_cong:
  assumes "events_ok q" and "objectCounts p = objectCounts q" and "db_events p = db_events q"
    and "active p = active q"
  shows "events_ok p"
  using assms counts_ok_cong[of q p] by (simp add: events_ok_def actives_ok_def)

lemma finish_events_ok:
  "events_ok p \<Longrightarrow> active p i = Some a \<Longrightarrow> events_ok (finish cfg e i a t p)"
  by (simp add: events_ok_def finish_counts_ok finish_actives_ok)

lemma accept_events_ok:
  assumes "events_ok p" and "env_publisher e"
  shows "events_ok (acceptEvent cfg e ev p)"
proof -
  have ok: "events_ok (open_event cfg e ev p1)" if s: "SaveEvent (env_save_err e) ev p = Some p1" for p1
    using assms s SaveEvent_frame[OF s] SaveEvent_actives_ok[OF s] SaveEvent_fresh[OF s] counts_ok_cong[of p p1]
    by (simp add: events_ok_def open_counts_ok open_actives_ok)
  show ?thesis
  proof (cases rule: acceptEvent_cases[of cfg e ev p])
    case unchanged
    then show ?thesis using assms(1) by simp
  next
    case (adopted p1 parked)
    show ?thesis unfolding adopted(4)
      by (rule finish_events_ok, rule events_ok_cong[OF ok[OF adopted(1)]]) simp_all
  next
    case (opened p1 tm)
    note ok' = ok[OF opened(1)]
    have "counts_ok (acceptEvent cfg e ev p)"
      unfolding opened(4) by (rule counts_ok_cong[of "open_event cfg e ev p1"]) (use ok' in \<open>simp_all add: events_ok_def\<close>)
    moreover have "actives_ok (acceptEvent cfg e ev p)"
      using ok' unfolding opened(4) by (auto simp: events_ok_def actives_ok_def split: if_splits)
    ultimately show ?thesis by (simp add: events_ok_def)
  qed
qed

lemma run_task_frame [simp]:
  "active (run_task ctx client names enc t p) = active p"
  "objectCounts (run_task ctx client names enc t p) = objectCounts p"
  "db_events (run_task ctx client names enc t p) = db_events p"
  "pendingEnds (run_task ctx client names enc t p) = pendingEnds p"
  "background (run_task ctx client names enc t p) = background p"
  by (cases t; simp add: Let_def publish_count_def add_effects_def split: option.splits prod.splits)+

lemma proc_step_events_ok:
  assumes "proc_step cfg True p p'" and "events_ok p"
  shows "events_ok p'"
  using assms
proof (cases rule: proc_step.cases)
  case (event e submitted)
  then show ?thesis using assms(2) by (simp add: accept_events_ok)
next
  case (event_end e en)
  then show ?thesis using assms(2) events_ok_cong[OF assms(2), of "parkEnd (env_now e) en p"]
    by (auto simp: handle_end_def parkEnd_def finish_events_ok split: option.splits)
next
  case (timeout e)
  have "events_ok (p\<lparr>timeout := ch\<rparr>)" for ch by (rule events_ok_cong[OF assms(2)]) simp_all
  then show ?thesis using timeout assms(2)
    by (auto simp: handle_timeout_def Let_def finish_events_ok split: option.splits prod.splits)
qed (use assms(2) in \<open>auto intro!: events_ok_cong[OF assms(2)] simp: timer_fires_def expirePendingEnds_def\<close>)

lemma reachable_events_ok: "proc_reachable cfg True p \<Longrightarrow> events_ok p"
proof (induction rule: proc_reachable.induct)
  case init
  show ?case by (simp add: NewProcessor_def events_ok_def actives_ok_def counts_ok_def tally_def active_in_def)
qed (rule proc_step_events_ok)

definition sample_pcfg :: processor_config where
  "sample_pcfg =
     \<lparr>CooldownSeconds = 0, Continuous = True, MaxEventDuration = Minute, hasServer = False, hasRecorder = False,
      hasEmbedder = False, CameraURL = (\<lambda>_. []), doorbellClipSeconds = 15, cameraClipSeconds = []\<rparr>"

definition sample_env :: "bool \<Rightarrow> env" where
  "sample_env pub = \<lparr>env_now = 100, env_publisher = pub, env_ctx = (False, False), env_save_err = False, env_end_err = False\<rparr>"

definition sample_event :: "string \<Rightarrow> Event" where
  "sample_event i =
     \<lparr>ev_ID = i, ev_CameraName = ''front'', ev_Label = ''person'', ev_Timestamp = 50, ev_EndTime = 0,
      ev_ZoneName = [], ev_SubLabel = [], ev_Kind = ''object'', ev_Category = ''alert'',
      ev_HasSnapshotImage = False, ev_HasAnnotatedImage = False\<rparr>"

definition one_active :: Processor where
  "one_active = acceptEvent sample_pcfg (sample_env True) (sample_event ''a'') NewProcessor"

lemmas sample_defs = sample_pcfg_def sample_env_def sample_event_def NewProcessor_def newObjectCountGate_def

lemmas accept_unfold = acceptEvent_def cooling_down_def SaveEvent_def open_event_def Let_def proc_frame
  count_begin_def gate_reserve_def gate_publish_def new_active_def counted_def EventKindDoorbell_def
  EventKindCry_def

lemma one_active_reachable: "proc_reachable sample_pcfg True one_active"
  unfolding one_active_def
  by (intro proc_reachable.step[OF proc_reachable.init] proc_step.event) (simp add: sample_env_def)

text \<open>
  C10. With an MQTT client present throughout, the object count of a camera and label is at every
  moment exactly the number of its active object events, whatever the order in which
  begins, ends, timeouts and background tasks interleave.
\<close>

theorem object_count_is_active_events:
  assumes "proc_reachable cfg True p"
  shows "tally p cam label = int (card (active_in p cam label))"
  using reachable_events_ok[OF assms] by (simp add: events_ok_def counts_ok_def)


theorem object_count_is_active_events_witness:
  "tally one_active ''front'' ''person'' = int (card (active_in one_active ''front'' ''person''))"
  using object_count_is_active_events[OF one_active_reachable, of "''front''" "''person''"] .

section \<open>Order of the object-count publishes\<close>

type_synonym count_key = "string \<times> string"

definition pending_counts :: "Processor \<Rightarrow> count_key \<Rightarrow> (nat \<times> int) set" where
  "pending_counts p key = {(seq, c). \<exists>ev. PublishEventEnd ev True (Some c) seq \<in> set (background p)
     \<and> (ev_CameraName ev, ev_Label ev) = key}"

definition counts_of :: "count_key \<Rightarrow> job list \<Rightarrow> int list" where
  "counts_of key js = concat (map (\<lambda>j. case j of
       JobObjectCount cam label c \<Rightarrow> if (cam, label) = key then [c] else []
     | _ \<Rightarrow> []) js)"

abbreviation tally_at :: "Processor \<Rightarrow> count_key \<Rightarrow> int" where
  "tally_at p key \<equiv> tally p (fst key) (snd key)"

text \<open>
  For every key there is a newest reservation \<open>L\<close>: either it has been published, and then the last
  value sent is the tally, or it is still waiting in a background task and carries the tally.
\<close>

definition gate_inv :: "Processor \<Rightarrow> count_key \<Rightarrow> bool" where
  "gate_inv p key \<longleftrightarrow> (\<exists>L. gate_published (gate p) key \<le> L \<and> L \<le> gate_next (gate p) \<and>
     (\<forall>(seq, c)\<in>pending_counts p key. seq \<le> L \<and> (seq = L \<longrightarrow> c = tally_at p key)) \<and>
     (if gate_published (gate p) key = L
      then tally_at p key = (if counts_of key (map fst (published p)) = [] then 0 else last (counts_of key (map fst (published p))))
      else (L, tally_at p key) \<in> pending_counts p key))"

lemma counts_of_append [simp]: "counts_of key (xs @ ys) = counts_of key xs @ counts_of key ys"
  by (simp add: counts_of_def)

lemma counts_of_simps [simp]:
  "counts_of key [] = []"
  "counts_of key (JobObjectCount cam label c # js) = (if (cam, label) = key then [c] else []) @ counts_of key js"
  "counts_of key (JobEvent ev # js) = counts_of key js"
  "counts_of key (JobSnapshot cam label # js) = counts_of key js"
  "counts_of key (JobDoorbell cam sub # js) = counts_of key js"
  "counts_of key (map (\<lambda>n. JobObjectSighting n ev) names) = []"
  by (simp_all add: counts_of_def)

lemma gate_inv_quiet:
  assumes "gate_inv p key" and "gate_published (gate p') key = gate_published (gate p) key"
    and "gate_next (gate p) \<le> gate_next (gate p')" and "tally_at p' key = tally_at p key"
    and "pending_counts p' key = pending_counts p key"
    and "counts_of key (map fst (published p')) = counts_of key (map fst (published p))"
  shows "gate_inv p' key"
proof -
  from assms(1) obtain L where "gate_published (gate p) key \<le> L" "L \<le> gate_next (gate p)"
    "\<forall>(seq, c)\<in>pending_counts p key. seq \<le> L \<and> (seq = L \<longrightarrow> c = tally_at p key)"
    "if gate_published (gate p) key = L
     then tally_at p key = (if counts_of key (map fst (published p)) = [] then 0 else last (counts_of key (map fst (published p))))
     else (L, tally_at p key) \<in> pending_counts p key"
    unfolding gate_inv_def by blast
  then show ?thesis unfolding gate_inv_def assms(2,4-6)
    by (intro exI[of _ L] conjI) (use assms(3) in linarith)+
qed

lemma finalize_gate:
  "gate_published (gate (finalizeEvent cfg e a t p)) = gate_published (gate p)"
  "gate_next (gate (finalizeEvent cfg e a t p)) =
     gate_next (gate p) + (if counted (ae_event a) \<and> objectCounts p (ev_CameraName (ae_event a)) \<noteq> None then 1 else 0)"
  by (auto simp: finalizeEvent_def Let_def proc_frame UpdateEventEndTime_def gate_reserve_def
      split: option.splits)

lemma finalize_pending:
  assumes "env_publisher e"
  shows "pending_counts (finalizeEvent cfg e a t p) key = pending_counts p key \<union>
     (if counted (ae_event a) \<and> objectCounts p (ev_CameraName (ae_event a)) \<noteq> None
         \<and> (ev_CameraName (ae_event a), ev_Label (ae_event a)) = key
      then {(gate_next (gate p) + 1, tally_at (finalizeEvent cfg e a t p) key)} else {})"
  using assms
  by (auto simp: finalize_tally pending_counts_def finalizeEvent_def Let_def proc_frame UpdateEventEndTime_def
      gate_reserve_def tally_def split: option.splits if_splits)

lemma objectCounts_None: "objectCounts p cam = None \<Longrightarrow> tally p cam label = 0"
  by (simp add: tally_def)

lemma finalize_gate_inv:
  assumes "env_publisher e" and "gate_inv p key"
  shows "gate_inv (finalizeEvent cfg e a t p) key"
proof (cases "counted (ae_event a) \<and> objectCounts p (ev_CameraName (ae_event a)) \<noteq> None
    \<and> (ev_CameraName (ae_event a), ev_Label (ae_event a)) = key")
  case True
  obtain L where L: "gate_published (gate p) key \<le> L" "L \<le> gate_next (gate p)"
    "\<forall>(seq, c)\<in>pending_counts p key. seq \<le> L"
    using assms(2) by (auto simp: gate_inv_def)
  show ?thesis unfolding gate_inv_def
    by (rule exI[of _ "gate_next (gate p) + 1"])
       (use True L in \<open>fastforce simp: finalize_gate finalize_pending[OF assms(1)]\<close>)
next
  case False
  have "tally_at (finalizeEvent cfg e a t p) key = tally_at p key"
    using False objectCounts_None[of p "fst key" "snd key"] by (auto simp: finalize_tally)
  then show ?thesis
    using False by (intro gate_inv_quiet[OF assms(2)]) (auto simp: finalize_gate finalize_pending[OF assms(1)])
qed

lemma gate_inv_frame:
  assumes "gate_inv p key" and "gate p' = gate p" and "objectCounts p' = objectCounts p"
    and "background p' = background p" and "published p' = published p"
  shows "gate_inv p' key"
  by (rule gate_inv_quiet[OF assms(1)]) (simp_all add: pending_counts_def tally_def assms)

lemma finish_gate_inv:
  assumes "env_publisher e" and "gate_inv p key"
  shows "gate_inv (finish cfg e i a t p) key"
  by (rule gate_inv_frame[OF finalize_gate_inv[OF assms, of cfg a t]]) (simp_all add: finish_def Let_def)

lemma open_counting:
  "gate (open_event cfg e ev p) = gate (count_begin e ev p)"
  "published (open_event cfg e ev p) = published (count_begin e ev p)"
  "mqtt (open_event cfg e ev p) = mqtt (count_begin e ev p)"
  "delivered (open_event cfg e ev p) = delivered p"
  by (simp_all add: open_event_def Let_def proc_frame count_begin_def gate_reserve_def gate_publish_def hand_over_queue)

lemma open_gate_inv:
  assumes "env_publisher e" and "gate_inv p key"
  shows "gate_inv (open_event cfg e ev p) key"
proof -
  have pend: "pending_counts (open_event cfg e ev p) key = pending_counts p key"
    by (auto simp: pending_counts_def open_event_def Let_def proc_frame count_begin_def gate_reserve_def
        gate_publish_def)
  show ?thesis
  proof (cases "counted ev \<and> (ev_CameraName ev, ev_Label ev) = key")
    case True
    obtain L where L: "gate_published (gate p) key \<le> L" "L \<le> gate_next (gate p)"
      "\<forall>(seq, c)\<in>pending_counts p key. seq \<le> L"
      using assms(2) by (auto simp: gate_inv_def)
    have tl: "tally_at (open_event cfg e ev p) key =
        label_count (case objectCounts p (ev_CameraName ev) of Some m \<Rightarrow> m | None \<Rightarrow> Map.empty) (ev_Label ev) + 1"
      using True assms(1) by (auto simp: open_tally tally_def[of p] split: option.splits)
    have "gate_published (gate (open_event cfg e ev p)) key = gate_next (gate p) + 1"
      "gate_next (gate (open_event cfg e ev p)) = gate_next (gate p) + 1"
      "counts_of key (map fst (published (open_event cfg e ev p))) =
         counts_of key (map fst (published p)) @ [tally_at (open_event cfg e ev p) key]"
      unfolding tl using True L(1,2) assms(1)
      by (auto simp: open_counting Let_def count_begin_def gate_reserve_def gate_publish_def)
    then show ?thesis unfolding gate_inv_def
      by (intro exI[of _ "gate_next (gate p) + 1"]) (use L pend in \<open>fastforce simp: pend\<close>)
  next
    case False
    then have "tally_at (open_event cfg e ev p) key = tally_at p key" by (auto simp: open_tally)
    then show ?thesis
      by (intro gate_inv_quiet[OF assms(2) _ _ _ pend])
         (use False in \<open>auto simp: open_counting count_begin_def Let_def gate_reserve_def gate_publish_def\<close>)
  qed
qed

lemma accept_gate_inv:
  assumes "env_publisher e" and "gate_inv p key"
  shows "gate_inv (acceptEvent cfg e ev p) key"
proof (cases rule: acceptEvent_cases[of cfg e ev p])
  case (adopted p1 parked)
  note ok = open_gate_inv[OF assms(1) gate_inv_frame[OF assms(2), of p1], of cfg ev]
  show ?thesis unfolding adopted(4)
    by (rule finish_gate_inv[OF assms(1)], rule gate_inv_frame[OF ok])
       (simp_all add: SaveEvent_frame[OF adopted(1)])
next
  case (opened p1 tm)
  note ok = open_gate_inv[OF assms(1) gate_inv_frame[OF assms(2), of p1], of cfg ev]
  show ?thesis unfolding opened(4)
    by (rule gate_inv_frame[OF ok]) (simp_all add: SaveEvent_frame[OF opened(1)])
qed (use assms(2) in simp)

lemma take_task_pending:
  assumes "background p = ts1 @ t # ts2"
  shows "pending_counts p key = pending_counts (p\<lparr>background := ts1 @ ts2\<rparr>) key \<union>
     (case t of PublishEventEnd ev True (Some c) seq \<Rightarrow>
        if (ev_CameraName ev, ev_Label ev) = key then {(seq, c)} else {} | _ \<Rightarrow> {})"
  using assms by (auto simp: pending_counts_def split: task.splits option.splits bool.splits)

lemma run_task_gate_inv:
  assumes bg: "background p = ts1 @ t # ts2" and inv: "gate_inv p key"
  shows "gate_inv (run_task ctx client names enc t (p\<lparr>background := ts1 @ ts2\<rparr>)) key" (is "gate_inv ?q key")
proof (cases "\<exists>ev c seq. t = PublishEventEnd ev True (Some c) seq \<and> (ev_CameraName ev, ev_Label ev) = key")
  case False
  have "pending_counts ?q key = pending_counts p key"
    using False take_task_pending[OF bg, of key]
    by (auto simp: pending_counts_def split: task.splits option.splits bool.splits)
  moreover have "gate_published (gate ?q) key = gate_published (gate p) key \<and> gate_next (gate ?q) = gate_next (gate p)
      \<and> counts_of key (map fst (published ?q)) = counts_of key (map fst (published p))"
    using False by (cases t) (auto simp: Let_def publish_count_def gate_publish_def add_effects_def split: option.splits)
  ultimately show ?thesis by (intro gate_inv_quiet[OF inv]) (simp_all add: tally_def)
next
  case True
  then obtain ev c seq where t: "t = PublishEventEnd ev True (Some c) seq" "(ev_CameraName ev, ev_Label ev) = key"
    by auto
  obtain L where L: "gate_published (gate p) key \<le> L" "L \<le> gate_next (gate p)"
    "\<forall>(seq, c)\<in>pending_counts p key. seq \<le> L \<and> (seq = L \<longrightarrow> c = tally_at p key)"
    "if gate_published (gate p) key = L
     then tally_at p key = (if counts_of key (map fst (published p)) = [] then 0 else last (counts_of key (map fst (published p))))
     else (L, tally_at p key) \<in> pending_counts p key"
    using inv unfolding gate_inv_def by blast
  define R where "R = pending_counts (p\<lparr>background := ts1 @ ts2\<rparr>) key"
  have P: "pending_counts p key = insert (seq, c) R"
    using take_task_pending[OF bg, of key] t by (simp add: R_def)
  have R: "pending_counts ?q key = R" by (simp only: R_def pending_counts_def run_task_frame)
  have tq: "tally_at ?q key = tally_at p key" by (simp add: tally_def)
  have G: "gate_next (gate ?q) = gate_next (gate p)"
    "gate_published (gate ?q) key = max seq (gate_published (gate p) key)"
    "counts_of key (map fst (published ?q)) = counts_of key (map fst (published p)) @ (if gate_published (gate p) key < seq then [c] else [])"
    using t by (auto simp: Let_def publish_count_def gate_publish_def)
  show ?thesis unfolding gate_inv_def tq G R
    by (rule exI[of _ L]) (use L P in \<open>auto simp: max_def split: if_splits\<close>)
qed

lemma reachable_gate_inv: "proc_reachable cfg True p \<Longrightarrow> gate_inv p key"
proof (induction rule: proc_reachable.induct)
  case init
  show ?case by (simp add: NewProcessor_def gate_inv_def newObjectCountGate_def pending_counts_def tally_def)
next
  case (step p p')
  from step.hyps(2) show ?case
  proof (cases rule: proc_step.cases)
    case (event e ev)
    then show ?thesis using step.IH by (simp add: accept_gate_inv)
  next
    case (event_end e en)
    then show ?thesis using step.IH gate_inv_frame[OF step.IH, of "parkEnd (env_now e) en p"]
      by (auto simp: handle_end_def parkEnd_def finish_gate_inv split: option.splits)
  next
    case (timeout e)
    have "gate_inv (p\<lparr>timeout := ch\<rparr>) key" for ch by (rule gate_inv_frame[OF step.IH]) simp_all
    then show ?thesis using timeout step.IH
      by (auto simp: handle_timeout_def Let_def finish_gate_inv split: option.splits prod.splits)
  next
    case (task ts1 t ts2 ctx client names enc)
    then show ?thesis using step.IH by (simp add: run_task_gate_inv)
  qed (auto intro!: gate_inv_frame[OF step.IH] simp: timer_fires_def expirePendingEnds_def)
qed

section \<open>A client that appears late\<close>

lemma accept_plain:
  assumes "db_events p (ev_ID ev) = None" and "\<not> env_save_err e" and "\<not> cooling_down cfg e ev p"
    and "map_of (pendingEnds p) (ev_ID ev) = None" and "counted ev"
  shows "tally (acceptEvent cfg e ev p) cam label = tally p cam label +
       (if env_publisher e \<and> ev_CameraName ev = cam \<and> ev_Label ev = label then 1 else 0)"
    and "active (acceptEvent cfg e ev p) = (active p)(ev_ID ev \<mapsto> new_active cfg ev)"
    and "cooldowns (acceptEvent cfg e ev p) = cooldowns p"
    and "pendingEnds (acceptEvent cfg e ev p) = pendingEnds p"
    and "\<And>i. i \<noteq> ev_ID ev \<Longrightarrow> db_events (acceptEvent cfg e ev p) i = db_events p i"
proof -
  obtain p1 where s: "SaveEvent (env_save_err e) ev p = Some p1" using assms(1,2) by (simp add: SaveEvent_def)
  have nd: "ev_Kind ev \<noteq> EventKindDoorbell" using assms(5) by (simp add: counted_def)
  have acc: "acceptEvent cfg e ev p = open_event cfg e ev p1"
    using assms(3,4) s nd SaveEvent_frame(3)[OF s] by (simp add: acceptEvent_def Let_def)
  show "tally (acceptEvent cfg e ev p) cam label = tally p cam label +
       (if env_publisher e \<and> ev_CameraName ev = cam \<and> ev_Label ev = label then 1 else 0)"
    using assms(5) SaveEvent_frame(2)[OF s] by (simp add: acc open_tally tally_def[of p] tally_def[of p1])
  show "active (acceptEvent cfg e ev p) = (active p)(ev_ID ev \<mapsto> new_active cfg ev)"
    "cooldowns (acceptEvent cfg e ev p) = cooldowns p" "pendingEnds (acceptEvent cfg e ev p) = pendingEnds p"
    by (simp_all add: acc SaveEvent_frame[OF s])
  show "db_events (acceptEvent cfg e ev p) i = db_events p i" if "i \<noteq> ev_ID ev" for i
    using that s by (auto simp: acc SaveEvent_def split: if_splits)
qed

text \<open>
  Without the assumption of a steady client the count can be wrong: an event that begins
  before the MQTT client exists is not counted, but its end is.  If a second event of the same
  camera and label begins once the client exists and then the first one ends, the tally is
  zero although the second event is still active.
\<close>

theorem object_count_undercounts:
  assumes "counted a" and "counted b" and "ev_CameraName b = ev_CameraName a" and "ev_Label b = ev_Label a"
    and "ev_ID a \<noteq> ev_ID b" and "\<not> env_publisher e0" and "env_publisher e1"
    and "\<not> env_save_err e0" and "\<not> env_save_err e1" and "end_EventID en = ev_ID a"
  shows "let p = handle_end cfg e1 en (acceptEvent cfg e1 b (acceptEvent cfg e0 a NewProcessor))
         in tally p (ev_CameraName a) (ev_Label a) = 0 \<and>
            active_in p (ev_CameraName a) (ev_Label a) = {ev_ID b}"
proof -
  let ?p0 = "NewProcessor :: Processor" and ?p1 = "acceptEvent cfg e0 a NewProcessor"
  let ?p2 = "acceptEvent cfg e1 b ?p1"
  have init: "db_events ?p0 = Map.empty" "cooldowns ?p0 = Map.empty" "pendingEnds ?p0 = []"
    "active ?p0 = Map.empty" "objectCounts ?p0 = Map.empty"
    by (simp_all add: NewProcessor_def)
  note a1 = accept_plain[of ?p0 a e0 cfg, unfolded init cooling_down_def, simplified, OF assms(8,1)]
  have c2: "\<not> cooling_down cfg e1 b ?p1" by (simp add: cooling_down_def a1)
  have d2: "db_events ?p1 (ev_ID b) = None" using a1(5)[of "ev_ID b"] assms(5) by (simp add: init)
  note a2 = accept_plain[OF d2 assms(9) c2 _ assms(2)]
  have act: "active ?p2 = [ev_ID a \<mapsto> new_active cfg a, ev_ID b \<mapsto> new_active cfg b]"
    using a2(2) a1 by (simp add: init)
  have t: "tally ?p2 (ev_CameraName a) (ev_Label a) = 1"
    using a2(1) a1 assms by (simp add: tally_def[of ?p0] init)
  have h: "handle_end cfg e1 en ?p2 = finish cfg e1 (ev_ID a) (new_active cfg a) (end_EndTime en) ?p2"
    using assms(5,10) act by (simp add: handle_end_def)
  show ?thesis using t assms
    by (auto simp: Let_def h finalize_tally active_in_def finish_active act)
qed

theorem object_count_undercounts_witness:
  "let p = handle_end sample_pcfg (sample_env True) \<lparr>end_EventID = ''a'', end_CameraName = ''front'', end_EndTime = 90\<rparr>
             (acceptEvent sample_pcfg (sample_env True) (sample_event ''b'')
               (acceptEvent sample_pcfg (sample_env False) (sample_event ''a'') NewProcessor))
   in tally p ''front'' ''person'' = 0 \<and> active_in p ''front'' ''person'' = {''b''}"
  using object_count_undercounts[of "sample_event ''a''" "sample_event ''b''" "sample_env False" "sample_env True"
      "\<lparr>end_EventID = ''a'', end_CameraName = ''front'', end_EndTime = 90\<rparr>" sample_pcfg]
  by (simp add: sample_event_def sample_env_def counted_def EventKindDoorbell_def EventKindCry_def)


section \<open>Ends that arrive early\<close>

lemma delete_update_fresh: "i \<notin> fst ` set ps \<Longrightarrow> AList.delete i (AList.update i v ps) = ps"
  by (induction ps) (auto simp: AList.delete_eq)

lemma finalize_ignores_endTimer: "finalizeEvent cfg e (a\<lparr>ae_endTimer := tm\<rparr>) t p = finalizeEvent cfg e a t p"
  by (simp add: finalizeEvent_def Let_def)

lemmas finalize_parts = finalizeEvent_def Let_def proc_frame UpdateEventEndTime_def gate_reserve_def

lemma finalize_upd:
  "finalizeEvent cfg e a t (p\<lparr>pendingEnds := ps\<rparr>) = (finalizeEvent cfg e a t p)\<lparr>pendingEnds := ps\<rparr>"
  "finalizeEvent cfg e a t (p\<lparr>active := m\<rparr>) = (finalizeEvent cfg e a t p)\<lparr>active := m\<rparr>"
  by (rule Processor.equality; simp add: finalize_db finalize_counts; simp add: finalize_parts split: option.split)+

lemma open_upd:
  "open_event cfg e ev (p\<lparr>pendingEnds := ps\<rparr>) = (open_event cfg e ev p)\<lparr>pendingEnds := ps\<rparr>"
  by (rule Processor.equality)
    (simp_all add: open_event_def Let_def proc_frame count_begin_def gate_reserve_def gate_publish_def hand_over_queue)

lemma SaveEvent_upd:
  "SaveEvent err ev (p\<lparr>pendingEnds := ps\<rparr>) = map_option (\<lambda>p1. p1\<lparr>pendingEnds := ps\<rparr>) (SaveEvent err ev p)"
  by (simp add: SaveEvent_def)

text \<open>
  C12. An end that overtakes its event on the other channel changes nothing: for a new event,
  serving the end first (it is parked and adopted by the event) leaves exactly the state that
  serving the event first leaves, including the stored end time, the cooldown, the counts and
  the background work, when the two are served back to back and the table of parked ends is not full.
\<close>

theorem end_before_event:
  assumes "end_EventID en = ev_ID ev" and "active p (ev_ID ev) = None" and "db_events p (ev_ID ev) = None"
    and "ev_ID ev \<notin> fst ` set (pendingEnds p)" and "length (pendingEnds p) < maxPendingEnds"
    and "\<not> env_save_err e" and "\<not> cooling_down cfg e ev p"
  shows "acceptEvent cfg e ev (handle_end cfg e en p) = handle_end cfg e en (acceptEvent cfg e ev p)"
proof -
  define ps where "ps = AList.update (ev_ID ev)
      \<lparr>pend_endTime = end_EndTime en, pend_parkedAt = env_now e\<rparr> (pendingEnds p)"
  have park: "handle_end cfg e en p = p\<lparr>pendingEnds := ps\<rparr>"
    using assms(1,2,5) by (simp add: handle_end_def parkEnd_def ps_def)
  obtain p1 where s: "SaveEvent (env_save_err e) ev p = Some p1" using assms(3,6) by (simp add: SaveEvent_def)
  have pend1: "pendingEnds p1 = pendingEnds p" using SaveEvent_frame[OF s] by simp
  have cool: "\<not> cooling_down cfg e ev (p\<lparr>pendingEnds := ps\<rparr>)" using assms(7) by (simp add: cooling_down_def)
  have look: "map_of ps (ev_ID ev) = Some \<lparr>pend_endTime = end_EndTime en, pend_parkedAt = env_now e\<rparr>"
    "map_of (pendingEnds p) (ev_ID ev) = None" "AList.delete (ev_ID ev) ps = pendingEnds p"
    using assms(4) by (simp_all add: ps_def update_conv' map_of_eq_None_iff delete_update_fresh)
  have same: "pendingEnds q = x \<Longrightarrow> q\<lparr>pendingEnds := x\<rparr> = q" for q :: Processor and x by auto
  let ?fin = "finalizeEvent cfg e (new_active cfg ev) (end_EndTime en) (open_event cfg e ev p1)"
  have "acceptEvent cfg e ev (handle_end cfg e en p) =
      finish cfg e (ev_ID ev) (new_active cfg ev) (end_EndTime en) ((open_event cfg e ev p1)\<lparr>pendingEnds := pendingEnds p\<rparr>)"
    using cool s look unfolding park by (simp add: acceptEvent_def SaveEvent_upd open_upd Let_def)
  also have "\<dots> = ?fin\<lparr>active := (active p1)(ev_ID ev := None)\<rparr>"
    by (simp add: finish_def Let_def same[of "open_event cfg e ev p1" "pendingEnds p"] pend1)
  also have "\<dots> = handle_end cfg e en (acceptEvent cfg e ev p)"
  proof (cases rule: acceptEvent_cases[of cfg e ev p])
    case unchanged
    have "active (acceptEvent cfg e ev p) (ev_ID ev) \<noteq> None"
      using assms(7) s look(2) pend1 by (simp add: acceptEvent_def Let_def)
    then show ?thesis using unchanged assms(2) by simp
  next
    case (adopted p1' parked)
    then show ?thesis using look by simp
  next
    case (opened p1' tm)
    then show ?thesis using s assms(1)
      by (simp add: handle_end_def finish_def Let_def finalize_upd finalize_ignores_endTimer)
  qed
  finally show ?thesis .
qed

definition sample_end :: EventEnd where
  "sample_end = \<lparr>end_EventID = ''a'', end_CameraName = ''front'', end_EndTime = 90\<rparr>"

theorem end_before_event_witness:
  "acceptEvent sample_pcfg (sample_env True) (sample_event ''a'')
     (handle_end sample_pcfg (sample_env True) sample_end NewProcessor)
   = handle_end sample_pcfg (sample_env True) sample_end one_active"
  unfolding one_active_def
  using end_before_event[of sample_end "sample_event ''a''" NewProcessor "sample_env True" sample_pcfg]
  by (simp add: sample_defs sample_end_def cooling_down_def maxPendingEnds_def)

subsection \<open>The table of parked ends\<close>

lemma oldest_end_least:
  assumes "oldest_end ps (i0, t0) = (i, t)" and "i0 \<noteq> []" and "\<forall>(j, q)\<in>set ps. j \<noteq> []"
  shows "((i, t) = (i0, t0) \<or> (\<exists>q. (i, q) \<in> set ps \<and> pend_parkedAt q = t)) \<and> t \<le> t0 \<and>
     (\<forall>(j, q)\<in>set ps. t \<le> pend_parkedAt q)"
  using assms
proof (induction ps arbitrary: i0 t0)
  case (Cons jq ps)
  obtain j q where jq: "jq = (j, q)" by force
  have ne: "\<forall>(j, q)\<in>set ps. j \<noteq> []" "j \<noteq> []" using Cons.prems(3) jq by auto
  show ?case
  proof (cases "tbefore (pend_parkedAt q) t0")
    case True
    then have r: "oldest_end ps (j, pend_parkedAt q) = (i, t)" using Cons.prems jq by simp
    from Cons.IH[OF r ne(2,1)] show ?thesis using True jq by (auto simp: tbefore_def)
  next
    case False
    then have r: "oldest_end ps (i0, t0) = (i, t)" using Cons.prems jq by simp
    from Cons.IH[OF r Cons.prems(2) ne(1)] show ?thesis using False jq by (auto simp: tbefore_def)
  qed
qed simp

lemma oldest_end_first:
  assumes "ps \<noteq> []" and "\<forall>(j, q)\<in>set ps. j \<noteq> []"
  obtains i q where "fst (oldest_end ps ([], zeroTime)) = i" "(i, q) \<in> set ps"
    "\<forall>(j, r)\<in>set ps. pend_parkedAt q \<le> pend_parkedAt r"
proof -
  obtain j r ps' where ps: "ps = (j, r) # ps'" using assms(1) by (cases ps) auto
  obtain i t where o': "oldest_end ps' (j, pend_parkedAt r) = (i, t)" by force
  have "j \<noteq> []" "\<forall>(j, q)\<in>set ps'. j \<noteq> []" using assms(2) ps by auto
  note least = oldest_end_least[OF o' this]
  obtain q where "(i, q) \<in> set ps" "pend_parkedAt q = t" using least ps by auto
  moreover have "\<forall>(j, r)\<in>set ps. t \<le> pend_parkedAt r" using least ps by auto
  moreover have "fst (oldest_end ps ([], zeroTime)) = i" using o' ps by simp
  ultimately show ?thesis using that by blast
qed

definition parked_ok :: "Processor \<Rightarrow> bool" where
  "parked_ok p \<longleftrightarrow> distinct (map fst (pendingEnds p)) \<and> length (pendingEnds p) \<le> maxPendingEnds"

lemma length_delete_mem: "i \<in> fst ` set ps \<Longrightarrow> length (AList.delete i ps) < length ps"
  by (force simp: AList.delete_eq intro: length_filter_less)

lemma length_update_le: "length (AList.update i v ps) \<le> Suc (length ps)"
  by (induction ps) auto

lemma oldest_end_mem: "ps \<noteq> [] \<Longrightarrow> fst (oldest_end ps ([], t)) \<in> fst ` set ps"
proof -
  have gen: "fst (oldest_end qs (i, u)) \<in> insert i (fst ` set qs)" for qs i u
    by (induction qs "(i, u)" arbitrary: i u rule: oldest_end.induct) auto
  assume "ps \<noteq> []"
  then obtain i q qs where ps: "ps = (i, q) # qs" by (cases ps) auto
  then show "fst (oldest_end ps ([], t)) \<in> fst ` set ps" using gen[of qs i "pend_parkedAt q"] by auto
qed


lemma parkEnd_parked_ok:
  assumes "parked_ok p"
  shows "parked_ok (parkEnd now en p)"
proof -
  let ?ps = "pendingEnds p" and ?i = "fst (oldest_end (pendingEnds p) ([], zeroTime))"
  define qs where "qs = (if length ?ps \<ge> maxPendingEnds then AList.delete ?i ?ps else ?ps)"
  have "length qs < maxPendingEnds"
  proof (cases "length ?ps \<ge> maxPendingEnds")
    case True
    then have "?ps \<noteq> []" by (auto simp: maxPendingEnds_def)
    then have "length (AList.delete ?i ?ps) < length ?ps" by (intro length_delete_mem oldest_end_mem)
    then show ?thesis using assms True by (simp add: qs_def parked_ok_def)
  next
    case False
    then show ?thesis by (simp add: qs_def)
  qed
  moreover have "distinct (map fst qs)" using assms by (simp add: qs_def parked_ok_def distinct_delete)
  ultimately show ?thesis
    using length_update_le[of "end_EventID en" "\<lparr>pend_endTime = end_EndTime en, pend_parkedAt = now\<rparr>" qs]
    by (simp add: parkEnd_def Let_def parked_ok_def qs_def distinct_update)
qed

lemma parked_ok_cong: "parked_ok q \<Longrightarrow> pendingEnds p = pendingEnds q \<Longrightarrow> parked_ok p"
  by (simp add: parked_ok_def)

lemma accept_parked_ok:
  assumes "parked_ok p"
  shows "parked_ok (acceptEvent cfg e ev p)"
proof (cases rule: acceptEvent_cases[of cfg e ev p])
  case (adopted p1 parked)
  have "length (AList.delete (ev_ID ev) (pendingEnds p)) \<le> length (pendingEnds p)"
    by (simp add: AList.delete_eq)
  then show ?thesis using assms adopted
    by (auto simp: parked_ok_def finish_def Let_def intro!: distinct_delete)
next
  case (opened p1 tm)
  then show ?thesis using assms SaveEvent_frame[OF opened(1)] by (simp add: parked_ok_def)
qed (use assms in simp)

lemma finish_pendingEnds [simp]: "pendingEnds (finish cfg e i a t p) = pendingEnds p"
  by (simp add: finish_def Let_def)

text \<open>
  The table of parked ends stays bounded whatever the cameras send: in every reachable state
  it holds at most \<open>maxPendingEnds\<close> entries, one per event id.
\<close>

theorem pending_ends_bounded:
  "proc_reachable cfg steady p \<Longrightarrow>
     length (pendingEnds p) \<le> maxPendingEnds \<and> distinct (map fst (pendingEnds p))"
proof -
  have "proc_reachable cfg steady p \<Longrightarrow> parked_ok p"
  proof (induction rule: proc_reachable.induct)
    case (step p p')
    from step.hyps(2) step.IH show ?case
    proof (cases rule: proc_step.cases)
      case (event e ev)
      then show ?thesis using step.IH by (simp add: accept_parked_ok)
    next
      case (event_end e en)
      then show ?thesis using step.IH parkEnd_parked_ok[OF step.IH, of "env_now e" en]
        by (auto simp: handle_end_def parked_ok_def split: option.splits)
    next
      case (timeout e)
      then show ?thesis using step.IH
        by (auto simp: handle_timeout_def Let_def parked_ok_def split: option.splits prod.splits)
    next
      case (sweep now)
      then show ?thesis using step.IH
        by (auto simp: expirePendingEnds_def parked_ok_def distinct_map_filter
            intro: order_trans[OF length_filter_le])
    next
      case (reorder ps)
      have "length ps = length (pendingEnds p)" using reorder(2) by (rule mset_eq_length)
      moreover have "distinct (map fst ps) = distinct (map fst (pendingEnds p))"
        by (rule mset_eq_imp_distinct_iff) (simp add: reorder(2))
      ultimately show ?thesis using step.IH reorder(1) by (simp add: parked_ok_def)
    qed (auto simp: timer_fires_def parked_ok_def)
  qed (simp add: NewProcessor_def parked_ok_def)
  then show "proc_reachable cfg steady p \<Longrightarrow>
     length (pendingEnds p) \<le> maxPendingEnds \<and> distinct (map fst (pendingEnds p))"
    by (simp add: parked_ok_def)
qed

theorem pending_ends_bounded_witness:
  "length (pendingEnds one_active) \<le> maxPendingEnds \<and> distinct (map fst (pendingEnds one_active))"
  using pending_ends_bounded[OF one_active_reachable] .

text \<open>
  Parking an end in a full table evicts exactly one entry, one that was parked no later than
  any other, and keeps all the others.
\<close>

theorem parkEnd_evicts_oldest:
  assumes "distinct (map fst (pendingEnds p))" and "length (pendingEnds p) = maxPendingEnds"
    and "\<forall>(i, q)\<in>set (pendingEnds p). i \<noteq> []" and "end_EventID en \<notin> fst ` set (pendingEnds p)"
  shows "\<exists>i q. (i, q) \<in> set (pendingEnds p) \<and> (\<forall>(j, r)\<in>set (pendingEnds p). pend_parkedAt q \<le> pend_parkedAt r) \<and>
     map_of (pendingEnds (parkEnd now en p)) =
       (map_of (pendingEnds p))(i := None,
          end_EventID en \<mapsto> \<lparr>pend_endTime = end_EndTime en, pend_parkedAt = now\<rparr>)"
proof -
  have "pendingEnds p \<noteq> []" using assms(2) by (auto simp: maxPendingEnds_def)
  then obtain i q where "fst (oldest_end (pendingEnds p) ([], zeroTime)) = i" "(i, q) \<in> set (pendingEnds p)"
    "\<forall>(j, r)\<in>set (pendingEnds p). pend_parkedAt q \<le> pend_parkedAt r"
    using assms(3) by (rule oldest_end_first)
  then show ?thesis using assms(2)
    by (intro exI[of _ i] exI[of _ q]) (simp add: parkEnd_def update_conv' delete_conv' fun_upd_twist)
qed

definition full_table :: Processor where
  "full_table = NewProcessor\<lparr>pendingEnds :=
     map (\<lambda>n. (replicate (Suc n) (CHR ''x''), \<lparr>pend_endTime = 0, pend_parkedAt = int n\<rparr>)) [0..<1024]\<rparr>"

theorem parkEnd_evicts_oldest_witness:
  "\<exists>i q. (i, q) \<in> set (pendingEnds full_table) \<and> (\<forall>(j, r)\<in>set (pendingEnds full_table). pend_parkedAt q \<le> pend_parkedAt r) \<and>
     map_of (pendingEnds (parkEnd 2000 sample_end full_table)) =
       (map_of (pendingEnds full_table))(i := None, ''a'' \<mapsto> \<lparr>pend_endTime = 90, pend_parkedAt = 2000\<rparr>)"
proof -
  have "distinct (map fst (pendingEnds full_table))"
    by (auto simp: full_table_def o_def distinct_map inj_on_def)
  moreover have "length (pendingEnds full_table) = maxPendingEnds" by (simp add: full_table_def maxPendingEnds_def)
  moreover have "\<forall>(i, q)\<in>set (pendingEnds full_table). i \<noteq> []" by (auto simp: full_table_def)
  moreover have "end_EventID sample_end \<notin> fst ` set (pendingEnds full_table)"
    by (auto simp: full_table_def sample_end_def)
  ultimately show ?thesis using parkEnd_evicts_oldest[of full_table sample_end 2000]
    by (simp add: sample_end_def)
qed

section \<open>Delivery order of the MQTT queue\<close>

datatype queue_op = Enqueue bool bool job | Deliver

text \<open>A run of the queue: what was accepted, what reached a connected client, and the queue left.\<close>

fun queue_run :: "queue_op list \<Rightarrow> job channel \<Rightarrow> job list \<times> job list \<times> job channel" where
  "queue_run [] q = ([], [], q)"
| "queue_run (Enqueue ctxDone pick j # os) q =
     (case enqueue ctxDone pick j q of (r, q1) \<Rightarrow> case queue_run os q1 of (acc, del, q2) \<Rightarrow>
        ((if r = Inr () then j # acc else acc), del, q2))"
| "queue_run (Deliver # os) q =
     (case dispatcher_step True q of (js, q1) \<Rightarrow> case queue_run os q1 of (acc, del, q2) \<Rightarrow>
        (acc, js @ del, q2))"

text \<open>The dispatcher's operations are those of a bounded queue.\<close>

lemma enqueue_send:
  "enqueue ctxDone pick j q = (r, q') \<Longrightarrow>
     ch_buf q' = (if r = Inr () then ch_buf q @ [j] else ch_buf q) \<and> (chan_ok q \<longrightarrow> chan_ok q')"
  using gochan.send_items[of j q] gochan.send_ok[of q j]
  by (auto simp: enqueue_def split: prod.splits if_splits)

lemma dispatcher_recv:
  "dispatcher_step True q = (js, q') \<Longrightarrow> ch_buf q = js @ ch_buf q' \<and> (chan_ok q \<longrightarrow> chan_ok q')"
  using gochan.recv_items[of q] gochan.recv_ok[of q]
  by (auto simp: dispatcher_step_def split: prod.splits option.splits)

text \<open>
  While a client is connected the MQTT worker delivers exactly the accepted jobs in the order
  they were accepted: what was queued before and accepted since is what was delivered followed
  by what is still queued, and the queue never exceeds its capacity.
\<close>

theorem mqtt_queue_fifo:
  "queue_run os q = (acc, del, q') \<Longrightarrow>
     ch_buf q @ acc = del @ ch_buf q' \<and> (chan_ok q \<longrightarrow> chan_ok q')"
proof (induction os q arbitrary: acc del q' rule: queue_run.induct)
  case (2 ctxDone pick j os q)
  obtain r q1 where r: "enqueue ctxDone pick j q = (r, q1)" by force
  obtain acc1 del1 q2 where rest: "queue_run os q1 = (acc1, del1, q2)" by (metis prod_cases3)
  show ?case using "2.prems" "2.IH"[OF r[symmetric] rest] r rest enqueue_send[OF r] by (auto split: if_splits)
next
  case (3 os q)
  obtain js q1 where r: "dispatcher_step True q = (js, q1)" by force
  obtain acc1 del1 q2 where rest: "queue_run os q1 = (acc1, del1, q2)" by (metis prod_cases3)
  show ?case using "3.prems" "3.IH"[OF r[symmetric] rest] r rest dispatcher_recv[OF r] by auto
qed simp

theorem mqtt_queue_fifo_witness:
  "queue_run [Enqueue False False (JobSnapshot ''c'' ''l''), Deliver] (make_chan mqttPublishQueueCapacity) =
     ([JobSnapshot ''c'' ''l''], [JobSnapshot ''c'' ''l''], make_chan mqttPublishQueueCapacity)
   \<and> ch_buf (make_chan mqttPublishQueueCapacity :: job channel) @ [JobSnapshot ''c'' ''l''] =
     [JobSnapshot ''c'' ''l''] @ ch_buf (make_chan mqttPublishQueueCapacity)"
proof -
  have "queue_run [Enqueue False False (JobSnapshot ''c'' ''l''), Deliver] (make_chan mqttPublishQueueCapacity) =
     ([JobSnapshot ''c'' ''l''], [JobSnapshot ''c'' ''l''], make_chan mqttPublishQueueCapacity)"
    by (simp add: make_chan_def mqttPublishQueueCapacity_def enqueue_def dispatcher_step_def try_send_def try_recv_def)
  from this mqtt_queue_fifo[OF this] show ?thesis by simp
qed

section \<open>The retained count\<close>

text \<open>The counts of one camera and label among the jobs handed over, each with whether the queue took it.\<close>

definition count_log :: "count_key \<Rightarrow> (job \<times> bool) list \<Rightarrow> (int \<times> bool) list" where
  "count_log key js = concat (map (\<lambda>(j, took). case j of
       JobObjectCount cam label c \<Rightarrow> if (cam, label) = key then [(c, took)] else []
     | _ \<Rightarrow> []) js)"

lemma count_log_handed: "map fst (count_log key js) = counts_of key (map fst js)"
  by (induction js) (auto simp: count_log_def counts_of_def split: job.split)

lemma count_log_taken: "map fst (filter snd (count_log key js)) = counts_of key (map fst (filter snd js))"
  by (induction js) (auto simp: count_log_def counts_of_def split: job.split)

text \<open>What the queue took is what the worker delivered and what still waits.\<close>

definition queue_inv :: "Processor \<Rightarrow> bool" where
  "queue_inv p \<longleftrightarrow> map fst (filter snd (published p)) = delivered p @ ch_buf (mqtt p)"

lemma queue_inv_frame:
  "queue_inv p \<Longrightarrow> published p' = published p \<Longrightarrow> mqtt p' = mqtt p \<Longrightarrow> delivered p' = delivered p \<Longrightarrow> queue_inv p'"
  by (simp add: queue_inv_def)

lemma hand_over_queue_inv: "queue_inv p \<Longrightarrow> queue_inv (hand_over ctx j p)"
  using enqueue_send[of "fst ctx" "snd ctx" j "mqtt p", OF prod.collapse[symmetric]]
  by (auto simp: queue_inv_def hand_over_queue)

lemma hand_over_all_queue_inv: "queue_inv p \<Longrightarrow> queue_inv (hand_over_all ctx js p)"
  by (erule hand_over_all_induct) (rule hand_over_queue_inv)

lemma finish_queue_inv: "queue_inv p \<Longrightarrow> queue_inv (finish cfg e i a t p)"
  by (erule queue_inv_frame) (simp_all add: finish_def Let_def)

lemma count_begin_queue_inv: "queue_inv p \<Longrightarrow> queue_inv (count_begin e ev p)"
  by (auto simp: count_begin_def Let_def gate_reserve_def gate_publish_def queue_inv_frame[of p] intro!: hand_over_queue_inv)

lemma accept_queue_inv:
  assumes "queue_inv p"
  shows "queue_inv (acceptEvent cfg e ev p)"
proof -
  have begun: "queue_inv (open_event cfg e ev p1)" if "SaveEvent (env_save_err e) ev p = Some p1" for p1
  proof -
    have "queue_inv p1" using that assms by (auto simp: SaveEvent_def queue_inv_def split: if_splits)
    from count_begin_queue_inv[OF this, of e ev] show ?thesis
      by (rule queue_inv_frame) (simp_all add: open_counting count_begin_def Let_def gate_reserve_def gate_publish_def)
  qed
  show ?thesis
  proof (cases rule: acceptEvent_cases[of cfg e ev p])
    case (adopted p1 parked)
    then show ?thesis using queue_inv_frame[OF begun[OF adopted(1)]] by (simp add: finish_queue_inv)
  next
    case (opened p1 tm)
    then show ?thesis using queue_inv_frame[OF begun[OF opened(1)]] by simp
  qed (use assms in simp)
qed

lemma run_task_queue_inv: "queue_inv p \<Longrightarrow> queue_inv (run_task ctx client names enc t p)"
proof (cases t)
  case (PublishEventEnd ev pub objectCount seq)
  assume inv: "queue_inv p"
  have "queue_inv (hand_over (ctx 0) (JobEvent ev) p\<lparr>gate := g\<rparr>)" for g
    using hand_over_queue_inv[OF inv] by (rule queue_inv_frame) simp_all
  then show ?thesis using PublishEventEnd hand_over_queue_inv inv
    by (auto simp: Let_def publish_count_def intro!: hand_over_queue_inv split: option.split prod.split)
qed (auto simp: add_effects_def intro: queue_inv_frame hand_over_all_queue_inv)

lemma deliver_queue_inv: "queue_inv p \<Longrightarrow> queue_inv (deliver_next True p)"
  using dispatcher_recv[of "mqtt p"] by (auto simp: queue_inv_def deliver_next_def split: prod.split)

lemma reachable_queue_inv: "proc_reachable cfg True p \<Longrightarrow> queue_inv p"
proof (induction rule: proc_reachable.induct)
  case init
  show ?case by (simp add: NewProcessor_def queue_inv_def make_chan_def)
next
  case (step p p')
  note inv = step.IH
  from step.hyps(2) show ?case
  proof (cases rule: proc_step.cases)
    case (event e ev)
    then show ?thesis using inv by (simp add: accept_queue_inv)
  next
    case (dispatch client)
    then show ?thesis using inv deliver_queue_inv by simp
  next
    case (event_end e en)
    then show ?thesis using inv queue_inv_frame[OF inv, of "parkEnd (env_now e) en p"]
      by (auto simp: handle_end_def parkEnd_def finish_queue_inv split: option.splits)
  next
    case (timeout e)
    have "queue_inv (p\<lparr>timeout := ch\<rparr>)" for ch by (rule queue_inv_frame[OF inv]) simp_all
    then show ?thesis using timeout inv
      by (auto simp: handle_timeout_def Let_def finish_queue_inv split: option.splits prod.splits)
  next
    case (task ts1 t ts2 ctx client names enc)
    have "queue_inv (p\<lparr>background := ts1 @ ts2\<rparr>)" by (rule queue_inv_frame[OF inv]) simp_all
    then show ?thesis using task by (simp add: run_task_queue_inv)
  qed (auto intro!: queue_inv_frame[OF inv] simp: timer_fires_def expirePendingEnds_def)
qed


definition one_sent :: Processor where
  "one_sent = deliver_next True one_active"

lemma one_sent_reachable: "proc_reachable sample_pcfg True one_sent"
  unfolding one_sent_def using one_active_reachable by (rule proc_reachable.step) (rule proc_step.dispatch, simp)

lemma one_sent_counts:
  "pending_counts one_sent (''front'', ''person'') = {}"
  "counts_of (''front'', ''person'') (ch_buf (mqtt one_sent)) = []"
  "count_log (''front'', ''person'') (published one_sent) = [(1, True)]"
  by (simp_all add: one_sent_def one_active_def sample_defs accept_unfold pending_counts_def deliver_next_def count_log_def
      hand_over_def enqueue_def dispatcher_step_def try_send_def try_recv_def make_chan_def mqttPublishQueueCapacity_def)


subsection \<open>A count that is lost\<close>

text \<open>
  A burst that fills the queue: the worker is busy while the recognition of an event publishes as many sightings as the queue has
  room for.  The end of the event then reserves, passes the gate and is refused; nobody publishes it again.
\<close>

lemma hand_over_fills:
  assumes "length (ch_buf (mqtt p)) \<le> ch_cap (mqtt p)"
  shows "ch_buf (mqtt (hand_over_all (\<lambda>_. (False, False)) js p)) = take (ch_cap (mqtt p)) (ch_buf (mqtt p) @ js)"
proof -
  have "ch_buf (mqtt (fold (\<lambda>(i, j). hand_over (False, False) j) (List.enumerate n js) p)) = take (ch_cap (mqtt p)) (ch_buf (mqtt p) @ js)"
    if "length (ch_buf (mqtt p)) \<le> ch_cap (mqtt p)" for n p
    using that
  proof (induction js arbitrary: n p)
    case (Cons j js)
    let ?p = "hand_over (False, False) j p"
    have q: "mqtt ?p = (if length (ch_buf (mqtt p)) < ch_cap (mqtt p) then (mqtt p)\<lparr>ch_buf := ch_buf (mqtt p) @ [j]\<rparr> else mqtt p)"
      by (auto simp: hand_over_queue enqueue_def try_send_def)
    show ?case using Cons.IH[of ?p "Suc n"] Cons.prems by (auto simp: q take_Cons' split: if_splits)
  qed simp
  then show ?thesis using assms by (simp add: hand_over_all_def)
qed

lemma hand_over_cap: "ch_cap (mqtt (hand_over_all ctx js p)) = ch_cap (mqtt p)"
  by (rule hand_over_all_induct) (auto simp: hand_over_queue enqueue_def try_send_def split: prod.split)

definition burst_cfg :: processor_config where "burst_cfg = sample_pcfg\<lparr>hasEmbedder := True\<rparr>"

definition burst_event :: Event where "burst_event = (sample_event ''a'')\<lparr>ev_HasSnapshotImage := True\<rparr>"

definition burst_begun :: Processor where
  "burst_begun = acceptEvent burst_cfg (sample_env True) burst_event NewProcessor"

definition burst_full :: Processor where
  "burst_full = run_task (\<lambda>_. (False, False)) True (replicate 300 ''x'') True (RecognizeObject burst_event)
     (burst_begun\<lparr>background := [EmitArtifacts burst_event True]\<rparr>)"

definition burst_ended :: Processor where
  "burst_ended = handle_end burst_cfg (sample_env True) sample_end burst_full"

definition burst_lost :: Processor where
  "burst_lost = deliver_next True (run_task (\<lambda>_. (False, False)) True [] True
     (PublishEventEnd (burst_event\<lparr>ev_EndTime := 90\<rparr>) True (Some 0) 2)
     (burst_ended\<lparr>background := [EmitArtifacts burst_event True]\<rparr>))"

lemmas queue_unfold = hand_over_queue enqueue_def dispatcher_step_def try_send_def try_recv_def make_chan_def

lemma burst_begun_fields:
  "active burst_begun = [''a'' \<mapsto> new_active burst_cfg burst_event]" "objectCounts burst_begun = [''front'' \<mapsto> [''person'' \<mapsto> 1]]"
  "gate burst_begun = \<lparr>gate_next = 1, gate_published = (\<lambda>_. 0)((''front'', ''person'') := 1)\<rparr>"
  "background burst_begun = [EmitArtifacts burst_event True, RecognizeObject burst_event]" "delivered burst_begun = []"
  "mqtt burst_begun = \<lparr>ch_cap = 256, ch_buf = [JobObjectCount ''front'' ''person'' 1]\<rparr>"
  by (simp_all add: burst_begun_def burst_cfg_def burst_event_def sample_defs accept_unfold queue_unfold mqttPublishQueueCapacity_def)

lemma burst_full_queue:
  "ch_buf (mqtt burst_full) = JobObjectCount ''front'' ''person'' 1 # replicate 255 (JobObjectSighting ''x'' burst_event)"
  "ch_cap (mqtt burst_full) = 256"
  by (simp_all add: burst_full_def hand_over_fills hand_over_cap burst_begun_fields map_replicate_const)

lemma burst_ended_fields:
  "active burst_ended = Map.empty" "delivered burst_ended = []" "mqtt burst_ended = mqtt burst_full"
  "gate burst_ended = \<lparr>gate_next = 2, gate_published = (\<lambda>_. 0)((''front'', ''person'') := 1)\<rparr>"
  "background burst_ended = [EmitArtifacts burst_event True, PublishEventEnd (burst_event\<lparr>ev_EndTime := 90\<rparr>) True (Some 0) 2]"
proof -
  have f: "active burst_full = [''a'' \<mapsto> new_active burst_cfg burst_event]" "objectCounts burst_full = [''front'' \<mapsto> [''person'' \<mapsto> 1]]"
    "gate burst_full = \<lparr>gate_next = 1, gate_published = (\<lambda>_. 0)((''front'', ''person'') := 1)\<rparr>"
    "background burst_full = [EmitArtifacts burst_event True]" "delivered burst_full = []"
    by (simp_all add: burst_full_def burst_begun_fields)
  show "active burst_ended = Map.empty" "delivered burst_ended = []" "mqtt burst_ended = mqtt burst_full"
    "gate burst_ended = \<lparr>gate_next = 2, gate_published = (\<lambda>_. 0)((''front'', ''person'') := 1)\<rparr>"
    "background burst_ended = [EmitArtifacts burst_event True, PublishEventEnd (burst_event\<lparr>ev_EndTime := 90\<rparr>) True (Some 0) 2]"
    by (simp_all add: burst_ended_def handle_end_def f sample_end_def finish_def finalizeEvent_def Let_def proc_frame UpdateEventEndTime_def
        gate_reserve_def new_active_def burst_event_def burst_cfg_def sample_defs counted_def EventKindDoorbell_def EventKindCry_def
        split: option.split)
qed

lemma task_last:
  "background p = ts @ [t] \<Longrightarrow> proc_step cfg steady p (run_task ctx client names enc t (p\<lparr>background := ts\<rparr>))"
  using proc_step.task[of p ts t "[]"] by simp

lemma burst_reachable: "proc_reachable burst_cfg True burst_lost"
proof -
  have e: "env_publisher (sample_env True)" by (simp add: sample_env_def)
  have "proc_reachable burst_cfg True burst_begun"
    unfolding burst_begun_def by (rule proc_reachable.step[OF proc_reachable.init], rule proc_step.event) (rule e)
  then have "proc_reachable burst_cfg True burst_full" unfolding burst_full_def
    by (rule proc_reachable.step) (rule task_last, simp add: burst_begun_fields)
  then have "proc_reachable burst_cfg True burst_ended"
    unfolding burst_ended_def by (rule proc_reachable.step) (rule proc_step.event_end, rule e)
  then have "proc_reachable burst_cfg True (run_task (\<lambda>_. (False, False)) True [] True
     (PublishEventEnd (burst_event\<lparr>ev_EndTime := 90\<rparr>) True (Some 0) 2) (burst_ended\<lparr>background := [EmitArtifacts burst_event True]\<rparr>))"
    by (rule proc_reachable.step) (rule task_last, simp add: burst_ended_fields)
  then show ?thesis unfolding burst_lost_def by (rule proc_reachable.step) (rule proc_step.dispatch, simp)
qed

text \<open>The sensor keeps the count of one event although none is active, and no publish is outstanding.\<close>

theorem object_count_lost:
  "proc_reachable burst_cfg True burst_lost \<and> pending_counts burst_lost (''front'', ''person'') = {} \<and>
   counts_of (''front'', ''person'') (ch_buf (mqtt burst_lost)) = [] \<and>
   counts_of (''front'', ''person'') (delivered burst_lost) = [1] \<and> active_in burst_lost ''front'' ''person'' = {}"
proof -
  have names: "counts_of k (replicate n (JobObjectSighting ''x'' ev)) = []" for k n ev
    using counts_of_simps(6)[of k ev "replicate n ''x''"] by (simp add: map_replicate_const)
  have full: "mqtt burst_full = \<lparr>ch_cap = 256, ch_buf = JobObjectCount ''front'' ''person'' 1 # replicate 255 (JobObjectSighting ''x'' burst_event)\<rparr>"
    using burst_full_queue by (cases "mqtt burst_full") simp
  have "mqtt burst_lost = \<lparr>ch_cap = 256, ch_buf = replicate 255 (JobObjectSighting ''x'' burst_event)\<rparr>"
    "delivered burst_lost = [JobObjectCount ''front'' ''person'' 1]" "background burst_lost = [EmitArtifacts burst_event True]"
    "active burst_lost = Map.empty"
    by (simp_all add: burst_lost_def Let_def publish_count_def gate_publish_def burst_ended_fields full deliver_next_def queue_unfold
        burst_event_def sample_event_def split: prod.split)
  then show ?thesis using burst_reachable by (simp add: names pending_counts_def active_in_def)
qed

end
