(* ===== verification/Auth_Scopes.thy ===== *)
theory Auth_Scopes
  imports Go_Prelude
begin

text \<open>
  Authorisation: the scope rules of \<^verbatim>\<open>internal/auth/auth.go\<close> (\<^verbatim>\<open>HasAnyScope\<close>, \<^verbatim>\<open>Allows\<close>,
  \<^verbatim>\<open>isAdminPath\<close>, the table of writes that need no admin scope, scope normalisation).  A nil
  \<^verbatim>\<open>*Principal\<close> is \<open>None\<close>.
\<close>

section \<open>Principals and scopes\<close>

definition AuthKindSession :: string where "AuthKindSession = ''session''"
definition AuthKindToken :: string where "AuthKindToken = ''token''"
definition AuthKindProxy :: string where "AuthKindProxy = ''proxy''"

record Principal =
  pr_Username :: string
  pr_Kind :: string
  pr_Scopes :: "string list"
  pr_ExpiresAt :: gotime
  pr_SessionID :: string
  pr_CSRFToken :: string
  pr_TokenID :: int

definition isSafeMethod :: "string \<Rightarrow> bool" where
  "isSafeMethod method \<longleftrightarrow> method \<in> set [''GET'', ''HEAD'', ''OPTIONS'']"

definition scopeMatches :: "string \<Rightarrow> string \<Rightarrow> bool" where
  "scopeMatches have_scope want =
     (if have_scope = ''*'' \<or> have_scope = want then True
      else if hasSuffix have_scope ''*'' then hasPrefix want (trimSuffix have_scope ''*'')
      else False)"

definition full_access :: "Principal \<Rightarrow> bool" where
  "full_access p \<longleftrightarrow> pr_Kind p = AuthKindSession \<or> pr_Kind p = AuthKindProxy"

fun HasAnyScope :: "Principal option \<Rightarrow> string list \<Rightarrow> bool" where
  "HasAnyScope None scopes = False"
| "HasAnyScope (Some p) scopes =
     (if full_access p then True
      else list_ex (\<lambda>want. list_ex (\<lambda>have_scope. scopeMatches have_scope want) (pr_Scopes p)) scopes)"

section \<open>Routes\<close>

text \<open>The body of the segment loop, and the segments of a path without its outer slashes.\<close>

definition segment_ok :: "string \<Rightarrow> string \<Rightarrow> bool" where
  "segment_ok x y \<longleftrightarrow> y \<noteq> [] \<and> (x = ''*'' \<or> x = y)"

definition segments :: "string \<Rightarrow> string list" where
  "segments path = splitOn (CHR ''/'') (trimSet (\<lambda>c. c = CHR ''/'') path)"

definition segmentsMatch :: "string \<Rightarrow> string \<Rightarrow> bool" where
  "segmentsMatch pattern path =
     (let pat = segments pattern; got = segments path
      in if length pat \<noteq> length got then False
         else list_all (\<lambda>(x, y). segment_ok x y) (zip pat got))"

definition nonAdminWrites :: "(string \<times> string) list" where
  "nonAdminWrites =
     [(''POST'', ''/api/auth/logout''),
      (''POST'', ''/api/cameras/*/webrtc/offer''),
      (''POST'', ''/api/cameras/*/talkback/offer''),
      (''POST'', ''/api/cameras/*/ptz''),
      (''POST'', ''/api/cameras/*/doorbell''),
      (''POST'', ''/api/cameras/*/doorbell/*/answer''),
      (''POST'', ''/api/activities/*/evidence/*/exclude''),
      (''POST'', ''/api/activities/*/evidence/*/restore''),
      (''POST'', ''/api/events/*/assign-person''),
      (''POST'', ''/api/events/*/identify''),
      (''POST'', ''/api/events/*/track-person''),
      (''POST'', ''/api/events/*/clip''),
      (''PUT'', ''/api/faces/*/assign''),
      (''POST'', ''/api/faces/*/ignore''),
      (''POST'', ''/api/objects''),
      (''PUT'', ''/api/objects/*''),
      (''POST'', ''/api/objects/*/references''),
      (''POST'', ''/api/objects/*/thumbnail''),
      (''POST'', ''/api/cameras/*/objects''),
      (''PUT'', ''/api/people/*''),
      (''POST'', ''/api/push/subscriptions''),
      (''DELETE'', ''/api/push/subscriptions/*''),
      (''PUT'', ''/api/push/prefs''),
      (''POST'', ''/api/push/test''),
      (''POST'', ''/api/settings/mqtt/test''),
      (''POST'', ''/api/cameras/test-rtsp''),
      (''POST'', ''/api/updates/dismiss'')]"

definition isNonAdminWrite :: "string \<Rightarrow> string \<Rightarrow> bool" where
  "isNonAdminWrite method path =
     list_ex (\<lambda>(m, pattern). m = method \<and> segmentsMatch pattern path) nonAdminWrites"

definition isAdminPath :: "string \<Rightarrow> string \<Rightarrow> bool" where
  "isAdminPath method path = (if isSafeMethod method then False else \<not> isNonAdminWrite method path)"

fun Allows :: "Principal option \<Rightarrow> string \<Rightarrow> string \<Rightarrow> bool" where
  "Allows None method path = False"
| "Allows (Some p) method path =
     (if full_access p then True
      else if \<not> hasPrefix path ''/api/'' \<and> path \<noteq> ''/metrics'' then False
      else if path = ''/metrics''
      then isSafeMethod method \<and> HasAnyScope (Some p) [''metrics:read'', ''api:read'', ''api:*'', ''*'']
      else if path = ''/api/tokens'' \<or> hasPrefix path ''/api/tokens/'' then
        (if isSafeMethod method
         then HasAnyScope (Some p) [''tokens:read'', ''tokens:write'', ''api:*'', ''*'']
         else HasAnyScope (Some p) [''tokens:write'', ''api:*'', ''*''])
      else if isAdminPath method path then HasAnyScope (Some p) [''admin'', ''*'']
      else if isSafeMethod method then HasAnyScope (Some p) [''api:read'', ''api:*'', ''*'']
      else HasAnyScope (Some p) [''api:write'', ''api:*'', ''*''])"

section \<open>Scope requests\<close>

fun normalize_loop :: "string list \<Rightarrow> string list \<Rightarrow> string list option" where
  "normalize_loop [] acc = Some acc"
| "normalize_loop (scope # scopes) acc =
     (let s = trimSpace scope
      in if s = [] then None
         else if s \<in> set acc then normalize_loop scopes acc
         else normalize_loop scopes (acc @ [s]))"

definition normalizeTokenScopes :: "string list \<Rightarrow> string list option" where
  "normalizeTokenScopes scopes =
     (if scopes = [] then Some [''api:read'']
      else case normalize_loop scopes [] of
             None \<Rightarrow> None
           | Some ns \<Rightarrow> if ns = [] then None else Some ns)"

section \<open>Facts\<close>

lemma zip_all_iff:
  "(if length xs \<noteq> length ys then False else list_all (\<lambda>(x, y). P x y) (zip xs ys)) = list_all2 P xs ys"
  by (auto simp: list_all2_iff list_all_iff)

lemma segmentsMatch_iff:
  "segmentsMatch pattern path \<longleftrightarrow>
     list_all2 segment_ok (segments pattern) (segments path)"
  unfolding segmentsMatch_def Let_def zip_all_iff ..

lemma normalize_loop_props:
  "normalize_loop scopes acc = Some ns \<Longrightarrow> distinct acc \<Longrightarrow>
     distinct ns \<and> set ns = set acc \<union> trimSpace ` set scopes \<and> (\<forall>s\<in>set scopes. trimSpace s \<noteq> [])"
proof (induction scopes acc rule: normalize_loop.induct)
  case (2 scope scopes acc)
  have ne: "trimSpace scope \<noteq> []" using "2.prems"(1) by (auto simp: Let_def)
  show ?case
  proof (cases "trimSpace scope \<in> set acc")
    case True
    then show ?thesis using ne "2.prems" "2.IH"(1)[OF refl ne True] by (simp add: Let_def insert_absorb)
  next
    case False
    then show ?thesis using ne "2.prems" "2.IH"(2)[OF refl ne False] by (simp add: Let_def)
  qed
qed simp

text \<open>
  \<^verbatim>\<open>scopeMatches\<close> is transitive as long as the covering scope does not end in two stars.
\<close>

lemma scopeMatches_trans:
  assumes "scopeMatches a b" and "scopeMatches b c" and "\<not> hasSuffix a ''**''"
  shows "scopeMatches a c"
proof (cases "a = ''*'' \<or> a = b")
  case True
  then show ?thesis using assms(2) by (cases "a = b") (simp_all add: scopeMatches_def)
next
  case False
  then obtain p r where a: "a = p @ ''*''" and b: "b = p @ r"
    using assms(1) by (auto simp: scopeMatches_def hasSuffix_iff trimSuffix_def hasPrefix_iff split: if_splits)
  have p: "\<not> hasSuffix p ''*''" using assms(3) a by (auto simp: hasSuffix_iff)
  have pre: "hasPrefix c p"
  proof (cases "b = ''*'' \<or> b = c")
    case True
    then have "b = ''*'' \<Longrightarrow> p = []" using b p False a by (cases p) (auto simp: hasSuffix_iff)
    then show ?thesis using True b by auto
  next
    case F: False
    then obtain q s where b': "b = q @ ''*''" and c: "c = q @ s"
      using assms(2) by (auto simp: scopeMatches_def hasSuffix_iff trimSuffix_def hasPrefix_iff split: if_splits)
    have "r \<noteq> []" using p b b' by (auto simp: hasSuffix_iff)
    then obtain r' where "r = r' @ ''*''" using b b' by (metis append_butlast_last_id last_appendR last_snoc)
    then have "q = p @ r'" using b b' by simp
    then show ?thesis using c by simp
  qed
  then show ?thesis using a by (auto simp: scopeMatches_def hasSuffix_iff trimSuffix_def)
qed

lemma HasAnyScope_iff:
  "\<not> full_access p \<Longrightarrow> HasAnyScope (Some p) ws \<longleftrightarrow> (\<exists>w\<in>set ws. \<exists>h\<in>set (pr_Scopes p). scopeMatches h w)"
  by (auto simp: list_ex_iff)

lemma Allows_mono:
  assumes "\<not> full_access p" and "\<And>ws. HasAnyScope (Some p) ws \<Longrightarrow> HasAnyScope (Some q) ws"
    and "Allows (Some p) method path"
  shows "Allows (Some q) method path"
  using assms by (auto simp del: HasAnyScope.simps split: if_splits)

lemma segments_literal:
  "segments ''/api/auth/logout'' = [''api'', ''auth'', ''logout'']"
  "segments ''/api/cameras/*/webrtc/offer'' = [''api'', ''cameras'', ''*'', ''webrtc'', ''offer'']"
  "segments ''/api/cameras/*/talkback/offer'' = [''api'', ''cameras'', ''*'', ''talkback'', ''offer'']"
  "segments ''/api/cameras/*/ptz'' = [''api'', ''cameras'', ''*'', ''ptz'']"
  "segments ''/api/cameras/*/doorbell'' = [''api'', ''cameras'', ''*'', ''doorbell'']"
  "segments ''/api/cameras/*/doorbell/*/answer'' = [''api'', ''cameras'', ''*'', ''doorbell'', ''*'', ''answer'']"
  "segments ''/api/activities/*/evidence/*/exclude'' = [''api'', ''activities'', ''*'', ''evidence'', ''*'', ''exclude'']"
  "segments ''/api/activities/*/evidence/*/restore'' = [''api'', ''activities'', ''*'', ''evidence'', ''*'', ''restore'']"
  "segments ''/api/events/*/assign-person'' = [''api'', ''events'', ''*'', ''assign-person'']"
  "segments ''/api/events/*/identify'' = [''api'', ''events'', ''*'', ''identify'']"
  "segments ''/api/events/*/track-person'' = [''api'', ''events'', ''*'', ''track-person'']"
  "segments ''/api/events/*/clip'' = [''api'', ''events'', ''*'', ''clip'']"
  "segments ''/api/faces/*/assign'' = [''api'', ''faces'', ''*'', ''assign'']"
  "segments ''/api/faces/*/ignore'' = [''api'', ''faces'', ''*'', ''ignore'']"
  "segments ''/api/objects'' = [''api'', ''objects'']"
  "segments ''/api/objects/*'' = [''api'', ''objects'', ''*'']"
  "segments ''/api/objects/*/references'' = [''api'', ''objects'', ''*'', ''references'']"
  "segments ''/api/objects/*/thumbnail'' = [''api'', ''objects'', ''*'', ''thumbnail'']"
  "segments ''/api/cameras/*/objects'' = [''api'', ''cameras'', ''*'', ''objects'']"
  "segments ''/api/people/*'' = [''api'', ''people'', ''*'']"
  "segments ''/api/push/subscriptions'' = [''api'', ''push'', ''subscriptions'']"
  "segments ''/api/push/subscriptions/*'' = [''api'', ''push'', ''subscriptions'', ''*'']"
  "segments ''/api/push/prefs'' = [''api'', ''push'', ''prefs'']"
  "segments ''/api/push/test'' = [''api'', ''push'', ''test'']"
  "segments ''/api/settings/mqtt/test'' = [''api'', ''settings'', ''mqtt'', ''test'']"
  "segments ''/api/cameras/test-rtsp'' = [''api'', ''cameras'', ''test-rtsp'']"
  "segments ''/api/updates/dismiss'' = [''api'', ''updates'', ''dismiss'']"
  by code_simp+

lemma segment_ok_star: "segment_ok ''*'' = (\<lambda>y. y \<noteq> [])"
  by (simp add: segment_ok_def fun_eq_iff)

lemma segment_ok_name: "x \<noteq> ''*'' \<Longrightarrow> x \<noteq> [] \<Longrightarrow> segment_ok x = (\<lambda>y. y = x)"
  by (auto simp: segment_ok_def fun_eq_iff)

lemma isNonAdminWrite_cases:
  "isNonAdminWrite method path \<longleftrightarrow>
     (\<exists>(m, pattern)\<in>set nonAdminWrites. m = method \<and> list_all2 segment_ok (segments pattern) (segments path))"
  unfolding isNonAdminWrite_def list_ex_iff segmentsMatch_iff ..

lemmas shape_simps = nonAdminWrites_def segments_literal segment_ok_star segment_ok_name list_all2_Cons1

text \<open>The writes of the table by method, as lists of segments with free names in the places of the stars.\<close>

lemma isNonAdminWrite_shapes:
  "isNonAdminWrite method path \<longleftrightarrow> (\<exists>x y. x \<noteq> [] \<and> y \<noteq> [] \<and>
     (method = ''DELETE'' \<and> segments path = [''api'', ''push'', ''subscriptions'', x] \<or>
      method = ''PUT'' \<and> segments path \<in> set
        [[''api'', ''faces'', x, ''assign''], [''api'', ''objects'', x], [''api'', ''people'', x],
         [''api'', ''push'', ''prefs'']] \<or>
      method = ''POST'' \<and> segments path \<in> set
        [[''api'', ''auth'', ''logout''], [''api'', ''updates'', ''dismiss''],
         [''api'', ''settings'', ''mqtt'', ''test''], [''api'', ''push'', ''subscriptions''], [''api'', ''push'', ''test''],
         [''api'', ''cameras'', ''test-rtsp''], [''api'', ''cameras'', x, ''webrtc'', ''offer''],
         [''api'', ''cameras'', x, ''talkback'', ''offer''], [''api'', ''cameras'', x, ''ptz''],
         [''api'', ''cameras'', x, ''doorbell''], [''api'', ''cameras'', x, ''doorbell'', y, ''answer''],
         [''api'', ''cameras'', x, ''objects''],
         [''api'', ''activities'', x, ''evidence'', y, ''exclude''], [''api'', ''activities'', x, ''evidence'', y, ''restore''],
         [''api'', ''events'', x, ''assign-person''], [''api'', ''events'', x, ''identify''],
         [''api'', ''events'', x, ''track-person''], [''api'', ''events'', x, ''clip''], [''api'', ''faces'', x, ''ignore''],
         [''api'', ''objects''], [''api'', ''objects'', x, ''references''], [''api'', ''objects'', x, ''thumbnail'']]))"
  (is "?l \<longleftrightarrow> (\<exists>x y. ?r x y)")
proof
  assume ?l
  then obtain pattern where t: "(method, pattern) \<in> set nonAdminWrites"
    and a: "list_all2 segment_ok (segments pattern) (segments path)"
    unfolding isNonAdminWrite_cases by blast
  have z: "\<exists>x::string. x \<noteq> []" by (rule exI[of _ "''z''"]) simp
  from t a show "\<exists>x y. ?r x y"
    unfolding nonAdminWrites_def list.set insert_iff empty_iff prod.inject
    by (elim disjE conjE FalseE; hypsubst) (auto simp: shape_simps z)
next
  assume "\<exists>x y. ?r x y"
  then show ?l
    unfolding isNonAdminWrite_cases list.set insert_iff empty_iff
    by (elim exE conjE disjE FalseE) (simp_all add: shape_simps)
qed


definition writer :: Principal where
  "writer = \<lparr>pr_Username = ''u'', pr_Kind = AuthKindToken, pr_Scopes = [''api:write''], pr_ExpiresAt = 0,
     pr_SessionID = [], pr_CSRFToken = [], pr_TokenID = 1\<rparr>"


end
