(* ===== verification/Auth_Checker.thy ===== *)
theory Auth_Checker
  imports Auth_Scopes
begin

text \<open>
  Authentication: the \<^verbatim>\<open>Checker\<close> of \<^verbatim>\<open>internal/auth/auth.go\<close> (brute-force limits, login, sessions,
  bearer tokens, CSRF, token creation) over the rows of \<^verbatim>\<open>internal/storage/db_auth.go\<close>.

  bcrypt is third-party code: comparing a hash with a password is the argument \<open>cmp\<close>.  The SHA-256
  digest and the random tokens are arguments too; no property of them is used.  The successive
  readings of the clock inside an operation are the values of a function \<open>clk\<close>.
\<close>

section \<open>State\<close>

definition maxFailures :: int where "maxFailures = 10"
definition maxIPFailures :: int where "maxIPFailures = 50"
definition maxTokenCreations :: int where "maxTokenCreations = 20"
definition failureWindow :: duration where "failureWindow = 5 * Minute"
definition SessionAbsoluteTTL :: duration where "SessionAbsoluteTTL = 12 * Hour"
definition SessionIdleTTL :: duration where "SessionIdleTTL = 30 * Minute"
definition RememberAbsoluteTTL :: duration where "RememberAbsoluteTTL = 30 * 24 * Hour"
definition RememberIdleTTL :: duration where "RememberIdleTTL = 7 * 24 * Hour"

datatype auth_error =
  ErrInvalidCredentials | ErrInsufficientScope | ErrRateLimited | ErrStorageUnavailable | ErrOther string

record failureRecord =
  fail_count :: int
  firstAt :: gotime

type_synonym failure_map = "string \<rightharpoonup> failureRecord"
type_synonym clock = "nat \<Rightarrow> gotime"

record AuthSession =
  ses_ID :: string
  ses_Username :: string
  ses_CSRFToken :: string
  ses_RemoteIP :: string
  ses_UserAgent :: string
  ses_CreatedAt :: gotime
  ses_LastSeenAt :: gotime
  ses_ExpiresAt :: gotime
  ses_IdleTTL :: duration

record APIToken =
  tok_ID :: int
  tok_Username :: string
  tok_Name :: string
  tok_Hash :: string
  tok_Scopes :: "string list"
  tok_CreatedAt :: gotime
  tok_LastUsedAt :: gotime
  tok_RevokedAt :: gotime

record Checker =
  users :: "string \<rightharpoonup> string"
  hasDB :: bool
  proxyHeader :: string
  loginFailures :: failure_map
  ipFailures :: failure_map
  tokenCreates :: failure_map
  sessions :: "string \<rightharpoonup> AuthSession"
  tokens :: "APIToken list"
  nextTokenID :: int

section \<open>Failure counters\<close>

definition expired_record :: "gotime \<Rightarrow> failureRecord \<Rightarrow> bool" where
  "expired_record now rec \<longleftrightarrow> tsub now (firstAt rec) > failureWindow"

definition countLocked :: "gotime \<Rightarrow> string \<Rightarrow> failure_map \<Rightarrow> int \<times> failure_map" where
  "countLocked now key m =
     (case m key of
        None \<Rightarrow> (0, m)
      | Some rec \<Rightarrow> if expired_record now rec then (0, m(key := None)) else (fail_count rec, m))"

definition bumpLocked :: "gotime \<Rightarrow> gotime \<Rightarrow> string \<Rightarrow> failure_map \<Rightarrow> failure_map" where
  "bumpLocked now now' key m =
     (case m key of
        None \<Rightarrow> m(key \<mapsto> \<lparr>fail_count = 1, firstAt = now'\<rparr>)
      | Some rec \<Rightarrow>
          if expired_record now rec then m(key \<mapsto> \<lparr>fail_count = 1, firstAt = now'\<rparr>)
          else m(key \<mapsto> rec\<lparr>fail_count := fail_count rec + 1\<rparr>))"

definition releaseLocked :: "string \<Rightarrow> gotime \<Rightarrow> failure_map \<Rightarrow> failure_map" where
  "releaseLocked key reservedAt m =
     (case m key of
        None \<Rightarrow> m
      | Some rec \<Rightarrow>
          if firstAt rec \<noteq> reservedAt then m
          else if fail_count rec - 1 \<le> 0 then m(key := None)
          else m(key \<mapsto> rec\<lparr>fail_count := fail_count rec - 1\<rparr>))"

definition expireFailureMap :: "gotime \<Rightarrow> failure_map \<Rightarrow> failure_map" where
  "expireFailureMap now m = (\<lambda>key. case m key of
     None \<Rightarrow> None | Some rec \<Rightarrow> if expired_record now rec then None else Some rec)"

definition loginFailureKey :: "string \<Rightarrow> string \<Rightarrow> string" where
  "loginFailureKey remoteIP username = remoteIP @ [CHR 0x00] @ username"

text \<open>\<open>Some firstAt\<close> when the attempt is allowed.\<close>

definition reserveLoginAttempt :: "clock \<Rightarrow> string \<Rightarrow> string \<Rightarrow> Checker \<Rightarrow> gotime option \<times> Checker" where
  "reserveLoginAttempt clk remoteIP username c =
     (case countLocked (clk 0) (loginFailureKey remoteIP username) (loginFailures c) of (n, lf) \<Rightarrow>
        if n \<ge> maxFailures then (None, c\<lparr>loginFailures := lf\<rparr>)
        else case countLocked (clk 1) remoteIP (ipFailures c) of (k, ipf) \<Rightarrow>
          if k \<ge> maxIPFailures then (None, c\<lparr>loginFailures := lf, ipFailures := ipf\<rparr>)
          else let ipf' = bumpLocked (clk 2) (clk 3) remoteIP ipf
               in (map_option firstAt (ipf' remoteIP), c\<lparr>loginFailures := lf, ipFailures := ipf'\<rparr>))"

definition recordLoginFailure :: "clock \<Rightarrow> string \<Rightarrow> string \<Rightarrow> Checker \<Rightarrow> Checker" where
  "recordLoginFailure clk remoteIP username c =
     c\<lparr>loginFailures := bumpLocked (clk 0) (clk 1) (loginFailureKey remoteIP username) (loginFailures c)\<rparr>"

definition completeLoginSuccess :: "string \<Rightarrow> string \<Rightarrow> gotime \<Rightarrow> Checker \<Rightarrow> Checker" where
  "completeLoginSuccess remoteIP username reservedAt c =
     c\<lparr>loginFailures := (loginFailures c)(loginFailureKey remoteIP username := None),
       ipFailures := releaseLocked remoteIP reservedAt (ipFailures c)\<rparr>"

definition verify :: "(string \<Rightarrow> string \<Rightarrow> bool) \<Rightarrow> string \<Rightarrow> string \<Rightarrow> Checker \<Rightarrow> bool" where
  "verify cmp user pass c = (case users c user of None \<Rightarrow> False | Some hash \<Rightarrow> cmp hash pass)"

text \<open>The common part of \<^verbatim>\<open>Check\<close> and \<^verbatim>\<open>Login\<close>: reserve, verify, account for the outcome.\<close>

definition attempt ::
  "(string \<Rightarrow> string \<Rightarrow> bool) \<Rightarrow> clock \<Rightarrow> string \<Rightarrow> string \<Rightarrow> string \<Rightarrow> Checker \<Rightarrow> (auth_error + unit) \<times> Checker" where
  "attempt cmp clk user pass remoteIP c =
     (case reserveLoginAttempt clk remoteIP user c of
        (None, c1) \<Rightarrow> (Inl ErrRateLimited, c1)
      | (Some reservedAt, c1) \<Rightarrow>
          if \<not> verify cmp user pass c1
          then (Inl ErrInvalidCredentials, recordLoginFailure (\<lambda>n. clk (n + 4)) remoteIP user c1)
          else (Inr (), completeLoginSuccess remoteIP user reservedAt c1))"

definition Check ::
  "(string \<Rightarrow> string \<Rightarrow> bool) \<Rightarrow> clock \<Rightarrow> string \<Rightarrow> string \<Rightarrow> string \<Rightarrow> Checker \<Rightarrow> bool \<times> Checker" where
  "Check cmp clk user pass remoteIP c =
     (case attempt cmp clk user pass remoteIP c of (r, c1) \<Rightarrow> (r = Inr (), c1))"

section \<open>Sessions\<close>

definition idle_secs :: "duration \<Rightarrow> int" where
  "idle_secs ttl = (let s = ttl div Second in if s \<le> 0 then 1800 else s)"

text \<open>\<^verbatim>\<open>CreateSession\<close> stores the idle time in whole seconds; the id is the primary key.\<close>

definition CreateSession :: "AuthSession \<Rightarrow> Checker \<Rightarrow> Checker option" where
  "CreateSession ses c =
     (if sessions c (ses_ID ses) \<noteq> None then None
      else Some (c\<lparr>sessions := (sessions c)(ses_ID ses \<mapsto>
                    ses\<lparr>ses_IdleTTL := idle_secs (ses_IdleTTL ses) * Second\<rparr>)\<rparr>))"

definition Login ::
  "(string \<Rightarrow> string \<Rightarrow> bool) \<Rightarrow> clock \<Rightarrow> string \<Rightarrow> string \<Rightarrow> string \<Rightarrow> string \<Rightarrow> string \<Rightarrow> string \<Rightarrow> bool
     \<Rightarrow> Checker \<Rightarrow> (auth_error + AuthSession) \<times> Checker" where
  "Login cmp clk sessionID csrfToken user pass remoteIP userAgent remember c =
     (if \<not> hasDB c then (Inl ErrStorageUnavailable, c)
      else case attempt cmp clk user pass remoteIP c of
        (Inl err, c1) \<Rightarrow> (Inl err, c1)
      | (Inr _, c1) \<Rightarrow>
          let absoluteTTL = (if remember then RememberAbsoluteTTL else SessionAbsoluteTTL);
              idleTTL = (if remember then RememberIdleTTL else SessionIdleTTL);
              now = clk 6;
              ses = \<lparr>ses_ID = sessionID, ses_Username = user, ses_CSRFToken = csrfToken, ses_RemoteIP = remoteIP,
                     ses_UserAgent = userAgent, ses_CreatedAt = now, ses_LastSeenAt = now,
                     ses_ExpiresAt = tadd now absoluteTTL, ses_IdleTTL = idleTTL\<rparr>
          in case CreateSession ses c1 of
               None \<Rightarrow> (Inl (ErrOther ''create session''), c1)
             | Some c2 \<Rightarrow> (Inr ses, c2))"

definition Logout :: "string \<Rightarrow> Checker \<Rightarrow> Checker" where
  "Logout sessionID c =
     (if \<not> hasDB c \<or> sessionID = [] then c else c\<lparr>sessions := (sessions c)(sessionID := None)\<rparr>)"

text \<open>
  \<^verbatim>\<open>authenticateSession\<close>: \<open>cookie\<close> is the value of the session cookie (empty when absent).  The
  database answers every query; its failures only ever refuse the request.
\<close>

definition authenticateSession ::
  "gotime \<Rightarrow> string \<Rightarrow> Checker \<Rightarrow> (auth_error + Principal option) \<times> Checker" where
  "authenticateSession now cookie c =
     (if \<not> hasDB c then (Inl ErrStorageUnavailable, c)
      else if cookie = [] then (Inr None, c)
      else case sessions c cookie of
        None \<Rightarrow> (Inr None, c)
      | Some ses \<Rightarrow>
          let idleTTL = (if ses_IdleTTL ses \<le> 0 then SessionIdleTTL else ses_IdleTTL ses)
          in if tafter now (ses_ExpiresAt ses) \<or> tsub now (ses_LastSeenAt ses) > idleTTL
             then (Inr None, c\<lparr>sessions := (sessions c)(cookie := None)\<rparr>)
             else (Inr (Some \<lparr>pr_Username = ses_Username ses, pr_Kind = AuthKindSession, pr_Scopes = [''*''],
                              pr_ExpiresAt = ses_ExpiresAt ses, pr_SessionID = ses_ID ses,
                              pr_CSRFToken = ses_CSRFToken ses, pr_TokenID = 0\<rparr>),
                   c\<lparr>sessions := (sessions c)(cookie \<mapsto> ses\<lparr>ses_LastSeenAt := now\<rparr>)\<rparr>))"

section \<open>Bearer tokens, proxies and CSRF\<close>

fun find_token :: "string \<Rightarrow> APIToken list \<Rightarrow> APIToken option" where
  "find_token hash [] = None"
| "find_token hash (t # ts) = (if tok_Hash t = hash then Some t else find_token hash ts)"

definition token_principal :: "APIToken \<Rightarrow> Principal" where
  "token_principal t =
     \<lparr>pr_Username = tok_Username t, pr_Kind = AuthKindToken, pr_Scopes = tok_Scopes t,
      pr_ExpiresAt = zeroTime, pr_SessionID = [], pr_CSRFToken = [], pr_TokenID = tok_ID t\<rparr>"

lemma token_principal_Scopes [simp]: "pr_Scopes (token_principal t) = tok_Scopes t"
  by (simp add: token_principal_def)

definition authenticateBearerToken ::
  "(string \<Rightarrow> string) \<Rightarrow> gotime \<Rightarrow> string \<Rightarrow> Checker \<Rightarrow> (auth_error + Principal option) \<times> Checker" where
  "authenticateBearerToken sha256 now authz c =
     (if \<not> hasDB c then (Inl ErrStorageUnavailable, c)
      else if authz = [] \<or> \<not> hasPrefix authz ''Bearer '' then (Inr None, c)
      else let raw = trimSpace (trimPrefix authz ''Bearer '')
        in if raw = [] then (Inr None, c)
           else case find_token (sha256 raw) (tokens c) of
             None \<Rightarrow> (Inr None, c)
           | Some t \<Rightarrow>
               if \<not> isZero (tok_RevokedAt t) then (Inr None, c)
               else (Inr (Some (token_principal t)),
                     c\<lparr>tokens := map (\<lambda>u. if tok_ID u = tok_ID t then u\<lparr>tok_LastUsedAt := now\<rparr> else u) (tokens c)\<rparr>))"

definition authenticateProxyHeader :: "bool \<Rightarrow> string \<Rightarrow> Checker \<Rightarrow> Principal option" where
  "authenticateProxyHeader trusted header c =
     (if proxyHeader c = [] then None
      else if \<not> trusted then None
      else let username = trimSpace header
        in if username = [] then None
           else Some \<lparr>pr_Username = username, pr_Kind = AuthKindProxy, pr_Scopes = [''*''], pr_ExpiresAt = zeroTime,
                      pr_SessionID = [], pr_CSRFToken = [], pr_TokenID = 0\<rparr>)"

text \<open>What a request carries: \<open>rq_trusted\<close> says whether the peer is one of the trusted proxies.\<close>

record request =
  rq_method :: string
  rq_trusted :: bool
  rq_proxyHeader :: string
  rq_authorization :: string
  rq_sessionCookie :: string
  rq_csrfCookie :: string
  rq_csrfHeader :: string

definition Authenticate ::
  "(string \<Rightarrow> string) \<Rightarrow> gotime \<Rightarrow> request \<Rightarrow> Checker \<Rightarrow> (auth_error + Principal option) \<times> Checker" where
  "Authenticate sha256 now r c =
     (case authenticateProxyHeader (rq_trusted r) (rq_proxyHeader r) c of
        Some p \<Rightarrow> (Inr (Some p), c)
      | None \<Rightarrow>
          case authenticateBearerToken sha256 now (rq_authorization r) c of
            (Inl err, c1) \<Rightarrow> (Inl err, c1)
          | (Inr (Some p), c1) \<Rightarrow> (Inr (Some p), c1)
          | (Inr None, c1) \<Rightarrow> authenticateSession now (rq_sessionCookie r) c1)"

definition RequireCSRF :: "request \<Rightarrow> Principal option \<Rightarrow> bool" where
  "RequireCSRF r po =
     (case po of
        None \<Rightarrow> True
      | Some p \<Rightarrow>
          if pr_Kind p \<noteq> AuthKindSession \<or> isSafeMethod (rq_method r) then True
          else if rq_csrfCookie r = [] then False
          else if rq_csrfHeader r = [] then False
          else if rq_csrfHeader r \<noteq> rq_csrfCookie r then False
          else rq_csrfHeader r = pr_CSRFToken p)"

section \<open>Token creation\<close>

definition createToken ::
  "(string \<Rightarrow> string) \<Rightarrow> clock \<Rightarrow> string \<Rightarrow> string \<Rightarrow> string \<Rightarrow> string list \<Rightarrow> string \<Rightarrow> Checker
     \<Rightarrow> (auth_error + APIToken) \<times> Checker" where
  "createToken sha256 clk rawToken username name scopes remoteIP c =
     (if \<not> hasDB c then (Inl ErrStorageUnavailable, c)
      else if name = [] then (Inl (ErrOther ''token name is required''), c)
      else
        let rateKey = username @ ''|'' @ remoteIP
        in case countLocked (clk 0) rateKey (tokenCreates c) of (n, m) \<Rightarrow>
             if n \<ge> maxTokenCreations then (Inl ErrRateLimited, c\<lparr>tokenCreates := m\<rparr>)
             else
               let c1 = c\<lparr>tokenCreates := bumpLocked (clk 1) (clk 2) rateKey m\<rparr>;
                   t = \<lparr>tok_ID = nextTokenID c1, tok_Username = username, tok_Name = name, tok_Hash = sha256 rawToken,
                        tok_Scopes = scopes, tok_CreatedAt = clk 3, tok_LastUsedAt = zeroTime, tok_RevokedAt = zeroTime\<rparr>
               in (Inr t, c1\<lparr>tokens := tokens c1 @ [t], nextTokenID := nextTokenID c1 + 1\<rparr>))"

definition CreateTokenForPrincipal ::
  "(string \<Rightarrow> string) \<Rightarrow> clock \<Rightarrow> string \<Rightarrow> Principal option \<Rightarrow> string \<Rightarrow> string list \<Rightarrow> string \<Rightarrow> Checker
     \<Rightarrow> (auth_error + APIToken) \<times> Checker" where
  "CreateTokenForPrincipal sha256 clk rawToken po name scopes remoteIP c =
     (case po of
        None \<Rightarrow> (Inl ErrInvalidCredentials, c)
      | Some p \<Rightarrow>
          case normalizeTokenScopes scopes of
            None \<Rightarrow> (Inl (ErrOther ''token scope cannot be empty''), c)
          | Some normalized \<Rightarrow>
              if pr_Kind p = AuthKindToken \<and> \<not> list_all (\<lambda>scope. HasAnyScope (Some p) [scope]) normalized
              then (Inl ErrInsufficientScope, c)
              else createToken sha256 clk rawToken (pr_Username p) name normalized remoteIP c)"

definition RevokeToken :: "gotime \<Rightarrow> int \<Rightarrow> string \<Rightarrow> Checker \<Rightarrow> Checker" where
  "RevokeToken now i username c =
     c\<lparr>tokens := map (\<lambda>t. if tok_ID t = i \<and> tok_Username t = username then t\<lparr>tok_RevokedAt := now\<rparr> else t) (tokens c)\<rparr>"


section \<open>Tokens never exceed their creator\<close>

lemmas kind_defs = full_access_def AuthKindSession_def AuthKindProxy_def AuthKindToken_def

lemma createToken_scopes:
  "createToken sha256 clk raw username name scopes ip c = (Inr t, c') \<Longrightarrow> tok_Scopes t = scopes"
  by (auto simp: createToken_def Let_def split: if_splits prod.splits)


definition empty_checker :: Checker where
  "empty_checker = \<lparr>users = Map.empty, hasDB = True, proxyHeader = [], loginFailures = Map.empty,
     ipFailures = Map.empty, tokenCreates = Map.empty, sessions = Map.empty, tokens = [], nextTokenID = 1\<rparr>"

definition scoped :: "string list \<Rightarrow> Principal" where
  "scoped scopes = \<lparr>pr_Username = ''u'', pr_Kind = AuthKindToken, pr_Scopes = scopes, pr_ExpiresAt = 0,
     pr_SessionID = [], pr_CSRFToken = [], pr_TokenID = 1\<rparr>"

definition issued :: "string list \<Rightarrow> APIToken" where
  "issued scopes = \<lparr>tok_ID = 1, tok_Username = ''u'', tok_Name = ''n'', tok_Hash = ''r'', tok_Scopes = scopes,
     tok_CreatedAt = 0, tok_LastUsedAt = 0, tok_RevokedAt = 0\<rparr>"

lemma create_sample:
  assumes "normalizeTokenScopes scopes = Some scopes"
    and "list_all (\<lambda>s. HasAnyScope (Some (scoped have_scopes)) [s]) scopes"
  shows "fst (CreateTokenForPrincipal id (\<lambda>_. 0) ''r'' (Some (scoped have_scopes)) ''n'' scopes ''ip'' empty_checker) =
     Inr (issued scopes)"
  using assms
  by (simp add: CreateTokenForPrincipal_def createToken_def Let_def empty_checker_def countLocked_def
      maxTokenCreations_def scoped_def issued_def zeroTime_def)


text \<open>
  The restriction on double stars is needed: a creator holding \<^verbatim>\<open>admi**\<close> may create a token with
  scope \<^verbatim>\<open>admi*\<close>, which is an administrator although the creator is not.
\<close>

theorem scope_wildcard_escalation:
  "fst (CreateTokenForPrincipal id (\<lambda>_. 0) ''r'' (Some (scoped [''tokens:write'', ''admi**''])) ''n'' [''admi*''] ''ip'' empty_checker)
     = Inr (issued [''admi*''])
   \<and> Allows (Some (token_principal (issued [''admi*'']))) ''DELETE'' ''/api/cameras/front''
   \<and> \<not> Allows (Some (scoped [''tokens:write'', ''admi**''])) ''DELETE'' ''/api/cameras/front''"
proof (intro conjI)
  show "fst (CreateTokenForPrincipal id (\<lambda>_. 0) ''r'' (Some (scoped [''tokens:write'', ''admi**''])) ''n'' [''admi*''] ''ip'' empty_checker)
     = Inr (issued [''admi*''])"
    by (rule create_sample) code_simp+
qed code_simp+

section \<open>Brute-force limits\<close>

text \<open>
  Login attempts of many clients interleave: the three locked sections of an attempt are separate
  steps.  \<open>inflight\<close> are the attempts whose password is being verified, \<open>failed\<close> those that failed,
  each with its address and the window its slot was reserved in.
\<close>

record login_system =
  chk :: Checker
  now_at :: gotime
  inflight :: "(string \<times> string \<times> gotime) multiset"
  failed :: "(string \<times> gotime) multiset"

definition clock_ok :: "gotime \<Rightarrow> clock \<Rightarrow> bool" where
  "clock_ok t clk \<longleftrightarrow> t \<le> clk 0 \<and> clk 0 \<le> clk 1 \<and> clk 1 \<le> clk 2 \<and> clk 2 \<le> clk 3"

inductive login_step :: "login_system \<Rightarrow> login_system \<Rightarrow> bool" where
  reserve: "clock_ok (now_at s) clk \<Longrightarrow> reserveLoginAttempt clk ip user (chk s) = (r, c') \<Longrightarrow>
     login_step s (s\<lparr>chk := c', now_at := clk 3,
       inflight := inflight s + (case r of Some w \<Rightarrow> {#(ip, user, w)#} | None \<Rightarrow> {#})\<rparr>)"
| failure: "inflight s = add_mset (ip, user, w) rest \<Longrightarrow> clock_ok (now_at s) clk \<Longrightarrow>
     login_step s (s\<lparr>chk := recordLoginFailure clk ip user (chk s), now_at := clk 3,
       inflight := rest, failed := add_mset (ip, w) (failed s)\<rparr>)"
| success: "inflight s = add_mset (ip, user, w) rest \<Longrightarrow>
     login_step s (s\<lparr>chk := completeLoginSuccess ip user w (chk s), inflight := rest\<rparr>)"
| cleanup: "now_at s \<le> t \<Longrightarrow>
     login_step s (s\<lparr>chk := (chk s)\<lparr>loginFailures := expireFailureMap t (loginFailures (chk s)),
                                     ipFailures := expireFailureMap t (ipFailures (chk s))\<rparr>, now_at := t\<rparr>)"

inductive login_reachable :: "login_system \<Rightarrow> bool" where
  init: "ipFailures (chk s) = Map.empty \<Longrightarrow> inflight s = {#} \<Longrightarrow> failed s = {#} \<Longrightarrow> login_reachable s"
| step: "login_reachable s \<Longrightarrow> login_step s s' \<Longrightarrow> login_reachable s'"

text \<open>Attempts of an address charged to the window that began at \<open>w\<close>: failed or still in flight.\<close>

definition charged :: "login_system \<Rightarrow> string \<Rightarrow> gotime \<Rightarrow> nat" where
  "charged s ip w = size {#a \<in># inflight s. fst a = ip \<and> snd (snd a) = w#} + count (failed s) (ip, w)"

text \<open>
  The invariant of one address: its record, if any, counts the attempts charged to its window; no
  window is charged more than the limit; and a window that is charged but has no record ended
  before now.
\<close>

definition slot_inv :: "failureRecord option \<Rightarrow> gotime \<Rightarrow> (gotime \<Rightarrow> nat) \<Rightarrow> bool" where
  "slot_inv ro now ch \<longleftrightarrow>
     (\<forall>rec. ro = Some rec \<longrightarrow> firstAt rec \<le> now \<and> 1 \<le> fail_count rec \<and> fail_count rec = int (ch (firstAt rec))) \<and>
     (\<forall>w. int (ch w) \<le> maxIPFailures) \<and>
     (\<forall>w. 0 < ch w \<longrightarrow> (\<exists>rec. ro = Some rec \<and> firstAt rec = w) \<or> w + failureWindow < now)"

definition slots_ok :: "login_system \<Rightarrow> bool" where
  "slots_ok s \<longleftrightarrow> (\<forall>ip. slot_inv (ipFailures (chk s) ip) (now_at s) (charged s ip))"

lemma expired_record_iff: "expired_record now rec \<longleftrightarrow> firstAt rec + failureWindow < now"
  unfolding expired_record_def
  by (rule tsub_gt_iff) (simp_all add: failureWindow_def unit_defs duration_limits)

lemma reserve_cases:
  assumes "reserveLoginAttempt clk ip user c = (r, c')" and "clk 1 \<le> clk 2"
  obtains (refused) "r = None"
      "ipFailures c' = ipFailures c \<or>
       (\<exists>rec. ipFailures c ip = Some rec \<and> expired_record (clk 1) rec \<and> ipFailures c' = (ipFailures c)(ip := None))"
  | (fresh) "r = Some (clk 3)" "ipFailures c' = (ipFailures c)(ip \<mapsto> \<lparr>fail_count = 1, firstAt = clk 3\<rparr>)"
      "\<forall>rec. ipFailures c ip = Some rec \<longrightarrow> expired_record (clk 2) rec"
  | (bumped) rec where "r = Some (firstAt rec)" "ipFailures c ip = Some rec" "fail_count rec < maxIPFailures"
      "ipFailures c' = (ipFailures c)(ip \<mapsto> rec\<lparr>fail_count := fail_count rec + 1\<rparr>)"
proof -
  have later: "expired_record (clk 1) rec \<Longrightarrow> expired_record (clk 2) rec" for rec
    using assms(2) by (simp add: expired_record_iff)
  show thesis
  proof (cases "r = None")
    case True
    then show ?thesis using assms(1) refused
      by (auto simp: reserveLoginAttempt_def countLocked_def bumpLocked_def Let_def
          split: prod.splits option.splits if_splits)
  next
    case False
    then obtain w where w: "r = Some w" by auto
    show ?thesis
    proof (cases "\<exists>rec. ipFailures c ip = Some rec \<and> \<not> expired_record (clk 2) rec")
      case True
      then obtain rec where rec: "ipFailures c ip = Some rec" "\<not> expired_record (clk 2) rec" by auto
      then have "\<not> expired_record (clk 1) rec" using later by blast
      then show ?thesis using bumped[of rec] assms(1) rec w
        by (auto simp: reserveLoginAttempt_def countLocked_def bumpLocked_def Let_def
            split: prod.splits if_splits)
    next
      case False
      then show ?thesis using fresh assms(1) w
        by (auto simp: reserveLoginAttempt_def countLocked_def bumpLocked_def Let_def
            split: prod.splits if_splits option.splits)
    qed
  qed
qed

lemma slot_invD:
  assumes "slot_inv ro now ch"
  shows "ro = Some rec \<Longrightarrow> firstAt rec \<le> now" "ro = Some rec \<Longrightarrow> 1 \<le> fail_count rec"
    "ro = Some rec \<Longrightarrow> fail_count rec = int (ch (firstAt rec))" "int (ch w) \<le> maxIPFailures"
    "0 < ch w \<Longrightarrow> (\<exists>rec. ro = Some rec \<and> firstAt rec = w) \<or> w + failureWindow < now"
  using assms unfolding slot_inv_def by blast+

lemma slot_later:
  assumes inv: "slot_inv ro now ch" and "now \<le> now'"
  shows "slot_inv ro now' ch"
  unfolding slot_inv_def
proof (intro conjI allI impI)
  fix rec assume "ro = Some rec"
  note d = slot_invD(1-3)[OF inv this]
  show "firstAt rec \<le> now'" using d(1) assms(2) by linarith
  show "1 \<le> fail_count rec" "fail_count rec = int (ch (firstAt rec))" using d by blast+
next
  fix w show "int (ch w) \<le> maxIPFailures" using inv by (rule slot_invD)
next
  fix w assume "0 < ch w"
  from slot_invD(5)[OF inv this] show "(\<exists>rec. ro = Some rec \<and> firstAt rec = w) \<or> w + failureWindow < now'"
    using assms(2) by auto
qed

lemma slot_inv_NoneI:
  "(\<And>w. int (ch w) \<le> maxIPFailures) \<Longrightarrow> (\<And>w. 0 < ch w \<Longrightarrow> w + failureWindow < now) \<Longrightarrow> slot_inv None now ch"
  by (simp add: slot_inv_def)

lemma slot_expire:
  assumes inv: "slot_inv (Some rec) now ch" and "now \<le> now'" and "expired_record now' rec"
  shows "slot_inv None now' ch"
proof (rule slot_inv_NoneI)
  show "int (ch w) \<le> maxIPFailures" for w using inv by (rule slot_invD)
  show "w + failureWindow < now'" if "0 < ch w" for w
    using slot_invD(5)[OF inv that] assms(2,3) by (auto simp: expired_record_iff)
qed

lemma slot_fresh:
  assumes inv: "slot_inv None now ch" and "now \<le> t"
  shows "slot_inv (Some \<lparr>fail_count = 1, firstAt = t\<rparr>) t (ch(t := ch t + 1))"
proof -
  have old: "w + failureWindow < now" if "0 < ch w" for w using slot_invD(5)[OF inv that] by simp
  have pos: "0 < failureWindow" by (simp add: failureWindow_def unit_defs)
  have zero: "ch t = 0"
  proof (rule ccontr)
    assume "ch t \<noteq> 0"
    then have "t + failureWindow < now" using old[of t] by simp
    then show False using pos assms(2) by linarith
  qed
  have "w + failureWindow < t" if "0 < ch w" for w using old[OF that] assms(2) by linarith
  then show ?thesis using zero slot_invD(4)[OF inv] by (simp add: slot_inv_def maxIPFailures_def)
qed

lemma slot_bump:
  assumes "slot_inv (Some rec) now ch" and "fail_count rec < maxIPFailures"
  shows "slot_inv (Some (rec\<lparr>fail_count := fail_count rec + 1\<rparr>)) now (ch(firstAt rec := ch (firstAt rec) + 1))"
  using assms by (auto simp: slot_inv_def)

lemma slot_release:
  assumes "slot_inv (m ip) now ch" and "0 < ch w"
  shows "slot_inv (releaseLocked ip w m ip) now (ch(w := ch w - 1))"
proof (cases "m ip")
  case None
  then show ?thesis using assms(2) slot_invD(4,5)[OF assms(1)]
    by (auto simp: slot_inv_def releaseLocked_def of_nat_diff intro: order_trans[of _ "int (ch w)"])
next
  case (Some rec)
  note low = slot_invD(4)[OF assms(1), of w]
  show ?thesis
  proof (cases "firstAt rec = w")
    case True
    then show ?thesis using assms Some
      by (auto simp: slot_inv_def releaseLocked_def of_nat_diff intro: order_trans[OF _ low])
  next
    case False
    then show ?thesis using assms Some
      by (auto simp: slot_inv_def releaseLocked_def of_nat_diff intro: order_trans[OF _ low])
  qed
qed

lemma slot_reserve:
  assumes "slot_inv (ipFailures c ip) now ch" and "clock_ok now clk"
    and "reserveLoginAttempt clk ip user c = (r, c')"
  shows "slot_inv (ipFailures c' ip) (clk 3) (case r of Some w \<Rightarrow> ch(w := ch w + 1) | None \<Rightarrow> ch)"
proof -
  have clk: "now \<le> clk 1" "clk 1 \<le> clk 2" "clk 2 \<le> clk 3" using assms(2) by (auto simp: clock_ok_def)
  show ?thesis using assms(3) clk(2)
  proof (cases rule: reserve_cases)
    case refused
    from refused(2) show ?thesis
    proof
      assume "ipFailures c' = ipFailures c"
      then show ?thesis using refused(1) slot_later[OF assms(1)] clk by simp
    next
      assume "\<exists>rec. ipFailures c ip = Some rec \<and> expired_record (clk 1) rec \<and> ipFailures c' = (ipFailures c)(ip := None)"
      then show ?thesis using refused(1) slot_later[OF slot_expire[of _ now ch "clk 1"], of _ "clk 3"] assms(1) clk
        by auto
    qed
  next
    case fresh
    have "slot_inv None (clk 2) ch"
      using assms(1) fresh(3) clk
      by (cases "ipFailures c ip") (auto intro: slot_later[of _ now] slot_expire[of _ now])
    then show ?thesis using fresh slot_fresh[of "clk 2" ch "clk 3"] clk by simp
  next
    case (bumped rec)
    then show ?thesis using assms(1) slot_later[OF slot_bump[of rec now ch]] clk by simp
  qed
qed

lemma reserve_other_ip:
  assumes "reserveLoginAttempt clk ip user c = (r, c')" and "ip' \<noteq> ip"
  shows "ipFailures c' ip' = ipFailures c ip'"
  using assms by (auto simp: reserveLoginAttempt_def countLocked_def bumpLocked_def Let_def
      split: prod.splits option.splits if_splits)

lemma login_step_slots_ok:
  assumes "login_step s s'" and "slots_ok s"
  shows "slots_ok s'"
  using assms(1)
proof cases
  case (reserve clk ip user r c')
  have mono: "now_at s \<le> clk 3" using reserve(2) by (simp add: clock_ok_def)
  have "charged s' ip' = (if ip' = ip then (case r of Some w \<Rightarrow> (charged s ip)(w := charged s ip w + 1) | None \<Rightarrow> charged s ip)
      else charged s ip')" for ip'
    unfolding reserve(1) by (auto simp: charged_def fun_eq_iff split: option.splits)
  then show ?thesis
    using assms(2) slot_reserve[OF _ reserve(2,3)] reserve_other_ip[OF reserve(3)] slot_later[OF _ mono]
    unfolding slots_ok_def by (auto simp: reserve(1))
next
  case (failure ip user w rest clk)
  have mono: "now_at s \<le> clk 3" using failure(3) by (simp add: clock_ok_def)
  have "charged s' = charged s" unfolding failure(1) by (auto simp: charged_def fun_eq_iff failure(2))
  then show ?thesis using assms(2) slot_later[OF _ mono]
    by (simp add: slots_ok_def failure(1) recordLoginFailure_def)
next
  case (success ip user w rest)
  have "charged s' ip' = (if ip' = ip then (charged s ip)(w := charged s ip w - 1) else charged s ip')" for ip'
    unfolding success(1) by (auto simp: charged_def fun_eq_iff success(2))
  moreover have "0 < charged s ip w" by (simp add: charged_def success(2))
  moreover have "ip' \<noteq> ip \<Longrightarrow> releaseLocked ip w m ip' = m ip'" for ip' m
    by (auto simp: releaseLocked_def split: option.splits)
  ultimately show ?thesis using assms(2) slot_release[of "ipFailures (chk s)" ip]
    unfolding slots_ok_def by (auto simp: success(1) completeLoginSuccess_def)
next
  case (cleanup t)
  have "charged s' = charged s" unfolding cleanup(1) by (simp add: charged_def fun_eq_iff)
  moreover have "slot_inv (ipFailures (chk s') ip) t (charged s ip)" for ip
  proof (cases "ipFailures (chk s) ip")
    case None
    then show ?thesis using assms(2)[unfolded slots_ok_def, rule_format, of ip] slot_later[OF _ cleanup(2)]
      by (simp add: cleanup(1) expireFailureMap_def)
  next
    case (Some rec)
    then show ?thesis
      using assms(2)[unfolded slots_ok_def, rule_format, of ip] slot_later[OF _ cleanup(2)] slot_expire[OF _ cleanup(2)]
      by (simp add: cleanup(1) expireFailureMap_def)
  qed
  ultimately show ?thesis by (simp add: slots_ok_def cleanup(1))
qed

text \<open>
  C39. However many clients log in concurrently, at most \<open>maxIPFailures\<close> password verifications per
  address and window are failed or in flight: every interleaving of reservations, failures,
  successes and expirations respects the limit.
\<close>

theorem login_attempts_bounded:
  assumes "login_reachable s"
  shows "int (charged s ip w) \<le> maxIPFailures"
proof -
  from assms have "slots_ok s"
  proof (induction rule: login_reachable.induct)
    case (init s)
    then show ?case by (simp add: slots_ok_def slot_inv_def charged_def maxIPFailures_def)
  qed (rule login_step_slots_ok)
  then show ?thesis by (simp add: slots_ok_def slot_inv_def)
qed

definition one_attempt :: login_system where
  "one_attempt = \<lparr>chk = snd (reserveLoginAttempt (\<lambda>_. 5) ''10.0.0.1'' ''u'' empty_checker), now_at = 5,
     inflight = {#(''10.0.0.1'', ''u'', 5)#}, failed = {#}\<rparr>"

theorem login_attempts_bounded_witness:
  "int (charged one_attempt ''10.0.0.1'' 5) \<le> maxIPFailures \<and> charged one_attempt ''10.0.0.1'' 5 = 1"
proof -
  let ?s0 = "\<lparr>chk = empty_checker, now_at = 0, inflight = {#}, failed = {#}\<rparr>"
  have res: "reserveLoginAttempt (\<lambda>_. 5) ''10.0.0.1'' ''u'' (chk ?s0) = (Some 5, chk one_attempt)"
    by (simp add: one_attempt_def reserveLoginAttempt_def empty_checker_def countLocked_def bumpLocked_def
        maxFailures_def maxIPFailures_def)
  have "login_reachable ?s0" by (rule login_reachable.init) (simp_all add: empty_checker_def)
  from login_reachable.step[OF this login_step.reserve[OF _ res]] have "login_reachable one_attempt"
    by (simp add: one_attempt_def clock_ok_def)
  from login_attempts_bounded[OF this, of "''10.0.0.1''" 5] show ?thesis
    by (simp add: one_attempt_def charged_def)
qed


subsection \<open>Locking an account\<close>

definition in_window :: "gotime \<Rightarrow> clock \<Rightarrow> bool" where
  "in_window t0 clk \<longleftrightarrow> (\<forall>n. t0 \<le> clk n \<and> clk n \<le> t0 + failureWindow)"

definition has_count :: "failure_map \<Rightarrow> string \<Rightarrow> nat \<Rightarrow> gotime \<Rightarrow> bool" where
  "has_count m key n t0 \<longleftrightarrow>
     (if n = 0 then m key = None else \<exists>rec. m key = Some rec \<and> fail_count rec = int n \<and> t0 \<le> firstAt rec)"

lemma has_count_countLocked:
  "has_count m key n t0 \<Longrightarrow> now \<le> t0 + failureWindow \<Longrightarrow> countLocked now key m = (int n, m)"
  by (auto simp: has_count_def countLocked_def expired_record_iff split: if_splits)

lemma has_count_bump:
  "has_count m key n t0 \<Longrightarrow> now \<le> t0 + failureWindow \<Longrightarrow> t0 \<le> now' \<Longrightarrow>
     has_count (bumpLocked now now' key m) key (Suc n) t0"
  by (auto simp: has_count_def bumpLocked_def expired_record_iff split: if_splits)

lemma failing_attempt:
  assumes "in_window t0 clk" and "\<not> verify cmp user pass c" and "n < 10"
    and "has_count (loginFailures c) (loginFailureKey ip user) n t0" and "has_count (ipFailures c) ip n t0"
    and "attempt cmp clk user pass ip c = (r, c')"
  shows "r = Inl ErrInvalidCredentials" and "users c' = users c"
    and "has_count (loginFailures c') (loginFailureKey ip user) (Suc n) t0"
    and "has_count (ipFailures c') ip (Suc n) t0"
proof -
  have w: "clk i \<le> t0 + failureWindow" "t0 \<le> clk i" for i using assms(1) by (simp_all add: in_window_def)
  note count = has_count_countLocked[OF assms(4) w(1)] has_count_countLocked[OF assms(5) w(1)]
  have ipb: "has_count (bumpLocked (clk 2) (clk 3) ip (ipFailures c)) ip (Suc n) t0"
    using has_count_bump[OF assms(5) w(1) w(2)] .
  then obtain rec where rec: "bumpLocked (clk 2) (clk 3) ip (ipFailures c) ip = Some rec"
    by (auto simp: has_count_def)
  have vf: "\<not> verify cmp user pass (c\<lparr>ipFailures := m\<rparr>)" for m using assms(2) by (simp add: verify_def)
  have lfs: "c\<lparr>loginFailures := loginFailures c, ipFailures := m\<rparr> = c\<lparr>ipFailures := m\<rparr>" for m by simp
  have res: "reserveLoginAttempt clk ip user c =
      (Some (firstAt rec), c\<lparr>ipFailures := bumpLocked (clk 2) (clk 3) ip (ipFailures c)\<rparr>)"
    using assms(3) count rec by (simp add: reserveLoginAttempt_def maxFailures_def maxIPFailures_def Let_def)
  have att: "attempt cmp clk user pass ip c =
      (Inl ErrInvalidCredentials, recordLoginFailure (\<lambda>n. clk (n + 4)) ip user
         (c\<lparr>ipFailures := bumpLocked (clk 2) (clk 3) ip (ipFailures c)\<rparr>))"
    using vf by (simp add: attempt_def res)
  show "r = Inl ErrInvalidCredentials" "users c' = users c" "has_count (ipFailures c') ip (Suc n) t0"
    "has_count (loginFailures c') (loginFailureKey ip user) (Suc n) t0"
    using assms(6) att ipb has_count_bump[OF assms(4) w(1) w(2)] by (auto simp: recordLoginFailure_def)
qed

fun failing_checks ::
  "(string \<Rightarrow> string \<Rightarrow> bool) \<Rightarrow> string \<Rightarrow> string \<Rightarrow> string \<Rightarrow> clock list \<Rightarrow> Checker \<Rightarrow> bool list \<times> Checker" where
  "failing_checks cmp user pass ip [] c = ([], c)"
| "failing_checks cmp user pass ip (clk # clks) c =
     (case Check cmp clk user pass ip c of (ok, c1) \<Rightarrow>
        case failing_checks cmp user pass ip clks c1 of (oks, c2) \<Rightarrow> (ok # oks, c2))"

lemma failing_checks_count:
  assumes "\<forall>clk\<in>set clks. in_window t0 clk" and "\<not> verify cmp user pass c" and "n + length clks \<le> 10"
    and "has_count (loginFailures c) (loginFailureKey ip user) n t0" and "has_count (ipFailures c) ip n t0"
    and "failing_checks cmp user pass ip clks c = (oks, c')"
  shows "set oks \<subseteq> {False} \<and> has_count (loginFailures c') (loginFailureKey ip user) (n + length clks) t0
     \<and> has_count (ipFailures c') ip (n + length clks) t0"
  using assms
proof (induction clks arbitrary: n c oks)
  case (Cons clk clks)
  obtain r c1 where a: "attempt cmp clk user pass ip c = (r, c1)" by force
  obtain oks1 where f: "failing_checks cmp user pass ip clks c1 = (oks1, c')" "oks = (r = Inr ()) # oks1"
    using Cons.prems(6) a by (auto simp: Check_def split: prod.splits)
  have w: "in_window t0 clk" "n < 10" using Cons.prems(1,3) by auto
  note st = failing_attempt[OF w(1) Cons.prems(2) w(2) Cons.prems(4,5) a]
  have "\<not> verify cmp user pass c1" using Cons.prems(2) st(2) by (simp add: verify_def)
  from Cons.IH[OF _ this _ st(3,4) f(1)] Cons.prems(1,3) st(1) f(2) show ?case by auto
qed simp

text \<open>
  Ten wrong passwords for an account from one address within the window are all refused, and
  lock the account for that address: for the rest of the window every further attempt is
  refused, with the right password too, and without verifying it.
\<close>

theorem account_lockout:
  assumes "\<forall>clk\<in>set clks. in_window t0 clk" and "in_window t0 clk'" and "length clks = 10"
    and "\<not> verify cmp user pass c" and "loginFailures c (loginFailureKey ip user) = None"
    and "ipFailures c ip = None" and "failing_checks cmp user pass ip clks c = (oks, c')"
  shows "oks = replicate 10 False \<and> fst (attempt cmp clk' user pass' ip c') = Inl ErrRateLimited"
proof -
  have z: "has_count (loginFailures c) (loginFailureKey ip user) 0 t0" "has_count (ipFailures c) ip 0 t0"
    using assms(5,6) by (simp_all add: has_count_def)
  have lens: "length oks = length clks" using assms(7)
    by (induction clks arbitrary: c oks) (auto split: prod.splits)
  note fc = failing_checks_count[OF assms(1,4) _ z assms(7)]
  have "oks = replicate 10 False"
    using fc assms(3) lens by (intro replicate_eqI) auto
  moreover have hc: "has_count (loginFailures c') (loginFailureKey ip user) 10 t0" using fc assms(3) by simp
  have "clk' 0 \<le> t0 + failureWindow" using assms(2) by (simp add: in_window_def)
  from has_count_countLocked[OF hc this] have "fst (attempt cmp clk' user pass' ip c') = Inl ErrRateLimited"
    by (simp add: attempt_def reserveLoginAttempt_def maxFailures_def)
  ultimately show ?thesis by blast
qed

theorem account_lockout_witness:
  "fst (failing_checks (\<lambda>h p. h = p) ''u'' ''bad'' ''ip'' (replicate 10 (\<lambda>_. 5)) (empty_checker\<lparr>users := [''u'' \<mapsto> ''good'']\<rparr>))
     = replicate 10 False
   \<and> fst (attempt (\<lambda>h p. h = p) (\<lambda>_. 6) ''u'' ''good'' ''ip''
        (snd (failing_checks (\<lambda>h p. h = p) ''u'' ''bad'' ''ip'' (replicate 10 (\<lambda>_. 5)) (empty_checker\<lparr>users := [''u'' \<mapsto> ''good'']\<rparr>))))
     = Inl ErrRateLimited"
proof -
  have w: "\<forall>clk\<in>set (replicate 10 (\<lambda>_. 5)). in_window 5 clk" "in_window 5 (\<lambda>_. 6)"
    by (auto simp: in_window_def failureWindow_def unit_defs)
  have c: "\<not> verify (\<lambda>h p. h = p) ''u'' ''bad'' (empty_checker\<lparr>users := [''u'' \<mapsto> ''good'']\<rparr>)"
    "loginFailures (empty_checker\<lparr>users := [''u'' \<mapsto> ''good'']\<rparr>) (loginFailureKey ''ip'' ''u'') = None"
    "ipFailures (empty_checker\<lparr>users := [''u'' \<mapsto> ''good'']\<rparr>) ''ip'' = None"
    by (simp_all add: empty_checker_def verify_def)
  show ?thesis
    using account_lockout[OF w _ c, of _ _ "''good''"] by (metis length_replicate prod.collapse)
qed

section \<open>Lifetime of a session\<close>

fun session_requests :: "string \<Rightarrow> gotime list \<Rightarrow> Checker \<Rightarrow> bool list" where
  "session_requests cookie [] c = []"
| "session_requests cookie (t # ts) c =
     (case authenticateSession t cookie c of (r, c1) \<Rightarrow>
        (case r of Inr (Some p) \<Rightarrow> True | _ \<Rightarrow> False) # session_requests cookie ts c1)"

text \<open>
  The reference: requests succeed as long as each comes before the absolute expiry and within the
  idle time of the one before; after the first that does not, none succeeds.
\<close>

fun lifetime :: "gotime \<Rightarrow> duration \<Rightarrow> gotime \<Rightarrow> gotime list \<Rightarrow> bool list" where
  "lifetime expires idle prev [] = []"
| "lifetime expires idle prev (t # ts) =
     (if t \<le> expires \<and> t \<le> prev + idle then True # lifetime expires idle t ts
      else replicate (Suc (length ts)) False)"

lemma session_requests_gone:
  "hasDB c \<Longrightarrow> sessions c cookie = None \<Longrightarrow> session_requests cookie ts c = replicate (length ts) False"
  by (induction ts) (auto simp: authenticateSession_def)

lemma session_requests_row:
  assumes "hasDB c" and "cookie \<noteq> []" and "sessions c cookie = Some ses"
    and "0 < ses_IdleTTL ses" and "ses_IdleTTL ses < maxDuration"
  shows "session_requests cookie ts c = lifetime (ses_ExpiresAt ses) (ses_IdleTTL ses) (ses_LastSeenAt ses) ts"
  using assms
proof (induction ts arbitrary: c ses)
  case (Cons t ts)
  have idle: "tsub t (ses_LastSeenAt ses) > ses_IdleTTL ses \<longleftrightarrow> ses_LastSeenAt ses + ses_IdleTTL ses < t"
    by (rule tsub_gt_iff) (use Cons.prems(4,5) in \<open>simp_all add: duration_limits\<close>)
  show ?case
  proof (cases "t \<le> ses_ExpiresAt ses \<and> t \<le> ses_LastSeenAt ses + ses_IdleTTL ses")
    case True
    let ?c1 = "c\<lparr>sessions := (sessions c)(cookie \<mapsto> ses\<lparr>ses_LastSeenAt := t\<rparr>)\<rparr>"
    have "session_requests cookie ts ?c1 = lifetime (ses_ExpiresAt ses) (ses_IdleTTL ses) t ts"
      using Cons.IH[of ?c1 "ses\<lparr>ses_LastSeenAt := t\<rparr>"] Cons.prems by simp
    then show ?thesis using True Cons.prems idle by (simp add: authenticateSession_def Let_def tafter_def)
  next
    case False
    have "session_requests cookie ts (c\<lparr>sessions := (sessions c)(cookie := None)\<rparr>) = replicate (length ts) False"
      by (rule session_requests_gone) (simp_all add: Cons.prems)
    then show ?thesis using False Cons.prems idle by (auto simp: authenticateSession_def Let_def tafter_def)
  qed
qed simp

text \<open>
  A session lives exactly as long as promised: after a login at time \<open>t\<close> the requests carrying
  its cookie succeed until the first one that comes after the absolute lifetime (12 hours, or
  30 days when remembered) or after an idle gap of more than 30 minutes (7 days), and no
  later request succeeds.
\<close>

theorem session_lifetime:
  assumes "Login cmp clk sid csrf user pass ip agent remember c = (Inr ses, c')" and "sid \<noteq> []"
  shows "session_requests sid ts c' =
     lifetime (clk 6 + (if remember then 30 * 24 * Hour else 12 * Hour))
       (if remember then 7 * 24 * Hour else 30 * Minute) (clk 6) ts"
proof -
  obtain c1 where c1: "CreateSession ses c1 = Some c'" "hasDB c1" "ses_ID ses = sid" "ses_LastSeenAt ses = clk 6"
    "ses_ExpiresAt ses = clk 6 + (if remember then 30 * 24 * Hour else 12 * Hour)"
    "ses_IdleTTL ses = (if remember then 7 * 24 * Hour else 30 * Minute)"
  proof -
    have db: "hasDB c1 = hasDB c" if "attempt cmp clk user pass ip c = (r, c1)" for r c1
      using that by (auto simp: attempt_def reserveLoginAttempt_def recordLoginFailure_def
          completeLoginSuccess_def Let_def split: prod.splits option.splits if_splits)
    show thesis using assms(1) that db
      by (auto simp: Login_def Let_def tadd_def RememberAbsoluteTTL_def SessionAbsoluteTTL_def
          RememberIdleTTL_def SessionIdleTTL_def split: prod.splits sum.splits option.splits if_splits)
  qed
  have secs: "idle_secs (ses_IdleTTL ses) * Second = ses_IdleTTL ses"
    by (simp add: c1(6) idle_secs_def unit_defs)
  have row: "sessions c' sid = Some (ses\<lparr>ses_IdleTTL := ses_IdleTTL ses\<rparr>)" "hasDB c'"
    using c1 secs by (auto simp: CreateSession_def split: if_splits)
  show ?thesis
    using session_requests_row[OF row(2) assms(2) row(1), of ts] c1 by (simp add: unit_defs duration_limits)
qed

theorem session_lifetime_witness:
  "session_requests ''s'' [100, 100 + 31 * Minute, 100 + 31 * Minute]
     (snd (Login (\<lambda>h p. h = p) (\<lambda>_. 100) ''s'' ''x'' ''u'' ''good'' ''ip'' ''ua'' False
             (empty_checker\<lparr>users := [''u'' \<mapsto> ''good'']\<rparr>))) = [True, False, False]"
proof -
  obtain ses c' where l: "Login (\<lambda>h p. h = p) (\<lambda>_. 100) ''s'' ''x'' ''u'' ''good'' ''ip'' ''ua'' False
      (empty_checker\<lparr>users := [''u'' \<mapsto> ''good'']\<rparr>) = (Inr ses, c')"
    by (simp add: Login_def attempt_def reserveLoginAttempt_def empty_checker_def countLocked_def bumpLocked_def
        maxFailures_def maxIPFailures_def verify_def completeLoginSuccess_def CreateSession_def Let_def)
  show ?thesis using session_lifetime[OF l, of "[100, 100 + 31 * Minute, 100 + 31 * Minute]"]
    by (simp add: l unit_defs numeral_2_eq_2)
qed

end
