(* ===== verification/Notify.thy ===== *)
theory Notify
  imports Go_Prelude
begin

text \<open>
  Notifications: \<^verbatim>\<open>internal/notify/cooldown.go\<close>, \<^verbatim>\<open>dispatcher.go\<close> (gates, fan-out to the devices of a
  user, accounting), \<^verbatim>\<open>fanout.go\<close> (several providers) and \<^verbatim>\<open>snapshot_url.go\<close> (signed thumbnail
  URLs).  The push service answers as given by the argument \<open>send\<close>, the store is a record, and the
  readings of the clock inside an operation are the values of \<open>clk\<close>.
\<close>

section \<open>CooldownCache\<close>

record CooldownCache =
  cc_window :: duration
  cc_last :: "string \<rightharpoonup> gotime"

definition NewCooldownCache :: "duration \<Rightarrow> CooldownCache" where
  "NewCooldownCache window = \<lparr>cc_window = window, cc_last = Map.empty\<rparr>"

definition cooldown_Check :: "gotime \<Rightarrow> string \<Rightarrow> CooldownCache \<Rightarrow> bool" where
  "cooldown_Check now key c =
     (case cc_last c key of None \<Rightarrow> False | Some ts \<Rightarrow> tsub now ts < cc_window c)"

definition cooldown_Mark :: "gotime \<Rightarrow> string \<Rightarrow> CooldownCache \<Rightarrow> CooldownCache" where
  "cooldown_Mark now key c = c\<lparr>cc_last := (cc_last c)(key \<mapsto> now)\<rparr>"

definition cooldown_Sweep :: "gotime \<Rightarrow> CooldownCache \<Rightarrow> CooldownCache" where
  "cooldown_Sweep now c =
     (let cutoff = tadd now (wrap64 (- 2 * cc_window c))
      in c\<lparr>cc_last := (\<lambda>k. case cc_last c k of
                           None \<Rightarrow> None | Some ts \<Rightarrow> if tbefore ts cutoff then None else Some ts)\<rparr>)"

text \<open>
  A run of cache operations, each with its time; the answers are those of the checks.
\<close>

datatype cache_op = CheckAt gotime string | MarkAt gotime string | SweepAt gotime

fun op_time :: "cache_op \<Rightarrow> gotime" where
  "op_time (CheckAt t k) = t" | "op_time (MarkAt t k) = t" | "op_time (SweepAt t) = t"

fun cache_run :: "cache_op list \<Rightarrow> CooldownCache \<Rightarrow> bool list" where
  "cache_run [] c = []"
| "cache_run (CheckAt t k # os) c = cooldown_Check t k c # cache_run os c"
| "cache_run (MarkAt t k # os) c = cache_run os (cooldown_Mark t k c)"
| "cache_run (SweepAt t # os) c = cache_run os (cooldown_Sweep t c)"

definition no_sweep :: "cache_op list \<Rightarrow> cache_op list" where
  "no_sweep os = filter (\<lambda>e. case e of SweepAt t \<Rightarrow> False | _ \<Rightarrow> True) os"

text \<open>Two caches that answer every check from time \<open>t\<close> on alike.\<close>

definition same_answers :: "gotime \<Rightarrow> CooldownCache \<Rightarrow> CooldownCache \<Rightarrow> bool" where
  "same_answers t c d \<longleftrightarrow> cc_window c = cc_window d \<and>
     (\<forall>k. cc_last c k = cc_last d k \<or> (cc_last c k = None \<and> (\<exists>ts. cc_last d k = Some ts \<and> ts + cc_window d \<le> t)))"

lemma cooldown_Check_iff:
  "0 < cc_window c \<Longrightarrow> cc_window c \<le> maxDuration \<Longrightarrow>
     cooldown_Check now key c \<longleftrightarrow> (\<exists>ts. cc_last c key = Some ts \<and> now < ts + cc_window c)"
  by (auto simp: cooldown_Check_def tsub_less_iff duration_limits split: option.splits)

lemma same_answers_Check:
  assumes "same_answers t c d" and "t \<le> now" and "0 < cc_window d" and "cc_window d \<le> maxDuration"
  shows "cooldown_Check now k c = cooldown_Check now k d"
proof -
  have "cc_last c k = cc_last d k \<or> (cc_last c k = None \<and> (\<exists>ts. cc_last d k = Some ts \<and> ts + cc_window d \<le> t))"
    using assms(1) by (simp add: same_answers_def)
  moreover have "cc_window c = cc_window d" using assms(1) by (simp add: same_answers_def)
  ultimately show ?thesis using assms(2-4) by (cases "cc_last d k") (auto simp: cooldown_Check_iff)
qed

lemma same_answers_later: "same_answers t c d \<Longrightarrow> t \<le> t' \<Longrightarrow> same_answers t' c d"
  unfolding same_answers_def by fastforce

lemma same_answers_Mark: "same_answers t c d \<Longrightarrow> same_answers t (cooldown_Mark now k c) (cooldown_Mark now k d)"
  by (auto simp: same_answers_def cooldown_Mark_def)

lemma same_answers_Sweep:
  assumes "same_answers t c d" and "0 < cc_window d" and "2 * cc_window d \<le> maxDuration"
  shows "same_answers t (cooldown_Sweep t c) d"
proof -
  have w: "wrap64 (- (2 * cc_window c)) = - 2 * cc_window d"
    using assms by (simp add: same_answers_def in64_def duration_limits)
  show ?thesis unfolding same_answers_def
  proof (intro conjI allI)
    show "cc_window (cooldown_Sweep t c) = cc_window d" using assms(1) by (simp add: same_answers_def cooldown_Sweep_def Let_def)
    fix k
    have "cc_last c k = cc_last d k \<or> (cc_last c k = None \<and> (\<exists>ts. cc_last d k = Some ts \<and> ts + cc_window d \<le> t))"
      using assms(1) by (simp add: same_answers_def)
    then show "cc_last (cooldown_Sweep t c) k = cc_last d k \<or>
        (cc_last (cooldown_Sweep t c) k = None \<and> (\<exists>ts. cc_last d k = Some ts \<and> ts + cc_window d \<le> t))"
      using assms(2) by (cases "cc_last d k") (auto simp: cooldown_Sweep_def Let_def w tadd_def tbefore_def split: if_splits)
  qed
qed

lemma cache_run_same:
  assumes "sorted (map op_time os)" and "\<forall>e\<in>set os. t \<le> op_time e" and "same_answers t c d"
    and "0 < cc_window d" and "2 * cc_window d \<le> maxDuration"
  shows "cache_run os c = cache_run (no_sweep os) d"
  using assms
proof (induction os arbitrary: t c d)
  case Nil
  then show ?case by (simp add: no_sweep_def)
next
  case (Cons e os)
  have t: "t \<le> op_time e" and rest: "sorted (map op_time os)" "\<forall>x\<in>set os. op_time e \<le> op_time x"
    using Cons.prems(1,2) by auto
  have sm: "same_answers (op_time e) c d" using Cons.prems(3) t by (rule same_answers_later)
  note IH = Cons.IH[OF rest]
  show ?case
  proof (cases e)
    case (CheckAt u k)
    have "cc_window d \<le> maxDuration" using Cons.prems(4,5) by linarith
    then have "cooldown_Check u k c = cooldown_Check u k d"
      using same_answers_Check[OF sm _ Cons.prems(4)] CheckAt by simp
    then show ?thesis using CheckAt IH[OF sm Cons.prems(4,5)] by (simp add: no_sweep_def)
  next
    case (MarkAt u k)
    show ?thesis using MarkAt IH[OF same_answers_Mark[OF sm, of u k]] Cons.prems(4,5)
      by (simp add: no_sweep_def cooldown_Mark_def)
  next
    case (SweepAt u)
    show ?thesis using SweepAt IH[OF same_answers_Sweep[OF sm Cons.prems(4,5)] Cons.prems(4,5)]
      by (simp add: no_sweep_def)
  qed
qed

text \<open>
  Sweeping the cooldown cache is invisible: over any run of checks, marks and sweeps with a
  clock that does not go back, every check answers as if no sweep had happened.
\<close>

theorem cooldown_sweep_invisible:
  assumes "sorted (map op_time os)" and "0 < window" and "2 * window \<le> maxDuration"
  shows "cache_run os (NewCooldownCache window) = cache_run (no_sweep os) (NewCooldownCache window)"
proof (cases os)
  case Nil
  then show ?thesis by (simp add: no_sweep_def)
next
  case (Cons e os')
  have "\<forall>x\<in>set os. op_time e \<le> op_time x" using assms(1) Cons by auto
  then show ?thesis
    by (rule cache_run_same[OF assms(1)]) (use assms in \<open>simp_all add: NewCooldownCache_def same_answers_def\<close>)
qed

theorem cooldown_sweep_invisible_witness:
  "cache_run [MarkAt 1 ''k'', SweepAt 5, CheckAt 6 ''k''] (NewCooldownCache 10) = [True]"
  using cooldown_sweep_invisible[of "[MarkAt 1 ''k'', SweepAt 5, CheckAt 6 ''k'']" 10]
  by (simp add: no_sweep_def duration_limits NewCooldownCache_def cooldown_Mark_def cooldown_Check_def tsub_def)


section \<open>NotificationDispatcher\<close>

datatype dropReason =
  dropDelivered | dropMuted | dropDisabled | dropCooldown | dropNoSubs | dropEndpointBackoff
| dropStoreError | dropSendFailed

record SendResult =
  sr_Status :: int
  sr_Err :: bool
  sr_Timeout :: bool

record Metrics =
  EventsReceived :: int
  EventsDropped :: int
  EventsMuted :: int
  EventsDisabled :: int
  EventsCooldown :: int
  EventsSent :: int
  PushSendOK :: int
  PushSend401 :: int
  PushSend410 :: int
  PushSend429 :: int
  PushSendError :: int
  PushSendTimeout :: int

text \<open>
  The store the dispatcher sees: the muted users, the preference answer for a user, camera and
  label (\<open>None\<close> is an error), and the endpoints of a user (\<open>None\<close> is an error).
\<close>

record notify_store =
  ns_muted :: "string \<Rightarrow> bool"
  ns_enabled :: "string \<Rightarrow> string \<Rightarrow> string \<Rightarrow> bool option"
  ns_subs :: "string \<Rightarrow> string list option"

record NotificationDispatcher =
  nd_store :: notify_store
  nd_cooldown :: CooldownCache
  nd_backoff :: CooldownCache
  nd_metrics :: Metrics

definition on_metrics :: "(Metrics \<Rightarrow> Metrics) \<Rightarrow> NotificationDispatcher \<Rightarrow> NotificationDispatcher" where
  "on_metrics f d = d\<lparr>nd_metrics := f (nd_metrics d)\<rparr>"

definition success :: "int \<Rightarrow> bool" where
  "success status \<longleftrightarrow> 200 \<le> status \<and> status < 300"

definition recordResult :: "SendResult \<Rightarrow> NotificationDispatcher \<Rightarrow> NotificationDispatcher" where
  "recordResult r d =
     on_metrics (\<lambda>m.
       if sr_Timeout r then m\<lparr>PushSendTimeout := PushSendTimeout m + 1\<rparr>
       else if sr_Err r then m\<lparr>PushSendError := PushSendError m + 1\<rparr>
       else if sr_Status r = 401 \<or> sr_Status r = 403 then m\<lparr>PushSend401 := PushSend401 m + 1\<rparr>
       else if sr_Status r = 410 \<or> sr_Status r = 404 then m\<lparr>PushSend410 := PushSend410 m + 1\<rparr>
       else if sr_Status r = 429 then m\<lparr>PushSend429 := PushSend429 m + 1\<rparr>
       else if success (sr_Status r) then m\<lparr>PushSendOK := PushSendOK m + 1\<rparr>
       else m\<lparr>PushSendError := PushSendError m + 1\<rparr>) d"

definition prune_endpoint :: "string \<Rightarrow> NotificationDispatcher \<Rightarrow> NotificationDispatcher" where
  "prune_endpoint endpoint d =
     d\<lparr>nd_store := (nd_store d)\<lparr>ns_subs := (\<lambda>u. map_option (filter (\<lambda>ep. ep \<noteq> endpoint)) (ns_subs (nd_store d) u))\<rparr>\<rparr>"

text \<open>The effect of one answer of the push service: accounting, pruning, backoff.\<close>

definition after_send :: "gotime \<Rightarrow> string \<Rightarrow> SendResult \<Rightarrow> NotificationDispatcher \<Rightarrow> NotificationDispatcher" where
  "after_send now endpoint r d =
     (let d1 = recordResult r d
      in if success (sr_Status r) then d1
         else if sr_Status r = 404 \<or> sr_Status r = 410 then prune_endpoint endpoint d1
         else if sr_Status r = 429 then d1\<lparr>nd_backoff := cooldown_Mark now endpoint (nd_backoff d1)\<rparr>
         else d1)"

text \<open>
  \<^verbatim>\<open>dispatchToUser\<close> in the pieces between which other workers run: the gates with the subscriptions that pass them, one
  subscription (any success, any attempt), and the end.
\<close>

record dispatch_call =
  dc_user :: string
  dc_camera :: string
  dc_label :: string
  dc_identity :: string
  dc_bypass :: bool

definition cooldown_key :: "dispatch_call \<Rightarrow> string" where
  "cooldown_key dc = dc_user dc @ '':'' @ dc_identity dc"

definition dispatch_gate :: "gotime \<Rightarrow> dispatch_call \<Rightarrow> NotificationDispatcher \<Rightarrow> (dropReason + string list) \<times> NotificationDispatcher" where
  "dispatch_gate now dc d =
     (if ns_muted (nd_store d) (dc_user dc)
      then (Inl dropMuted, on_metrics (\<lambda>m. m\<lparr>EventsMuted := EventsMuted m + 1\<rparr>) d)
      else case ns_enabled (nd_store d) (dc_user dc) (dc_camera dc) (dc_label dc) of
        None \<Rightarrow> (Inl dropStoreError, d)
      | Some enabled \<Rightarrow>
          if \<not> enabled then (Inl dropDisabled, on_metrics (\<lambda>m. m\<lparr>EventsDisabled := EventsDisabled m + 1\<rparr>) d)
          else if \<not> dc_bypass dc \<and> cooldown_Check now (cooldown_key dc) (nd_cooldown d)
               then (Inl dropCooldown, on_metrics (\<lambda>m. m\<lparr>EventsCooldown := EventsCooldown m + 1\<rparr>) d)
               else case ns_subs (nd_store d) (dc_user dc) of
                 None \<Rightarrow> (Inl dropStoreError, d)
               | Some subs \<Rightarrow>
                   if subs = [] then (Inl dropNoSubs, on_metrics (\<lambda>m. m\<lparr>EventsDisabled := EventsDisabled m + 1\<rparr>) d)
                   else (Inr subs, d))"

definition send_one ::
  "gotime \<Rightarrow> gotime \<Rightarrow> SendResult \<Rightarrow> string \<Rightarrow> bool \<times> bool \<Rightarrow> NotificationDispatcher \<Rightarrow> (bool \<times> bool) \<times> NotificationDispatcher" where
  "send_one t1 t2 r ep flags d =
     (if cooldown_Check t1 ep (nd_backoff d) then (flags, d)
      else ((fst flags \<or> success (sr_Status r), True), after_send t2 ep r d))"

fun send_loop ::
  "(nat \<Rightarrow> gotime) \<Rightarrow> (string \<Rightarrow> SendResult) \<Rightarrow> nat \<Rightarrow> string list \<Rightarrow> bool \<times> bool \<Rightarrow> NotificationDispatcher
     \<Rightarrow> (bool \<times> bool) \<times> NotificationDispatcher" where
  "send_loop clk send i [] flags d = (flags, d)"
| "send_loop clk send i (ep # eps) flags d =
     (case send_one (clk i) (clk (i + 1)) (send ep) ep flags d of (flags', d') \<Rightarrow> send_loop clk send (i + 2) eps flags' d')"

definition dispatch_finish :: "gotime \<Rightarrow> dispatch_call \<Rightarrow> bool \<times> bool \<Rightarrow> NotificationDispatcher \<Rightarrow> dropReason \<times> NotificationDispatcher" where
  "dispatch_finish now dc flags d =
     (if fst flags then
        (dropDelivered,
         on_metrics (\<lambda>m. m\<lparr>EventsSent := EventsSent m + 1\<rparr>)
           (if dc_bypass dc then d else d\<lparr>nd_cooldown := cooldown_Mark now (cooldown_key dc) (nd_cooldown d)\<rparr>))
      else if \<not> snd flags then (dropEndpointBackoff, d) else (dropSendFailed, d))"

definition dispatchToUser ::
  "(nat \<Rightarrow> gotime) \<Rightarrow> gotime \<Rightarrow> (string \<Rightarrow> SendResult) \<Rightarrow> dispatch_call \<Rightarrow> NotificationDispatcher \<Rightarrow> dropReason \<times> NotificationDispatcher" where
  "dispatchToUser clk done_at send dc d =
     (case dispatch_gate (clk 0) dc d of
        (Inl reason, d1) \<Rightarrow> (reason, d1)
      | (Inr subs, d1) \<Rightarrow> (case send_loop clk send 1 subs (False, False) d1 of (flags, d2) \<Rightarrow> dispatch_finish done_at dc flags d2))"

fun test_loop ::
  "(nat \<Rightarrow> gotime) \<Rightarrow> (string \<Rightarrow> SendResult) \<Rightarrow> nat \<Rightarrow> string list \<Rightarrow> bool \<Rightarrow> NotificationDispatcher
     \<Rightarrow> bool \<times> NotificationDispatcher" where
  "test_loop clk send i [] anySuccess d = (anySuccess, d)"
| "test_loop clk send i (ep # eps) anySuccess d =
     test_loop clk send (i + 1) eps (anySuccess \<or> success (sr_Status (send ep))) (after_send (clk i) ep (send ep) d)"

definition dispatchTestToUser ::
  "(nat \<Rightarrow> gotime) \<Rightarrow> (string \<Rightarrow> SendResult) \<Rightarrow> string \<Rightarrow> NotificationDispatcher \<Rightarrow> dropReason \<times> NotificationDispatcher" where
  "dispatchTestToUser clk send user d =
     (case ns_subs (nd_store d) user of
        None \<Rightarrow> (dropStoreError, d)
      | Some subs \<Rightarrow>
          if subs = [] then (dropNoSubs, on_metrics (\<lambda>m. m\<lparr>EventsDisabled := EventsDisabled m + 1\<rparr>) d)
          else case test_loop clk send 0 subs False d of (anySuccess, d1) \<Rightarrow>
            if anySuccess then (dropDelivered, on_metrics (\<lambda>m. m\<lparr>EventsSent := EventsSent m + 1\<rparr>) d1)
            else (dropSendFailed, d1))"

record dispatchOutcome =
  oc_delivered :: int
  oc_drops :: "dropReason \<Rightarrow> int"

definition outcome_record :: "dropReason \<Rightarrow> dispatchOutcome \<Rightarrow> dispatchOutcome" where
  "outcome_record reason out =
     (if reason = dropDelivered then out\<lparr>oc_delivered := oc_delivered out + 1\<rparr>
      else out\<lparr>oc_drops := (oc_drops out)(reason := oc_drops out reason + 1)\<rparr>)"

datatype log_level = LevelWarn | LevelInfo

definition dispatchLevel :: "dispatchOutcome \<Rightarrow> NotificationDispatcher \<Rightarrow> log_level" where
  "dispatchLevel out d =
     (if oc_delivered out = 0 \<and> EventsSent (nd_metrics d) = 0 then LevelWarn else LevelInfo)"

subsection \<open>Spacing of deliveries\<close>

text \<open>
  The workers that \<^verbatim>\<open>Start\<close> launches share the cache: each is idle or between two pieces of \<^verbatim>\<open>dispatchToUser\<close>.  Any worker may make the
  next step, at a time not before the last one; the sweeper, test notifications, changes of the store and panics come in between.
  \<open>fl_log\<close> records the deliveries that mark the cooldown: worker, key and time.
\<close>

datatype phase = Idle | Sending dispatch_call "string list" "bool \<times> bool"

record fleet =
  fl_disp :: NotificationDispatcher
  fl_now :: gotime
  fl_phase :: "nat \<Rightarrow> phase"
  fl_log :: "(nat \<times> string \<times> gotime) list"

inductive fleet_step :: "nat \<Rightarrow> fleet \<Rightarrow> fleet \<Rightarrow> bool" for workers where
  fl_drop: "w < workers \<Longrightarrow> fl_phase f w = Idle \<Longrightarrow> fl_now f \<le> t \<Longrightarrow> dispatch_gate t dc (fl_disp f) = (Inl reason, d) \<Longrightarrow>
    fleet_step workers f (f\<lparr>fl_disp := d, fl_now := t\<rparr>)"
| fl_pass: "w < workers \<Longrightarrow> fl_phase f w = Idle \<Longrightarrow> fl_now f \<le> t \<Longrightarrow> dispatch_gate t dc (fl_disp f) = (Inr subs, d) \<Longrightarrow>
    fleet_step workers f (f\<lparr>fl_disp := d, fl_now := t, fl_phase := (fl_phase f)(w := Sending dc subs (False, False))\<rparr>)"
| fl_send: "w < workers \<Longrightarrow> fl_phase f w = Sending dc (ep # eps) flags \<Longrightarrow> fl_now f \<le> t1 \<Longrightarrow> t1 \<le> t2 \<Longrightarrow>
    send_one t1 t2 r ep flags (fl_disp f) = (flags', d) \<Longrightarrow>
    fleet_step workers f (f\<lparr>fl_disp := d, fl_now := t2, fl_phase := (fl_phase f)(w := Sending dc eps flags')\<rparr>)"
| fl_done: "w < workers \<Longrightarrow> fl_phase f w = Sending dc [] flags \<Longrightarrow> fl_now f \<le> t \<Longrightarrow> dispatch_finish t dc flags (fl_disp f) = (reason, d) \<Longrightarrow>
    fleet_step workers f (f\<lparr>fl_disp := d, fl_now := t, fl_phase := (fl_phase f)(w := Idle),
      fl_log := fl_log f @ (if reason = dropDelivered \<and> \<not> dc_bypass dc then [(w, cooldown_key dc, t)] else [])\<rparr>)"
| fl_panic: "w < workers \<Longrightarrow> fleet_step workers f (f\<lparr>fl_phase := (fl_phase f)(w := Idle)\<rparr>)"
| fl_test: "w < workers \<Longrightarrow> fl_phase f w = Idle \<Longrightarrow> dispatchTestToUser clk send user (fl_disp f) = (reason, d) \<Longrightarrow> fleet_step workers f (f\<lparr>fl_disp := d\<rparr>)"
| fl_sweep: "fl_now f \<le> t \<Longrightarrow> fleet_step workers f (f\<lparr>fl_now := t, fl_disp := (fl_disp f)
      \<lparr>nd_cooldown := cooldown_Sweep t (nd_cooldown (fl_disp f)), nd_backoff := cooldown_Sweep t (nd_backoff (fl_disp f))\<rparr>\<rparr>)"
| fl_store: "fleet_step workers f (f\<lparr>fl_disp := (fl_disp f)\<lparr>nd_store := st\<rparr>\<rparr>)"

definition fleet_start :: "duration \<Rightarrow> fleet \<Rightarrow> bool" where
  "fleet_start window f \<longleftrightarrow> nd_cooldown (fl_disp f) = NewCooldownCache window \<and> fl_phase f = (\<lambda>_. Idle) \<and> fl_log f = []"

inductive fleet_reach :: "nat \<Rightarrow> duration \<Rightarrow> fleet \<Rightarrow> bool" for workers window where
  fleet_init: "fleet_start window f \<Longrightarrow> fleet_reach workers window f"
| fleet_next: "fleet_reach workers window f \<Longrightarrow> fleet_step workers f f' \<Longrightarrow> fleet_reach workers window f'"

text \<open>
  Every delivery in the log is remembered by the cache or a window old; a worker that sends has seen those of its key a window old when
  it checked, and the ones it made itself before.
\<close>

definition remembered :: "CooldownCache \<Rightarrow> gotime \<Rightarrow> string \<times> gotime \<Rightarrow> bool" where
  "remembered c now kt \<longleftrightarrow> snd kt + cc_window c \<le> now \<or> (\<exists>ts. cc_last c (fst kt) = Some ts \<and> snd kt \<le> ts)"

definition worker_times :: "nat \<Rightarrow> string \<Rightarrow> fleet \<Rightarrow> gotime list" where
  "worker_times w key f = map (\<lambda>(_, _, t). t) (filter (\<lambda>(v, k, _). v = w \<and> k = key) (fl_log f))"

definition fleet_ok :: "nat \<Rightarrow> duration \<Rightarrow> fleet \<Rightarrow> bool" where
  "fleet_ok workers window f \<longleftrightarrow> cc_window (nd_cooldown (fl_disp f)) = window \<and>
     (\<forall>(w, k, t)\<in>set (fl_log f). w < workers \<and> remembered (nd_cooldown (fl_disp f)) (fl_now f) (k, t)) \<and>
     (\<forall>k ts. cc_last (nd_cooldown (fl_disp f)) k = Some ts \<longrightarrow> ts \<le> fl_now f) \<and>
     (\<forall>w key. successively (\<lambda>t u. t + window \<le> u) (worker_times w key f)) \<and>
     (\<forall>w dc eps flags. fl_phase f w = Sending dc eps flags \<longrightarrow> \<not> dc_bypass dc \<longrightarrow>
        (\<forall>t\<in>set (worker_times w (cooldown_key dc) f). t + window \<le> fl_now f))"

lemma after_send_cooldown [simp]: "nd_cooldown (after_send u ep r d) = nd_cooldown d"
  by (simp add: after_send_def recordResult_def on_metrics_def prune_endpoint_def Let_def)

lemma send_one_cooldown: "send_one t1 t2 r ep flags d = (flags', d') \<Longrightarrow> nd_cooldown d' = nd_cooldown d"
  by (auto simp: send_one_def split: if_splits)

lemma test_loop_cooldown: "test_loop clk send i eps a d = (b, d') \<Longrightarrow> nd_cooldown d' = nd_cooldown d"
  by (induction clk send i eps a d rule: test_loop.induct) auto

lemma dispatchTest_cooldown: "dispatchTestToUser clk send user d = (reason, d') \<Longrightarrow> nd_cooldown d' = nd_cooldown d"
  by (auto simp: dispatchTestToUser_def on_metrics_def dest!: test_loop_cooldown split: option.splits if_splits prod.splits)

lemma gate_cooldown: "dispatch_gate t dc d = (res, d') \<Longrightarrow> nd_cooldown d' = nd_cooldown d"
  by (auto simp: dispatch_gate_def on_metrics_def split: option.splits if_splits)

lemma gate_passed: "dispatch_gate t dc d = (Inr subs, d') \<Longrightarrow> \<not> dc_bypass dc \<Longrightarrow> \<not> cooldown_Check t (cooldown_key dc) (nd_cooldown d)"
  by (auto simp: dispatch_gate_def split: option.splits if_splits)

lemma remembered_later: "remembered c now kt \<Longrightarrow> now \<le> now' \<Longrightarrow> remembered c now' kt"
  by (auto simp: remembered_def)

lemma remembered_mark:
  "remembered c now kt \<Longrightarrow> (\<And>k ts. cc_last c k = Some ts \<Longrightarrow> ts \<le> now) \<Longrightarrow> now \<le> t \<Longrightarrow> remembered (cooldown_Mark t key c) t kt"
  by (fastforce simp: remembered_def cooldown_Mark_def)

lemma remembered_sweep:
  assumes "remembered c now kt" "now \<le> t" "0 < cc_window c" "2 * cc_window c \<le> maxDuration"
  shows "remembered (cooldown_Sweep t c) t kt"
proof -
  have w: "wrap64 (- (2 * cc_window c)) = - 2 * cc_window c" using assms(3,4) by (simp add: in64_def duration_limits)
  show ?thesis using assms(1-3)
    by (auto simp: remembered_def cooldown_Sweep_def Let_def w tadd_def tbefore_def split: if_splits)
qed

lemma unsuppressed_old:
  assumes "\<not> cooldown_Check t key c" "remembered c now (key, u)" "now \<le> t" "0 < cc_window c" "cc_window c \<le> maxDuration"
  shows "u + cc_window c \<le> t"
  using assms by (auto simp: remembered_def cooldown_Check_iff)

lemma fleet_ok_sending:
  assumes "fleet_ok workers window f" "fl_phase f w = Sending dc eps flags" "\<not> dc_bypass dc" "t \<in> set (worker_times w (cooldown_key dc) f)" "fl_now f \<le> now"
  shows "t + window \<le> now"
proof -
  have "t + window \<le> fl_now f" using assms(1-4) unfolding fleet_ok_def by blast
  then show ?thesis using assms(5) by simp
qed

lemma fleet_ok_marked: "fleet_ok workers window f \<Longrightarrow> cc_last (nd_cooldown (fl_disp f)) k = Some ts \<Longrightarrow> fl_now f \<le> now \<Longrightarrow> ts \<le> now"
  unfolding fleet_ok_def by (meson order_trans)

lemma fleet_ok_frame:
  assumes "fleet_ok workers window f" "nd_cooldown (fl_disp f') = nd_cooldown (fl_disp f)" "fl_log f' = fl_log f" "fl_now f \<le> fl_now f'"
    and sending: "\<And>w dc eps flags. fl_phase f' w = Sending dc eps flags \<Longrightarrow> \<not> dc_bypass dc \<Longrightarrow>
      (\<exists>eps flags. fl_phase f w = Sending dc eps flags) \<or> (\<forall>t\<in>set (worker_times w (cooldown_key dc) f). t + window \<le> fl_now f')"
  shows "fleet_ok workers window f'"
proof -
  have times: "worker_times w k f' = worker_times w k f" for w k using assms(3) by (simp add: worker_times_def)
  have "t + window \<le> fl_now f'" if "fl_phase f' w = Sending dc eps flags" "\<not> dc_bypass dc" "t \<in> set (worker_times w (cooldown_key dc) f)" for w dc eps flags t
    using sending[OF that(1,2)] that(2,3) fleet_ok_sending[OF assms(1) _ _ _ assms(4)] by blast
  moreover have "remembered (nd_cooldown (fl_disp f)) (fl_now f') (k, t)" if "(w, k, t) \<in> set (fl_log f)" for w k t
    using assms(1,4) that remembered_later by (fastforce simp: fleet_ok_def)
  ultimately show ?thesis using assms(1-4) unfolding fleet_ok_def times by fastforce
qed

lemma fleet_ok_mark:
  assumes ok: "fleet_ok workers window f" and w: "w < workers" and ph: "fl_phase f w = Sending dc [] flags" "\<not> dc_bypass dc" and now: "fl_now f \<le> t"
    and d: "nd_cooldown d = cooldown_Mark t (cooldown_key dc) (nd_cooldown (fl_disp f))"
  shows "fleet_ok workers window (f\<lparr>fl_disp := d, fl_now := t, fl_phase := (fl_phase f)(w := Idle), fl_log := fl_log f @ [(w, cooldown_key dc, t)]\<rparr>)"
    (is "fleet_ok workers window ?f'")
proof -
  have times: "worker_times v k ?f' = worker_times v k f @ (if v = w \<and> k = cooldown_key dc then [t] else [])" for v k
    by (auto simp: worker_times_def)
  have old: "\<forall>u\<in>set (worker_times w (cooldown_key dc) f). u + window \<le> t" using fleet_ok_sending[OF ok ph _ now] by blast
  have "successively (\<lambda>t u. t + window \<le> u) (worker_times v k ?f')" for v k
  proof -
    have "successively (\<lambda>t u. t + window \<le> u) (worker_times v k f)" using ok by (simp add: fleet_ok_def)
    moreover have "worker_times w (cooldown_key dc) f \<noteq> [] \<Longrightarrow> last (worker_times w (cooldown_key dc) f) + window \<le> t"
      using old last_in_set by blast
    ultimately show ?thesis unfolding times by (auto simp: successively_append_iff)
  qed
  moreover have "remembered (nd_cooldown d) t (k, u)" if "(v, k, u) \<in> set (fl_log f)" for v k u
    unfolding d using ok that now by (intro remembered_mark[of _ "fl_now f"]) (auto simp: fleet_ok_def)
  moreover have "remembered (nd_cooldown d) t (cooldown_key dc, t)" by (simp add: remembered_def d cooldown_Mark_def)
  moreover have "ts \<le> t" if "cc_last (nd_cooldown d) k = Some ts" for k ts
    using that fleet_ok_marked[OF ok _ now] by (auto simp: d cooldown_Mark_def split: if_splits)
  moreover have "u + window \<le> t" if "fl_phase ?f' v = Sending dc' eps flags'" "\<not> dc_bypass dc'" "u \<in> set (worker_times v (cooldown_key dc') ?f')" for v dc' eps flags' u
    using that fleet_ok_sending[OF ok _ _ _ now] by (auto simp: times split: if_splits)
  moreover have "cc_window (nd_cooldown d) = window" using ok by (simp add: d cooldown_Mark_def fleet_ok_def)
  ultimately show ?thesis using ok w by (auto simp: fleet_ok_def)
qed

lemma fleet_ok_sweep:
  assumes ok: "fleet_ok workers window f" and now: "fl_now f \<le> t" and w: "0 < window" "2 * window \<le> maxDuration"
  shows "fleet_ok workers window (f\<lparr>fl_now := t, fl_disp := (fl_disp f)\<lparr>nd_cooldown := cooldown_Sweep t (nd_cooldown (fl_disp f)), nd_backoff := b\<rparr>\<rparr>)"
    (is "fleet_ok workers window ?f'")
proof -
  have times: "worker_times v k ?f' = worker_times v k f" for v k by (simp add: worker_times_def)
  have "remembered (cooldown_Sweep t (nd_cooldown (fl_disp f))) t (k, u)" if "(v, k, u) \<in> set (fl_log f)" for v k u
    using ok that now w by (intro remembered_sweep[of _ "fl_now f"]) (auto simp: fleet_ok_def)
  moreover have "ts \<le> t" if "cc_last (cooldown_Sweep t (nd_cooldown (fl_disp f))) k = Some ts" for k ts
    using that fleet_ok_marked[OF ok _ now] by (auto simp: cooldown_Sweep_def Let_def split: option.splits if_splits)
  moreover have "u + window \<le> t" if "fl_phase f v = Sending dc eps flags" "\<not> dc_bypass dc" "u \<in> set (worker_times v (cooldown_key dc) f)" for v dc eps flags u
    using that fleet_ok_sending[OF ok _ _ _ now] by blast
  moreover have "cc_window (cooldown_Sweep t (nd_cooldown (fl_disp f))) = window" using ok by (simp add: cooldown_Sweep_def fleet_ok_def Let_def)
  ultimately show ?thesis using ok unfolding fleet_ok_def times by auto
qed

lemma fleet_step_ok:
  assumes "fleet_step workers f f'" "fleet_ok workers window f" "0 < window" "2 * window \<le> maxDuration"
  shows "fleet_ok workers window f'"
  using assms(1)
proof cases
  case (fl_drop w t dc reason d)
  then show ?thesis using gate_cooldown by (intro fleet_ok_frame[OF assms(2)]) auto
next
  case (fl_pass w t dc subs d)
  have old: "\<forall>u\<in>set (worker_times w (cooldown_key dc) f). u + window \<le> t" if "\<not> dc_bypass dc"
  proof
    fix u assume "u \<in> set (worker_times w (cooldown_key dc) f)"
    then have "remembered (nd_cooldown (fl_disp f)) (fl_now f) (cooldown_key dc, u)" using assms(2) by (auto simp: worker_times_def fleet_ok_def)
    then have "u + cc_window (nd_cooldown (fl_disp f)) \<le> t"
      using gate_passed[OF fl_pass(5) that] fl_pass(4) assms(2-4) by (intro unsuppressed_old) (auto simp: fleet_ok_def)
    then show "u + window \<le> t" using assms(2) by (simp add: fleet_ok_def)
  qed
  show ?thesis using fl_pass gate_cooldown old by (intro fleet_ok_frame[OF assms(2)]) (auto split: if_splits)
next
  case (fl_send w dc ep eps flags t1 t2 r flags' d)
  then show ?thesis using send_one_cooldown by (intro fleet_ok_frame[OF assms(2)]) (auto split: if_splits)
next
  case (fl_done w dc flags t reason d)
  show ?thesis
  proof (cases "reason = dropDelivered \<and> \<not> dc_bypass dc")
    case True
    then have "nd_cooldown d = cooldown_Mark t (cooldown_key dc) (nd_cooldown (fl_disp f))"
      using fl_done(5) by (auto simp: dispatch_finish_def on_metrics_def split: if_splits)
    then show ?thesis using fleet_ok_mark[OF assms(2) fl_done(2,3) _ fl_done(4)] True fl_done(1) by simp
  next
    case False
    then have "nd_cooldown d = nd_cooldown (fl_disp f)" using fl_done(5) by (auto simp: dispatch_finish_def on_metrics_def split: if_splits)
    then show ?thesis using fl_done False by (intro fleet_ok_frame[OF assms(2)]) (auto split: if_splits)
  qed
next
  case (fl_panic w)
  then show ?thesis by (intro fleet_ok_frame[OF assms(2)]) (auto split: if_splits)
next
  case (fl_test w clk send user reason d)
  then show ?thesis using dispatchTest_cooldown by (intro fleet_ok_frame[OF assms(2)]) auto
next
  case (fl_sweep t)
  then show ?thesis using fleet_ok_sweep[OF assms(2) _ assms(3,4)] by simp
next
  case (fl_store st)
  then show ?thesis by (intro fleet_ok_frame[OF assms(2)]) auto
qed

lemma fleet_reach_ok:
  assumes "fleet_reach workers window f" "0 < window" "2 * window \<le> maxDuration"
  shows "fleet_ok workers window f"
  using assms(1)
proof induction
  case (fleet_init f)
  then show ?case by (simp add: fleet_ok_def fleet_start_def NewCooldownCache_def worker_times_def)
next
  case (fleet_next f f')
  then show ?case using fleet_step_ok assms(2,3) by blast
qed

lemma length_by_worker:
  assumes "\<forall>e\<in>set xs. fst e < (n :: nat)"
  shows "length xs = (\<Sum>w<n. length (filter (\<lambda>e. fst e = w) xs))"
  using assms
proof (induction xs)
  case (Cons a xs)
  have "length (filter (\<lambda>e. fst e = w) (a # xs)) = (if w = fst a then 1 else 0) + length (filter (\<lambda>e. fst e = w) xs)" for w by simp
  moreover have "(\<Sum>w<n. if w = fst a then 1 else 0) = (1 :: nat)" using Cons.prems by (simp add: sum.delta)
  ultimately show ?case using Cons by (simp only: sum.distrib) simp
qed simp

lemma one_in_window:
  assumes "successively (\<lambda>t u. t + window \<le> u) ts" "0 < window" "\<forall>t\<in>set ts. since \<le> t \<and> t < since + (window :: int)"
  shows "length ts \<le> 1"
proof (cases ts)
  case (Cons t us)
  then show ?thesis using assms by (cases us) auto
qed simp


text \<open>Four workers: the first delivers, the others are suppressed until the window is over.\<close>

definition sample_dispatcher :: NotificationDispatcher where
  "sample_dispatcher =
     \<lparr>nd_store = \<lparr>ns_muted = (\<lambda>_. False), ns_enabled = (\<lambda>_ _ _. Some True), ns_subs = (\<lambda>_. Some [''https://push/1''])\<rparr>,
      nd_cooldown = NewCooldownCache 100, nd_backoff = NewCooldownCache 60,
      nd_metrics = \<lparr>EventsReceived = 0, EventsDropped = 0, EventsMuted = 0, EventsDisabled = 0, EventsCooldown = 0,
        EventsSent = 0, PushSendOK = 0, PushSend401 = 0, PushSend410 = 0, PushSend429 = 0, PushSendError = 0,
        PushSendTimeout = 0\<rparr>\<rparr>"

definition sample_fleet :: fleet where
  "sample_fleet = \<lparr>fl_disp = sample_dispatcher, fl_now = 0, fl_phase = (\<lambda>_. Idle), fl_log = []\<rparr>"

definition sample_call :: dispatch_call where
  "sample_call = \<lparr>dc_user = ''u'', dc_camera = ''c'', dc_label = ''person'', dc_identity = ''c:person'', dc_bypass = False\<rparr>"

definition sent_ok :: SendResult where
  "sent_ok = \<lparr>sr_Status = 201, sr_Err = False, sr_Timeout = False\<rparr>"

text \<open>The steps of one worker for a call, with the time of the step.\<close>

definition run_gate :: "nat \<Rightarrow> gotime \<Rightarrow> fleet \<Rightarrow> fleet" where
  "run_gate w t f =
     (case dispatch_gate t sample_call (fl_disp f) of
        (Inl _, d) \<Rightarrow> f\<lparr>fl_disp := d, fl_now := t\<rparr>
      | (Inr subs, d) \<Rightarrow> f\<lparr>fl_disp := d, fl_now := t, fl_phase := (fl_phase f)(w := Sending sample_call subs (False, False))\<rparr>)"

definition run_sends :: "nat \<Rightarrow> gotime \<Rightarrow> fleet \<Rightarrow> fleet" where
  "run_sends w t f =
     (case fl_phase f w of
        Sending dc [ep] flags \<Rightarrow>
          (case send_one t t sent_ok ep flags (fl_disp f) of (flags', d) \<Rightarrow>
             case dispatch_finish t dc flags' d of (reason, d') \<Rightarrow>
               f\<lparr>fl_disp := d', fl_now := t, fl_phase := (fl_phase f)(w := Idle),
                 fl_log := fl_log f @ (if reason = dropDelivered \<and> \<not> dc_bypass dc then [(w, cooldown_key dc, t)] else [])\<rparr>)
      | _ \<Rightarrow> f)"

lemma run_gate_reach:
  assumes "fleet_reach n window f" "w < n" "fl_phase f w = Idle" "fl_now f \<le> t"
  shows "fleet_reach n window (run_gate w t f)"
proof -
  obtain res d where g: "dispatch_gate t sample_call (fl_disp f) = (res, d)" by fastforce
  show ?thesis
  proof (cases res)
    case (Inl reason)
    then show ?thesis using fleet_next[OF assms(1) fl_drop[OF assms(2-4)]] g by (simp add: run_gate_def)
  next
    case (Inr subs)
    then show ?thesis using fleet_next[OF assms(1) fl_pass[OF assms(2-4)]] g by (simp add: run_gate_def)
  qed
qed

lemma run_sends_reach:
  assumes "fleet_reach n window f" "w < n" "fl_now f \<le> t" "fl_phase f w = Sending dc [ep] flags"
  shows "fleet_reach n window (run_sends w t f)"
proof -
  obtain flags' d where s: "send_one t t sent_ok ep flags (fl_disp f) = (flags', d)" by fastforce
  obtain reason d' where e: "dispatch_finish t dc flags' d = (reason, d')" by fastforce
  let ?f = "f\<lparr>fl_disp := d, fl_now := t, fl_phase := (fl_phase f)(w := Sending dc [] flags')\<rparr>"
  have "fleet_reach n window ?f" by (rule fleet_next[OF assms(1) fl_send[OF assms(2,4,3) order_refl s]])
  from fleet_next[OF this fl_done[OF assms(2), of ?f dc flags' t reason d']] show ?thesis
    using s e assms(4) by (simp add: run_sends_def)
qed

definition alone :: fleet where
  "alone = run_sends 1 101 (run_gate 1 101 (run_gate 1 50 (run_sends 0 1 (run_gate 0 1 sample_fleet))))"

definition together :: fleet where
  "together = run_sends 1 2 (run_sends 0 2 (run_gate 1 1 (run_gate 0 1 sample_fleet)))"

lemma sample_fleet_reach: "fleet_reach 4 100 sample_fleet"
  by (rule fleet_init) (simp add: fleet_start_def sample_fleet_def sample_dispatcher_def)

lemmas fleet_eval = alone_def together_def run_gate_def run_sends_def sample_fleet_def sample_dispatcher_def sample_call_def dispatch_gate_def send_one_def
  dispatch_finish_def cooldown_Check_def cooldown_Mark_def NewCooldownCache_def after_send_def recordResult_def on_metrics_def success_def sent_ok_def
  cooldown_key_def Let_def tsub_def duration_limits

lemma alone_reach: "fleet_reach 4 100 alone"
  unfolding alone_def
  by (intro run_sends_reach[where dc = sample_call and ep = "''https://push/1''" and flags = "(False, False)"] run_gate_reach sample_fleet_reach)
    (simp_all add: fleet_eval)

lemma together_reach: "fleet_reach 4 100 together"
  unfolding together_def
  by (intro run_sends_reach[where dc = sample_call and ep = "''https://push/1''" and flags = "(False, False)"] run_gate_reach sample_fleet_reach)
    (simp_all add: fleet_eval)

lemma alone_log: "fl_log alone = [(0, ''u:c:person'', 1), (1, ''u:c:person'', 101)]"
  by (simp add: fleet_eval)


text \<open>
  The check and the mark are not one step: two workers that handle two events of one identity at the same time both deliver.
\<close>

theorem two_deliveries_in_window:
  "fleet_reach 4 100 together \<and> fl_log together = [(0, ''u:c:person'', 2), (1, ''u:c:person'', 2)]"
  using together_reach by (simp add: fleet_eval)

section \<open>Fanout\<close>

text \<open>
  Every provider either takes a job or refuses it; \<open>answers\<close> is what each would answer if asked.
  The result also says which providers accepted the job in this call.
\<close>

record Fanout =
  fo_providers :: nat
  fo_pending :: "string \<rightharpoonup> bool list"

fun fan_loop :: "bool list \<Rightarrow> bool list \<Rightarrow> bool \<Rightarrow> bool list \<times> bool list \<times> bool" where
  "fan_loop (a # accepted) (ans # answers) complete =
     (let a' = (if a then a else ans)
      in case fan_loop accepted answers (complete \<and> a') of (rest, news, c) \<Rightarrow>
           (a' # rest, (\<not> a \<and> ans) # news, c))"
| "fan_loop _ _ complete = ([], [], complete)"

definition fan_enqueue :: "string \<Rightarrow> bool list \<Rightarrow> Fanout \<Rightarrow> bool \<times> bool list \<times> Fanout" where
  "fan_enqueue key answers f =
     (let accepted = (case fo_pending f key of Some acc \<Rightarrow> acc | None \<Rightarrow> replicate (fo_providers f) False)
      in case fan_loop accepted answers True of (acc', news, complete) \<Rightarrow>
           (complete, news,
            f\<lparr>fo_pending := (if complete then (fo_pending f)(key := None) else (fo_pending f)(key \<mapsto> acc'))\<rparr>))"

definition fan_EnqueueActivity :: "string \<Rightarrow> bool list \<Rightarrow> Fanout \<Rightarrow> bool \<times> bool list \<times> Fanout" where
  "fan_EnqueueActivity activityID answers f = fan_enqueue activityID answers f"

text \<open>A provider without \<^verbatim>\<open>EnqueueCry\<close> counts as having accepted.\<close>

definition fan_EnqueueCry :: "bool list \<Rightarrow> string \<Rightarrow> bool list \<Rightarrow> Fanout \<Rightarrow> bool \<times> bool list \<times> Fanout" where
  "fan_EnqueueCry supports eventID answers f =
     fan_enqueue (''cry:'' @ eventID) (map2 (\<lambda>sup ans. \<not> sup \<or> ans) supports answers) f"

definition fan_ReleaseCry :: "string \<Rightarrow> Fanout \<Rightarrow> Fanout" where
  "fan_ReleaseCry eventID f = f\<lparr>fo_pending := (fo_pending f)(''cry:'' @ eventID := None)\<rparr>"

text \<open>The retries of one activity: what every call accepted, and whether the last one completed it.\<close>

fun fan_retries :: "string \<Rightarrow> bool list list \<Rightarrow> Fanout \<Rightarrow> bool \<times> bool list list \<times> Fanout" where
  "fan_retries key [] f = (False, [], f)"
| "fan_retries key (answers # more_answers) f =
     (case fan_EnqueueActivity key answers f of (complete, news, f1) \<Rightarrow>
        if complete then (True, [news], f1)
        else case fan_retries key more_answers f1 of (c, newss, f2) \<Rightarrow> (c, news # newss, f2))"

lemma fan_loop_spec:
  "length accepted = length answers \<Longrightarrow> fan_loop accepted answers c = (acc', news, c') \<Longrightarrow>
     length acc' = length accepted \<and> length news = length accepted \<and>
     (\<forall>i<length accepted. (acc' ! i \<longleftrightarrow> accepted ! i \<or> news ! i) \<and> \<not> (accepted ! i \<and> news ! i)) \<and>
     (c' \<longleftrightarrow> c \<and> (\<forall>i<length accepted. acc' ! i))"
proof (induction accepted answers c arbitrary: acc' news c' rule: fan_loop.induct)
  case (1 a accepted ans answers complete)
  obtain rest ns cc where r: "fan_loop accepted answers (complete \<and> (if a then a else ans)) = (rest, ns, cc)"
    by (metis prod_cases3)
  have IH: "length rest = length accepted \<and> length ns = length accepted \<and>
     (\<forall>i<length accepted. (rest ! i \<longleftrightarrow> accepted ! i \<or> ns ! i) \<and> \<not> (accepted ! i \<and> ns ! i)) \<and>
     (cc \<longleftrightarrow> (complete \<and> (if a then a else ans)) \<and> (\<forall>i<length accepted. rest ! i))"
    using "1.IH"[OF refl _ r] "1.prems"(1) by simp
  have e: "acc' = (if a then a else ans) # rest" "news = (\<not> a \<and> ans) # ns" "c' = cc"
    using "1.prems"(2) r by (auto simp: Let_def)
  show ?case using IH unfolding e by (auto simp: nth_Cons less_Suc_eq_0_disj split: nat.splits if_splits)
qed auto

definition accepts :: "nat \<Rightarrow> bool list list \<Rightarrow> nat" where
  "accepts i newss = length (filter (\<lambda>news. news ! i) newss)"

lemma fan_retries_count:
  assumes "\<forall>answers\<in>set anss. length answers = fo_providers f"
    and "length (case fo_pending f key of Some acc \<Rightarrow> acc | None \<Rightarrow> replicate (fo_providers f) False) = fo_providers f"
    and "i < fo_providers f" and "fan_retries key anss f = (c, newss, f')"
  shows "(if (case fo_pending f key of Some acc \<Rightarrow> acc | None \<Rightarrow> replicate (fo_providers f) False) ! i then 1 else 0)
       + accepts i newss \<le> 1 \<and>
     (c \<longrightarrow> (if (case fo_pending f key of Some acc \<Rightarrow> acc | None \<Rightarrow> replicate (fo_providers f) False) ! i then 1 else 0)
       + accepts i newss = 1 \<and> fo_pending f' key = None)"
  using assms
proof (induction key anss f arbitrary: c newss f' rule: fan_retries.induct)
  case (1 key f)
  then show ?case by (simp add: accepts_def)
next
  case (2 key answers anss f)
  define acc where "acc = (case fo_pending f key of Some acc \<Rightarrow> acc | None \<Rightarrow> replicate (fo_providers f) False)"
  obtain acc' news comp where l: "fan_loop acc answers True = (acc', news, comp)" by (metis prod_cases3)
  have len: "length acc = length answers" "length acc = fo_providers f" using "2.prems" by (simp_all add: acc_def)
  note sp = fan_loop_spec[OF len(1) l]
  define f1 where "f1 = f\<lparr>fo_pending := (if comp then (fo_pending f)(key := None) else (fo_pending f)(key \<mapsto> acc'))\<rparr>"
  have enq: "fan_EnqueueActivity key answers f = (comp, news, f1)"
    using l by (simp add: fan_EnqueueActivity_def fan_enqueue_def acc_def f1_def Let_def)
  show ?case
  proof (cases comp)
    case True
    then have "newss = [news]" "f' = f1" "c" using "2.prems"(4) enq by simp_all
    then show ?thesis using sp True "2.prems"(3) len(2) unfolding acc_def[symmetric] by (auto simp: accepts_def f1_def)
  next
    case False
    obtain newss1 where r: "fan_retries key anss f1 = (c, newss1, f')" "newss = news # newss1"
      using "2.prems"(4) enq False by (auto split: prod.splits)
    have "fo_pending f1 key = Some acc'" "fo_providers f1 = fo_providers f" using False by (simp_all add: f1_def)
    then have "(if acc' ! i then 1 else 0) + accepts i newss1 \<le> 1 \<and>
       (c \<longrightarrow> (if acc' ! i then 1 else 0) + accepts i newss1 = 1 \<and> fo_pending f' key = None)"
      using "2.IH"[OF enq[symmetric] refl False _ _ _ r(1)] "2.prems"(1,3) sp len(2) by simp
    then show ?thesis using sp r(2) "2.prems"(3) len(2) unfolding acc_def[symmetric]
      by (auto simp: accepts_def split: if_splits)
  qed
qed

text \<open>
  Retrying an activity never duplicates it: over all the calls until every provider has taken
  the job, each provider accepts it at most once, and exactly once when the fan-out reports
  completion; the bookkeeping for it is gone then.
\<close>

theorem fanout_delivers_once:
  assumes "\<forall>answers\<in>set anss. length answers = fo_providers f" and "fo_pending f key = None"
    and "i < fo_providers f" and "fan_retries key anss f = (c, newss, f')"
  shows "accepts i newss \<le> 1 \<and> (c \<longrightarrow> accepts i newss = 1 \<and> fo_pending f' key = None)"
  using fan_retries_count[OF assms(1) _ assms(3,4)] assms(2,3) by simp

theorem fanout_delivers_once_witness:
  "let r = fan_retries ''a'' [[True, False], [True, False], [False, True]] \<lparr>fo_providers = 2, fo_pending = Map.empty\<rparr>
   in fst r \<and> accepts 0 (fst (snd r)) = 1 \<and> accepts 1 (fst (snd r)) = 1"
proof -
  let ?f = "\<lparr>fo_providers = 2, fo_pending = Map.empty\<rparr>"
  obtain newss f' where r: "fan_retries ''a'' [[True, False], [True, False], [False, True]] ?f = (True, newss, f')"
    by (simp add: fan_EnqueueActivity_def fan_enqueue_def numeral_2_eq_2 Let_def)
  show ?thesis
    unfolding Let_def r
    using fanout_delivers_once[of "[[True, False], [True, False], [False, True]]" ?f "''a''" 0, OF _ _ _ r]
      fanout_delivers_once[of "[[True, False], [True, False], [False, True]]" ?f "''a''" 1, OF _ _ _ r]
    by simp
qed


section \<open>SnapshotSigner\<close>

text \<open>
  \<open>mac\<close> is the base64 text of the HMAC under the signer's key.  \<^verbatim>\<open>Unix\<close> counts seconds since 1970,
  62135596800 seconds after Go's zero time.
\<close>

definition SnapshotURLTTL :: duration where
  "SnapshotURLTTL = 24 * Hour"

definition unix :: "gotime \<Rightarrow> int" where
  "unix t = t div Second - 62135596800"

definition computeMAC :: "(string \<Rightarrow> string) \<Rightarrow> string \<Rightarrow> int \<Rightarrow> string" where
  "computeMAC mac eventID exp = mac (eventID @ ''|'' @ format_int exp)"

text \<open>\<^verbatim>\<open>Sign\<close>: the expiry and the signature that go into the query of the URL.\<close>

definition Sign :: "(string \<Rightarrow> string) \<Rightarrow> gotime \<Rightarrow> string \<Rightarrow> string \<times> string" where
  "Sign mac now eventID =
     (let exp = unix (tadd now SnapshotURLTTL) in (format_int exp, computeMAC mac eventID exp))"

datatype verify_error = ErrInvalidExpiry | ErrExpired | ErrBadSignature

definition Verify :: "(string \<Rightarrow> string) \<Rightarrow> gotime \<Rightarrow> string \<Rightarrow> string \<Rightarrow> string \<Rightarrow> verify_error + unit" where
  "Verify mac now eventID expStr sig =
     (case ParseInt expStr of
        None \<Rightarrow> Inl ErrInvalidExpiry
      | Some exp \<Rightarrow>
          if unix now > exp then Inl ErrExpired
          else if computeMAC mac eventID exp \<noteq> sig then Inl ErrBadSignature
          else Inr ())"

lemma format_int_no_bar: "CHR ''|'' \<notin> set (format_int x)"
  using digits_are_digits[of "CHR ''|''"] by (auto simp: format_int_def is_digit_def)

lemma last_bar_unique:
  assumes "a @ ''|'' @ x = b @ ''|'' @ y" and "CHR ''|'' \<notin> set x" and "CHR ''|'' \<notin> set y"
  shows "a = b \<and> x = y"
proof -
  have "rev x @ CHR ''|'' # rev a = rev y @ CHR ''|'' # rev b"
    using arg_cong[OF assms(1), of rev] by simp
  moreover have "takeWhile (\<lambda>c. c \<noteq> CHR ''|'') (rev z @ CHR ''|'' # t) = rev z" if "CHR ''|'' \<notin> set z" for z t
    using that by (subst takeWhile_append2) auto
  ultimately have "rev x = rev y" using assms(2,3) by metis
  then show ?thesis using assms(1) by simp
qed

lemma format_int_inj: "format_int x = format_int y \<Longrightarrow> in64 x \<Longrightarrow> in64 y \<Longrightarrow> x = y"
  by (metis ParseInt_format option.inject)

lemma ParseInt_in64: "ParseInt s = Some x \<Longrightarrow> in64 x"
  by (auto simp: ParseInt_def Let_def split: option.splits if_splits prod.splits)

text \<open>
  A signed thumbnail URL is good for its event for 24 hours and for nothing else: the signer
  accepts exactly what it signed until the expiry second has passed, and if it ever accepts the
  signature for another event or another expiry, then two different messages have the same MAC.
\<close>

theorem snapshot_url_signing:
  assumes "Sign mac now eventID = (expStr, sig)" and "in64 (unix (tadd now SnapshotURLTTL))"
  shows "(Verify mac later eventID expStr sig = Inr () \<longleftrightarrow> unix later \<le> unix (tadd now SnapshotURLTTL)) \<and>
     (Verify mac later eventID' expStr' sig = Inr () \<and>
        (eventID' \<noteq> eventID \<or> ParseInt expStr' \<noteq> ParseInt expStr)
      \<longrightarrow> (\<exists>m1 m2. m1 \<noteq> m2 \<and> mac m1 = mac m2))"
proof (intro conjI impI)
  let ?exp = "unix (tadd now SnapshotURLTTL)"
  have e: "expStr = format_int ?exp" "sig = computeMAC mac eventID ?exp"
    using assms(1) by (simp_all add: Sign_def Let_def)
  have p: "ParseInt expStr = Some ?exp" using assms(2) e(1) by (simp add: ParseInt_format)
  show "Verify mac later eventID expStr sig = Inr () \<longleftrightarrow> unix later \<le> ?exp"
    by (simp add: Verify_def p e(2))
  assume v: "Verify mac later eventID' expStr' sig = Inr () \<and>
        (eventID' \<noteq> eventID \<or> ParseInt expStr' \<noteq> ParseInt expStr)"
  then obtain exp' where p': "ParseInt expStr' = Some exp'" and m: "computeMAC mac eventID' exp' = sig"
    by (auto simp: Verify_def split: option.splits if_splits)
  have "eventID' @ ''|'' @ format_int exp' \<noteq> eventID @ ''|'' @ format_int ?exp"
  proof
    assume "eventID' @ ''|'' @ format_int exp' = eventID @ ''|'' @ format_int ?exp"
    then have "eventID' = eventID" "format_int exp' = format_int ?exp"
      using last_bar_unique format_int_no_bar by blast+
    then show False using v p p' format_int_inj[OF _ ParseInt_in64[OF p'] assms(2)] by auto
  qed
  then show "\<exists>m1 m2. m1 \<noteq> m2 \<and> mac m1 = mac m2"
    using m e(2) unfolding computeMAC_def by metis
qed

theorem snapshot_url_signing_witness:
  "Verify id 63000000000000000000 ''ev1'' (fst (Sign id 63000000000000000000 ''ev1'')) (snd (Sign id 63000000000000000000 ''ev1'')) = Inr ()"
proof -
  have b: "in64 (unix (tadd 63000000000000000000 SnapshotURLTTL))"
    by (simp add: in64_def unix_def SnapshotURLTTL_def time_simps)
  from snapshot_url_signing[OF prod.collapse[symmetric] b, where mac = id and later = 63000000000000000000]
  show ?thesis by (simp add: unix_def SnapshotURLTTL_def time_simps)
qed

end
