(* ===== verification/Go_Float.thy ===== *)
theory Go_Float
  imports Complex_Main "HOL-Library.Log_Nat" Go_Prelude
begin

text \<open>
  \<^verbatim>\<open>float64\<close> arithmetic as the sources use it on pixel coordinates, areas and ratios: every operation
  is the exact rational result rounded to the nearest value with 53 significant bits, ties to
  even.  The magnitudes that occur (quotients and products of a few 64-bit integers) are far
  from overflow and underflow, and no operation here divides by zero, so infinities, NaN and
  subnormal numbers do not arise.
\<close>

type_synonym float64 = rat

text \<open>\<open>2 ^ e\<close> for an integer \<open>e\<close>.\<close>

definition pow2 :: "int \<Rightarrow> rat" where
  "pow2 e = (if 0 \<le> e then 2 ^ nat e else 1 / 2 ^ nat (- e))"

text \<open>The exponent \<open>e\<close> with \<open>2 ^ e \<le> x < 2 ^ (e + 1)\<close>, for positive \<open>x\<close>.\<close>

definition exponent :: "rat \<Rightarrow> int" where
  "exponent x =
     (let (p, q) = quotient_of x;
          d = bitlen p - bitlen q
      in if pow2 d \<le> x then d else d - 1)"

definition round_even :: "rat \<Rightarrow> int" where
  "round_even y =
     (let f = \<lfloor>y\<rfloor>; r = y - of_int f
      in if r < 1 / 2 then f else if r > 1 / 2 then f + 1 else if even f then f else f + 1)"

definition fl64 :: "rat \<Rightarrow> float64" where
  "fl64 x =
     (if x = 0 then 0
      else let u = pow2 (exponent \<bar>x\<bar> - 52) in of_int (round_even (x / u)) * u)"

definition fadd :: "float64 \<Rightarrow> float64 \<Rightarrow> float64" where "fadd x y = fl64 (x + y)"
definition fsub :: "float64 \<Rightarrow> float64 \<Rightarrow> float64" where "fsub x y = fl64 (x - y)"
definition fmul :: "float64 \<Rightarrow> float64 \<Rightarrow> float64" where "fmul x y = fl64 (x * y)"
definition fdiv :: "float64 \<Rightarrow> float64 \<Rightarrow> float64" where "fdiv x y = fl64 (x / y)"

definition float_of_int :: "int \<Rightarrow> float64" where
  "float_of_int x = fl64 (of_int x)"

text \<open>The integer square root, and \<^verbatim>\<open>math.Sqrt\<close>, which is correctly rounded.\<close>

function isqrt :: "int \<Rightarrow> int" where
  "isqrt n = (if n \<le> 0 then 0 else let r = 2 * isqrt (n div 4) in if (r + 1) ^ 2 \<le> n then r + 1 else r)"
  by pat_completeness auto
termination by (relation "measure nat") auto

declare isqrt.simps [simp del]

definition fsqrt :: "float64 \<Rightarrow> float64" where
  "fsqrt x =
     (if x \<le> 0 then 0
      else
        let k = nat (60 - exponent x div 2);
            y = x * 4 ^ k;
            s = isqrt \<lfloor>y\<rfloor>;
            v = (if of_int (s ^ 2) = y then of_int s else of_int s + 1 / 2)
        in fl64 (v / 2 ^ k))"

lemma isqrt_bounds: "0 \<le> n \<Longrightarrow> 0 \<le> isqrt n \<and> isqrt n ^ 2 \<le> n \<and> n < (isqrt n + 1) ^ 2"
proof (induction n rule: isqrt.induct)
  case (1 n)
  show ?case
  proof (cases "n = 0")
    case True
    then show ?thesis by (simp add: isqrt.simps)
  next
    case False
    then have pos: "\<not> n \<le> 0" using "1.prems" by simp
    define r where "r = isqrt (n div 4)"
    have IH: "0 \<le> r" "r ^ 2 \<le> n div 4" "n div 4 < (r + 1) ^ 2" using "1.IH"[OF pos] pos by (simp_all add: r_def)
    have n: "4 * (n div 4) \<le> n" "n < 4 * (n div 4) + 4" by auto
    have lo: "(2 * r) ^ 2 \<le> n" using IH(2) n(1) by (simp add: power2_eq_square)
    have "n div 4 + 1 \<le> (r + 1) ^ 2" using IH(3) by simp
    then have hi: "n < (2 * r + 2) ^ 2" using n(2) by (simp add: power2_eq_square algebra_simps)
    have eq: "isqrt n = (if (2 * r + 1) ^ 2 \<le> n then 2 * r + 1 else 2 * r)"
      using pos by (subst isqrt.simps) (simp add: r_def Let_def)
    show ?thesis unfolding eq using lo hi IH(1) by (auto simp: add.commute)
  qed
qed

lemma fl64_0 [simp]: "fl64 0 = 0"
  by (simp add: fl64_def)

lemma pow2_pos [simp]: "0 < pow2 e"
  by (simp add: pow2_def)

lemma round_even_nonneg: "0 \<le> y \<Longrightarrow> 0 \<le> round_even y"
  by (auto simp: round_even_def Let_def)

lemma round_even_nonpos: "y \<le> 0 \<Longrightarrow> round_even y \<le> 0"
proof -
  assume y: "y \<le> 0"
  have f: "\<lfloor>y\<rfloor> \<le> 0" using y by (simp add: floor_le_iff)
  have "\<lfloor>y\<rfloor> = 0 \<Longrightarrow> y = 0" using y by (simp add: floor_eq_iff)
  then show ?thesis using f by (cases "\<lfloor>y\<rfloor> = 0") (auto simp: round_even_def Let_def)
qed

lemma fl64_nonneg: "0 \<le> x \<Longrightarrow> 0 \<le> fl64 x"
  by (simp add: fl64_def Let_def round_even_nonneg less_imp_le)

lemma fl64_nonpos: "x \<le> 0 \<Longrightarrow> fl64 x \<le> 0"
  by (simp add: fl64_def Let_def mult_nonpos_nonneg round_even_nonpos divide_nonpos_pos less_imp_le)

end
