(* ===== verification/Tracker.thy ===== *)
theory Tracker
  imports Go_Float
begin

text \<open>
  Object tracking: \<^verbatim>\<open>internal/detect/tracker.go\<close> and the non-maximum suppression of
  \<^verbatim>\<open>internal/detect/yolo.go\<close>.  Boxes are pixel coordinates; \<^verbatim>\<open>sort.Slice\<close> is not stable, so the
  order it leaves among equal elements is open: the operations take the sorting function as an
  argument, and the locale \<open>slice_sort\<close> states what \<^verbatim>\<open>sort.Slice\<close> promises of it.
\<close>

section \<open>Boxes\<close>

type_synonym box = "int \<times> int \<times> int \<times> int"

fun iou :: "box \<Rightarrow> box \<Rightarrow> float64" where
  "iou (a0, a1, a2, a3) (b0, b1, b2, b3) =
     (let x1 = max (float_of_int a0) (float_of_int b0);
          y1 = max (float_of_int a1) (float_of_int b1);
          x2 = min (float_of_int a2) (float_of_int b2);
          y2 = min (float_of_int a3) (float_of_int b3);
          intersection = fmul (max 0 (fsub x2 x1)) (max 0 (fsub y2 y1));
          areaA = fmul (float_of_int (a2 - a0)) (float_of_int (a3 - a1));
          areaB = fmul (float_of_int (b2 - b0)) (float_of_int (b3 - b1));
          union = fsub (fadd areaA areaB) intersection
      in if union = 0 then 0 else fdiv intersection union)"

fun centroidDistance :: "box \<Rightarrow> box \<Rightarrow> float64" where
  "centroidDistance (a0, a1, a2, a3) (b0, b1, b2, b3) =
     (let cx1 = fdiv (float_of_int (a0 + a2)) 2;
          cy1 = fdiv (float_of_int (a1 + a3)) 2;
          cx2 = fdiv (float_of_int (b0 + b2)) 2;
          cy2 = fdiv (float_of_int (b1 + b3)) 2;
          dx = fsub cx1 cx2;
          dy = fsub cy1 cy2
      in fsqrt (fadd (fmul dx dx) (fmul dy dy)))"

fun box_dim :: "box \<Rightarrow> float64" where
  "box_dim (b0, b1, b2, b3) = max (float_of_int (b2 - b0)) (float_of_int (b3 - b1))"

section \<open>Data\<close>

datatype TrackState = TrackTentative | TrackConfirmed | TrackDeleted

record Detection =
  dt_Label :: string
  dt_Score :: rat
  dt_Box :: box

record track =
  tr_id :: int
  tr_label :: string
  tr_box :: box
  prevBox :: box
  tr_score :: rat
  tr_age :: int
  hits :: int
  disappeared :: int
  tr_state :: TrackState
  birthBox :: box
  moved :: bool
  stationaryHits :: int
  stationaryAnchor :: box
  hasStationaryAnchor :: bool
  lastWasStationary :: bool

record Tracker =
  maxDisappeared :: int
  stationaryMaxDisappeared :: int
  minHits :: int
  stationaryThreshold :: int
  stationaryIoU :: float64
  stationaryDriftRatio :: float64
  nextID :: int
  tracks :: "track list"

record TrackedObject =
  to_TrackID :: int
  to_Label :: string
  to_Score :: rat
  to_Box :: box
  to_State :: TrackState
  to_FramesSeen :: int
  to_Moved :: bool
  to_Detected :: bool

definition defaultMovedRatio :: float64 where
  "defaultMovedRatio = fl64 (15 / 100)"

definition NewTrackerWithStationary ::
  "int \<Rightarrow> int \<Rightarrow> int \<Rightarrow> int \<Rightarrow> float64 \<Rightarrow> float64 \<Rightarrow> Tracker" where
  "NewTrackerWithStationary maxDis minH statMax statThreshold statIoU statDrift =
     \<lparr>maxDisappeared = maxDis, stationaryMaxDisappeared = statMax, minHits = minH,
      stationaryThreshold = statThreshold, stationaryIoU = statIoU, stationaryDriftRatio = statDrift,
      nextID = 1, tracks = []\<rparr>"

definition NewTracker :: "int \<Rightarrow> int \<Rightarrow> Tracker" where
  "NewTracker maxDis minH = NewTrackerWithStationary maxDis minH (maxDis * 50) 10 (fl64 (1 / 2)) (fl64 (3 / 10))"

section \<open>Operations\<close>

definition effectiveMaxDisappeared :: "Tracker \<Rightarrow> track \<Rightarrow> int" where
  "effectiveMaxDisappeared t tr = (if lastWasStationary tr then stationaryMaxDisappeared t else maxDisappeared t)"

definition newTrack :: "Tracker \<Rightarrow> Detection \<Rightarrow> track \<times> Tracker" where
  "newTrack t d =
     (\<lparr>tr_id = nextID t, tr_label = dt_Label d, tr_box = dt_Box d, prevBox = dt_Box d, tr_score = dt_Score d,
       tr_age = 1, hits = 1, disappeared = 0, tr_state = (if 1 \<ge> minHits t then TrackConfirmed else TrackTentative),
       birthBox = dt_Box d, moved = False, stationaryHits = 0, stationaryAnchor = (0, 0, 0, 0),
       hasStationaryAnchor = False, lastWasStationary = False\<rparr>,
      t\<lparr>nextID := nextID t + 1\<rparr>)"

text \<open>\<^verbatim>\<open>applyMatch\<close>: the stationarity streak first, then the matched detection.\<close>

definition stationary_streak :: "Tracker \<Rightarrow> Detection \<Rightarrow> track \<Rightarrow> track" where
  "stationary_streak t d tr =
     (if iou (prevBox tr) (dt_Box d) > stationaryIoU t then
        let tr1 = (if \<not> hasStationaryAnchor tr
                   then tr\<lparr>stationaryAnchor := prevBox tr, hasStationaryAnchor := True, stationaryHits := 0\<rparr>
                   else tr);
            drift = centroidDistance (stationaryAnchor tr1) (dt_Box d);
            boxDim = box_dim (dt_Box d)
        in if boxDim \<le> 0 \<or> drift > fmul (stationaryDriftRatio t) boxDim
           then tr1\<lparr>stationaryHits := 0, hasStationaryAnchor := False\<rparr>
           else tr1\<lparr>stationaryHits := stationaryHits tr1 + 1\<rparr>
      else tr\<lparr>stationaryHits := 0, hasStationaryAnchor := False\<rparr>)"

definition applyMatch :: "Tracker \<Rightarrow> Detection \<Rightarrow> track \<Rightarrow> track" where
  "applyMatch t d tr =
     (let tr1 = stationary_streak t d tr;
          tr2 = tr1\<lparr>lastWasStationary := (stationaryHits tr1 \<ge> stationaryThreshold t), tr_box := dt_Box d\<rparr>;
          boxDim = box_dim (dt_Box d);
          tr3 = (if \<not> moved tr2 \<and> boxDim > 0 \<and>
                    centroidDistance (birthBox tr2) (dt_Box d) > fmul defaultMovedRatio boxDim
                 then tr2\<lparr>moved := True\<rparr> else tr2);
          tr4 = tr3\<lparr>prevBox := dt_Box d, tr_score := dt_Score d, tr_label := dt_Label d, hits := hits tr3 + 1,
                    disappeared := 0\<rparr>
      in if tr_state tr4 = TrackTentative \<and> hits tr4 \<ge> minHits t then tr4\<lparr>tr_state := TrackConfirmed\<rparr> else tr4)"

definition miss :: "Tracker \<Rightarrow> track \<Rightarrow> track" where
  "miss t tr =
     (let tr1 = tr\<lparr>disappeared := disappeared tr + 1\<rparr>
      in if disappeared tr1 > effectiveMaxDisappeared t tr1 then tr1\<lparr>tr_state := TrackDeleted\<rparr> else tr1)"

fun new_tracks :: "Detection list \<Rightarrow> Tracker \<Rightarrow> Tracker" where
  "new_tracks [] t = t"
| "new_tracks (d # ds) t = (case newTrack t d of (tr, t1) \<Rightarrow> new_tracks ds (t1\<lparr>tracks := tracks t1 @ [tr]\<rparr>))"

text \<open>A candidate pair: track index, detection index, IoU.\<close>

type_synonym assignment = "nat \<times> nat \<times> float64"

definition candidate_pairs :: "track list \<Rightarrow> Detection list \<Rightarrow> assignment list" where
  "candidate_pairs trs ds =
     concat (map (\<lambda>ti. concat (map (\<lambda>di.
       let v = iou (tr_box (trs ! ti)) (dt_Box (ds ! di)) in if v > 0 then [(ti, di, v)] else []) [0..<length ds]))
       [0..<length trs])"

fun greedy :: "assignment list \<Rightarrow> (nat \<times> nat) list \<Rightarrow> (nat \<times> nat) list" where
  "greedy [] matched = matched"
| "greedy ((ti, di, v) # ps) matched =
     (if ti \<in> fst ` set matched \<or> di \<in> snd ` set matched then greedy ps matched
      else greedy ps (matched @ [(ti, di)]))"

definition matching ::
  "(assignment list \<Rightarrow> assignment list) \<Rightarrow> track list \<Rightarrow> Detection list \<Rightarrow> (nat \<times> nat) list" where
  "matching srt trs ds = greedy (srt (candidate_pairs trs ds)) []"

fun apply_matches :: "Tracker \<Rightarrow> Detection list \<Rightarrow> (nat \<times> nat) list \<Rightarrow> track list \<Rightarrow> track list" where
  "apply_matches t ds [] trs = trs"
| "apply_matches t ds ((ti, di) # ms) trs = apply_matches t ds ms (trs[ti := applyMatch t (ds ! di) (trs ! ti)])"

definition confirmedObjects :: "Tracker \<Rightarrow> TrackedObject list" where
  "confirmedObjects t = map (\<lambda>tr.
     \<lparr>to_TrackID = tr_id tr, to_Label = tr_label tr, to_Score = tr_score tr, to_Box = tr_box tr,
      to_State = tr_state tr, to_FramesSeen = hits tr, to_Moved = moved tr, to_Detected = (disappeared tr = 0)\<rparr>)
     (filter (\<lambda>tr. tr_state tr = TrackConfirmed) (tracks t))"

definition DeletedTracks :: "Tracker \<Rightarrow> TrackedObject list" where
  "DeletedTracks t = map (\<lambda>tr.
     \<lparr>to_TrackID = tr_id tr, to_Label = tr_label tr, to_Score = tr_score tr, to_Box = tr_box tr,
      to_State = TrackDeleted, to_FramesSeen = hits tr, to_Moved = False, to_Detected = False\<rparr>)
     (filter (\<lambda>tr. tr_state tr = TrackDeleted) (tracks t))"

definition HasStationaryConfirmed :: "Tracker \<Rightarrow> bool" where
  "HasStationaryConfirmed t = list_ex (\<lambda>tr. tr_state tr = TrackConfirmed \<and> lastWasStationary tr) (tracks t)"

text \<open>\<^verbatim>\<open>Update\<close>: drop the deleted tracks and age the others, then match.\<close>

definition aged :: "Tracker \<Rightarrow> track list" where
  "aged t = map (\<lambda>tr. tr\<lparr>tr_age := tr_age tr + 1\<rparr>) (filter (\<lambda>tr. tr_state tr \<noteq> TrackDeleted) (tracks t))"

definition tracker_Update ::
  "(assignment list \<Rightarrow> assignment list) \<Rightarrow> Detection list \<Rightarrow> Tracker \<Rightarrow> TrackedObject list \<times> Tracker" where
  "tracker_Update srt ds t0 =
     (let t = t0\<lparr>tracks := aged t0\<rparr>;
          t' = (if tracks t = [] then new_tracks ds t
                else if ds = [] then t\<lparr>tracks := map (miss t) (tracks t)\<rparr>
                else
                  let ms = matching srt (tracks t) ds;
                      trs = apply_matches t ds ms (tracks t);
                      trs' = map (\<lambda>ti. if ti \<in> fst ` set ms then trs ! ti else miss t (trs ! ti)) [0..<length trs];
                      fresh = map (\<lambda>di. ds ! di) (filter (\<lambda>di. di \<notin> snd ` set ms) [0..<length ds])
                  in new_tracks fresh (t\<lparr>tracks := trs'\<rparr>))
      in (confirmedObjects t', t'))"

section \<open>What sort.Slice promises\<close>

locale slice_sort =
  fixes before :: "'a \<Rightarrow> 'a \<Rightarrow> bool"
    and srt :: "'a list \<Rightarrow> 'a list"
  assumes srt_mset: "mset (srt xs) = mset xs"
    and srt_sorted: "i < j \<Longrightarrow> j < length (srt xs) \<Longrightarrow> \<not> before (srt xs ! j) (srt xs ! i)"
begin

lemma srt_set: "set (srt xs) = set xs"
  using srt_mset[of xs] by (metis set_mset_mset)

lemma srt_length: "length (srt xs) = length xs"
  using srt_mset[of xs] by (rule mset_eq_length)

end

definition by_iou :: "assignment \<Rightarrow> assignment \<Rightarrow> bool" where
  "by_iou p q \<longleftrightarrow> snd (snd p) > snd (snd q)"

definition sort_iou :: "assignment list \<Rightarrow> assignment list" where
  "sort_iou ps = sort_key (\<lambda>p. - snd (snd p)) ps"

interpretation iou_order: slice_sort by_iou sort_iou
proof
  show "mset (sort_iou xs) = mset xs" for xs by (simp add: sort_iou_def)
  show "\<not> by_iou (sort_iou xs ! j) (sort_iou xs ! i)" if "i < j" "j < length (sort_iou xs)" for i j xs
  proof -
    have "sorted (map (\<lambda>p. - snd (snd p)) (sort_iou xs))" by (simp add: sort_iou_def)
    from sorted_nth_mono[OF this, of i j] that show ?thesis by (simp add: by_iou_def)
  qed
qed


section \<open>The greedy matching\<close>

lemma candidate_pairs_iff:
  "(ti, di, v) \<in> set (candidate_pairs trs ds) \<longleftrightarrow>
     ti < length trs \<and> di < length ds \<and> v = iou (tr_box (trs ! ti)) (dt_Box (ds ! di)) \<and> v > 0"
  by (auto simp: candidate_pairs_def Let_def split: if_splits)

lemma greedy_keeps: "set m \<subseteq> set (greedy ps m)"
  by (induction ps m rule: greedy.induct) auto

lemma greedy_from: "(ti, di) \<in> set (greedy ps m) \<Longrightarrow> (ti, di) \<in> set m \<or> (\<exists>v. (ti, di, v) \<in> set ps)"
  by (induction ps m rule: greedy.induct) (auto split: if_splits)

lemma greedy_distinct:
  "distinct (map fst m) \<Longrightarrow> distinct (map snd m) \<Longrightarrow>
     distinct (map fst (greedy ps m)) \<and> distinct (map snd (greedy ps m))"
  by (induction ps m rule: greedy.induct) (auto split: if_splits)

lemma greedy_dominates:
  assumes "sorted_wrt (\<lambda>p q. snd (snd q) \<le> snd (snd p)) ps" and "(ti, di, v) \<in> set ps"
  shows "\<exists>tj dj. (tj, dj) \<in> set (greedy ps m) \<and> (tj = ti \<or> dj = di) \<and>
     ((tj, dj) \<in> set m \<or> (\<exists>w. v \<le> w \<and> (tj, dj, w) \<in> set ps))"
  using assms
proof (induction ps m rule: greedy.induct)
  case (2 t0 d0 v0 ps m)
  have srt: "sorted_wrt (\<lambda>p q. snd (snd q) \<le> snd (snd p)) ps" and top: "\<forall>q\<in>set ps. snd (snd q) \<le> v0"
    using "2.prems"(1) by auto
  show ?case
  proof (cases "t0 \<in> fst ` set m \<or> d0 \<in> snd ` set m")
    case blocked: True
    show ?thesis
    proof (cases "(ti, di, v) = (t0, d0, v0)")
      case True
      then obtain tj dj where "(tj, dj) \<in> set m" "tj = ti \<or> dj = di" using blocked by auto
      then show ?thesis using blocked greedy_keeps[of m ps] by auto
    next
      case False
      then have "(ti, di, v) \<in> set ps" using "2.prems"(2) by auto
      from "2.IH"(1)[OF blocked srt this] blocked show ?thesis by auto
    qed
  next
    case free: False
    show ?thesis
    proof (cases "(ti, di, v) = (t0, d0, v0)")
      case True
      then show ?thesis using free greedy_keeps[of "m @ [(t0, d0)]" ps] by auto
    next
      case False
      then have mem: "(ti, di, v) \<in> set ps" using "2.prems"(2) by auto
      then have "v \<le> v0" using top by auto
      with "2.IH"(2)[OF free srt mem] free show ?thesis by auto
    qed
  qed
qed simp

lemma srt_sorted_wrt:
  assumes "slice_sort by_iou srt"
  shows "sorted_wrt (\<lambda>p q. snd (snd q) \<le> snd (snd p)) (srt ps)"
  unfolding sorted_wrt_iff_nth_less
  using slice_sort.srt_sorted[OF assms] by (auto simp: by_iou_def not_less)

text \<open>
  The assignment of detections to tracks is a stable matching for every order \<^verbatim>\<open>sort.Slice\<close> may
  choose: no track and no detection is used twice, only overlapping pairs are matched, and
  whenever a track and a detection overlap but are not matched with each other, one of them is
  matched with a partner it overlaps at least as much.
\<close>

theorem matching_stable:
  assumes "slice_sort by_iou srt"
  shows "distinct (map fst (matching srt trs ds)) \<and> distinct (map snd (matching srt trs ds)) \<and>
     (\<forall>(ti, di)\<in>set (matching srt trs ds).
        ti < length trs \<and> di < length ds \<and> iou (tr_box (trs ! ti)) (dt_Box (ds ! di)) > 0) \<and>
     (\<forall>ti<length trs. \<forall>di<length ds. iou (tr_box (trs ! ti)) (dt_Box (ds ! di)) > 0 \<longrightarrow>
        (\<exists>(tj, dj)\<in>set (matching srt trs ds). (tj = ti \<or> dj = di) \<and>
           iou (tr_box (trs ! ti)) (dt_Box (ds ! di)) \<le> iou (tr_box (trs ! tj)) (dt_Box (ds ! dj))))"
proof -
  let ?ps = "srt (candidate_pairs trs ds)"
  have mem: "set ?ps = set (candidate_pairs trs ds)" using assms by (rule slice_sort.srt_set)
  note dist = greedy_distinct[of "[]" ?ps]
  have from_ps: "ti < length trs \<and> di < length ds \<and> iou (tr_box (trs ! ti)) (dt_Box (ds ! di)) > 0"
    if "(ti, di) \<in> set (matching srt trs ds)" for ti di
    using that greedy_from[of ti di ?ps "[]"] by (auto simp: matching_def mem candidate_pairs_iff)
  have stable: "\<exists>(tj, dj)\<in>set (matching srt trs ds). (tj = ti \<or> dj = di) \<and>
        iou (tr_box (trs ! ti)) (dt_Box (ds ! di)) \<le> iou (tr_box (trs ! tj)) (dt_Box (ds ! dj))"
    if "ti < length trs" "di < length ds" "iou (tr_box (trs ! ti)) (dt_Box (ds ! di)) > 0" for ti di
  proof -
    have "(ti, di, iou (tr_box (trs ! ti)) (dt_Box (ds ! di))) \<in> set ?ps"
      using that by (simp add: mem candidate_pairs_iff)
    from greedy_dominates[OF srt_sorted_wrt[OF assms] this, of "[]"] show ?thesis
      by (auto simp: matching_def mem candidate_pairs_iff)
  qed
  show ?thesis using dist from_ps stable by (auto simp: matching_def)
qed


definition car :: "box \<Rightarrow> Detection" where
  "car b = \<lparr>dt_Label = ''car'', dt_Score = 9 / 10, dt_Box = b\<rparr>"

definition parked :: "int \<Rightarrow> track" where
  "parked i = (fst (newTrack (NewTracker 30 1) (car (0, 0, 100, 100))))\<lparr>tr_id := i\<rparr>"

lemma parked_matching: "matching sort_iou [parked 1] [car (50, 0, 150, 100), car (0, 0, 100, 90)] = [(0, 1)]"
  by code_simp

theorem matching_stable_witness:
  "matching sort_iou [parked 1] [car (50, 0, 150, 100), car (0, 0, 100, 90)] = [(0, 1)] \<and>
   iou (0, 0, 100, 100) (50, 0, 150, 100) \<le> iou (0, 0, 100, 100) (0, 0, 100, 90)"
proof -
  have i: "iou (0, 0, 100, 100) (50, 0, 150, 100) > 0" by code_simp
  show ?thesis
    using matching_stable[OF iou_order.slice_sort_axioms, of "[parked 1]" "[car (50, 0, 150, 100), car (0, 0, 100, 90)]"] i
    unfolding parked_matching
    by (simp add: parked_def car_def newTrack_def All_less_Suc numeral_2_eq_2 del: iou.simps)
qed


section \<open>Identities\<close>

lemma applyMatch_fields [simp]:
  "tr_id (applyMatch t d tr) = tr_id tr" "tr_box (applyMatch t d tr) = dt_Box d"
  "disappeared (applyMatch t d tr) = 0"
  by (simp_all add: applyMatch_def stationary_streak_def Let_def)

lemma miss_fields [simp]:
  "tr_id (miss t tr) = tr_id tr" "disappeared (miss t tr) = disappeared tr + 1"
  by (simp_all add: miss_def Let_def)

lemma new_tracks_spec:
  "\<exists>news. tracks (new_tracks ds t) = tracks t @ news \<and>
     map tr_id news = map (\<lambda>i. nextID t + int i) [0..<length ds] \<and>
     map tr_box news = map dt_Box ds \<and> (\<forall>tr\<in>set news. disappeared tr = 0) \<and>
     nextID (new_tracks ds t) = nextID t + int (length ds)"
proof (induction ds arbitrary: t)
  case (Cons d ds)
  let ?tr = "fst (newTrack t d)" and ?t1 = "t\<lparr>nextID := nextID t + 1, tracks := tracks t @ [fst (newTrack t d)]\<rparr>"
  have step: "new_tracks (d # ds) t = new_tracks ds ?t1" by (simp add: newTrack_def)
  from Cons.IH[of ?t1] obtain news where n: "tracks (new_tracks ds ?t1) = tracks ?t1 @ news"
    "map tr_id news = map (\<lambda>i. nextID ?t1 + int i) [0..<length ds]" "map tr_box news = map dt_Box ds"
    "\<forall>tr\<in>set news. disappeared tr = 0" "nextID (new_tracks ds ?t1) = nextID ?t1 + int (length ds)"
    by blast
  have "map (\<lambda>i. nextID t + int i) [0..<Suc (length ds)] = nextID t # map (\<lambda>i. nextID t + 1 + int i) [0..<length ds]"
    by (simp add: upt_conv_Cons map_Suc_upt[symmetric] o_def algebra_simps del: upt_Suc)
  then show ?case unfolding step using n
    by (intro exI[of _ "?tr # news"]) (simp add: newTrack_def)
qed simp

lemma apply_matches_ids [simp]:
  "length (apply_matches t ds ms trs) = length trs"
  "\<forall>(ti, di)\<in>set ms. ti < length trs \<Longrightarrow> map tr_id (apply_matches t ds ms trs) = map tr_id trs"
proof (induction t ds ms trs rule: apply_matches.induct)
  case (2 t ds ti di ms trs)
  {
    case 1
    show ?case using 2(1) by simp
  next
    case 2
    then have "map tr_id (trs[ti := applyMatch t (ds ! di) (trs ! ti)]) = map tr_id trs"
      by (auto simp: map_update list_update_id intro: list_update_same_conv[THEN iffD2])
    then show ?case using "2.IH"(2) 2 by simp
  }
qed simp_all

lemma apply_matches_nth:
  "distinct (map fst ms) \<Longrightarrow> \<forall>(ti, di)\<in>set ms. ti < length trs \<Longrightarrow> i < length trs \<Longrightarrow>
     apply_matches t ds ms trs ! i =
       (case map_of ms i of Some di \<Rightarrow> applyMatch t (ds ! di) (trs ! i) | None \<Rightarrow> trs ! i)"
proof (induction t ds ms trs rule: apply_matches.induct)
  case (2 t ds ti di ms trs)
  have notin: "map_of ms ti = None" using "2.prems"(1) by (auto simp: map_of_eq_None_iff)
  have "\<forall>(tj, dj)\<in>set ms. tj < length (trs[ti := applyMatch t (ds ! di) (trs ! ti)])" using "2.prems"(2) by auto
  from "2.IH"[OF _ this] "2.prems" notin show ?case by (cases "i = ti") (auto split: option.splits)
qed simp

definition good_ids :: "int list \<Rightarrow> int \<Rightarrow> bool" where
  "good_ids xs n \<longleftrightarrow> distinct xs \<and> (\<forall>x\<in>set xs. 0 < x \<and> x < n) \<and> 0 < n"

definition ids_ok :: "Tracker \<Rightarrow> bool" where
  "ids_ok t \<longleftrightarrow> good_ids (map tr_id (tracks t)) (nextID t)"

lemma good_ids_append: "good_ids xs n \<Longrightarrow> good_ids (xs @ map (\<lambda>i. n + int i) [0..<k]) (n + int k)"
  by (force simp: good_ids_def distinct_map inj_on_def)

lemma new_tracks_ids_ok: "ids_ok t \<Longrightarrow> ids_ok (new_tracks ds t)"
  using new_tracks_spec[of ds t] good_ids_append[of "map tr_id (tracks t)" "nextID t" "length ds"]
  by (auto simp: ids_ok_def)

lemma ids_ok_same:
  "ids_ok t \<Longrightarrow> map tr_id (tracks t') = map tr_id (tracks t) \<Longrightarrow> nextID t' = nextID t \<Longrightarrow> ids_ok t'"
  by (simp add: ids_ok_def)

lemma aged_ids_ok: "ids_ok t \<Longrightarrow> ids_ok (t\<lparr>tracks := aged t\<rparr>)"
  by (auto simp: ids_ok_def good_ids_def aged_def o_def distinct_map_filter)


text \<open>The two ways an update changes the surviving tracks, before the new ones are added.\<close>

definition survivors :: "(assignment list \<Rightarrow> assignment list) \<Rightarrow> Detection list \<Rightarrow> Tracker \<Rightarrow> track list" where
  "survivors srt ds t =
     (let ms = matching srt (tracks t) ds;
          trs = apply_matches t ds ms (tracks t)
      in map (\<lambda>ti. if ti \<in> fst ` set ms then trs ! ti else miss t (trs ! ti)) [0..<length trs])"

definition unmatched :: "(assignment list \<Rightarrow> assignment list) \<Rightarrow> Detection list \<Rightarrow> Tracker \<Rightarrow> Detection list" where
  "unmatched srt ds t =
     map (\<lambda>di. ds ! di) (filter (\<lambda>di. di \<notin> snd ` set (matching srt (tracks t) ds)) [0..<length ds])"

lemma tracker_Update_eq:
  "snd (tracker_Update srt ds t0) =
     (let t = t0\<lparr>tracks := aged t0\<rparr>
      in if tracks t = [] then new_tracks ds t
         else if ds = [] then t\<lparr>tracks := map (miss t) (tracks t)\<rparr>
         else new_tracks (unmatched srt ds t) (t\<lparr>tracks := survivors srt ds t\<rparr>))"
  by (simp add: tracker_Update_def survivors_def unmatched_def Let_def)

lemma matching_bounds:
  assumes "slice_sort by_iou srt"
  shows "\<forall>(ti, di)\<in>set (matching srt trs ds). ti < length trs" "\<forall>(ti, di)\<in>set (matching srt trs ds). di < length ds"
    "distinct (map fst (matching srt trs ds))" "distinct (map snd (matching srt trs ds))"
proof -
  have mem: "set (srt (candidate_pairs trs ds)) = set (candidate_pairs trs ds)"
    using assms by (rule slice_sort.srt_set)
  show "\<forall>(ti, di)\<in>set (matching srt trs ds). ti < length trs" "\<forall>(ti, di)\<in>set (matching srt trs ds). di < length ds"
    using greedy_from[of _ _ "srt (candidate_pairs trs ds)" "[]"]
    by (auto simp: matching_def mem candidate_pairs_iff)
  show "distinct (map fst (matching srt trs ds))" "distinct (map snd (matching srt trs ds))"
    using greedy_distinct[of "[]"] by (simp_all add: matching_def)
qed

lemma survivors_ids:
  assumes "slice_sort by_iou srt"
  shows "map tr_id (survivors srt ds t) = map tr_id (tracks t)"
proof -
  let ?ms = "matching srt (tracks t) ds" and ?trs = "apply_matches t ds (matching srt (tracks t) ds) (tracks t)"
  have "map tr_id (survivors srt ds t) = map (\<lambda>i. tr_id (?trs ! i)) [0..<length ?trs]"
    by (auto simp: survivors_def Let_def)
  also have "\<dots> = map tr_id ?trs" by (rule nth_equalityI) auto
  also have "\<dots> = map tr_id (tracks t)" using matching_bounds(1)[OF assms] by simp
  finally show ?thesis .
qed

lemma update_ids_ok:
  assumes "slice_sort by_iou srt" and "ids_ok t"
  shows "ids_ok (snd (tracker_Update srt ds t))"
proof -
  note ok = aged_ids_ok[OF assms(2)]
  show ?thesis unfolding tracker_Update_eq Let_def
    using new_tracks_ids_ok[OF ok] ids_ok_same[OF ok] survivors_ids[OF assms(1)]
    by (auto intro!: new_tracks_ids_ok)
qed

lemma new_tracks_nextID: "nextID (new_tracks ds t) = nextID t + int (length ds)"
  using new_tracks_spec[of ds t] by blast

lemma update_nextID: "nextID t \<le> nextID (snd (tracker_Update srt ds t))"
  by (simp add: tracker_Update_eq Let_def new_tracks_nextID)

text \<open>
  Track identities are stable: from a fresh tracker, after any sequence of updates the live
  tracks have pairwise different positive ids, all below the next id to hand out, and that
  counter never goes back, so the id of a track that is gone is never given to another object.
\<close>

theorem track_ids_unique:
  assumes "slice_sort by_iou srt"
    and "t = fold (\<lambda>ds t. snd (tracker_Update srt ds t)) dss (NewTracker maxDis minH)"
  shows "distinct (map tr_id (tracks t)) \<and> (\<forall>tr\<in>set (tracks t). 0 < tr_id tr \<and> tr_id tr < nextID t) \<and>
     (\<forall>ds. nextID t \<le> nextID (snd (tracker_Update srt ds t)))"
proof -
  have "ids_ok (NewTracker maxDis minH)"
    by (simp add: ids_ok_def good_ids_def NewTracker_def NewTrackerWithStationary_def)
  then have "ids_ok t" unfolding assms(2) by (rule fold_invariant) (rule update_ids_ok[OF assms(1)])
  then show ?thesis by (simp add: ids_ok_def good_ids_def update_nextID)
qed

theorem track_ids_unique_witness:
  "map tr_id (tracks (fold (\<lambda>ds t. snd (tracker_Update sort_iou ds t))
     [[car (0, 0, 100, 100)], [car (0, 0, 100, 90), car (200, 0, 300, 100)]] (NewTracker 30 1))) = [1, 2]
   \<and> distinct (map tr_id (tracks (fold (\<lambda>ds t. snd (tracker_Update sort_iou ds t))
     [[car (0, 0, 100, 100)], [car (0, 0, 100, 90), car (200, 0, 300, 100)]] (NewTracker 30 1))))"
proof
  show "map tr_id (tracks (fold (\<lambda>ds t. snd (tracker_Update sort_iou ds t))
     [[car (0, 0, 100, 100)], [car (0, 0, 100, 90), car (200, 0, 300, 100)]] (NewTracker 30 1))) = [1, 2]"
    by code_simp
  show "distinct (map tr_id (tracks (fold (\<lambda>ds t. snd (tracker_Update sort_iou ds t))
     [[car (0, 0, 100, 100)], [car (0, 0, 100, 90), car (200, 0, 300, 100)]] (NewTracker 30 1))))"
    using track_ids_unique[OF iou_order.slice_sort_axioms refl] by blast
qed

section \<open>Every detection is tracked\<close>

lemma new_tracks_seen:
  "filter (\<lambda>tr. disappeared tr = 0) (tracks (new_tracks ds t)) =
     filter (\<lambda>tr. disappeared tr = 0) (tracks t) @ drop (length (tracks t)) (tracks (new_tracks ds t)) \<and>
   map tr_box (drop (length (tracks t)) (tracks (new_tracks ds t))) = map dt_Box ds"
  using new_tracks_spec[of ds t] by (auto simp: filter_id_conv)


lemma survivors_nth:
  assumes "slice_sort by_iou srt"
  shows "survivors srt ds t = map (\<lambda>i. case map_of (matching srt (tracks t) ds) i of
       Some di \<Rightarrow> applyMatch t (ds ! di) (tracks t ! i) | None \<Rightarrow> miss t (tracks t ! i)) [0..<length (tracks t)]"
proof -
  let ?ms = "matching srt (tracks t) ds"
  have "i \<in> fst ` set ?ms \<longleftrightarrow> map_of ?ms i \<noteq> None" for i by (simp add: map_of_eq_None_iff)
  then show ?thesis
    using apply_matches_nth[OF matching_bounds(3)[OF assms] matching_bounds(1)[OF assms]]
    by (auto simp: survivors_def Let_def split: option.splits)
qed

lemma mset_split_indices:
  assumes "distinct is" and "set is \<subseteq> {..<n}"
  shows "mset is + mset (filter (\<lambda>i. i \<notin> set is) [0..<n]) = mset [0..<n]"
proof -
  have "set is \<inter> {i. i < n \<and> i \<notin> set is} = {}" "set is \<union> {i. i < n \<and> i \<notin> set is} = {0..<n}"
    using assms(2) by auto
  then have "distinct (is @ filter (\<lambda>i. i \<notin> set is) [0..<n])" "set (is @ filter (\<lambda>i. i \<notin> set is) [0..<n]) = set [0..<n]"
    using assms(1) by auto
  then have "mset (is @ filter (\<lambda>i. i \<notin> set is) [0..<n]) = mset [0..<n]"
    using set_eq_iff_mset_eq_distinct distinct_upt by blast
  then show ?thesis by simp
qed

lemma survivors_seen:
  assumes "slice_sort by_iou srt" and "\<forall>tr\<in>set (tracks t). 0 \<le> disappeared tr"
  shows "mset (map tr_box (filter (\<lambda>tr. disappeared tr = 0) (survivors srt ds t))) =
     mset (map (\<lambda>di. dt_Box (ds ! di)) (map snd (matching srt (tracks t) ds)))"
proof -
  let ?ms = "matching srt (tracks t) ds" and ?n = "length (tracks t)"
  note mb = matching_bounds[OF assms(1), of "tracks t" ds]
  let ?idx = "filter (\<lambda>i. i \<in> fst ` set ?ms) [0..<?n]"
  have missed: "disappeared (miss t (tracks t ! i)) \<noteq> 0" if "i < ?n" for i
    using assms(2) that by (simp add: add_nonneg_eq_0_iff)
  have val: "map tr_box (filter (\<lambda>tr. disappeared tr = 0) (survivors srt ds t)) =
      map (\<lambda>i. dt_Box (ds ! the (map_of ?ms i))) ?idx"
    unfolding survivors_nth[OF assms(1)] filter_map map_map
    using missed
    by (auto simp: map_of_eq_None_iff split: option.splits intro!: map_cong filter_cong)
       (auto simp: map_of_eq_None_iff dest: map_of_SomeD intro: rev_image_eqI)
  have "mset ?idx = mset (map fst ?ms)"
  proof -
    have "set ?idx = set (map fst ?ms)" using mb(1) by auto
    then show ?thesis using mb(3) set_eq_iff_mset_eq_distinct[of ?idx "map fst ?ms"] by simp
  qed
  then have "mset (map (\<lambda>i. dt_Box (ds ! the (map_of ?ms i))) ?idx) =
      mset (map (\<lambda>i. dt_Box (ds ! the (map_of ?ms i))) (map fst ?ms))"
    by (simp only: mset_map)
  also have "map (\<lambda>i. dt_Box (ds ! the (map_of ?ms i))) (map fst ?ms) = map (\<lambda>di. dt_Box (ds ! di)) (map snd ?ms)"
    using mb(3) by auto
  finally show ?thesis using val by simp
qed

text \<open>
  After an update the tracks seen in this frame (the ones with no missed frame) carry exactly
  the boxes of the detections, each once: no detection is lost, merged with another or
  duplicated.
\<close>

theorem detections_tracked_once:
  assumes "slice_sort by_iou srt" and "\<forall>tr\<in>set (tracks t). 0 \<le> disappeared tr"
  shows "mset (map tr_box (filter (\<lambda>tr. disappeared tr = 0) (tracks (snd (tracker_Update srt ds t))))) =
     mset (map dt_Box ds)"
proof -
  let ?t = "t\<lparr>tracks := aged t\<rparr>"
  have dis: "\<forall>tr\<in>set (tracks ?t). 0 \<le> disappeared tr" using assms(2) by (auto simp: aged_def)
  have new: "mset (map tr_box (filter (\<lambda>tr. disappeared tr = 0) (tracks (new_tracks es u)))) =
      mset (map tr_box (filter (\<lambda>tr. disappeared tr = 0) (tracks u))) + mset (map dt_Box es)" for es u
    using new_tracks_seen[of es u] by (simp only: map_append mset_append)
  show ?thesis
  proof (cases "tracks ?t = [] \<or> ds = []")
    case True
    have none: "filter (\<lambda>tr. disappeared tr = 0) (map (miss ?t) (tracks ?t)) = []"
      using dis by (auto simp: filter_empty_conv add_nonneg_eq_0_iff)
    show ?thesis
    proof (cases "tracks ?t = []")
      case True
      then show ?thesis using new[of ds ?t] by (simp add: tracker_Update_eq Let_def)
    next
      case False
      then have "ds = []" "tracks (snd (tracker_Update srt ds t)) = map (miss ?t) (tracks ?t)"
        using \<open>tracks ?t = [] \<or> ds = []\<close> by (auto simp: tracker_Update_eq Let_def)
      then show ?thesis using none by (simp only: list.map mset.simps)
    qed
  next
    case False
    let ?ms = "matching srt (tracks ?t) ds"
    note mb = matching_bounds[OF assms(1), of "tracks ?t" ds]
    have "mset (map snd ?ms) + mset (filter (\<lambda>i. i \<notin> set (map snd ?ms)) [0..<length ds]) = mset [0..<length ds]"
      by (rule mset_split_indices) (use mb in auto)
    then have parts: "image_mset (\<lambda>di. dt_Box (ds ! di)) (mset (map snd ?ms))
        + image_mset (\<lambda>di. dt_Box (ds ! di)) (mset (filter (\<lambda>i. i \<notin> set (map snd ?ms)) [0..<length ds]))
      = image_mset (\<lambda>di. dt_Box (ds ! di)) (mset [0..<length ds])"
      by (simp only: image_mset_union[symmetric])
    have all: "image_mset (\<lambda>di. dt_Box (ds ! di)) (mset [0..<length ds]) = mset (map dt_Box ds)"
      by (simp only: mset_map[symmetric]) (metis map_map map_nth o_def map_cong)
    have fresh: "mset (map dt_Box (unmatched srt ds ?t)) =
        image_mset (\<lambda>di. dt_Box (ds ! di)) (mset (filter (\<lambda>i. i \<notin> set (map snd ?ms)) [0..<length ds]))"
      by (simp add: unmatched_def o_def)
    have seen: "mset (map tr_box (filter (\<lambda>tr. disappeared tr = 0) (survivors srt ds ?t))) =
        image_mset (\<lambda>di. dt_Box (ds ! di)) (mset (map snd ?ms))"
      using survivors_seen[OF assms(1) dis, of ds] by (simp only: mset_map)
    have upd: "snd (tracker_Update srt ds t) = new_tracks (unmatched srt ds ?t) (?t\<lparr>tracks := survivors srt ds ?t\<rparr>)"
      using False by (simp add: tracker_Update_eq Let_def)
    have "tracks (?t\<lparr>tracks := survivors srt ds ?t\<rparr>) = survivors srt ds ?t" by simp
    then show ?thesis unfolding upd new fresh using seen parts all by (simp only:)
  qed
qed

theorem detections_tracked_once_witness:
  "mset (map tr_box (filter (\<lambda>tr. disappeared tr = 0) (tracks (snd (tracker_Update sort_iou
       [car (50, 0, 150, 100), car (0, 0, 100, 90)] ((NewTracker 30 1)\<lparr>tracks := [parked 1], nextID := 2\<rparr>)))))) =
     mset [(50, 0, 150, 100), (0, 0, 100, 90)]"
  using detections_tracked_once[OF iou_order.slice_sort_axioms,
      of "(NewTracker 30 1)\<lparr>tracks := [parked 1], nextID := 2\<rparr>" "[car (50, 0, 150, 100), car (0, 0, 100, 90)]"]
  by (simp add: car_def parked_def newTrack_def)

section \<open>Lifetime of a track nobody sees\<close>

definition empty_updates :: "(assignment list \<Rightarrow> assignment list) \<Rightarrow> nat \<Rightarrow> Tracker \<Rightarrow> Tracker" where
  "empty_updates srt n t = ((\<lambda>t. snd (tracker_Update srt [] t)) ^^ n) t"

lemma update_empty:
  "snd (tracker_Update srt [] t) = t\<lparr>tracks := map (miss t) (aged t)\<rparr>"
proof -
  have "miss (t\<lparr>tracks := xs\<rparr>) = miss t" for xs
    by (simp add: fun_eq_iff miss_def effectiveMaxDisappeared_def)
  then show ?thesis by (cases "aged t = []") (simp_all add: tracker_Update_eq Let_def)
qed

definition coast :: "Tracker \<Rightarrow> nat \<Rightarrow> track \<Rightarrow> track" where
  "coast t n tr = tr\<lparr>tr_age := tr_age tr + int n, disappeared := disappeared tr + int n\<rparr>"

lemma empty_updates_Suc:
  "empty_updates srt (Suc n) t = snd (tracker_Update srt [] (empty_updates srt n t))"
  by (simp add: empty_updates_def)

lemma empty_updates_params:
  "maxDisappeared (empty_updates srt n t) = maxDisappeared t \<and>
   stationaryMaxDisappeared (empty_updates srt n t) = stationaryMaxDisappeared t"
  by (induction n) (simp_all add: empty_updates_Suc update_empty, simp add: empty_updates_def)

text \<open>Which tracks of the start are still alive, coasting, after \<open>n\<close> empty frames.\<close>

lemma empty_updates_alive:
  "filter (\<lambda>tr. tr_state tr \<noteq> TrackDeleted) (tracks (empty_updates srt n t)) =
     map (coast t n) (filter (\<lambda>tr. tr_state tr \<noteq> TrackDeleted \<and>
        (n > 0 \<longrightarrow> disappeared tr + int n \<le> effectiveMaxDisappeared t tr)) (tracks t))"
proof (induction n)
  case 0
  show ?case by (simp add: empty_updates_def coast_def)
next
  case (Suc n)
  let ?u = "empty_updates srt n t"
  have eff: "effectiveMaxDisappeared ?u = effectiveMaxDisappeared t"
    using empty_updates_params[of srt n t] by (simp add: fun_eq_iff effectiveMaxDisappeared_def)
  have alive_miss: "tr_state (miss ?u tr) \<noteq> TrackDeleted \<longleftrightarrow>
      tr_state tr \<noteq> TrackDeleted \<and> disappeared tr + 1 \<le> effectiveMaxDisappeared t tr" for tr
    by (auto simp: miss_def Let_def eff) (simp_all add: effectiveMaxDisappeared_def)
  define P where "P = (\<lambda>(m :: nat) x. tr_state x \<noteq> TrackDeleted \<and>
      (m > 0 \<longrightarrow> disappeared x + int m \<le> effectiveMaxDisappeared t x))"
  let ?age = "\<lambda>tr. tr\<lparr>tr_age := tr_age tr + 1\<rparr>"
  have keep: "tr_state (miss ?u (?age (coast t n x))) \<noteq> TrackDeleted \<and> P n x \<longleftrightarrow> P (Suc n) x" for x
    unfolding alive_miss P_def by (auto simp: coast_def effectiveMaxDisappeared_def)
  have same: "miss ?u (?age (coast t n x)) = coast t (Suc n) x" if "P (Suc n) x" for x
    using that by (auto simp: P_def miss_def Let_def eff coast_def effectiveMaxDisappeared_def algebra_simps)
  have u: "filter (\<lambda>tr. tr_state tr \<noteq> TrackDeleted) (tracks ?u) = map (coast t n) (filter (P n) (tracks t))"
    using Suc by (simp add: P_def)
  have "filter (\<lambda>tr. tr_state tr \<noteq> TrackDeleted) (tracks (empty_updates srt (Suc n) t)) =
      map (\<lambda>x. miss ?u (?age (coast t n x)))
        (filter (\<lambda>x. tr_state (miss ?u (?age (coast t n x))) \<noteq> TrackDeleted \<and> P n x) (tracks t))"
    by (simp add: empty_updates_Suc update_empty aged_def u filter_map o_def conj_commute)
  also have "\<dots> = map (\<lambda>x. miss ?u (?age (coast t n x))) (filter (P (Suc n)) (tracks t))"
    by (simp only: keep)
  also have "\<dots> = map (coast t (Suc n)) (filter (P (Suc n)) (tracks t))"
    by (rule map_cong) (simp_all add: same)
  finally show ?case by (simp add: P_def)
qed

text \<open>
  A track that is never seen again lives exactly through its budget of missed frames, the
  longer one if it was stationary: with \<open>k\<close> frames missed already it is still there, unchanged
  but for its age, after \<open>n\<close> further empty frames if \<open>k + n\<close> does not exceed the budget, and no
  live track carries its id any more once it does.
\<close>

theorem unseen_track_lifetime:
  assumes "ids_ok t" and "tr \<in> set (tracks t)" and "tr_state tr \<noteq> TrackDeleted" and "0 < n"
  shows "(disappeared tr + int n \<le> effectiveMaxDisappeared t tr \<longrightarrow>
       coast t n tr \<in> set (tracks (empty_updates srt n t))) \<and>
     (effectiveMaxDisappeared t tr < disappeared tr + int n \<longrightarrow>
       (\<forall>u\<in>set (tracks (empty_updates srt n t)). tr_state u \<noteq> TrackDeleted \<longrightarrow> tr_id u \<noteq> tr_id tr))"
proof (intro conjI impI ballI)
  note alive = empty_updates_alive[of srt n t]
  have mem: "x \<in> set (filter (\<lambda>tr. tr_state tr \<noteq> TrackDeleted) (tracks (empty_updates srt n t))) \<longleftrightarrow>
      x \<in> coast t n ` {y \<in> set (tracks t). tr_state y \<noteq> TrackDeleted \<and>
         disappeared y + int n \<le> effectiveMaxDisappeared t y}" for x
    unfolding alive using assms(4) by auto
  show "coast t n tr \<in> set (tracks (empty_updates srt n t))"
    if "disappeared tr + int n \<le> effectiveMaxDisappeared t tr"
    using mem[of "coast t n tr"] that assms(2,3) by auto
  fix u assume d: "effectiveMaxDisappeared t tr < disappeared tr + int n"
    and u: "u \<in> set (tracks (empty_updates srt n t))" "tr_state u \<noteq> TrackDeleted"
  show "tr_id u \<noteq> tr_id tr"
  proof
    assume same: "tr_id u = tr_id tr"
    obtain y where y: "y \<in> set (tracks t)" "u = coast t n y"
        "disappeared y + int n \<le> effectiveMaxDisappeared t y"
      using mem[of u] u by auto
    have "tr_id y = tr_id tr" using same y(2) by (simp add: coast_def)
    then have "y = tr" using assms(1,2) y(1) by (auto simp: ids_ok_def good_ids_def distinct_map inj_on_def)
    then show False using y(3) d by simp
  qed
qed

theorem unseen_track_lifetime_witness:
  "coast ((NewTracker 30 1)\<lparr>tracks := [parked 1], nextID := 2\<rparr>) 30 (parked 1)
     \<in> set (tracks (empty_updates sort_iou 30 ((NewTracker 30 1)\<lparr>tracks := [parked 1], nextID := 2\<rparr>)))"
proof -
  let ?t = "(NewTracker 30 1)\<lparr>tracks := [parked 1], nextID := 2\<rparr>"
  have "ids_ok ?t" by (simp add: ids_ok_def good_ids_def parked_def)
  moreover have "parked 1 \<in> set (tracks ?t)" "tr_state (parked 1) \<noteq> TrackDeleted"
    by (simp_all add: parked_def newTrack_def)
  ultimately show ?thesis using unseen_track_lifetime[of ?t "parked 1" 30 sort_iou]
    by (simp add: parked_def newTrack_def effectiveMaxDisappeared_def NewTracker_def NewTrackerWithStationary_def)
qed


section \<open>Non-maximum suppression\<close>

definition overlaps :: "float64 \<Rightarrow> Detection \<Rightarrow> Detection \<Rightarrow> bool" where
  "overlaps thr d e \<longleftrightarrow> dt_Label d = dt_Label e \<and> iou (dt_Box d) (dt_Box e) > thr"

text \<open>The two nested loops over the flags, as in the source.\<close>

definition nms_inner :: "float64 \<Rightarrow> Detection list \<Rightarrow> nat \<Rightarrow> bool list \<Rightarrow> bool list" where
  "nms_inner thr ds i keep =
     fold (\<lambda>j keep. if \<not> keep ! j then keep
                    else if overlaps thr (ds ! i) (ds ! j) then keep[j := False] else keep)
       [i + 1..<length ds] keep"

definition nms_outer :: "float64 \<Rightarrow> Detection list \<Rightarrow> bool list" where
  "nms_outer thr ds =
     fold (\<lambda>i keep. if \<not> keep ! i then keep else nms_inner thr ds i keep) [0..<length ds]
       (replicate (length ds) True)"

definition nms :: "(Detection list \<Rightarrow> Detection list) \<Rightarrow> Detection list \<Rightarrow> float64 \<Rightarrow> Detection list" where
  "nms srt ds thr =
     (if ds = [] then []
      else let sd = srt ds; keep = nms_outer thr sd
           in map (\<lambda>i. sd ! i) (filter (\<lambda>i. keep ! i) [0..<length sd]))"

definition by_score :: "Detection \<Rightarrow> Detection \<Rightarrow> bool" where
  "by_score d e \<longleftrightarrow> dt_Score d > dt_Score e"

definition sort_score :: "Detection list \<Rightarrow> Detection list" where
  "sort_score ds = sort_key (\<lambda>d. - dt_Score d) ds"

interpretation score_order: slice_sort by_score sort_score
proof
  show "mset (sort_score xs) = mset xs" for xs by (simp add: sort_score_def)
  show "\<not> by_score (sort_score xs ! j) (sort_score xs ! i)" if "i < j" "j < length (sort_score xs)" for i j xs
  proof -
    have "sorted (map (\<lambda>d. - dt_Score d) (sort_score xs))" by (simp add: sort_score_def)
    from sorted_nth_mono[OF this, of i j] that show ?thesis by (simp add: by_score_def)
  qed
qed

lemma clear_flag: "j < length keep \<Longrightarrow> keep[a := False] ! j \<longleftrightarrow> keep ! j \<and> a \<noteq> j"
  by (cases "a = j") auto

lemma nms_inner_flags:
  assumes "length keep = length ds"
  shows "length (nms_inner thr ds i keep) = length ds \<and>
     (\<forall>j<length ds. nms_inner thr ds i keep ! j \<longleftrightarrow>
        keep ! j \<and> \<not> (i < j \<and> overlaps thr (ds ! i) (ds ! j)))"
proof -
  let ?f = "\<lambda>j keep. if \<not> keep ! j then keep
                    else if overlaps thr (ds ! i) (ds ! j) then keep[j := False] else keep"
  have "length (fold ?f js keep) = length ds \<and>
     (\<forall>j<length ds. fold ?f js keep ! j \<longleftrightarrow> keep ! j \<and> \<not> (j \<in> set js \<and> overlaps thr (ds ! i) (ds ! j)))"
    if "length keep = length ds" for js keep
    using that by (induction js arbitrary: keep) (auto simp: clear_flag)
  from this[OF assms, of "[i + 1..<length ds]"] show ?thesis by (auto simp: nms_inner_def)
qed

lemma nms_outer_flags:
  "length (nms_outer thr ds) = length ds \<and>
   (\<forall>j<length ds. nms_outer thr ds ! j \<longleftrightarrow> \<not> (\<exists>i<j. nms_outer thr ds ! i \<and> overlaps thr (ds ! i) (ds ! j)))"
proof -
  let ?step = "\<lambda>i keep. if \<not> keep ! i then keep else nms_inner thr ds i keep"
  define K where "K m = fold ?step [0..<m] (replicate (length ds) True)" for m
  have "length (K m) = length ds \<and>
     (\<forall>j<length ds. K m ! j \<longleftrightarrow> \<not> (\<exists>i<min m j. K m ! i \<and> overlaps thr (ds ! i) (ds ! j)))" if "m \<le> length ds" for m
    using that
  proof (induction m)
    case 0
    show ?case by (simp add: K_def)
  next
    case (Suc m)
    then have IH: "length (K m) = length ds"
      "\<And>j. j < length ds \<Longrightarrow> K m ! j \<longleftrightarrow> \<not> (\<exists>i<min m j. K m ! i \<and> overlaps thr (ds ! i) (ds ! j))"
      by auto
    have KS: "K (Suc m) = (if \<not> K m ! m then K m else nms_inner thr ds m (K m))" by (simp add: K_def)
    have flags: "K (Suc m) ! j \<longleftrightarrow> K m ! j \<and> \<not> (K m ! m \<and> m < j \<and> overlaps thr (ds ! m) (ds ! j))"
      if "j < length ds" for j
      using nms_inner_flags[OF IH(1), of thr m] that by (auto simp: KS)
    have early: "K (Suc m) ! i \<longleftrightarrow> K m ! i" if "i \<le> m" for i
      using flags[of i] that Suc.prems by auto
    have len: "length (K (Suc m)) = length ds" using nms_inner_flags[OF IH(1)] IH(1) by (simp add: KS)
    show ?case
    proof (intro conjI allI impI len)
      fix j assume j: "j < length ds"
      have "K (Suc m) ! j \<longleftrightarrow> \<not> (\<exists>i<min m j. K m ! i \<and> overlaps thr (ds ! i) (ds ! j))
          \<and> \<not> (K m ! m \<and> m < j \<and> overlaps thr (ds ! m) (ds ! j))"
        using flags[OF j] IH(2)[OF j] by simp
      also have "\<dots> \<longleftrightarrow> \<not> (\<exists>i<min (Suc m) j. K m ! i \<and> overlaps thr (ds ! i) (ds ! j))"
        by (auto simp: less_Suc_eq)
      also have "\<dots> \<longleftrightarrow> \<not> (\<exists>i<min (Suc m) j. K (Suc m) ! i \<and> overlaps thr (ds ! i) (ds ! j))"
        using early by (auto simp: less_Suc_eq_le)
      finally show "K (Suc m) ! j \<longleftrightarrow> \<not> (\<exists>i<min (Suc m) j. K (Suc m) ! i \<and> overlaps thr (ds ! i) (ds ! j))" .
    qed
  qed
  from this[of "length ds"] show ?thesis by (auto simp: K_def nms_outer_def)
qed

text \<open>
  Non-maximum suppression keeps a representative of every object: survivors of one label never
  overlap by more than the threshold, and every detection that is dropped overlaps a
  survivor of its label by more than the threshold whose score is at least its own, for every
  order \<^verbatim>\<open>sort.Slice\<close> may choose among equal scores.
\<close>

theorem nms_correct:
  assumes "slice_sort by_score srt"
  shows "(\<forall>i j. i < j \<and> j < length (nms srt ds thr) \<longrightarrow> \<not> overlaps thr (nms srt ds thr ! i) (nms srt ds thr ! j)) \<and>
     set (nms srt ds thr) \<subseteq> set ds \<and>
     (\<forall>d\<in>set ds. d \<in> set (nms srt ds thr) \<or>
        (\<exists>e\<in>set (nms srt ds thr). overlaps thr e d \<and> dt_Score d \<le> dt_Score e))"
proof (cases "ds = []")
  case True
  then show ?thesis by (simp add: nms_def)
next
  case False
  define sd where "sd = srt ds"
  define idx where "idx = filter (\<lambda>i. nms_outer thr sd ! i) [0..<length sd]"
  have n: "nms srt ds thr = map (\<lambda>i. sd ! i) idx" using False by (simp add: nms_def sd_def idx_def Let_def)
  have sset: "set sd = set ds" using assms unfolding sd_def by (rule slice_sort.srt_set)
  note flags = nms_outer_flags[of thr sd, THEN conjunct2, rule_format]
  have sorted_idx: "sorted_wrt (<) idx" unfolding idx_def by (rule sorted_wrt_filter) simp
  have clear: "\<not> overlaps thr (sd ! (idx ! i)) (sd ! (idx ! j))" if "i < j" "j < length idx" for i j
  proof -
    have lt: "idx ! i < idx ! j" using sorted_idx that by (simp add: sorted_wrt_nth_less)
    have "idx ! i \<in> set idx" "idx ! j \<in> set idx" using that by simp_all
    then have "nms_outer thr sd ! (idx ! i)" "nms_outer thr sd ! (idx ! j)" "idx ! j < length sd"
      by (auto simp: idx_def)
    then show ?thesis using flags[of "idx ! j"] lt by blast
  qed
  have rep: "d \<in> set (nms srt ds thr) \<or> (\<exists>e\<in>set (nms srt ds thr). overlaps thr e d \<and> dt_Score d \<le> dt_Score e)"
    if d: "d \<in> set ds" for d
  proof -
    obtain j where j: "j < length sd" "sd ! j = d" using d sset by (metis in_set_conv_nth)
    show ?thesis
    proof (cases "nms_outer thr sd ! j")
      case True
      then show ?thesis using j by (auto simp: n idx_def)
    next
      case False
      then obtain i where i: "i < j" "nms_outer thr sd ! i" "overlaps thr (sd ! i) (sd ! j)"
        using flags[OF j(1)] by blast
      have "\<not> by_score (sd ! j) (sd ! i)"
        using slice_sort.srt_sorted[OF assms, of i j ds] i(1) j(1) by (simp add: sd_def)
      moreover have "sd ! i \<in> set (nms srt ds thr)" using i(1,2) j(1) by (auto simp: n idx_def)
      ultimately show ?thesis using i(3) j(2) by (auto simp: by_score_def)
    qed
  qed
  have "set (nms srt ds thr) \<subseteq> set ds" using sset by (auto simp: n idx_def)
  then show ?thesis using clear rep by (auto simp: n)
qed

theorem nms_correct_witness:
  "nms sort_score [car (0, 0, 100, 90), (car (0, 0, 100, 100))\<lparr>dt_Score := 95 / 100\<rparr>] (45 / 100) =
     [(car (0, 0, 100, 100))\<lparr>dt_Score := 95 / 100\<rparr>]
   \<and> overlaps (45 / 100) ((car (0, 0, 100, 100))\<lparr>dt_Score := 95 / 100\<rparr>) (car (0, 0, 100, 90))"
proof -
  have v: "nms sort_score [car (0, 0, 100, 90), (car (0, 0, 100, 100))\<lparr>dt_Score := 95 / 100\<rparr>] (45 / 100) =
     [(car (0, 0, 100, 100))\<lparr>dt_Score := 95 / 100\<rparr>]"
    by code_simp
  have ne: "car (0, 0, 100, 90) \<noteq> (car (0, 0, 100, 100))\<lparr>dt_Score := 95 / 100\<rparr>" by (simp add: car_def)
  from nms_correct[OF score_order.slice_sort_axioms,
      of "[car (0, 0, 100, 90), (car (0, 0, 100, 100))\<lparr>dt_Score := 95 / 100\<rparr>]" "45 / 100"] ne
  show ?thesis unfolding v by simp
qed

end
