(* ===== verification/Presence.thy ===== *)
theory Presence
  imports Go_Prelude
begin

text \<open>
  Zone presence: \<^verbatim>\<open>internal/camera/presence.go\<close>.  A \<open>PresenceTracker\<close> keeps one small state machine
  per zone and label; every analysed frame drives all of them in three loops over Go maps.  The
  maps are ranged over in an order Go leaves open, so the loops take that order as an argument.

  A Go \<^verbatim>\<open>map[int]bool\<close> used as a set of track ids is the list of its keys.
\<close>

section \<open>Data\<close>

record PresenceKey =
  ZoneID :: int
  Label :: string

datatype PresenceStatus = PresenceAbsent | PresencePresent | PresenceUnknown

fun PresenceStatus_String :: "PresenceStatus \<Rightarrow> string" where
  "PresenceStatus_String PresencePresent = ''present''"
| "PresenceStatus_String PresenceUnknown = ''unknown''"
| "PresenceStatus_String PresenceAbsent = ''absent''"

datatype PresenceEventType = EventZoneEnter | EventZoneLeave | EventZoneUnknown

fun PresenceEventType_string :: "PresenceEventType \<Rightarrow> string" where
  "PresenceEventType_string EventZoneEnter = ''zone_enter''"
| "PresenceEventType_string EventZoneLeave = ''zone_leave''"
| "PresenceEventType_string EventZoneUnknown = ''zone_unknown''"

record presenceState =
  status :: PresenceStatus
  lastSeen :: gotime
  lastChanged :: gotime
  members :: "int list"
  enteringSince :: gotime
  exitingSince :: gotime
  lostSince :: gotime

record PresenceEvent =
  pe_ZoneID :: int
  pe_ZoneName :: string
  pe_Label :: string
  pe_Type :: PresenceEventType
  pe_Time :: gotime

record PresenceTracker =
  pt_states :: "PresenceKey \<rightharpoonup> presenceState"
  debounceEnter :: duration
  debounceExit :: duration
  debounceLeave :: duration
  shimIDs :: "PresenceKey \<rightharpoonup> int"
  nextShim :: int

definition stationaryReconfirmInterval :: duration where
  "stationaryReconfirmInterval = 30 * Second"

definition lostReconfirms :: int where
  "lostReconfirms = 3"

definition NewPresenceTracker :: PresenceTracker where
  "NewPresenceTracker =
     \<lparr>pt_states = Map.empty, debounceEnter = 3 * Second, debounceExit = 3 * Second,
      debounceLeave = lostReconfirms * stationaryReconfirmInterval,
      shimIDs = Map.empty, nextShim = 0\<rparr>"

text \<open>The zero value \<^verbatim>\<open>&presenceState{}\<close>.\<close>

definition newPresenceState :: presenceState where
  "newPresenceState =
     \<lparr>status = PresenceAbsent, lastSeen = zeroTime, lastChanged = zeroTime, members = [],
      enteringSince = zeroTime, exitingSince = zeroTime, lostSince = zeroTime\<rparr>"

section \<open>One key\<close>

definition membersStillDetected :: "int list \<Rightarrow> int list \<Rightarrow> bool" where
  "membersStillDetected ms detected \<longleftrightarrow> list_ex (\<lambda>i. i \<in> set detected) ms"

text \<open>The bodies of the first, second and third loop of \<^verbatim>\<open>UpdateObserved\<close>.\<close>

definition seen_step ::
  "PresenceTracker \<Rightarrow> gotime \<Rightarrow> int list \<Rightarrow> presenceState \<Rightarrow> presenceState \<times> PresenceEventType option" where
  "seen_step pt now tracks s0 =
     (let s = s0\<lparr>lastSeen := now, members := tracks, exitingSince := zeroTime, lostSince := zeroTime\<rparr>
      in if status s = PresencePresent then (s, None)
         else if isZero (enteringSince s) then (s\<lparr>enteringSince := now\<rparr>, None)
         else if tsub now (enteringSince s) \<ge> debounceEnter pt
         then (s\<lparr>status := PresencePresent, lastChanged := now, enteringSince := zeroTime\<rparr>,
               Some EventZoneEnter)
         else (s, None))"

definition drop_stale :: "gotime \<Rightarrow> presenceState \<Rightarrow> bool" where
  "drop_stale now s \<longleftrightarrow>
     status s = PresenceAbsent \<and> \<not> isZero (lastSeen s) \<and> tsub now (lastSeen s) > 5 * Minute"

definition missed_step ::
  "PresenceTracker \<Rightarrow> gotime \<Rightarrow> int list \<Rightarrow> presenceState \<Rightarrow> presenceState \<times> PresenceEventType option" where
  "missed_step pt now detected s0 =
     (let s = s0\<lparr>enteringSince := zeroTime\<rparr>
      in if status s \<noteq> PresencePresent then (s, None)
         else if membersStillDetected (members s) detected then
           (let s1 = s\<lparr>lostSince := zeroTime\<rparr>
            in if isZero (exitingSince s1) then (s1\<lparr>exitingSince := now\<rparr>, None)
               else if tsub now (exitingSince s1) \<ge> debounceExit pt
               then (s1\<lparr>status := PresenceAbsent, lastChanged := now, exitingSince := zeroTime,
                        members := []\<rparr>, Some EventZoneLeave)
               else (s1, None))
         else
           (let s1 = s\<lparr>exitingSince := zeroTime\<rparr>
            in if isZero (lostSince s1) then (s1\<lparr>lostSince := now\<rparr>, None)
               else if tsub now (lostSince s1) \<ge> debounceLeave pt
               then (s1\<lparr>status := PresenceUnknown, lastChanged := now, lostSince := zeroTime,
                        members := []\<rparr>, Some EventZoneUnknown)
               else (s1, None)))"

section \<open>The whole frame\<close>

definition mk_event ::
  "(int \<rightharpoonup> string) \<Rightarrow> gotime \<Rightarrow> PresenceKey \<Rightarrow> PresenceEventType \<Rightarrow> PresenceEvent" where
  "mk_event zones now key ty =
     \<lparr>pe_ZoneID = ZoneID key, pe_ZoneName = (case zones (ZoneID key) of None \<Rightarrow> [] | Some n \<Rightarrow> n),
      pe_Label = Label key, pe_Type = ty, pe_Time = now\<rparr>"

definition emit ::
  "(int \<rightharpoonup> string) \<Rightarrow> gotime \<Rightarrow> PresenceKey \<Rightarrow> PresenceEventType option \<Rightarrow> PresenceEvent list" where
  "emit zones now key ty = (case ty of None \<Rightarrow> [] | Some t \<Rightarrow> [mk_event zones now key t])"

type_synonym presence_map = "PresenceKey \<rightharpoonup> presenceState"
type_synonym in_zone = "(PresenceKey \<times> int list) list"

definition tracks_at :: "in_zone \<Rightarrow> PresenceKey \<Rightarrow> int list" where
  "tracks_at inZone key = (case map_of inZone key of None \<Rightarrow> [] | Some ts \<Rightarrow> ts)"

fun seen_loop ::
  "PresenceTracker \<Rightarrow> gotime \<Rightarrow> (int \<rightharpoonup> string) \<Rightarrow> in_zone \<Rightarrow> presence_map \<Rightarrow> presence_map \<times> PresenceEvent list" where
  "seen_loop pt now zones [] st = (st, [])"
| "seen_loop pt now zones ((key, tracks) # rest) st =
     (if tracks = [] then seen_loop pt now zones rest st
      else
        let s0 = (case st key of Some s \<Rightarrow> s | None \<Rightarrow> newPresenceState);
            (s', ty) = seen_step pt now tracks s0;
            (st', evs) = seen_loop pt now zones rest (st(key \<mapsto> s'))
        in (st', emit zones now key ty @ evs))"

fun stale_loop :: "gotime \<Rightarrow> PresenceKey list \<Rightarrow> presence_map \<Rightarrow> presence_map" where
  "stale_loop now [] st = st"
| "stale_loop now (key # keys) st =
     (case st key of
        Some s \<Rightarrow> stale_loop now keys (if drop_stale now s then st(key := None) else st)
      | None \<Rightarrow> stale_loop now keys st)"

fun missed_loop ::
  "PresenceTracker \<Rightarrow> gotime \<Rightarrow> (int \<rightharpoonup> string) \<Rightarrow> in_zone \<Rightarrow> int list \<Rightarrow> PresenceKey list \<Rightarrow> presence_map
     \<Rightarrow> presence_map \<times> PresenceEvent list" where
  "missed_loop pt now zones inZone detected [] st = (st, [])"
| "missed_loop pt now zones inZone detected (key # keys) st =
     (if tracks_at inZone key \<noteq> [] then missed_loop pt now zones inZone detected keys st
      else case st key of
        None \<Rightarrow> missed_loop pt now zones inZone detected keys st
      | Some s0 \<Rightarrow>
          let (s', ty) = missed_step pt now detected s0;
              (st', evs) = missed_loop pt now zones inZone detected keys (st(key \<mapsto> s'))
          in (st', emit zones now key ty @ evs))"

text \<open>\<open>ord2\<close> and \<open>ord3\<close> are the orders in which the second and third loop range over the states.\<close>

definition UpdateObserved ::
  "in_zone \<Rightarrow> int list \<Rightarrow> (int \<rightharpoonup> string) \<Rightarrow> gotime \<Rightarrow> PresenceKey list \<Rightarrow> PresenceKey list \<Rightarrow> PresenceTracker
     \<Rightarrow> PresenceEvent list \<times> PresenceTracker" where
  "UpdateObserved inZone detected zones now ord2 ord3 pt =
     (let (st1, evs1) = seen_loop pt now zones inZone (pt_states pt);
          st2 = stale_loop now ord2 st1;
          (st3, evs3) = missed_loop pt now zones inZone detected ord3 st2
      in (evs1 @ evs3, pt\<lparr>pt_states := st3\<rparr>))"

text \<open>The legacy entry point: a synthetic negative track id per key that matched.\<close>

fun shim_loop ::
  "(PresenceKey \<times> bool) list \<Rightarrow> PresenceTracker \<Rightarrow> in_zone \<times> int list \<times> PresenceTracker" where
  "shim_loop [] pt = ([], [], pt)"
| "shim_loop ((key, matched) # rest) pt =
     (if \<not> matched then shim_loop rest pt
      else
        let (i, pt1) = (case shimIDs pt key of
                          Some i \<Rightarrow> (i, pt)
                        | None \<Rightarrow> let n = nextShim pt + 1
                                  in (- n, pt\<lparr>nextShim := n, shimIDs := (shimIDs pt)(key \<mapsto> - n)\<rparr>));
            (inZone, detected, pt2) = shim_loop rest pt1
        in ((key, [i]) # inZone, i # detected, pt2))"

definition Update ::
  "(PresenceKey \<times> bool) list \<Rightarrow> (int \<rightharpoonup> string) \<Rightarrow> gotime \<Rightarrow> PresenceKey list \<Rightarrow> PresenceKey list \<Rightarrow> PresenceTracker
     \<Rightarrow> PresenceEvent list \<times> PresenceTracker" where
  "Update zoneMatches zones now ord2 ord3 pt =
     (let (inZone, detected, pt1) = shim_loop zoneMatches pt
      in UpdateObserved inZone detected zones now ord2 ord3 pt1)"

definition GetState :: "PresenceKey \<Rightarrow> PresenceTracker \<Rightarrow> PresenceStatus \<times> gotime" where
  "GetState key pt =
     (case pt_states pt key of
        Some s \<Rightarrow> (status s, lastChanged s)
      | None \<Rightarrow> (PresenceAbsent, zeroTime))"

definition GetPresence :: "PresenceKey \<Rightarrow> PresenceTracker \<Rightarrow> bool \<times> gotime \<times> gotime" where
  "GetPresence key pt =
     (case pt_states pt key of
        Some s \<Rightarrow> (status s = PresencePresent, lastSeen s, lastChanged s)
      | None \<Rightarrow> (False, zeroTime, zeroTime))"

record ZonePresence =
  zp_ZoneID :: int
  zp_Label :: string
  zp_Present :: bool
  zp_LastSeen :: gotime
  zp_LastChanged :: gotime

definition AllPresence :: "PresenceTracker \<Rightarrow> PresenceKey \<rightharpoonup> ZonePresence" where
  "AllPresence pt = (\<lambda>key. map_option (\<lambda>s.
     \<lparr>zp_ZoneID = ZoneID key, zp_Label = Label key, zp_Present = (status s = PresencePresent),
      zp_LastSeen = lastSeen s, zp_LastChanged = lastChanged s\<rparr>) (pt_states pt key))"

section \<open>Refinement: a frame is one independent step per key\<close>

definition key_step ::
  "PresenceTracker \<Rightarrow> gotime \<Rightarrow> int list \<Rightarrow> int list \<Rightarrow> presenceState option
     \<Rightarrow> presenceState option \<times> PresenceEventType option" where
  "key_step pt now tracks detected so =
     (if tracks \<noteq> [] then
        map_prod Some id (seen_step pt now tracks (case so of Some s \<Rightarrow> s | None \<Rightarrow> newPresenceState))
      else case so of
        None \<Rightarrow> (None, None)
      | Some s \<Rightarrow> if drop_stale now s then (None, None)
                  else map_prod Some id (missed_step pt now detected s))"

definition of_key :: "PresenceKey \<Rightarrow> PresenceEvent \<Rightarrow> bool" where
  "of_key key e \<longleftrightarrow> pe_ZoneID e = ZoneID key \<and> pe_Label e = Label key"

lemma of_key_mk_event [simp]: "of_key k (mk_event zones now key ty) \<longleftrightarrow> key = k"
  by (auto simp: of_key_def mk_event_def)

lemma filter_emit [simp]:
  "filter (of_key k) (emit zones now key ty) = (if key = k then emit zones now key ty else [])"
  by (simp add: emit_def split: option.splits)

lemma emit_None [simp]: "emit zones now key None = []"
  by (simp add: emit_def)

lemma tracks_at_Cons [simp]:
  "tracks_at ((key, ts) # rest) k = (if key = k then ts else tracks_at rest k)"
  by (simp add: tracks_at_def)

lemma tracks_at_notin: "k \<notin> fst ` set inZone \<Longrightarrow> tracks_at inZone k = []"
  by (simp add: tracks_at_def map_of_eq_None_iff[symmetric])

lemma seen_loop_at:
  assumes "distinct (map fst inZone)" and "seen_loop pt now zones inZone st = (st', evs)"
  shows "(st' k, filter (of_key k) evs) =
     (if tracks_at inZone k = [] then (st k, [])
      else let r = seen_step pt now (tracks_at inZone k)
                     (case st k of Some s \<Rightarrow> s | None \<Rightarrow> newPresenceState)
           in (Some (fst r), emit zones now k (snd r)))"
  using assms
proof (induction inZone arbitrary: st st' evs)
  case Nil
  then show ?case by (simp add: tracks_at_def)
next
  case (Cons kt rest)
  obtain key tracks where kt: "kt = (key, tracks)" by force
  show ?case
  proof (cases "tracks = []")
    case True
    have "tracks_at rest key = []" using Cons.prems(1) kt by (simp add: tracks_at_notin)
    with True show ?thesis using Cons.prems Cons.IH[of st st' evs] kt
      by (cases "key = k") simp_all
  next
    case False
    define s0 where "s0 = (case st key of Some s \<Rightarrow> s | None \<Rightarrow> newPresenceState)"
    obtain s' ty where r: "seen_step pt now tracks s0 = (s', ty)" by force
    obtain st1 evs1 where l: "seen_loop pt now zones rest (st(key \<mapsto> s')) = (st1, evs1)" by force
    have e: "st' = st1" "evs = emit zones now key ty @ evs1"
      using Cons.prems(2) False kt r l by (simp_all add: s0_def)
    have "tracks_at rest key = []" using Cons.prems(1) kt by (simp add: tracks_at_notin)
    then show ?thesis using Cons.prems(1) Cons.IH[OF _ l] kt False r e
      by (cases "key = k") (simp_all add: s0_def)
  qed
qed

lemma stale_loop_at:
  "stale_loop now keys st k =
     (case st k of Some s \<Rightarrow> if k \<in> set keys \<and> drop_stale now s then None else Some s | None \<Rightarrow> None)"
  by (induction keys arbitrary: st) (auto split: option.splits if_splits)

lemma missed_loop_at:
  assumes "distinct keys" and "missed_loop pt now zones inZone detected keys st = (st', evs)"
  shows "(st' k, filter (of_key k) evs) =
     (if tracks_at inZone k = [] \<and> k \<in> set keys
      then case st k of
             None \<Rightarrow> (None, [])
           | Some s \<Rightarrow> (Some (fst (missed_step pt now detected s)),
                        emit zones now k (snd (missed_step pt now detected s)))
      else (st k, []))"
  using assms
proof (induction keys arbitrary: st st' evs)
  case (Cons key keys)
  show ?case
  proof (cases "tracks_at inZone key = [] \<and> st key \<noteq> None")
    case True
    then obtain s0 where s0: "st key = Some s0" by auto
    obtain s' ty where r: "missed_step pt now detected s0 = (s', ty)" by force
    obtain st1 evs1 where l: "missed_loop pt now zones inZone detected keys (st(key \<mapsto> s')) = (st1, evs1)"
      by force
    have e: "st' = st1" "evs = emit zones now key ty @ evs1"
      using Cons.prems(2) True s0 r l by simp_all
    show ?thesis using Cons.prems(1) Cons.IH[OF _ l] True s0 r e by (cases "key = k") simp_all
  next
    case False
    then have "missed_loop pt now zones inZone detected keys st = (st', evs)"
      using Cons.prems(2) by (auto split: if_splits)
    then show ?thesis using Cons.prems(1) Cons.IH[of st st' evs] False
      by (cases "key = k") (auto split: option.splits)
  qed
qed simp

lemma seen_step_lastSeen: "lastSeen (fst (seen_step pt now tracks s)) = now"
  by (simp add: seen_step_def Let_def)

lemma seen_step_not_stale: "\<not> drop_stale now (fst (seen_step pt now tracks s))"
  by (simp add: drop_stale_def seen_step_lastSeen unit_defs)

lemma UpdateObserved_at:
  assumes "distinct (map fst inZone)"
    and "set ord2 = dom (fst (seen_loop pt now zones inZone (pt_states pt)))"
    and "distinct ord3"
    and "set ord3 = dom (stale_loop now ord2 (fst (seen_loop pt now zones inZone (pt_states pt))))"
    and "UpdateObserved inZone detected zones now ord2 ord3 pt = (evs, pt')"
  shows "(pt_states pt' k, filter (of_key k) evs) =
     (fst (key_step pt now (tracks_at inZone k) detected (pt_states pt k)),
      emit zones now k (snd (key_step pt now (tracks_at inZone k) detected (pt_states pt k))))"
proof -
  obtain st1 evs1 where l1: "seen_loop pt now zones inZone (pt_states pt) = (st1, evs1)" by force
  obtain st3 evs3 where
    l3: "missed_loop pt now zones inZone detected ord3 (stale_loop now ord2 st1) = (st3, evs3)" by force
  have e: "evs = evs1 @ evs3" "pt_states pt' = st3"
    using assms(5) l1 l3 by (auto simp: UpdateObserved_def)
  note s1 = seen_loop_at[OF assms(1) l1, of k] and s3 = missed_loop_at[OF assms(3) l3, of k]
  have in2: "k \<in> set ord2 \<longleftrightarrow> st1 k \<noteq> None" using assms(2) l1 by auto
  have in3: "k \<in> set ord3 \<longleftrightarrow> stale_loop now ord2 st1 k \<noteq> None" using assms(4) l1 by auto
  show ?thesis
  proof (cases "tracks_at inZone k = []")
    case True
    then have "st1 k = pt_states pt k" "filter (of_key k) evs1 = []" using s1 by simp_all
    then show ?thesis using s3 True e in2 in3
      by (auto simp: key_step_def stale_loop_at split: option.splits if_splits)
  next
    case False
    then have "stale_loop now ord2 st1 k = st1 k"
      using s1 by (auto simp: stale_loop_at Let_def seen_step_not_stale split: option.splits)
    then show ?thesis using s1 s3 False e by (simp add: key_step_def Let_def)
  qed
qed

text \<open>
  C35. One analysed frame is one independent step of every key's state machine: whatever order
  Go ranges over its maps in, the new state of a key and the event emitted for it are those of
  \<open>key_step\<close> on that key's old state alone.
\<close>

theorem UpdateObserved_refines_key_step:
  assumes "distinct (map fst inZone)"
    and "set ord2 = dom (fst (seen_loop pt now zones inZone (pt_states pt)))"
    and "distinct ord3"
    and "set ord3 = dom (stale_loop now ord2 (fst (seen_loop pt now zones inZone (pt_states pt))))"
  shows "let (evs, pt') = UpdateObserved inZone detected zones now ord2 ord3 pt;
             (s', ty) = key_step pt now (tracks_at inZone k) detected (pt_states pt k)
         in pt_states pt' k = s' \<and> filter (of_key k) evs = emit zones now k ty"
proof -
  obtain evs pt' where "UpdateObserved inZone detected zones now ord2 ord3 pt = (evs, pt')" by force
  from this UpdateObserved_at[OF assms this, of k] show ?thesis by (simp add: split_def)
qed

definition car_drive :: PresenceKey where
  "car_drive = \<lparr>ZoneID = 1, Label = ''car''\<rparr>"

theorem UpdateObserved_refines_key_step_witness:
  "let (evs, pt') = UpdateObserved [(car_drive, [7])] [7] Map.empty 5 [car_drive] [car_drive] NewPresenceTracker;
       (s', ty) = key_step NewPresenceTracker 5 [7] [7] None
   in pt_states pt' car_drive = s' \<and> filter (of_key car_drive) evs = emit Map.empty 5 car_drive ty"
  using UpdateObserved_refines_key_step
    [of "[(car_drive, [7])]" "[car_drive]" NewPresenceTracker 5 Map.empty "[car_drive]" "[7]" car_drive]
  by (simp add: NewPresenceTracker_def seen_step_def newPresenceState_def time_simps drop_stale_def)

section \<open>Histories of one key\<close>

text \<open>
  A frame as one key sees it, and the runs of its state machine: frames newest first, events
  newest first.  Frame times are positive (the zero time marks an unset field) and do not go
  back.
\<close>

record frame =
  fr_now :: gotime
  fr_in :: "int list"
  fr_detected :: "int list"

abbreviation frame_step ::
  "PresenceTracker \<Rightarrow> frame \<Rightarrow> presenceState option \<Rightarrow> presenceState option \<times> PresenceEventType option" where
  "frame_step pt f \<equiv> key_step pt (fr_now f) (fr_in f) (fr_detected f)"

inductive presence_run ::
  "PresenceTracker \<Rightarrow> frame list \<Rightarrow> presenceState option \<Rightarrow> PresenceEventType list \<Rightarrow> bool"
  for pt :: PresenceTracker where
  start: "presence_run pt [] None []"
| frame: "presence_run pt h so evs \<Longrightarrow> 0 < fr_now f \<Longrightarrow> (\<forall>g\<in>set h. fr_now g \<le> fr_now f) \<Longrightarrow>
     frame_step pt f so = (so', ty) \<Longrightarrow>
     presence_run pt (f # h) so' (case ty of None \<Rightarrow> evs | Some t \<Rightarrow> t # evs)"

inductive_cases presence_run_ConsE: "presence_run pt (f # h) so evs"

text \<open>The tracks of the newest frame with a detection inside the zone.\<close>

fun last_in :: "frame list \<Rightarrow> int list" where
  "last_in [] = []"
| "last_in (f # h) = (if fr_in f \<noteq> [] then fr_in f else last_in h)"

text \<open>\<open>ever_since P t h\<close>: every frame since one taken at time \<open>t\<close> satisfies \<open>P\<close>.\<close>

definition ever_since :: "(frame \<Rightarrow> bool) \<Rightarrow> gotime \<Rightarrow> frame list \<Rightarrow> bool" where
  "ever_since P t h \<longleftrightarrow> (\<exists>h1 f h2. h = h1 @ f # h2 \<and> fr_now f = t \<and> (\<forall>g\<in>set (h1 @ [f]). P g))"

lemma ever_since_now: "P f \<Longrightarrow> ever_since P (fr_now f) (f # h)"
  unfolding ever_since_def by (rule exI[of _ "[]"]) auto

lemma ever_since_step: "P f \<Longrightarrow> ever_since P t h \<Longrightarrow> ever_since P t (f # h)"
  unfolding ever_since_def
proof (elim exE conjE)
  fix h1 g h2 assume "P f" "h = h1 @ g # h2" "fr_now g = t" "\<forall>g\<in>set (h1 @ [g]). P g"
  then show "\<exists>h1' f' h2'. f # h = h1' @ f' # h2' \<and> fr_now f' = t \<and> (\<forall>g\<in>set (h1' @ [f']). P g)"
    by (intro exI[of _ "f # h1"] exI[of _ g] exI[of _ h2]) auto
qed

lemma ever_since_mono: "ever_since P t h \<Longrightarrow> (\<And>g. P g \<Longrightarrow> Q g) \<Longrightarrow> ever_since Q t h"
  unfolding ever_since_def by blast

definition inside :: "frame \<Rightarrow> bool" where
  "inside f \<longleftrightarrow> fr_in f \<noteq> []"

definition elsewhere :: "int list \<Rightarrow> frame \<Rightarrow> bool" where
  "elsewhere ms f \<longleftrightarrow> fr_in f = [] \<and> membersStillDetected ms (fr_detected f)"

definition unseen :: "int list \<Rightarrow> frame \<Rightarrow> bool" where
  "unseen ms f \<longleftrightarrow> fr_in f = [] \<and> \<not> membersStillDetected ms (fr_detected f)"

definition presence_inv :: "frame list \<Rightarrow> presenceState \<Rightarrow> bool" where
  "presence_inv h s \<longleftrightarrow>
     (enteringSince s \<noteq> 0 \<longrightarrow> status s \<noteq> PresencePresent \<and> ever_since inside (enteringSince s) h) \<and>
     (status s = PresencePresent \<longrightarrow> members s = last_in h) \<and>
     (exitingSince s \<noteq> 0 \<longrightarrow> status s = PresencePresent \<and> ever_since (elsewhere (last_in h)) (exitingSince s) h) \<and>
     (lostSince s \<noteq> 0 \<longrightarrow> status s = PresencePresent \<and> ever_since (unseen (last_in h)) (lostSince s) h)"

lemma presence_inv_new: "presence_inv h newPresenceState"
  by (simp add: presence_inv_def newPresenceState_def time_simps)

lemma presence_inv_seen:
  assumes "presence_inv h s" and "0 < fr_now f" and "fr_in f \<noteq> []"
  shows "presence_inv (f # h) (fst (seen_step pt (fr_now f) (fr_in f) s))"
  using assms ever_since_now[of inside f h] ever_since_step[of inside f]
  by (auto simp: presence_inv_def seen_step_def Let_def time_simps inside_def)

lemma presence_inv_missed:
  assumes "presence_inv h s" and "0 < fr_now f" and "fr_in f = []"
  shows "presence_inv (f # h) (fst (missed_step pt (fr_now f) (fr_detected f) s))"
  using assms ever_since_now[of "elsewhere (last_in h)" f h] ever_since_step[of "elsewhere (last_in h)" f]
    ever_since_now[of "unseen (last_in h)" f h] ever_since_step[of "unseen (last_in h)" f]
  by (auto simp: presence_inv_def missed_step_def Let_def time_simps elsewhere_def unseen_def)

lemma presence_run_inv: "presence_run pt h so evs \<Longrightarrow> so = Some s \<Longrightarrow> presence_inv h s"
proof (induction arbitrary: s rule: presence_run.induct)
  case (frame h so evs f so' ty)
  have inv: "presence_inv h (case so of Some s \<Rightarrow> s | None \<Rightarrow> newPresenceState)"
    using frame.IH by (auto simp: presence_inv_new split: option.splits)
  show ?case
    using frame.hyps(2,4) frame.prems frame.IH presence_inv_seen[OF inv frame.hyps(2)]
      presence_inv_missed[of h _ f pt]
    by (cases "fr_in f = []")
       (auto simp: key_step_def map_prod_def split_def split: option.splits if_splits)
qed simp

definition debounces_ok :: "PresenceTracker \<Rightarrow> bool" where
  "debounces_ok pt \<longleftrightarrow> (\<forall>d\<in>{debounceEnter pt, debounceExit pt, debounceLeave pt}. 0 < d \<and> d \<le> maxDuration)"

lemma debounces_ok_New: "debounces_ok NewPresenceTracker"
  by (simp add: debounces_ok_def NewPresenceTracker_def lostReconfirms_def stationaryReconfirmInterval_def
      time_simps duration_limits)

lemma debounce_iff:
  assumes "debounces_ok pt"
  shows "debounceEnter pt \<le> tsub t u \<longleftrightarrow> u + debounceEnter pt \<le> t"
    and "debounceExit pt \<le> tsub t u \<longleftrightarrow> u + debounceExit pt \<le> t"
    and "debounceLeave pt \<le> tsub t u \<longleftrightarrow> u + debounceLeave pt \<le> t"
  using assms by (auto simp: debounces_ok_def duration_limits intro!: tsub_ge_iff)

text \<open>
  C36. Every event rests on evidence that lasted its whole debounce time.  A zone is entered only
  when every frame for \<open>debounceEnter\<close> had a detection inside it.  It is left only when, for
  \<open>debounceExit\<close>, every frame had no detection inside but detected one of the tracks last seen
  inside somewhere else.  It becomes unknown only when, for \<open>debounceLeave\<close>, no frame detected
  any of them at all.  In particular an object that is merely lost is never reported as having
  left.
\<close>

theorem presence_event_evidence:
  assumes "debounces_ok pt" and "presence_run pt h so evs" and "0 < fr_now f"
    and "frame_step pt f so = (so', Some ty)"
  shows "case ty of
     EventZoneEnter \<Rightarrow> \<exists>t. ever_since inside t (f # h) \<and> t + debounceEnter pt \<le> fr_now f
   | EventZoneLeave \<Rightarrow> \<exists>t. ever_since (elsewhere (last_in h)) t (f # h) \<and> t + debounceExit pt \<le> fr_now f
   | EventZoneUnknown \<Rightarrow> \<exists>t. ever_since (unseen (last_in h)) t (f # h) \<and> t + debounceLeave pt \<le> fr_now f"
proof (cases so)
  case None
  then show ?thesis using assms(4)
    by (auto simp: key_step_def seen_step_def newPresenceState_def time_simps split: if_splits)
next
  case (Some s)
  have inv: "presence_inv h s" using presence_run_inv[OF assms(2) Some] .
  show ?thesis
    using assms(4) Some inv
      ever_since_step[of inside f "enteringSince s" h]
      ever_since_step[of "elsewhere (last_in h)" f "exitingSince s" h]
      ever_since_step[of "unseen (last_in h)" f "lostSince s" h]
    by (auto simp: key_step_def seen_step_def missed_step_def Let_def isZero_def zeroTime_def
        debounce_iff[OF assms(1)] presence_inv_def inside_def elsewhere_def unseen_def
        split: if_splits)
qed

definition at_in :: "gotime \<Rightarrow> int list \<Rightarrow> int list \<Rightarrow> frame" where
  "at_in t ts ds = \<lparr>fr_now = t, fr_in = ts, fr_detected = ds\<rparr>"

lemma run_first_frame:
  "presence_run NewPresenceTracker [at_in 1 [7] [7]]
     (Some (newPresenceState\<lparr>lastSeen := 1, members := [7], enteringSince := 1\<rparr>)) []"
  using presence_run.frame[OF presence_run.start, of "at_in 1 [7] [7]" NewPresenceTracker]
  by (simp add: at_in_def key_step_def seen_step_def newPresenceState_def time_simps)

theorem presence_event_evidence_witness:
  "\<exists>t. ever_since inside t [at_in (1 + 3 * Second) [7] [7], at_in 1 [7] [7]]
       \<and> t + debounceEnter NewPresenceTracker \<le> 1 + 3 * Second"
proof -
  have step: "frame_step NewPresenceTracker (at_in (1 + 3 * Second) [7] [7])
      (Some (newPresenceState\<lparr>lastSeen := 1, members := [7], enteringSince := 1\<rparr>)) =
    (Some (newPresenceState\<lparr>lastSeen := 1 + 3 * Second, members := [7], status := PresencePresent,
             lastChanged := 1 + 3 * Second\<rparr>), Some EventZoneEnter)"
    by (simp add: at_in_def key_step_def seen_step_def newPresenceState_def NewPresenceTracker_def
        time_simps in64_def)
  have pos: "0 < fr_now (at_in (1 + 3 * Second) [7] [7])" by (simp add: at_in_def time_simps)
  from presence_event_evidence[OF debounces_ok_New run_first_frame pos step]
  show ?thesis by (simp add: at_in_def)
qed

subsection \<open>What a consumer of the events knows\<close>

definition status_of :: "presenceState option \<Rightarrow> PresenceStatus" where
  "status_of so = (case so of None \<Rightarrow> PresenceAbsent | Some s \<Rightarrow> status s)"

text \<open>The status the newest event announces.\<close>

fun replay :: "PresenceEventType list \<Rightarrow> PresenceStatus" where
  "replay [] = PresenceAbsent"
| "replay (EventZoneEnter # evs) = PresencePresent"
| "replay (EventZoneLeave # evs) = PresenceAbsent"
| "replay (EventZoneUnknown # evs) = PresenceUnknown"

text \<open>Enters and the two ways out of a presence alternate.\<close>

fun alternating :: "PresenceEventType list \<Rightarrow> bool" where
  "alternating [] = True"
| "alternating (ty # evs) = ((ty = EventZoneEnter) = (replay evs \<noteq> PresencePresent) \<and> alternating evs)"

lemma key_step_status:
  assumes "key_step pt now tracks detected so = (so', ty)"
  shows "case ty of
     None \<Rightarrow> status_of so' = status_of so
   | Some t \<Rightarrow> status_of so' = replay [t] \<and> (t = EventZoneEnter) = (status_of so \<noteq> PresencePresent)"
  using assms
  by (auto simp: key_step_def seen_step_def missed_step_def newPresenceState_def status_of_def
      drop_stale_def Let_def split: if_splits option.splits)

text \<open>
  The events of a key tell its status exactly: at every moment the status the tracker reports
  is the one announced by the newest event, and enter events strictly alternate with leave or
  unknown events.
\<close>

theorem presence_events_tell_status:
  "presence_run pt h so evs \<Longrightarrow> status_of so = replay evs \<and> alternating evs"
proof (induction rule: presence_run.induct)
  case (frame h so evs f so' ty)
  show ?case
  proof (cases ty)
    case None
    then show ?thesis using key_step_status[OF frame.hyps(4)] frame.IH by simp
  next
    case (Some t)
    then show ?thesis using key_step_status[OF frame.hyps(4)] frame.IH by (cases t) simp_all
  qed
qed (simp add: status_of_def)

theorem presence_events_tell_status_witness:
  "status_of (Some (newPresenceState\<lparr>lastSeen := 1, members := [7], enteringSince := 1\<rparr>)) = PresenceAbsent"
  using presence_events_tell_status[OF run_first_frame] by simp

subsection \<open>Progress\<close>

definition entering_by :: "gotime \<Rightarrow> presenceState option \<Rightarrow> bool" where
  "entering_by t so \<longleftrightarrow>
     (\<exists>s. so = Some s \<and> (status s = PresencePresent \<or> 0 < enteringSince s \<and> enteringSince s \<le> t))"

definition leaving_by :: "gotime \<Rightarrow> (presenceState \<Rightarrow> gotime) \<Rightarrow> presenceState option \<Rightarrow> bool" where
  "leaving_by t since so \<longleftrightarrow>
     (\<forall>s. so = Some s \<and> status s = PresencePresent \<longrightarrow> 0 < since s \<and> since s \<le> t)"

lemma ever_since_Cons:
  "ever_since P t (f # h) \<longleftrightarrow> P f \<and> (fr_now f = t \<or> ever_since P t h)"
proof
  assume "ever_since P t (f # h)"
  then obtain h1 g h2 where d: "f # h = h1 @ g # h2" "fr_now g = t" "\<forall>g\<in>set (h1 @ [g]). P g"
    by (auto simp: ever_since_def)
  show "P f \<and> (fr_now f = t \<or> ever_since P t h)"
  proof (cases h1)
    case Nil
    then show ?thesis using d by auto
  next
    case (Cons f' h1')
    then have "ever_since P t h" using d unfolding ever_since_def
      by (intro exI[of _ h1'] exI[of _ g] exI[of _ h2]) auto
    then show ?thesis using d Cons by auto
  qed
qed (auto intro: ever_since_now ever_since_step)

lemma ever_since_time:
  "ever_since P t h \<Longrightarrow> \<forall>g\<in>set h. 0 < fr_now g \<and> fr_now g \<le> u \<Longrightarrow> 0 < t \<and> t \<le> u"
  unfolding ever_since_def by auto

lemma run_times_pos: "presence_run pt h so evs \<Longrightarrow> g \<in> set h \<Longrightarrow> 0 < fr_now g"
  by (induction rule: presence_run.induct) auto

lemma run_since_bounds:
  assumes "presence_run pt h (Some s) evs" and "\<forall>g\<in>set h. fr_now g \<le> u"
    and "x \<in> {enteringSince s, exitingSince s, lostSince s}" and "x \<noteq> 0"
  shows "0 < x \<and> x \<le> u"
proof -
  have "\<forall>g\<in>set h. 0 < fr_now g \<and> fr_now g \<le> u" using assms(2) run_times_pos[OF assms(1)] by blast
  moreover have "\<exists>P. ever_since P x h"
    using presence_run_inv[OF assms(1) refl] assms(3,4) by (auto simp: presence_inv_def)
  ultimately show ?thesis using ever_since_time by blast
qed

lemma run_entering_by: "presence_run pt h so evs \<Longrightarrow> ever_since inside t h \<Longrightarrow> entering_by t so"
proof (induction rule: presence_run.induct)
  case (frame h so evs f so' ty)
  have f: "fr_in f \<noteq> []" and le: "fr_now f = t \<or> entering_by t so"
    using frame.prems frame.IH by (auto simp: inside_def ever_since_Cons)
  have "so = Some s \<Longrightarrow> enteringSince s \<noteq> 0 \<Longrightarrow> 0 < enteringSince s \<and> enteringSince s \<le> fr_now f" for s
    using run_since_bounds[of pt h s evs] frame.hyps(1,3) by blast
  then show ?case using frame.hyps(2,4) f le
    by (auto simp: key_step_def seen_step_def newPresenceState_def entering_by_def Let_def time_simps
        split: option.splits if_splits)
qed (simp add: ever_since_def)

lemma run_exiting_by:
  "presence_run pt h so evs \<Longrightarrow> ever_since (elsewhere (last_in h)) t h \<Longrightarrow> leaving_by t exitingSince so"
proof (induction rule: presence_run.induct)
  case (frame h so evs f so' ty)
  have f: "fr_in f = []" "membersStillDetected (last_in h) (fr_detected f)"
    and le: "fr_now f = t \<or> leaving_by t exitingSince so"
    using frame.prems frame.IH by (auto simp: elsewhere_def ever_since_Cons split: if_splits)
  have "members s = last_in h \<and> (exitingSince s = 0 \<or> 0 < exitingSince s \<and> exitingSince s \<le> fr_now f)"
    if "so = Some s" "status s = PresencePresent" for s
    using run_since_bounds[of pt h s evs] frame.hyps(1,3) that presence_run_inv[OF frame.hyps(1) that(1)]
    by (auto simp: presence_inv_def)
  then show ?case using frame.hyps(2,4) f le
    by (fastforce simp: key_step_def missed_step_def leaving_by_def Let_def time_simps
        split: option.splits if_splits)
qed (simp add: ever_since_def)

lemma run_lost_by:
  "presence_run pt h so evs \<Longrightarrow> ever_since (unseen (last_in h)) t h \<Longrightarrow> leaving_by t lostSince so"
proof (induction rule: presence_run.induct)
  case (frame h so evs f so' ty)
  have f: "fr_in f = []" "\<not> membersStillDetected (last_in h) (fr_detected f)"
    and le: "fr_now f = t \<or> leaving_by t lostSince so"
    using frame.prems frame.IH by (auto simp: unseen_def ever_since_Cons split: if_splits)
  have "members s = last_in h \<and> (lostSince s = 0 \<or> 0 < lostSince s \<and> lostSince s \<le> fr_now f)"
    if "so = Some s" "status s = PresencePresent" for s
    using run_since_bounds[of pt h s evs] frame.hyps(1,3) that presence_run_inv[OF frame.hyps(1) that(1)]
    by (auto simp: presence_inv_def)
  then show ?case using frame.hyps(2,4) f le
    by (fastforce simp: key_step_def missed_step_def leaving_by_def Let_def time_simps
        split: option.splits if_splits)
qed (simp add: ever_since_def)

text \<open>
  Sustained evidence is reported: once every frame for \<open>debounceEnter\<close> had a detection
  inside the zone it is present, and once every frame for \<open>debounceExit\<close> saw the members
  elsewhere, or every frame for \<open>debounceLeave\<close> saw none of them, it is not present any more.
\<close>

theorem presence_progress:
  assumes "debounces_ok pt" and "presence_run pt (f # h) so evs"
  shows "(ever_since inside t (f # h) \<and> t + debounceEnter pt \<le> fr_now f \<longrightarrow> status_of so = PresencePresent) \<and>
     (ever_since (elsewhere (last_in h)) t (f # h) \<and> t + debounceExit pt \<le> fr_now f
        \<longrightarrow> status_of so \<noteq> PresencePresent) \<and>
     (ever_since (unseen (last_in h)) t (f # h) \<and> t + debounceLeave pt \<le> fr_now f
        \<longrightarrow> status_of so \<noteq> PresencePresent)"
proof -
  from assms(2) obtain so0 evs0 ty where run: "presence_run pt h so0 evs0"
    and step: "frame_step pt f so0 = (so, ty)" and pos: "0 < fr_now f"
    by (auto elim: presence_run_ConsE)
  have inv: "so0 = Some s \<Longrightarrow> presence_inv h s" for s by (rule presence_run_inv[OF run])
  have pd: "0 < debounceEnter pt" "0 < debounceExit pt" "0 < debounceLeave pt"
    using assms(1) by (auto simp: debounces_ok_def)
  have sub: "ever_since P t (f # h) \<Longrightarrow> t < fr_now f \<Longrightarrow> P f \<and> ever_since P t h" for P
    by (auto simp: ever_since_Cons)
  have "status_of so = PresencePresent"
    if "ever_since inside t (f # h)" "t + debounceEnter pt \<le> fr_now f"
    using sub[OF that(1)] that(2) pd run_entering_by[OF run, of t] step pos
    by (auto simp: entering_by_def key_step_def seen_step_def Let_def status_of_def inside_def
        isZero_def zeroTime_def debounce_iff[OF assms(1)] split: if_splits)
  moreover have "status_of so \<noteq> PresencePresent"
    if "ever_since (elsewhere (last_in h)) t (f # h)" "t + debounceExit pt \<le> fr_now f"
    using sub[OF that(1)] that(2) pd run_exiting_by[OF run, of t] step pos inv
    by (auto simp: leaving_by_def key_step_def missed_step_def Let_def status_of_def elsewhere_def
        isZero_def zeroTime_def debounce_iff[OF assms(1)] presence_inv_def split: if_splits option.splits)
  moreover have "status_of so \<noteq> PresencePresent"
    if "ever_since (unseen (last_in h)) t (f # h)" "t + debounceLeave pt \<le> fr_now f"
    using sub[OF that(1)] that(2) pd run_lost_by[OF run, of t] step pos inv
    by (auto simp: leaving_by_def key_step_def missed_step_def Let_def status_of_def unseen_def
        isZero_def zeroTime_def debounce_iff[OF assms(1)] presence_inv_def split: if_splits option.splits)
  ultimately show ?thesis by blast
qed

lemma run_second_frame:
  "presence_run NewPresenceTracker [at_in (1 + 3 * Second) [7] [7], at_in 1 [7] [7]]
     (Some (newPresenceState\<lparr>lastSeen := 1 + 3 * Second, members := [7], status := PresencePresent,
              lastChanged := 1 + 3 * Second\<rparr>)) [EventZoneEnter]"
  using presence_run.frame[OF run_first_frame, of "at_in (1 + 3 * Second) [7] [7]"]
  by (simp add: at_in_def key_step_def seen_step_def newPresenceState_def NewPresenceTracker_def
      time_simps in64_def)

theorem presence_progress_witness:
  "status_of (Some (newPresenceState\<lparr>lastSeen := 1 + 3 * Second, members := [7], status := PresencePresent,
              lastChanged := 1 + 3 * Second\<rparr>)) = PresencePresent"
  using presence_progress[OF debounces_ok_New run_second_frame, of 1]
  by (simp add: ever_since_Cons at_in_def inside_def NewPresenceTracker_def)

end
