(* ===== verification/Zones.thy ===== *)
theory Zones
  imports Tracker Presence
begin

text \<open>
  Zones: \<^verbatim>\<open>internal/camera/zone.go\<close>.  A tracked object is put into the zones whose polygon contains
  the bottom centre of its box; what the presence state machine is told is derived from that.

  Coordinates are finite \<^verbatim>\<open>float64\<close> values.  The one division whose divisor can be zero,
  in \<open>pointInPolygon\<close>, has its case written out: a positive numerator gives plus infinity (any \<open>x\<close> is
  below it), a negative one minus infinity and zero NaN (no \<open>x\<close> is below either).
\<close>

section \<open>Zones\<close>

record Zone =
  z_ID :: int
  z_Name :: string
  z_Points :: "float64 list list"
  z_Labels :: "string list"
  z_TrackPresence :: bool
  z_Enabled :: bool

definition zoneMatchesLabel :: "Zone \<Rightarrow> string \<Rightarrow> bool" where
  "zoneMatchesLabel z label = (z_Labels z = [] \<or> list_ex (\<lambda>l. l = label) (z_Labels z))"

definition edge_epsilon :: float64 where
  "edge_epsilon = fl64 (1 / 10 ^ 12)"

text \<open>Does the edge from \<open>vj\<close> to \<open>vi\<close> cross the ray to the right of the point?\<close>

definition intersects :: "float64 \<Rightarrow> float64 \<Rightarrow> float64 list \<Rightarrow> float64 list \<Rightarrow> bool" where
  "intersects x y vi vj =
     (let xi = vi ! 0; yi = vi ! 1; xj = vj ! 0; yj = vj ! 1
      in (yi > y) \<noteq> (yj > y) \<and>
         (let num = fmul (fsub xj xi) (fsub y yi);
              den = fadd (fsub yj yi) edge_epsilon
          in if den = 0 then num > 0 else x < fadd (fdiv num den) xi))"

text \<open>The loop of \<open>pointInPolygon\<close>, with the previous vertex and \<^verbatim>\<open>inside\<close>.\<close>

fun polygon_loop :: "float64 \<Rightarrow> float64 \<Rightarrow> float64 list \<Rightarrow> float64 list list \<Rightarrow> bool \<Rightarrow> bool" where
  "polygon_loop x y vj [] ins = ins"
| "polygon_loop x y vj (vi # ps) ins =
     (if length vi \<noteq> 2 \<or> length vj \<noteq> 2 then polygon_loop x y vi ps ins
      else polygon_loop x y vi ps (if intersects x y vi vj then \<not> ins else ins))"

definition pointInPolygon :: "float64 \<Rightarrow> float64 \<Rightarrow> float64 list list \<Rightarrow> bool" where
  "pointInPolygon x y polygon = (if polygon = [] then False else polygon_loop x y (last polygon) polygon False)"

fun MatchZones :: "Zone list \<Rightarrow> box \<Rightarrow> string \<Rightarrow> int \<Rightarrow> int \<Rightarrow> Zone list" where
  "MatchZones zones (x1, y1, x2, y2) label frameW frameH =
     (if frameW \<le> 0 \<or> frameH \<le> 0 then []
      else if x2 \<le> x1 \<or> y2 \<le> y1 then []
      else
        let ax = fdiv (fdiv (float_of_int (wrap64 (x1 + x2))) 2) (float_of_int frameW);
            ay = fdiv (float_of_int y2) (float_of_int frameH)
        in filter (\<lambda>z. z_Enabled z \<and> zoneMatchesLabel z label \<and> \<not> length (z_Points z) < 3 \<and>
                       pointInPolygon ax ay (z_Points z)) zones)"

section \<open>What presence is told\<close>

text \<open>\<^verbatim>\<open>inZone[key][id] = true\<close> and \<^verbatim>\<open>detected[id] = true\<close>.\<close>

definition add_id :: "int \<Rightarrow> int list \<Rightarrow> int list" where
  "add_id i ids = (if i \<in> set ids then ids else ids @ [i])"

fun add_in_zone :: "PresenceKey \<Rightarrow> int \<Rightarrow> in_zone \<Rightarrow> in_zone" where
  "add_in_zone key i [] = [(key, [i])]"
| "add_in_zone key i ((k, ids) # m) = (if k = key then (k, add_id i ids) # m else (k, ids) # add_in_zone key i m)"

definition zone_keys :: "TrackedObject \<Rightarrow> Zone list \<Rightarrow> PresenceKey list" where
  "zone_keys obj matched = map (\<lambda>z. \<lparr>ZoneID = z_ID z, Label = to_Label obj\<rparr>) (filter z_TrackPresence matched)"

type_synonym observations = "in_zone \<times> int list \<times> (int \<rightharpoonup> Zone list)"

definition match_object :: "Zone list \<Rightarrow> int \<Rightarrow> int \<Rightarrow> observations \<Rightarrow> TrackedObject \<Rightarrow> observations" where
  "match_object zones frameW frameH obs obj =
     (case obs of (inZone, detected, trackZones) \<Rightarrow>
        let matched = MatchZones zones (to_Box obj) (to_Label obj) frameW frameH;
            trackZones' = trackZones(to_TrackID obj \<mapsto> matched)
        in if \<not> to_Detected obj then (inZone, detected, trackZones')
           else (fold (\<lambda>key m. add_in_zone key (to_TrackID obj) m) (zone_keys obj matched) inZone,
                 add_id (to_TrackID obj) detected, trackZones'))"

definition matchZones :: "Zone list \<Rightarrow> TrackedObject list \<Rightarrow> int \<Rightarrow> int \<Rightarrow> observations" where
  "matchZones zones tracked frameW frameH = foldl (match_object zones frameW frameH) ([], [], Map.empty) tracked"

section \<open>Polygons\<close>

text \<open>The edges the loop looks at, and the reference reading: an odd number of crossings.\<close>

definition polygon_edges :: "float64 list list \<Rightarrow> (float64 list \<times> float64 list) list" where
  "polygon_edges ps = (if ps = [] then [] else zip ps (last ps # butlast ps))"

definition crossing :: "float64 \<Rightarrow> float64 \<Rightarrow> float64 list \<times> float64 list \<Rightarrow> bool" where
  "crossing x y e \<longleftrightarrow> length (fst e) = 2 \<and> length (snd e) = 2 \<and> intersects x y (fst e) (snd e)"

lemma polygon_loop_step: "polygon_loop x y vj (p # ps) ins = polygon_loop x y p ps (ins \<noteq> crossing x y (p, vj))"
  by (cases ins) (auto simp: crossing_def)

lemma polygon_loop_parity:
  "polygon_loop x y vj ps ins \<longleftrightarrow> ins \<noteq> odd (length (filter (crossing x y) (zip ps (vj # butlast ps))))"
proof (induction ps arbitrary: vj ins)
  case (Cons p ps)
  have "zip (p # ps) (vj # butlast (p # ps)) = (p, vj) # zip ps (p # butlast ps)" by (cases ps) auto
  then show ?case unfolding polygon_loop_step Cons.IH by auto
qed simp

lemma pointInPolygon_odd:
  "pointInPolygon x y ps \<longleftrightarrow> odd (size (filter_mset (crossing x y) (mset (polygon_edges ps))))"
proof (cases "ps = []")
  case False
  have "mset (filter (crossing x y) (polygon_edges ps)) = filter_mset (crossing x y) (mset (polygon_edges ps))" by simp
  then have "length (filter (crossing x y) (polygon_edges ps)) = size (filter_mset (crossing x y) (mset (polygon_edges ps)))"
    by (metis size_mset)
  then show ?thesis using False polygon_loop_parity[of x y "last ps" ps False]
    by (simp add: pointInPolygon_def polygon_edges_def)
qed (simp add: pointInPolygon_def polygon_edges_def)


lemma polygon_edges_rotate1: "mset (polygon_edges (rotate1 ps)) = mset (polygon_edges ps)"
proof (cases ps)
  case (Cons p qs)
  show ?thesis
  proof (cases "qs = []")
    case False
    then have "zip (qs @ [p]) ((p # butlast qs) @ [last qs]) = zip qs (p # butlast qs) @ [(p, last qs)]"
      by (subst zip_append) (simp_all add: Suc_pred)
    moreover have "(p # butlast qs) @ [last qs] = p # qs" using False by simp
    ultimately show ?thesis using Cons False by (simp add: polygon_edges_def)
  qed (simp add: Cons polygon_edges_def)
qed (simp add: polygon_edges_def)

text \<open>
  A point is inside a polygon exactly when an odd number of its edges, counted with the closing
  one and skipping those with a malformed vertex, cross the ray to its right; so the answer does not
  depend on the vertex the list of points starts with.
\<close>

theorem polygon_test_rotation:
  "pointInPolygon x y (rotate n ps) = pointInPolygon x y ps \<and>
   pointInPolygon x y ps = odd (length (filter (crossing x y) (polygon_edges ps)))"
proof
  have "mset (polygon_edges (rotate n ps)) = mset (polygon_edges ps)"
    by (induction n) (simp_all add: polygon_edges_rotate1)
  then show "pointInPolygon x y (rotate n ps) = pointInPolygon x y ps" by (simp add: pointInPolygon_odd)
  show "pointInPolygon x y ps = odd (length (filter (crossing x y) (polygon_edges ps)))"
    by (metis pointInPolygon_odd mset_filter size_mset)
qed

section \<open>Observations\<close>

lemma set_add_id [simp]: "set (add_id i ids) = insert i (set ids)"
  by (auto simp: add_id_def)

lemma tracks_at_add:
  "set (tracks_at (add_in_zone key i m) k) = (if k = key then insert i (set (tracks_at m k)) else set (tracks_at m k))"
proof (induction m)
  case (Cons e m)
  then show ?case by (cases e; cases "k = key") auto
qed (simp add: tracks_at_def)

lemma tracks_at_fold:
  "set (tracks_at (fold (\<lambda>key m. add_in_zone key i m) keys m) k) =
     (if k \<in> set keys then insert i (set (tracks_at m k)) else set (tracks_at m k))"
  by (induction keys arbitrary: m) (auto simp: tracks_at_add)

definition seen_in :: "Zone list \<Rightarrow> int \<Rightarrow> int \<Rightarrow> TrackedObject list \<Rightarrow> PresenceKey \<Rightarrow> int set" where
  "seen_in zones frameW frameH tracked key =
     {to_TrackID obj | obj z. obj \<in> set tracked \<and> to_Detected obj \<and> to_Label obj = Label key \<and>
        z \<in> set (MatchZones zones (to_Box obj) (to_Label obj) frameW frameH) \<and> z_TrackPresence z \<and> z_ID z = ZoneID key}"

lemma zone_keys_iff:
  "key \<in> set (zone_keys obj matched) \<longleftrightarrow>
     to_Label obj = Label key \<and> (\<exists>z\<in>set matched. z_TrackPresence z \<and> z_ID z = ZoneID key)"
proof -
  have "key = \<lparr>ZoneID = z_ID z, Label = to_Label obj\<rparr> \<longleftrightarrow> to_Label obj = Label key \<and> z_ID z = ZoneID key" for z
    by (cases key) auto
  then show ?thesis by (auto simp: zone_keys_def)
qed

lemma matchZones_snoc:
  "matchZones zones (tracked @ [obj]) w h = match_object zones w h (matchZones zones tracked w h) obj"
  by (simp add: matchZones_def)

lemma seen_in_snoc:
  "seen_in zones w h (tracked @ [obj]) key =
     (if to_Detected obj \<and> key \<in> set (zone_keys obj (MatchZones zones (to_Box obj) (to_Label obj) w h))
      then insert (to_TrackID obj) (seen_in zones w h tracked key) else seen_in zones w h tracked key)"
  by (auto simp: seen_in_def zone_keys_iff)

lemma matchZones_inZone:
  "set (tracks_at (fst (matchZones zones tracked w h)) key) = seen_in zones w h tracked key"
proof (induction tracked rule: rev_induct)
  case Nil
  show ?case by (simp add: matchZones_def seen_in_def tracks_at_def)
next
  case (snoc obj tracked)
  then show ?case unfolding matchZones_snoc seen_in_snoc
    by (cases "matchZones zones tracked w h") (simp add: match_object_def Let_def tracks_at_fold)
qed

lemma matchZones_detected:
  "set (fst (snd (matchZones zones tracked w h))) = {to_TrackID obj | obj. obj \<in> set tracked \<and> to_Detected obj}"
proof (induction tracked rule: rev_induct)
  case (snoc obj tracked)
  then show ?case unfolding matchZones_snoc
    by (cases "matchZones zones tracked w h") (auto simp: match_object_def Let_def)
qed (simp add: matchZones_def)

text \<open>
  Presence is told what the detector saw, never what the tracker still believes: the tracks
  reported in a zone for a label are exactly the tracked objects with that label that a detection
  matched on this frame and whose anchor lies in an enabled presence zone of that id, and the
  detected tracks are exactly those a detection matched.  Tracks that are coasting appear in neither.
\<close>

theorem presence_sees_detections_only:
  "set (tracks_at (fst (matchZones zones tracked w h)) key) =
     {to_TrackID obj | obj z. obj \<in> set tracked \<and> to_Detected obj \<and> to_Label obj = Label key \<and>
        z \<in> set (MatchZones zones (to_Box obj) (to_Label obj) w h) \<and> z_TrackPresence z \<and> z_ID z = ZoneID key} \<and>
   set (fst (snd (matchZones zones tracked w h))) = {to_TrackID obj | obj. obj \<in> set tracked \<and> to_Detected obj}"
  using matchZones_inZone[of zones tracked w h key] matchZones_detected[of zones tracked w h]
  by (simp add: seen_in_def)

end
