(* ===== verification/Watchdog.thy ===== *)
theory Watchdog
  imports Go_Float "HOL-Library.Word"
begin

text \<open>
  Liveness and memory guards: \<^verbatim>\<open>internal/watchdog\<close>.  The memory guard and the in-process watchdog are
  loops over ticker events; the out-of-process supervisor is a step relation, because its reader
  goroutine, its timer and the monitored process run at their own pace.
\<close>

section \<open>Memory guard\<close>

definition memGuardInterval :: duration where "memGuardInterval = 10 * Second"
definition memGuardSustain :: duration where "memGuardSustain = 30 * Second"
definition softMemoryFloor :: "64 word" where "softMemoryFloor = 2 ^ 30"
definition maxInt64 :: int where "maxInt64 = 2 ^ 63 - 1"

definition ResolveMemoryLimit :: "bool \<Rightarrow> int \<Rightarrow> 64 word \<Rightarrow> 64 word" where
  "ResolveMemoryLimit enabled limitMB systemRAM =
     (if \<not> enabled then 0
      else if limitMB > 0 then word_of_int limitMB * 1024 * 1024
      else if systemRAM = 0 then 0
      else word_of_int \<lfloor>fmul (float_of_int (uint systemRAM)) (fl64 (60 / 100))\<rfloor>)"

definition ResolveSoftMemoryLimit :: "64 word \<Rightarrow> int" where
  "ResolveSoftMemoryLimit guardLimit =
     (if guardLimit = 0 then maxInt64
      else let soft = guardLimit div 2
           in if soft < softMemoryFloor \<or> uint soft > maxInt64 then maxInt64 else uint soft)"

record MemoryGuard =
  mg_limit :: "64 word"
  sustain :: duration
  overSince :: gotime

definition NewMemoryGuard :: "64 word \<Rightarrow> MemoryGuard" where
  "NewMemoryGuard limitBytes = \<lparr>mg_limit = limitBytes, sustain = memGuardSustain, overSince = zeroTime\<rparr>"

definition breached :: "64 word \<Rightarrow> gotime \<Rightarrow> MemoryGuard \<Rightarrow> bool \<times> MemoryGuard" where
  "breached footprint now g =
     (if footprint \<le> mg_limit g then (False, g\<lparr>overSince := zeroTime\<rparr>)
      else let g1 = (if isZero (overSince g) then g\<lparr>overSince := now\<rparr> else g)
           in (tsub now (overSince g1) \<ge> sustain g1, g1))"

text \<open>\<open>Run\<close> over the samples of its ticks; the position of the tick that called \<^verbatim>\<open>onExceeded\<close>, if any.\<close>

fun memory_guard_run :: "(64 word \<times> gotime) list \<Rightarrow> MemoryGuard \<Rightarrow> nat option" where
  "memory_guard_run [] g = None"
| "memory_guard_run ((footprint, now) # samples) g =
     (case breached footprint now g of
        (True, g') \<Rightarrow> Some 0
      | (False, g') \<Rightarrow> map_option Suc (memory_guard_run samples g'))"

section \<open>In-process watchdog\<close>

datatype watchdog_event = Kick gotime | Tick gotime

text \<open>\<open>Run\<close> over kicks and ticks in the order they happen; the stall that called \<^verbatim>\<open>onTimeout\<close>.\<close>

fun watchdog_run :: "duration \<Rightarrow> gotime \<Rightarrow> watchdog_event list \<Rightarrow> duration option" where
  "watchdog_run timeout lastKick [] = None"
| "watchdog_run timeout lastKick (Kick t # es) = watchdog_run timeout t es"
| "watchdog_run timeout lastKick (Tick t # es) =
     (let stalled = wrap64 (t - lastKick)
      in if stalled > timeout then Some stalled else watchdog_run timeout lastKick es)"

definition watchdog_interval :: "duration \<Rightarrow> duration" where
  "watchdog_interval timeout = (if timeout div 4 \<le> 0 then Millisecond else timeout div 4)"

section \<open>Out-of-process supervisor\<close>

definition SupervisorTimeout :: duration where "SupervisorTimeout = 60 * Second"

datatype supervisor_result = Watching | Returned | Killed

text \<open>
  \<open>sv_beats\<close>: the one-place channel of heartbeats is full; \<open>sv_done\<close>: the reader saw the pipe close;
  \<open>sv_lastbeat\<close>: when the latest heartbeat arrived.
\<close>

record supervisor =
  sv_now :: gotime
  sv_beats :: bool
  sv_done :: bool
  sv_deadline :: gotime
  sv_lastbeat :: gotime
  sv_result :: supervisor_result

definition supervisor_start :: "duration \<Rightarrow> gotime \<Rightarrow> supervisor" where
  "supervisor_start timeout t = \<lparr>sv_now = t, sv_beats = False, sv_done = False, sv_deadline = t + timeout,
     sv_lastbeat = t, sv_result = Watching\<rparr>"

text \<open>
  Go's \<^verbatim>\<open>select\<close> takes any ready case; \<open>eager\<close> restricts the timer case to moments at which no
  heartbeat is waiting in the channel.
\<close>

inductive supervisor_step :: "bool \<Rightarrow> duration \<Rightarrow> supervisor \<Rightarrow> supervisor \<Rightarrow> bool"
  for eager :: bool and timeout :: duration where
  elapse: "0 \<le> d \<Longrightarrow> supervisor_step eager timeout s (s\<lparr>sv_now := sv_now s + d\<rparr>)"
| beat: "\<not> sv_done s \<Longrightarrow> supervisor_step eager timeout s (s\<lparr>sv_beats := True, sv_lastbeat := sv_now s\<rparr>)"
| close_pipe: "supervisor_step eager timeout s (s\<lparr>sv_done := True\<rparr>)"
| recv_beat: "sv_result s = Watching \<Longrightarrow> sv_beats s \<Longrightarrow>
     supervisor_step eager timeout s (s\<lparr>sv_beats := False, sv_deadline := sv_now s + timeout\<rparr>)"
| recv_done: "sv_result s = Watching \<Longrightarrow> sv_done s \<Longrightarrow> supervisor_step eager timeout s (s\<lparr>sv_result := Returned\<rparr>)"
| fire: "sv_result s = Watching \<Longrightarrow> sv_deadline s \<le> sv_now s \<Longrightarrow> (eager \<longrightarrow> \<not> sv_beats s) \<Longrightarrow>
     supervisor_step eager timeout s (s\<lparr>sv_result := (if sv_done s then Returned else Killed)\<rparr>)"

inductive supervisor_reachable :: "bool \<Rightarrow> duration \<Rightarrow> supervisor \<Rightarrow> bool"
  for eager :: bool and timeout :: duration where
  sup_init: "supervisor_reachable eager timeout (supervisor_start timeout t)"
| sup_step: "supervisor_reachable eager timeout s \<Longrightarrow> supervisor_step eager timeout s s' \<Longrightarrow>
     supervisor_reachable eager timeout s'"

inductive_cases supervisor_stepE: "supervisor_step eager timeout s s'"

section \<open>The memory guard fires after a sustained breach\<close>

text \<open>Tick \<open>i\<close> ends a run of samples above the limit that has lasted the sustain window.\<close>

definition sustained :: "64 word \<Rightarrow> duration \<Rightarrow> (64 word \<times> gotime) list \<Rightarrow> nat \<Rightarrow> bool" where
  "sustained limit window samples i \<longleftrightarrow>
     i < length samples \<and>
     (\<exists>j\<le>i. (\<forall>k\<in>{j..i}. limit < fst (samples ! k)) \<and> window \<le> tsub (snd (samples ! i)) (snd (samples ! j)))"

definition samples_ok :: "(64 word \<times> gotime) list \<Rightarrow> bool" where
  "samples_ok samples \<longleftrightarrow> sorted (map snd samples) \<and> (\<forall>x\<in>set samples. \<not> isZero (snd x))"

lemma tsub_antimono: "s \<le> s' \<Longrightarrow> tsub t s' \<le> tsub t s"
  by (auto simp: tsub_def maxDuration_def minDuration_def)

lemma soft_limit_below_guard:
  "ResolveSoftMemoryLimit g = maxInt64 \<or>
     2 ^ 30 \<le> ResolveSoftMemoryLimit g \<and> 2 * ResolveSoftMemoryLimit g \<le> uint g"
  by (auto simp: ResolveSoftMemoryLimit_def Let_def softMemoryFloor_def word_less_def uint_div_distrib)


text \<open>The guard after its first \<open>i\<close> ticks, had none of them fired.\<close>

primrec guard_after :: "(64 word \<times> gotime) list \<Rightarrow> MemoryGuard \<Rightarrow> nat \<Rightarrow> MemoryGuard" where
  "guard_after samples g 0 = g"
| "guard_after samples g (Suc i) = snd (breached (fst (samples ! i)) (snd (samples ! i)) (guard_after samples g i))"

definition fires_at :: "(64 word \<times> gotime) list \<Rightarrow> MemoryGuard \<Rightarrow> nat \<Rightarrow> bool" where
  "fires_at samples g i \<longleftrightarrow>
     i < length samples \<and> fst (breached (fst (samples ! i)) (snd (samples ! i)) (guard_after samples g i))"

lemma guard_after_Cons:
  "guard_after ((fp, now) # samples) g (Suc i) = guard_after samples (snd (breached fp now g)) i"
  by (induction i) simp_all

lemma memory_guard_run_iff:
  "memory_guard_run samples g = Some i \<longleftrightarrow> fires_at samples g i \<and> (\<forall>i'<i. \<not> fires_at samples g i')"
proof (induction samples arbitrary: g i)
  case Nil
  show ?case by (simp add: fires_at_def)
next
  case (Cons x samples)
  obtain fp now where x: "x = (fp, now)" by (cases x)
  obtain b g' where b: "breached fp now g = (b, g')" by (cases "breached fp now g")
  have f0: "fires_at (x # samples) g 0 = b" by (simp add: fires_at_def x b)
  have fS: "fires_at (x # samples) g (Suc k) = fires_at samples g' k" for k
    unfolding fires_at_def x guard_after_Cons by (simp add: b)
  show ?case
  proof (cases b)
    case True
    then show ?thesis using f0 by (cases i) (auto simp: x b)
  next
    case False
    then have run: "memory_guard_run (x # samples) g = map_option Suc (memory_guard_run samples g')" by (simp add: x b)
    show ?thesis
    proof (cases i)
      case 0
      then show ?thesis using False f0 run by simp
    next
      case (Suc k)
      have "(\<forall>i'<Suc k. \<not> fires_at (x # samples) g i') \<longleftrightarrow> (\<forall>i'<k. \<not> fires_at samples g' i')"
        using False f0 fS by (auto simp: All_less_Suc2)
      then show ?thesis using Suc run Cons.IH[of g' k] fS by simp
    qed
  qed
qed

lemma breached_fields [simp]:
  "mg_limit (snd (breached fp now g)) = mg_limit g" "sustain (snd (breached fp now g)) = sustain g"
  by (simp_all add: breached_def Let_def)

lemma guard_after_fields [simp]:
  "mg_limit (guard_after samples g i) = mg_limit g" "sustain (guard_after samples g i) = sustain g"
  by (induction i) simp_all

text \<open>Where the current run of samples above the limit began.\<close>

definition breach_since :: "64 word \<Rightarrow> (64 word \<times> gotime) list \<Rightarrow> nat \<Rightarrow> nat \<Rightarrow> bool" where
  "breach_since limit samples i j \<longleftrightarrow>
     j < i \<and> (\<forall>k\<in>{j..<i}. limit < fst (samples ! k)) \<and> (0 < j \<longrightarrow> fst (samples ! (j - 1)) \<le> limit)"

lemma isZero_zeroTime: "isZero zeroTime" by (simp add: isZero_def)

lemma guard_after_overSince:
  assumes "samples_ok samples" and "i \<le> length samples" and "g = NewMemoryGuard limit"
  shows "if i = 0 \<or> fst (samples ! (i - 1)) \<le> limit then overSince (guard_after samples g i) = zeroTime
     else \<exists>j. breach_since limit samples i j \<and> overSince (guard_after samples g i) = snd (samples ! j)"
  using assms(2)
proof (induction i)
  case 0
  show ?case by (simp add: assms(3) NewMemoryGuard_def)
next
  case (Suc i)
  let ?g = "guard_after samples g i"
  have lim: "mg_limit ?g = limit" by (simp add: assms(3) NewMemoryGuard_def)
  have nz: "\<not> isZero (snd (samples ! k))" if "k < length samples" for k
    using assms(1) that by (auto simp: samples_ok_def)
  show ?case
  proof (cases "fst (samples ! i) \<le> limit")
    case True
    then show ?thesis using lim by (simp add: breached_def)
  next
    case False
    then have step: "overSince (guard_after samples g (Suc i)) =
        (if isZero (overSince ?g) then snd (samples ! i) else overSince ?g)"
      using lim by (simp add: breached_def Let_def)
    have "\<exists>j. breach_since limit samples (Suc i) j \<and> overSince (guard_after samples g (Suc i)) = snd (samples ! j)"
    proof (cases "i = 0 \<or> fst (samples ! (i - 1)) \<le> limit")
      case True
      then have "overSince ?g = zeroTime" using Suc by simp
      then have "overSince (guard_after samples g (Suc i)) = snd (samples ! i)" using step isZero_zeroTime by simp
      moreover have "breach_since limit samples (Suc i) i" using True False by (auto simp: breach_since_def)
      ultimately show ?thesis by blast
    next
      case run: False
      then obtain j where j: "breach_since limit samples i j" "overSince ?g = snd (samples ! j)" using Suc by auto
      have "j < length samples" using j(1) Suc.prems by (simp add: breach_since_def)
      then have "overSince (guard_after samples g (Suc i)) = snd (samples ! j)" using step j(2) nz by simp
      moreover have "breach_since limit samples (Suc i) j"
      proof -
        have run: "limit < fst (samples ! k)" if "k \<in> {j..<i}" for k using j(1) that unfolding breach_since_def by blast
        have ji: "j < i" "0 < j \<longrightarrow> fst (samples ! (j - 1)) \<le> limit" using j(1) unfolding breach_since_def by blast+
        have "limit < fst (samples ! i)" using False by simp
        then have "\<forall>k\<in>{j..<Suc i}. limit < fst (samples ! k)" using run ji(1) by (simp add: atLeastLessThanSuc)
        moreover have "j < Suc i" using ji(1) by simp
        ultimately show ?thesis using ji(2) unfolding breach_since_def by blast
      qed
      ultimately show ?thesis by blast
    qed
    then show ?thesis using False by simp
  qed
qed

lemma breach_since_maximal:
  assumes "breach_since limit samples (Suc i) j" and "j' \<le> i" and "\<forall>k\<in>{j'..i}. limit < fst (samples ! k)"
  shows "j \<le> j'"
proof (rule ccontr)
  assume "\<not> j \<le> j'"
  then have "0 < j" "j - 1 \<in> {j'..i}" using assms(1) by (auto simp: breach_since_def)
  then have "fst (samples ! (j - 1)) \<le> limit" "limit < fst (samples ! (j - 1))"
    using assms(1,3) unfolding breach_since_def by blast+
  then show False by simp
qed

lemma fires_at_sustained:
  assumes ok: "samples_ok samples" and g: "g = NewMemoryGuard limit"
  shows "fires_at samples g i \<longleftrightarrow> sustained limit memGuardSustain samples i"
proof (cases "i < length samples \<and> limit < fst (samples ! i)")
  case True
  then have i: "i < length samples" and ab: "\<not> fst (samples ! i) \<le> limit" by auto
  have g_fields: "mg_limit g = limit" "sustain g = memGuardSustain" by (simp_all add: g NewMemoryGuard_def)
  obtain j where j: "breach_since limit samples (Suc i) j"
      "overSince (guard_after samples g (Suc i)) = snd (samples ! j)"
    using guard_after_overSince[OF ok _ g, of "Suc i"] i ab by auto
  have "fires_at samples g i \<longleftrightarrow> memGuardSustain \<le> tsub (snd (samples ! i)) (overSince (guard_after samples g (Suc i)))"
    using i ab g_fields by (simp add: fires_at_def breached_def Let_def)
  then have f: "fires_at samples g i \<longleftrightarrow> memGuardSustain \<le> tsub (snd (samples ! i)) (snd (samples ! j))" using j(2) by simp
  show ?thesis
  proof
    assume "fires_at samples g i"
    moreover have "j \<le> i" "\<forall>k\<in>{j..i}. limit < fst (samples ! k)" using j(1) by (auto simp: breach_since_def)
    ultimately show "sustained limit memGuardSustain samples i" using f i unfolding sustained_def by blast
  next
    assume "sustained limit memGuardSustain samples i"
    then obtain j' where j': "j' \<le> i" "\<forall>k\<in>{j'..i}. limit < fst (samples ! k)"
        "memGuardSustain \<le> tsub (snd (samples ! i)) (snd (samples ! j'))"
      unfolding sustained_def by blast
    have "j \<le> j'" by (rule breach_since_maximal[OF j(1) j'(1,2)])
    then have "snd (samples ! j) \<le> snd (samples ! j')"
      using ok i j'(1) sorted_nth_mono[of "map snd samples" j j'] by (simp add: samples_ok_def)
    then show "fires_at samples g i" using f j'(3) tsub_antimono order_trans by blast
  qed
next
  case False
  then show ?thesis
    using g by (auto simp: fires_at_def sustained_def breached_def NewMemoryGuard_def not_less)
qed

text \<open>
  The memory guard asks for a restart at the first tick that ends an uninterrupted run of
  samples above the limit lasting at least the sustain window, and at no other: a single sample at
  or below the limit starts the window afresh, and every breach that lasts is acted on.
\<close>

theorem memory_guard_exact:
  assumes "samples_ok samples"
  shows "memory_guard_run samples (NewMemoryGuard limit) = Some i \<longleftrightarrow>
     sustained limit memGuardSustain samples i \<and> (\<forall>i'<i. \<not> sustained limit memGuardSustain samples i')"
  unfolding memory_guard_run_iff fires_at_sustained[OF assms refl] by blast

definition leak :: "(64 word \<times> gotime) list" where
  "leak = [(9, 10 * Second), (11, 20 * Second), (10, 30 * Second), (12, 40 * Second), (13, 50 * Second),
     (14, 60 * Second), (15, 70 * Second)]"

theorem memory_guard_exact_witness:
  "sustained 10 memGuardSustain leak 6 \<and> {i'. sustained 10 memGuardSustain leak i'} \<subseteq> {6..}"
proof -
  have "samples_ok leak" by (simp add: samples_ok_def leak_def unit_defs isZero_def zeroTime_def)
  moreover have "memory_guard_run leak (NewMemoryGuard 10) = Some 6" by code_simp
  ultimately have "sustained 10 memGuardSustain leak 6 \<and> (\<forall>i'<6. \<not> sustained 10 memGuardSustain leak i')"
    using memory_guard_exact by blast
  then show ?thesis by (auto simp: not_less[symmetric])
qed

section \<open>The watchdog\<close>

text \<open>
  The stall a tick sees: the ticks of a run and the kick before each.
\<close>

fun stalls :: "gotime \<Rightarrow> watchdog_event list \<Rightarrow> duration list" where
  "stalls lastKick [] = []"
| "stalls lastKick (Kick t # es) = stalls t es"
| "stalls lastKick (Tick t # es) = wrap64 (t - lastKick) # stalls lastKick es"

lemma watchdog_run_stalls: "watchdog_run timeout lastKick es = find (\<lambda>d. timeout < d) (stalls lastKick es)"
  by (induction timeout lastKick es rule: watchdog_run.induct) (auto simp: Let_def)

section \<open>The supervisor\<close>

definition supervisor_ok :: "duration \<Rightarrow> supervisor \<Rightarrow> bool" where
  "supervisor_ok timeout s \<longleftrightarrow>
     sv_lastbeat s \<le> sv_now s \<and> (\<not> sv_beats s \<longrightarrow> sv_lastbeat s + timeout \<le> sv_deadline s)"

lemma reachable_supervisor_ok: "supervisor_reachable eager timeout s \<Longrightarrow> supervisor_ok timeout s"
proof (induction rule: supervisor_reachable.induct)
  case (sup_init t)
  show ?case by (simp add: supervisor_ok_def supervisor_start_def)
next
  case (sup_step s s')
  from sup_step(2) show ?case using sup_step(3) by (cases rule: supervisor_step.cases) (auto simp: supervisor_ok_def)
qed

text \<open>
  The supervisor never kills a process whose pipe it has seen close, and, as long as a waiting
  heartbeat is taken before the timer, it kills only when no heartbeat has arrived for the whole timeout.
\<close>

theorem supervisor_kill_sound:
  assumes "supervisor_reachable eager timeout s" and "supervisor_step eager timeout s s'"
    and "sv_result s \<noteq> Killed" and "sv_result s' = Killed"
  shows "\<not> sv_done s \<and> sv_deadline s \<le> sv_now s \<and> (eager \<longrightarrow> sv_lastbeat s + timeout \<le> sv_now s)"
  using assms(2-4) reachable_supervisor_ok[OF assms(1)]
  by (cases rule: supervisor_step.cases) (auto simp: supervisor_ok_def split: if_splits)

definition wedged :: supervisor where
  "wedged = (supervisor_start SupervisorTimeout 1)\<lparr>sv_now := 1 + SupervisorTimeout\<rparr>"

theorem supervisor_kill_sound_witness:
  "supervisor_step True SupervisorTimeout wedged (wedged\<lparr>sv_result := Killed\<rparr>) \<and>
   sv_lastbeat wedged + SupervisorTimeout \<le> sv_now wedged"
proof -
  have "supervisor_step True SupervisorTimeout (supervisor_start SupervisorTimeout 1) wedged"
    using supervisor_step.elapse[of SupervisorTimeout True SupervisorTimeout "supervisor_start SupervisorTimeout 1"]
    by (simp add: wedged_def supervisor_start_def SupervisorTimeout_def unit_defs)
  then have r: "supervisor_reachable True SupervisorTimeout wedged"
    using supervisor_reachable.sup_step[OF supervisor_reachable.sup_init] by blast
  have st: "supervisor_step True SupervisorTimeout wedged (wedged\<lparr>sv_result := Killed\<rparr>)"
    using supervisor_step.fire[of wedged True SupervisorTimeout]
    by (simp add: wedged_def supervisor_start_def SupervisorTimeout_def unit_defs)
  show ?thesis using supervisor_kill_sound[OF r st] st by (simp add: wedged_def supervisor_start_def)
qed


definition beat_waiting :: supervisor where
  "beat_waiting = (supervisor_start SupervisorTimeout 1)\<lparr>sv_now := 1 + SupervisorTimeout, sv_beats := True,
     sv_lastbeat := SupervisorTimeout\<rparr>"

text \<open>
  The order matters: when the timer is up while a heartbeat is still in the channel, the
  \<^verbatim>\<open>select\<close> may take the timer, and the check that follows looks at \<^verbatim>\<open>done\<close> only.  So a process whose
  heartbeat arrived a nanosecond before the deadline can be killed.
\<close>

theorem supervisor_kills_despite_heartbeat:
  "supervisor_reachable False SupervisorTimeout beat_waiting \<and>
   sv_now beat_waiting < sv_lastbeat beat_waiting + SupervisorTimeout \<and>
   supervisor_step False SupervisorTimeout beat_waiting (beat_waiting\<lparr>sv_result := Killed\<rparr>)"
proof -
  let ?s0 = "supervisor_start SupervisorTimeout 1"
  let ?s1 = "?s0\<lparr>sv_now := SupervisorTimeout\<rparr>"
  let ?s2 = "?s1\<lparr>sv_beats := True, sv_lastbeat := SupervisorTimeout\<rparr>"
  have "supervisor_step False SupervisorTimeout ?s0 ?s1"
    using supervisor_step.elapse[of "SupervisorTimeout - 1" False SupervisorTimeout ?s0]
    by (simp add: supervisor_start_def SupervisorTimeout_def unit_defs)
  moreover have "supervisor_step False SupervisorTimeout ?s1 ?s2"
    using supervisor_step.beat[of ?s1 False SupervisorTimeout] by (simp add: supervisor_start_def)
  moreover have "supervisor_step False SupervisorTimeout ?s2 beat_waiting"
    using supervisor_step.elapse[of 1 False SupervisorTimeout ?s2]
    by (simp add: supervisor_start_def beat_waiting_def add.commute)
  ultimately have "supervisor_reachable False SupervisorTimeout beat_waiting"
    using supervisor_reachable.intros by metis
  moreover have "supervisor_step False SupervisorTimeout beat_waiting (beat_waiting\<lparr>sv_result := Killed\<rparr>)"
    using supervisor_step.fire[of beat_waiting False SupervisorTimeout]
    by (simp add: beat_waiting_def supervisor_start_def)
  ultimately show ?thesis by (simp add: beat_waiting_def supervisor_start_def SupervisorTimeout_def unit_defs)
qed

end
