(* ===== verification/Activities.thy ===== *)
theory Activities
  imports Go_Prelude "HOL-Library.List_Lexorder" "HOL-Library.Char_ord" "HOL-Library.Product_Lexorder"
begin

text \<open>
  Activities: \<^verbatim>\<open>internal/storage/db_activities.go\<close> and the writes of \<^verbatim>\<open>db.go\<close> and
  \<^verbatim>\<open>db_events_retention.go\<close> that go through it.  Raw events of a camera are grouped into incidents: an
  event joins every activity it comes within ninety seconds of, and merges them.

  The tables are lists of rows with the keys the schema declares; \<^verbatim>\<open>activity_events\<close>, whose event id is
  unique, is the partial function \<open>ad_links\<close> from events to activities.  Timestamps are stored in
  one canonical text form whose order is the order of the instants, so rows carry the instants.
  Every operation is one transaction: it returns the new tables, or an error and leaves the old ones.
\<close>

section \<open>Tables\<close>

definition activityMergeGap :: duration where
  "activityMergeGap = 90 * Second"

datatype ActivityState = ActivityStateOpen | ActivityStateFinalized

record eventRow =
  er_id :: string
  er_camera :: string
  er_timestamp :: gotime
  er_end :: "gotime option"
  er_category :: string
  er_kind :: string

record activityRow =
  ar_id :: string
  ar_camera :: string
  ar_start :: gotime
  ar_end :: gotime
  ar_category :: string
  ar_state :: ActivityState
  ar_finalized :: "gotime option"
  ar_queued :: "gotime option"
  ar_updated :: gotime

record correctionRow =
  co_activity :: string
  co_event :: string
  co_reason :: string
  co_actor :: string
  co_created :: gotime
  co_restored :: "(gotime \<times> string) option"

record actdb =
  ad_events :: "eventRow list"
  ad_activities :: "activityRow list"
  ad_links :: "string \<rightharpoonup> string"
  ad_corrections :: "correctionRow list"

definition empty_actdb :: actdb where
  "empty_actdb = \<lparr>ad_events = [], ad_activities = [], ad_links = Map.empty, ad_corrections = []\<rparr>"

datatype activity_error = ErrConstraint | ErrActivityNotFound | ErrActivityEvidenceMissing | ErrActivityNeedsEvidence

definition kind_cry :: string where "kind_cry = ''cry''"
definition category_alert :: string where "category_alert = ''alert''"
definition category_detection :: string where "category_detection = ''detection''"

section \<open>Statements\<close>

definition evidence :: "actdb \<Rightarrow> string \<Rightarrow> eventRow list" where
  "evidence db aid = filter (\<lambda>e. ad_links db (er_id e) = Some aid) (ad_events db)"

definition activity_ids :: "actdb \<Rightarrow> string list" where
  "activity_ids db = map ar_id (ad_activities db)"

definition update_activity :: "string \<Rightarrow> (activityRow \<Rightarrow> activityRow) \<Rightarrow> actdb \<Rightarrow> actdb" where
  "update_activity aid f db =
     db\<lparr>ad_activities := map (\<lambda>a. if ar_id a = aid then f a else a) (ad_activities db)\<rparr>"

text \<open>Deleting an activity takes its links and corrections with it.\<close>

definition delete_activity :: "string \<Rightarrow> actdb \<Rightarrow> actdb" where
  "delete_activity aid db =
     db\<lparr>ad_activities := filter (\<lambda>a. ar_id a \<noteq> aid) (ad_activities db),
        ad_links := (\<lambda>e. if ad_links db e = Some aid then None else ad_links db e),
        ad_corrections := filter (\<lambda>c. co_activity c \<noteq> aid) (ad_corrections db)\<rparr>"

text \<open>The activities of a camera within the merge gap of an interval, oldest first.\<close>

definition neighbors :: "actdb \<Rightarrow> string \<Rightarrow> gotime \<Rightarrow> gotime \<Rightarrow> activityRow list" where
  "neighbors db cam start fin =
     sort_key (\<lambda>a. (ar_start a, ar_id a))
       (filter (\<lambda>a. ar_camera a = cam \<and> ar_start a \<le> tadd fin activityMergeGap \<and>
                    tadd start (- activityMergeGap) \<le> ar_end a) (ad_activities db))"

definition find_activity :: "string \<Rightarrow> actdb \<Rightarrow> activityRow option" where
  "find_activity aid db = find (\<lambda>a. ar_id a = aid) (ad_activities db)"

definition preserveActivityNotificationTx :: "string \<Rightarrow> string \<Rightarrow> actdb \<Rightarrow> actdb" where
  "preserveActivityNotificationTx canonicalID mergedID db =
     update_activity canonicalID
       (\<lambda>a. a\<lparr>ar_queued := (case ar_queued a of
                              Some t \<Rightarrow> Some t
                            | None \<Rightarrow> Option.bind (find_activity mergedID db) ar_queued)\<rparr>) db"

definition moveActivityCorrectionsTx :: "string \<Rightarrow> string \<Rightarrow> actdb \<Rightarrow> actdb" where
  "moveActivityCorrectionsTx canonicalID mergedID db =
     db\<lparr>ad_corrections := map (\<lambda>c. if co_activity c = mergedID then c\<lparr>co_activity := canonicalID\<rparr> else c)
        (ad_corrections db)\<rparr>"

definition move_links :: "string \<Rightarrow> string \<Rightarrow> actdb \<Rightarrow> actdb" where
  "move_links canonicalID mergedID db =
     db\<lparr>ad_links := (\<lambda>e. if ad_links db e = Some mergedID then Some canonicalID else ad_links db e)\<rparr>"

text \<open>The body both merge loops share.\<close>

definition merge_activity :: "string \<Rightarrow> string \<Rightarrow> actdb \<Rightarrow> actdb" where
  "merge_activity canonicalID mergedID db =
     delete_activity mergedID
       (moveActivityCorrectionsTx canonicalID mergedID
         (move_links canonicalID mergedID
           (preserveActivityNotificationTx canonicalID mergedID db)))"

section \<open>Reconciling\<close>

definition event_end :: "eventRow \<Rightarrow> gotime" where
  "event_end e = (case er_end e of Some t \<Rightarrow> t | None \<Rightarrow> er_timestamp e)"

text \<open>The aggregate of \<open>reconcileActivityTx\<close> over a non-empty list of evidence.\<close>

definition summarize :: "eventRow list \<Rightarrow> string \<times> gotime \<times> gotime \<times> string" where
  "summarize es =
     (Min (set (map er_camera es)), Min (set (map er_timestamp es)), Max (set (map event_end es)),
      if list_ex (\<lambda>e. er_category e = category_alert) es then category_alert else category_detection)"

definition earlier :: "activityRow \<Rightarrow> string \<times> gotime \<Rightarrow> bool" where
  "earlier a c = (ar_start a < snd c \<or> ar_start a = snd c \<and> ar_id a < fst c)"

definition canonical :: "string \<Rightarrow> gotime \<Rightarrow> activityRow list \<Rightarrow> string" where
  "canonical aid start ns = fst (foldl (\<lambda>c a. if earlier a c then (ar_id a, ar_start a) else c) (aid, start) ns)"

definition merge_all :: "string \<Rightarrow> string list \<Rightarrow> actdb \<Rightarrow> actdb" where
  "merge_all canonicalID ids db =
     fold (\<lambda>mergeID d. if mergeID = canonicalID then d else merge_activity canonicalID mergeID d) ids db"

lemma activity_ids_update: "(\<And>a. ar_id (f a) = ar_id a) \<Longrightarrow> activity_ids (update_activity aid f db) = activity_ids db"
  by (simp add: activity_ids_def update_activity_def)

lemma activity_ids_delete: "activity_ids (delete_activity m db) = filter (\<lambda>i. i \<noteq> m) (activity_ids db)"
  by (simp add: activity_ids_def delete_activity_def filter_map o_def)

lemma activity_ids_simps [simp]:
  "activity_ids (move_links c m db) = activity_ids db"
  "activity_ids (moveActivityCorrectionsTx c m db) = activity_ids db"
  "activity_ids (preserveActivityNotificationTx c m db) = activity_ids db"
  by (simp_all add: move_links_def moveActivityCorrectionsTx_def preserveActivityNotificationTx_def activity_ids_update)
    (simp_all add: activity_ids_def)

lemma merge_activity_ids: "activity_ids (merge_activity c m db) = filter (\<lambda>i. i \<noteq> m) (activity_ids db)"
  by (simp add: merge_activity_def activity_ids_delete)

lemma merge_all_ids:
  "activity_ids (merge_all c ids db) = filter (\<lambda>i. i \<notin> set ids - {c}) (activity_ids db)"
  by (induction ids arbitrary: db) (auto simp: merge_all_def merge_activity_ids intro!: filter_cong)

lemma neighbors_set:
  "set (neighbors db cam start fin) = {a \<in> set (ad_activities db). ar_camera a = cam \<and>
     ar_start a \<le> fin + activityMergeGap \<and> start - activityMergeGap \<le> ar_end a}"
  by (auto simp: neighbors_def tadd_def)

lemma canonical_in: "canonical aid start ns \<in> insert aid (ar_id ` set ns)"
proof -
  have "fst (foldl (\<lambda>c a. if earlier a c then (ar_id a, ar_start a) else c) c ns) \<in> insert (fst c) (ar_id ` set ns)" for c
    by (induction ns arbitrary: c) (auto, (smt (verit) fst_conv insertE image_eqI)?)
  from this[of "(aid, start)"] show ?thesis by (simp add: canonical_def)
qed

text \<open>The new summary of an activity, and its neighbours then.\<close>

definition refresh_activity :: "gotime \<Rightarrow> string \<Rightarrow> actdb \<Rightarrow> actdb" where
  "refresh_activity now aid db =
     (case summarize (evidence db aid) of (cam, start, fin, category) \<Rightarrow>
        update_activity aid
          (\<lambda>a. a\<lparr>ar_camera := cam, ar_start := start, ar_end := fin, ar_category := category, ar_updated := now\<rparr>) db)"

definition neighbors_after :: "string \<Rightarrow> actdb \<Rightarrow> activityRow list" where
  "neighbors_after aid db =
     (case summarize (evidence db aid) of (cam, start, fin, category) \<Rightarrow>
        filter (\<lambda>a. ar_id a \<noteq> aid) (neighbors db cam start fin))"

function reconcileActivityTx :: "gotime \<Rightarrow> string \<Rightarrow> actdb \<Rightarrow> string option \<times> actdb" where
  "reconcileActivityTx now aid db =
     (if evidence db aid = [] then (None, delete_activity aid db)
      else
        let db1 = refresh_activity now aid db;
            ns = neighbors_after aid db1
        in if ns = [] then (Some aid, db1)
           else
             let start = fst (snd (summarize (evidence db aid)));
                 canonicalID = canonical aid start ns
             in reconcileActivityTx now canonicalID (merge_all canonicalID (aid # map ar_id ns) db1))"
  by pat_completeness auto


lemma refresh_ids [simp]: "activity_ids (refresh_activity now aid db) = activity_ids db"
  by (simp add: refresh_activity_def activity_ids_update split: prod.split)

lemma neighbors_after_ids: "a \<in> set (neighbors_after aid db) \<Longrightarrow> ar_id a \<in> set (activity_ids db) \<and> ar_id a \<noteq> aid"
  by (auto simp: neighbors_after_def neighbors_set activity_ids_def split: prod.splits)

text \<open>Each round of the loop leaves fewer activities, so it ends.\<close>

definition reconcile_measure :: "string \<Rightarrow> actdb \<Rightarrow> nat" where
  "reconcile_measure aid db = 2 * length (activity_ids db) + (if aid \<in> set (activity_ids db) then 0 else 1)"

lemma reconcile_decreases:
  assumes "ns = neighbors_after aid db" and "ns \<noteq> []" and "c = canonical aid start ns"
  shows "reconcile_measure c (merge_all c (aid # map ar_id ns) db) < reconcile_measure aid db"
proof -
  let ?gone = "\<lambda>i. i \<in> insert aid (ar_id ` set ns) - {c}" and ?ids = "activity_ids db"
  have ids: "activity_ids (merge_all c (aid # map ar_id ns) db) = filter (\<lambda>i. \<not> ?gone i) ?ids"
    by (simp add: merge_all_ids)
  have nb: "ar_id ` set ns \<subseteq> set ?ids - {aid}" using neighbors_after_ids assms(1) by auto
  have len: "length (filter (\<lambda>i. \<not> ?gone i) ?ids) \<le> length ?ids" by simp
  have c: "c = aid \<or> c \<in> ar_id ` set ns" using canonical_in[of aid start ns] assms(3) by auto
  show ?thesis
  proof (cases "\<exists>i\<in>set ?ids. ?gone i")
    case True
    then have "length (filter (\<lambda>i. \<not> ?gone i) ?ids) < length ?ids" by (auto intro!: length_filter_less)
    then show ?thesis unfolding reconcile_measure_def ids by auto
  next
    case False
    obtain n where n: "n \<in> ar_id ` set ns" using assms(2) by (cases ns) auto
    then have "c \<noteq> aid" using False nb by blast
    then have "aid \<notin> set ?ids" using False by blast
    moreover have "c \<in> set ?ids" using c nb \<open>c \<noteq> aid\<close> by auto
    ultimately show ?thesis unfolding reconcile_measure_def ids using len \<open>c \<noteq> aid\<close> by (auto simp: less_Suc_eq_le)
  qed
qed

lemma reconcile_measure_refresh [simp]: "reconcile_measure a (refresh_activity now aid db) = reconcile_measure a db"
  by (simp add: reconcile_measure_def)

termination reconcileActivityTx
proof (relation "measure (\<lambda>(now, aid, db). reconcile_measure aid db)")
  fix now aid db db1 ns start c
  assume "db1 = refresh_activity now aid db" "ns = neighbors_after aid db1" "ns \<noteq> []" "c = canonical aid start ns"
  then show "((now, c, merge_all c (aid # map ar_id ns) db1), now, aid, db) \<in> measure (\<lambda>(now, aid, db). reconcile_measure aid db)"
    using reconcile_decreases[of ns aid db1 c start] by simp
qed simp

declare reconcileActivityTx.simps [simp del]

text \<open>The column \<^verbatim>\<open>state\<close> back to open.\<close>

definition reopenActivityTx :: "gotime \<Rightarrow> string \<Rightarrow> actdb \<Rightarrow> actdb" where
  "reopenActivityTx now aid =
     update_activity aid (\<lambda>a. a\<lparr>ar_state := ActivityStateOpen, ar_finalized := None, ar_updated := now\<rparr>)"

section \<open>Writes\<close>

definition eventActivityBounds :: "eventRow \<Rightarrow> gotime \<times> gotime" where
  "eventActivityBounds e =
     (er_timestamp e,
      case er_end e of
        Some t \<Rightarrow> if tafter t (er_timestamp e) then t else er_timestamp e
      | None \<Rightarrow> er_timestamp e)"

definition new_activity :: "gotime \<Rightarrow> eventRow \<Rightarrow> activityRow" where
  "new_activity now e =
     \<lparr>ar_id = ''act_'' @ er_id e, ar_camera = er_camera e, ar_start = fst (eventActivityBounds e),
      ar_end = snd (eventActivityBounds e), ar_category = (if er_category e = [] then category_alert else er_category e),
      ar_state = ActivityStateOpen, ar_finalized = None, ar_queued = None, ar_updated = now\<rparr>"

text \<open>The activities the event comes within the gap of, and the one it is linked to.\<close>

definition candidates :: "eventRow \<Rightarrow> actdb \<Rightarrow> activityRow list" where
  "candidates e db = neighbors db (er_camera e) (fst (eventActivityBounds e)) (snd (eventActivityBounds e))"

definition assign_target :: "eventRow \<Rightarrow> actdb \<Rightarrow> string" where
  "assign_target e db = (case candidates e db of [] \<Rightarrow> ''act_'' @ er_id e | c # _ \<Rightarrow> ar_id c)"

definition assign_merge :: "gotime \<Rightarrow> eventRow \<Rightarrow> actdb \<Rightarrow> actdb" where
  "assign_merge now e db =
     (case candidates e db of
        [] \<Rightarrow> db\<lparr>ad_activities := ad_activities db @ [new_activity now e]\<rparr>
      | c # cs \<Rightarrow> fold (\<lambda>m d. merge_activity (ar_id c) (ar_id m) d) cs db)"

definition assign_link :: "gotime \<Rightarrow> eventRow \<Rightarrow> actdb \<Rightarrow> actdb" where
  "assign_link now e db =
     (let db1 = assign_merge now e db in db1\<lparr>ad_links := (ad_links db1)(er_id e \<mapsto> assign_target e db)\<rparr>)"

definition reconcile_reopen :: "gotime \<Rightarrow> string \<Rightarrow> actdb \<Rightarrow> actdb" where
  "reconcile_reopen now aid db =
     (case reconcileActivityTx now aid db of
        (None, db') \<Rightarrow> db'
      | (Some surviving, db') \<Rightarrow> reopenActivityTx now surviving db')"

definition assignEventToActivityTx :: "gotime \<Rightarrow> eventRow \<Rightarrow> actdb \<Rightarrow> activity_error + actdb" where
  "assignEventToActivityTx now e db =
     (if er_kind e = kind_cry then Inr db
      else if candidates e db = [] \<and> assign_target e db \<in> set (activity_ids db) then Inl ErrConstraint
      else Inr (reconcile_reopen now (assign_target e db) (assign_link now e db)))"

definition stored_row :: "eventRow \<Rightarrow> eventRow" where
  "stored_row e =
     e\<lparr>er_category := (if er_category e = [] then category_alert else er_category e),
       er_kind := (if er_kind e = [] then ''object'' else er_kind e)\<rparr>"

definition act_SaveEvent :: "gotime \<Rightarrow> eventRow \<Rightarrow> actdb \<Rightarrow> activity_error + actdb" where
  "act_SaveEvent now e db =
     (if er_id e \<in> er_id ` set (ad_events db) then Inl ErrConstraint
      else assignEventToActivityTx now e (db\<lparr>ad_events := ad_events db @ [stored_row e]\<rparr>))"

definition act_UpdateEventEndTime :: "gotime \<Rightarrow> string \<Rightarrow> gotime \<Rightarrow> actdb \<Rightarrow> actdb" where
  "act_UpdateEventEndTime now eid t db =
     (let db1 = db\<lparr>ad_events := map (\<lambda>e. if er_id e = eid then e\<lparr>er_end := Some t\<rparr> else e) (ad_events db)\<rparr>
      in case ad_links db1 eid of
           None \<Rightarrow> db1
         | Some aid \<Rightarrow> reconcile_reopen now aid db1)"

text \<open>The migration that groups the events of an older database.\<close>

fun assign_each :: "gotime \<Rightarrow> eventRow list \<Rightarrow> actdb \<Rightarrow> activity_error + actdb" where
  "assign_each now [] db = Inr db"
| "assign_each now (e # es) db =
     (case assignEventToActivityTx now e db of Inl err \<Rightarrow> Inl err | Inr db' \<Rightarrow> assign_each now es db')"

definition backfillActivities :: "gotime \<Rightarrow> actdb \<Rightarrow> activity_error + actdb" where
  "backfillActivities now db = assign_each now (sort_key (\<lambda>e. (er_timestamp e, er_id e)) (ad_events db)) db"

text \<open>Deleting events takes their links and corrections with them.\<close>

definition delete_events :: "string set \<Rightarrow> actdb \<Rightarrow> actdb" where
  "delete_events ids db =
     db\<lparr>ad_events := filter (\<lambda>e. er_id e \<notin> ids) (ad_events db),
        ad_links := (\<lambda>e. if e \<in> ids then None else ad_links db e),
        ad_corrections := filter (\<lambda>c. co_event c \<notin> ids) (ad_corrections db)\<rparr>"

definition act_DeleteEvent :: "gotime \<Rightarrow> string \<Rightarrow> actdb \<Rightarrow> actdb" where
  "act_DeleteEvent now eid db =
     (case ad_links db eid of
        None \<Rightarrow> delete_events {eid} db
      | Some aid \<Rightarrow> snd (reconcileActivityTx now aid (delete_events {eid} db)))"

definition expiredEventIDs :: "gotime \<Rightarrow> nat \<Rightarrow> actdb \<Rightarrow> string list" where
  "expiredEventIDs cutoff limit db =
     map er_id (take limit (sort_key er_timestamp (filter (\<lambda>e. er_timestamp e < cutoff) (ad_events db))))"

definition activityIDsForEvents :: "string list \<Rightarrow> actdb \<Rightarrow> string list" where
  "activityIDsForEvents ids db = remdups (List.map_filter (ad_links db) ids)"

definition deleteEventBatch :: "gotime \<Rightarrow> gotime \<Rightarrow> nat \<Rightarrow> actdb \<Rightarrow> nat \<times> actdb" where
  "deleteEventBatch now cutoff batchSize db =
     (let ids = expiredEventIDs cutoff batchSize db
      in if ids = [] then (0, db)
         else
           let aids = activityIDsForEvents ids db
           in (length (filter (\<lambda>e. er_id e \<in> set ids) (ad_events db)),
               fold (\<lambda>aid d. snd (reconcileActivityTx now aid d)) aids (delete_events (set ids) db)))"

definition eventDeleteBatchSize :: nat where "eventDeleteBatchSize = 500"


lemma ad_events_simps [simp]:
  "ad_events (update_activity aid f db) = ad_events db" "ad_events (delete_activity aid db) = ad_events db"
  "ad_events (preserveActivityNotificationTx c m db) = ad_events db"
  "ad_events (moveActivityCorrectionsTx c m db) = ad_events db" "ad_events (move_links c m db) = ad_events db"
  by (simp_all add: update_activity_def delete_activity_def preserveActivityNotificationTx_def
      moveActivityCorrectionsTx_def move_links_def)

lemma merge_events [simp]: "ad_events (merge_activity c m db) = ad_events db"
  by (simp add: merge_activity_def)

lemma merge_all_events [simp]: "ad_events (merge_all c ids db) = ad_events db"
  by (induction ids arbitrary: db) (simp_all add: merge_all_def)

lemma refresh_events [simp]: "ad_events (refresh_activity now aid db) = ad_events db"
  by (simp add: refresh_activity_def split: prod.split)

lemma reconcile_events [simp]: "ad_events (snd (reconcileActivityTx now aid db)) = ad_events db"
proof (induction now aid db rule: reconcileActivityTx.induct)
  case (1 now aid db)
  show ?case by (subst reconcileActivityTx.simps) (use 1 in \<open>simp add: Let_def\<close>)
qed

lemma fold_reconcile_events [simp]:
  "ad_events (fold (\<lambda>aid d. snd (reconcileActivityTx now aid d)) aids db) = ad_events db"
  by (induction aids arbitrary: db) simp_all

text \<open>
  The loop of \<open>deleteEventsOlderThan\<close>; the caller never passes a batch size of zero, for which no batch
  would ever be short.
\<close>

lemma deleteEventBatch_shrinks:
  assumes "deleteEventBatch now cutoff n db = (deleted, db')" and "0 < deleted"
  shows "length (ad_events db') < length (ad_events db)"
proof -
  let ?ids = "set (expiredEventIDs cutoff n db)"
  have d: "deleted = length (filter (\<lambda>e. er_id e \<in> ?ids) (ad_events db))"
    and db': "ad_events db' = filter (\<lambda>e. er_id e \<notin> ?ids) (ad_events db)"
    using assms by (auto simp: deleteEventBatch_def Let_def delete_events_def split: if_splits)
  have "filter (\<lambda>e. er_id e \<in> ?ids) (ad_events db) \<noteq> []" using d assms(2) by (metis length_greater_0_conv)
  then have "\<exists>e\<in>set (ad_events db). \<not> er_id e \<notin> ?ids" by (auto simp: filter_empty_conv)
  then show ?thesis unfolding db' by (auto intro!: length_filter_less)
qed

function delete_loop :: "gotime \<Rightarrow> gotime \<Rightarrow> nat \<Rightarrow> actdb \<Rightarrow> nat \<times> actdb" where
  "delete_loop now cutoff batchSize db =
     (case deleteEventBatch now cutoff batchSize db of
        (deleted, db') \<Rightarrow>
          if batchSize = 0 \<or> deleted < batchSize then (deleted, db')
          else case delete_loop now cutoff batchSize db' of (rest, db'') \<Rightarrow> (deleted + rest, db''))"
  by pat_completeness auto
termination
  by (relation "measure (\<lambda>(now, cutoff, n, db). length (ad_events db))")
    (auto intro!: deleteEventBatch_shrinks dest: sym)

declare delete_loop.simps [simp del]

definition deleteEventsOlderThan :: "gotime \<Rightarrow> gotime \<Rightarrow> int \<Rightarrow> actdb \<Rightarrow> nat \<times> actdb" where
  "deleteEventsOlderThan now cutoff batchSize db =
     delete_loop now cutoff (if batchSize \<le> 0 then eventDeleteBatchSize else nat batchSize) db"

section \<open>Corrections, finalizing and notifying\<close>

definition trimmed_or :: "string \<Rightarrow> string \<Rightarrow> string" where
  "trimmed_or s dflt = (let t = trimSpace s in if t = [] then dflt else t)"

definition active_correction :: "string \<Rightarrow> string \<Rightarrow> correctionRow \<Rightarrow> bool" where
  "active_correction aid eid c \<longleftrightarrow> co_activity c = aid \<and> co_event c = eid \<and> co_restored c = None"

definition ExcludeActivityEvidence ::
  "gotime \<Rightarrow> string \<Rightarrow> string \<Rightarrow> string \<Rightarrow> string \<Rightarrow> actdb \<Rightarrow> activity_error + string \<times> actdb" where
  "ExcludeActivityEvidence now aid eid reason actor db =
     (if aid \<notin> set (activity_ids db) then Inl ErrActivityNotFound
      else if list_ex (active_correction aid eid) (ad_corrections db) then Inr (aid, db)
      else if ad_links db eid \<noteq> Some aid then Inl ErrActivityEvidenceMissing
      else if length (evidence db aid) \<le> 1 then Inl ErrActivityNeedsEvidence
      else if list_ex (\<lambda>c. co_event c = eid \<and> co_restored c = None) (ad_corrections db) then Inl ErrConstraint
      else
        let row = \<lparr>co_activity = aid, co_event = eid, co_reason = trimmed_or reason ''Does not belong to this activity'',
                   co_actor = trimmed_or actor ''local'', co_created = now, co_restored = None\<rparr>;
            db1 = db\<lparr>ad_corrections := ad_corrections db @ [row], ad_links := (ad_links db)(eid := None)\<rparr>
        in case reconcileActivityTx now aid db1 of
             (None, _) \<Rightarrow> Inl ErrActivityNeedsEvidence
           | (Some surviving, db2) \<Rightarrow> Inr (surviving, db2))"

text \<open>The first active correction is the only one: the schema has a unique index for it.\<close>

fun restore_first :: "string \<Rightarrow> string \<Rightarrow> gotime \<times> string \<Rightarrow> correctionRow list \<Rightarrow> correctionRow list" where
  "restore_first aid eid r [] = []"
| "restore_first aid eid r (c # cs) =
     (if active_correction aid eid c then c\<lparr>co_restored := Some r\<rparr> # cs else c # restore_first aid eid r cs)"

definition RestoreActivityEvidence ::
  "gotime \<Rightarrow> string \<Rightarrow> string \<Rightarrow> string \<Rightarrow> actdb \<Rightarrow> activity_error + string option \<times> actdb" where
  "RestoreActivityEvidence now aid eid actor db =
     (if aid \<notin> set (activity_ids db) then Inl ErrActivityNotFound
      else if \<not> list_ex (active_correction aid eid) (ad_corrections db) then Inl ErrActivityEvidenceMissing
      else if ad_links db eid \<noteq> None then Inl ErrConstraint
      else Inr (reconcileActivityTx now aid
                 (db\<lparr>ad_corrections := restore_first aid eid (now, trimmed_or actor ''local'') (ad_corrections db),
                     ad_links := (ad_links db)(eid \<mapsto> aid)\<rparr>)))"

definition due_activities :: "gotime \<Rightarrow> int \<Rightarrow> actdb \<Rightarrow> string list" where
  "due_activities now limit db =
     map ar_id (take (if limit \<le> 0 then 100 else nat limit)
       (sort_key (\<lambda>a. (ar_end a, ar_id a))
         (filter (\<lambda>a. ar_state a = ActivityStateOpen \<and> ar_end a \<le> tadd now (- activityMergeGap)) (ad_activities db))))"

definition FinalizeDueActivities :: "gotime \<Rightarrow> int \<Rightarrow> actdb \<Rightarrow> string list \<times> actdb" where
  "FinalizeDueActivities now limit db =
     (let ids = due_activities now limit db
      in (ids, fold (\<lambda>i. update_activity i (\<lambda>a. if ar_state a = ActivityStateOpen
                 then a\<lparr>ar_state := ActivityStateFinalized, ar_finalized := Some now, ar_updated := now\<rparr> else a)) ids db))"

definition pending_activity :: "activityRow \<Rightarrow> bool" where
  "pending_activity a \<longleftrightarrow>
     ar_state a = ActivityStateFinalized \<and> ar_category a \<noteq> category_detection \<and> ar_queued a = None"

definition PendingActivityNotifications :: "int \<Rightarrow> actdb \<Rightarrow> activityRow list" where
  "PendingActivityNotifications limit db =
     take (if limit \<le> 0 then 100 else nat limit)
       (sort_key (\<lambda>a. (ar_finalized a \<noteq> None, case ar_finalized a of None \<Rightarrow> 0 | Some t \<Rightarrow> t, ar_id a))
         (filter pending_activity (ad_activities db)))"

definition MarkActivityNotificationQueued :: "string \<Rightarrow> gotime \<Rightarrow> actdb \<Rightarrow> bool \<times> actdb" where
  "MarkActivityNotificationQueued aid t db =
     (list_ex (\<lambda>a. ar_id a = aid \<and> ar_state a = ActivityStateFinalized \<and> ar_queued a = None) (ad_activities db),
      update_activity aid (\<lambda>a. if ar_state a = ActivityStateFinalized \<and> ar_queued a = None
        then a\<lparr>ar_queued := Some t, ar_updated := t\<rparr> else a) db)"

end
