(* ===== verification/Activity_Invariant.thy ===== *)
theory Activity_Invariant
  imports Activities
begin

text \<open>
  The consistency of the activity tables of \<open>Activities\<close>: keys are unique, every activity has
  evidence and summarizes exactly that evidence, and two activities of a camera are more than the
  merge gap apart.  The invariant is stated with a set of activities that may be stale, which is what
  the tables look like in the middle of a transaction; \<open>reconcileActivityTx\<close> takes an activity
  out of that set.
\<close>

section \<open>Merging\<close>

lemma merge_links:
  "c \<noteq> m \<Longrightarrow> ad_links (merge_activity c m db) = (\<lambda>e. if ad_links db e = Some m then Some c else ad_links db e)"
  by (auto simp: merge_activity_def delete_activity_def moveActivityCorrectionsTx_def move_links_def
      preserveActivityNotificationTx_def update_activity_def)

lemma merge_rows:
  "ar_id a \<noteq> c \<Longrightarrow> a \<in> set (ad_activities (merge_activity c m db)) \<longleftrightarrow> a \<in> set (ad_activities db) \<and> ar_id a \<noteq> m"
  by (auto simp: merge_activity_def delete_activity_def moveActivityCorrectionsTx_def move_links_def
      preserveActivityNotificationTx_def update_activity_def)

lemma merge_all_Cons:
  "merge_all c (m # ids) db = merge_all c ids (if m = c then db else merge_activity c m db)"
  by (simp add: merge_all_def)

lemma merge_all_links:
  "ad_links (merge_all c ids db) = (\<lambda>e. if ad_links db e \<in> Some ` set ids then Some c else ad_links db e)"
proof (induction ids arbitrary: db)
  case (Cons m ids)
  show ?case unfolding merge_all_Cons Cons.IH by (auto simp: merge_links fun_eq_iff)
qed (simp add: merge_all_def)

lemma merge_all_rows:
  "ar_id a \<noteq> c \<Longrightarrow> a \<in> set (ad_activities (merge_all c ids db)) \<longleftrightarrow> a \<in> set (ad_activities db) \<and> ar_id a \<notin> set ids"
proof (induction ids arbitrary: db)
  case (Cons m ids)
  show ?case unfolding merge_all_Cons using Cons by (cases "m = c") (auto simp: merge_rows)
qed (simp add: merge_all_def)

lemma evidence_set: "e \<in> set (evidence db aid) \<longleftrightarrow> e \<in> set (ad_events db) \<and> ad_links db (er_id e) = Some aid"
  by (simp add: evidence_def)

lemma merge_all_evidence_other:
  "aid \<noteq> c \<Longrightarrow> aid \<notin> set ids \<Longrightarrow> evidence (merge_all c ids db) aid = evidence db aid"
  unfolding evidence_def merge_all_events by (rule filter_cong) (auto simp: merge_all_links)

lemma merge_all_evidence:
  "c \<in> set ids \<Longrightarrow> set (evidence (merge_all c ids db) c) = (\<Union>i\<in>set ids. set (evidence db i))"
  by (auto simp: evidence_set merge_all_links split: if_splits)

lemma refresh_links [simp]: "ad_links (refresh_activity now aid db) = ad_links db"
  by (simp add: refresh_activity_def update_activity_def split: prod.split)

lemma refresh_evidence [simp]: "evidence (refresh_activity now aid db) i = evidence db i"
  by (simp add: evidence_def)

lemma refresh_rows:
  "ar_id a \<noteq> aid \<Longrightarrow> a \<in> set (ad_activities (refresh_activity now aid db)) \<longleftrightarrow> a \<in> set (ad_activities db)"
  by (auto simp: refresh_activity_def update_activity_def split: prod.split)

section \<open>The invariant\<close>

definition summary_of :: "activityRow \<Rightarrow> string \<times> gotime \<times> gotime \<times> string" where
  "summary_of a = (ar_camera a, ar_start a, ar_end a, ar_category a)"

definition within_gap :: "activityRow \<Rightarrow> activityRow \<Rightarrow> bool" where
  "within_gap a b \<longleftrightarrow> ar_start b \<le> ar_end a + activityMergeGap \<and> ar_start a - activityMergeGap \<le> ar_end b"

text \<open>
  The tables are consistent but for the activities in \<open>X\<close>, whose summary may be stale: keys are
  unique, links lead from existing events to existing activities, the evidence of an activity is from
  its camera; and an activity outside \<open>X\<close> has evidence, summarizes it, and is more than the
  merge gap away from every other such activity of its camera.
\<close>

definition keys_ok :: "actdb \<Rightarrow> bool" where
  "keys_ok db \<longleftrightarrow> distinct (map er_id (ad_events db)) \<and> distinct (activity_ids db) \<and>
     (\<forall>e aid. ad_links db e = Some aid \<longrightarrow> e \<in> er_id ` set (ad_events db) \<and> aid \<in> set (activity_ids db)) \<and>
     (\<forall>a\<in>set (ad_activities db). \<forall>e\<in>set (evidence db (ar_id a)). er_camera e = ar_camera a)"

definition act_ok_except :: "string set \<Rightarrow> actdb \<Rightarrow> bool" where
  "act_ok_except X db \<longleftrightarrow> keys_ok db \<and>
     (\<forall>a\<in>set (ad_activities db). ar_id a \<notin> X \<longrightarrow>
        evidence db (ar_id a) \<noteq> [] \<and> summary_of a = summarize (evidence db (ar_id a))) \<and>
     (\<forall>a\<in>set (ad_activities db). \<forall>b\<in>set (ad_activities db). ar_id a \<notin> X \<longrightarrow> ar_id b \<notin> X \<longrightarrow>
        ar_id a \<noteq> ar_id b \<longrightarrow> ar_camera a = ar_camera b \<longrightarrow> \<not> within_gap a b)"

abbreviation act_ok :: "actdb \<Rightarrow> bool" where
  "act_ok \<equiv> act_ok_except {}"

lemma act_ok_exceptD:
  assumes "act_ok_except X db"
  shows "keys_ok db"
    and "a \<in> set (ad_activities db) \<Longrightarrow> ar_id a \<notin> X \<Longrightarrow> evidence db (ar_id a) \<noteq> []"
    and "a \<in> set (ad_activities db) \<Longrightarrow> ar_id a \<notin> X \<Longrightarrow> summary_of a = summarize (evidence db (ar_id a))"
    and "a \<in> set (ad_activities db) \<Longrightarrow> b \<in> set (ad_activities db) \<Longrightarrow> ar_id a \<notin> X \<Longrightarrow> ar_id b \<notin> X \<Longrightarrow>
      ar_id a \<noteq> ar_id b \<Longrightarrow> ar_camera a = ar_camera b \<Longrightarrow> \<not> within_gap a b"
  using assms unfolding act_ok_except_def by blast+

lemma act_ok_exceptI:
  assumes "keys_ok db"
    and "\<And>a. a \<in> set (ad_activities db) \<Longrightarrow> ar_id a \<notin> X \<Longrightarrow>
      evidence db (ar_id a) \<noteq> [] \<and> summary_of a = summarize (evidence db (ar_id a))"
    and "\<And>a b. a \<in> set (ad_activities db) \<Longrightarrow> b \<in> set (ad_activities db) \<Longrightarrow> ar_id a \<notin> X \<Longrightarrow> ar_id b \<notin> X \<Longrightarrow>
      ar_id a \<noteq> ar_id b \<Longrightarrow> ar_camera a = ar_camera b \<Longrightarrow> \<not> within_gap a b"
  shows "act_ok_except X db"
  using assms unfolding act_ok_except_def by blast

lemma act_ok_except_sub:
  assumes ok: "act_ok_except X db" and keys: "keys_ok db'"
    and sub: "\<And>a. a \<in> set (ad_activities db') \<Longrightarrow> ar_id a \<notin> Y \<Longrightarrow>
      a \<in> set (ad_activities db) \<and> ar_id a \<notin> X \<and> evidence db' (ar_id a) = evidence db (ar_id a)"
  shows "act_ok_except Y db'"
proof (rule act_ok_exceptI[OF keys])
  fix a assume "a \<in> set (ad_activities db')" "ar_id a \<notin> Y"
  from sub[OF this] show "evidence db' (ar_id a) \<noteq> [] \<and> summary_of a = summarize (evidence db' (ar_id a))"
    using act_ok_exceptD(2,3)[OF ok, of a] by simp
next
  fix a b assume ab: "a \<in> set (ad_activities db')" "b \<in> set (ad_activities db')" "ar_id a \<notin> Y" "ar_id b \<notin> Y"
    and "ar_id a \<noteq> ar_id b" "ar_camera a = ar_camera b"
  then show "\<not> within_gap a b" using act_ok_exceptD(4)[OF ok, of a b] sub[OF ab(1,3)] sub[OF ab(2,4)] by blast
qed

lemma keys_okD:
  assumes "keys_ok db"
  shows "distinct (map er_id (ad_events db))" and "distinct (activity_ids db)"
    and "ad_links db e = Some aid \<Longrightarrow> e \<in> er_id ` set (ad_events db) \<and> aid \<in> set (activity_ids db)"
    and "a \<in> set (ad_activities db) \<Longrightarrow> x \<in> set (evidence db (ar_id a)) \<Longrightarrow> er_camera x = ar_camera a"
  using assms unfolding keys_ok_def by blast+


section \<open>Reconciling restores the invariant\<close>

lemma summarize_camera: "es \<noteq> [] \<Longrightarrow> (\<And>e. e \<in> set es \<Longrightarrow> er_camera e = c) \<Longrightarrow> fst (summarize es) = c"
proof -
  assume a: "es \<noteq> []" "\<And>e. e \<in> set es \<Longrightarrow> er_camera e = c"
  then have "set (map er_camera es) = {c}" by (cases es) auto
  then show ?thesis by (simp add: summarize_def)
qed

lemma linked_activity:
  assumes "keys_ok db" and "evidence db aid \<noteq> []"
  obtains a where "a \<in> set (ad_activities db)" and "ar_id a = aid"
proof -
  obtain e where "e \<in> set (evidence db aid)" using assms(2) by (cases "evidence db aid") auto
  then have "aid \<in> set (activity_ids db)" using keys_okD(3)[OF assms(1)] by (auto simp: evidence_set)
  then show thesis using that unfolding activity_ids_def by auto
qed

lemma row_unique:
  "distinct (activity_ids db) \<Longrightarrow> a \<in> set (ad_activities db) \<Longrightarrow> b \<in> set (ad_activities db) \<Longrightarrow> ar_id a = ar_id b \<Longrightarrow> a = b"
  by (auto simp: activity_ids_def distinct_map inj_on_def)

lemma refresh_row:
  "a \<in> set (ad_activities (refresh_activity now aid db)) \<Longrightarrow> ar_id a = aid \<Longrightarrow> summary_of a = summarize (evidence db aid)"
proof -
  assume a: "a \<in> set (ad_activities (refresh_activity now aid db))" "ar_id a = aid"
  obtain cam start fin category where s: "summarize (evidence db aid) = (cam, start, fin, category)"
    by (cases "summarize (evidence db aid)")
  from a(1) consider a0 where "ar_id a0 = aid"
      "a = a0\<lparr>ar_camera := cam, ar_start := start, ar_end := fin, ar_category := category, ar_updated := now\<rparr>"
    | "ar_id a \<noteq> aid"
    unfolding refresh_activity_def s update_activity_def by (auto split: if_splits)
  then show ?thesis using a(2) by cases (simp_all add: summary_of_def s)
qed

lemma refresh_keys_ok:
  assumes keys: "keys_ok db"
  shows "keys_ok (refresh_activity now aid db)"
  unfolding keys_ok_def
proof (intro conjI allI impI ballI)
  let ?db = "refresh_activity now aid db"
  show "distinct (map er_id (ad_events ?db))" "distinct (activity_ids ?db)" using keys_okD(1,2)[OF keys] by simp_all
  show "e \<in> er_id ` set (ad_events ?db)" "i \<in> set (activity_ids ?db)" if "ad_links ?db e = Some i" for e i
    using keys_okD(3)[OF keys, of e i] that by simp_all
  fix a e assume a: "a \<in> set (ad_activities ?db)" and e: "e \<in> set (evidence ?db (ar_id a))"
  show "er_camera e = ar_camera a"
  proof (cases "ar_id a = aid")
    case True
    then have ev: "evidence db aid \<noteq> []" using e by auto
    obtain b where b: "b \<in> set (ad_activities db)" "ar_id b = aid" using linked_activity[OF keys ev] .
    have cam: "er_camera x = ar_camera b" if "x \<in> set (evidence db aid)" for x
      using keys_okD(4)[OF keys b(1)] that b(2) by simp
    have "ar_camera a = ar_camera b"
      using refresh_row[OF a True] summarize_camera[OF ev cam] by (cases "summarize (evidence db aid)") (simp add: summary_of_def)
    then show ?thesis using cam e True by simp
  next
    case False
    then have "a \<in> set (ad_activities db)" using a by (simp add: refresh_rows)
    then show ?thesis using keys_okD(4)[OF keys] e by simp
  qed
qed

lemma delete_empty_ok:
  assumes "act_ok_except X db" and "evidence db aid = []"
  shows "act_ok_except (X - {aid}) (delete_activity aid db)"
proof -
  note keys = act_ok_exceptD(1)[OF assms(1)]
  have links: "ad_links db e \<noteq> Some aid" for e
  proof
    assume l: "ad_links db e = Some aid"
    then obtain r where "r \<in> set (ad_events db)" "er_id r = e" using keys_okD(3)[OF keys] by auto
    then have "r \<in> set (evidence db aid)" using l by (simp add: evidence_set)
    then show False using assms(2) by simp
  qed
  then have same: "ad_links (delete_activity aid db) = ad_links db" by (auto simp: delete_activity_def)
  then have ev: "evidence (delete_activity aid db) i = evidence db i" for i by (simp add: evidence_def)
  have rows: "a \<in> set (ad_activities (delete_activity aid db)) \<longleftrightarrow> a \<in> set (ad_activities db) \<and> ar_id a \<noteq> aid" for a
    by (auto simp: delete_activity_def)
  have "keys_ok (delete_activity aid db)"
    unfolding keys_ok_def ev same
  proof (intro conjI allI impI)
    show "distinct (map er_id (ad_events (delete_activity aid db)))" using keys_okD(1)[OF keys] by simp
    show "distinct (activity_ids (delete_activity aid db))" using keys_okD(2)[OF keys] by (simp add: activity_ids_delete)
    show "\<forall>a\<in>set (ad_activities (delete_activity aid db)). \<forall>e\<in>set (evidence db (ar_id a)). er_camera e = ar_camera a"
      using keys_okD(4)[OF keys] rows by blast
    fix e i assume l: "ad_links db e = Some i"
    then have "i \<noteq> aid" using links by blast
    then show "e \<in> er_id ` set (ad_events (delete_activity aid db))" "i \<in> set (activity_ids (delete_activity aid db))"
      using keys_okD(3)[OF keys l] by (simp_all add: activity_ids_delete)
  qed
  then show ?thesis by (rule act_ok_except_sub[OF assms(1)]) (use rows ev in auto)
qed

lemma neighbors_after_set:
  "set (neighbors_after aid db) = {a \<in> set (ad_activities db). ar_id a \<noteq> aid \<and>
     ar_camera a = fst (summarize (evidence db aid)) \<and>
     ar_start a \<le> fst (snd (snd (summarize (evidence db aid)))) + activityMergeGap \<and>
     fst (snd (summarize (evidence db aid))) - activityMergeGap \<le> ar_end a}"
proof -
  obtain cam start fin category where s: "summarize (evidence db aid) = (cam, start, fin, category)"
    by (cases "summarize (evidence db aid)")
  show ?thesis unfolding neighbors_after_def s by (auto simp: neighbors_set)
qed

lemma refreshed_alone_ok:
  assumes ok: "act_ok_except X db" and ev: "evidence db aid \<noteq> []"
    and alone: "neighbors_after aid (refresh_activity now aid db) = []"
  shows "act_ok_except (X - {aid}) (refresh_activity now aid db)"
proof (rule act_ok_exceptI)
  let ?db = "refresh_activity now aid db"
  show "keys_ok ?db" using refresh_keys_ok act_ok_exceptD(1)[OF ok] by blast
  fix a assume a: "a \<in> set (ad_activities ?db)" "ar_id a \<notin> X - {aid}"
  show "evidence ?db (ar_id a) \<noteq> [] \<and> summary_of a = summarize (evidence ?db (ar_id a))"
  proof (cases "ar_id a = aid")
    case True
    then show ?thesis using refresh_row[OF a(1) True] ev by simp
  next
    case False
    then have "a \<in> set (ad_activities db)" "ar_id a \<notin> X" using a by (auto simp: refresh_rows)
    then show ?thesis using act_ok_exceptD(2,3)[OF ok] by simp
  qed
next
  let ?db = "refresh_activity now aid db"
  have fresh: "\<not> within_gap a b \<and> \<not> within_gap b a"
    if a: "a \<in> set (ad_activities ?db)" "ar_id a = aid" and b: "b \<in> set (ad_activities ?db)" "ar_id b \<noteq> aid"
      and cam: "ar_camera a = ar_camera b" for a b
  proof -
    have s: "summarize (evidence ?db aid) = (ar_camera a, ar_start a, ar_end a, ar_category a)"
      using refresh_row[OF a] by (simp add: summary_of_def)
    have "fst (summarize (evidence ?db aid)) = ar_camera a" "fst (snd (summarize (evidence ?db aid))) = ar_start a"
      "fst (snd (snd (summarize (evidence ?db aid)))) = ar_end a" unfolding s by simp_all
    moreover have "b \<notin> set (neighbors_after aid ?db)" using alone by simp
    ultimately show ?thesis using b cam unfolding neighbors_after_set within_gap_def by auto
  qed
  fix a b assume ab: "a \<in> set (ad_activities ?db)" "b \<in> set (ad_activities ?db)" "ar_id a \<notin> X - {aid}" "ar_id b \<notin> X - {aid}"
    "ar_id a \<noteq> ar_id b" "ar_camera a = ar_camera b"
  show "\<not> within_gap a b"
  proof (cases "ar_id a = aid \<or> ar_id b = aid")
    case True
    then show ?thesis using fresh ab by metis
  next
    case False
    then have "a \<in> set (ad_activities db)" "b \<in> set (ad_activities db)" using ab by (auto simp: refresh_rows)
    then show ?thesis using act_ok_exceptD(4)[OF ok] ab False by blast
  qed
qed

lemma merge_canon_row:
  assumes "a \<in> set (ad_activities (merge_activity c m db))" and "ar_id a = c"
  shows "\<exists>a0\<in>set (ad_activities db). ar_id a0 = c \<and> summary_of a = summary_of a0 \<and> (ar_queued a0 \<noteq> None \<longrightarrow> ar_queued a \<noteq> None)"
proof -
  obtain a0 where "a0 \<in> set (ad_activities db)" "a = (if ar_id a0 = c
      then a0\<lparr>ar_queued := (case ar_queued a0 of Some t \<Rightarrow> Some t | None \<Rightarrow> Option.bind (find_activity m db) ar_queued)\<rparr> else a0)"
    using assms(1) unfolding merge_activity_def delete_activity_def moveActivityCorrectionsTx_def move_links_def
      preserveActivityNotificationTx_def update_activity_def by auto
  then show ?thesis using assms(2) by (intro bexI[of _ a0]) (auto simp: summary_of_def split: if_splits)
qed

lemma merge_all_canon_row:
  "a \<in> set (ad_activities (merge_all c ids db)) \<Longrightarrow> ar_id a = c \<Longrightarrow>
     \<exists>a0\<in>set (ad_activities db). ar_id a0 = c \<and> summary_of a = summary_of a0 \<and> (ar_queued a0 \<noteq> None \<longrightarrow> ar_queued a \<noteq> None)"
proof (induction ids arbitrary: db)
  case (Cons m ids)
  let ?db1 = "if m = c then db else merge_activity c m db"
  obtain a1 where a1: "a1 \<in> set (ad_activities ?db1)" "ar_id a1 = c" "summary_of a = summary_of a1"
      "ar_queued a1 \<noteq> None \<longrightarrow> ar_queued a \<noteq> None"
    using Cons unfolding merge_all_Cons by blast
  show ?case
  proof (cases "m = c")
    case True
    then show ?thesis using a1 by auto
  next
    case False
    then have "a1 \<in> set (ad_activities (merge_activity c m db))" using a1(1) by simp
    from merge_canon_row[OF this a1(2)] show ?thesis using a1(3,4) by auto
  qed
qed (auto simp: merge_all_def)

text \<open>Merging activities of one camera leaves at most the canonical one stale.\<close>

lemma merge_all_ok:
  assumes ok: "act_ok_except X db" and c: "c \<in> set ids" "c \<in> set (activity_ids db)"
    and cam: "\<And>a. a \<in> set (ad_activities db) \<Longrightarrow> ar_id a \<in> set ids \<Longrightarrow> ar_camera a = cam"
  shows "act_ok_except (insert c X) (merge_all c ids db)"
proof -
  let ?db = "merge_all c ids db"
  note keys = act_ok_exceptD(1)[OF ok]
  have rows: "a \<in> set (ad_activities ?db) \<longleftrightarrow> a \<in> set (ad_activities db) \<and> ar_id a \<notin> set ids" if "ar_id a \<noteq> c" for a
    using merge_all_rows[OF that] by blast
  have ev: "evidence ?db i = evidence db i" if "i \<noteq> c" "i \<notin> set ids" for i using merge_all_evidence_other[OF that] .
  have "keys_ok ?db"
    unfolding keys_ok_def
  proof (intro conjI allI impI ballI)
    show "distinct (map er_id (ad_events ?db))" using keys_okD(1)[OF keys] by simp
    show "distinct (activity_ids ?db)" using keys_okD(2)[OF keys] by (simp add: merge_all_ids)
    fix e aid assume l: "ad_links ?db e = Some aid"
    then obtain a0 where a0: "ad_links db e = Some a0" by (auto simp: merge_all_links split: if_splits)
    show "e \<in> er_id ` set (ad_events ?db)" using keys_okD(3)[OF keys a0] by simp
    show "aid \<in> set (activity_ids ?db)"
    proof (cases "aid = c")
      case True
      then show ?thesis using c(2) by (simp add: merge_all_ids)
    next
      case False
      then have "aid = a0" "a0 \<notin> set ids" using l a0 by (auto simp: merge_all_links split: if_splits)
      then show ?thesis using keys_okD(3)[OF keys a0] by (simp add: merge_all_ids)
    qed
  next
    fix a e assume a: "a \<in> set (ad_activities ?db)" and e: "e \<in> set (evidence ?db (ar_id a))"
    show "er_camera e = ar_camera a"
    proof (cases "ar_id a = c")
      case True
      then obtain a0 where a0: "a0 \<in> set (ad_activities db)" "ar_id a0 = c" "summary_of a = summary_of a0"
        using merge_all_canon_row[OF a] by blast
      obtain i where i: "i \<in> set ids" "e \<in> set (evidence db i)" using e merge_all_evidence[OF c(1), of db] True by auto
      then have "evidence db i \<noteq> []" by auto
      then obtain b where b: "b \<in> set (ad_activities db)" "ar_id b = i" using linked_activity[OF keys] by blast
      have "er_camera e = cam" using keys_okD(4)[OF keys b(1)] cam[OF b(1)] i b(2) by simp
      moreover have "ar_camera a = cam" using a0 cam[OF a0(1)] c(1) by (simp add: summary_of_def)
      ultimately show ?thesis by simp
    next
      case False
      then have "a \<in> set (ad_activities db)" "ar_id a \<notin> set ids" using rows a by blast+
      then show ?thesis using keys_okD(4)[OF keys] ev[OF False] e by simp
    qed
  qed
  then show ?thesis by (rule act_ok_except_sub[OF ok]) (use rows ev in auto)
qed

text \<open>One round of the loop, seen from the refreshed tables.\<close>

lemma round_facts:
  fixes db now aid
  defines "db1 \<equiv> refresh_activity now aid db"
  assumes keys0: "keys_ok db" and ev: "evidence db aid \<noteq> []" and ns: "ns = neighbors_after aid db1"
    and c: "c = canonical aid start ns"
  shows "c \<in> set (aid # map ar_id ns)" and "c \<in> set (activity_ids db1)"
    and "b \<in> set (ad_activities db1) \<Longrightarrow> ar_id b \<in> set (aid # map ar_id ns) \<Longrightarrow> ar_camera b = fst (summarize (evidence db aid))"
proof -
  have keys: "keys_ok db1" unfolding db1_def using refresh_keys_ok[OF keys0] .
  show cin: "c \<in> set (aid # map ar_id ns)" using canonical_in[of aid start ns] c by auto
  have "evidence db1 aid \<noteq> []" using ev by (simp add: db1_def)
  from linked_activity[OF keys this] have "aid \<in> set (activity_ids db1)" by (metis activity_ids_def image_eqI set_map)
  moreover have "set (map ar_id ns) \<subseteq> set (activity_ids db1)" using neighbors_after_ids[of _ aid db1] ns by auto
  ultimately show "c \<in> set (activity_ids db1)" using cin by auto
  assume b: "b \<in> set (ad_activities db1)" "ar_id b \<in> set (aid # map ar_id ns)"
  show "ar_camera b = fst (summarize (evidence db aid))"
  proof (cases "ar_id b = aid")
    case True
    then show ?thesis using refresh_row[OF b(1)[unfolded db1_def] True] by (cases "summarize (evidence db aid)") (simp add: summary_of_def)
  next
    case False
    then obtain n where n: "n \<in> set ns" "ar_id n = ar_id b" using b(2) by auto
    then have "n \<in> set (ad_activities db1)" "ar_camera n = fst (summarize (evidence db aid))"
      using ns by (auto simp: neighbors_after_set db1_def)
    then show ?thesis using row_unique[OF keys_okD(2)[OF keys] _ b(1) n(2)] by simp
  qed
qed

lemma round_ok:
  assumes ok: "act_ok_except X db" and ev: "evidence db aid \<noteq> []" and ns: "ns = neighbors_after aid (refresh_activity now aid db)"
    and c: "c = canonical aid start ns"
  shows "act_ok_except (insert c X) (merge_all c (aid # map ar_id ns) (refresh_activity now aid db))"
proof -
  let ?db = "refresh_activity now aid db"
  note keys = act_ok_exceptD(1)[OF ok]
  have "act_ok_except (insert aid X) ?db"
    by (rule act_ok_except_sub[OF ok refresh_keys_ok[OF keys]]) (auto simp: refresh_rows)
  from merge_all_ok[OF this round_facts[OF keys ev ns c]]
  have m: "act_ok_except (insert c (insert aid X)) (merge_all c (aid # map ar_id ns) ?db)" .
  then show ?thesis by (rule act_ok_except_sub[OF _ act_ok_exceptD(1)[OF m]]) (auto simp: merge_all_rows)
qed

lemma reconcile_ids: "set (activity_ids (snd (reconcileActivityTx now aid db))) \<subseteq> set (activity_ids db)"
proof (induction now aid db rule: reconcileActivityTx.induct)
  case (1 now aid db)
  let ?db1 = "refresh_activity now aid db"
  let ?ns = "neighbors_after aid ?db1"
  let ?c = "canonical aid (fst (snd (summarize (evidence db aid)))) ?ns"
  let ?db2 = "merge_all ?c (aid # map ar_id ?ns) ?db1"
  show ?case
  proof (cases "evidence db aid \<noteq> [] \<and> ?ns \<noteq> []")
    case True
    then have "set (activity_ids (snd (reconcileActivityTx now ?c ?db2))) \<subseteq> set (activity_ids ?db2)"
      using 1 by blast
    moreover have "set (activity_ids ?db2) \<subseteq> set (activity_ids db)" by (auto simp: merge_all_ids)
    moreover have "reconcileActivityTx now aid db = reconcileActivityTx now ?c ?db2"
      using True by (subst reconcileActivityTx.simps) (simp add: Let_def)
    ultimately show ?thesis by auto
  next
    case False
    then show ?thesis by (subst reconcileActivityTx.simps) (auto simp: Let_def activity_ids_delete)
  qed
qed

lemma reconcile_ok:
  "act_ok_except X db \<Longrightarrow> act_ok_except (X - {aid}) (snd (reconcileActivityTx now aid db))"
proof (induction now aid db arbitrary: X rule: reconcileActivityTx.induct)
  case (1 now aid db)
  let ?db1 = "refresh_activity now aid db"
  let ?ns = "neighbors_after aid ?db1"
  let ?c = "canonical aid (fst (snd (summarize (evidence db aid)))) ?ns"
  consider (empty) "evidence db aid = []" | (alone) "evidence db aid \<noteq> []" "?ns = []" | (more) "evidence db aid \<noteq> []" "?ns \<noteq> []"
    by blast
  then show ?case
  proof cases
    case empty
    then show ?thesis using delete_empty_ok[OF 1(2)] by (subst reconcileActivityTx.simps) simp
  next
    case alone
    then show ?thesis using refreshed_alone_ok[OF 1(2)] by (subst reconcileActivityTx.simps) (simp add: Let_def)
  next
    case more
    let ?db2 = "merge_all ?c (aid # map ar_id ?ns) ?db1"
    have step: "snd (reconcileActivityTx now aid db) = snd (reconcileActivityTx now ?c ?db2)"
      using more by (subst reconcileActivityTx.simps) (simp add: Let_def)
    have ok: "act_ok_except (insert ?c X) ?db2" by (rule round_ok[OF 1(2) more(1) refl refl])
    from 1(1)[OF more(1) refl refl more(2) refl refl ok]
    have ih: "act_ok_except (X - {?c}) (snd (reconcileActivityTx now ?c ?db2))" by simp
    have gone: "aid \<notin> set (activity_ids (snd (reconcileActivityTx now ?c ?db2)))" if "aid \<noteq> ?c"
      using reconcile_ids[of now ?c ?db2] that by (auto simp: merge_all_ids)
    show ?thesis unfolding step
      by (rule act_ok_except_sub[OF ih act_ok_exceptD(1)[OF ih]]) (use gone in \<open>auto simp: activity_ids_def\<close>)
  qed
qed


section \<open>Every operation keeps the invariant\<close>

lemma act_ok_corrections [simp]: "act_ok_except X (db\<lparr>ad_corrections := cs\<rparr>) = act_ok_except X db"
  unfolding act_ok_except_def keys_ok_def evidence_def activity_ids_def by simp

lemma update_activity_ok:
  assumes ok: "act_ok_except X db" and f: "\<And>a. ar_id (f a) = ar_id a \<and> summary_of (f a) = summary_of a"
  shows "act_ok_except X (update_activity i f db)"
proof -
  let ?db = "update_activity i f db"
  have ev: "evidence ?db j = evidence db j" for j by (simp add: evidence_def update_activity_def)
  have old: "\<exists>a0\<in>set (ad_activities db). ar_id a = ar_id a0 \<and> summary_of a = summary_of a0" if "a \<in> set (ad_activities ?db)" for a
    using that f by (auto simp: update_activity_def)
  have cam: "ar_camera a = ar_camera b \<and> ar_start a = ar_start b \<and> ar_end a = ar_end b" if "summary_of a = summary_of b" for a b
    using that by (simp add: summary_of_def)
  note keys = act_ok_exceptD(1)[OF ok]
  show ?thesis
  proof (rule act_ok_exceptI)
    have "activity_ids ?db = activity_ids db" using f by (intro activity_ids_update) blast
    moreover have "ad_links ?db = ad_links db" by (simp add: update_activity_def)
    moreover have "\<forall>a\<in>set (ad_activities ?db). \<forall>e\<in>set (evidence db (ar_id a)). er_camera e = ar_camera a"
      using old cam keys_okD(4)[OF keys] by metis
    ultimately show "keys_ok ?db" using keys unfolding keys_ok_def ev by simp
    fix a assume "a \<in> set (ad_activities ?db)" "ar_id a \<notin> X"
    then show "evidence ?db (ar_id a) \<noteq> [] \<and> summary_of a = summarize (evidence ?db (ar_id a))"
      unfolding ev using old act_ok_exceptD(2,3)[OF ok] by metis
  next
    fix a b assume ab: "a \<in> set (ad_activities ?db)" "b \<in> set (ad_activities ?db)" "ar_id a \<notin> X" "ar_id b \<notin> X"
      "ar_id a \<noteq> ar_id b" "ar_camera a = ar_camera b"
    obtain a0 b0 where "a0 \<in> set (ad_activities db)" "ar_id a = ar_id a0" "summary_of a = summary_of a0"
      "b0 \<in> set (ad_activities db)" "ar_id b = ar_id b0" "summary_of b = summary_of b0" using old ab(1,2) by metis
    then show "\<not> within_gap a b" using act_ok_exceptD(4)[OF ok, of a0 b0] ab cam[of a a0] cam[of b b0]
      unfolding within_gap_def by simp
  qed
qed

lemma fold_update_ok:
  "act_ok_except X db \<Longrightarrow> (\<And>i a. ar_id (f i a) = ar_id a \<and> summary_of (f i a) = summary_of a) \<Longrightarrow>
     act_ok_except X (fold (\<lambda>i. update_activity i (f i)) is db)"
  by (induction "is" arbitrary: db) (auto intro: update_activity_ok)

lemma reopen_ok: "act_ok_except X db \<Longrightarrow> act_ok_except X (reopenActivityTx now i db)"
  unfolding reopenActivityTx_def by (rule update_activity_ok) (simp_all add: summary_of_def)

text \<open>Adding or removing one link makes one activity stale.\<close>

lemma event_unique:
  "distinct (map er_id es) \<Longrightarrow> e \<in> set es \<Longrightarrow> e' \<in> set es \<Longrightarrow> er_id e = er_id e' \<Longrightarrow> e = e'"
  by (auto simp: distinct_map inj_on_def)

lemma link_ok:
  assumes ok: "act_ok_except X db" and e: "e \<in> set (ad_events db)" "ad_links db (er_id e) = None"
    and a: "a \<in> set (ad_activities db)" "ar_id a = aid" "ar_camera a = er_camera e"
  shows "act_ok_except (insert aid X) (db\<lparr>ad_links := (ad_links db)(er_id e \<mapsto> aid)\<rparr>)" (is "act_ok_except _ ?db")
proof -
  note keys = act_ok_exceptD(1)[OF ok]
  have ev: "evidence ?db i = evidence db i" if "i \<noteq> aid" for i
    unfolding evidence_def using that e(2) by (auto intro!: filter_cong)
  have evaid: "x \<in> set (evidence ?db aid) \<Longrightarrow> x \<in> set (evidence db aid) \<or> x = e" for x
    using event_unique[OF keys_okD(1)[OF keys] _ e(1)] by (auto simp: evidence_set split: if_splits)
  have "keys_ok ?db"
    unfolding keys_ok_def
  proof (intro conjI allI impI ballI)
    show "distinct (map er_id (ad_events ?db))" using keys_okD(1)[OF keys] by simp
    show "distinct (activity_ids ?db)" using keys_okD(2)[OF keys] by (simp add: activity_ids_def)
    show "x \<in> er_id ` set (ad_events ?db)" "i \<in> set (activity_ids ?db)" if "ad_links ?db x = Some i" for x i
      using keys_okD(3)[OF keys, of x i] that e(1) a(1,2) by (auto simp: activity_ids_def split: if_splits)
    fix b x assume b: "b \<in> set (ad_activities ?db)" "x \<in> set (evidence ?db (ar_id b))"
    then have b': "b \<in> set (ad_activities db)" by simp
    show "er_camera x = ar_camera b"
    proof (cases "ar_id b = aid")
      case True
      then have "b = a" using row_unique[OF keys_okD(2)[OF keys] b' a(1)] a(2) by simp
      then show ?thesis using evaid[of x] b(2) True keys_okD(4)[OF keys b', of x] a(3) by auto
    next
      case False
      then show ?thesis using keys_okD(4)[OF keys b', of x] ev[OF False] b(2) by simp
    qed
  qed
  then show ?thesis by (rule act_ok_except_sub[OF ok]) (use ev in auto)
qed

lemma unlink_ok:
  assumes ok: "act_ok_except X db" and l: "\<And>e i. e \<in> E \<Longrightarrow> ad_links db e = Some i \<Longrightarrow> i \<in> Y"
  shows "act_ok_except (Y \<union> X) (db\<lparr>ad_links := (\<lambda>e. if e \<in> E then None else ad_links db e)\<rparr>)" (is "act_ok_except _ ?db")
proof -
  note keys = act_ok_exceptD(1)[OF ok]
  have sub: "set (evidence ?db i) \<subseteq> set (evidence db i)" for i by (auto simp: evidence_set split: if_splits)
  have ev: "evidence ?db i = evidence db i" if "i \<notin> Y" for i
    unfolding evidence_def using that l by (auto intro!: filter_cong)
  have "keys_ok ?db"
    unfolding keys_ok_def
  proof (intro conjI allI impI ballI)
    show "distinct (map er_id (ad_events ?db))" using keys_okD(1)[OF keys] by simp
    show "distinct (activity_ids ?db)" using keys_okD(2)[OF keys] by (simp add: activity_ids_def)
    show "x \<in> er_id ` set (ad_events ?db)" "i \<in> set (activity_ids ?db)" if "ad_links ?db x = Some i" for x i
      using keys_okD(3)[OF keys, of x i] that by (auto simp: activity_ids_def split: if_splits)
    fix b x assume "b \<in> set (ad_activities ?db)" "x \<in> set (evidence ?db (ar_id b))"
    then show "er_camera x = ar_camera b" using keys_okD(4)[OF keys, of b x] sub by auto
  qed
  then show ?thesis by (rule act_ok_except_sub[OF ok]) (use ev in auto)
qed


lemma unlinked_fresh: "keys_ok db \<Longrightarrow> x \<notin> er_id ` set (ad_events db) \<Longrightarrow> ad_links db x = None"
  using keys_okD(3) by (metis option.exhaust)

lemma add_event_ok:
  assumes ok: "act_ok_except X db" and new: "er_id r \<notin> er_id ` set (ad_events db)"
  shows "act_ok_except X (db\<lparr>ad_events := ad_events db @ [r]\<rparr>)" (is "act_ok_except _ ?db")
proof -
  note keys = act_ok_exceptD(1)[OF ok]
  have ev: "evidence ?db i = evidence db i" for i
    using unlinked_fresh[OF keys new] by (simp add: evidence_def)
  have "keys_ok ?db"
    unfolding keys_ok_def ev
  proof (intro conjI allI impI ballI)
    show "distinct (map er_id (ad_events ?db))" using keys_okD(1)[OF keys] new by auto
    show "distinct (activity_ids ?db)" using keys_okD(2)[OF keys] by (simp add: activity_ids_def)
    show "x \<in> er_id ` set (ad_events ?db)" "i \<in> set (activity_ids ?db)" if "ad_links ?db x = Some i" for x i
      using keys_okD(3)[OF keys, of x i] that by (auto simp: activity_ids_def)
    fix b x assume "b \<in> set (ad_activities ?db)" "x \<in> set (evidence db (ar_id b))"
    then show "er_camera x = ar_camera b" using keys_okD(4)[OF keys, of b x] by simp
  qed
  then show ?thesis by (rule act_ok_except_sub[OF ok]) (use ev in auto)
qed

text \<open>A changed end time makes the activity of the event stale, and no other.\<close>

definition set_end :: "string \<Rightarrow> gotime \<Rightarrow> eventRow \<Rightarrow> eventRow" where
  "set_end eid t e = (if er_id e = eid then e\<lparr>er_end := Some t\<rparr> else e)"

lemma set_end_fields [simp]: "er_id (set_end eid t e) = er_id e" "er_camera (set_end eid t e) = er_camera e"
  by (simp_all add: set_end_def)

lemma set_end_ok:
  assumes ok: "act_ok_except X db" and y: "\<And>i. ad_links db eid = Some i \<Longrightarrow> i \<in> Y"
  shows "act_ok_except (Y \<union> X) (db\<lparr>ad_events := map (set_end eid t) (ad_events db)\<rparr>)" (is "act_ok_except _ ?db")
proof -
  note keys = act_ok_exceptD(1)[OF ok]
  have evmap: "evidence ?db i = map (set_end eid t) (evidence db i)" for i
    by (simp add: evidence_def filter_map o_def)
  have ev: "evidence ?db i = evidence db i" if "i \<notin> Y" for i
    unfolding evmap using that y by (intro map_idI) (auto simp: evidence_set set_end_def)
  have "keys_ok ?db"
    unfolding keys_ok_def
  proof (intro conjI allI impI ballI)
    show "distinct (map er_id (ad_events ?db))" using keys_okD(1)[OF keys] by (simp add: o_def)
    show "distinct (activity_ids ?db)" using keys_okD(2)[OF keys] by (simp add: activity_ids_def)
    show "x \<in> er_id ` set (ad_events ?db)" "i \<in> set (activity_ids ?db)" if "ad_links ?db x = Some i" for x i
      using keys_okD(3)[OF keys, of x i] that by (auto simp: activity_ids_def image_image)
    fix b x assume "b \<in> set (ad_activities ?db)" "x \<in> set (evidence ?db (ar_id b))"
    then show "er_camera x = ar_camera b" using keys_okD(4)[OF keys, of b] by (auto simp: evmap)
  qed
  then show ?thesis by (rule act_ok_except_sub[OF ok]) (use ev in auto)
qed

lemma drop_unlinked_ok:
  assumes ok: "act_ok_except X db" and un: "\<And>e. e \<in> E \<Longrightarrow> ad_links db e = None"
  shows "act_ok_except X (db\<lparr>ad_events := filter (\<lambda>e. er_id e \<notin> E) (ad_events db)\<rparr>)" (is "act_ok_except _ ?db")
proof -
  note keys = act_ok_exceptD(1)[OF ok]
  have ev: "evidence ?db i = evidence db i" for i
    unfolding evidence_def using un by (auto intro!: filter_cong)
  have "keys_ok ?db"
    unfolding keys_ok_def ev
  proof (intro conjI allI impI ballI)
    show "distinct (map er_id (ad_events ?db))" using keys_okD(1)[OF keys] by (simp add: distinct_map_filter)
    show "distinct (activity_ids ?db)" using keys_okD(2)[OF keys] by (simp add: activity_ids_def)
    show "x \<in> er_id ` set (ad_events ?db)" "i \<in> set (activity_ids ?db)" if "ad_links ?db x = Some i" for x i
      using keys_okD(3)[OF keys, of x i] that un[of x] by (auto simp: activity_ids_def)
    fix b x assume "b \<in> set (ad_activities ?db)" "x \<in> set (evidence db (ar_id b))"
    then show "er_camera x = ar_camera b" using keys_okD(4)[OF keys, of b x] by simp
  qed
  then show ?thesis by (rule act_ok_except_sub[OF ok]) (use ev in auto)
qed

lemma delete_events_ok:
  assumes "act_ok_except X db" and "\<And>e i. e \<in> E \<Longrightarrow> ad_links db e = Some i \<Longrightarrow> i \<in> Y"
  shows "act_ok_except (Y \<union> X) (delete_events E db)"
proof -
  have "act_ok_except (Y \<union> X) ((db\<lparr>ad_links := (\<lambda>e. if e \<in> E then None else ad_links db e)\<rparr>)
      \<lparr>ad_events := filter (\<lambda>e. er_id e \<notin> E) (ad_events db)\<rparr>)"
    using drop_unlinked_ok[OF unlink_ok[OF assms], of E] by simp
  then have "act_ok_except (Y \<union> X) ((db\<lparr>ad_links := (\<lambda>e. if e \<in> E then None else ad_links db e),
      ad_events := filter (\<lambda>e. er_id e \<notin> E) (ad_events db)\<rparr>)\<lparr>ad_corrections := filter (\<lambda>c. co_event c \<notin> E) (ad_corrections db)\<rparr>)"
    by simp
  moreover have "(db\<lparr>ad_links := (\<lambda>e. if e \<in> E then None else ad_links db e),
      ad_events := filter (\<lambda>e. er_id e \<notin> E) (ad_events db)\<rparr>)\<lparr>ad_corrections := filter (\<lambda>c. co_event c \<notin> E) (ad_corrections db)\<rparr>
      = delete_events E db"
    by (rule actdb.equality) (simp_all add: delete_events_def)
  ultimately show ?thesis by simp
qed

lemma act_ok_except_mono:
  assumes "act_ok_except X db" and "X \<subseteq> Y"
  shows "act_ok_except Y db"
  by (rule act_ok_except_sub[OF assms(1) act_ok_exceptD(1)[OF assms(1)]]) (use assms(2) in auto)

lemma activityIDs_set: "i \<in> set (activityIDsForEvents ids db) \<longleftrightarrow> (\<exists>e\<in>set ids. ad_links db e = Some i)"
proof -
  have "i \<in> set (List.map_filter (ad_links db) ids) \<longleftrightarrow> (\<exists>e\<in>set ids. ad_links db e = Some i)"
    by (induction ids) (auto simp: map_filter_simps split: option.splits)
  then show ?thesis by (simp add: activityIDsForEvents_def)
qed

lemma fold_reconcile_ok:
  "act_ok_except (set aids \<union> X) db \<Longrightarrow> act_ok_except (X - set aids) (fold (\<lambda>aid d. snd (reconcileActivityTx now aid d)) aids db)"
proof (induction aids arbitrary: X db)
  case (Cons aid aids)
  have eq: "(set (aid # aids) \<union> X) - {aid} = (set aids \<union> (X - {aid})) - {aid}" by auto
  have "act_ok_except (set aids \<union> (X - {aid}) - {aid}) (snd (reconcileActivityTx now aid db))"
    using reconcile_ok[OF Cons.prems, of aid now] unfolding eq .
  then have "act_ok_except (set aids \<union> (X - {aid})) (snd (reconcileActivityTx now aid db))"
    by (rule act_ok_except_mono) auto
  from Cons.IH[OF this] have "act_ok_except (X - {aid} - set aids)
      (fold (\<lambda>aid d. snd (reconcileActivityTx now aid d)) aids (snd (reconcileActivityTx now aid db)))" .
  moreover have "X - {aid} - set aids = X - set (aid # aids)" by auto
  ultimately show ?case by (simp only: fold_simps)
qed simp

lemma deleteEventBatch_ok: "act_ok db \<Longrightarrow> act_ok (snd (deleteEventBatch now cutoff n db))"
proof -
  assume ok: "act_ok db"
  let ?ids = "expiredEventIDs cutoff n db"
  let ?aids = "activityIDsForEvents ?ids db"
  have aids: "i \<in> set ?aids" if "e \<in> set ?ids" "ad_links db e = Some i" for e i
    unfolding activityIDs_set using that by blast
  have "act_ok_except (set ?aids \<union> {}) (delete_events (set ?ids) db)"
    by (rule delete_events_ok[OF ok]) (rule aids)
  from fold_reconcile_ok[OF this, of now]
  have "act_ok (fold (\<lambda>aid d. snd (reconcileActivityTx now aid d)) ?aids (delete_events (set ?ids) db))"
    by (simp only: empty_Diff)
  note rest = this
  show ?thesis
  proof (cases "?ids = []")
    case True
    then show ?thesis using ok by (simp add: deleteEventBatch_def)
  next
    case False
    then have "snd (deleteEventBatch now cutoff n db) =
        fold (\<lambda>aid d. snd (reconcileActivityTx now aid d)) ?aids (delete_events (set ?ids) db)"
      by (simp add: deleteEventBatch_def Let_def)
    then show ?thesis using rest by (rule ssubst)
  qed
qed

lemma reconcile_reopen_ok: "act_ok_except {aid} db \<Longrightarrow> act_ok (reconcile_reopen now aid db)"
proof -
  assume "act_ok_except {aid} db"
  from reconcile_ok[OF this, of aid now] have "act_ok (snd (reconcileActivityTx now aid db))" by simp
  then show ?thesis unfolding reconcile_reopen_def by (auto split: prod.split option.split intro: reopen_ok)
qed

lemma candidates_set:
  "c \<in> set (candidates e db) \<Longrightarrow> c \<in> set (ad_activities db) \<and> ar_camera c = er_camera e"
  by (simp add: candidates_def neighbors_set)

lemma candidates_distinct: "distinct (activity_ids db) \<Longrightarrow> distinct (map ar_id (candidates e db))"
  by (auto simp: candidates_def neighbors_def activity_ids_def distinct_map inj_on_def)

lemma assign_merge_Cons:
  assumes "distinct (activity_ids db)" and "candidates e db \<noteq> []"
  shows "assign_merge now e db = merge_all (assign_target e db) (map ar_id (candidates e db)) db"
proof -
  obtain c cs where c: "candidates e db = c # cs" using assms(2) by (cases "candidates e db") auto
  then have "ar_id c \<notin> ar_id ` set cs" using candidates_distinct[OF assms(1), of e] by simp
  then have "fold (\<lambda>m d. merge_activity (ar_id c) (ar_id m) d) cs d = merge_all (ar_id c) (map ar_id cs) d" for d
    by (induction cs arbitrary: d) (auto simp: merge_all_def)
  then show ?thesis using c by (simp add: assign_merge_def assign_target_def merge_all_def)
qed

text \<open>Before the event is linked, only the activity it goes to may be stale.\<close>

lemma assign_merge_ok:
  assumes ok: "act_ok db" and free: "candidates e db = [] \<Longrightarrow> assign_target e db \<notin> set (activity_ids db)"
    and new: "ad_links db (er_id e) = None"
  shows "act_ok_except {assign_target e db} (assign_merge now e db)"
    and "ad_links (assign_merge now e db) (er_id e) = None" and "ad_events (assign_merge now e db) = ad_events db"
    and "\<exists>a\<in>set (ad_activities (assign_merge now e db)). ar_id a = assign_target e db \<and> ar_camera a = er_camera e"
proof -
  note keys = act_ok_exceptD(1)[OF ok]
  let ?db = "assign_merge now e db" and ?aid = "assign_target e db"
  have "act_ok_except {?aid} ?db \<and> ad_links ?db (er_id e) = None \<and> ad_events ?db = ad_events db \<and>
      (\<exists>a\<in>set (ad_activities ?db). ar_id a = ?aid \<and> ar_camera a = er_camera e)"
  proof (cases "candidates e db = []")
    case True
    then have d: "?db = db\<lparr>ad_activities := ad_activities db @ [new_activity now e]\<rparr>" and i: "?aid = ''act_'' @ er_id e"
      by (simp_all add: assign_merge_def assign_target_def)
    have evd: "evidence ?db i = evidence db i" for i by (simp add: evidence_def d)
    have "evidence db ?aid = []"
    proof (rule ccontr)
      assume "evidence db ?aid \<noteq> []"
      then obtain a where "a \<in> set (ad_activities db)" "ar_id a = ?aid" using linked_activity[OF keys] by blast
      then have "?aid \<in> set (activity_ids db)" unfolding activity_ids_def set_map by (metis image_eqI)
      then show False using free[OF True] by simp
    qed
    have "keys_ok ?db"
      unfolding keys_ok_def evd
    proof (intro conjI allI impI ballI)
      show "distinct (map er_id (ad_events ?db))" using keys_okD(1)[OF keys] by (simp add: d)
      show "distinct (activity_ids ?db)"
        using keys_okD(2)[OF keys] free[OF True] by (simp add: d activity_ids_def new_activity_def i)
      show "x \<in> er_id ` set (ad_events ?db)" "j \<in> set (activity_ids ?db)" if "ad_links ?db x = Some j" for x j
        using keys_okD(3)[OF keys, of x j] that by (simp_all add: d activity_ids_def)
      fix b x assume b: "b \<in> set (ad_activities ?db)" "x \<in> set (evidence db (ar_id b))"
      then have "b \<in> set (ad_activities db)" using \<open>evidence db ?aid = []\<close> by (auto simp: d new_activity_def i)
      then show "er_camera x = ar_camera b" using keys_okD(4)[OF keys] b(2) by blast
    qed
    then have "act_ok_except {?aid} ?db"
      by (rule act_ok_except_sub[OF ok]) (auto simp: d new_activity_def i evidence_def)
    then show ?thesis using new d i by (auto simp: new_activity_def)
  next
    case False
    let ?ids = "map ar_id (candidates e db)"
    have d: "?db = merge_all ?aid ?ids db" using assign_merge_Cons[OF keys_okD(2)[OF keys] False] .
    have hd: "?aid = ar_id (hd (candidates e db))" using False by (cases "candidates e db") (auto simp: assign_target_def)
    have cam: "ar_camera a = er_camera e" if a: "a \<in> set (ad_activities db)" "ar_id a \<in> set ?ids" for a
    proof -
      obtain x where x: "x \<in> set (candidates e db)" "ar_id x = ar_id a" using a(2) by auto
      then show ?thesis using candidates_set[OF x(1)] row_unique[OF keys_okD(2)[OF keys] a(1), of x] by auto
    qed
    have cid: "hd (candidates e db) \<in> set (ad_activities db)" "?aid \<in> set ?ids"
      using candidates_set[of "hd (candidates e db)" e db] hd False by auto
    have aid_in: "?aid \<in> set (activity_ids db)" using cid(1) hd by (auto simp: activity_ids_def)
    have ok1: "act_ok_except {?aid} ?db" unfolding d by (rule merge_all_ok[OF ok cid(2) aid_in cam])
    have "?aid \<in> set (activity_ids ?db)" using aid_in by (simp add: d merge_all_ids)
    then obtain a where a: "a \<in> set (ad_activities ?db)" "ar_id a = ?aid" by (auto simp: activity_ids_def)
    obtain a0 where a0: "a0 \<in> set (ad_activities db)" "ar_id a0 = ?aid" "summary_of a = summary_of a0"
      using merge_all_canon_row[OF a(1)[unfolded d] a(2)] by blast
    then have "ar_camera a = er_camera e" using cam[of a0] cid(2) by (simp add: summary_of_def)
    then show ?thesis using ok1 a new by (auto simp: d merge_all_links)
  qed
  then show "act_ok_except {?aid} ?db" "ad_links ?db (er_id e) = None" "ad_events ?db = ad_events db"
    "\<exists>a\<in>set (ad_activities ?db). ar_id a = ?aid \<and> ar_camera a = er_camera e" by blast+
qed

lemma assign_link_ok:
  assumes ok: "act_ok db" and free: "candidates e db = [] \<Longrightarrow> assign_target e db \<notin> set (activity_ids db)"
    and new: "ad_links db (er_id e) = None" and ev: "e' \<in> set (ad_events db)" "er_id e' = er_id e" "er_camera e' = er_camera e"
  shows "act_ok_except {assign_target e db} (assign_link now e db)"
proof -
  note m = assign_merge_ok[OF ok free new, of now]
  obtain a where a: "a \<in> set (ad_activities (assign_merge now e db))" "ar_id a = assign_target e db" "ar_camera a = er_camera e"
    using m(4) by blast
  have e': "e' \<in> set (ad_events (assign_merge now e db))" "ad_links (assign_merge now e db) (er_id e') = None"
    using m(2,3) ev by auto
  from link_ok[OF m(1) e' a(1,2)] a(3) ev(2,3) show ?thesis by (simp add: assign_link_def Let_def)
qed

lemma SaveEvent_ok:
  assumes ok: "act_ok db" and res: "act_SaveEvent now e db = Inr db'"
  shows "act_ok db'"
proof -
  let ?db = "db\<lparr>ad_events := ad_events db @ [stored_row e]\<rparr>"
  have fresh: "er_id (stored_row e) \<notin> er_id ` set (ad_events db)" and r: "assignEventToActivityTx now e ?db = Inr db'"
    using res by (auto simp: act_SaveEvent_def stored_row_def split: if_splits)
  have ok1: "act_ok ?db" by (rule add_event_ok[OF ok fresh])
  have new: "ad_links ?db (er_id e) = None"
    using unlinked_fresh[OF act_ok_exceptD(1)[OF ok] fresh] by (simp add: stored_row_def)
  show ?thesis
  proof (cases "er_kind e = kind_cry")
    case True
    then show ?thesis using r ok1 by (simp add: assignEventToActivityTx_def)
  next
    case False
    then have "db' = reconcile_reopen now (assign_target e ?db) (assign_link now e ?db)"
      and free: "candidates e ?db = [] \<Longrightarrow> assign_target e ?db \<notin> set (activity_ids ?db)"
      using r by (auto simp: assignEventToActivityTx_def split: if_splits)
    moreover have "act_ok_except {assign_target e ?db} (assign_link now e ?db)"
      by (rule assign_link_ok[OF ok1 free new, of "stored_row e"]) (auto simp: stored_row_def)
    ultimately show ?thesis using reconcile_reopen_ok by simp
  qed
qed


lemma set_end_eq: "(\<lambda>e. if er_id e = eid then e\<lparr>er_end := Some t\<rparr> else e) = set_end eid t"
  by (simp add: fun_eq_iff set_end_def)

lemma UpdateEventEndTime_ok:
  assumes ok: "act_ok db"
  shows "act_ok (act_UpdateEventEndTime now eid t db)"
proof -
  let ?db = "db\<lparr>ad_events := map (set_end eid t) (ad_events db)\<rparr>"
  have eq: "act_UpdateEventEndTime now eid t db = (case ad_links db eid of None \<Rightarrow> ?db | Some aid \<Rightarrow> reconcile_reopen now aid ?db)"
    by (simp add: act_UpdateEventEndTime_def set_end_eq Let_def)
  show ?thesis
  proof (cases "ad_links db eid")
    case None
    have "act_ok_except ({} \<union> {}) ?db" by (rule set_end_ok[OF ok]) (simp add: None)
    then show ?thesis using None by (simp add: eq)
  next
    case (Some aid)
    have "act_ok_except ({aid} \<union> {}) ?db" by (rule set_end_ok[OF ok]) (simp add: Some)
    then show ?thesis using Some reconcile_reopen_ok by (simp add: eq)
  qed
qed

lemma DeleteEvent_ok:
  assumes ok: "act_ok db"
  shows "act_ok (act_DeleteEvent now eid db)"
proof (cases "ad_links db eid")
  case None
  have "act_ok_except ({} \<union> {}) (delete_events {eid} db)" by (rule delete_events_ok[OF ok]) (simp add: None)
  then show ?thesis using None by (simp add: act_DeleteEvent_def)
next
  case (Some aid)
  have "act_ok_except ({aid} \<union> {}) (delete_events {eid} db)" by (rule delete_events_ok[OF ok]) (simp add: Some)
  from reconcile_ok[OF this, of aid now] show ?thesis using Some by (simp add: act_DeleteEvent_def)
qed

lemma Finalize_ok: "act_ok db \<Longrightarrow> act_ok (snd (FinalizeDueActivities now limit db))"
  unfolding FinalizeDueActivities_def Let_def snd_conv by (rule fold_update_ok) (simp_all add: summary_of_def)

lemma Mark_ok: "act_ok db \<Longrightarrow> act_ok (snd (MarkActivityNotificationQueued aid t db))"
  unfolding MarkActivityNotificationQueued_def snd_conv by (rule update_activity_ok) (simp_all add: summary_of_def)

section \<open>Corrections\<close>

text \<open>A correction belongs to an existing activity and an existing event of the same camera.\<close>

definition corrections_ok :: "actdb \<Rightarrow> bool" where
  "corrections_ok db \<longleftrightarrow> (\<forall>c\<in>set (ad_corrections db). \<exists>a\<in>set (ad_activities db). \<exists>e\<in>set (ad_events db).
     ar_id a = co_activity c \<and> er_id e = co_event c \<and> er_camera e = ar_camera a)"

lemma corrections_okI:
  assumes "corrections_ok db"
    and "\<And>c'. c' \<in> set (ad_corrections db') \<Longrightarrow> \<exists>c\<in>set (ad_corrections db). co_event c' = co_event c \<and>
      (\<forall>a\<in>set (ad_activities db). ar_id a = co_activity c \<longrightarrow>
         (\<exists>a'\<in>set (ad_activities db'). ar_id a' = co_activity c' \<and> ar_camera a' = ar_camera a)) \<and>
      (\<forall>e\<in>set (ad_events db). er_id e = co_event c \<longrightarrow> (\<exists>e'\<in>set (ad_events db'). er_id e' = er_id e \<and> er_camera e' = er_camera e))"
  shows "corrections_ok db'"
  unfolding corrections_ok_def
proof
  fix c' assume c': "c' \<in> set (ad_corrections db')"
  obtain c where c: "c \<in> set (ad_corrections db)" "co_event c' = co_event c"
    "\<forall>a\<in>set (ad_activities db). ar_id a = co_activity c \<longrightarrow>
       (\<exists>a'\<in>set (ad_activities db'). ar_id a' = co_activity c' \<and> ar_camera a' = ar_camera a)"
    "\<forall>e\<in>set (ad_events db). er_id e = co_event c \<longrightarrow> (\<exists>e'\<in>set (ad_events db'). er_id e' = er_id e \<and> er_camera e' = er_camera e)"
    using assms(2)[OF c'] by blast
  obtain a e where "a \<in> set (ad_activities db)" "e \<in> set (ad_events db)" "ar_id a = co_activity c" "er_id e = co_event c"
      "er_camera e = ar_camera a"
    using assms(1) c(1) unfolding corrections_ok_def by blast
  then show "\<exists>a\<in>set (ad_activities db'). \<exists>e\<in>set (ad_events db'). ar_id a = co_activity c' \<and> er_id e = co_event c' \<and> er_camera e = ar_camera a"
    using c(2-4) by metis
qed

lemma corrections_same:
  assumes ok: "corrections_ok db" and cs: "ad_corrections db' = ad_corrections db"
    and acts: "\<And>a. a \<in> set (ad_activities db) \<Longrightarrow> \<exists>a'\<in>set (ad_activities db'). ar_id a' = ar_id a \<and> ar_camera a' = ar_camera a"
    and evs: "\<And>e. e \<in> set (ad_events db) \<Longrightarrow> \<exists>e'\<in>set (ad_events db'). er_id e' = er_id e \<and> er_camera e' = er_camera e"
  shows "corrections_ok db'"
proof (rule corrections_okI[OF ok])
  fix c assume c: "c \<in> set (ad_corrections db')"
  show "\<exists>c'\<in>set (ad_corrections db). co_event c = co_event c' \<and>
      (\<forall>a\<in>set (ad_activities db). ar_id a = co_activity c' \<longrightarrow>
         (\<exists>a'\<in>set (ad_activities db'). ar_id a' = co_activity c \<and> ar_camera a' = ar_camera a)) \<and>
      (\<forall>e\<in>set (ad_events db). er_id e = co_event c' \<longrightarrow> (\<exists>e'\<in>set (ad_events db'). er_id e' = er_id e \<and> er_camera e' = er_camera e))"
  proof (intro bexI[of _ c] conjI ballI impI refl)
    show "\<exists>a'\<in>set (ad_activities db'). ar_id a' = co_activity c \<and> ar_camera a' = ar_camera a"
      if "a \<in> set (ad_activities db)" "ar_id a = co_activity c" for a using acts[OF that(1)] that(2) by metis
    show "\<exists>e'\<in>set (ad_events db'). er_id e' = er_id e \<and> er_camera e' = er_camera e" if "e \<in> set (ad_events db)" for e
      using evs[OF that] .
    show "c \<in> set (ad_corrections db)" using c cs by simp
  qed
qed

lemma refresh_same_camera:
  assumes keys: "keys_ok db" and ev: "evidence db aid \<noteq> []" and a: "a \<in> set (ad_activities db)"
  shows "\<exists>a'\<in>set (ad_activities (refresh_activity now aid db)). ar_id a' = ar_id a \<and> ar_camera a' = ar_camera a"
proof (cases "ar_id a = aid")
  case True
  have "ar_id a \<in> set (activity_ids db)" using a by (simp add: activity_ids_def)
  then have "ar_id a \<in> set (activity_ids (refresh_activity now aid db))" by (simp only: refresh_ids)
  then obtain a' where a': "a' \<in> set (ad_activities (refresh_activity now aid db))" "ar_id a' = aid"
    using True by (auto simp: activity_ids_def)
  have "ar_camera a' = fst (summarize (evidence db aid))"
    using refresh_row[OF a'] by (cases "summarize (evidence db aid)") (simp add: summary_of_def)
  also have "\<dots> = ar_camera a" by (rule summarize_camera[OF ev]) (use keys_okD(4)[OF keys a] True in simp)
  finally show ?thesis using a' True by auto
next
  case False
  then show ?thesis using a refresh_rows[OF False] by blast
qed

lemma refresh_corrections:
  assumes "corrections_ok db" and "keys_ok db" and "evidence db aid \<noteq> []"
  shows "corrections_ok (refresh_activity now aid db)"
  by (rule corrections_same[OF assms(1)])
    (use refresh_same_camera[OF assms(2,3)] in \<open>auto simp: refresh_activity_def update_activity_def split: prod.split\<close>)

lemma update_corrections:
  assumes "corrections_ok db" and "\<And>a. ar_id (f a) = ar_id a \<and> ar_camera (f a) = ar_camera a"
  shows "corrections_ok (update_activity i f db)"
  by (rule corrections_same[OF assms(1)]) (use assms(2) in \<open>auto simp: update_activity_def\<close>)

lemma fold_update_corrections:
  "corrections_ok db \<Longrightarrow> (\<And>i a. ar_id (f i a) = ar_id a \<and> ar_camera (f i a) = ar_camera a) \<Longrightarrow>
     corrections_ok (fold (\<lambda>i. update_activity i (f i)) is db)"
  by (induction "is" arbitrary: db) (auto intro: update_corrections)

lemma delete_activity_corrections: "corrections_ok db \<Longrightarrow> corrections_ok (delete_activity aid db)"
  unfolding corrections_ok_def delete_activity_def by fastforce

lemma delete_events_corrections: "corrections_ok db \<Longrightarrow> corrections_ok (delete_events E db)"
  unfolding corrections_ok_def delete_events_def by fastforce

text \<open>Merging moves corrections between activities of the same camera.\<close>

lemma merge_corrections:
  assumes ok: "corrections_ok db" and c: "c \<noteq> m" "c \<in> set (activity_ids db)"
    and cam: "\<And>a. a \<in> set (ad_activities db) \<Longrightarrow> ar_id a \<in> {c, m} \<Longrightarrow> ar_camera a = cam"
  shows "corrections_ok (merge_activity c m db)"
proof (rule corrections_okI[OF ok])
  let ?db = "merge_activity c m db"
  have "c \<in> set (activity_ids ?db)" using c by (simp add: merge_activity_ids)
  then obtain a where a: "a \<in> set (ad_activities ?db)" "ar_id a = c" by (auto simp: activity_ids_def)
  obtain a0 where a0: "a0 \<in> set (ad_activities db)" "ar_id a0 = c" "summary_of a = summary_of a0" using merge_canon_row[OF a] by blast
  have acam: "ar_camera a = cam" using a0 cam[of a0] by (simp add: summary_of_def)
  fix r assume r: "r \<in> set (ad_corrections ?db)"
  obtain r0 where r0: "r0 \<in> set (ad_corrections db)" "co_event r = co_event r0"
      "co_activity r = (if co_activity r0 = m then c else co_activity r0)"
    using r unfolding merge_activity_def delete_activity_def moveActivityCorrectionsTx_def move_links_def
      preserveActivityNotificationTx_def update_activity_def by (auto split: if_splits)
  show "\<exists>r0\<in>set (ad_corrections db). co_event r = co_event r0 \<and>
      (\<forall>a\<in>set (ad_activities db). ar_id a = co_activity r0 \<longrightarrow>
         (\<exists>a'\<in>set (ad_activities ?db). ar_id a' = co_activity r \<and> ar_camera a' = ar_camera a)) \<and>
      (\<forall>e\<in>set (ad_events db). er_id e = co_event r0 \<longrightarrow> (\<exists>e'\<in>set (ad_events ?db). er_id e' = er_id e \<and> er_camera e' = er_camera e))"
  proof (intro bexI[of _ r0] conjI ballI impI)
    fix b assume b: "b \<in> set (ad_activities db)" "ar_id b = co_activity r0"
    show "\<exists>a'\<in>set (ad_activities ?db). ar_id a' = co_activity r \<and> ar_camera a' = ar_camera b"
    proof (cases "ar_id b \<in> {c, m}")
      case True
      then have "co_activity r = c" using r0(3) b(2) by auto
      then show ?thesis using a acam cam[OF b(1) True] by metis
    next
      case False
      then have "b \<in> set (ad_activities ?db)" using b(1) merge_rows[of b c m db] by blast
      then show ?thesis using r0(3) b(2) False by auto
    qed
  qed (use r0 in auto)
qed

lemma merge_row_camera:
  assumes "a \<in> set (ad_activities (merge_activity c m db))"
  shows "\<exists>a0\<in>set (ad_activities db). ar_id a0 = ar_id a \<and> ar_camera a0 = ar_camera a"
proof (cases "ar_id a = c")
  case True
  from merge_canon_row[OF assms this] True show ?thesis by (auto simp: summary_of_def)
next
  case False
  then show ?thesis using assms merge_rows by blast
qed

lemma merge_all_corrections:
  "corrections_ok db \<Longrightarrow> c \<in> set (activity_ids db) \<Longrightarrow>
   (\<And>a. a \<in> set (ad_activities db) \<Longrightarrow> ar_id a \<in> insert c (set ids) \<Longrightarrow> ar_camera a = cam) \<Longrightarrow>
     corrections_ok (merge_all c ids db)"
proof (induction ids arbitrary: db)
  case (Cons m ids)
  show ?case
  proof (cases "m = c")
    case True
    then show ?thesis unfolding merge_all_Cons using Cons by simp
  next
    case False
    have "corrections_ok (merge_activity c m db)"
      by (rule merge_corrections[OF Cons.prems(1) _ Cons.prems(2)]) (use False Cons.prems(3) in auto)
    moreover have "c \<in> set (activity_ids (merge_activity c m db))" using Cons.prems(2) False by (simp add: merge_activity_ids)
    moreover have "ar_camera a = cam" if a: "a \<in> set (ad_activities (merge_activity c m db))" "ar_id a \<in> insert c (set ids)" for a
    proof -
      obtain a0 where "a0 \<in> set (ad_activities db)" "ar_id a0 = ar_id a" "ar_camera a0 = ar_camera a"
        using merge_row_camera[OF a(1)] by blast
      then show ?thesis using Cons.prems(3)[of a0] a(2) by auto
    qed
    ultimately show ?thesis unfolding merge_all_Cons using Cons.IH[of "merge_activity c m db"] False by simp
  qed
qed (simp add: merge_all_def)

lemma round_corrections:
  assumes ok: "corrections_ok db" and keys: "keys_ok db" and ev: "evidence db aid \<noteq> []"
    and ns: "ns = neighbors_after aid (refresh_activity now aid db)" and c: "c = canonical aid start ns"
  shows "corrections_ok (merge_all c (aid # map ar_id ns) (refresh_activity now aid db))"
proof (rule merge_all_corrections[OF refresh_corrections[OF ok keys ev] round_facts(2)[OF keys ev ns c]])
  fix a assume "a \<in> set (ad_activities (refresh_activity now aid db))" "ar_id a \<in> insert c (set (aid # map ar_id ns))"
  then show "ar_camera a = fst (summarize (evidence db aid))"
    using round_facts(1,3)[OF keys ev ns c] by (metis insert_iff)
qed

lemma reconcile_corrections:
  "act_ok_except X db \<Longrightarrow> corrections_ok db \<Longrightarrow> corrections_ok (snd (reconcileActivityTx now aid db))"
proof (induction now aid db arbitrary: X rule: reconcileActivityTx.induct)
  case (1 now aid db)
  let ?db1 = "refresh_activity now aid db"
  let ?ns = "neighbors_after aid ?db1"
  let ?c = "canonical aid (fst (snd (summarize (evidence db aid)))) ?ns"
  let ?db2 = "merge_all ?c (aid # map ar_id ?ns) ?db1"
  note keys = act_ok_exceptD(1)[OF 1(2)]
  consider (empty) "evidence db aid = []" | (alone) "evidence db aid \<noteq> []" "?ns = []" | (more) "evidence db aid \<noteq> []" "?ns \<noteq> []"
    by blast
  then show ?case
  proof cases
    case empty
    then show ?thesis using delete_activity_corrections[OF 1(3)] by (subst reconcileActivityTx.simps) simp
  next
    case alone
    then show ?thesis using refresh_corrections[OF 1(3) keys] by (subst reconcileActivityTx.simps) (simp add: Let_def)
  next
    case more
    have step: "snd (reconcileActivityTx now aid db) = snd (reconcileActivityTx now ?c ?db2)"
      using more by (subst reconcileActivityTx.simps) (simp add: Let_def)
    show ?thesis unfolding step
      by (rule 1(1)[OF more(1) refl refl more(2) refl refl round_ok[OF 1(2) more(1) refl refl] round_corrections[OF 1(3) keys more(1) refl refl]])
  qed
qed

section \<open>The whole invariant\<close>

definition act_inv :: "actdb \<Rightarrow> bool" where
  "act_inv db \<longleftrightarrow> act_ok db \<and> corrections_ok db"

lemma corrections_links [simp]: "corrections_ok (db\<lparr>ad_links := l\<rparr>) = corrections_ok db"
  unfolding corrections_ok_def by simp

lemma corrections_add_event: "corrections_ok db \<Longrightarrow> corrections_ok (db\<lparr>ad_events := ad_events db @ [r]\<rparr>)"
  by (rule corrections_same) auto

lemma corrections_set_end: "corrections_ok db \<Longrightarrow> corrections_ok (db\<lparr>ad_events := map (set_end eid t) (ad_events db)\<rparr>)"
  by (rule corrections_same) auto

lemma corrections_events_cong:
  "corrections_ok (db\<lparr>ad_corrections := cs\<rparr>)" if "corrections_ok db"
    and "\<And>c. c \<in> set cs \<Longrightarrow> \<exists>c0\<in>set (ad_corrections db). co_activity c = co_activity c0 \<and> co_event c = co_event c0"
  using that unfolding corrections_ok_def by (auto, metis)

lemma reconcile_reopen_corrections:
  assumes "act_ok_except X db" and "corrections_ok db"
  shows "corrections_ok (reconcile_reopen now aid db)"
  using reconcile_corrections[OF assms, of now aid] unfolding reconcile_reopen_def reopenActivityTx_def
  by (auto split: prod.split option.split intro!: update_corrections)

lemma assign_merge_corrections:
  assumes ok: "act_ok db" and co: "corrections_ok db"
  shows "corrections_ok (assign_merge now e db)"
proof (cases "candidates e db = []")
  case True
  then have "assign_merge now e db = db\<lparr>ad_activities := ad_activities db @ [new_activity now e]\<rparr>" by (simp add: assign_merge_def)
  then show ?thesis using co by (intro corrections_same[OF co]) auto
next
  case False
  note keys = act_ok_exceptD(1)[OF ok]
  note d = assign_merge_Cons[OF keys_okD(2)[OF keys] False, of now]
  have t: "assign_target e db \<in> ar_id ` set (candidates e db)" using False by (cases "candidates e db") (auto simp: assign_target_def)
  show ?thesis unfolding d
  proof (rule merge_all_corrections[OF co])
    show "assign_target e db \<in> set (activity_ids db)" using t candidates_set[of _ e db] by (auto simp: activity_ids_def)
    fix a assume a: "a \<in> set (ad_activities db)" "ar_id a \<in> insert (assign_target e db) (set (map ar_id (candidates e db)))"
    then obtain x where x: "x \<in> set (candidates e db)" "ar_id x = ar_id a" using t by auto
    then show "ar_camera a = er_camera e" using candidates_set[OF x(1)] row_unique[OF keys_okD(2)[OF keys] a(1), of x] by auto
  qed
qed

lemma SaveEvent_inv: "act_inv db \<Longrightarrow> act_SaveEvent now e db = Inr db' \<Longrightarrow> act_inv db'"
proof -
  assume inv: "act_inv db" and res: "act_SaveEvent now e db = Inr db'"
  then have ok: "act_ok db" and co: "corrections_ok db" by (simp_all add: act_inv_def)
  let ?db = "db\<lparr>ad_events := ad_events db @ [stored_row e]\<rparr>"
  have fresh: "er_id (stored_row e) \<notin> er_id ` set (ad_events db)" and r: "assignEventToActivityTx now e ?db = Inr db'"
    using res by (auto simp: act_SaveEvent_def stored_row_def split: if_splits)
  note ok1 = add_event_ok[OF ok fresh] and co1 = corrections_add_event[OF co, of "stored_row e"]
  have new: "ad_links ?db (er_id e) = None"
    using unlinked_fresh[OF act_ok_exceptD(1)[OF ok] fresh] by (simp add: stored_row_def)
  have "corrections_ok db'"
  proof (cases "er_kind e = kind_cry")
    case True
    then show ?thesis using r co1 by (simp add: assignEventToActivityTx_def)
  next
    case False
    then have "db' = reconcile_reopen now (assign_target e ?db) (assign_link now e ?db)"
      and free: "candidates e ?db = [] \<Longrightarrow> assign_target e ?db \<notin> set (activity_ids ?db)"
      using r by (auto simp: assignEventToActivityTx_def split: if_splits)
    moreover have "act_ok_except {assign_target e ?db} (assign_link now e ?db)"
      by (rule assign_link_ok[OF ok1 free new, of "stored_row e"]) (auto simp: stored_row_def)
    moreover have "corrections_ok (assign_link now e ?db)"
      using assign_merge_corrections[OF ok1 co1] by (simp add: assign_link_def Let_def)
    ultimately show ?thesis using reconcile_reopen_corrections by simp
  qed
  then show ?thesis using SaveEvent_ok[OF ok res] by (simp add: act_inv_def)
qed

lemma UpdateEventEndTime_inv: "act_inv db \<Longrightarrow> act_inv (act_UpdateEventEndTime now eid t db)"
proof -
  assume "act_inv db"
  then have ok: "act_ok db" and co: "corrections_ok db" by (simp_all add: act_inv_def)
  let ?db = "db\<lparr>ad_events := map (set_end eid t) (ad_events db)\<rparr>"
  have "act_ok_except (UNIV \<union> {}) ?db" by (rule set_end_ok[OF ok]) simp
  then have "corrections_ok (reconcile_reopen now aid ?db)" for aid
    using reconcile_reopen_corrections corrections_set_end[OF co] by blast
  then have "corrections_ok (act_UpdateEventEndTime now eid t db)"
    using corrections_set_end[OF co] by (simp add: act_UpdateEventEndTime_def set_end_eq Let_def split: option.split)
  then show ?thesis using UpdateEventEndTime_ok[OF ok] by (simp add: act_inv_def)
qed

lemma DeleteEvent_inv: "act_inv db \<Longrightarrow> act_inv (act_DeleteEvent now eid db)"
proof -
  assume "act_inv db"
  then have ok: "act_ok db" and co: "corrections_ok db" by (simp_all add: act_inv_def)
  have "act_ok_except (UNIV \<union> {}) (delete_events {eid} db)" by (rule delete_events_ok[OF ok]) simp
  from reconcile_corrections[OF this delete_events_corrections[OF co]]
  have "corrections_ok (act_DeleteEvent now eid db)"
    using delete_events_corrections[OF co] by (simp add: act_DeleteEvent_def split: option.split)
  then show ?thesis using DeleteEvent_ok[OF ok] by (simp add: act_inv_def)
qed

lemma fold_reconcile_corrections:
  "act_ok_except X db \<Longrightarrow> corrections_ok db \<Longrightarrow> corrections_ok (fold (\<lambda>aid d. snd (reconcileActivityTx now aid d)) aids db)"
proof (induction aids arbitrary: X db)
  case (Cons aid aids)
  from Cons.IH[OF reconcile_ok[OF Cons.prems(1)] reconcile_corrections[OF Cons.prems]] show ?case by simp
qed simp

lemma deleteEventBatch_inv: "act_inv db \<Longrightarrow> act_inv (snd (deleteEventBatch now cutoff n db))"
proof -
  assume "act_inv db"
  then have ok: "act_ok db" and co: "corrections_ok db" by (simp_all add: act_inv_def)
  have del: "act_ok_except (UNIV \<union> {}) (delete_events E db)" for E by (rule delete_events_ok[OF ok]) simp
  have "corrections_ok (snd (deleteEventBatch now cutoff n db))"
    using fold_reconcile_corrections[OF del delete_events_corrections[OF co]] co by (auto simp: deleteEventBatch_def Let_def)
  then show ?thesis using deleteEventBatch_ok[OF ok] by (simp add: act_inv_def)
qed

lemma delete_loop_inv: "act_inv db \<Longrightarrow> act_inv (snd (delete_loop now cutoff n db))"
proof (induction now cutoff n db rule: delete_loop.induct)
  case (1 now cutoff n db)
  obtain d db' where b: "deleteEventBatch now cutoff n db = (d, db')" by (cases "deleteEventBatch now cutoff n db")
  have "act_inv db'" using deleteEventBatch_inv[OF 1(2), of now cutoff n] b by simp
  then show ?case
    using 1(1)[OF b[symmetric]]
    by (subst delete_loop.simps) (auto simp: b split: prod.split dest: arg_cong[of _ _ snd])
qed

lemma Finalize_inv: "act_inv db \<Longrightarrow> act_inv (snd (FinalizeDueActivities now limit db))"
  unfolding act_inv_def using Finalize_ok
  by (auto simp: FinalizeDueActivities_def Let_def intro!: fold_update_corrections)

lemma Mark_inv: "act_inv db \<Longrightarrow> act_inv (snd (MarkActivityNotificationQueued aid t db))"
  unfolding act_inv_def using Mark_ok by (auto simp: MarkActivityNotificationQueued_def intro!: update_corrections)

lemma actdb_swap: "db\<lparr>ad_corrections := cs, ad_links := l\<rparr> = db\<lparr>ad_links := l, ad_corrections := cs\<rparr>"
  by (rule actdb.equality) simp_all

text \<open>What an exclusion hands to \<open>reconcileActivityTx\<close>.\<close>

lemma Exclude_unlinked:
  assumes inv: "act_inv db" and res: "ExcludeActivityEvidence now aid eid reason actor db = Inr (i, db')"
  shows "db' = db \<or> (\<exists>cs. let db1 = db\<lparr>ad_links := (ad_links db)(eid := None), ad_corrections := cs\<rparr>
    in db' = snd (reconcileActivityTx now aid db1) \<and> act_ok_except {aid} db1 \<and> corrections_ok db1)"
proof -
  have ok: "act_ok db" and co: "corrections_ok db" using inv by (simp_all add: act_inv_def)
  note keys = act_ok_exceptD(1)[OF ok]
  let ?r = "\<lparr>co_activity = aid, co_event = eid, co_reason = trimmed_or reason ''Does not belong to this activity'',
     co_actor = trimmed_or actor ''local'', co_created = now, co_restored = None\<rparr>"
  let ?db = "db\<lparr>ad_links := (ad_links db)(eid := None), ad_corrections := ad_corrections db @ [?r]\<rparr>"
  have "db' = db \<or> ad_links db eid = Some aid \<and> db' = snd (reconcileActivityTx now aid ?db)"
    using res unfolding ExcludeActivityEvidence_def Let_def actdb_swap by (auto split: if_splits prod.splits option.splits)
  then consider "db' = db" | "ad_links db eid = Some aid" "db' = snd (reconcileActivityTx now aid ?db)" by blast
  then show ?thesis
  proof cases
    case 2
    have "act_ok_except ({aid} \<union> {}) (db\<lparr>ad_links := (\<lambda>e. if e \<in> {eid} then None else ad_links db e)\<rparr>)"
      by (rule unlink_ok[OF ok]) (use 2(1) in auto)
    moreover have "(\<lambda>e. if e \<in> {eid} then None else ad_links db e) = (ad_links db)(eid := None)" by auto
    ultimately have un: "act_ok_except {aid} ?db" by simp
    obtain e where e: "e \<in> set (ad_events db)" "er_id e = eid" and "aid \<in> set (activity_ids db)"
      using keys_okD(3)[OF keys 2(1)] by auto
    then obtain a where a: "a \<in> set (ad_activities db)" "ar_id a = aid" by (auto simp: activity_ids_def)
    have "er_camera e = ar_camera a" using keys_okD(4)[OF keys a(1)] e a(2) 2(1) by (simp add: evidence_set)
    then have "corrections_ok ?db" using co e a unfolding corrections_ok_def by auto
    then show ?thesis using un 2(2) by (intro disjI2 exI[of _ "ad_corrections db @ [?r]"]) (simp add: Let_def)
  qed simp
qed

lemma Exclude_inv:
  assumes "act_inv db" and "ExcludeActivityEvidence now aid eid reason actor db = Inr (i, db')"
  shows "act_inv db'"
  using Exclude_unlinked[OF assms]
proof
  assume "\<exists>cs. let db1 = db\<lparr>ad_links := (ad_links db)(eid := None), ad_corrections := cs\<rparr>
    in db' = snd (reconcileActivityTx now aid db1) \<and> act_ok_except {aid} db1 \<and> corrections_ok db1"
  then obtain db1 where d: "db' = snd (reconcileActivityTx now aid db1)" "act_ok_except {aid} db1" "corrections_ok db1"
    by (auto simp: Let_def)
  from reconcile_corrections[OF d(2,3)] reconcile_ok[OF d(2), of aid now] show ?thesis unfolding d(1) by (simp add: act_inv_def)
qed (use assms(1) in simp)

lemma restore_first_rows:
  "c \<in> set (restore_first aid eid r cs) \<Longrightarrow> \<exists>c0\<in>set cs. co_activity c = co_activity c0 \<and> co_event c = co_event c0"
  by (induction cs) (auto split: if_splits)

text \<open>What a restore hands to \<open>reconcileActivityTx\<close>.\<close>

lemma Restore_linked:
  assumes inv: "act_inv db" and res: "RestoreActivityEvidence now aid eid actor db = Inr (i, db')"
  shows "\<exists>cs. let db1 = db\<lparr>ad_links := (ad_links db)(eid \<mapsto> aid), ad_corrections := cs\<rparr>
    in db' = snd (reconcileActivityTx now aid db1) \<and> ad_links db eid = None \<and> act_ok_except {aid} db1 \<and> corrections_ok db1"
proof -
  have ok: "act_ok db" and co: "corrections_ok db" using inv by (simp_all add: act_inv_def)
  let ?cs = "restore_first aid eid (now, trimmed_or actor ''local'') (ad_corrections db)"
  let ?db = "db\<lparr>ad_links := (ad_links db)(eid \<mapsto> aid), ad_corrections := ?cs\<rparr>"
  have d: "db' = snd (reconcileActivityTx now aid ?db)" and un: "ad_links db eid = None"
    and ac: "list_ex (active_correction aid eid) (ad_corrections db)"
    using res unfolding RestoreActivityEvidence_def actdb_swap by (auto split: if_splits dest: arg_cong[of _ _ snd])
  obtain c where c: "c \<in> set (ad_corrections db)" "co_activity c = aid" "co_event c = eid"
    using ac by (auto simp: list_ex_iff active_correction_def)
  then obtain a e where ae: "a \<in> set (ad_activities db)" "e \<in> set (ad_events db)" "ar_id a = aid" "er_id e = eid" "er_camera e = ar_camera a"
    using co unfolding corrections_ok_def by blast
  have "act_ok_except (insert aid {}) (db\<lparr>ad_links := (ad_links db)(er_id e \<mapsto> aid)\<rparr>)"
    by (rule link_ok[OF ok ae(2) _ ae(1,3)]) (use un ae in simp_all)
  then have "act_ok_except {aid} ?db" using ae(4) by simp
  moreover have "corrections_ok ((db\<lparr>ad_links := (ad_links db)(eid \<mapsto> aid)\<rparr>)\<lparr>ad_corrections := ?cs\<rparr>)"
    by (rule corrections_events_cong) (use co restore_first_rows in auto)
  ultimately show ?thesis using d un by (intro exI[of _ ?cs]) (simp add: Let_def)
qed

lemma Restore_inv:
  assumes "act_inv db" and "RestoreActivityEvidence now aid eid actor db = Inr (i, db')"
  shows "act_inv db'"
proof -
  obtain cs where d: "db' = snd (reconcileActivityTx now aid (db\<lparr>ad_links := (ad_links db)(eid \<mapsto> aid), ad_corrections := cs\<rparr>))"
    and ok: "act_ok_except {aid} (db\<lparr>ad_links := (ad_links db)(eid \<mapsto> aid), ad_corrections := cs\<rparr>)"
    and co: "corrections_ok (db\<lparr>ad_links := (ad_links db)(eid \<mapsto> aid), ad_corrections := cs\<rparr>)"
    using Restore_linked[OF assms] by (auto simp: Let_def)
  from reconcile_corrections[OF ok co] reconcile_ok[OF ok, of aid now] show ?thesis unfolding d by (simp add: act_inv_def)
qed

section \<open>Steps\<close>

inductive act_step :: "actdb \<Rightarrow> actdb \<Rightarrow> bool" where
  step_save: "act_SaveEvent now e db = Inr db' \<Longrightarrow> act_step db db'"
| step_end: "act_step db (act_UpdateEventEndTime now eid t db)"
| step_delete: "act_step db (act_DeleteEvent now eid db)"
| step_expire: "act_step db (snd (deleteEventsOlderThan now cutoff n db))"
| step_exclude: "ExcludeActivityEvidence now aid eid reason actor db = Inr (i, db') \<Longrightarrow> act_step db db'"
| step_restore: "RestoreActivityEvidence now aid eid actor db = Inr (j, db') \<Longrightarrow> act_step db db'"
| step_finalize: "act_step db (snd (FinalizeDueActivities now limit db))"
| step_mark: "act_step db (snd (MarkActivityNotificationQueued aid t db))"

lemma act_step_inv: "act_step db db' \<Longrightarrow> act_inv db \<Longrightarrow> act_inv db'"
  by (induction rule: act_step.induct)
    (auto simp: deleteEventsOlderThan_def intro: SaveEvent_inv UpdateEventEndTime_inv DeleteEvent_inv delete_loop_inv
      Exclude_inv Restore_inv Finalize_inv Mark_inv)

lemma act_inv_empty: "act_inv empty_actdb"
  by (simp add: act_inv_def act_ok_except_def keys_ok_def corrections_ok_def empty_actdb_def activity_ids_def)

lemma reachable_inv: "act_step\<^sup>*\<^sup>* empty_actdb db \<Longrightarrow> act_inv db"
  by (induction rule: rtranclp_induct) (auto intro: act_inv_empty act_step_inv)

text \<open>
  C33. In every state the operations reach, the summary of an activity is exact and
  activities are apart: ids are unique, a link leads from a stored event to a stored activity, every
  activity has evidence, its camera, bounds and category are those of its evidence, and two activities
  of one camera are more than the merge gap apart.
\<close>

theorem activities_consistent:
  assumes "act_step\<^sup>*\<^sup>* empty_actdb db"
  shows "distinct (activity_ids db) \<and> ran (ad_links db) \<subseteq> set (activity_ids db) \<and> dom (ad_links db) \<subseteq> er_id ` set (ad_events db) \<and>
    (\<forall>a\<in>set (ad_activities db). evidence db (ar_id a) \<noteq> [] \<and> summary_of a = summarize (evidence db (ar_id a))) \<and>
    (\<forall>a\<in>set (ad_activities db). \<forall>b\<in>set (ad_activities db). ar_id a \<noteq> ar_id b \<longrightarrow> ar_camera a = ar_camera b \<longrightarrow> \<not> within_gap a b)"
proof -
  have ok: "act_ok db" using reachable_inv[OF assms] by (simp add: act_inv_def)
  note keys = act_ok_exceptD(1)[OF ok]
  have "ran (ad_links db) \<subseteq> set (activity_ids db)" "dom (ad_links db) \<subseteq> er_id ` set (ad_events db)"
    using keys_okD(3)[OF keys] by (auto simp: ran_def dom_def)
  then show ?thesis using keys_okD(2)[OF keys] ok unfolding act_ok_except_def by blast
qed

definition two_events :: "eventRow \<Rightarrow> eventRow \<Rightarrow> actdb" where
  "two_events e f = (case act_SaveEvent 0 e empty_actdb of Inl _ \<Rightarrow> empty_actdb
     | Inr d \<Rightarrow> (case act_SaveEvent 0 f d of Inl _ \<Rightarrow> d | Inr d' \<Rightarrow> d'))"

lemma two_events_reached: "act_step\<^sup>*\<^sup>* empty_actdb (two_events e f)"
  unfolding two_events_def by (auto split: sum.split intro: rtranclp.rtrancl_into_rtrancl step_save)

definition example_row :: "string \<Rightarrow> gotime \<Rightarrow> eventRow" where
  "example_row i t = \<lparr>er_id = i, er_camera = ''door'', er_timestamp = t, er_end = Some (t + 10 * Second),
     er_category = category_detection, er_kind = ''object''\<rparr>"

theorem activities_consistent_witness:
  "(let db = two_events (example_row ''a'' 0) (example_row ''b'' (100 * Second))
    in activity_ids db = [''act_a''] \<and> map summary_of (ad_activities db) = [(''door'', 0, 110 * Second, category_detection)] \<and>
       ran (ad_links db) \<subseteq> {''act_a''})"
proof -
  let ?db = "two_events (example_row ''a'' 0) (example_row ''b'' (100 * Second))"
  have c: "activity_ids ?db = [''act_a'']" by code_simp
  have s: "map summary_of (ad_activities ?db) = [(''door'', 0, 110 * Second, category_detection)]" by code_simp
  have "ran (ad_links ?db) \<subseteq> set (activity_ids ?db)" using activities_consistent[OF two_events_reached] by blast
  then show ?thesis using c s by (simp add: Let_def)
qed

section \<open>Notifications\<close>

definition queued :: "actdb \<Rightarrow> string \<Rightarrow> bool" where
  "queued db i \<longleftrightarrow> (\<exists>a\<in>set (ad_activities db). ar_id a = i \<and> ar_queued a \<noteq> None)"

text \<open>The events of activities whose notification was queued.\<close>

definition notified :: "actdb \<Rightarrow> string set" where
  "notified db = {x. \<exists>i. ad_links db x = Some i \<and> queued db i}"

lemma find_activity_unique:
  assumes "distinct (activity_ids db)" and "a \<in> set (ad_activities db)"
  shows "find_activity (ar_id a) db = Some a"
proof -
  obtain b where b: "find_activity (ar_id a) db = Some b"
    using assms(2) unfolding find_activity_def by (metis (mono_tags, lifting) find_None_iff not_None_eq)
  then have "b \<in> set (ad_activities db)" "ar_id b = ar_id a" unfolding find_activity_def by (auto simp: find_Some_iff)
  then show ?thesis using row_unique[OF assms(1) _ assms(2)] b by simp
qed

lemma queuedI: "a \<in> set (ad_activities db) \<Longrightarrow> ar_id a = i \<Longrightarrow> ar_queued a \<noteq> None \<Longrightarrow> queued db i"
  by (auto simp: queued_def)

lemma merge_queued:
  assumes d: "distinct (activity_ids db)" and c: "c \<in> set (activity_ids db)" "c \<noteq> m" and q: "queued db i"
  shows "queued (merge_activity c m db) (if i = m then c else i)"
proof -
  define f :: "activityRow \<Rightarrow> activityRow" where "f = (\<lambda>a. if ar_id a = c then a\<lparr>ar_queued := (case ar_queued a of Some t \<Rightarrow> Some t
      | None \<Rightarrow> Option.bind (find_activity m db) ar_queued)\<rparr> else a)"
  have "ad_activities (merge_activity c m db) = filter (\<lambda>a. ar_id a \<noteq> m) (map f (ad_activities db))"
    by (simp add: merge_activity_def delete_activity_def moveActivityCorrectionsTx_def move_links_def
        preserveActivityNotificationTx_def update_activity_def f_def)
  moreover have fid: "ar_id (f a) = ar_id a" for a by (simp add: f_def)
  ultimately have in_new: "f a \<in> set (ad_activities (merge_activity c m db))" if "a \<in> set (ad_activities db)" "ar_id a \<noteq> m" for a
    using that by simp
  obtain a where a: "a \<in> set (ad_activities db)" "ar_id a = i" "ar_queued a \<noteq> None" using q by (auto simp: queued_def)
  show ?thesis
  proof (cases "i = m")
    case True
    obtain k where k: "k \<in> set (ad_activities db)" "ar_id k = c" using c(1) by (auto simp: activity_ids_def)
    have "ar_queued (f k) \<noteq> None" using k(2) a(3) True find_activity_unique[OF d a(1)] a(2) by (auto simp: f_def split: option.split)
    then show ?thesis using queuedI[OF in_new[OF k(1)]] k(2) c(2) True fid by simp
  next
    case False
    have "ar_queued (f a) \<noteq> None" using a(3) by (auto simp: f_def split: option.split)
    then show ?thesis using queuedI[OF in_new[OF a(1)]] a(2) False fid by simp
  qed
qed

lemma merge_notified:
  assumes "distinct (activity_ids db)" and "c \<in> set (activity_ids db)" "c \<noteq> m"
  shows "notified db \<subseteq> notified (merge_activity c m db)"
proof
  fix x assume "x \<in> notified db"
  then obtain i where i: "ad_links db x = Some i" "queued db i" by (auto simp: notified_def)
  then have "ad_links (merge_activity c m db) x = Some (if i = m then c else i)" using merge_links[OF assms(3)] by simp
  then show "x \<in> notified (merge_activity c m db)" using merge_queued[OF assms i(2)] by (auto simp: notified_def)
qed

lemma merge_all_notified:
  "distinct (activity_ids db) \<Longrightarrow> c \<in> set (activity_ids db) \<Longrightarrow> notified db \<subseteq> notified (merge_all c ids db)"
proof (induction ids arbitrary: db)
  case (Cons m ids)
  show ?case
  proof (cases "m = c")
    case True
    then show ?thesis unfolding merge_all_Cons using Cons by simp
  next
    case False
    have "distinct (activity_ids (merge_activity c m db))" "c \<in> set (activity_ids (merge_activity c m db))"
      using Cons.prems False by (simp_all add: merge_activity_ids)
    from Cons.IH[OF this] have "notified (merge_activity c m db) \<subseteq> notified (merge_all c (m # ids) db)"
      unfolding merge_all_Cons using False by simp
    moreover have "notified db \<subseteq> notified (merge_activity c m db)" by (rule merge_notified[OF Cons.prems]) (use False in simp)
    ultimately show ?thesis by (rule subset_trans[rotated])
  qed
qed (simp add: merge_all_def)

lemma update_notified:
  assumes "\<And>a. ar_id (f a) = ar_id a \<and> (ar_queued a \<noteq> None \<longrightarrow> ar_queued (f a) \<noteq> None)"
  shows "notified db \<subseteq> notified (update_activity i f db)"
proof -
  have "queued (update_activity i f db) j" if "queued db j" for j
  proof -
    obtain a where a: "a \<in> set (ad_activities db)" "ar_id a = j" "ar_queued a \<noteq> None" using \<open>queued db j\<close> by (auto simp: queued_def)
    then have "(if ar_id a = i then f a else a) \<in> set (ad_activities (update_activity i f db))" by (auto simp: update_activity_def)
    then show ?thesis using a assms[of a] unfolding queued_def by (metis (full_types))
  qed
  then show ?thesis by (auto simp: notified_def update_activity_def)
qed

lemma fold_update_notified:
  "(\<And>i a. ar_id (f i a) = ar_id a \<and> (ar_queued a \<noteq> None \<longrightarrow> ar_queued (f i a) \<noteq> None)) \<Longrightarrow>
     notified db \<subseteq> notified (fold (\<lambda>i. update_activity i (f i)) is db)"
proof (induction "is" arbitrary: db)
  case (Cons i "is")
  have "notified db \<subseteq> notified (update_activity i (f i) db)" by (rule update_notified) (rule Cons.prems)
  also have "\<dots> \<subseteq> notified (fold (\<lambda>i. update_activity i (f i)) is (update_activity i (f i) db))" by (rule Cons.IH[OF Cons.prems])
  finally show ?case by simp
qed simp

lemma refresh_notified: "notified db \<subseteq> notified (refresh_activity now aid db)"
  unfolding refresh_activity_def by (auto split: prod.split intro!: subsetD[OF update_notified])

lemma reconcile_notified:
  "act_ok_except X db \<Longrightarrow> notified db \<subseteq> notified (snd (reconcileActivityTx now aid db))"
proof (induction now aid db arbitrary: X rule: reconcileActivityTx.induct)
  case (1 now aid db)
  let ?db1 = "refresh_activity now aid db"
  let ?ns = "neighbors_after aid ?db1"
  let ?c = "canonical aid (fst (snd (summarize (evidence db aid)))) ?ns"
  let ?db2 = "merge_all ?c (aid # map ar_id ?ns) ?db1"
  note keys = act_ok_exceptD(1)[OF 1(2)]
  consider (empty) "evidence db aid = []" | (alone) "evidence db aid \<noteq> []" "?ns = []" | (more) "evidence db aid \<noteq> []" "?ns \<noteq> []"
    by blast
  then show ?case
  proof cases
    case empty
    have "ad_links db x \<noteq> Some aid" for x
      using empty keys_okD(3)[OF keys, of x aid] by (auto simp: evidence_def filter_empty_conv)
    then have "notified db \<subseteq> notified (delete_activity aid db)"
      by (auto simp: notified_def queued_def delete_activity_def)
    then show ?thesis using empty by (subst reconcileActivityTx.simps) simp
  next
    case alone
    then show ?thesis using refresh_notified by (subst reconcileActivityTx.simps) (simp add: Let_def)
  next
    case more
    have step: "snd (reconcileActivityTx now aid db) = snd (reconcileActivityTx now ?c ?db2)"
      using more by (subst reconcileActivityTx.simps) (simp add: Let_def)
    have "notified ?db1 \<subseteq> notified ?db2"
      by (rule merge_all_notified) (use keys_okD(2)[OF keys] round_facts(2)[OF keys more(1) refl refl] in simp_all)
    moreover have "notified ?db2 \<subseteq> notified (snd (reconcileActivityTx now ?c ?db2))"
      by (rule 1(1)[OF more(1) refl refl more(2) refl refl round_ok[OF 1(2) more(1) refl refl]])
    ultimately show ?thesis unfolding step using refresh_notified by blast
  qed
qed

lemma notified_links:
  "x \<in> notified db \<Longrightarrow> ad_links db' x = ad_links db x \<Longrightarrow> ad_activities db' = ad_activities db \<Longrightarrow> x \<in> notified db'"
  by (simp add: notified_def queued_def)

lemma reconcile_reopen_notified:
  "act_ok_except X db \<Longrightarrow> notified db \<subseteq> notified (reconcile_reopen now aid db)"
proof -
  assume "act_ok_except X db"
  note rec = reconcile_notified[OF this, of now aid]
  have "notified d \<subseteq> notified (reopenActivityTx now i d)" for i d
    unfolding reopenActivityTx_def by (rule update_notified) simp
  then show ?thesis using rec unfolding reconcile_reopen_def by (cases "reconcileActivityTx now aid db") (auto split: option.split)
qed

lemma assign_merge_notified:
  assumes "act_ok db"
  shows "notified db \<subseteq> notified (assign_merge now e db)"
proof (cases "candidates e db = []")
  case True
  then show ?thesis by (auto simp: assign_merge_def notified_def queued_def)
next
  case False
  note d = keys_okD(2)[OF act_ok_exceptD(1)[OF assms]]
  have "assign_target e db \<in> set (activity_ids db)"
    using False candidates_set[of _ e db] by (cases "candidates e db") (auto simp: assign_target_def activity_ids_def)
  then show ?thesis unfolding assign_merge_Cons[OF d False] by (rule merge_all_notified[OF d])
qed

lemma SaveEvent_notified:
  assumes inv: "act_ok db" and res: "act_SaveEvent now e db = Inr db'"
  shows "notified db \<subseteq> notified db'"
proof -
  let ?db = "db\<lparr>ad_events := ad_events db @ [stored_row e]\<rparr>"
  have fresh: "er_id (stored_row e) \<notin> er_id ` set (ad_events db)" and r: "assignEventToActivityTx now e ?db = Inr db'"
    using res by (auto simp: act_SaveEvent_def stored_row_def split: if_splits)
  have ok1: "act_ok ?db" by (rule add_event_ok[OF inv fresh])
  have new: "ad_links ?db (er_id e) = None"
    using unlinked_fresh[OF act_ok_exceptD(1)[OF inv] fresh] by (simp add: stored_row_def)
  have same: "notified ?db = notified db" by (simp add: notified_def queued_def)
  show ?thesis
  proof (cases "er_kind e = kind_cry")
    case True
    then show ?thesis using r same by (simp add: assignEventToActivityTx_def)
  next
    case False
    then have d: "db' = reconcile_reopen now (assign_target e ?db) (assign_link now e ?db)"
      and free: "candidates e ?db = [] \<Longrightarrow> assign_target e ?db \<notin> set (activity_ids ?db)"
      using r by (auto simp: assignEventToActivityTx_def split: if_splits)
    have "act_ok_except {assign_target e ?db} (assign_link now e ?db)"
      by (rule assign_link_ok[OF ok1 free new, of "stored_row e"]) (auto simp: stored_row_def)
    from reconcile_reopen_notified[OF this] have "notified (assign_link now e ?db) \<subseteq> notified db'" unfolding d .
    moreover have "notified (assign_merge now e ?db) \<subseteq> notified (assign_link now e ?db)"
    proof
      fix x assume x: "x \<in> notified (assign_merge now e ?db)"
      then have "x \<noteq> er_id e" using assign_merge_ok(2)[OF ok1 free new] by (auto simp: notified_def)
      then show "x \<in> notified (assign_link now e ?db)" by (intro notified_links[OF x]) (simp_all add: assign_link_def Let_def)
    qed
    ultimately show ?thesis using assign_merge_notified[OF ok1] same by blast
  qed
qed

lemma delete_events_notified: "notified db - E \<subseteq> notified (delete_events E db)"
  by (auto simp: notified_def queued_def delete_events_def)

lemma reconcile_linked:
  "act_ok_except X db \<Longrightarrow> ad_links (snd (reconcileActivityTx now aid db)) x = None \<longleftrightarrow> ad_links db x = None"
proof (induction now aid db arbitrary: X rule: reconcileActivityTx.induct)
  case (1 now aid db)
  let ?db1 = "refresh_activity now aid db"
  let ?ns = "neighbors_after aid ?db1"
  let ?c = "canonical aid (fst (snd (summarize (evidence db aid)))) ?ns"
  let ?db2 = "merge_all ?c (aid # map ar_id ?ns) ?db1"
  consider (empty) "evidence db aid = []" | (alone) "evidence db aid \<noteq> []" "?ns = []" | (more) "evidence db aid \<noteq> []" "?ns \<noteq> []"
    by blast
  then show ?case
  proof cases
    case empty
    have "ad_links db x \<noteq> Some aid"
      using empty keys_okD(3)[OF act_ok_exceptD(1)[OF 1(2)], of x aid] by (auto simp: evidence_def filter_empty_conv)
    then show ?thesis using empty by (subst reconcileActivityTx.simps) (simp add: delete_activity_def)
  next
    case alone
    then show ?thesis by (subst reconcileActivityTx.simps) (simp add: Let_def)
  next
    case more
    have step: "snd (reconcileActivityTx now aid db) = snd (reconcileActivityTx now ?c ?db2)"
      using more by (subst reconcileActivityTx.simps) (simp add: Let_def)
    have "ad_links (snd (reconcileActivityTx now ?c ?db2)) x = None \<longleftrightarrow> ad_links ?db2 x = None"
      by (rule 1(1)[OF more(1) refl refl more(2) refl refl round_ok[OF 1(2) more(1) refl refl]])
    then show ?thesis unfolding step by (auto simp: merge_all_links)
  qed
qed

text \<open>What deleting keeps: nothing becomes linked, and what stays linked stays notified.\<close>

definition keeps :: "actdb \<Rightarrow> actdb \<Rightarrow> bool" where
  "keeps db db' \<longleftrightarrow> (\<forall>x. ad_links db x = None \<longrightarrow> ad_links db' x = None) \<and>
     (\<forall>x\<in>notified db. ad_links db' x = None \<or> x \<in> notified db')"

lemma keeps_refl: "keeps db db"
  by (simp add: keeps_def)

lemma keeps_trans: "keeps a b \<Longrightarrow> keeps b c \<Longrightarrow> keeps a c"
  unfolding keeps_def by blast

lemma reconcile_keeps: "act_ok_except X db \<Longrightarrow> keeps db (snd (reconcileActivityTx now aid db))"
  using reconcile_linked reconcile_notified unfolding keeps_def by blast

lemma delete_events_keeps: "keeps db (delete_events E db)"
  using delete_events_notified[of db E] unfolding keeps_def by (auto simp: delete_events_def)

lemma fold_reconcile_keeps:
  "act_ok_except X db \<Longrightarrow> keeps db (fold (\<lambda>aid d. snd (reconcileActivityTx now aid d)) aids db)"
proof (induction aids arbitrary: X db)
  case (Cons aid aids)
  from keeps_trans[OF reconcile_keeps[OF Cons.prems] Cons.IH[OF reconcile_ok[OF Cons.prems]]] show ?case by simp
qed (simp add: keeps_refl)

lemma deleteEventBatch_keeps: "act_ok db \<Longrightarrow> keeps db (snd (deleteEventBatch now cutoff n db))"
proof -
  assume ok: "act_ok db"
  have "act_ok_except (UNIV \<union> {}) (delete_events E db)" for E by (rule delete_events_ok[OF ok]) simp
  then have "keeps db (fold (\<lambda>aid d. snd (reconcileActivityTx now aid d)) aids (delete_events E db))" for E aids
    using keeps_trans[OF delete_events_keeps fold_reconcile_keeps] by blast
  then show ?thesis by (simp add: deleteEventBatch_def Let_def keeps_refl)
qed

lemma delete_loop_keeps: "act_inv db \<Longrightarrow> keeps db (snd (delete_loop now cutoff n db))"
proof (induction now cutoff n db rule: delete_loop.induct)
  case (1 now cutoff n db)
  obtain d db' where b: "deleteEventBatch now cutoff n db = (d, db')" by (cases "deleteEventBatch now cutoff n db")
  have k: "keeps db db'" using deleteEventBatch_keeps[of db now cutoff n] 1(2) b by (simp add: act_inv_def)
  show ?case
  proof (cases "n = 0 \<or> d < n")
    case True
    then show ?thesis using k by (subst delete_loop.simps) (simp add: b)
  next
    case False
    have "keeps db' (snd (delete_loop now cutoff n db'))"
      using 1(1)[OF b[symmetric] False] deleteEventBatch_inv[OF 1(2), of now cutoff n] b by simp
    with k have "keeps db (snd (delete_loop now cutoff n db'))" by (rule keeps_trans)
    then show ?thesis using False by (subst delete_loop.simps) (auto simp: b split: prod.split)
  qed
qed

lemma set_end_notified: "notified (db\<lparr>ad_events := es\<rparr>) = notified db"
  by (simp add: notified_def queued_def)

lemma UpdateEventEndTime_notified: "act_ok db \<Longrightarrow> notified db \<subseteq> notified (act_UpdateEventEndTime now eid t db)"
proof -
  assume ok: "act_ok db"
  let ?db = "db\<lparr>ad_events := map (set_end eid t) (ad_events db)\<rparr>"
  have "act_ok_except (UNIV \<union> {}) ?db" by (rule set_end_ok[OF ok]) simp
  from reconcile_reopen_notified[OF this] show ?thesis
    by (simp add: act_UpdateEventEndTime_def set_end_eq Let_def set_end_notified split: option.split)
qed

lemma DeleteEvent_keeps: "act_ok db \<Longrightarrow> keeps db (act_DeleteEvent now eid db)"
proof -
  assume ok: "act_ok db"
  have "act_ok_except (UNIV \<union> {}) (delete_events {eid} db)" by (rule delete_events_ok[OF ok]) simp
  from keeps_trans[OF delete_events_keeps reconcile_keeps[OF this]] show ?thesis
    using delete_events_keeps by (simp add: act_DeleteEvent_def split: option.split)
qed

lemma Exclude_keeps:
  assumes "act_inv db" and "ExcludeActivityEvidence now aid eid reason actor db = Inr (i, db')"
  shows "keeps db db'"
  using Exclude_unlinked[OF assms]
proof
  assume "\<exists>cs. let db1 = db\<lparr>ad_links := (ad_links db)(eid := None), ad_corrections := cs\<rparr>
    in db' = snd (reconcileActivityTx now aid db1) \<and> act_ok_except {aid} db1 \<and> corrections_ok db1"
  then obtain cs where d: "db' = snd (reconcileActivityTx now aid (db\<lparr>ad_links := (ad_links db)(eid := None), ad_corrections := cs\<rparr>))"
    and ok: "act_ok_except {aid} (db\<lparr>ad_links := (ad_links db)(eid := None), ad_corrections := cs\<rparr>)" by (auto simp: Let_def)
  have "keeps db (db\<lparr>ad_links := (ad_links db)(eid := None), ad_corrections := cs\<rparr>)"
    by (auto simp: keeps_def notified_def queued_def)
  then show ?thesis unfolding d using reconcile_keeps[OF ok] by (rule keeps_trans)
qed (simp add: keeps_refl)

lemma Restore_notified:
  assumes inv: "act_inv db" and res: "RestoreActivityEvidence now aid eid actor db = Inr (i, db')"
  shows "notified db \<subseteq> notified db'"
proof -
  obtain cs where d: "db' = snd (reconcileActivityTx now aid (db\<lparr>ad_links := (ad_links db)(eid \<mapsto> aid), ad_corrections := cs\<rparr>))"
    and un: "ad_links db eid = None" and ok: "act_ok_except {aid} (db\<lparr>ad_links := (ad_links db)(eid \<mapsto> aid), ad_corrections := cs\<rparr>)"
    using Restore_linked[OF assms] by (auto simp: Let_def)
  have "notified db \<subseteq> notified (db\<lparr>ad_links := (ad_links db)(eid \<mapsto> aid), ad_corrections := cs\<rparr>)"
    using un by (auto simp: notified_def queued_def)
  then show ?thesis using reconcile_notified[OF ok, of now aid] unfolding d by blast
qed

lemma act_step_notified: "act_step db db' \<Longrightarrow> act_inv db \<Longrightarrow> x \<in> notified db \<Longrightarrow> ad_links db' x = None \<or> x \<in> notified db'"
proof (induction rule: act_step.induct)
  case (step_save now e db db')
  then show ?case using SaveEvent_notified[OF _ step_save(1)] by (auto simp: act_inv_def)
next
  case (step_end db now eid t)
  then show ?case using UpdateEventEndTime_notified[of db now eid t] by (auto simp: act_inv_def)
next
  case (step_delete db now eid)
  then show ?case using DeleteEvent_keeps by (auto simp: act_inv_def keeps_def)
next
  case (step_expire db now cutoff n)
  then show ?case using delete_loop_keeps by (auto simp: deleteEventsOlderThan_def keeps_def)
next
  case (step_exclude now aid eid reason actor db i db')
  then show ?case using Exclude_keeps[OF _ step_exclude(1)] by (auto simp: keeps_def)
next
  case (step_restore now aid eid actor db j db')
  then show ?case using Restore_notified[OF _ step_restore(1)] by blast
next
  case (step_finalize db now limit)
  then show ?case unfolding FinalizeDueActivities_def Let_def snd_conv by (intro disjI2 subsetD[OF fold_update_notified]) auto
next
  case (step_mark db aid t)
  then show ?case unfolding MarkActivityNotificationQueued_def snd_conv by (intro disjI2 subsetD[OF update_notified]) auto
qed

lemma notified_while_linked:
  assumes "(\<lambda>d d'. act_step d d' \<and> ad_links d' x \<noteq> None)\<^sup>*\<^sup>* db db'" and "act_inv db" and "x \<in> notified db"
  shows "act_inv db' \<and> x \<in> notified db'"
  using assms
proof (induction rule: rtranclp_induct)
  case (step d d')
  then have "act_step d d'" "ad_links d' x \<noteq> None" "act_inv d" "x \<in> notified d" by simp_all
  then show ?case using act_step_inv[of d d'] act_step_notified[of d d' x] by auto
qed simp

lemma pending_rows: "a \<in> set (PendingActivityNotifications limit db) \<Longrightarrow> a \<in> set (ad_activities db) \<and> ar_queued a = None"
  unfolding PendingActivityNotifications_def by (drule in_set_takeD) (auto simp: pending_activity_def)

text \<open>
  C34. An incident is announced once.  Once the notification of an event's activity was
  queued, and for as long as the event stays linked to an activity, through whatever merges, late
  evidence, corrections, finalizations and deletions, the activity it is in is never pending again and
  marking it again is refused.
\<close>

theorem notification_not_repeated:
  assumes "act_step\<^sup>*\<^sup>* empty_actdb db" and "x \<in> notified db"
    and "(\<lambda>d d'. act_step d d' \<and> ad_links d' x \<noteq> None)\<^sup>*\<^sup>* db db'" and "ad_links db' x = Some aid"
  shows "aid \<notin> ar_id ` set (PendingActivityNotifications limit db') \<and> \<not> fst (MarkActivityNotificationQueued aid t db')"
proof -
  have inv: "act_inv db'" and "x \<in> notified db'"
    using notified_while_linked[OF assms(3) reachable_inv[OF assms(1)] assms(2)] by blast+
  then obtain a where a: "a \<in> set (ad_activities db')" "ar_id a = aid" "ar_queued a \<noteq> None"
    using assms(4) by (auto simp: notified_def queued_def)
  have d: "distinct (activity_ids db')" using inv act_ok_exceptD(1) keys_okD(2) unfolding act_inv_def by blast
  have q: "\<not> (b \<in> set (ad_activities db') \<and> ar_id b = aid \<and> ar_queued b = None)" for b
    using row_unique[OF d _ a(1), of b] a(2,3) by auto
  then have "\<not> fst (MarkActivityNotificationQueued aid t db')" by (auto simp: MarkActivityNotificationQueued_def list_ex_iff)
  moreover have "aid \<notin> ar_id ` set (PendingActivityNotifications limit db')" using q pending_rows by blast
  ultimately show ?thesis by blast
qed

definition queued_db :: actdb where
  "queued_db = snd (MarkActivityNotificationQueued ''act_a'' (300 * Second)
     (snd (FinalizeDueActivities (200 * Second) 0 (two_events (example_row ''a'' 0) (example_row ''z'' (130 * Second))))))"

definition bridged_db :: actdb where
  "bridged_db = (case act_SaveEvent 0 (example_row ''b'' (70 * Second)) queued_db of Inl _ \<Rightarrow> queued_db | Inr d \<Rightarrow> d)"

lemma queued_db_reached: "act_step\<^sup>*\<^sup>* empty_actdb queued_db"
  unfolding queued_db_def
  by (rule rtranclp.rtrancl_into_rtrancl[OF rtranclp.rtrancl_into_rtrancl[OF two_events_reached step_finalize] step_mark])

theorem notification_not_repeated_witness:
  "ad_links queued_db ''a'' = Some ''act_a'' \<and> ad_links queued_db ''z'' = Some ''act_z'' \<and> ad_links bridged_db ''a'' = Some ''act_a'' \<and>
   \<not> fst (MarkActivityNotificationQueued ''act_a'' (500 * Second) bridged_db)"
proof -
  have l: "map (ad_links queued_db) [''a'', ''z''] = [Some ''act_a'', Some ''act_z'']" by code_simp
  have b: "ad_links bridged_db ''a'' = Some ''act_a''" by code_simp
  have "list_ex (\<lambda>a. ar_id a = ''act_a'' \<and> ar_queued a \<noteq> None) (ad_activities queued_db)" by code_simp
  then have n: "''a'' \<in> notified queued_db" using l by (auto simp: notified_def queued_def list_ex_iff)
  have s: "(\<lambda>d d'. act_step d d' \<and> ad_links d' ''a'' \<noteq> None)\<^sup>*\<^sup>* queued_db bridged_db"
  proof (rule r_into_rtranclp, intro conjI)
    show "act_step queued_db bridged_db"
    proof (cases "act_SaveEvent 0 (example_row ''b'' (70 * Second)) queued_db")
      case (Inl err)
      moreover have "\<not> isl (act_SaveEvent 0 (example_row ''b'' (70 * Second)) queued_db)" by code_simp
      ultimately show ?thesis by simp
    next
      case (Inr d)
      then show ?thesis using step_save[OF Inr] by (simp add: bridged_db_def)
    qed
  qed (simp add: b)
  show ?thesis using notification_not_repeated[OF queued_db_reached n s b, of 0 "500 * Second"] l b by simp
qed

section \<open>Deleting old events\<close>

text \<open>One batch takes the oldest events before the cutoff, as many as the limit allows.\<close>

lemma batch_exact:
  assumes d: "distinct (map er_id (ad_events db))" and b: "deleteEventBatch now cutoff n db = (deleted, db')"
  shows "filter (\<lambda>e. cutoff \<le> er_timestamp e) (ad_events db') = filter (\<lambda>e. cutoff \<le> er_timestamp e) (ad_events db)"
    and "deleted + length (filter (\<lambda>e. er_timestamp e < cutoff) (ad_events db')) = length (filter (\<lambda>e. er_timestamp e < cutoff) (ad_events db))"
    and "deleted < n \<Longrightarrow> filter (\<lambda>e. er_timestamp e < cutoff) (ad_events db') = []"
    and "distinct (map er_id (ad_events db'))"
proof -
  let ?E = "filter (\<lambda>e. er_timestamp e < cutoff) (ad_events db)"
  define L where "L = take n (sort_key er_timestamp ?E)"
  have sub: "set L \<subseteq> set ?E" unfolding L_def using set_take_subset by force
  have dE: "distinct ?E" using d by (simp add: distinct_map)
  have dL: "distinct L" using dE unfolding L_def by simp
  have mem: "er_id e \<in> er_id ` set L \<longleftrightarrow> e \<in> set L" if "e \<in> set (ad_events db)" for e
    using event_unique[OF d that] sub by auto
  have ids: "set (expiredEventIDs cutoff n db) = er_id ` set L" by (simp add: expiredEventIDs_def L_def)
  have evs: "ad_events db' = filter (\<lambda>e. e \<notin> set L) (ad_events db)" and del: "deleted = length (filter (\<lambda>e. e \<in> set L) (ad_events db))"
  proof -
    have "ad_events db' = filter (\<lambda>e. er_id e \<notin> er_id ` set L) (ad_events db) \<and>
        deleted = length (filter (\<lambda>e. er_id e \<in> er_id ` set L) (ad_events db))"
      using b ids by (auto simp: deleteEventBatch_def Let_def delete_events_def split: if_splits)
    then show "ad_events db' = filter (\<lambda>e. e \<notin> set L) (ad_events db)" "deleted = length (filter (\<lambda>e. e \<in> set L) (ad_events db))"
      using mem by (auto cong: filter_cong)
  qed
  show "distinct (map er_id (ad_events db'))" using d by (simp add: evs distinct_map_filter)
  show "filter (\<lambda>e. cutoff \<le> er_timestamp e) (ad_events db') = filter (\<lambda>e. cutoff \<le> er_timestamp e) (ad_events db)"
    unfolding evs using sub by (auto intro!: filter_cong)
  have left: "filter (\<lambda>e. er_timestamp e < cutoff) (ad_events db') = filter (\<lambda>e. e \<notin> set L) ?E"
    unfolding evs by (simp add: conj_commute)
  have del': "deleted = length (filter (\<lambda>e. e \<in> set L) ?E)" unfolding del using sub by (auto intro!: arg_cong[of _ _ length] filter_cong)
  show "deleted + length (filter (\<lambda>e. er_timestamp e < cutoff) (ad_events db')) = length ?E"
    unfolding left del' by (rule sum_length_filter_compl)
  assume "deleted < n"
  moreover have "deleted = length L"
  proof -
    have "set (filter (\<lambda>e. e \<in> set L) ?E) = set L" using sub by auto
    then show ?thesis using dE dL unfolding del' by (metis distinct_card distinct_filter)
  qed
  ultimately have "length ?E < n" by (simp add: L_def)
  then have "set L = set ?E" by (simp add: L_def)
  then show "filter (\<lambda>e. er_timestamp e < cutoff) (ad_events db') = []" unfolding left by simp
qed

lemma delete_loop_exact:
  "distinct (map er_id (ad_events db)) \<Longrightarrow> 0 < n \<Longrightarrow>
     fst (delete_loop now cutoff n db) = length (filter (\<lambda>e. er_timestamp e < cutoff) (ad_events db)) \<and>
     ad_events (snd (delete_loop now cutoff n db)) = filter (\<lambda>e. cutoff \<le> er_timestamp e) (ad_events db)"
proof (induction now cutoff n db rule: delete_loop.induct)
  case (1 now cutoff n db)
  obtain d db' where b: "deleteEventBatch now cutoff n db = (d, db')" by (cases "deleteEventBatch now cutoff n db")
  note x = batch_exact[OF 1(2) b]
  show ?case
  proof (cases "d < n")
    case True
    have "e \<in> set (ad_events db') \<Longrightarrow> cutoff \<le> er_timestamp e" for e using x(3)[OF True] by (auto simp: filter_empty_conv)
    then have "ad_events db' = filter (\<lambda>e. cutoff \<le> er_timestamp e) (ad_events db)" using x(1) by (metis filter_True)
    then show ?thesis using True x(2) x(3)[OF True] by (subst (1 2) delete_loop.simps) (simp add: b)
  next
    case False
    obtain r db'' where rec: "delete_loop now cutoff n db' = (r, db'')" by (cases "delete_loop now cutoff n db'")
    have "r = length (filter (\<lambda>e. er_timestamp e < cutoff) (ad_events db')) \<and>
        ad_events db'' = filter (\<lambda>e. cutoff \<le> er_timestamp e) (ad_events db')"
      using 1(1)[OF b[symmetric] _ x(4) 1(3)] False 1(3) rec by simp
    then show ?thesis using False 1(3) x(1,2) rec by (subst (1 2) delete_loop.simps) (simp add: b)
  qed
qed

text \<open>
  Deleting old events ends, whatever the batch size, and removes exactly the events
  before the cutoff; it reports how many those were.
\<close>

theorem old_events_deleted:
  assumes "act_step\<^sup>*\<^sup>* empty_actdb db"
  shows "\<exists>db'. deleteEventsOlderThan now cutoff n db = (length (filter (\<lambda>e. er_timestamp e < cutoff) (ad_events db)), db') \<and>
    ad_events db' = filter (\<lambda>e. cutoff \<le> er_timestamp e) (ad_events db)"
proof -
  have "distinct (map er_id (ad_events db))"
    using reachable_inv[OF assms] act_ok_exceptD(1) keys_okD(1) unfolding act_inv_def by blast
  from delete_loop_exact[OF this, of "if n \<le> 0 then eventDeleteBatchSize else nat n" now cutoff] show ?thesis
    unfolding deleteEventsOlderThan_def
    by (intro exI[of _ "snd (delete_loop now cutoff (if n \<le> 0 then eventDeleteBatchSize else nat n) db)"])
      (auto simp: eventDeleteBatchSize_def prod_eq_iff)
qed

theorem old_events_deleted_witness:
  "\<exists>db'. deleteEventsOlderThan 0 (50 * Second) 1 (two_events (example_row ''a'' 0) (example_row ''b'' (100 * Second))) = (1, db') \<and>
     map er_id (ad_events db') = [''b'']"
proof -
  let ?db = "two_events (example_row ''a'' 0) (example_row ''b'' (100 * Second))"
  have "length (filter (\<lambda>e. er_timestamp e < 50 * Second) (ad_events ?db)) = 1"
    "map er_id (filter (\<lambda>e. 50 * Second \<le> er_timestamp e) (ad_events ?db)) = [''b'']" by code_simp+
  then show ?thesis using old_events_deleted[OF two_events_reached, of 0 "50 * Second" 1 "example_row ''a'' 0" "example_row ''b'' (100 * Second)"]
    by auto
qed

end
