(* ===== verification/Activity_Components.thy ===== *)
theory Activity_Components
  imports Activity_Invariant
begin

text \<open>
  What the grouping computes: the comment on \<open>activityMergeGap\<close> promises that backfill, replay and live
  ingestion agree.  Two events are near when they are of one camera and within the merge gap of each
  other; the activities are the connected components of that relation, in whatever order the events
  and their end times arrive.
\<close>

section \<open>Near events\<close>

definition near :: "eventRow \<Rightarrow> eventRow \<Rightarrow> bool" where
  "near x y \<longleftrightarrow> er_camera x = er_camera y \<and> er_timestamp y \<le> event_end x + activityMergeGap \<and>
     er_timestamp x \<le> event_end y + activityMergeGap"

definition near_in :: "eventRow set \<Rightarrow> (eventRow \<times> eventRow) set" where
  "near_in S = {(x, y). x \<in> S \<and> y \<in> S \<and> near x y}"

definition connected :: "eventRow set \<Rightarrow> bool" where
  "connected S \<longleftrightarrow> (\<forall>x\<in>S. \<forall>y\<in>S. (x, y) \<in> (near_in S)\<^sup>*)"

lemma gap_nonneg: "0 \<le> activityMergeGap"
  by (simp add: activityMergeGap_def Second_def Millisecond_def)

lemma near_sym: "near x y \<longleftrightarrow> near y x"
  by (auto simp: near_def)

lemma near_in_mono: "S \<subseteq> T \<Longrightarrow> (near_in S)\<^sup>* \<subseteq> (near_in T)\<^sup>*"
  by (rule rtrancl_mono) (auto simp: near_in_def)

lemma connectedD: "connected S \<Longrightarrow> x \<in> S \<Longrightarrow> y \<in> S \<Longrightarrow> S \<subseteq> T \<Longrightarrow> (x, y) \<in> (near_in T)\<^sup>*"
  using near_in_mono[of S T] unfolding connected_def by blast

lemma sym_near_in: "(x, y) \<in> (near_in S)\<^sup>* \<Longrightarrow> (y, x) \<in> (near_in S)\<^sup>*"
proof -
  have "sym (near_in S)" by (auto simp: sym_def near_in_def near_sym)
  then show "(x, y) \<in> (near_in S)\<^sup>* \<Longrightarrow> (y, x) \<in> (near_in S)\<^sup>*" by (metis sym_def sym_rtrancl)
qed

text \<open>A set is connected when everything in it reaches one hub.\<close>

lemma connected_hub: "(\<And>x. x \<in> S \<Longrightarrow> (x, h) \<in> (near_in S)\<^sup>*) \<Longrightarrow> connected S"
  unfolding connected_def by (meson rtrancl_trans sym_near_in)

text \<open>
  Connected sets that touch a connected set make one connected set with it; a single event is the
  smallest connected set.
\<close>

lemma connected_star:
  assumes h: "connected H" and t: "\<And>S. S \<in> \<S> \<Longrightarrow> connected S \<and> (\<exists>x\<in>S. \<exists>y\<in>H. near x y)"
  shows "connected (H \<union> \<Union>\<S>)"
proof (cases "H = {}")
  case True
  then have "S = {}" if "S \<in> \<S>" for S using t[OF that] by blast
  then show ?thesis using True by (auto simp: connected_def)
next
  case False
  let ?U = "H \<union> \<Union>\<S>"
  obtain z where z: "z \<in> H" using False by blast
  show ?thesis
  proof (rule connected_hub)
    fix x assume "x \<in> ?U"
    then consider "x \<in> H" | S where "S \<in> \<S>" "x \<in> S" by blast
    then show "(x, z) \<in> (near_in ?U)\<^sup>*"
    proof cases
      case 1
      then show ?thesis using connectedD[OF h] z by auto
    next
      case 2
      obtain u v where uv: "u \<in> S" "v \<in> H" "near u v" and S: "connected S" using t[OF 2(1)] by blast
      have "(x, u) \<in> (near_in ?U)\<^sup>*" by (rule connectedD[OF S 2(2) uv(1)]) (use 2(1) in blast)
      moreover have "(u, v) \<in> near_in ?U" using uv 2(1) by (auto simp: near_in_def)
      moreover have "(v, z) \<in> (near_in ?U)\<^sup>*" by (rule connectedD[OF h uv(2) z]) blast
      ultimately show ?thesis by (metis rtrancl_trans r_into_rtrancl)
    qed
  qed
qed

lemma connected_single: "connected {x}"
  by (simp add: connected_def)

text \<open>
  A connected set whose hull comes within the gap of an interval has a member that does: otherwise
  its members would lie on both sides, and no step between the sides is short enough.
\<close>

lemma hull_has_member:
  assumes conn: "connected S" and st: "s \<le> t"
    and left: "x \<in> S" "er_timestamp x \<le> t + activityMergeGap" and right: "y \<in> S" "s \<le> event_end y + activityMergeGap"
  shows "\<exists>z\<in>S. er_timestamp z \<le> t + activityMergeGap \<and> s \<le> event_end z + activityMergeGap"
proof (rule ccontr)
  assume none: "\<not> (\<exists>z\<in>S. er_timestamp z \<le> t + activityMergeGap \<and> s \<le> event_end z + activityMergeGap)"
  have "(x, y) \<in> (near_in S)\<^sup>*" using conn left(1) right(1) by (auto simp: connected_def)
  then have "er_timestamp y \<le> t + activityMergeGap"
  proof (induction rule: rtrancl_induct)
    case (step u v)
    then have "u \<in> S" "v \<in> S" "near u v" by (auto simp: near_in_def)
    moreover then have "event_end u + activityMergeGap < s" using step.IH none by force
    ultimately show ?case using st gap_nonneg by (auto simp: near_def)
  qed (rule left(2))
  then show False using none right by blast
qed

section \<open>Activities are connected\<close>

definition ends_ok :: "actdb \<Rightarrow> bool" where
  "ends_ok db \<longleftrightarrow> (\<forall>e\<in>set (ad_events db). er_timestamp e \<le> event_end e)"

definition act_conn :: "actdb \<Rightarrow> bool" where
  "act_conn db \<longleftrightarrow> (\<forall>i. connected (set (evidence db i)))"

lemma summarize_bounds:
  assumes "es \<noteq> []" and "summarize es = (cam, s, t, k)"
  shows "\<exists>x\<in>set es. er_timestamp x = s" and "\<exists>y\<in>set es. event_end y = t"
    and "e \<in> set es \<Longrightarrow> s \<le> er_timestamp e \<and> event_end e \<le> t"
proof -
  have s: "s = Min (er_timestamp ` set es)" and t: "t = Max (event_end ` set es)" using assms(2) by (auto simp: summarize_def)
  have "s \<in> er_timestamp ` set es" unfolding s using assms(1) by (intro Min_in) auto
  then show "\<exists>x\<in>set es. er_timestamp x = s" by auto
  have "t \<in> event_end ` set es" unfolding t using assms(1) by (intro Max_in) auto
  then show "\<exists>y\<in>set es. event_end y = t" by auto
  show "e \<in> set es \<Longrightarrow> s \<le> er_timestamp e \<and> event_end e \<le> t" unfolding s t by simp
qed

lemma summary_touches:
  assumes "connected (set es)" and "es \<noteq> []" and "summarize es = (cam, s, t, k)" and "s' \<le> t'"
    and "s \<le> t' + activityMergeGap" and "s' - activityMergeGap \<le> t"
  shows "\<exists>z\<in>set es. er_timestamp z \<le> t' + activityMergeGap \<and> s' \<le> event_end z + activityMergeGap"
proof -
  obtain x y where "x \<in> set es" "er_timestamp x = s" "y \<in> set es" "event_end y = t"
    using summarize_bounds[OF assms(2,3)] by blast
  then show ?thesis using hull_has_member[OF assms(1,4), of x y] assms(5,6) by auto
qed

lemma summaries_touch:
  assumes c: "connected (set es)" "connected (set fs)" and n: "es \<noteq> []" "fs \<noteq> []"
    and s: "summarize es = (cam, s, t, k)" "summarize fs = (cam', s', t', k')"
    and ends: "\<And>e. e \<in> set es \<union> set fs \<Longrightarrow> er_timestamp e \<le> event_end e"
    and gap: "s \<le> t' + activityMergeGap" "s' - activityMergeGap \<le> t"
    and cam: "\<And>e f. e \<in> set es \<Longrightarrow> f \<in> set fs \<Longrightarrow> er_camera e = er_camera f"
  shows "\<exists>x\<in>set es. \<exists>y\<in>set fs. near x y"
proof -
  obtain y where "y \<in> set fs" "er_timestamp y = s'" using summarize_bounds(1)[OF n(2) s(2)] by blast
  then have "s' \<le> t'" using summarize_bounds(3)[OF n(2) s(2), of y] ends[of y] by auto
  from summary_touches[OF c(1) n(1) s(1) this gap] obtain z where
    z: "z \<in> set es" "er_timestamp z \<le> t' + activityMergeGap" "s' \<le> event_end z + activityMergeGap" by blast
  have "er_timestamp z \<le> event_end z" "s' \<le> event_end z + activityMergeGap" "er_timestamp z - activityMergeGap \<le> t'"
    using z ends by auto
  from summary_touches[OF c(2) n(2) s(2) this] z(1) cam show ?thesis unfolding near_def by (metis)
qed

lemma evidence_gone:
  "i \<in> set ids \<Longrightarrow> i \<noteq> c \<Longrightarrow> evidence (merge_all c ids db) i = []"
  by (auto simp: evidence_def merge_all_links filter_empty_conv)

text \<open>Merging activities that each touch one of them.\<close>

lemma merge_all_conn:
  assumes conn: "act_conn db" and c: "c \<in> set (aid # ids)"
    and touch: "\<And>i. i \<in> set ids \<Longrightarrow> \<exists>x\<in>set (evidence db i). \<exists>y\<in>set (evidence db aid). near x y"
  shows "act_conn (merge_all c (aid # ids) db)"
  unfolding act_conn_def
proof
  fix i
  have "connected (set (evidence db aid) \<union> \<Union>((\<lambda>i. set (evidence db i)) ` set ids))"
    by (rule connected_star) (use conn touch in \<open>auto simp: act_conn_def\<close>)
  then have "connected (set (evidence (merge_all c (aid # ids) db) c))" unfolding merge_all_evidence[OF c] by simp
  moreover have "connected (set (evidence (merge_all c (aid # ids) db) i))" if "i \<noteq> c"
    using that evidence_gone[of i "aid # ids" c db] merge_all_evidence_other[OF that, of "aid # ids" db] conn
    by (cases "i \<in> set (aid # ids)") (simp_all add: connected_def[of "{}"] act_conn_def)
  ultimately show "connected (set (evidence (merge_all c (aid # ids) db) i))" by metis
qed

lemma round_conn:
  assumes ok: "act_ok_except {aid} db" and conn: "act_conn db" and ends: "ends_ok db" and ev: "evidence db aid \<noteq> []"
    and ns: "ns = neighbors_after aid (refresh_activity now aid db)" and c: "c = canonical aid start ns"
  shows "act_conn (merge_all c (aid # map ar_id ns) (refresh_activity now aid db))"
proof (rule merge_all_conn)
  let ?db = "refresh_activity now aid db"
  note keys = act_ok_exceptD(1)[OF ok]
  show "act_conn ?db" using conn by (simp add: act_conn_def)
  show "c \<in> set (aid # map ar_id ns)" by (rule round_facts(1)[OF keys ev ns c])
  fix i assume "i \<in> set (map ar_id ns)"
  then obtain n where n: "n \<in> set ns" "ar_id n = i" by auto
  obtain cam s t k where sum: "summarize (evidence db aid) = (cam, s, t, k)" by (cases "summarize (evidence db aid)")
  have nb: "n \<in> set (ad_activities ?db)" "i \<noteq> aid" "ar_camera n = cam" "ar_start n \<le> t + activityMergeGap" "s - activityMergeGap \<le> ar_end n"
    using n unfolding ns neighbors_after_set refresh_evidence sum by auto
  then have old: "n \<in> set (ad_activities db)" "ar_id n \<notin> {aid}" using n(2) refresh_rows[of n aid now db] by auto
  have evn: "evidence db i \<noteq> []" and sn: "summarize (evidence db i) = (ar_camera n, ar_start n, ar_end n, ar_category n)"
    using act_ok_exceptD(2,3)[OF ok old] n(2) by (simp_all add: summary_of_def)
  obtain a where a: "a \<in> set (ad_activities db)" "ar_id a = aid" using linked_activity[OF keys ev] .
  have camn: "er_camera e = cam" if "e \<in> set (evidence db i)" for e using keys_okD(4)[OF keys old(1)] that n(2) nb(3) by simp
  have "er_camera e = ar_camera a" if "e \<in> set (evidence db aid)" for e using keys_okD(4)[OF keys a(1)] that a(2) by simp
  moreover from summarize_camera[OF ev this] have "ar_camera a = cam" by (simp add: sum)
  ultimately have cama: "er_camera f = cam" if "f \<in> set (evidence db aid)" for f using that by simp
  have "\<exists>x\<in>set (evidence db i). \<exists>y\<in>set (evidence db aid). near x y"
  proof (rule summaries_touch[OF _ _ evn ev sn sum _ nb(4,5)])
    show "connected (set (evidence db i))" "connected (set (evidence db aid))" using conn by (simp_all add: act_conn_def)
    show "er_timestamp e \<le> event_end e" if "e \<in> set (evidence db i) \<union> set (evidence db aid)" for e
      using that ends by (auto simp: ends_ok_def evidence_set)
    show "er_camera e = er_camera f" if "e \<in> set (evidence db i)" "f \<in> set (evidence db aid)" for e f
      using camn[OF that(1)] cama[OF that(2)] by simp
  qed
  then show "\<exists>x\<in>set (evidence ?db i). \<exists>y\<in>set (evidence ?db aid). near x y" by simp
qed

lemma round_ok1:
  assumes "act_ok_except {aid} db" and "evidence db aid \<noteq> []" and "ns = neighbors_after aid (refresh_activity now aid db)"
    and "c = canonical aid start ns"
  shows "act_ok_except {c} (merge_all c (aid # map ar_id ns) (refresh_activity now aid db))"
  by (rule act_ok_except_sub[OF round_ok[OF assms] act_ok_exceptD(1)[OF round_ok[OF assms]]]) (auto simp: merge_all_rows)

lemma reconcile_conn:
  "act_ok_except {aid} db \<Longrightarrow> act_conn db \<Longrightarrow> ends_ok db \<Longrightarrow> act_conn (snd (reconcileActivityTx now aid db))"
proof (induction now aid db rule: reconcileActivityTx.induct)
  case (1 now aid db)
  let ?db1 = "refresh_activity now aid db"
  let ?ns = "neighbors_after aid ?db1"
  let ?c = "canonical aid (fst (snd (summarize (evidence db aid)))) ?ns"
  let ?db2 = "merge_all ?c (aid # map ar_id ?ns) ?db1"
  consider (empty) "evidence db aid = []" | (alone) "evidence db aid \<noteq> []" "?ns = []" | (more) "evidence db aid \<noteq> []" "?ns \<noteq> []"
    by blast
  then show ?case
  proof cases
    case empty
    have "evidence (delete_activity aid db) i = (if i = aid then [] else evidence db i)" for i
      by (auto simp: evidence_def delete_activity_def filter_empty_conv intro!: filter_cong)
    then have "act_conn (delete_activity aid db)" using 1(3) empty by (simp add: act_conn_def connected_def[of "{}"])
    then show ?thesis using empty by (subst reconcileActivityTx.simps) simp
  next
    case alone
    then show ?thesis using 1(3) by (subst reconcileActivityTx.simps) (simp add: Let_def act_conn_def)
  next
    case more
    have step: "snd (reconcileActivityTx now aid db) = snd (reconcileActivityTx now ?c ?db2)"
      using more by (subst reconcileActivityTx.simps) (simp add: Let_def)
    have "ends_ok ?db2" using 1(4) by (simp add: ends_ok_def)
    then show ?thesis unfolding step
      by (rule 1(1)[OF more(1) refl refl more(2) refl refl round_ok1[OF 1(2) more(1) refl refl] round_conn[OF 1(2-4) more(1) refl refl]])
  qed
qed

section \<open>Assigning an event\<close>

lemma reopen_links [simp]: "ad_links (reopenActivityTx now i db) = ad_links db" "ad_events (reopenActivityTx now i db) = ad_events db"
  by (simp_all add: reopenActivityTx_def update_activity_def)

lemma reopen_evidence [simp]: "evidence (reopenActivityTx now i db) j = evidence db j"
  by (simp add: evidence_def)

lemma reconcile_reopen_links [simp]:
  "ad_links (reconcile_reopen now aid db) = ad_links (snd (reconcileActivityTx now aid db))"
  "ad_events (reconcile_reopen now aid db) = ad_events db"
  by (simp_all add: reconcile_reopen_def split: prod.split option.split) (metis reconcile_events snd_conv)+

lemma reconcile_reopen_conn:
  assumes "act_ok_except {aid} db" and "act_conn db" and "ends_ok db"
  shows "act_conn (reconcile_reopen now aid db)"
  using reconcile_conn[OF assms, of now] unfolding reconcile_reopen_def act_conn_def by (auto split: prod.split option.split)

lemma candidate_touches:
  assumes ok: "act_ok db" and conn: "act_conn db" and e: "er_timestamp e \<le> event_end e" and a: "a \<in> set (candidates e db)"
  shows "\<exists>x\<in>set (evidence db (ar_id a)). near x e"
proof -
  have b: "snd (eventActivityBounds e) = event_end e" using e by (auto simp: eventActivityBounds_def event_end_def tafter_def split: option.split)
  have a': "a \<in> set (ad_activities db)" "ar_camera a = er_camera e" "ar_start a \<le> event_end e + activityMergeGap"
      "er_timestamp e - activityMergeGap \<le> ar_end a"
    using a b by (auto simp: candidates_def neighbors_set) (simp add: eventActivityBounds_def)
  have ev: "evidence db (ar_id a) \<noteq> []" and s: "summarize (evidence db (ar_id a)) = (ar_camera a, ar_start a, ar_end a, ar_category a)"
    using act_ok_exceptD(2,3)[OF ok a'(1)] by (simp_all add: summary_of_def)
  have "connected (set (evidence db (ar_id a)))" using conn by (simp add: act_conn_def)
  from summary_touches[OF this ev s e a'(3,4)] show ?thesis
    using keys_okD(4)[OF act_ok_exceptD(1)[OF ok] a'(1)] a'(2) unfolding near_def by metis
qed

lemma assign_link_links:
  assumes "distinct (activity_ids db)"
  shows "ad_links (assign_link now e db) x = (if x = er_id e then Some (assign_target e db)
      else if ad_links db x \<in> (\<lambda>a. Some (ar_id a)) ` set (candidates e db) then Some (assign_target e db) else ad_links db x)"
proof (cases "candidates e db = []")
  case True
  then show ?thesis by (simp add: assign_link_def Let_def assign_merge_def)
next
  case False
  show ?thesis unfolding assign_link_def Let_def assign_merge_Cons[OF assms False]
    by (auto simp: merge_all_links image_image)
qed

text \<open>The evidence of the activity the event is linked to: the event and that of the candidates.\<close>

lemma assign_link_evidence:
  assumes ok: "act_ok db" and free: "candidates e db = [] \<Longrightarrow> assign_target e db \<notin> set (activity_ids db)"
    and e: "e' \<in> set (ad_events db)" "er_id e' = er_id e" "ad_links db (er_id e) = None"
  shows "set (evidence (assign_link now e db) (assign_target e db)) =
    {e'} \<union> \<Union>((\<lambda>a. set (evidence db (ar_id a))) ` set (candidates e db))" (is "?L = {e'} \<union> \<Union>?cs")
proof -
  let ?t = "assign_target e db" and ?db = "assign_link now e db"
  note keys = act_ok_exceptD(1)[OF ok]
  note links = assign_link_links[OF keys_okD(2)[OF keys], of now e]
  have evs: "ad_events ?db = ad_events db" using assign_merge_ok(3)[OF ok free e(3)] by (simp add: assign_link_def Let_def)
  have uniq: "x = e'" if "x \<in> set (ad_events db)" "er_id x = er_id e" for x
    using event_unique[OF keys_okD(1)[OF keys] that(1) e(1)] that(2) e(2) by simp
  have inU: "\<exists>a\<in>set (candidates e db). x \<in> set (evidence db (ar_id a))" if x: "x \<in> set (evidence db ?t)" for x
  proof (cases "candidates e db")
    case Nil
    have "evidence db ?t \<noteq> []" using x by force
    then obtain a where "a \<in> set (ad_activities db)" "ar_id a = ?t" using linked_activity[OF keys] by blast
    then have "?t \<in> set (activity_ids db)" unfolding activity_ids_def set_map by (metis image_eqI)
    then show ?thesis using free[OF Nil] by simp
  next
    case (Cons c cs)
    then show ?thesis using x by (auto simp: assign_target_def)
  qed
  show ?thesis
  proof (intro set_eqI iffI)
    fix x assume "x \<in> ?L"
    then have x: "x \<in> set (ad_events db)" "ad_links ?db (er_id x) = Some ?t" by (auto simp: evidence_set evs)
    show "x \<in> {e'} \<union> \<Union>?cs"
    proof (cases "er_id x = er_id e \<or> ad_links db (er_id x) \<in> (\<lambda>a. Some (ar_id a)) ` set (candidates e db)")
      case True
      then show ?thesis using uniq[OF x(1)] x(1) by (auto simp: evidence_set)
    next
      case False
      then have "x \<in> set (evidence db ?t)" using x links[of "er_id x"] by (auto simp: evidence_set)
      from inU[OF this] show ?thesis by blast
    qed
  next
    fix x assume "x \<in> {e'} \<union> \<Union>?cs"
    then show "x \<in> ?L" using e(1,2) by (auto simp: evidence_set evs links)
  qed
qed

lemma assign_link_evidence_other:
  assumes ok: "act_ok db" and free: "candidates e db = [] \<Longrightarrow> assign_target e db \<notin> set (activity_ids db)"
    and new: "ad_links db (er_id e) = None" and i: "i \<noteq> assign_target e db"
  shows "set (evidence (assign_link now e db) i) = {} \<or> set (evidence (assign_link now e db) i) = set (evidence db i)"
proof -
  note links = assign_link_links[OF keys_okD(2)[OF act_ok_exceptD(1)[OF ok]], of now e]
  have evs: "ad_events (assign_link now e db) = ad_events db"
    using assign_merge_ok(3)[OF ok free new] by (simp add: assign_link_def Let_def)
  show ?thesis
  proof (cases "i \<in> ar_id ` set (candidates e db)")
    case True
    then have "x \<notin> set (evidence (assign_link now e db) i)" for x using i by (auto simp: evidence_set links split: if_splits)
    then show ?thesis by (metis equals0I)
  next
    case False
    then have "ad_links (assign_link now e db) x = Some i \<longleftrightarrow> ad_links db x = Some i" for x using i new unfolding links by auto
    then have "set (evidence (assign_link now e db) i) = set (evidence db i)" by (auto simp: evidence_set evs)
    then show ?thesis by blast
  qed
qed

lemma assign_link_conn:
  assumes ok: "act_ok db" and conn: "act_conn db" and free: "candidates e db = [] \<Longrightarrow> assign_target e db \<notin> set (activity_ids db)"
    and e: "er_timestamp e \<le> event_end e" "e' \<in> set (ad_events db)" "ad_links db (er_id e) = None"
    and same: "er_id e' = er_id e" "\<And>x. near x e' \<longleftrightarrow> near x e"
  shows "act_conn (assign_link now e db)"
  unfolding act_conn_def
proof
  fix i
  have "connected ({e'} \<union> \<Union>((\<lambda>a. set (evidence db (ar_id a))) ` set (candidates e db)))"
    by (rule connected_star[OF connected_single]) (use conn candidate_touches[OF ok conn e(1)] same(2) in \<open>auto simp: act_conn_def\<close>)
  then show "connected (set (evidence (assign_link now e db) i))"
    using assign_link_evidence[OF ok free e(2) same(1) e(3), of now] assign_link_evidence_other[OF ok free e(3), of i now] conn
    by (cases "i = assign_target e db") (auto simp: act_conn_def connected_def[of "{}"])
qed

section \<open>Ingestion\<close>

text \<open>Activities are named after an event that is linked.\<close>

definition named_ok :: "actdb \<Rightarrow> bool" where
  "named_ok db \<longleftrightarrow> (\<forall>i\<in>set (activity_ids db). \<exists>x. i = ''act_'' @ x \<and> ad_links db x \<noteq> None)"

definition group_inv :: "actdb \<Rightarrow> bool" where
  "group_inv db \<longleftrightarrow> act_ok db \<and> act_conn db \<and> ends_ok db \<and> named_ok db"

lemma reconcile_reopen_ids: "set (activity_ids (reconcile_reopen now aid db)) \<subseteq> set (activity_ids db)"
proof -
  have "activity_ids (reconcile_reopen now aid db) = activity_ids (snd (reconcileActivityTx now aid db))"
    by (simp add: reconcile_reopen_def reopenActivityTx_def activity_ids_update split: prod.split option.split)
  then show ?thesis using reconcile_ids by simp
qed

lemma named_shrink:
  assumes "named_ok db" and "set (activity_ids db') \<subseteq> set (activity_ids db)" and "\<And>x. ad_links db' x = None \<Longrightarrow> ad_links db x = None"
  shows "named_ok db'"
  using assms unfolding named_ok_def by (metis subsetD)

lemma assign_named:
  assumes ok: "act_ok db" and n: "named_ok db"
  shows "named_ok (assign_link now e db)"
  unfolding named_ok_def
proof
  note keys = act_ok_exceptD(1)[OF ok]
  note links = assign_link_links[OF keys_okD(2)[OF keys], of now e]
  fix i assume i: "i \<in> set (activity_ids (assign_link now e db))"
  have "i \<in> set (activity_ids db) \<or> i = ''act_'' @ er_id e"
  proof (cases "candidates e db = []")
    case True
    then show ?thesis using i by (auto simp: assign_link_def Let_def assign_merge_def activity_ids_def new_activity_def)
  next
    case False
    have "activity_ids (d\<lparr>ad_links := l\<rparr>) = activity_ids d" for d l by (simp add: activity_ids_def)
    then show ?thesis using i unfolding assign_link_def Let_def assign_merge_Cons[OF keys_okD(2)[OF keys] False]
      by (simp add: merge_all_ids)
  qed
  then show "\<exists>x. i = ''act_'' @ x \<and> ad_links (assign_link now e db) x \<noteq> None"
    using n unfolding named_ok_def links by (metis option.distinct(1))
qed

lemma assign_free:
  "named_ok db \<Longrightarrow> ad_links db (er_id e) = None \<Longrightarrow> candidates e db = [] \<Longrightarrow> assign_target e db \<notin> set (activity_ids db)"
  by (auto simp: named_ok_def assign_target_def)

lemma assign_step:
  assumes inv: "group_inv db" and e': "e' \<in> set (ad_events db)" "er_id e' = er_id e" "er_camera e' = er_camera e"
      "er_timestamp e' = er_timestamp e" "event_end e' = event_end e"
    and un: "ad_links db (er_id e) = None"
  shows "\<exists>db'. assignEventToActivityTx now e db = Inr db' \<and> group_inv db' \<and> ad_events db' = ad_events db \<and>
    (\<forall>x. ad_links db' x = None \<longleftrightarrow> ad_links db x = None \<and> (x = er_id e \<longrightarrow> er_kind e = kind_cry))"
proof (cases "er_kind e = kind_cry")
  case True
  then show ?thesis using inv by (simp add: assignEventToActivityTx_def)
next
  case False
  have ok: "act_ok db" and conn: "act_conn db" and ends: "ends_ok db" and n: "named_ok db" using inv by (simp_all add: group_inv_def)
  note free = assign_free[OF n un]
  let ?t = "assign_target e db" and ?l = "assign_link now e db"
  let ?db = "reconcile_reopen now ?t ?l"
  have e: "er_timestamp e \<le> event_end e" using ends e' by (auto simp: ends_ok_def)
  have lok: "act_ok_except {?t} ?l" by (rule assign_link_ok[OF ok free un e'(1,2,3)])
  have lconn: "act_conn ?l"
    by (rule assign_link_conn[OF ok conn free e e'(1) un e'(2)]) (use e' in \<open>simp_all add: near_def\<close>)
  have evs: "ad_events ?l = ad_events db" using assign_merge_ok(3)[OF ok free un] by (simp add: assign_link_def Let_def)
  then have lends: "ends_ok ?l" using ends by (simp add: ends_ok_def)
  have links: "ad_links ?db x = None \<longleftrightarrow> ad_links ?l x = None" for x using reconcile_linked[OF lok] by simp
  have llinks: "ad_links ?l x = None \<longleftrightarrow> ad_links db x = None \<and> x \<noteq> er_id e" for x
    unfolding assign_link_links[OF keys_okD(2)[OF act_ok_exceptD(1)[OF ok]]] by auto
  have "named_ok ?db" by (rule named_shrink[OF assign_named[OF ok n] reconcile_reopen_ids]) (use links in blast)
  then have "group_inv ?db"
    using reconcile_reopen_ok[OF lok] reconcile_reopen_conn[OF lok lconn lends] ends evs by (simp add: group_inv_def ends_ok_def)
  moreover have "assignEventToActivityTx now e db = Inr ?db" using False free by (auto simp: assignEventToActivityTx_def)
  ultimately show ?thesis using evs links llinks False by simp
qed

text \<open>An end time that does not come before the one the event has.\<close>

definition extends :: "string \<Rightarrow> gotime \<Rightarrow> actdb \<Rightarrow> bool" where
  "extends eid t db \<longleftrightarrow> (\<forall>e\<in>set (ad_events db). er_id e = eid \<longrightarrow> event_end e \<le> t)"

lemma event_end_set: "event_end (e\<lparr>er_end := Some t\<rparr>) = t"
  by (simp add: event_end_def)

lemma near_set_end:
  assumes "extends eid t db" and "x \<in> set (ad_events db)" "y \<in> set (ad_events db)" and "near x y"
  shows "near (set_end eid t x) (set_end eid t y)"
proof -
  have "event_end z \<le> event_end (set_end eid t z) \<and> er_timestamp (set_end eid t z) = er_timestamp z" if "z \<in> set (ad_events db)" for z
    using assms(1) that by (auto simp: extends_def set_end_def event_end_def)
  from this[OF assms(2)] this[OF assms(3)] assms(4) show ?thesis by (auto simp: near_def)
qed

lemma set_end_conn:
  assumes conn: "act_conn db" and ex: "extends eid t db"
  shows "act_conn (db\<lparr>ad_events := map (set_end eid t) (ad_events db)\<rparr>)" (is "act_conn ?db")
  unfolding act_conn_def connected_def
proof (intro allI ballI)
  fix i x' y' assume xy: "x' \<in> set (evidence ?db i)" "y' \<in> set (evidence ?db i)"
  have ev: "evidence ?db i = map (set_end eid t) (evidence db i)" by (simp add: evidence_def filter_map o_def)
  obtain x y where x: "x \<in> set (evidence db i)" "x' = set_end eid t x" and y: "y \<in> set (evidence db i)" "y' = set_end eid t y"
    using xy unfolding ev by auto
  have "(x, y) \<in> (near_in (set (evidence db i)))\<^sup>*" using conn x(1) y(1) by (simp add: act_conn_def connected_def)
  then have "(set_end eid t x, set_end eid t y) \<in> (near_in (set (evidence ?db i)))\<^sup>*"
  proof (induction rule: rtrancl_induct)
    case (step u v)
    then have "u \<in> set (evidence db i)" "v \<in> set (evidence db i)" "near u v" by (auto simp: near_in_def)
    moreover from this have "near (set_end eid t u) (set_end eid t v)" using near_set_end[OF ex] by (simp add: evidence_set)
    ultimately have "(set_end eid t u, set_end eid t v) \<in> near_in (set (evidence ?db i))" unfolding ev by (simp add: near_in_def)
    with step.IH show ?case by (rule rtrancl_into_rtrancl)
  qed simp
  then show "(x', y') \<in> (near_in (set (evidence ?db i)))\<^sup>*" using x y by simp
qed

text \<open>
  The tables live ingestion produces: events are saved as they are detected and get their end time
  later.  A save that fails leaves the tables as they are.
\<close>

inductive ingested :: "actdb \<Rightarrow> bool" where
  ingested_empty: "ingested empty_actdb"
| ingested_save: "ingested db \<Longrightarrow> er_timestamp e \<le> event_end e \<Longrightarrow> act_SaveEvent now e db = Inr db' \<Longrightarrow> ingested db'"
| ingested_end: "ingested db \<Longrightarrow> extends eid t db \<Longrightarrow> ingested (act_UpdateEventEndTime now eid t db)"

definition grouped_events :: "actdb \<Rightarrow> eventRow set" where
  "grouped_events db = {e \<in> set (ad_events db). er_kind e \<noteq> kind_cry}"

text \<open>Every event but a cry is linked, and no cry is.\<close>

definition linked_ok :: "actdb \<Rightarrow> bool" where
  "linked_ok db \<longleftrightarrow> (\<forall>e\<in>set (ad_events db). ad_links db (er_id e) = None \<longleftrightarrow> er_kind e = kind_cry)"

lemma linked_okD: "linked_ok db \<Longrightarrow> e \<in> set (ad_events db) \<Longrightarrow> ad_links db (er_id e) = None \<longleftrightarrow> er_kind e = kind_cry"
  by (simp add: linked_ok_def)

lemma near_same_activity:
  assumes ok: "act_ok db" and xy: "x \<in> set (evidence db i)" "y \<in> set (evidence db j)" and near: "near x y"
  shows "i = j"
proof (rule ccontr)
  assume ij: "i \<noteq> j"
  note keys = act_ok_exceptD(1)[OF ok]
  have ev: "evidence db i \<noteq> []" "evidence db j \<noteq> []" using xy by auto
  obtain a where a: "a \<in> set (ad_activities db)" "ar_id a = i" using linked_activity[OF keys ev(1)] .
  obtain b where b: "b \<in> set (ad_activities db)" "ar_id b = j" using linked_activity[OF keys ev(2)] .
  have sa: "summarize (evidence db i) = (ar_camera a, ar_start a, ar_end a, ar_category a)"
    and sb: "summarize (evidence db j) = (ar_camera b, ar_start b, ar_end b, ar_category b)"
    using act_ok_exceptD(3)[OF ok a(1)] act_ok_exceptD(3)[OF ok b(1)] a(2) b(2) by (simp_all add: summary_of_def)
  have "ar_camera a = ar_camera b" using keys_okD(4)[OF keys a(1), of x] keys_okD(4)[OF keys b(1), of y] xy a(2) b(2) near
    by (simp add: near_def)
  moreover have "within_gap a b"
    using summarize_bounds(3)[OF ev(1) sa xy(1)] summarize_bounds(3)[OF ev(2) sb xy(2)] near by (simp add: near_def within_gap_def)
  ultimately show False using act_ok_exceptD(4)[OF ok a(1) b(1)] a(2) b(2) ij by simp
qed

text \<open>The activities are the components of the near relation.\<close>

lemma components:
  assumes inv: "group_inv db" and l: "linked_ok db" and e: "e \<in> grouped_events db" and f: "f \<in> grouped_events db"
  shows "ad_links db (er_id e) = ad_links db (er_id f) \<longleftrightarrow> (e, f) \<in> (near_in (grouped_events db))\<^sup>*"
proof
  have ok: "act_ok db" and conn: "act_conn db" using inv by (simp_all add: group_inv_def)
  have lk: "ad_links db (er_id x) \<noteq> None" if "x \<in> grouped_events db" for x
    using l that by (auto simp: linked_ok_def grouped_events_def)
  { assume same: "ad_links db (er_id e) = ad_links db (er_id f)"
    obtain i where i: "ad_links db (er_id e) = Some i" using lk[OF e] by blast
    have "e \<in> set (evidence db i)" "f \<in> set (evidence db i)" using e f i same by (simp_all add: evidence_set grouped_events_def)
    moreover have "set (evidence db i) \<subseteq> grouped_events db"
      using linked_okD[OF l] by (metis (mono_tags) evidence_set grouped_events_def mem_Collect_eq option.distinct(1) subsetI)
    moreover have "connected (set (evidence db i))" using conn by (simp add: act_conn_def)
    ultimately show "(e, f) \<in> (near_in (grouped_events db))\<^sup>*" using connectedD by blast }
  assume "(e, f) \<in> (near_in (grouped_events db))\<^sup>*"
  then show "ad_links db (er_id e) = ad_links db (er_id f)"
  proof (induction rule: rtrancl_induct)
    case (step u v)
    then have uv: "u \<in> grouped_events db" "v \<in> grouped_events db" "near u v" by (auto simp: near_in_def)
    obtain i j where ij: "ad_links db (er_id u) = Some i" "ad_links db (er_id v) = Some j" using lk[OF uv(1)] lk[OF uv(2)] by blast
    then have "u \<in> set (evidence db i)" "v \<in> set (evidence db j)" using uv(1,2) by (simp_all add: evidence_set grouped_events_def)
    from near_same_activity[OF ok this uv(3)] show ?case using step.IH ij by simp
  qed simp
qed

lemma group_inv_empty: "group_inv \<lparr>ad_events = [], ad_activities = [], ad_links = Map.empty, ad_corrections = cs\<rparr>"
  by (simp add: group_inv_def act_ok_except_def keys_ok_def act_conn_def connected_def evidence_def ends_ok_def named_ok_def activity_ids_def)

lemma stored_row_fields [simp]:
  "er_id (stored_row e) = er_id e" "er_camera (stored_row e) = er_camera e" "er_timestamp (stored_row e) = er_timestamp e"
  "event_end (stored_row e) = event_end e" "er_kind (stored_row e) = kind_cry \<longleftrightarrow> er_kind e = kind_cry"
  by (auto simp: stored_row_def event_end_def kind_cry_def split: option.split)

lemma ingest_save:
  assumes inv: "group_inv db" and l: "linked_ok db" and e: "er_timestamp e \<le> event_end e" and new: "er_id e \<notin> er_id ` set (ad_events db)"
  obtains db' where "act_SaveEvent now e db = Inr db'" and "group_inv db'" and "linked_ok db'"
    and "ad_events db' = ad_events db @ [stored_row e]"
proof -
  let ?db = "db\<lparr>ad_events := ad_events db @ [stored_row e]\<rparr>"
  have ok: "act_ok db" and keys: "keys_ok db" using inv act_ok_exceptD(1) by (auto simp: group_inv_def)
  have un: "ad_links db (er_id e) = None" by (rule unlinked_fresh[OF keys new])
  have ev: "evidence ?db i = evidence db i" for i using un by (simp add: evidence_def)
  have "group_inv ?db"
    using add_event_ok[OF ok, of "stored_row e"] new inv e
    by (simp add: group_inv_def act_conn_def ev) (simp add: ends_ok_def named_ok_def activity_ids_def)
  then obtain db' where db': "assignEventToActivityTx now e ?db = Inr db'" "group_inv db'" "ad_events db' = ad_events ?db"
      "\<And>x. ad_links db' x = None \<longleftrightarrow> ad_links ?db x = None \<and> (x = er_id e \<longrightarrow> er_kind e = kind_cry)"
    using assign_step[of ?db "stored_row e" e now] un by auto
  moreover have "act_SaveEvent now e db = Inr db'" using db'(1) new by (simp add: act_SaveEvent_def)
  moreover have "linked_ok db'"
    unfolding linked_ok_def db'(3,4)
  proof
    fix x assume "x \<in> set (ad_events ?db)"
    moreover have "er_id y \<noteq> er_id e" if "y \<in> set (ad_events db)" for y using new that by (metis image_eqI)
    ultimately have "x = stored_row e \<or> x \<in> set (ad_events db) \<and> er_id x \<noteq> er_id e" by auto
    then consider "x = stored_row e" | "x \<in> set (ad_events db)" "er_id x \<noteq> er_id e" by blast
    then show "(ad_links ?db (er_id x) = None \<and> (er_id x = er_id e \<longrightarrow> er_kind e = kind_cry)) = (er_kind x = kind_cry)"
      by cases (use un linked_okD[OF l] in auto)
  qed
  ultimately show thesis using that by simp
qed

lemma ingest_end:
  assumes inv: "group_inv db" and l: "linked_ok db" and ex: "extends eid t db"
  shows "group_inv (act_UpdateEventEndTime now eid t db)" and "linked_ok (act_UpdateEventEndTime now eid t db)"
proof -
  let ?db = "db\<lparr>ad_events := map (set_end eid t) (ad_events db)\<rparr>"
  let ?r = "act_UpdateEventEndTime now eid t db"
  have ok: "act_ok db" and conn: "act_conn db" and ends: "ends_ok db" and n: "named_ok db" using inv by (simp_all add: group_inv_def)
  have later: "er_timestamp e \<le> event_end (set_end eid t e)" "er_timestamp (set_end eid t e) = er_timestamp e"
    "er_kind (set_end eid t e) = er_kind e" if "e \<in> set (ad_events db)" for e
    using that ends ex unfolding ends_ok_def extends_def by (force simp: set_end_def event_end_set)+
  have cond: "act_conn ?db" by (rule set_end_conn[OF conn ex])
  have endsd: "ends_ok ?db" using later by (auto simp: ends_ok_def)
  have okd: "act_ok_except Y ?db" if "\<And>i. ad_links db eid = Some i \<Longrightarrow> i \<in> Y" for Y
  proof -
    have "act_ok_except (Y \<union> {}) ?db" by (rule set_end_ok[OF ok]) (rule that)
    then show ?thesis by simp
  qed
  have r: "?r = (case ad_links db eid of None \<Rightarrow> ?db | Some aid \<Rightarrow> reconcile_reopen now aid ?db)"
    by (simp add: act_UpdateEventEndTime_def set_end_eq Let_def)
  have nd: "named_ok ?db" using n by (simp add: named_ok_def activity_ids_def)
  have "group_inv ?r \<and> ad_events ?r = ad_events ?db \<and> (\<forall>x. ad_links ?r x = None \<longleftrightarrow> ad_links db x = None)"
  proof (cases "ad_links db eid")
    case None
    then show ?thesis using okd[of "{}"] cond endsd nd unfolding r by (simp add: group_inv_def)
  next
    case (Some aid)
    have oka: "act_ok_except {aid} ?db" by (rule okd) (simp add: Some)
    have lr: "ad_links ?r x = None \<longleftrightarrow> ad_links db x = None" for x unfolding r Some using reconcile_linked[OF oka, of now aid x] by simp
    have "named_ok ?r" by (rule named_shrink[OF nd]) (use reconcile_reopen_ids lr in \<open>auto simp: r Some\<close>)
    then show ?thesis using reconcile_reopen_ok[OF oka, of now] reconcile_reopen_conn[OF oka cond endsd, of now] endsd lr
      unfolding r Some by (simp add: group_inv_def ends_ok_def)
  qed
  then show "group_inv ?r" "linked_ok ?r" using later(3) linked_okD[OF l] by (auto simp: linked_ok_def)
qed

lemma ingested_inv: "ingested db \<Longrightarrow> group_inv db \<and> linked_ok db"
proof (induction rule: ingested.induct)
  case ingested_empty
  then show ?case using group_inv_empty by (simp add: empty_actdb_def linked_ok_def)
next
  case (ingested_save db e now db')
  have "er_id e \<notin> er_id ` set (ad_events db)" using ingested_save(3) by (auto simp: act_SaveEvent_def split: if_splits)
  with ingested_save show ?case using ingest_save[of db e now] by (metis sum.inject(2))
next
  case (ingested_end db eid t now)
  then show ?case using ingest_end by blast
qed

section \<open>Backfill\<close>

definition ungrouped :: "eventRow list \<Rightarrow> actdb" where
  "ungrouped es = \<lparr>ad_events = es, ad_activities = [], ad_links = Map.empty, ad_corrections = []\<rparr>"

lemma assign_each_inv:
  assumes "group_inv db" and "set es \<subseteq> set (ad_events db)" and "distinct (map er_id es)"
    and "\<And>e. e \<in> set es \<Longrightarrow> ad_links db (er_id e) = None"
  shows "\<exists>db'. assign_each now es db = Inr db' \<and> group_inv db' \<and> ad_events db' = ad_events db \<and>
    (\<forall>x. ad_links db' x = None \<longleftrightarrow> ad_links db x = None \<and> (\<forall>e\<in>set es. x = er_id e \<longrightarrow> er_kind e = kind_cry))"
  using assms
proof (induction es arbitrary: db)
  case (Cons e es)
  have e: "e \<in> set (ad_events db)" "ad_links db (er_id e) = None" using Cons.prems by auto
  obtain db1 where db1: "assignEventToActivityTx now e db = Inr db1" "group_inv db1" "ad_events db1 = ad_events db"
      "\<And>x. ad_links db1 x = None \<longleftrightarrow> ad_links db x = None \<and> (x = er_id e \<longrightarrow> er_kind e = kind_cry)"
    using assign_step[OF Cons.prems(1) e(1) refl refl refl refl e(2), of now] by blast
  have "ad_links db1 (er_id f) = None" if "f \<in> set es" for f
  proof -
    have "er_id f \<noteq> er_id e" using Cons.prems(3) that by (metis distinct.simps(2) image_eqI list.map(2) set_map)
    then show ?thesis using db1(4)[of "er_id f"] Cons.prems(4)[of f] that by simp
  qed
  then obtain db' where "assign_each now es db1 = Inr db'" "group_inv db'" "ad_events db' = ad_events db1"
      "\<And>x. ad_links db' x = None \<longleftrightarrow> ad_links db1 x = None \<and> (\<forall>e\<in>set es. x = er_id e \<longrightarrow> er_kind e = kind_cry)"
    using Cons.IH[OF db1(2)] Cons.prems(2,3) db1(3) by auto
  then show ?case using db1 by (intro exI[of _ db']) auto
qed simp

lemma backfill_inv:
  assumes es: "distinct (map er_id es)" "\<And>e. e \<in> set es \<Longrightarrow> er_timestamp e \<le> event_end e"
  shows "\<exists>db'. backfillActivities now (ungrouped es) = Inr db' \<and> group_inv db' \<and> linked_ok db' \<and> ad_events db' = es"
proof -
  let ?db = "ungrouped es" and ?es = "sort_key (\<lambda>e. (er_timestamp e, er_id e)) es"
  have inv: "group_inv ?db" using es
    by (simp add: ungrouped_def group_inv_def act_ok_except_def keys_ok_def act_conn_def connected_def evidence_def ends_ok_def
        named_ok_def activity_ids_def)
  have d: "distinct (map er_id ?es)" using es(1) by (simp add: distinct_map)
  have "\<exists>db'. assign_each now ?es ?db = Inr db' \<and> group_inv db' \<and> ad_events db' = ad_events ?db \<and>
      (\<forall>x. ad_links db' x = None \<longleftrightarrow> ad_links ?db x = None \<and> (\<forall>e\<in>set ?es. x = er_id e \<longrightarrow> er_kind e = kind_cry))"
    by (rule assign_each_inv[OF inv _ d]) (auto simp: ungrouped_def)
  then obtain db' where db': "assign_each now ?es ?db = Inr db'" "group_inv db'" "ad_events db' = es"
      "\<And>x. ad_links db' x = None \<longleftrightarrow> (\<forall>e\<in>set es. x = er_id e \<longrightarrow> er_kind e = kind_cry)"
    by (auto simp: ungrouped_def)
  have "linked_ok db'" unfolding linked_ok_def db'(3,4) using event_unique[OF es(1)] by metis
  then show ?thesis using db' by (auto simp: backfillActivities_def ungrouped_def)
qed

section \<open>Properties\<close>

definition same_activity :: "actdb \<Rightarrow> (string \<times> string) set" where
  "same_activity db = {(er_id e, er_id f) |e f. e \<in> grouped_events db \<and> f \<in> grouped_events db \<and>
     ad_links db (er_id e) = ad_links db (er_id f)}"

text \<open>
  C31. After any live ingestion every event but a cry belongs to an activity, and two of
  them belong to the same one exactly when a chain of events of their camera, each within ninety seconds
  of the next, leads from one to the other.  So the order in which events and end times arrive, and the
  merges on the way, do not matter.
\<close>

theorem activities_are_components:
  assumes "ingested db" and "e \<in> grouped_events db" and "f \<in> grouped_events db"
  shows "ad_links db (er_id e) \<noteq> None \<and>
    (ad_links db (er_id e) = ad_links db (er_id f) \<longleftrightarrow> (e, f) \<in> (near_in (grouped_events db))\<^sup>*)"
proof -
  have inv: "group_inv db" "linked_ok db" using ingested_inv[OF assms(1)] by blast+
  have "ad_links db (er_id e) \<noteq> None" using linked_okD[OF inv(2), of e] assms(2) by (auto simp: grouped_events_def)
  then show ?thesis using components[OF inv assms(2,3)] by blast
qed

definition door_event :: "string \<Rightarrow> gotime \<Rightarrow> eventRow" where
  "door_event i t = \<lparr>er_id = i, er_camera = ''door'', er_timestamp = t * Second, er_end = None,
     er_category = category_alert, er_kind = ''object''\<rparr>"

definition save_all :: "eventRow list \<Rightarrow> actdb \<Rightarrow> actdb" where
  "save_all es db = fold (\<lambda>e d. case act_SaveEvent 0 e d of Inl _ \<Rightarrow> d | Inr d' \<Rightarrow> d') es db"

definition sample_db :: actdb where
  "sample_db = save_all [door_event ''a'' 0, door_event ''c'' 150, door_event ''z'' 900, door_event ''b'' 75] empty_actdb"

lemma save_all_ingested: "ingested db \<Longrightarrow> (\<And>e. e \<in> set es \<Longrightarrow> er_timestamp e \<le> event_end e) \<Longrightarrow> ingested (save_all es db)"
proof (induction es arbitrary: db)
  case (Cons e es)
  have "ingested (case act_SaveEvent 0 e db of Inl _ \<Rightarrow> db | Inr d' \<Rightarrow> d')"
    using ingested_save[OF Cons.prems(1), of e 0] Cons.prems by (auto split: sum.split)
  then show ?case using Cons by (simp add: save_all_def)
qed (simp add: save_all_def)

lemma sample_db_ingested: "ingested sample_db"
  unfolding sample_db_def by (rule save_all_ingested[OF ingested_empty]) (auto simp: door_event_def event_end_def)

lemma sample_links: "map (ad_links sample_db) [''a'', ''b'', ''c'', ''z''] = [Some ''act_a'', Some ''act_a'', Some ''act_a'', Some ''act_z'']"
  by code_simp

lemma door_events: "ad_events sample_db = [door_event ''a'' 0, door_event ''c'' 150, door_event ''z'' 900, door_event ''b'' 75]"
  by code_simp

theorem activities_are_components_witness:
  "ad_links sample_db ''a'' = Some ''act_a'' \<and> ad_links sample_db ''a'' = ad_links sample_db ''c'' \<and>
   (door_event ''a'' 0, door_event ''c'' 150) \<in> (near_in (grouped_events sample_db))\<^sup>* \<and>
   (door_event ''a'' 0, door_event ''z'' 900) \<notin> (near_in (grouped_events sample_db))\<^sup>*"
proof -
  have mem: "door_event i t \<in> grouped_events sample_db" if "(i, t) \<in> {(''a'', 0), (''c'', 150), (''z'', 900)}" for i t
    using that unfolding grouped_events_def door_events by (auto simp: door_event_def kind_cry_def)
  show ?thesis
    using activities_are_components[OF sample_db_ingested mem mem, of "''a''" 0 "''c''" 150]
      activities_are_components[OF sample_db_ingested mem mem, of "''a''" 0 "''z''" 900] sample_links
    by (simp add: door_event_def)
qed

text \<open>
  C32. Backfill agrees with live ingestion: the migration applied to the events any
  live ingestion has stored, with the grouping taken away, succeeds and puts the same events together.
\<close>

theorem backfill_agrees:
  assumes "ingested db"
  shows "\<exists>db'. backfillActivities now (ungrouped (ad_events db)) = Inr db' \<and> ad_events db' = ad_events db \<and>
    same_activity db' = same_activity db"
proof -
  have inv: "group_inv db" "linked_ok db" using ingested_inv[OF assms] by blast+
  have "distinct (map er_id (ad_events db))" using inv(1) act_ok_exceptD(1) keys_okD(1) by (auto simp: group_inv_def)
  moreover have "er_timestamp e \<le> event_end e" if "e \<in> set (ad_events db)" for e using inv(1) that by (simp add: group_inv_def ends_ok_def)
  ultimately obtain db' where db': "backfillActivities now (ungrouped (ad_events db)) = Inr db'" "group_inv db'" "linked_ok db'"
      "ad_events db' = ad_events db" using backfill_inv by blast
  have g: "grouped_events db' = grouped_events db" using db'(4) by (simp add: grouped_events_def)
  have "ad_links db' (er_id e) = ad_links db' (er_id f) \<longleftrightarrow> ad_links db (er_id e) = ad_links db (er_id f)"
    if "e \<in> grouped_events db" "f \<in> grouped_events db" for e f
    using components[OF db'(2,3), of e f] components[OF inv that] that g by simp
  then have "same_activity db' = same_activity db" unfolding same_activity_def g by blast
  then show ?thesis using db' by blast
qed

theorem backfill_agrees_witness:
  "(\<exists>db'. backfillActivities 7 (ungrouped (ad_events sample_db)) = Inr db' \<and> ad_events db' = ad_events sample_db \<and>
     same_activity db' = same_activity sample_db) \<and> length (ad_events sample_db) = 4"
  using backfill_agrees[OF sample_db_ingested, of 7] by (simp add: door_events)

end
