(* ===== verification/H264_Units.thy ===== *)
theory H264_Units
  imports Go_Prelude "HOL-Library.Word"
begin

text \<open>
  Normalizing H.264 access units: \<^verbatim>\<open>internal/h264au/h264au.go\<close> and \<^verbatim>\<open>spslevel.go\<close>.  An access unit is
  a list of NAL units, each a list of bytes.  The SPS parser belongs to the codec library the code
  calls, so \<open>ClampSPSLevel\<close> takes it as the argument \<open>unmarshal\<close>; the fields of the parsed
  SPS that the code reads keep their 32-bit width.
\<close>

unbundle bit_operations_syntax

section \<open>NAL units\<close>

type_synonym nalu = "8 word list"
type_synonym access_unit = "nalu list"

definition NALUTypeSEI :: "8 word" where "NALUTypeSEI = 6"
definition NALUTypeSPS :: "8 word" where "NALUTypeSPS = 7"
definition NALUTypePPS :: "8 word" where "NALUTypePPS = 8"

definition isType :: "nalu \<Rightarrow> 8 word \<Rightarrow> bool" where
  "isType n want = (n \<noteq> [] \<and> hd n AND 0x1F = want)"

definition DropSEI :: "access_unit \<Rightarrow> access_unit" where
  "DropSEI au =
     (if \<not> list_ex (\<lambda>n. isType n NALUTypeSEI) au then au
      else filter (\<lambda>n. \<not> isType n NALUTypeSEI) au)"

fun track_loop :: "access_unit \<Rightarrow> nalu \<times> nalu \<times> bool \<Rightarrow> nalu \<times> nalu \<times> bool" where
  "track_loop [] st = st"
| "track_loop (n # au) (newSPS, newPPS, spsChanged) =
     (if isType n NALUTypeSPS
      then track_loop au (if newSPS \<noteq> n then (n, newPPS, True) else (newSPS, newPPS, spsChanged))
      else if isType n NALUTypePPS then track_loop au (newSPS, n, spsChanged)
      else track_loop au (newSPS, newPPS, spsChanged))"

definition TrackParameterSets :: "access_unit \<Rightarrow> nalu \<Rightarrow> nalu \<Rightarrow> nalu \<times> nalu \<times> bool" where
  "TrackParameterSets au sps pps = track_loop au (sps, pps, False)"

definition ReplaceSPS :: "access_unit \<Rightarrow> nalu \<Rightarrow> access_unit" where
  "ReplaceSPS au muxSPS =
     (if muxSPS = [] then au
      else map (\<lambda>n. if n = [] \<or> hd n AND 0x1F \<noteq> NALUTypeSPS \<or> n = muxSPS then n else muxSPS) au)"

section \<open>Levels\<close>

record h264LevelLimit =
  idc :: "8 word"
  maxMBPS :: int
  maxFS :: int
  maxDpbMbs :: int

definition level_row :: "8 word \<times> int \<times> int \<times> int \<Rightarrow> h264LevelLimit" where
  "level_row r = (case r of (i, mbps, fs, dpb) \<Rightarrow> \<lparr>idc = i, maxMBPS = mbps, maxFS = fs, maxDpbMbs = dpb\<rparr>)"

definition h264LevelLimits :: "h264LevelLimit list" where
  "h264LevelLimits = map level_row
    [(10, 1485, 99, 396), (11, 3000, 396, 900), (12, 6000, 396, 2376), (13, 11880, 396, 2376),
     (20, 11880, 396, 2376), (21, 19800, 792, 4752), (22, 20250, 1620, 8100), (30, 40500, 1620, 8100),
     (31, 108000, 3600, 18000), (32, 216000, 5120, 20480), (40, 245760, 8192, 32768), (41, 245760, 8192, 32768),
     (42, 522240, 8704, 34816), (50, 589824, 22080, 110400), (51, 983040, 36864, 184320), (52, 2073600, 36864, 184320),
     (60, 4177920, 139264, 696320), (61, 8355840, 139264, 696320), (62, 16711680, 139264, 696320)]"

text \<open>The test of the loop in \<open>minH264Level\<close>; its products are 64-bit.\<close>

definition level_fits :: "int \<Rightarrow> int \<Rightarrow> int \<Rightarrow> h264LevelLimit \<Rightarrow> bool" where
  "level_fits frameMbs fps refFrames l =
     (maxFS l \<ge> frameMbs \<and> maxMBPS l \<ge> wrap64 (frameMbs * fps) \<and> maxDpbMbs l \<ge> wrap64 (refFrames * frameMbs))"

definition minH264Level :: "int \<Rightarrow> int \<Rightarrow> int \<Rightarrow> 8 word" where
  "minH264Level frameMbs fps refFrames =
     (let refs = (if refFrames < 1 then 1 else refFrames)
      in case find (level_fits frameMbs fps refs) h264LevelLimits of
           Some l \<Rightarrow> idc l
         | None \<Rightarrow> idc (last h264LevelLimits))"

section \<open>Clamping the level\<close>

record TimingInfo =
  NumUnitsInTick :: "32 word"
  TimeScale :: "32 word"

text \<open>\<open>VUI\<close> is a pointer to a struct with a pointer \<open>TimingInfo\<close>: either may be nil.\<close>

record SPS =
  PicWidthInMbsMinus1 :: "32 word"
  PicHeightInMapUnitsMinus1 :: "32 word"
  FrameMbsOnlyFlag :: bool
  MaxNumRefFrames :: "32 word"
  VUI :: "TimingInfo option option"

datatype panic = DivideByZero

definition spsFrameRate :: "SPS \<Rightarrow> panic + int" where
  "spsFrameRate s =
     (case VUI s of
        None \<Rightarrow> Inr 0
      | Some None \<Rightarrow> Inr 0
      | Some (Some ti) \<Rightarrow>
          if NumUnitsInTick ti = 0 then Inr 0
          else if 2 * NumUnitsInTick ti = 0 then Inl DivideByZero
          else let fps = uint (TimeScale ti div (2 * NumUnitsInTick ti))
               in Inr (if fps \<le> 0 \<or> fps > 240 then 0 else fps))"

definition frame_mbs :: "SPS \<Rightarrow> int" where
  "frame_mbs s =
     (let f = wrap64 ((uint (PicWidthInMbsMinus1 s) + 1) * (uint (PicHeightInMapUnitsMinus1 s) + 1))
      in if \<not> FrameMbsOnlyFlag s then wrap64 (f * 2) else f)"

definition ClampSPSLevel :: "(nalu \<Rightarrow> SPS option) \<Rightarrow> nalu \<Rightarrow> panic + nalu" where
  "ClampSPSLevel unmarshal sps =
     (if length sps < 4 then Inr sps
      else case unmarshal sps of
        None \<Rightarrow> Inr sps
      | Some parsed \<Rightarrow>
          (case spsFrameRate parsed of
             Inl p \<Rightarrow> Inl p
           | Inr fps \<Rightarrow>
               if fps \<le> 0 then Inr sps
               else if frame_mbs parsed \<le> 0 then Inr sps
               else let minLevel = minH264Level (frame_mbs parsed) fps (uint (MaxNumRefFrames parsed))
                    in if sps ! 3 \<le> minLevel then Inr sps else Inr (sps[3 := minLevel])))"


section \<open>Levels a stream needs\<close>

text \<open>The macroblocks of a coded frame and the limits of Table A-1, over unbounded integers.\<close>

definition stream_mbs :: "SPS \<Rightarrow> int" where
  "stream_mbs s = (uint (PicWidthInMbsMinus1 s) + 1) * (uint (PicHeightInMapUnitsMinus1 s) + 1) *
     (if FrameMbsOnlyFlag s then 1 else 2)"

definition stream_fits :: "SPS \<Rightarrow> int \<Rightarrow> h264LevelLimit \<Rightarrow> bool" where
  "stream_fits s fps l \<longleftrightarrow>
     stream_mbs s \<le> maxFS l \<and> stream_mbs s * fps \<le> maxMBPS l \<and>
     max 1 (uint (MaxNumRefFrames s)) * stream_mbs s \<le> maxDpbMbs l"

lemma levels_bounded: "l \<in> set h264LevelLimits \<Longrightarrow> maxFS l \<le> 139264"
  by (auto simp: h264LevelLimits_def level_row_def)

lemma levels_ascending: "sorted (map (uint \<circ> idc) h264LevelLimits)"
  by (simp add: h264LevelLimits_def level_row_def)

lemma find_sorted_least:
  fixes f :: "'a \<Rightarrow> 'b::linorder"
  assumes "sorted (map f xs)" and "find P xs = Some x"
  shows "x \<in> set xs \<and> P x \<and> (\<forall>y\<in>set xs. P y \<longrightarrow> f x \<le> f y)"
  using assms by (induction xs) (auto split: if_splits)

lemma product_in64:
  assumes "0 < (n :: int)" and "n \<le> 139264" and "0 \<le> k" and "k < 2 ^ 33"
  shows "wrap64 (k * n) = k * n"
proof -
  have "k * n \<le> 2 ^ 33 * 139264" using assms by (intro mult_mono) auto
  moreover have "0 \<le> k * n" using assms(1,3) by simp
  ultimately have "in64 (k * n)" by (simp add: in64_def)
  then show ?thesis by simp
qed

lemma frame_mbs_exact: "stream_mbs s < 2 ^ 63 \<Longrightarrow> frame_mbs s = stream_mbs s"
proof -
  assume a: "stream_mbs s < 2 ^ 63"
  define f where "f = (uint (PicWidthInMbsMinus1 s) + 1) * (uint (PicHeightInMapUnitsMinus1 s) + 1)"
  have pos: "0 < f" unfolding f_def by (intro mult_pos_pos) (simp_all add: add_nonneg_pos)
  have eq: "stream_mbs s = f * (if FrameMbsOnlyFlag s then 1 else 2)" by (simp add: stream_mbs_def f_def)
  have "f < 2 ^ 63" using a pos by (simp add: eq split: if_splits)
  then have "wrap64 f = f" using pos by (intro wrap64_id) (simp add: in64_def)
  moreover have "\<not> FrameMbsOnlyFlag s \<Longrightarrow> wrap64 (f * 2) = f * 2"
    using a pos by (intro wrap64_id) (simp add: in64_def eq)
  ultimately show ?thesis by (simp add: frame_mbs_def eq f_def[symmetric] Let_def)
qed

lemma level_fits_exact:
  assumes "l \<in> set h264LevelLimits" and "stream_mbs s < 2 ^ 63" and "0 < stream_mbs s" and "0 < fps" and "fps \<le> 240"
  shows "level_fits (frame_mbs s) fps (if uint (MaxNumRefFrames s) < 1 then 1 else uint (MaxNumRefFrames s)) l =
     stream_fits s fps l"
proof (cases "stream_mbs s \<le> maxFS l")
  case True
  then have n: "stream_mbs s \<le> 139264" using levels_bounded[OF assms(1)] by simp
  have "uint (MaxNumRefFrames s) < 2 ^ 32" using uint_lt2p[of "MaxNumRefFrames s"] by simp
  then have r: "max 1 (uint (MaxNumRefFrames s)) < 2 ^ 33" by simp
  have w1: "wrap64 (stream_mbs s * fps) = stream_mbs s * fps"
    using product_in64[OF assms(3) n, of fps] assms(4,5) by (simp add: mult.commute)
  have w2: "wrap64 (max 1 (uint (MaxNumRefFrames s)) * stream_mbs s) = max 1 (uint (MaxNumRefFrames s)) * stream_mbs s"
    using product_in64[OF assms(3) n _ r] by simp
  have m: "(if uint (MaxNumRefFrames s) < 1 then 1 else uint (MaxNumRefFrames s)) = max 1 (uint (MaxNumRefFrames s))"
    by (simp add: max_def)
  show ?thesis unfolding m level_fits_def stream_fits_def frame_mbs_exact[OF assms(2)] w1 w2 by blast
next
  case False
  then show ?thesis by (simp add: level_fits_def stream_fits_def frame_mbs_exact[OF assms(2)])
qed

lemma minH264Level_least:
  assumes "stream_mbs s < 2 ^ 63" and "0 < stream_mbs s" and "0 < fps" and "fps \<le> 240"
    and m: "m = minH264Level (frame_mbs s) fps (uint (MaxNumRefFrames s))"
  shows "(\<forall>l\<in>set h264LevelLimits. stream_fits s fps l \<longrightarrow> m \<le> idc l) \<and>
     ((\<exists>l\<in>set h264LevelLimits. stream_fits s fps l) \<longrightarrow> (\<exists>l\<in>set h264LevelLimits. idc l = m \<and> stream_fits s fps l))"
proof -
  let ?P = "level_fits (frame_mbs s) fps (if uint (MaxNumRefFrames s) < 1 then 1 else uint (MaxNumRefFrames s))"
  have ex: "?P l = stream_fits s fps l" if "l \<in> set h264LevelLimits" for l
    by (rule level_fits_exact[OF that assms(1-4)])
  show ?thesis
  proof (cases "find ?P h264LevelLimits")
    case None
    then have "\<not> (\<exists>l\<in>set h264LevelLimits. stream_fits s fps l)" using ex by (auto simp: find_None_iff)
    then show ?thesis by blast
  next
    case (Some l)
    then have "m = idc l" using m by (simp add: minH264Level_def Let_def)
    moreover have "l \<in> set h264LevelLimits \<and> ?P l \<and> (\<forall>y\<in>set h264LevelLimits. ?P y \<longrightarrow> (uint \<circ> idc) l \<le> (uint \<circ> idc) y)"
      by (rule find_sorted_least[OF levels_ascending Some])
    ultimately show ?thesis using ex by (auto simp: word_le_def)
  qed
qed

text \<open>
  When \<^verbatim>\<open>ClampSPSLevel\<close> changes an SPS it changes the level byte only and lowers it: to a level
  whose limits on frame size, macroblock rate and decode buffer the stream keeps, if the table has
  one, and no level the stream fits is lower.  So the level is never set below what the
  bitstream needs (the frame size must be one that 64 bits can count).
\<close>

theorem clamped_level_is_least:
  assumes "ClampSPSLevel unmarshal sps = Inr out" and "out \<noteq> sps" and "unmarshal sps = Some s"
    and "stream_mbs s < 2 ^ 63"
  shows "out = sps[3 := out ! 3] \<and> out ! 3 < sps ! 3 \<and>
     (\<exists>fps. spsFrameRate s = Inr fps \<and> 0 < fps \<and>
        (\<forall>l\<in>set h264LevelLimits. stream_fits s fps l \<longrightarrow> out ! 3 \<le> idc l) \<and>
        ((\<exists>l\<in>set h264LevelLimits. stream_fits s fps l) \<longrightarrow>
           (\<exists>l\<in>set h264LevelLimits. idc l = out ! 3 \<and> stream_fits s fps l)))"
proof -
  obtain fps where fps: "spsFrameRate s = Inr fps" "0 < fps"
    and pos: "0 < frame_mbs s" and len: "4 \<le> length sps"
    and out: "out = sps[3 := minH264Level (frame_mbs s) fps (uint (MaxNumRefFrames s))]"
    and gt: "\<not> sps ! 3 \<le> minH264Level (frame_mbs s) fps (uint (MaxNumRefFrames s))"
    using assms(1-3) by (auto simp: ClampSPSLevel_def Let_def split: sum.splits if_splits)
  have le: "fps \<le> 240" using fps(1) by (auto simp: spsFrameRate_def Let_def split: option.splits if_splits)
  have o3: "out ! 3 = minH264Level (frame_mbs s) fps (uint (MaxNumRefFrames s))" using out len by simp
  have "0 < stream_mbs s" using pos by (simp add: frame_mbs_exact[OF assms(4)])
  note least = minH264Level_least[OF assms(4) this fps(2) le o3]
  moreover have "out = sps[3 := out ! 3]" using out o3 by simp
  moreover have "out ! 3 < sps ! 3" using gt o3 by simp
  ultimately show ?thesis using fps by blast
qed

definition vga_sps :: SPS where
  "vga_sps = \<lparr>PicWidthInMbsMinus1 = 39, PicHeightInMapUnitsMinus1 = 29, FrameMbsOnlyFlag = True, MaxNumRefFrames = 1,
     VUI = Some (Some \<lparr>NumUnitsInTick = 1, TimeScale = 50\<rparr>)\<rparr>"

theorem clamped_level_is_least_witness:
  "ClampSPSLevel (\<lambda>_. Some vga_sps) [0x67, 100, 0, 51] = Inr [0x67, 100, 0, 30] \<and>
   {l \<in> set h264LevelLimits. stream_fits vga_sps 25 l} \<subseteq> {l. 30 \<le> idc l}"
proof -
  have c: "ClampSPSLevel (\<lambda>_. Some vga_sps) [0x67, 100, 0, 51] = Inr [0x67, 100, 0, 30]" by code_simp
  have r: "spsFrameRate vga_sps = Inr 25" by code_simp
  have m: "stream_mbs vga_sps < 2 ^ 63" by code_simp
  show ?thesis using clamped_level_is_least[OF c _ refl m] c r by auto
qed

text \<open>
  An SPS that declares 2147483648 units per tick makes the divisor of \<^verbatim>\<open>spsFrameRate\<close>, a 32-bit
  product, zero: \<^verbatim>\<open>ClampSPSLevel\<close> then panics instead of returning its input unchanged, and this
  is the only way it can.
\<close>

theorem clamp_panics_on_tick_overflow:
  "ClampSPSLevel unmarshal sps = Inl e \<longleftrightarrow>
     4 \<le> length sps \<and> (\<exists>s ti. unmarshal sps = Some s \<and> VUI s = Some (Some ti) \<and> NumUnitsInTick ti = 2 ^ 31)"
proof -
  have w: "n \<noteq> 0 \<and> 2 * n = 0 \<longleftrightarrow> n = 2 ^ 31" for n :: "32 word"
  proof
    assume n: "n \<noteq> 0 \<and> 2 * n = 0"
    have "unat (2 * n) = (2 * unat n) mod 2 ^ 32" by (simp add: unat_mult_lem unat_word_ariths)
    then have "(2 * unat n) mod 2 ^ 32 = 0" using n by simp
    moreover have "0 < unat n" "unat n < 2 ^ 32" using n unsigned_less[of n] by (auto simp: unat_gt_0)
    ultimately have "unat n = 2 ^ 31" by (auto simp: mod_eq_0_iff_dvd dvd_def)
    then show "n = 2 ^ 31" by (simp add: word_unat_eq_iff)
  qed simp
  have "e = DivideByZero" by (cases e) simp
  then show ?thesis using w
    by (auto simp: ClampSPSLevel_def spsFrameRate_def Let_def split: sum.splits option.splits if_splits)
qed


section \<open>Agreement of the transports\<close>

lemma DropSEI_filter: "DropSEI au = filter (\<lambda>n. \<not> isType n NALUTypeSEI) au"
  by (auto simp: DropSEI_def list_ex_iff intro!: filter_True[symmetric])

lemma sei_no_parameter_set: "isType n NALUTypeSEI \<Longrightarrow> \<not> isType n NALUTypeSPS \<and> \<not> isType n NALUTypePPS"
  by (auto simp: isType_def NALUTypeSEI_def NALUTypeSPS_def NALUTypePPS_def)

lemma track_loop_skip:
  "(\<And>n. skip n \<Longrightarrow> \<not> isType n NALUTypeSPS \<and> \<not> isType n NALUTypePPS) \<Longrightarrow>
     track_loop (filter (\<lambda>n. \<not> skip n) au) st = track_loop au st"
  by (induction au st rule: track_loop.induct) auto

lemma track_loop_agrees:
  "(\<And>n. n \<in> set au \<Longrightarrow> isType n NALUTypeSPS \<Longrightarrow> n = sps) \<Longrightarrow>
     fst (track_loop au (sps, pps, ch)) = sps \<and> snd (snd (track_loop au (sps, pps, ch))) = ch"
  by (induction au arbitrary: pps) auto

lemma replaced_sps: "mux \<noteq> [] \<Longrightarrow> n \<in> set (ReplaceSPS au mux) \<Longrightarrow> isType n NALUTypeSPS \<Longrightarrow> n = mux"
  by (auto simp: ReplaceSPS_def isType_def split: if_splits)

text \<open>
  Every transport sees the same stream: dropping SEI keeps all other units in order and never
  changes the parameter sets that are tracked, and after the SPS of the init segment has
  been put in, tracking the unit reports no further change of it, so an init segment is not rebuilt
  for the unit it was built from.
\<close>

theorem normalized_unit_agrees:
  assumes "muxSPS \<noteq> []"
  shows "DropSEI au = filter (\<lambda>n. \<not> isType n NALUTypeSEI) au \<and>
     TrackParameterSets (DropSEI au) sps pps = TrackParameterSets au sps pps \<and>
     fst (TrackParameterSets (ReplaceSPS (DropSEI au) muxSPS) muxSPS pps) = muxSPS \<and>
     \<not> snd (snd (TrackParameterSets (ReplaceSPS (DropSEI au) muxSPS) muxSPS pps))"
proof -
  have "TrackParameterSets (DropSEI au) sps pps = TrackParameterSets au sps pps"
    unfolding DropSEI_filter TrackParameterSets_def by (rule track_loop_skip[OF sei_no_parameter_set])
  moreover have "fst (TrackParameterSets (ReplaceSPS (DropSEI au) muxSPS) muxSPS pps) = muxSPS \<and>
      snd (snd (TrackParameterSets (ReplaceSPS (DropSEI au) muxSPS) muxSPS pps)) = False"
    unfolding TrackParameterSets_def by (rule track_loop_agrees) (rule replaced_sps[OF assms])
  ultimately show ?thesis using DropSEI_filter by blast
qed

theorem normalized_unit_agrees_witness:
  "TrackParameterSets (ReplaceSPS (DropSEI [[6, 1], [0x67, 100, 0, 51], [0x68, 1], [0x65, 9]]) [0x67, 100, 0, 30])
     [0x67, 100, 0, 30] [] = ([0x67, 100, 0, 30], [0x68, 1], False)"
proof -
  let ?au = "[[6, 1], [0x67, 100, 0, 51], [0x68, 1], [0x65, 9]] :: access_unit"
  have "fst (snd (TrackParameterSets (ReplaceSPS (DropSEI ?au) [0x67, 100, 0, 30]) [0x67, 100, 0, 30] [])) = [0x68, 1]"
    by code_simp
  then show ?thesis using normalized_unit_agrees[of "[0x67, 100, 0, 30]" ?au "[]" "[]"]
    by (auto simp: prod_eq_iff)
qed

end
