(* ===== verification/Mp4_Boxes.thy ===== *)
theory Mp4_Boxes
  imports Go_Float H264_Units
begin

text \<open>
  The byte level of \<^verbatim>\<open>internal/media/mp4reader.go\<close>: walking the boxes of an MP4 file, reading its
  duration, patching the sequence number and the decode times of a fragment in place, and
  removing parameter sets from samples.  A file or a buffer is a list of bytes; every slice the code
  takes is written out with its bounds.
\<close>

section \<open>Bytes\<close>

type_synonym bytes = "8 word list"

definition be :: "bytes \<Rightarrow> int" where
  "be xs = foldl (\<lambda>acc b. acc * 256 + uint b) 0 xs"

fun put_be :: "nat \<Rightarrow> int \<Rightarrow> bytes" where
  "put_be 0 v = []"
| "put_be (Suc n) v = put_be n (v div 256) @ [word_of_int v]"

definition bslice :: "bytes \<Rightarrow> nat \<Rightarrow> nat \<Rightarrow> bytes" where
  "bslice data i j = take (j - i) (drop i data)"

text \<open>Writing into a buffer in place.\<close>

definition put_at :: "nat \<Rightarrow> bytes \<Rightarrow> bytes \<Rightarrow> bytes" where
  "put_at i xs data = take i data @ xs @ drop (i + length xs) data"

definition fourcc :: "string \<Rightarrow> bytes" where
  "fourcc s = map of_char s"

section \<open>Patching a fragment\<close>

text \<open>The first loop of \<open>patchTraf\<close>: the track of the traf.\<close>

function traf_track :: "bytes \<Rightarrow> nat \<Rightarrow> int \<Rightarrow> int" where
  "traf_track data i trackID =
     (if i + 8 \<le> length data then
        let boxSize = nat (be (bslice data i (i + 4))); boxType = bslice data (i + 4) (i + 8)
        in if boxSize < 8 \<or> i + boxSize > length data then trackID
           else traf_track data (i + boxSize)
                  (if boxType = fourcc ''tfhd'' \<and> boxSize \<ge> 16 then be (bslice data (i + 12) (i + 16)) else trackID)
      else trackID)"
  by pat_completeness auto
termination by (relation "measure (\<lambda>(data, i, _). length data - i)") auto

declare traf_track.simps [simp del]

function patch_tfdt_loop :: "int \<Rightarrow> bytes \<Rightarrow> nat \<Rightarrow> bytes" where
  "patch_tfdt_loop baseTime data i =
     (if i + 8 \<le> length data then
        let boxSize = nat (be (bslice data i (i + 4))); boxType = bslice data (i + 4) (i + 8)
        in if boxSize < 8 \<or> i + boxSize > length data then data
           else
             let data' = (if boxType = fourcc ''tfdt'' \<and> boxSize \<ge> 16 then
                            if data ! (i + 8) = 0 then put_at (i + 12) (put_be 4 baseTime) data
                            else if boxSize \<ge> 20 then put_at (i + 12) (put_be 8 baseTime) data
                            else data
                          else data)
             in patch_tfdt_loop baseTime data' (i + boxSize)
      else data)"
  by pat_completeness auto

lemma length_put_be [simp]: "length (put_be n v) = n"
  by (induction n arbitrary: v) auto

lemma length_put_at: "i + length xs \<le> length data \<Longrightarrow> length (put_at i xs data) = length data"
  by (simp add: put_at_def)

termination patch_tfdt_loop
  by (relation "measure (\<lambda>(_, data, i). length data - i)") (auto simp: length_put_at Let_def)

declare patch_tfdt_loop.simps [simp del]

definition patchTraf :: "bytes \<Rightarrow> (int \<rightharpoonup> int) \<Rightarrow> bytes" where
  "patchTraf data baseTimes =
     (case baseTimes (traf_track data 0 0) of
        None \<Rightarrow> data
      | Some baseTime \<Rightarrow> patch_tfdt_loop baseTime data 0)"

text \<open>\<open>patchTraf\<close> works on a slice of the moof, which shares its bytes.\<close>

function patch_moof_loop :: "int \<Rightarrow> (int \<rightharpoonup> int) \<Rightarrow> bytes \<Rightarrow> nat \<Rightarrow> bytes" where
  "patch_moof_loop seqNum baseTimes data i =
     (if i + 8 \<le> length data then
        let boxSize = nat (be (bslice data i (i + 4))); boxType = bslice data (i + 4) (i + 8)
        in if boxSize < 8 \<or> i + boxSize > length data then data
           else
             let data' = (if boxType = fourcc ''mfhd'' then
                            if boxSize \<ge> 16 then put_at (i + 12) (put_be 4 seqNum) data else data
                          else if boxType = fourcc ''traf'' then
                            put_at (i + 8) (patchTraf (bslice data (i + 8) (i + boxSize)) baseTimes) data
                          else data)
             in patch_moof_loop seqNum baseTimes data' (i + boxSize)
      else data)"
  by pat_completeness auto

lemma length_patch_tfdt_loop [simp]: "length (patch_tfdt_loop t data i) = length data"
proof (induction t data i rule: patch_tfdt_loop.induct)
  case (1 t data i)
  show ?case by (subst patch_tfdt_loop.simps) (use 1 in \<open>auto simp: Let_def length_put_at\<close>)
qed

lemma length_patchTraf [simp]: "length (patchTraf data baseTimes) = length data"
  by (simp add: patchTraf_def split: option.split)

termination patch_moof_loop
  by (relation "measure (\<lambda>(_, _, data, i). length data - i)") (auto simp: length_put_at bslice_def Let_def)

definition patchMoof :: "bytes \<Rightarrow> int \<Rightarrow> (int \<rightharpoonup> int) \<Rightarrow> bytes" where
  "patchMoof data seqNum baseTimes = patch_moof_loop seqNum baseTimes data 8"

declare patch_moof_loop.simps [simp del]

section \<open>Parameter sets in samples\<close>

definition nal_type :: "8 word \<Rightarrow> 8 word" where
  "nal_type b = b AND 0x1F"

function strip_loop :: "bytes \<Rightarrow> nat \<Rightarrow> bytes \<Rightarrow> bytes" where
  "strip_loop payload pos cleaned =
     (if pos + 4 < length payload then
        let nalLen = nat (be (bslice payload pos (pos + 4)))
        in if pos + 4 + nalLen > length payload then cleaned
           else
             let t = nal_type (payload ! (pos + 4))
             in strip_loop payload (pos + 4 + nalLen)
                  (if t \<noteq> 7 \<and> t \<noteq> 8 then cleaned @ bslice payload pos (pos + 4 + nalLen) else cleaned)
      else cleaned)"
  by pat_completeness auto
termination by (relation "measure (\<lambda>(payload, pos, _). length payload - pos)") auto

declare strip_loop.simps [simp del]

definition strip_sample :: "bytes \<Rightarrow> bytes" where
  "strip_sample payload =
     (if length payload < 5 then payload
      else
        let t = nal_type (payload ! 4)
        in if t \<noteq> 7 \<and> t \<noteq> 8 then payload
           else let cleaned = strip_loop payload 0 [] in if cleaned \<noteq> [] then cleaned else payload)"

definition stripInBandParamSets :: "bytes list \<Rightarrow> bytes list" where
  "stripInBandParamSets samples = map strip_sample samples"

section \<open>The init segment of a recording\<close>

datatype mp4_error = ErrRead | ErrSeek | ErrBoxSizeZero | ErrMvhdNotFound | ErrInvalidInitBox | ErrInitTooLarge
  | ErrUnmarshal | ErrNoStructure

definition max_init :: nat where "max_init = 8388608"

function init_loop :: "(bytes \<Rightarrow> 'i option) \<Rightarrow> bytes \<Rightarrow> nat \<Rightarrow> mp4_error + 'i \<times> nat" where
  "init_loop unmarshal file offset =
     (if offset < max_init then
        if offset + 8 > length file then Inl ErrRead
        else
          let size32 = be (bslice file offset (offset + 4))
          in if size32 = 1 \<and> offset + 16 > length file then Inl ErrRead
             else
               let size = nat (if size32 = 1 then be (bslice file (offset + 8) (offset + 16)) else size32);
                   minSize = (if size32 = 1 then 16 else 8)
               in if size < minSize \<or> size > max_init - offset then Inl ErrInvalidInitBox
                  else if bslice file (offset + 4) (offset + 8) = fourcc ''moov'' then
                    (case unmarshal (take (offset + size) file) of
                       None \<Rightarrow> Inl ErrUnmarshal
                     | Some i \<Rightarrow> Inr (i, offset + size))
                  else init_loop unmarshal file (offset + size)
      else Inl ErrInitTooLarge)"
  by pat_completeness auto
termination by (relation "measure (\<lambda>(_, _, offset). max_init - offset)") (auto split: if_splits)

declare init_loop.simps [simp del]

definition readRecordingInit :: "(bytes \<Rightarrow> 'i option) \<Rightarrow> bytes \<Rightarrow> mp4_error + 'i \<times> nat" where
  "readRecordingInit unmarshal file = init_loop unmarshal file 0"

section \<open>Durations\<close>

text \<open>
  A file is read at a position that a seek may move beyond its end, but not below zero or beyond
  the range of the file offset.
\<close>

definition read_full :: "bytes \<Rightarrow> int \<Rightarrow> nat \<Rightarrow> bytes option" where
  "read_full file pos n =
     (if 0 \<le> pos \<and> pos + int n \<le> int (length file) then Some (bslice file (nat pos) (nat pos + n)) else None)"

definition seek :: "int \<Rightarrow> int \<Rightarrow> int option" where
  "seek pos delta = (if 0 \<le> pos + delta \<and> pos + delta < 2 ^ 63 then Some (pos + delta) else None)"

text \<open>
  \<^verbatim>\<open>time.Duration(float64(ticks) / float64(scale) * float64(time.Second))\<close>.  What the conversion gives
  outside the range of the integer type is left to the implementation: the argument \<open>oor\<close>.
\<close>

definition seconds_duration :: "(float64 \<Rightarrow> int) \<Rightarrow> int \<Rightarrow> int \<Rightarrow> duration" where
  "seconds_duration oor ticks scale =
     (let x = fmul (fdiv (float_of_int ticks) (float_of_int scale)) (float_of_int Second);
          t = (if x < 0 then - \<lfloor>- x\<rfloor> else \<lfloor>x\<rfloor>)
      in if in64 t then t else oor x)"

definition parseMvhd :: "(float64 \<Rightarrow> int) \<Rightarrow> bytes \<Rightarrow> int \<Rightarrow> mp4_error + duration" where
  "parseMvhd oor file pos =
     (case read_full file pos 4 of
        None \<Rightarrow> Inl ErrRead
      | Some vf \<Rightarrow>
          if hd vf = 0 then
            (case read_full file (pos + 4) 16 of
               None \<Rightarrow> Inl ErrRead
             | Some buf \<Rightarrow>
                 let timescale = be (bslice buf 8 12); dur = be (bslice buf 12 16)
                 in Inr (if timescale = 0 then 0 else seconds_duration oor dur timescale))
          else
            (case read_full file (pos + 4) 28 of
               None \<Rightarrow> Inl ErrRead
             | Some buf \<Rightarrow>
                 let timescale = be (bslice buf 16 20); dur = be (bslice buf 20 28)
                 in Inr (if timescale = 0 then 0 else seconds_duration oor dur timescale)))"

text \<open>The payload size a box header declares, and where its payload starts.\<close>

definition payload_size :: "bytes \<Rightarrow> int \<Rightarrow> bytes \<Rightarrow> (int \<times> int) option" where
  "payload_size file pos hdr =
     (if be (take 4 hdr) = 1 then
        (case read_full file (pos + 8) 8 of
           None \<Rightarrow> None
         | Some ext \<Rightarrow> Some (wrap64 (wrap64 (be ext) - 16), pos + 16))
      else Some (be (take 4 hdr) - 8, pos + 8))"

partial_function (option) find_mvhd_loop :: "(float64 \<Rightarrow> int) \<Rightarrow> bytes \<Rightarrow> int \<Rightarrow> int \<Rightarrow> (mp4_error + duration) option" where
  "find_mvhd_loop oor file fin pos =
     (if pos \<ge> fin then Some (Inl ErrMvhdNotFound)
      else case read_full file pos 8 of
        None \<Rightarrow> Some (Inl ErrRead)
      | Some hdr \<Rightarrow>
          (case payload_size file pos hdr of
             None \<Rightarrow> Some (Inl ErrRead)
           | Some (sz, start) \<Rightarrow>
               if drop 4 hdr = fourcc ''mvhd'' then Some (parseMvhd oor file start)
               else case seek start sz of
                      None \<Rightarrow> Some (Inl ErrSeek)
                    | Some pos' \<Rightarrow> find_mvhd_loop oor file fin pos'))"

definition findMvhdDuration :: "(float64 \<Rightarrow> int) \<Rightarrow> bytes \<Rightarrow> int \<Rightarrow> int \<Rightarrow> (mp4_error + duration) option" where
  "findMvhdDuration oor file moovSize pos = find_mvhd_loop oor file (wrap64 (pos + moovSize)) pos"

partial_function (option) probe_loop :: "(float64 \<Rightarrow> int) \<Rightarrow> bytes \<Rightarrow> int \<Rightarrow> (mp4_error + duration) option" where
  "probe_loop oor file pos =
     (case read_full file pos 8 of
        None \<Rightarrow> Some (Inl ErrRead)
      | Some hdr \<Rightarrow>
          if be (take 4 hdr) = 0 then Some (Inl ErrBoxSizeZero)
          else case payload_size file pos hdr of
             None \<Rightarrow> Some (Inl ErrRead)
           | Some (sz, start) \<Rightarrow>
               if drop 4 hdr = fourcc ''moov'' then findMvhdDuration oor file sz start
               else case seek start sz of
                      None \<Rightarrow> Some (Inl ErrSeek)
                    | Some pos' \<Rightarrow> probe_loop oor file pos')"

definition probeMoovDuration :: "(float64 \<Rightarrow> int) \<Rightarrow> bytes \<Rightarrow> (mp4_error + duration) option" where
  "probeMoovDuration oor file = probe_loop oor file 0"

section \<open>What patching does to well-formed boxes\<close>

lemma be_snoc: "be (xs @ [b]) = be xs * 256 + uint b"
  by (simp add: be_def)

lemma be_put_be: "be (put_be n v) = v mod 256 ^ n"
proof (induction n arbitrary: v)
  case (Suc n)
  have "be (put_be (Suc n) v) = (v div 256) mod 256 ^ n * 256 + v mod 256"
    by (simp add: be_snoc Suc.IH uint_word_of_int)
  also have "\<dots> = v mod 256 ^ Suc n" using zmod_zmult2_eq[of "256 ^ n" v 256] by (simp add: mult.commute)
  finally show ?case .
qed (simp add: be_def)

text \<open>A box whose size field is its length.\<close>

definition box_ok :: "bytes \<Rightarrow> bool" where
  "box_ok b \<longleftrightarrow> 8 \<le> length b \<and> be (take 4 b) = int (length b)"

definition box_type :: "bytes \<Rightarrow> bytes" where
  "box_type b = bslice b 4 8"

lemma slice_skip: "bslice (pre @ rest) (length pre + i) (length pre + j) = bslice rest i j"
  by (simp add: bslice_def)

lemma slice_append: "j \<le> length b \<Longrightarrow> bslice (b @ rest) i j = bslice b i j"
  by (cases "i \<le> j") (simp_all add: bslice_def)

lemma put_skip: "put_at (length pre + i) xs (pre @ rest) = pre @ put_at i xs rest"
  by (simp add: put_at_def ac_simps)

lemma put_append: "i + length xs \<le> length b \<Longrightarrow> put_at i xs (b @ rest) = put_at i xs b @ rest"
  by (simp add: put_at_def)

text \<open>What a loop that stands at the start of a well-formed box reads there.\<close>

lemma box_reads:
  assumes "box_ok b"
  shows "length pre + 8 \<le> length (pre @ b @ rest)" and "nat (be (bslice (pre @ b @ rest) (length pre) (length pre + 4))) = length b"
    and "bslice (pre @ b @ rest) (length pre + 4) (length pre + 8) = box_type b"
    and "\<not> (length b < 8 \<or> length pre + length b > length (pre @ b @ rest))"
    and "j \<le> length b \<Longrightarrow> bslice (pre @ b @ rest) (length pre + i) (length pre + j) = bslice b i j"
    and "k < length b \<Longrightarrow> (pre @ b @ rest) ! (length pre + k) = b ! k"
    and "k + length xs \<le> length b \<Longrightarrow> put_at (length pre + k) xs (pre @ b @ rest) = (pre @ put_at k xs b) @ rest"
proof -
  note ok = assms[unfolded box_ok_def]
  show "length pre + 8 \<le> length (pre @ b @ rest)" "\<not> (length b < 8 \<or> length pre + length b > length (pre @ b @ rest))"
    using ok by simp_all
  show sl: "bslice (pre @ b @ rest) (length pre + i) (length pre + j) = bslice b i j" if "j \<le> length b" for i j
    using that by (simp only: slice_skip slice_append)
  show "nat (be (bslice (pre @ b @ rest) (length pre) (length pre + 4))) = length b"
    using sl[of 4 0] ok by (simp add: bslice_def)
  show "bslice (pre @ b @ rest) (length pre + 4) (length pre + 8) = box_type b" using sl[of 8 4] ok by (simp add: box_type_def)
  show "(pre @ b @ rest) ! (length pre + k) = b ! k" if "k < length b" using that by (simp add: nth_append)
  show "put_at (length pre + k) xs (pre @ b @ rest) = (pre @ put_at k xs b) @ rest" if "k + length xs \<le> length b"
    using that by (simp add: put_skip put_append)
qed

text \<open>The track a list of boxes names: that of the last tfhd.\<close>

definition tfhd_track :: "bytes \<Rightarrow> int \<Rightarrow> int" where
  "tfhd_track b acc = (if box_type b = fourcc ''tfhd'' \<and> 16 \<le> length b then be (bslice b 12 16) else acc)"

definition patch_tfdt :: "int \<Rightarrow> bytes \<Rightarrow> bytes" where
  "patch_tfdt t b =
     (if box_type b = fourcc ''tfdt'' \<and> 16 \<le> length b then
        if b ! 8 = 0 then put_at 12 (put_be 4 t) b else if 20 \<le> length b then put_at 12 (put_be 8 t) b else b
      else b)"

lemma length_patch_tfdt [simp]: "length (patch_tfdt t b) = length b"
  by (simp add: patch_tfdt_def length_put_at)

lemma traf_track_boxes:
  "list_all box_ok bs \<Longrightarrow> traf_track (pre @ concat bs) (length pre) acc = fold tfhd_track bs acc"
proof (induction bs arbitrary: pre acc)
  case Nil
  then show ?case by (subst traf_track.simps) simp
next
  case (Cons b bs)
  then have b: "box_ok b" and bs: "list_all box_ok bs" by simp_all
  note r = box_reads[OF b, where pre = pre and rest = "concat bs"]
  have "traf_track (pre @ b @ concat bs) (length pre) acc = traf_track (pre @ b @ concat bs) (length pre + length b) (tfhd_track b acc)"
    using r(1,4) r(5)[where i = 12 and j = 16] by (subst traf_track.simps) (simp add: r(2,3) Let_def tfhd_track_def)
  also have "\<dots> = fold tfhd_track bs (tfhd_track b acc)" using Cons.IH[OF bs, of "pre @ b" "tfhd_track b acc"] by simp
  finally show ?case by simp
qed

lemma patch_tfdt_loop_boxes:
  "list_all box_ok bs \<Longrightarrow> patch_tfdt_loop t (pre @ concat bs) (length pre) = pre @ concat (map (patch_tfdt t) bs)"
proof (induction bs arbitrary: pre)
  case Nil
  then show ?case by (subst patch_tfdt_loop.simps) simp
next
  case (Cons b bs)
  then have b: "box_ok b" and bs: "list_all box_ok bs" by simp_all
  note r = box_reads[OF b, where pre = pre and rest = "concat bs"]
  have 8: "8 < length b" if "16 \<le> length b" using that by simp
  have "patch_tfdt_loop t (pre @ b @ concat bs) (length pre) = patch_tfdt_loop t ((pre @ patch_tfdt t b) @ concat bs) (length pre + length b)"
    using r(1,4) r(6)[where k = 8] r(7)[where k = 12 and xs = "put_be 4 t"] r(7)[where k = 12 and xs = "put_be 8 t"]
    by (subst patch_tfdt_loop.simps) (simp add: r(2,3) Let_def patch_tfdt_def)
  also have "\<dots> = (pre @ patch_tfdt t b) @ concat (map (patch_tfdt t) bs)" using Cons.IH[OF bs, of "pre @ patch_tfdt t b"] by simp
  finally show ?case by simp
qed

lemma patchTraf_boxes:
  "list_all box_ok bs \<Longrightarrow> patchTraf (concat bs) baseTimes =
     (case baseTimes (fold tfhd_track bs 0) of None \<Rightarrow> concat bs | Some t \<Rightarrow> concat (map (patch_tfdt t) bs))"
  using traf_track_boxes[of bs "[]" 0] patch_tfdt_loop_boxes[of bs _ "[]"] by (simp add: patchTraf_def split: option.split)

definition patch_child :: "int \<Rightarrow> (int \<rightharpoonup> int) \<Rightarrow> bytes \<Rightarrow> bytes" where
  "patch_child seqNum baseTimes b =
     (if box_type b = fourcc ''mfhd'' then if 16 \<le> length b then put_at 12 (put_be 4 seqNum) b else b
      else if box_type b = fourcc ''traf'' then take 8 b @ patchTraf (drop 8 b) baseTimes
      else b)"

lemma patch_moof_loop_boxes:
  "list_all box_ok bs \<Longrightarrow>
     patch_moof_loop seqNum baseTimes (pre @ concat bs) (length pre) = pre @ concat (map (patch_child seqNum baseTimes) bs)"
proof (induction bs arbitrary: pre)
  case Nil
  then show ?case by (subst patch_moof_loop.simps) simp
next
  case (Cons b bs)
  then have b: "box_ok b" and bs: "list_all box_ok bs" by simp_all
  note r = box_reads[OF b, where pre = pre and rest = "concat bs"]
  let ?p = "patch_child seqNum baseTimes b"
  have len: "length ?p = length b" using b by (auto simp: patch_child_def length_put_at box_ok_def)
  have traf: "put_at (length pre + 8) (patchTraf (drop 8 b) baseTimes) (pre @ b @ concat bs) = (pre @ take 8 b @ patchTraf (drop 8 b) baseTimes) @ concat bs"
    using r(7)[where k = 8 and xs = "patchTraf (drop 8 b) baseTimes"] b by (simp add: put_at_def box_ok_def)
  have sl: "bslice (pre @ b @ concat bs) (length pre + 8) (length pre + length b) = drop 8 b"
    using r(5)[where i = 8 and j = "length b"] by (simp add: bslice_def)
  have "patch_moof_loop seqNum baseTimes (pre @ b @ concat bs) (length pre)
      = patch_moof_loop seqNum baseTimes ((pre @ ?p) @ concat bs) (length pre + length b)"
    using r(1,4) r(7)[where k = 12 and xs = "put_be 4 seqNum"]
    by (subst patch_moof_loop.simps) (simp add: r(2,3) Let_def patch_child_def sl traf)
  also have "\<dots> = (pre @ ?p) @ concat (map (patch_child seqNum baseTimes) bs)" using Cons.IH[OF bs, of "pre @ ?p"] len by simp
  finally show ?case by simp
qed

text \<open>The fields of the boxes that the patch sets, read back.\<close>

definition mfhd_seq :: "bytes \<Rightarrow> int" where
  "mfhd_seq b = be (bslice b 12 16)"

definition tfdt_time :: "bytes \<Rightarrow> int" where
  "tfdt_time b = (if b ! 8 = 0 then be (bslice b 12 16) else be (bslice b 12 20))"

lemma put_at_slice: "i + length xs \<le> length b \<Longrightarrow> bslice (put_at i xs b) i (i + length xs) = xs"
  by (simp add: bslice_def put_at_def)

lemma patch_tfdt_time:
  assumes "box_type b = fourcc ''tfdt''" and "20 \<le> length b" and "0 \<le> t" and "t < 2 ^ 64"
  shows "tfdt_time (patch_tfdt t b) = (if b ! 8 = 0 then t mod 2 ^ 32 else t)"
proof -
  have "put_at 12 xs b ! 8 = b ! 8" for xs using assms(2) by (simp add: put_at_def nth_append)
  then show ?thesis using assms put_at_slice[of 12 "put_be 4 t" b] put_at_slice[of 12 "put_be 8 t" b]
    by (simp add: tfdt_time_def patch_tfdt_def be_put_be)
qed

text \<open>
  C30. Patching a fragment rewrites what it should and nothing else.  For a moof made
  of well-formed boxes, whose trafs are made of well-formed boxes: every mfhd gets the sequence number,
  every tfdt of a track with a new base time gets that time, and every other byte stays.
\<close>

theorem patchMoof_exact:
  assumes "length hdr = 8" and "list_all box_ok cs"
    and "\<And>c. c \<in> set cs \<Longrightarrow> box_type c = fourcc ''traf'' \<Longrightarrow> drop 8 c = concat (parts c) \<and> list_all box_ok (parts c)"
  shows "patchMoof (hdr @ concat cs) seqNum baseTimes = hdr @ concat (map (\<lambda>c.
     if box_type c = fourcc ''mfhd'' then if 16 \<le> length c then take 12 c @ put_be 4 seqNum @ drop 16 c else c
     else if box_type c = fourcc ''traf'' then take 8 c @ (case baseTimes (fold tfhd_track (parts c) 0) of
         None \<Rightarrow> drop 8 c
       | Some t \<Rightarrow> concat (map (patch_tfdt t) (parts c)))
     else c) cs)"
proof -
  have c: "patch_child seqNum baseTimes c = (if box_type c = fourcc ''mfhd'' then if 16 \<le> length c then take 12 c @ put_be 4 seqNum @ drop 16 c else c
     else if box_type c = fourcc ''traf'' then take 8 c @ (case baseTimes (fold tfhd_track (parts c) 0) of
         None \<Rightarrow> drop 8 c
       | Some t \<Rightarrow> concat (map (patch_tfdt t) (parts c)))
     else c)" if "c \<in> set cs" for c
    using assms(3)[OF that] patchTraf_boxes[of "parts c" baseTimes] by (auto simp: patch_child_def put_at_def split: option.split)
  have "patchMoof (hdr @ concat cs) seqNum baseTimes = hdr @ concat (map (patch_child seqNum baseTimes) cs)"
    using patch_moof_loop_boxes[OF assms(2), of seqNum baseTimes hdr] assms(1) by (simp add: patchMoof_def)
  also have "map (patch_child seqNum baseTimes) cs = map (\<lambda>c. if box_type c = fourcc ''mfhd'' then if 16 \<le> length c then take 12 c @ put_be 4 seqNum @ drop 16 c else c
     else if box_type c = fourcc ''traf'' then take 8 c @ (case baseTimes (fold tfhd_track (parts c) 0) of
         None \<Rightarrow> drop 8 c
       | Some t \<Rightarrow> concat (map (patch_tfdt t) (parts c)))
     else c) cs" by (rule map_cong[OF refl]) (rule c)
  finally show ?thesis .
qed

lemma length_patch_moof_loop: "length (patch_moof_loop seqNum baseTimes data i) = length data"
proof (induction seqNum baseTimes data i rule: patch_moof_loop.induct)
  case (1 seqNum baseTimes data i)
  show ?case by (subst patch_moof_loop.simps) (use 1 in \<open>auto simp: Let_def length_put_at bslice_def\<close>)
qed

definition sample_box :: "string \<Rightarrow> bytes \<Rightarrow> bytes" where
  "sample_box ty payload = put_be 4 (8 + int (length payload)) @ fourcc ty @ payload"

definition sample_parts :: "bytes list" where
  "sample_parts = [sample_box ''tfhd'' [0, 0, 0, 0, 0, 0, 0, 1], sample_box ''tfdt'' (1 # 0 # 0 # 0 # put_be 8 900000)]"

theorem patchMoof_exact_witness:
  "patchMoof (put_be 4 76 @ fourcc ''moof'' @ sample_box ''mfhd'' [0, 0, 0, 0, 0, 0, 0, 9] @ sample_box ''traf'' (concat sample_parts))
     1 [1 \<mapsto> 0] =
   put_be 4 76 @ fourcc ''moof'' @ sample_box ''mfhd'' [0, 0, 0, 0, 0, 0, 0, 1] @
     sample_box ''traf'' (concat [sample_box ''tfhd'' [0, 0, 0, 0, 0, 0, 0, 1], sample_box ''tfdt'' (1 # 0 # 0 # 0 # put_be 8 0)])"
proof -
  let ?m = "sample_box ''mfhd'' [0, 0, 0, 0, 0, 0, 0, 9]" and ?t = "sample_box ''traf'' (concat sample_parts)"
  have a: "length (put_be 4 76 @ fourcc ''moof'') = 8" by code_simp
  have b: "list_all box_ok [?m, ?t]" by code_simp
  have m: "box_type ?m = fourcc ''mfhd''" "16 \<le> length ?m" by code_simp+
  have t: "box_type ?t = fourcc ''traf''" "(fourcc ''traf'' = fourcc ''mfhd'') = False" by code_simp+
  have d: "drop 8 ?t = concat sample_parts" "list_all box_ok sample_parts" by code_simp+
  have c: "drop 8 c = concat sample_parts \<and> list_all box_ok sample_parts"
    if "c \<in> set [?m, ?t]" "box_type c = fourcc ''traf''" for c
    using that d m by (auto simp: fourcc_def)
  have f: "fold tfhd_track sample_parts 0 = 1" by code_simp
  have r: "take 12 ?m @ put_be 4 1 @ drop 16 ?m = sample_box ''mfhd'' [0, 0, 0, 0, 0, 0, 0, 1]"
    "take 8 ?t @ concat (map (patch_tfdt 0) sample_parts) =
     sample_box ''traf'' (concat [sample_box ''tfhd'' [0, 0, 0, 0, 0, 0, 0, 1], sample_box ''tfdt'' (1 # 0 # 0 # 0 # put_be 8 0)])"
    by code_simp+
  show ?thesis using patchMoof_exact[OF a b c, of 1 "[1 \<mapsto> 0]"]
    by (simp only: list.map concat.simps append_Nil2 append_assoc m t f r if_True if_False fun_upd_same option.case simp_thms)
qed

section \<open>Removing parameter sets\<close>

definition avcc :: "nalu \<Rightarrow> bytes" where
  "avcc n = put_be 4 (int (length n)) @ n"

lemma length_avcc [simp]: "length (avcc n) = 4 + length n"
  by (simp add: avcc_def)

lemma avcc_nth: "n \<noteq> [] \<Longrightarrow> (avcc n @ xs) ! 4 = hd n"
  by (simp add: avcc_def nth_append hd_conv_nth)

definition avcc_nal :: "nalu \<Rightarrow> bool" where
  "avcc_nal n \<longleftrightarrow> n \<noteq> [] \<and> length n < 2 ^ 32"

definition is_param :: "nalu \<Rightarrow> bool" where
  "is_param n \<longleftrightarrow> isType n NALUTypeSPS \<or> isType n NALUTypePPS"

lemma is_param_hd: "n \<noteq> [] \<Longrightarrow> is_param n \<longleftrightarrow> nal_type (hd n) = 7 \<or> nal_type (hd n) = 8"
  by (simp add: is_param_def isType_def nal_type_def NALUTypeSPS_def NALUTypePPS_def)

lemma be_length: "length n < 2 ^ 32 \<Longrightarrow> be (put_be 4 (int (length n))) = int (length n)"
  by (simp add: be_put_be)

lemma strip_loop_nals:
  "list_all avcc_nal ns \<Longrightarrow> strip_loop (pre @ concat (map avcc ns)) (length pre) cleaned =
     cleaned @ concat (map avcc (filter (\<lambda>n. \<not> is_param n) ns))"
proof (induction ns arbitrary: pre cleaned)
  case Nil
  then show ?case by (subst strip_loop.simps) simp
next
  case (Cons n ns)
  let ?p = "pre @ avcc n @ concat (map avcc ns)"
  have "avcc_nal n" and ns: "list_all avcc_nal ns" using Cons.prems by simp_all
  then have n: "n \<noteq> []" "length n < 2 ^ 32" by (simp_all add: avcc_nal_def)
  have r: "bslice ?p (length pre) (length pre + 4) = put_be 4 (int (length n))"
    "bslice ?p (length pre) (length pre + 4 + length n) = avcc n"
    using n by (simp_all add: bslice_def avcc_def nth_append hd_conv_nth)
  have len: "nat (be (bslice ?p (length pre) (length pre + 4))) = length n" unfolding r(1) be_length[OF n(2)] by simp
  have "strip_loop ?p (length pre) cleaned =
      strip_loop ?p (length pre + 4 + length n) (if is_param n then cleaned else cleaned @ avcc n)"
    using n(1) by (subst strip_loop.simps) (simp add: len r(2) Let_def is_param_hd avcc_nth)
  also have "\<dots> = (if is_param n then cleaned else cleaned @ avcc n) @ concat (map avcc (filter (\<lambda>n. \<not> is_param n) ns))"
    using Cons.IH[OF ns, of "pre @ avcc n"] by (simp add: add.assoc)
  finally show ?case by simp
qed

text \<open>
  A sample made of length-prefixed NAL units that opens with a parameter set loses
  exactly its parameter sets, unless nothing else would be left; any other sample stays as it is.
\<close>

theorem stripInBandParamSets_exact:
  assumes "list_all avcc_nal (n # ns)"
  shows "stripInBandParamSets [concat (map avcc (n # ns))] =
    [concat (map avcc (if is_param n \<and> \<not> list_all is_param ns then filter (\<lambda>n. \<not> is_param n) (n # ns) else n # ns))]"
proof -
  have n: "n \<noteq> []" using assms by (simp add: avcc_nal_def)
  then have len: "\<not> length (avcc n @ concat (map avcc ns)) < 5" by (cases n) simp_all
  have cl: "strip_loop (avcc n @ concat (map avcc ns)) 0 [] = concat (map avcc (filter (\<lambda>n. \<not> is_param n) (n # ns)))"
    using strip_loop_nals[OF assms, of "[]" "[]"] by simp
  have ne: "concat (map avcc (filter (\<lambda>n. \<not> is_param n) ms)) = [] \<longleftrightarrow> list_all is_param ms" for ms
    by (induction ms) (auto simp: avcc_def, metis length_put_be list.size(3) zero_neq_numeral)
  show ?thesis
    using ne[of ns] len n avcc_nth[OF n]
    by (simp add: stripInBandParamSets_def strip_sample_def cl Let_def is_param_hd)
qed

theorem stripInBandParamSets_exact_witness:
  "stripInBandParamSets [concat (map avcc [[0x67, 1], [0x68, 2], [0x65, 3]])] = [avcc [0x65, 3]]"
proof -
  have a: "list_all avcc_nal [[0x67, 1], [0x68, 2], [0x65, 3]]" by (simp add: avcc_nal_def)
  have b: "is_param [0x67, 1]" "is_param [0x68, 2]" "\<not> is_param [0x65, 3]" by code_simp+
  show ?thesis using stripInBandParamSets_exact[OF a] b by simp
qed

section \<open>The init segment is found\<close>

lemma init_loop_boxes:
  assumes "list_all box_ok (bs @ [m])" and "box_type m = fourcc ''moov''" and "list_all (\<lambda>b. box_type b \<noteq> fourcc ''moov'') bs"
    and "length pre + length (concat (bs @ [m])) \<le> max_init"
  shows "init_loop unmarshal (pre @ concat (bs @ [m]) @ rest) (length pre) =
    (case unmarshal (pre @ concat (bs @ [m])) of
       None \<Rightarrow> Inl ErrUnmarshal | Some i \<Rightarrow> Inr (i, length (pre @ concat (bs @ [m]))))"
  using assms
proof (induction bs arbitrary: pre)
  case Nil
  then have m: "box_ok m" by simp
  note r = box_reads[OF m, where pre = pre and rest = rest]
  have ne: "be (bslice (pre @ m @ rest) (length pre) (length pre + 4)) \<noteq> 1" using r(2) m by (auto simp: box_ok_def)
  have t: "take (length pre + length m) (pre @ m @ rest) = pre @ m" by simp
  show ?case using Nil(2,4) m ne r(1,4) t
    by (subst init_loop.simps) (auto simp: r(2,3) Let_def box_ok_def split: option.split)
next
  case (Cons b bs)
  then have b: "box_ok b" "box_type b \<noteq> fourcc ''moov''" by simp_all
  define R where "R = concat (bs @ [m]) @ rest"
  note r = box_reads[OF b(1), where pre = pre and rest = R]
  have ne: "be (bslice (pre @ b @ R) (length pre) (length pre + 4)) \<noteq> 1" using r(2) b by (auto simp: box_ok_def)
  have fits: "length pre < max_init" "\<not> max_init - length pre < length b" "8 \<le> length b"
    using Cons.prems(1,4) b(1) by (auto simp: box_ok_def)
  have "init_loop unmarshal (pre @ b @ R) (length pre) = init_loop unmarshal (pre @ b @ R) (length pre + length b)"
    using fits b(2) ne r(1,4) by (subst init_loop.simps) (simp add: r(2,3) Let_def)
  also have "\<dots> = (case unmarshal ((pre @ b) @ concat (bs @ [m])) of
       None \<Rightarrow> Inl ErrUnmarshal | Some i \<Rightarrow> Inr (i, length ((pre @ b) @ concat (bs @ [m]))))"
    using Cons.IH[of "pre @ b"] Cons.prems by (simp add: add.assoc R_def)
  finally show ?case by (simp add: R_def split: option.split)
qed

lemma init_loop_bound: "init_loop u f k = Inr (i, n) \<Longrightarrow> n \<le> max_init \<and> u (take n f) = Some i"
proof (induction u f k rule: init_loop.induct)
  case (1 u f k)
  show ?case using 1(2)
    by (subst (asm) init_loop.simps) (use 1(1) in \<open>auto simp: Let_def split: if_splits option.splits\<close>)
qed

text \<open>
  The init segment is found, and reading it is bounded: of a file that starts with
  well-formed boxes of which the last, and no other, is a moov within the first 8 MiB, exactly those
  boxes are handed to the parser; and whatever the file, no more than its first 8 MiB are.
\<close>

theorem init_segment_found:
  assumes "list_all box_ok (bs @ [m])" and "box_type m = fourcc ''moov''" and "list_all (\<lambda>b. box_type b \<noteq> fourcc ''moov'') bs"
    and "length (concat (bs @ [m])) \<le> max_init" and "unmarshal (concat (bs @ [m])) = Some i"
  shows "readRecordingInit unmarshal (concat (bs @ [m]) @ rest) = Inr (i, length (concat (bs @ [m]))) \<and>
    (readRecordingInit unmarshal file = Inr (j, n) \<longrightarrow> n \<le> max_init \<and> unmarshal (take n file) = Some j)"
  using init_loop_boxes[OF assms(1-3), of "[]" unmarshal rest] init_loop_bound[of unmarshal "file" 0 j n] assms(4,5)
  unfolding readRecordingInit_def by auto

theorem init_segment_found_witness:
  "readRecordingInit (\<lambda>b. Some (length b)) (concat ([sample_box ''ftyp'' [1, 2, 3, 4]] @ [sample_box ''moov'' [5]]) @ [9, 9]) = Inr (21, 21)"
proof -
  have a: "list_all box_ok ([sample_box ''ftyp'' [1, 2, 3, 4]] @ [sample_box ''moov'' [5]])"
    "box_type (sample_box ''moov'' [5]) = fourcc ''moov''"
    "list_all (\<lambda>b. box_type b \<noteq> fourcc ''moov'') [sample_box ''ftyp'' [1, 2, 3, 4]]"
    "length (concat ([sample_box ''ftyp'' [1, 2, 3, 4]] @ [sample_box ''moov'' [5]])) = 21" by code_simp+
  show ?thesis
    using init_segment_found[OF a(1-3), of "\<lambda>b. Some (length b)" 21 "[9, 9]" "[]" 0 0] a(4) by (simp add: max_init_def)
qed

section \<open>Probing\<close>

text \<open>
  A child of moov whose size field is zero moves the position back to its own start: the loop reads
  it again for ever.
\<close>

definition zero_child :: "bytes \<Rightarrow> int \<Rightarrow> int \<Rightarrow> bool" where
  "zero_child data fin pos \<longleftrightarrow> 0 \<le> pos \<and> pos < fin \<and> pos < 2 ^ 63 \<and>
     (\<exists>ty. read_full data pos 8 = Some ([0, 0, 0, 0] @ ty) \<and> ty \<noteq> fourcc ''mvhd'')"

lemma zero_header: "be (take 4 ([0, 0, 0, 0] @ ty)) = 0" "drop 4 ([0, 0, 0, 0] @ ty) = ty"
  by (simp_all add: be_def)

lemma find_mvhd_stuck:
  assumes "zero_child data fin pos"
  shows "find_mvhd_loop oor data fin pos = None"
proof -
  have "\<not> zero_child data fin pos" if "find_mvhd_loop oor data fin pos = Some r" for r
    using that
  proof (rule find_mvhd_loop.raw_induct[where P = "\<lambda>oor data fin pos _. \<not> zero_child data fin pos", rotated])
    fix loop and oor :: "float64 \<Rightarrow> int" and data :: bytes and fin pos :: int and r
    assume ih: "\<And>oor data fin pos r. loop oor data fin pos = Some r \<Longrightarrow> \<not> zero_child data fin pos"
      and run: "(if pos \<ge> fin then Some (Inl ErrMvhdNotFound)
        else case read_full data pos 8 of
          None \<Rightarrow> Some (Inl ErrRead)
        | Some hdr \<Rightarrow> (case payload_size data pos hdr of
             None \<Rightarrow> Some (Inl ErrRead)
           | Some (sz, start) \<Rightarrow>
               if drop 4 hdr = fourcc ''mvhd'' then Some (parseMvhd oor data start)
               else case seek start sz of None \<Rightarrow> Some (Inl ErrSeek) | Some pos' \<Rightarrow> loop oor data fin pos')) = Some r"
    show "\<not> zero_child data fin pos"
    proof
      assume z: "zero_child data fin pos"
      then obtain ty where ty: "read_full data pos 8 = Some ([0, 0, 0, 0] @ ty)" "ty \<noteq> fourcc ''mvhd''" and "\<not> fin \<le> pos"
        by (auto simp: zero_child_def)
      moreover have "payload_size data pos ([0, 0, 0, 0] @ ty) = Some (- 8, pos + 8)" by (simp add: payload_size_def be_def)
      moreover have "seek (pos + 8) (- 8) = Some pos" using z by (simp add: seek_def zero_child_def)
      ultimately have "loop oor data fin pos = Some r" using run by simp
      then show False using ih z by blast
    qed
  qed
  then show ?thesis using assms by (cases "find_mvhd_loop oor data fin pos") auto
qed

text \<open>
  Reading the duration of a damaged recording can hang: when the first box is a
  moov whose first child has the size zero, as in a file whose tail was never written and reads as
  zeros, \<open>probeMoovDuration\<close> does not return.
\<close>

theorem probe_hangs_on_zero_child:
  assumes "length ty = 4" and "ty \<noteq> fourcc ''mvhd''" and "16 \<le> sz" and "sz < 2 ^ 32"
  shows "probeMoovDuration oor (put_be 4 sz @ fourcc ''moov'' @ [0, 0, 0, 0] @ ty @ rest) = None"
proof -
  let ?f = "put_be 4 sz @ fourcc ''moov'' @ [0, 0, 0, 0] @ ty @ rest"
  have four: "length (fourcc ''moov'') = 4" by (simp add: fourcc_def)
  have h: "read_full ?f 0 8 = Some (put_be 4 sz @ fourcc ''moov'')" using assms(1) four by (simp add: read_full_def bslice_def)
  have b: "be (put_be 4 sz) = sz" using assms(3,4) by (simp add: be_put_be)
  have p: "payload_size ?f 0 (put_be 4 sz @ fourcc ''moov'') = Some (sz - 8, 8)" using assms(3) b by (simp add: payload_size_def)
  have "probe_loop oor ?f 0 = findMvhdDuration oor ?f (sz - 8) 8"
    using assms(3) by (subst probe_loop.simps) (simp only: h p option.case prod.case, simp add: b)
  moreover have "in64 sz" using assms(3,4) by (simp add: in64_def)
  then have "wrap64 (8 + (sz - 8)) = sz" by simp
  moreover have "zero_child ?f sz 8"
    using assms four by (auto simp: zero_child_def read_full_def bslice_def)
  ultimately show ?thesis using find_mvhd_stuck by (simp add: probeMoovDuration_def findMvhdDuration_def)
qed

theorem probe_hangs_on_zero_child_witness:
  "probeMoovDuration (\<lambda>_. 0) (put_be 4 1000 @ fourcc ''moov'' @ [0, 0, 0, 0] @ [0, 0, 0, 0] @ replicate 100 0) = None"
  by (rule probe_hangs_on_zero_child) (simp_all add: fourcc_def)

text \<open>The header of a well-formed box, as the probing loops read it.\<close>

lemma header_reads:
  assumes "box_ok b"
  shows "read_full (pre @ b @ rest) (int (length pre)) 8 = Some (take 8 b)"
    and "payload_size (pre @ b @ rest) (int (length pre)) (take 8 b) = Some (int (length b) - 8, int (length pre) + 8)"
    and "drop 4 (take 8 b) = box_type b" and "be (take 4 (take 8 b)) \<noteq> 0"
    and "length (pre @ b @ rest) < 2 ^ 63 \<Longrightarrow> seek (int (length pre) + 8) (int (length b) - 8) = Some (int (length (pre @ b)))"
proof -
  note ok = assms[unfolded box_ok_def]
  show "read_full (pre @ b @ rest) (int (length pre)) 8 = Some (take 8 b)" using ok by (simp add: read_full_def bslice_def)
  have t: "take 4 (take 8 b) = take 4 b" by simp
  show "payload_size (pre @ b @ rest) (int (length pre)) (take 8 b) = Some (int (length b) - 8, int (length pre) + 8)"
    "be (take 4 (take 8 b)) \<noteq> 0"
    using ok unfolding payload_size_def t by auto
  show "drop 4 (take 8 b) = box_type b" by (simp add: box_type_def bslice_def drop_take)
  show "seek (int (length pre) + 8) (int (length b) - 8) = Some (int (length (pre @ b)))" if "length (pre @ b @ rest) < 2 ^ 63"
  proof -
    have "int (length pre + length b) < 2 ^ 63" using that by simp
    then show ?thesis by (simp add: seek_def)
  qed
qed

definition mvhd_result :: "(float64 \<Rightarrow> int) \<Rightarrow> bytes \<Rightarrow> bytes list \<Rightarrow> nat \<Rightarrow> mp4_error + duration" where
  "mvhd_result oor data cs start =
     (case dropWhile (\<lambda>c. box_type c \<noteq> fourcc ''mvhd'') cs of
        [] \<Rightarrow> Inl ErrMvhdNotFound
      | _ \<Rightarrow> parseMvhd oor data (int (start + length (concat (takeWhile (\<lambda>c. box_type c \<noteq> fourcc ''mvhd'') cs)) + 8)))"

lemma mvhd_result_Cons:
  "mvhd_result oor data (c # cs) start =
     (if box_type c = fourcc ''mvhd'' then parseMvhd oor data (int (start + 8)) else mvhd_result oor data cs (start + length c))"
  unfolding mvhd_result_def
  by (cases "dropWhile (\<lambda>c. box_type c \<noteq> fourcc ''mvhd'') cs") (simp_all add: add.assoc del: dropWhile_eq_Nil_conv)

lemma find_mvhd_boxes:
  "list_all box_ok cs \<Longrightarrow> length (pre @ concat cs @ rest) < 2 ^ 63 \<Longrightarrow>
     find_mvhd_loop oor (pre @ concat cs @ rest) (int (length pre + length (concat cs))) (int (length pre)) =
       Some (mvhd_result oor (pre @ concat cs @ rest) cs (length pre))"
proof (induction cs arbitrary: pre)
  case Nil
  then show ?case by (subst find_mvhd_loop.simps) (simp add: mvhd_result_def)
next
  case (Cons c cs)
  define R where "R = concat cs @ rest"
  have c: "box_ok c" and cs: "list_all box_ok cs" using Cons.prems(1) by simp_all
  have len: "length (pre @ c @ R) < 2 ^ 63" using Cons.prems(2) by (simp add: R_def)
  note h = header_reads(1,2,5)[OF c, where pre = pre and rest = R] and ht = header_reads(3,4)[OF c]
  have lt: "\<not> int (length pre) \<ge> int (length pre + length (concat (c # cs)))" using c by (auto simp: box_ok_def)
  show ?case
  proof (cases "box_type c = fourcc ''mvhd''")
    case True
    have "find_mvhd_loop oor (pre @ c @ R) (int (length pre + length (concat (c # cs)))) (int (length pre)) =
        Some (parseMvhd oor (pre @ c @ R) (int (length pre) + 8))"
      using lt by (subst find_mvhd_loop.simps) (simp only: h(1,2) ht(1) if_False option.case prod.case True refl if_True)
    then show ?thesis using True by (simp add: mvhd_result_Cons R_def)
  next
    case False
    have "find_mvhd_loop oor (pre @ c @ R) (int (length pre + length (concat (c # cs)))) (int (length pre)) =
        find_mvhd_loop oor (pre @ c @ R) (int (length pre + length (concat (c # cs)))) (int (length (pre @ c)))"
      using lt False by (subst find_mvhd_loop.simps) (simp only: h(1,2) ht(1) h(3)[OF len] if_False option.case prod.case)
    also have "\<dots> = Some (mvhd_result oor ((pre @ c) @ concat cs @ rest) cs (length (pre @ c)))"
      using Cons.IH[OF cs, of "pre @ c"] len by (simp add: R_def add.assoc)
    finally show ?thesis using False by (simp add: mvhd_result_Cons R_def)
  qed
qed

lemma probe_boxes:
  assumes "list_all box_ok (bs @ [m])" and "box_type m = fourcc ''moov''" and "list_all (\<lambda>b. box_type b \<noteq> fourcc ''moov'') bs"
    and "drop 8 m = concat cs" and "list_all box_ok cs" and "length (pre @ concat (bs @ [m]) @ rest) < 2 ^ 63"
  shows "probe_loop oor (pre @ concat (bs @ [m]) @ rest) (int (length pre)) =
    Some (mvhd_result oor (pre @ concat (bs @ [m]) @ rest) cs (length pre + length (concat bs) + 8))"
  using assms
proof (induction bs arbitrary: pre)
  case Nil
  then have m: "box_ok m" and len: "length (pre @ m @ rest) < 2 ^ 63" by simp_all
  note h = header_reads(1,2,5)[OF m, where pre = pre and rest = rest] and ht = header_reads(3,4)[OF m]
  have m8: "m = take 8 m @ concat cs" using Nil.prems(4) append_take_drop_id[of 8 m] by simp
  have l8: "length m = 8 + length (concat cs)" using m Nil.prems(4) by (metis box_ok_def le_add_diff_inverse length_drop)
  have t8: "length (take 8 m) = 8" using m by (simp add: box_ok_def)
  have "probe_loop oor (pre @ m @ rest) (int (length pre)) = findMvhdDuration oor (pre @ m @ rest) (int (length m) - 8) (int (length pre) + 8)"
    using Nil.prems(2) ht(2) by (subst probe_loop.simps) (simp only: h(1,2) ht(1) if_False option.case prod.case if_True simp_thms)
  also have "\<dots> = find_mvhd_loop oor (pre @ m @ rest) (int (length pre + 8 + length (concat cs))) (int (length (pre @ take 8 m)))"
  proof -
    have "int (length pre + length m) < 2 ^ 63" using len by simp
    then have "wrap64 (int (length pre) + int (length m)) = int (length pre) + int (length m)" by (intro wrap64_id) (simp add: in64_def)
    then show ?thesis using l8 t8 by (simp add: findMvhdDuration_def add.assoc)
  qed
  also have "pre @ m @ rest = (pre @ take 8 m) @ concat cs @ rest" by (subst m8) simp
  also have "find_mvhd_loop oor ((pre @ take 8 m) @ concat cs @ rest) (int (length pre + 8 + length (concat cs))) (int (length (pre @ take 8 m))) =
      Some (mvhd_result oor ((pre @ take 8 m) @ concat cs @ rest) cs (length (pre @ take 8 m)))"
    using find_mvhd_boxes[OF Nil.prems(5), of "pre @ take 8 m" rest oor] len l8 t8 by (simp add: add.assoc)
  finally show ?case using t8 append_take_drop_id[of 8 m] Nil.prems(4) by (metis (no_types, lifting) append.assoc concat.simps length_append
        append_Nil append_Nil2 list.size(3) add_0_right)
next
  case (Cons b bs)
  define R where "R = concat (bs @ [m]) @ rest"
  have b: "box_ok b" and nb: "box_type b \<noteq> fourcc ''moov''" using Cons.prems(1,3) by simp_all
  have len: "length (pre @ b @ R) < 2 ^ 63" using Cons.prems(6) by (simp add: R_def)
  note h = header_reads(1,2,5)[OF b, where pre = pre and rest = R] and ht = header_reads(3,4)[OF b]
  have "probe_loop oor (pre @ b @ R) (int (length pre)) = probe_loop oor (pre @ b @ R) (int (length (pre @ b)))"
    using nb ht(2) by (subst probe_loop.simps) (simp only: h(1,2) ht(1) h(3)[OF len] if_False option.case prod.case)
  also have "\<dots> = Some (mvhd_result oor ((pre @ b) @ concat (bs @ [m]) @ rest) cs (length (pre @ b) + length (concat bs) + 8))"
    using Cons.IH[of "pre @ b"] Cons.prems by (simp add: R_def)
  finally show ?case by (simp add: R_def add.assoc)
qed

text \<open>The duration field of a complete mvhd box, of either version.\<close>

definition mvhd_ok :: "bytes \<Rightarrow> bool" where
  "mvhd_ok c \<longleftrightarrow> box_type c = fourcc ''mvhd'' \<and> 12 \<le> length c \<and> (if c ! 8 = 0 then 28 \<le> length c else 40 \<le> length c)"

definition mvhd_fields :: "bytes \<Rightarrow> int \<times> int" where
  "mvhd_fields c = (if c ! 8 = 0 then (be (bslice c 20 24), be (bslice c 24 28)) else (be (bslice c 28 32), be (bslice c 32 40)))"

lemma read_inside:
  assumes "i + n \<le> length c"
  shows "read_full (pre @ c @ rest) (int (length pre) + int i) n = Some (bslice c i (i + n))"
proof -
  have "nat (int (length pre) + int i) = length pre + i" by simp
  moreover have "bslice (pre @ c @ rest) (length pre + i) (length pre + (i + n)) = bslice c i (i + n)"
    using slice_skip[of pre "c @ rest" i "i + n"] slice_append[OF assms, of rest i] by simp
  ultimately show ?thesis using assms by (simp add: read_full_def add.assoc)
qed

lemma slice_slice: "k \<le> n \<Longrightarrow> bslice (bslice c i (i + n)) j k = bslice c (i + j) (i + k)"
  by (simp add: bslice_def drop_take add.commute)

lemma parseMvhd_box:
  assumes "mvhd_ok c"
  shows "parseMvhd oor (pre @ c @ rest) (int (length pre) + 8) =
    Inr (case mvhd_fields c of (timescale, dur) \<Rightarrow> if timescale = 0 then 0 else seconds_duration oor dur timescale)"
proof -
  have h: "hd (bslice c 8 12) = c ! 8" using assms by (simp add: mvhd_ok_def bslice_def hd_drop_conv_nth)
  have r4: "read_full (pre @ c @ rest) (int (length pre) + 8) 4 = Some (bslice c 8 12)"
    using read_inside[of 8 4 c pre rest] assms by (simp add: mvhd_ok_def)
  show ?thesis
  proof (cases "c ! 8 = 0")
    case True
    then have "read_full (pre @ c @ rest) (int (length pre) + 8 + 4) 16 = Some (bslice c 12 28)"
      using read_inside[of 12 16 c pre rest] assms by (simp add: mvhd_ok_def add.assoc)
    then show ?thesis using True r4 h slice_slice[of 12 16 c 12 8] slice_slice[of 16 16 c 12 12]
      by (simp add: parseMvhd_def mvhd_fields_def)
  next
    case False
    then have "read_full (pre @ c @ rest) (int (length pre) + 8 + 4) 28 = Some (bslice c 12 40)"
      using read_inside[of 12 28 c pre rest] assms by (simp add: mvhd_ok_def add.assoc)
    then show ?thesis using False r4 h slice_slice[of 20 28 c 12 16] slice_slice[of 28 28 c 12 20]
      by (simp add: parseMvhd_def mvhd_fields_def)
  qed
qed

text \<open>
  Of a well-formed file the duration is read: when the boxes up to the first moov
  and the children of that moov are well-formed and one child is a complete mvhd, probing returns, with
  the duration that this mvhd declares.
\<close>

theorem probe_reads_mvhd:
  assumes "list_all box_ok (bs @ [m])" and "box_type m = fourcc ''moov''" and "list_all (\<lambda>b. box_type b \<noteq> fourcc ''moov'') bs"
    and "drop 8 m = concat (ds @ [c] @ es)" and "list_all box_ok (ds @ [c] @ es)" and "length (concat (bs @ [m]) @ rest) < 2 ^ 63"
    and "list_all (\<lambda>b. box_type b \<noteq> fourcc ''mvhd'') ds" and "mvhd_ok c"
  shows "probeMoovDuration oor (concat (bs @ [m]) @ rest) =
    Some (Inr (case mvhd_fields c of (timescale, dur) \<Rightarrow> if timescale = 0 then 0 else seconds_duration oor dur timescale))"
proof -
  let ?f = "concat (bs @ [m]) @ rest" and ?P = "\<lambda>b. box_type b \<noteq> fourcc ''mvhd''"
  have c: "\<not> ?P c" using assms(8) by (simp add: mvhd_ok_def)
  have tw: "takeWhile ?P (ds @ c # es) = ds" and dw: "dropWhile ?P (ds @ c # es) = c # es"
    using assms(7) c by (auto simp: list_all_iff takeWhile_append dropWhile_append)
  have "probeMoovDuration oor ?f = Some (mvhd_result oor ?f (ds @ [c] @ es) (length (concat bs) + 8))"
    using probe_boxes[OF assms(1-5), of "[]" rest oor] assms(6) by (simp add: probeMoovDuration_def)
  also have "mvhd_result oor ?f (ds @ [c] @ es) (length (concat bs) + 8) = parseMvhd oor ?f (int (length (concat bs @ take 8 m @ concat ds)) + 8)"
  proof -
    have "length (take 8 m) = 8" using assms(1) by (simp add: box_ok_def)
    then show ?thesis by (simp add: mvhd_result_def tw dw)
  qed
  also have "parseMvhd oor ?f (int (length (concat bs @ take 8 m @ concat ds)) + 8) =
      Inr (case mvhd_fields c of (timescale, dur) \<Rightarrow> if timescale = 0 then 0 else seconds_duration oor dur timescale)"
  proof -
    have "?f = (concat bs @ take 8 m @ concat ds) @ c @ (concat es @ rest)"
      using append_take_drop_id[of 8 m] assms(4) by (metis append.assoc concat.simps(2) concat_append concat.simps(1) append_Nil2)
    then show ?thesis using parseMvhd_box[OF assms(8), of oor "concat bs @ take 8 m @ concat ds" "concat es @ rest"] by (simp only:)
  qed
  finally show ?thesis .
qed

definition sample_moov :: bytes where
  "sample_moov = sample_box ''moov'' (sample_box ''udta'' [] @ sample_box ''mvhd'' (replicate 12 0 @ put_be 4 1000 @ put_be 4 2500))"

theorem probe_reads_mvhd_witness:
  "probeMoovDuration (\<lambda>_. 0) (sample_box ''ftyp'' [] @ sample_moov @ [1, 2, 3]) = Some (Inr (2500 * Millisecond))"
proof -
  let ?c = "sample_box ''mvhd'' (replicate 12 0 @ put_be 4 1000 @ put_be 4 2500)"
  have a: "list_all box_ok ([sample_box ''ftyp'' []] @ [sample_moov])" "box_type sample_moov = fourcc ''moov''"
    "list_all (\<lambda>b. box_type b \<noteq> fourcc ''moov'') [sample_box ''ftyp'' []]"
    "drop 8 sample_moov = concat ([sample_box ''udta'' []] @ [?c] @ [])" "list_all box_ok ([sample_box ''udta'' []] @ [?c] @ [])"
    "list_all (\<lambda>b. box_type b \<noteq> fourcc ''mvhd'') [sample_box ''udta'' []]" "mvhd_ok ?c" by code_simp+
  have l: "length (concat ([sample_box ''ftyp'' []] @ [sample_moov]) @ [1, 2, 3]) < 2 ^ 63"
  proof -
    have "length (concat ([sample_box ''ftyp'' []] @ [sample_moov]) @ [1, 2, 3]) = 55" by code_simp
    then show ?thesis by simp
  qed
  have f: "mvhd_fields ?c = (1000, 2500)" by code_simp
  have d: "seconds_duration (\<lambda>_. 0) 2500 1000 = 2500 * Millisecond" by code_simp
  show ?thesis using probe_reads_mvhd[OF a(1-5) l a(6,7), of "\<lambda>_. 0"] f d by simp
qed

end
