(* ===== verification/Mp4_Fragments.thy ===== *)
theory Mp4_Fragments
  imports Mp4_Boxes
begin

text \<open>
  The fragment level of \<^verbatim>\<open>internal/media/mp4reader.go\<close>: the index of a fragmented file, trimming a
  window out of it, joining files, and the segments of an HLS playlist.  The box parser belongs to a
  library: what it finds in a file is the argument \<open>boxes\<close>, a tree in file order, in which
  \<open>Unreadable\<close> stands for a box at which reading fails.
\<close>

section \<open>Unsigned integers\<close>

definition u32 :: "int \<Rightarrow> int" where "u32 x = x mod 2 ^ 32"
definition u64 :: "int \<Rightarrow> int" where "u64 x = x mod 2 ^ 64"

text \<open>\<^verbatim>\<open>uint64(d.Seconds() * float64(scale))\<close>; outside the range of the type the result is \<open>oor\<close>.\<close>

definition Seconds :: "duration \<Rightarrow> float64" where
  "Seconds d =
     fadd (float_of_int (sgn d * (\<bar>d\<bar> div Second))) (fdiv (float_of_int (sgn d * (\<bar>d\<bar> mod Second))) (float_of_int Second))"

definition ticks :: "(float64 \<Rightarrow> int) \<Rightarrow> duration \<Rightarrow> int \<Rightarrow> int" where
  "ticks oor d scale =
     (let x = fmul (Seconds d) (float_of_int scale) in if 0 \<le> x \<and> x < 2 ^ 64 then \<lfloor>x\<rfloor> else oor x)"

section \<open>The index of a file\<close>

record trafEntry =
  te_trackID :: int
  te_decodeTime :: int
  te_duration :: int
  te_isSync :: bool

record fragment =
  moofOffset :: int
  moofSize :: int
  mdatOffset :: int
  mdatSize :: int
  trafs :: "trafEntry list"

definition traf :: "int \<Rightarrow> fragment \<Rightarrow> trafEntry option" where
  "traf trackID f = find (\<lambda>t. te_trackID t = trackID) (trafs f)"

text \<open>The fields of the boxes the index reads; a trun has the duration and flags of its entries.\<close>

datatype mp4box =
    Ftyp int int
  | Moov int int "mp4box list"
  | Trak "mp4box list"
  | Mdia "mp4box list"
  | Tkhd int
  | Mdhd int
  | Moof int int "mp4box list"
  | Traf "mp4box list"
  | Tfhd int "32 word" "32 word"
  | Tfdt int
  | Trun "32 word" "32 word" "(int \<times> 32 word) list"
  | Mdat int int
  | OtherBox
  | Unreadable

text \<open>\<open>ix_inTraf\<close>: \<^verbatim>\<open>currentTraf\<close> points to the last entry of \<^verbatim>\<open>currentFrag\<close>, or is nil.\<close>

record fmp4Index =
  ix_initBoxes :: "(int \<times> int) list"
  ix_fragments :: "fragment list"
  ix_timeScales :: "int \<rightharpoonup> int"
  ix_trackID :: int
  ix_frag :: "fragment option"
  ix_inTraf :: bool

definition new_index :: fmp4Index where
  "new_index = \<lparr>ix_initBoxes = [], ix_fragments = [], ix_timeScales = Map.empty, ix_trackID = 0, ix_frag = None, ix_inTraf = False\<rparr>"

definition noteTimescale :: "int \<Rightarrow> fmp4Index \<Rightarrow> fmp4Index" where
  "noteTimescale ts ix = (if ix_trackID ix \<noteq> 0 then ix\<lparr>ix_timeScales := (ix_timeScales ix)(ix_trackID ix \<mapsto> ts)\<rparr> else ix)"

definition beginFragment :: "int \<Rightarrow> int \<Rightarrow> fmp4Index \<Rightarrow> fmp4Index" where
  "beginFragment offs sz ix =
     ix\<lparr>ix_frag := Some \<lparr>moofOffset = offs, moofSize = sz, mdatOffset = 0, mdatSize = 0, trafs = []\<rparr>, ix_inTraf := False\<rparr>"

definition beginTraf :: "fmp4Index \<Rightarrow> fmp4Index" where
  "beginTraf ix =
     (case ix_frag ix of
        None \<Rightarrow> ix
      | Some f \<Rightarrow> ix\<lparr>ix_frag := Some (f\<lparr>trafs := trafs f @ [\<lparr>te_trackID = 0, te_decodeTime = 0, te_duration = 0, te_isSync = False\<rparr>]\<rparr>),
                     ix_inTraf := True\<rparr>)"

text \<open>Writing through \<^verbatim>\<open>currentTraf\<close>.\<close>

definition update_traf :: "(trafEntry \<Rightarrow> trafEntry) \<Rightarrow> fmp4Index \<Rightarrow> fmp4Index" where
  "update_traf g ix =
     (case ix_frag ix of
        Some f \<Rightarrow> if ix_inTraf ix then ix\<lparr>ix_frag := Some (f\<lparr>trafs := butlast (trafs f) @ [g (last (trafs f))]\<rparr>)\<rparr> else ix
      | None \<Rightarrow> ix)"

definition noteTfhd :: "int \<Rightarrow> 32 word \<Rightarrow> 32 word \<Rightarrow> fmp4Index \<Rightarrow> fmp4Index" where
  "noteTfhd trackID flags dflt =
     update_traf (\<lambda>t. t\<lparr>te_trackID := trackID, te_isSync := (if flags AND 0x20 \<noteq> 0 then dflt AND 0x10000 = 0 else True)\<rparr>)"

definition noteTfdt :: "int \<Rightarrow> fmp4Index \<Rightarrow> fmp4Index" where
  "noteTfdt time = update_traf (\<lambda>t. t\<lparr>te_decodeTime := time\<rparr>)"

definition noteTrun :: "32 word \<Rightarrow> 32 word \<Rightarrow> (int \<times> 32 word) list \<Rightarrow> fmp4Index \<Rightarrow> fmp4Index" where
  "noteTrun flags firstFlags entries =
     update_traf (\<lambda>t. t\<lparr>te_duration := u32 (te_duration t + foldl (\<lambda>d e. u32 (d + fst e)) 0 entries),
       te_isSync := (if flags AND 0x4 \<noteq> 0 then firstFlags AND 0x10000 = 0
                     else if flags AND 0x400 \<noteq> 0 \<and> entries \<noteq> [] then snd (hd entries) AND 0x10000 = 0
                     else te_isSync t)\<rparr>)"

definition endFragment :: "int \<Rightarrow> int \<Rightarrow> fmp4Index \<Rightarrow> fmp4Index" where
  "endFragment offs sz ix =
     (case ix_frag ix of
        None \<Rightarrow> ix
      | Some f \<Rightarrow> ix\<lparr>ix_fragments := ix_fragments ix @ [f\<lparr>mdatOffset := offs, mdatSize := sz\<rparr>], ix_frag := None, ix_inTraf := False\<rparr>)"

text \<open>The handler \<open>indexFile\<close> gives to the parser; the result says whether reading goes on.\<close>

fun index_box :: "mp4box \<Rightarrow> fmp4Index \<Rightarrow> bool \<times> fmp4Index"
  and index_boxes :: "mp4box list \<Rightarrow> fmp4Index \<Rightarrow> bool \<times> fmp4Index" where
  "index_box (Ftyp offs sz) ix = (True, ix\<lparr>ix_initBoxes := ix_initBoxes ix @ [(offs, sz)]\<rparr>)"
| "index_box (Moov offs sz bs) ix = index_boxes bs (ix\<lparr>ix_initBoxes := ix_initBoxes ix @ [(offs, sz)]\<rparr>)"
| "index_box (Trak bs) ix = index_boxes bs (ix\<lparr>ix_trackID := 0\<rparr>)"
| "index_box (Mdia bs) ix = index_boxes bs ix"
| "index_box (Tkhd i) ix = (True, ix\<lparr>ix_trackID := i\<rparr>)"
| "index_box (Mdhd ts) ix = (True, noteTimescale ts ix)"
| "index_box (Moof offs sz bs) ix = index_boxes bs (beginFragment offs sz ix)"
| "index_box (Traf bs) ix = index_boxes bs (beginTraf ix)"
| "index_box (Tfhd i flags dflt) ix = (True, noteTfhd i flags dflt ix)"
| "index_box (Tfdt t) ix = (True, noteTfdt t ix)"
| "index_box (Trun flags firstFlags entries) ix = (True, noteTrun flags firstFlags entries ix)"
| "index_box (Mdat offs sz) ix = (True, endFragment offs sz ix)"
| "index_box OtherBox ix = (True, ix)"
| "index_box Unreadable ix = (False, ix)"
| "index_boxes [] ix = (True, ix)"
| "index_boxes (b # bs) ix = (case index_box b ix of (ok, ix') \<Rightarrow> if ok then index_boxes bs ix' else (False, ix'))"

definition indexFile :: "mp4box list \<Rightarrow> bool \<times> fmp4Index" where
  "indexFile boxes = index_boxes boxes new_index"

section \<open>Trimming\<close>

text \<open>
  The highest timescale wins, then the track in most fragments; Go ranges over the two maps in an
  order that is an argument here.
\<close>

definition findVideoTrack :: "int list \<Rightarrow> int list \<Rightarrow> fragment list \<Rightarrow> (int \<rightharpoonup> int) \<Rightarrow> int" where
  "findVideoTrack order order2 frags scales =
     (let best = foldl (\<lambda>(bid, bts) i. case scales i of Some ts \<Rightarrow> if ts > bts then (i, ts) else (bid, bts) | None \<Rightarrow> (bid, bts)) (0, 0) order
      in if fst best \<noteq> 0 then fst best
         else fst (foldl (\<lambda>(bid, n) i.
                let c = length (filter (\<lambda>t. te_trackID t = i) (concat (map trafs frags))) in if c > n then (i, c) else (bid, n))
                (fst best, 0) order2))"

definition scale_or :: "(int \<rightharpoonup> int) \<Rightarrow> int \<Rightarrow> int" where
  "scale_or scales i = (case scales i of Some ts \<Rightarrow> if ts = 0 then 90000 else ts | None \<Rightarrow> 90000)"

definition refTrafForWindow :: "fragment \<Rightarrow> int \<Rightarrow> trafEntry option" where
  "refTrafForWindow f videoTrackID =
     (case traf videoTrackID f of
        Some t \<Rightarrow> Some t
      | None \<Rightarrow> (case trafs f of [] \<Rightarrow> None | t # _ \<Rightarrow> Some t))"

text \<open>The test of the first loop of \<open>firstFragmentForStart\<close>: the fragment reaches beyond the start.\<close>

definition reaches :: "(float64 \<Rightarrow> int) \<Rightarrow> int \<Rightarrow> (int \<rightharpoonup> int) \<Rightarrow> duration \<Rightarrow> fragment \<Rightarrow> bool" where
  "reaches oor videoTrackID scales start f =
     (case refTrafForWindow f videoTrackID of
        None \<Rightarrow> False
      | Some t \<Rightarrow> ticks oor start (scale_or scales (te_trackID t)) < u64 (te_decodeTime t + te_duration t))"

fun first_index :: "('a \<Rightarrow> bool) \<Rightarrow> 'a list \<Rightarrow> nat \<Rightarrow> nat option" where
  "first_index P [] i = None"
| "first_index P (x # xs) i = (if P x then Some i else first_index P xs (Suc i))"

definition opens_on_sync :: "int \<Rightarrow> fragment \<Rightarrow> bool" where
  "opens_on_sync videoTrackID f = (case traf videoTrackID f of Some t \<Rightarrow> te_isSync t | None \<Rightarrow> False)"

text \<open>The second loop, counting down from \<open>Suc i - 1\<close>.\<close>

fun back_up :: "int \<Rightarrow> fragment list \<Rightarrow> nat \<Rightarrow> nat option" where
  "back_up videoTrackID frags 0 = None"
| "back_up videoTrackID frags (Suc i) = (if opens_on_sync videoTrackID (frags ! i) then Some i else back_up videoTrackID frags i)"

definition firstFragmentForStart :: "(float64 \<Rightarrow> int) \<Rightarrow> fragment list \<Rightarrow> int \<Rightarrow> (int \<rightharpoonup> int) \<Rightarrow> duration \<Rightarrow> nat" where
  "firstFragmentForStart oor frags videoTrackID scales start =
     (case first_index (reaches oor videoTrackID scales start) frags 0 of
        None \<Rightarrow> length frags
      | Some overlap \<Rightarrow> (case back_up videoTrackID frags (Suc overlap) of Some i \<Rightarrow> i | None \<Rightarrow> overlap))"

definition trimTimelineOrigin :: "fragment list \<Rightarrow> nat \<Rightarrow> int \<Rightarrow> (int \<rightharpoonup> int) \<Rightarrow> int \<times> int" where
  "trimTimelineOrigin frags first videoID scales =
     (case List.map_filter (traf videoID) (drop first frags) of
        t # _ \<Rightarrow> (te_decodeTime t, case scales videoID of Some ts \<Rightarrow> ts | None \<Rightarrow> 0)
      | [] \<Rightarrow> (0, 90000))"

definition adjusted_time :: "(int \<rightharpoonup> int) \<Rightarrow> int \<Rightarrow> int \<Rightarrow> int \<Rightarrow> trafEntry \<Rightarrow> int" where
  "adjusted_time scales origin originTS offs tr =
     (let scale = (case scales (te_trackID tr) of Some ts \<Rightarrow> ts | None \<Rightarrow> 0);
          shift = u64 (origin * scale) div originTS;
          base = (if te_decodeTime tr > shift then te_decodeTime tr - shift else 0)
      in u64 (base + u64 (offs * scale) div originTS))"

definition adjustedFragmentTimes :: "fragment \<Rightarrow> (int \<rightharpoonup> int) \<Rightarrow> int \<Rightarrow> int \<Rightarrow> int \<Rightarrow> (int \<rightharpoonup> int)" where
  "adjustedFragmentTimes f scales origin originTS0 offs =
     (let originTS = (if originTS0 = 0 then 90000 else originTS0)
      in foldl (\<lambda>m tr. m(te_trackID tr \<mapsto> adjusted_time scales origin originTS offs tr)) Map.empty (trafs f))"

text \<open>Copying a part of a file fails when the file is shorter than the index says.\<close>

definition copy_range :: "bytes \<Rightarrow> int \<Rightarrow> int \<Rightarrow> bytes option" where
  "copy_range data offs n = (if 0 \<le> offs \<and> 0 \<le> n \<and> offs + n \<le> int (length data) then Some (bslice data (nat offs) (nat (offs + n))) else None)"

definition copyFragmentAdjusted :: "bytes \<Rightarrow> fragment \<Rightarrow> int \<Rightarrow> (int \<rightharpoonup> int) \<Rightarrow> bytes option" where
  "copyFragmentAdjusted data f seqNum baseTimes =
     (case copy_range data (moofOffset f) (moofSize f) of
        None \<Rightarrow> None
      | Some moof \<Rightarrow>
          (case copy_range data (mdatOffset f) (mdatSize f) of
             None \<Rightarrow> None
           | Some mdat \<Rightarrow> Some (patchMoof moof seqNum baseTimes @ mdat)))"

fun copy_all :: "bytes \<Rightarrow> (fragment \<Rightarrow> (int \<rightharpoonup> int)) \<Rightarrow> int \<Rightarrow> fragment list \<Rightarrow> bytes option" where
  "copy_all data bases seqNum [] = Some []"
| "copy_all data bases seqNum (f # fs) =
     (case copyFragmentAdjusted data f seqNum (bases f) of
        None \<Rightarrow> None
      | Some b \<Rightarrow> map_option (append b) (copy_all data bases (u32 (seqNum + 1)) fs))"

fun copy_init :: "bytes \<Rightarrow> (int \<times> int) list \<Rightarrow> bytes option" where
  "copy_init data [] = Some []"
| "copy_init data ((offs, sz) # bs) =
     (case copy_range data offs sz of None \<Rightarrow> None | Some b \<Rightarrow> map_option (append b) (copy_init data bs))"

definition before_end :: "(float64 \<Rightarrow> int) \<Rightarrow> int \<Rightarrow> (int \<rightharpoonup> int) \<Rightarrow> duration \<Rightarrow> duration \<Rightarrow> fragment \<Rightarrow> bool" where
  "before_end oor videoTrackID scales start dur f =
     (case refTrafForWindow f videoTrackID of
        None \<Rightarrow> False
      | Some t \<Rightarrow>
          let ts = scale_or scales (te_trackID t)
          in te_decodeTime t < u64 (ticks oor start ts + ticks oor dur ts))"

text \<open>The fragments \<open>TrimMP4\<close> and \<open>TrimMP4ToWriter\<close> copy.\<close>

definition trim_fragments :: "(float64 \<Rightarrow> int) \<Rightarrow> int \<Rightarrow> fmp4Index \<Rightarrow> duration \<Rightarrow> duration \<Rightarrow> fragment list" where
  "trim_fragments oor videoTrackID ix start dur =
     filter (before_end oor videoTrackID (ix_timeScales ix) start dur)
       (drop (firstFragmentForStart oor (ix_fragments ix) videoTrackID (ix_timeScales ix) start) (ix_fragments ix))"

definition trim_times :: "(float64 \<Rightarrow> int) \<Rightarrow> int \<Rightarrow> fmp4Index \<Rightarrow> duration \<Rightarrow> fragment \<Rightarrow> (int \<rightharpoonup> int)" where
  "trim_times oor videoTrackID ix start f =
     (case trimTimelineOrigin (ix_fragments ix) (firstFragmentForStart oor (ix_fragments ix) videoTrackID (ix_timeScales ix) start)
             videoTrackID (ix_timeScales ix) of
        (origin, originTS) \<Rightarrow> adjustedFragmentTimes f (ix_timeScales ix) origin originTS 0)"

definition TrimMP4 :: "(float64 \<Rightarrow> int) \<Rightarrow> int list \<Rightarrow> int list \<Rightarrow> mp4box list \<Rightarrow> bytes \<Rightarrow> duration \<Rightarrow> duration \<Rightarrow> bytes option" where
  "TrimMP4 oor order order2 boxes data start dur =
     (case indexFile boxes of
        (ok, ix) \<Rightarrow>
          if \<not> ok then None
          else
            let videoTrackID = findVideoTrack order order2 (ix_fragments ix) (ix_timeScales ix)
            in case copy_init data (ix_initBoxes ix) of
                 None \<Rightarrow> None
               | Some hb \<Rightarrow> map_option (append hb)
                   (copy_all data (trim_times oor videoTrackID ix start) 1 (trim_fragments oor videoTrackID ix start dur)))"

definition TrimMP4ToWriter :: "(float64 \<Rightarrow> int) \<Rightarrow> int list \<Rightarrow> int list \<Rightarrow> mp4box list \<Rightarrow> bytes \<Rightarrow> duration \<Rightarrow> bytes option" where
  "TrimMP4ToWriter oor order order2 boxes data start =
     (case indexFile boxes of
        (ok, ix) \<Rightarrow>
          if \<not> ok then None
          else
            let videoTrackID = findVideoTrack order order2 (ix_fragments ix) (ix_timeScales ix)
            in case copy_init data (ix_initBoxes ix) of
                 None \<Rightarrow> None
               | Some hb \<Rightarrow> map_option (append hb)
                   (copy_all data (trim_times oor videoTrackID ix start) 1
                     (filter (\<lambda>f. refTrafForWindow f videoTrackID \<noteq> None)
                       (drop (firstFragmentForStart oor (ix_fragments ix) videoTrackID (ix_timeScales ix) start) (ix_fragments ix)))))"

section \<open>Joining files\<close>

text \<open>One input file: its boxes as the parser finds them, and its bytes.\<close>

type_synonym mp4file = "mp4box list \<times> bytes"

record concat_state =
  cs_out :: bytes
  cs_seq :: int
  cs_base :: "int \<rightharpoonup> int"
  cs_videoTS :: int
  cs_videoID :: int
  cs_init :: bool

definition map_get :: "(int \<rightharpoonup> int) \<Rightarrow> int \<Rightarrow> int" where
  "map_get m i = (case m i of Some x \<Rightarrow> x | None \<Rightarrow> 0)"

text \<open>How the fragments of one file move the ends of the tracks.\<close>

definition advance_ends :: "(int \<rightharpoonup> int) \<Rightarrow> fragment \<Rightarrow> (int \<rightharpoonup> int) \<Rightarrow> (int \<rightharpoonup> int)" where
  "advance_ends bases f ends =
     foldl (\<lambda>m tr. let e = u64 (map_get bases (te_trackID tr) + te_duration tr)
            in if e > map_get m (te_trackID tr) then m(te_trackID tr \<mapsto> e) else m) ends (trafs f)"

fun join_fragments :: "bytes \<Rightarrow> (fragment \<Rightarrow> (int \<rightharpoonup> int)) \<Rightarrow> fragment list \<Rightarrow> concat_state \<Rightarrow> concat_state option" where
  "join_fragments data bases [] st = Some st"
| "join_fragments data bases (f # fs) st =
     (case copyFragmentAdjusted data f (cs_seq st) (bases f) of
        None \<Rightarrow> None
      | Some b \<Rightarrow> join_fragments data bases fs
          (st\<lparr>cs_out := cs_out st @ b, cs_seq := u32 (cs_seq st + 1), cs_base := advance_ends (bases f) f (cs_base st)\<rparr>))"

definition init_base :: "(int \<rightharpoonup> int) \<Rightarrow> (int \<rightharpoonup> int) \<Rightarrow> (int \<rightharpoonup> int)" where
  "init_base scales base = (\<lambda>i. case base i of Some x \<Rightarrow> Some x | None \<Rightarrow> map_option (\<lambda>_. 0) (scales i))"

definition join_file :: "int list \<Rightarrow> int list \<Rightarrow> mp4file \<Rightarrow> concat_state \<Rightarrow> concat_state option" where
  "join_file order order2 input st =
     (case indexFile (fst input) of
        (ok, ix) \<Rightarrow>
          if \<not> ok then None
          else
            let videoID = (if cs_videoID st = 0 then findVideoTrack order order2 (ix_fragments ix) (ix_timeScales ix) else cs_videoID st);
                st1 = (if cs_videoID st = 0
                       then st\<lparr>cs_videoID := videoID, cs_videoTS := map_get (ix_timeScales ix) videoID,
                               cs_base := init_base (ix_timeScales ix) (cs_base st)\<rparr>
                       else st)
            in case (if cs_init st1 then Some [] else copy_init (snd input) (ix_initBoxes ix)) of
                 None \<Rightarrow> None
               | Some hb \<Rightarrow>
                   let st2 = st1\<lparr>cs_out := cs_out st1 @ hb, cs_init := True\<rparr>;
                       fileStart = map_get (cs_base st2) videoID
                   in case trimTimelineOrigin (ix_fragments ix) 0 videoID (ix_timeScales ix) of
                        (origin, originTS) \<Rightarrow>
                          join_fragments (snd input) (\<lambda>f. adjustedFragmentTimes f (ix_timeScales ix) origin originTS fileStart)
                            (ix_fragments ix) st2)"

fun join_files :: "int list \<Rightarrow> int list \<Rightarrow> mp4file list \<Rightarrow> concat_state \<Rightarrow> concat_state option" where
  "join_files order order2 [] st = Some st"
| "join_files order order2 (x # xs) st =
     (case join_file order order2 x st of None \<Rightarrow> None | Some st' \<Rightarrow> join_files order order2 xs st')"

definition concat_start :: concat_state where
  "concat_start = \<lparr>cs_out = [], cs_seq = 1, cs_base = Map.empty, cs_videoTS = 0, cs_videoID = 0, cs_init = False\<rparr>"

text \<open>
  \<open>ConcatMP4\<close> on its parsed inputs; when a window is asked for, the joined file is trimmed, with
  \<open>reparse\<close> standing for what the parser finds in it.
\<close>

definition ConcatMP4 :: "(float64 \<Rightarrow> int) \<Rightarrow> (float64 \<Rightarrow> int) \<Rightarrow> int list \<Rightarrow> int list \<Rightarrow> (bytes \<Rightarrow> mp4box list) \<Rightarrow>
    mp4file list \<Rightarrow> duration \<Rightarrow> duration \<Rightarrow> bytes option" where
  "ConcatMP4 oor oor2 order order2 reparse inputs start dur =
     (if inputs = [] then None
      else case join_files order order2 inputs concat_start of
        None \<Rightarrow> None
      | Some st \<Rightarrow>
          let videoTS = (if cs_videoTS st = 0 then 90000 else cs_videoTS st);
              totalDur = seconds_duration oor2 (map_get (cs_base st) (cs_videoID st)) videoTS
          in if start > 0 \<or> dur > 0 \<and> dur < totalDur
             then TrimMP4 oor order order2 (reparse (cs_out st)) (cs_out st) start dur
             else Some (cs_out st))"

section \<open>Playlists\<close>

record HLSSegmentRef =
  ref_path :: string
  ref_start :: int
  ref_end :: int

record hlsPlaylistSegment =
  hs_fileIdx :: nat
  hs_duration :: float64
  hs_startTick :: int
  hs_videoTS :: int
  hs_ref :: HLSSegmentRef

text \<open>The variables \<open>flush\<close> closes over; \<open>cur_start\<close> is negative when no segment is open.\<close>

record hls_cur =
  cur_start :: int
  cur_end :: int
  cur_ticks :: int
  cur_tick0 :: int
  cur_done :: "hlsPlaylistSegment list"

definition targetSegDur :: float64 where "targetSegDur = 4"

definition hls_flush :: "string \<Rightarrow> nat \<Rightarrow> int \<Rightarrow> hls_cur \<Rightarrow> hls_cur" where
  "hls_flush path fileIdx videoTS c =
     (if cur_start c < 0 then c
      else c\<lparr>cur_done := cur_done c @
          [\<lparr>hs_fileIdx = fileIdx, hs_duration = fdiv (float_of_int (cur_ticks c)) (float_of_int videoTS), hs_startTick = cur_tick0 c,
            hs_videoTS = videoTS, hs_ref = \<lparr>ref_path = path, ref_start = cur_start c, ref_end = cur_end c\<rparr>\<rparr>],
        cur_start := - 1, cur_end := 0, cur_ticks := 0\<rparr>)"

definition hls_step :: "string \<Rightarrow> nat \<Rightarrow> int \<Rightarrow> int \<Rightarrow> int \<Rightarrow> bool \<Rightarrow> hls_cur \<Rightarrow> fragment \<Rightarrow> hls_cur" where
  "hls_step path fileIdx videoTrackID videoTS startTick trimStart c f =
     (case traf videoTrackID f of
        None \<Rightarrow> c
      | Some t \<Rightarrow>
          if trimStart \<and> u64 (te_decodeTime t + te_duration t) \<le> startTick then c
          else
            let c1 = (if te_isSync t \<and> cur_start c \<ge> 0 \<and> fdiv (float_of_int (cur_ticks c)) (float_of_int videoTS) \<ge> targetSegDur
                      then hls_flush path fileIdx videoTS c else c);
                c2 = (if cur_start c1 < 0 then c1\<lparr>cur_start := moofOffset f, cur_tick0 := te_decodeTime t\<rparr> else c1);
                fragEnd = mdatOffset f + mdatSize f;
                c3 = (if fragEnd > cur_end c2 then c2\<lparr>cur_end := fragEnd\<rparr> else c2)
            in c3\<lparr>cur_ticks := u64 (cur_ticks c3 + te_duration t)\<rparr>)"

definition segmentHLSFile :: "string \<Rightarrow> nat \<Rightarrow> fragment list \<Rightarrow> int \<Rightarrow> int \<Rightarrow> int \<Rightarrow> bool \<Rightarrow> hlsPlaylistSegment list" where
  "segmentHLSFile path fileIdx frags videoTrackID videoTS startTick trimStart =
     cur_done (hls_flush path fileIdx videoTS
       (foldl (hls_step path fileIdx videoTrackID videoTS startTick trimStart)
         \<lparr>cur_start = - 1, cur_end = 0, cur_ticks = 0, cur_tick0 = 0, cur_done = []\<rparr> frags))"

definition hlsTargetDuration :: "hlsPlaylistSegment list \<Rightarrow> int" where
  "hlsTargetDuration segs =
     (let maxDur = foldl (\<lambda>m s. if hs_duration s > m then hs_duration s else m) 0 segs; target = \<lceil>maxDur\<rceil>
      in if target < 1 then 1 else target)"

text \<open>
  A file of a playlist: its path, what the parser finds in it, or a failure to open it.  A file that
  is still being written ends in a truncated box: \<open>truncated\<close> says that reading stopped there.
\<close>

datatype hls_file = CannotOpen | Opened (hf_path: string) (hf_boxes: "mp4box list") (hf_truncated: bool)

datatype hls_error = ErrNoPaths | ErrLengthMismatch | ErrOpen | ErrNoSegments | ErrNoUsableFragments

definition validateHLSInputs :: "hls_file list \<Rightarrow> string list \<Rightarrow> gotime list option \<Rightarrow> hls_error option" where
  "validateHLSInputs paths baseURIs fileStarts =
     (if paths = [] then Some ErrNoPaths
      else if length paths \<noteq> length baseURIs then Some ErrLengthMismatch
      else case fileStarts of
        Some fs \<Rightarrow> if length fs \<noteq> length paths then Some ErrLengthMismatch else None
      | None \<Rightarrow> None)"

definition indexHLSFile :: "int list \<Rightarrow> int list \<Rightarrow> hls_file \<Rightarrow> hls_error + fragment list \<times> int \<times> int" where
  "indexHLSFile order order2 h =
     (case h of
        CannotOpen \<Rightarrow> Inl ErrOpen
      | Opened path boxes truncated \<Rightarrow>
          (case indexFile boxes of
             (ok, ix) \<Rightarrow>
               if \<not> ok \<and> (\<not> truncated \<or> ix_fragments ix = []) then Inl ErrNoUsableFragments
               else
                 let videoTrackID = findVideoTrack order order2 (ix_fragments ix) (ix_timeScales ix)
                 in Inr (ix_fragments ix, videoTrackID, scale_or (ix_timeScales ix) videoTrackID)))"

fun playlist_segments :: "(float64 \<Rightarrow> int) \<Rightarrow> int list \<Rightarrow> int list \<Rightarrow> duration \<Rightarrow> nat \<Rightarrow> hls_file list \<Rightarrow> hls_error + hlsPlaylistSegment list" where
  "playlist_segments oor order order2 start i [] = Inr []"
| "playlist_segments oor order order2 start i (h # hs) =
     (case indexHLSFile order order2 h of
        Inl e \<Rightarrow> if e = ErrNoUsableFragments then playlist_segments oor order order2 start (Suc i) hs else Inl e
      | Inr (frags, videoTrackID, videoTS) \<Rightarrow>
          let trimStart = (i = 0 \<and> start > 0);
              startTick = (if trimStart then ticks oor start videoTS else 0)
          in (case playlist_segments oor order order2 start (Suc i) hs of
                Inl e \<Rightarrow> Inl e
              | Inr rest \<Rightarrow> Inr (segmentHLSFile (hf_path h) i frags videoTrackID videoTS startTick trimStart @ rest)))"

text \<open>The lines of a playlist, before their values are formatted as text.\<close>

datatype hls_line =
    HeaderLine string
  | TargetDurationLine int
  | StartLine float64
  | DiscontinuityLine
  | MapLine string
  | DateTimeLine gotime
  | ExtInfLine float64
  | UriLine string nat

definition writeHLSStartTag :: "hlsPlaylistSegment \<Rightarrow> duration \<Rightarrow> hls_line list" where
  "writeHLSStartTag first start =
     (if start \<le> 0 \<or> hs_fileIdx first \<noteq> 0 \<or> hs_videoTS first = 0 then []
      else
        let preferredStart = fsub (Seconds start) (fdiv (float_of_int (hs_startTick first)) (float_of_int (hs_videoTS first)))
        in if preferredStart > fl64 (1 / 1000) then [StartLine preferredStart] else [])"

fun playlist_body :: "string list \<Rightarrow> gotime list option \<Rightarrow> nat option \<Rightarrow> nat \<Rightarrow> hlsPlaylistSegment list \<Rightarrow> hls_line list" where
  "playlist_body baseURIs fileStarts lastFile n [] = []"
| "playlist_body baseURIs fileStarts lastFile n (s # ss) =
     (if lastFile = Some (hs_fileIdx s) then []
      else (if lastFile = None then [] else [DiscontinuityLine]) @ [MapLine (baseURIs ! hs_fileIdx s)] @
           (case fileStarts of
              None \<Rightarrow> []
            | Some fs \<Rightarrow> [DateTimeLine (tadd (fs ! hs_fileIdx s) (wrap64 (u64 (hs_startTick s * Second) div hs_videoTS s)))])) @
     [ExtInfLine (hs_duration s), UriLine (baseURIs ! hs_fileIdx s) n] @
     playlist_body baseURIs fileStarts (Some (hs_fileIdx s)) (Suc n) ss"

definition buildHLSPlaylist :: "hlsPlaylistSegment list \<Rightarrow> string list \<Rightarrow> gotime list option \<Rightarrow> duration \<Rightarrow> hls_line list \<times> HLSSegmentRef list" where
  "buildHLSPlaylist segs baseURIs fileStarts start =
     ([HeaderLine ''#EXTM3U'', HeaderLine ''#EXT-X-VERSION:7'', TargetDurationLine (hlsTargetDuration segs),
       HeaderLine ''#EXT-X-PLAYLIST-TYPE:VOD''] @ writeHLSStartTag (hd segs) start @
      playlist_body baseURIs fileStarts None 0 segs @ [HeaderLine ''#EXT-X-ENDLIST''],
      map hs_ref segs)"

definition GenerateHLSPlaylist :: "(float64 \<Rightarrow> int) \<Rightarrow> int list \<Rightarrow> int list \<Rightarrow> hls_file list \<Rightarrow> string list \<Rightarrow> gotime list option \<Rightarrow>
    duration \<Rightarrow> hls_error + hls_line list \<times> HLSSegmentRef list" where
  "GenerateHLSPlaylist oor order order2 paths baseURIs fileStarts start =
     (case validateHLSInputs paths baseURIs fileStarts of
        Some e \<Rightarrow> Inl e
      | None \<Rightarrow>
          (case playlist_segments oor order order2 start 0 paths of
             Inl e \<Rightarrow> Inl e
           | Inr segs \<Rightarrow> if segs = [] then Inl ErrNoSegments else Inr (buildHLSPlaylist segs baseURIs fileStarts start)))"

section \<open>Where a clip begins\<close>

lemma first_index_Some:
  "first_index P xs i = Some k \<Longrightarrow> i \<le> k \<and> k - i < length xs \<and> P (xs ! (k - i)) \<and> (\<forall>j < k - i. \<not> P (xs ! j))"
proof (induction xs arbitrary: i)
  case (Cons x xs)
  show ?case
  proof (cases "P x")
    case False
    then have r: "Suc i \<le> k \<and> k - Suc i < length xs \<and> P (xs ! (k - Suc i)) \<and> (\<forall>j < k - Suc i. \<not> P (xs ! j))" using Cons by simp
    then have "k - i = Suc (k - Suc i)" by arith
    moreover have "\<not> P ((x # xs) ! j)" if "j < Suc (k - Suc i)" for j using that r False by (cases j) auto
    ultimately show ?thesis using r by auto
  qed (use Cons.prems in simp)
qed simp

lemma first_index_None: "first_index P xs i = None \<longleftrightarrow> (\<forall>x\<in>set xs. \<not> P x)"
  by (induction xs arbitrary: i) auto

lemma back_up_Some:
  "back_up v frags n = Some i \<Longrightarrow> i < n \<and> opens_on_sync v (frags ! i) \<and> (\<forall>j. i < j \<and> j < n \<longrightarrow> \<not> opens_on_sync v (frags ! j))"
  by (induction n) (auto split: if_splits simp: less_Suc_eq)

lemma back_up_None: "back_up v frags n = None \<longleftrightarrow> (\<forall>j<n. \<not> opens_on_sync v (frags ! j))"
  by (induction n) (auto simp: less_Suc_eq)

declare back_up.simps [simp del]

text \<open>
  A clip begins where it must.  No fragment that reaches beyond the requested
  start is left out; and the clip begins with the last fragment at or before the first such fragment that
  opens on a keyframe, or with that fragment itself when no fragment up to it opens on one.
\<close>

theorem clip_start:
  assumes "k = firstFragmentForStart oor frags v scales start"
  shows "(\<forall>f\<in>set (take k frags). \<not> reaches oor v scales start f) \<and>
    (if \<exists>f\<in>set frags. reaches oor v scales start f
     then \<exists>j < length frags. k \<le> j \<and> reaches oor v scales start (frags ! j) \<and> (\<forall>i<j. \<not> reaches oor v scales start (frags ! i)) \<and>
       (if \<exists>i\<le>j. opens_on_sync v (frags ! i)
        then opens_on_sync v (frags ! k) \<and> (\<forall>i. k < i \<and> i \<le> j \<longrightarrow> \<not> opens_on_sync v (frags ! i))
        else k = j)
     else k = length frags)"
proof (cases "first_index (reaches oor v scales start) frags 0")
  case None
  then have n: "\<forall>f\<in>set frags. \<not> reaches oor v scales start f" by (simp add: first_index_None)
  have "k = length frags" using assms None by (simp add: firstFragmentForStart_def)
  then show ?thesis using n by auto
next
  case (Some j)
  have j: "j < length frags" "reaches oor v scales start (frags ! j)" "\<And>i. i < j \<Longrightarrow> \<not> reaches oor v scales start (frags ! i)"
    using first_index_Some[OF Some] by simp_all
  have k: "k = (case back_up v frags (Suc j) of Some i \<Rightarrow> i | None \<Rightarrow> j)" using assms Some by (simp add: firstFragmentForStart_def)
  have kj: "k \<le> j" using k back_up_Some[of v frags "Suc j"] by (auto split: option.splits simp: less_Suc_eq_le)
  have "\<not> reaches oor v scales start f" if "f \<in> set (take k frags)" for f
    using that j(3) kj by (auto simp: in_set_conv_nth)
  moreover have "if \<exists>i\<le>j. opens_on_sync v (frags ! i)
      then opens_on_sync v (frags ! k) \<and> (\<forall>i. k < i \<and> i \<le> j \<longrightarrow> \<not> opens_on_sync v (frags ! i)) else k = j"
  proof (cases "back_up v frags (Suc j)")
    case None
    then show ?thesis using k back_up_None[of v frags "Suc j"] by (auto simp: less_Suc_eq_le)
  next
    case (Some i)
    then show ?thesis using k back_up_Some[OF Some] by (auto simp: less_Suc_eq_le)
  qed
  moreover have ex: "\<exists>f\<in>set frags. reaches oor v scales start f" using j(2) nth_mem[OF j(1)] by blast
  ultimately show ?thesis unfolding if_P[OF ex] using j kj by blast
qed

section \<open>Times of a clip\<close>

lemma floor_diff: "0 < d \<Longrightarrow> 0 \<le> (of_int a / of_int d :: rat) - of_int (a div d) \<and> (of_int a / of_int d :: rat) - of_int (a div d) < 1"
proof -
  assume d: "0 < d"
  have "(of_int a :: rat) = of_int (a div d) * of_int d + of_int (a mod d)" by (metis of_int_add of_int_mult div_mult_mod_eq)
  then have "(of_int a / of_int d :: rat) - of_int (a div d) = of_int (a mod d) / of_int d" using d by (simp add: field_simps)
  moreover have "0 \<le> a mod d" "a mod d < d" using d by simp_all
  ultimately show ?thesis using d by simp
qed

text \<open>
  Tracks stay in step.  Rebasing moves every track by the same time: a sample at
  tick \<open>t\<close> of a track with timescale \<open>s\<close>, not before the origin, gets a time less than one tick of
  that track away from \<open>t - origin * s / originTS + offset * s / originTS\<close>, as long as the products
  fit their 64 bits.
\<close>

theorem tracks_stay_in_step:
  assumes "scales (te_trackID tr) = Some s" and "0 \<le> origin" and "0 \<le> s" and "0 < originTS" and "0 \<le> offs"
    and "origin * s < 2 ^ 64" and "offs * s < 2 ^ 64" and "te_decodeTime tr + offs * s < 2 ^ 64" and "origin * s \<le> te_decodeTime tr * originTS"
  shows "\<bar>rat_of_int (adjusted_time scales origin originTS offs tr) -
    (of_int (te_decodeTime tr) - of_int (origin * s) / of_int originTS + of_int (offs * s) / of_int originTS)\<bar> < 1"
proof -
  let ?t = "te_decodeTime tr" and ?sh = "(origin * s) div originTS" and ?of = "(offs * s) div originTS"
  have u: "u64 (origin * s) = origin * s" "u64 (offs * s) = offs * s" using assms by (simp_all add: u64_def)
  have sh: "0 \<le> ?sh" "?sh \<le> ?t"
    using assms zdiv_mono1[OF assms(9,4)] by (simp_all add: pos_imp_zdiv_nonneg_iff)
  have of: "0 \<le> ?of" "?of \<le> offs * s"
    using assms zdiv_mono2[of "offs * s" 1 originTS] by (simp_all add: pos_imp_zdiv_nonneg_iff)
  have base: "(if ?t > ?sh then ?t - ?sh else 0) = ?t - ?sh" using sh by auto
  have "0 \<le> ?t - ?sh + ?of" "?t - ?sh + ?of < 2 ^ 64" using sh of assms(8) by simp_all
  then have "u64 (?t - ?sh + ?of) = ?t - ?sh + ?of" by (simp add: u64_def)
  then have eq: "adjusted_time scales origin originTS offs tr = ?t - ?sh + ?of"
    unfolding adjusted_time_def Let_def by (simp only: assms(1) option.case u base)
  show ?thesis unfolding eq of_int_add of_int_diff abs_less_iff
    using floor_diff[OF assms(4), of "origin * s"] floor_diff[OF assms(4), of "offs * s"] by linarith
qed

theorem tracks_stay_in_step_witness:
  "\<bar>rat_of_int (adjusted_time [1 \<mapsto> 90000, 2 \<mapsto> 44100] 90001 90000 0 \<lparr>te_trackID = 2, te_decodeTime = 50000, te_duration = 1024, te_isSync = True\<rparr>) -
     (50000 - 90001 * 44100 / 90000 + 0)\<bar> < 1"
  using tracks_stay_in_step[of "[1 \<mapsto> 90000, 2 \<mapsto> 44100]" "\<lparr>te_trackID = 2, te_decodeTime = 50000, te_duration = 1024, te_isSync = True\<rparr>" 44100 90001 90000 0]
  by simp

section \<open>The segments of a playlist\<close>

text \<open>The fragments that contribute, and what a group of them becomes.\<close>

definition contributes :: "int \<Rightarrow> int \<Rightarrow> bool \<Rightarrow> fragment \<Rightarrow> bool" where
  "contributes v startTick trimStart f =
     (case traf v f of None \<Rightarrow> False | Some t \<Rightarrow> \<not> (trimStart \<and> u64 (te_decodeTime t + te_duration t) \<le> startTick))"

definition video_traf :: "int \<Rightarrow> fragment \<Rightarrow> trafEntry" where
  "video_traf v f = the (traf v f)"

definition group_end :: "fragment list \<Rightarrow> int" where
  "group_end g = foldl (\<lambda>e f. max e (mdatOffset f + mdatSize f)) 0 g"

definition group_ticks :: "int \<Rightarrow> fragment list \<Rightarrow> int" where
  "group_ticks v g = foldl (\<lambda>a f. u64 (a + te_duration (video_traf v f))) 0 g"

definition group_duration :: "int \<Rightarrow> int \<Rightarrow> fragment list \<Rightarrow> float64" where
  "group_duration v ts g = fdiv (float_of_int (group_ticks v g)) (float_of_int ts)"

definition group_segment :: "string \<Rightarrow> nat \<Rightarrow> int \<Rightarrow> int \<Rightarrow> fragment list \<Rightarrow> hlsPlaylistSegment" where
  "group_segment path i v ts g =
     \<lparr>hs_fileIdx = i, hs_duration = group_duration v ts g, hs_startTick = te_decodeTime (video_traf v (hd g)), hs_videoTS = ts,
      hs_ref = \<lparr>ref_path = path, ref_start = moofOffset (hd g), ref_end = group_end g\<rparr>\<rparr>"

text \<open>
  The loop after some fragments: the closed groups \<open>gs\<close> and the open one \<open>g\<close>.
\<close>

definition hls_inv :: "string \<Rightarrow> nat \<Rightarrow> int \<Rightarrow> int \<Rightarrow> fragment list \<Rightarrow> fragment list list \<Rightarrow> fragment list \<Rightarrow> hls_cur \<Rightarrow> bool" where
  "hls_inv path i v ts fs gs g c \<longleftrightarrow>
     concat gs @ g = fs \<and> (g = [] \<longrightarrow> gs = []) \<and> [] \<notin> set gs \<and> (\<forall>h\<in>set (tl (gs @ [g])). opens_on_sync v (hd h)) \<and>
     (\<forall>h\<in>set gs. targetSegDur \<le> group_duration v ts h) \<and>
     cur_done c = map (group_segment path i v ts) gs \<and> cur_end c = group_end g \<and> cur_ticks c = group_ticks v g \<and>
     (if g = [] then cur_start c = - 1 else cur_start c = moofOffset (hd g) \<and> cur_tick0 c = te_decodeTime (video_traf v (hd g)))"

lemma hls_flush_inv:
  assumes "hls_inv path i v ts fs gs g c" and "g \<noteq> []" and "0 \<le> moofOffset (hd g)"
  shows "cur_done (hls_flush path i ts c) = map (group_segment path i v ts) (gs @ [g]) \<and> cur_start (hls_flush path i ts c) = - 1 \<and>
    cur_end (hls_flush path i ts c) = 0 \<and> cur_ticks (hls_flush path i ts c) = 0"
  using assms by (simp add: hls_inv_def hls_flush_def group_segment_def group_duration_def)

lemma hls_step_skip: "\<not> contributes v st trim f \<Longrightarrow> hls_step path i v ts st trim c f = c"
  by (auto simp: hls_step_def contributes_def split: option.splits if_splits)

lemma group_snoc:
  "group_end (g @ [f]) = max (group_end g) (mdatOffset f + mdatSize f)"
  "group_ticks v (g @ [f]) = u64 (group_ticks v g + te_duration (video_traf v f))"
  by (simp_all add: group_end_def group_ticks_def)

lemma group_one: "group_end [f] = max 0 (mdatOffset f + mdatSize f)" "group_ticks v [f] = u64 (te_duration (video_traf v f))"
  by (simp_all add: group_end_def group_ticks_def)

lemma hls_step_inv:
  assumes inv: "hls_inv path i v ts fs gs g c" and con: "contributes v st trim f" and pos: "\<And>x. x \<in> set (g @ [f]) \<Longrightarrow> 0 \<le> moofOffset x"
  shows "\<exists>gs' g'. hls_inv path i v ts (fs @ [f]) gs' g' (hls_step path i v ts st trim c f) \<and> g' \<noteq> [] \<and> set g' \<subseteq> set g \<union> {f}"
proof -
  obtain t where t: "traf v f = Some t" and keep: "\<not> (trim \<and> u64 (te_decodeTime t + te_duration t) \<le> st)"
    using con by (auto simp: contributes_def split: option.splits)
  have vt: "video_traf v f = t" and sync: "opens_on_sync v f = te_isSync t" using t by (simp_all add: video_traf_def opens_on_sync_def)
  have f0: "0 \<le> moofOffset f" using pos by simp
  note d = inv[unfolded hls_inv_def]
  show ?thesis
  proof (cases "te_isSync t \<and> g \<noteq> [] \<and> targetSegDur \<le> group_duration v ts g")
    case True
    then have g: "g \<noteq> []" and g0: "0 \<le> moofOffset (hd g)" using pos by (auto intro: pos)
    have cur: "0 \<le> cur_start c" "targetSegDur \<le> fdiv (float_of_int (cur_ticks c)) (float_of_int ts)"
      using d g g0 True by (simp_all add: group_duration_def)
    note fl = hls_flush_inv[OF inv g g0]
    have "hls_inv path i v ts (fs @ [f]) (gs @ [g]) [f] (hls_step path i v ts st trim c f)"
      unfolding hls_inv_def
    proof (intro conjI)
      show "\<forall>h\<in>set (tl ((gs @ [g]) @ [[f]])). opens_on_sync v (hd h)"
        using d True sync g by (cases gs) auto
      show "\<forall>h\<in>set (gs @ [g]). targetSegDur \<le> group_duration v ts h" using d True by auto
    qed (use d g fl t keep True cur f0 vt in \<open>auto simp: hls_step_def Let_def group_one\<close>)
    then show ?thesis by (intro exI[of _ "gs @ [g]"] exI[of _ "[f]"]) auto
  next
    case False
    have ncl: "\<not> (te_isSync t \<and> 0 \<le> cur_start c \<and> targetSegDur \<le> fdiv (float_of_int (cur_ticks c)) (float_of_int ts))"
      using False d by (auto simp: group_duration_def)
    have "g \<noteq> [] \<Longrightarrow> 0 \<le> moofOffset (hd g)" by (rule pos) simp
    then have st0: "cur_start c < 0 \<longleftrightarrow> g = []" using d by (cases "g = []") auto
    have "hls_inv path i v ts (fs @ [f]) gs (g @ [f]) (hls_step path i v ts st trim c f)"
      unfolding hls_inv_def
    proof (intro conjI)
      show "\<forall>h\<in>set (tl (gs @ [g @ [f]])). opens_on_sync v (hd h)"
        using d by (cases gs) (auto simp: hd_append)
    qed (use d t keep ncl st0 vt in \<open>auto simp: hls_step_def Let_def group_snoc\<close>)
    then show ?thesis by (intro exI[of _ gs] exI[of _ "g @ [f]"]) auto
  qed
qed

lemma hls_fold_inv:
  assumes "\<And>f. f \<in> set frags \<Longrightarrow> 0 \<le> moofOffset f"
  shows "\<exists>gs g. hls_inv path i v ts (filter (contributes v st trim) frags) gs g
    (foldl (hls_step path i v ts st trim) \<lparr>cur_start = - 1, cur_end = 0, cur_ticks = 0, cur_tick0 = 0, cur_done = []\<rparr> frags)
    \<and> set g \<subseteq> set frags"
  using assms
proof (induction frags rule: rev_induct)
  case Nil
  then show ?case by (intro exI[of _ "[]"]) (simp add: hls_inv_def group_end_def group_ticks_def)
next
  case (snoc f frags)
  let ?c = "foldl (hls_step path i v ts st trim) \<lparr>cur_start = - 1, cur_end = 0, cur_ticks = 0, cur_tick0 = 0, cur_done = []\<rparr> frags"
  obtain gs g where inv: "hls_inv path i v ts (filter (contributes v st trim) frags) gs g ?c" and g: "set g \<subseteq> set frags"
    using snoc by auto
  show ?case
  proof (cases "contributes v st trim f")
    case True
    have "0 \<le> moofOffset x" if "x \<in> set (g @ [f])" for x using that g snoc.prems by auto
    from hls_step_inv[OF inv True this] obtain gs' g' where
      "hls_inv path i v ts (filter (contributes v st trim) frags @ [f]) gs' g' (hls_step path i v ts st trim ?c f)" "set g' \<subseteq> set g \<union> {f}"
      by blast
    then show ?thesis using g True by (intro exI[of _ gs'] exI[of _ g']) auto
  next
    case False
    then show ?thesis using inv g by (auto simp: hls_step_skip)
  qed
qed

text \<open>
  Playlist segments are decodable pieces of the file, none missing.  The video
  fragments that are not trimmed away are cut, in order, into groups; every group but the first opens on a
  keyframe, every group but the last plays for four seconds or more, and a group becomes a segment with
  the bytes from its first fragment to the last byte of its media and the duration of its video.
\<close>

theorem playlist_segments_cut:
  assumes "list_all (\<lambda>f. 0 \<le> moofOffset f) frags"
  shows "\<exists>gs. concat gs = filter (contributes v startTick trimStart) frags \<and> [] \<notin> set gs \<and>
    list_all (\<lambda>g. opens_on_sync v (hd g)) (tl gs) \<and> list_all (\<lambda>g. targetSegDur \<le> group_duration v ts g) (butlast gs) \<and>
    segmentHLSFile path i frags v ts startTick trimStart = map (group_segment path i v ts) gs"
proof -
  have pos: "\<And>f. f \<in> set frags \<Longrightarrow> 0 \<le> moofOffset f" using assms by (simp add: list_all_iff)
  let ?c = "foldl (hls_step path i v ts startTick trimStart) \<lparr>cur_start = - 1, cur_end = 0, cur_ticks = 0, cur_tick0 = 0, cur_done = []\<rparr> frags"
  obtain gs g where inv: "hls_inv path i v ts (filter (contributes v startTick trimStart) frags) gs g ?c" and sub: "set g \<subseteq> set frags"
    using hls_fold_inv[OF pos] by blast
  note d = inv[unfolded hls_inv_def]
  show ?thesis
  proof (cases "g = []")
    case True
    then show ?thesis using d by (intro exI[of _ "[]"]) (auto simp: segmentHLSFile_def hls_flush_def)
  next
    case False
    then have "0 \<le> moofOffset (hd g)" using pos sub by (meson hd_in_set subsetD)
    from hls_flush_inv[OF inv False this] show ?thesis
      using d False by (intro exI[of _ "gs @ [g]"]) (auto simp: segmentHLSFile_def list_all_iff)
  qed
qed

definition sample_frag :: "int \<Rightarrow> int \<Rightarrow> bool \<Rightarrow> fragment" where
  "sample_frag k secs sync =
     \<lparr>moofOffset = 1000 * k, moofSize = 100, mdatOffset = 1000 * k + 100, mdatSize = 900,
      trafs = [\<lparr>te_trackID = 1, te_decodeTime = 90000 * secs, te_duration = 180000, te_isSync = sync\<rparr>]\<rparr>"

theorem playlist_segments_cut_witness:
  "map (\<lambda>s. (ref_start (hs_ref s), ref_end (hs_ref s), hs_duration s))
     (segmentHLSFile ''a.mp4'' 0 [sample_frag 1 0 True, sample_frag 2 2 False, sample_frag 3 4 True] 1 90000 0 False) =
     [(1000, 3000, 4), (3000, 4000, 2)] \<and>
   (\<exists>gs. concat gs = filter (contributes 1 0 False) [sample_frag 1 0 True, sample_frag 2 2 False, sample_frag 3 4 True] \<and> [] \<notin> set gs \<and>
    list_all (\<lambda>g. opens_on_sync 1 (hd g)) (tl gs) \<and> list_all (\<lambda>g. targetSegDur \<le> group_duration 1 90000 g) (butlast gs) \<and>
    segmentHLSFile ''a.mp4'' 0 [sample_frag 1 0 True, sample_frag 2 2 False, sample_frag 3 4 True] 1 90000 0 False =
      map (group_segment ''a.mp4'' 0 1 90000) gs)"
proof
  show "map (\<lambda>s. (ref_start (hs_ref s), ref_end (hs_ref s), hs_duration s))
     (segmentHLSFile ''a.mp4'' 0 [sample_frag 1 0 True, sample_frag 2 2 False, sample_frag 3 4 True] 1 90000 0 False) =
     [(1000, 3000, 4), (3000, 4000, 2)]" by code_simp
  show "\<exists>gs. concat gs = filter (contributes 1 0 False) [sample_frag 1 0 True, sample_frag 2 2 False, sample_frag 3 4 True] \<and> [] \<notin> set gs \<and>
    list_all (\<lambda>g. opens_on_sync 1 (hd g)) (tl gs) \<and> list_all (\<lambda>g. targetSegDur \<le> group_duration 1 90000 g) (butlast gs) \<and>
    segmentHLSFile ''a.mp4'' 0 [sample_frag 1 0 True, sample_frag 2 2 False, sample_frag 3 4 True] 1 90000 0 False =
      map (group_segment ''a.mp4'' 0 1 90000) gs"
    by (rule playlist_segments_cut) (simp add: sample_frag_def)
qed

text \<open>The declared target duration is no shorter than any segment of the playlist.\<close>

lemma max_fold: "m \<le> foldl (\<lambda>m s. if hs_duration s > m then hs_duration s else m) m segs \<and>
  (\<forall>s\<in>set segs. hs_duration s \<le> foldl (\<lambda>m s. if hs_duration s > m then hs_duration s else m) m segs)"
proof (induction segs arbitrary: m)
  case (Cons s segs)
  let ?m = "if hs_duration s > m then hs_duration s else m"
  show ?case using Cons.IH[of ?m] by (auto intro: order_trans)
qed simp

lemma hlsTargetDuration_bound: "s \<in> set segs \<Longrightarrow> hs_duration s \<le> of_int (hlsTargetDuration segs) \<and> 1 \<le> hlsTargetDuration segs"
proof -
  assume "s \<in> set segs"
  let ?m = "foldl (\<lambda>m s. if hs_duration s > m then hs_duration s else m) 0 segs"
  have "hs_duration s \<le> ?m" using max_fold[of 0 segs] \<open>s \<in> set segs\<close> by blast
  also have "?m \<le> of_int \<lceil>?m\<rceil>" by (rule le_of_int_ceiling)
  also have "of_int \<lceil>?m\<rceil> \<le> (of_int (hlsTargetDuration segs) :: rat)" by (simp add: hlsTargetDuration_def Let_def)
  finally show ?thesis by (simp add: hlsTargetDuration_def Let_def)
qed

theorem clip_start_witness:
  "firstFragmentForStart (\<lambda>_. 0) [sample_frag 1 0 True, sample_frag 2 2 False, sample_frag 3 4 True] 1 [1 \<mapsto> 90000] (3 * Second) = 0 \<and>
   opens_on_sync 1 (sample_frag 1 0 True) \<and> \<not> opens_on_sync 1 (sample_frag 2 2 False)"
proof -
  let ?fs = "[sample_frag 1 0 True, sample_frag 2 2 False, sample_frag 3 4 True]"
  have k: "firstFragmentForStart (\<lambda>_. 0) ?fs 1 [1 \<mapsto> 90000] (3 * Second) = 0" by code_simp
  have r: "\<not> reaches (\<lambda>_. 0) 1 [1 \<mapsto> 90000] (3 * Second) (sample_frag 1 0 True)"
    and r1: "reaches (\<lambda>_. 0) 1 [1 \<mapsto> 90000] (3 * Second) (sample_frag 2 2 False)" by code_simp+
  have s: "opens_on_sync 1 (sample_frag 1 0 True)" by code_simp
  have ex: "\<exists>f\<in>set ?fs. reaches (\<lambda>_. 0) 1 [1 \<mapsto> 90000] (3 * Second) f" using r1 by auto
  obtain j where j: "j < length ?fs" "\<forall>i<j. \<not> reaches (\<lambda>_. 0) 1 [1 \<mapsto> 90000] (3 * Second) (?fs ! i)"
    "reaches (\<lambda>_. 0) 1 [1 \<mapsto> 90000] (3 * Second) (?fs ! j)"
    "if \<exists>i\<le>j. opens_on_sync 1 (?fs ! i) then opens_on_sync 1 (?fs ! 0) \<and> (\<forall>i. 0 < i \<and> i \<le> j \<longrightarrow> \<not> opens_on_sync 1 (?fs ! i)) else 0 = j"
    using clip_start[OF k[symmetric]] unfolding if_P[OF ex] by blast
  have j1: "j \<noteq> 0" using j(3) r by (auto intro: gr0I)
  have "opens_on_sync 1 (?fs ! 0)" using s by simp
  then have some: "\<exists>i\<le>j. opens_on_sync 1 (?fs ! i)" by blast
  have "\<forall>i. 0 < i \<and> i \<le> j \<longrightarrow> \<not> opens_on_sync 1 (?fs ! i)" using j(4) unfolding if_P[OF some] by blast
  then have "\<not> opens_on_sync 1 (?fs ! 1)" using j1 by (metis One_nat_def Suc_leI neq0_conv zero_less_one)
  then show ?thesis using k s by simp
qed

end
