(* ===== verification/Mp4_Writer.thy ===== *)
theory Mp4_Writer
  imports Mp4_Fragments
begin

text \<open>
  Writing segments: \<^verbatim>\<open>internal/media/mp4writer.go\<close>, \<^verbatim>\<open>internal/media/recording_audio.go\<close> and
  \<^verbatim>\<open>internal/rtsp/h264_access_unit.go\<close>.  The depacketizers, the AAC encoder and the fMP4 marshaller
  belong to libraries: what they return is an argument (\<open>writer_env\<close>) or the outcome handed to an
  operation, and the theorems hold for all of it.  A file is the list of what was marshalled into it; a failed write
  leaves \<open>Torn\<close>, whatever part of the data reached the file.  Tick counters are unbounded
  (\<open>2 ^ 64\<close> ticks are millions of years); RTP timestamps and the products in the conversions to nanoseconds
  keep their widths.
\<close>

section \<open>Packets and access units\<close>

record rtp_packet =
  rp_Timestamp :: int
  rp_SequenceNumber :: int
  rp_SSRC :: int
  rp_PayloadType :: int
  rp_Payload :: bytes

text \<open>The outcome of the library's depacketizer: the access unit and whether there is an error.\<close>

type_synonym depacketized = "access_unit \<times> bool"

record H264AccessUnitDecoder =
  haveTimestamp :: bool
  currentTimestamp :: int

definition NewH264AccessUnitDecoder :: H264AccessUnitDecoder where
  "NewH264AccessUnitDecoder = \<lparr>haveTimestamp = False, currentTimestamp = 0\<rparr>"

definition Decode :: "depacketized \<Rightarrow> int \<Rightarrow> H264AccessUnitDecoder \<Rightarrow> (access_unit \<times> int \<times> bool) \<times> H264AccessUnitDecoder" where
  "Decode out timestamp d =
     (let d1 = (if haveTimestamp d then d else \<lparr>haveTimestamp = True, currentTimestamp = timestamp\<rparr>);
          changed = (timestamp \<noteq> currentTimestamp d1);
          d2 = (if fst out \<noteq> [] \<and> changed then d1\<lparr>currentTimestamp := timestamp\<rparr> else d1)
      in ((fst out, currentTimestamp d1, snd out), d2))"

definition Flush :: "depacketized \<Rightarrow> H264AccessUnitDecoder \<Rightarrow> (access_unit \<times> int \<times> bool) \<times> H264AccessUnitDecoder" where
  "Flush out d = (if \<not> haveTimestamp d then (([], 0, False), d) else Decode out (u32 (currentTimestamp d + 1)) d)"

section \<open>The state of a writer\<close>

record sample =
  sm_Duration :: nat
  sm_IsNonSync :: bool
  sm_Payload :: bytes

record part_track =
  pt_ID :: int
  pt_BaseTime :: nat
  pt_Samples :: "sample list"

record part =
  pa_SequenceNumber :: int
  pa_Tracks :: "part_track list"

text \<open>\<open>InitItem sps pps audio\<close> with the sample rate and channels of the audio track.\<close>

datatype file_item = InitItem nalu nalu "(int \<times> int) option" | PartItem part | Torn

record recordingAudio =
  ra_PayloadType :: int
  ra_ClockRate :: int
  ra_encoder :: bool
  ra_factor :: nat
  ra_skip :: nat
  ra_input :: nat
  ra_written :: nat
  ra_base :: nat
  ra_previous :: "rtp_packet option"

text \<open>A nil parameter set is the empty list; a nil decoder or encoder is \<open>None\<close> or \<open>False\<close>.\<close>

record SegmentWriter =
  sw_file :: "file_item list"
  sw_h264Decoder :: "H264AccessUnitDecoder option"
  sw_videoSPS :: nalu
  sw_videoPPS :: nalu
  sw_aacDecoder :: bool
  sw_aacConfig :: "(int \<times> int) option"
  sw_recordingAudio :: "recordingAudio option"
  sw_audioErr :: bool
  sw_preAudio :: "(rtp_packet \<times> gotime) list"
  sw_initWritten :: bool
  sw_seqNum :: int
  sw_videoDTS :: nat
  sw_lastVideoDuration :: nat
  sw_audioDTS :: nat
  sw_startTime :: gotime
  sw_firstSampleTime :: gotime
  sw_hasAudio :: bool
  sw_pendingVideoTimestamp :: int
  sw_pendingVideoTime :: gotime
  sw_hasPendingVideoTime :: bool
  sw_skipDecoderFlush :: bool
  sw_pendingVideoSamples :: "sample list"
  sw_pendingAudioSamples :: "sample list"
  sw_pendingVideoDTS :: nat
  sw_pendingAudioDTS :: nat
  sw_pendingBytes :: nat
  sw_flushedVideoDTS :: nat

datatype write_error = ErrTimestampGap | ErrMarshal | ErrInit | ErrFillSample

datatype write_result = Written | Failed write_error | Panicked

text \<open>What the libraries and the file system answer during one operation.\<close>

record writer_env =
  env_part :: "file_item list \<Rightarrow> part \<Rightarrow> bool"
  env_init :: bool
  env_IsRandomAccess :: "access_unit \<Rightarrow> bool"
  env_AVCC :: "access_unit \<Rightarrow> bytes option"
  env_newEncoder :: "nat option"
  env_encode :: "nat \<Rightarrow> bytes \<Rightarrow> bytes list option"
  env_flushResampler :: "bytes list option"
  env_drain :: "bytes list option"

definition videoTrackID :: int where "videoTrackID = 1"
definition audioTrackID :: int where "audioTrackID = 2"
definition videoTimeScale :: nat where "videoTimeScale = 90000"
definition maxPendingPartSeconds :: nat where "maxPendingPartSeconds = 4"
definition maxPendingPartBytes :: nat where "maxPendingPartBytes = 8 * 2 ^ 20"
definition recordingAudioRate :: nat where "recordingAudioRate = 48000"

section \<open>Writing parts\<close>

definition pending_tracks :: "SegmentWriter \<Rightarrow> part_track list" where
  "pending_tracks sw =
     (if sw_pendingVideoSamples sw \<noteq> []
      then [\<lparr>pt_ID = videoTrackID, pt_BaseTime = sw_pendingVideoDTS sw, pt_Samples = sw_pendingVideoSamples sw\<rparr>] else []) @
     (if sw_pendingAudioSamples sw \<noteq> []
      then [\<lparr>pt_ID = audioTrackID, pt_BaseTime = sw_pendingAudioDTS sw, pt_Samples = sw_pendingAudioSamples sw\<rparr>] else [])"

definition flushGOP :: "writer_env \<Rightarrow> SegmentWriter \<Rightarrow> write_result \<times> SegmentWriter" where
  "flushGOP e sw =
     (if pending_tracks sw = [] then (Written, sw)
      else
        let part = \<lparr>pa_SequenceNumber = sw_seqNum sw, pa_Tracks = pending_tracks sw\<rparr>
        in if \<not> env_part e (sw_file sw) part then (Failed ErrMarshal, sw\<lparr>sw_file := sw_file sw @ [Torn]\<rparr>)
           else (Written, sw\<lparr>sw_file := sw_file sw @ [PartItem part],
             sw_flushedVideoDTS := (if sw_pendingVideoSamples sw \<noteq> []
               then sw_pendingVideoDTS sw + sum_list (map sm_Duration (sw_pendingVideoSamples sw)) else sw_flushedVideoDTS sw),
             sw_seqNum := u32 (sw_seqNum sw + 1), sw_pendingVideoSamples := [], sw_pendingAudioSamples := [], sw_pendingBytes := 0\<rparr>))"

definition capPendingPart :: "writer_env \<Rightarrow> SegmentWriter \<Rightarrow> write_result \<times> SegmentWriter" where
  "capPendingPart e sw =
     (if sw_pendingVideoSamples sw = [] \<and> sw_pendingAudioSamples sw = [] then (Written, sw)
      else
        let overBytes = (sw_pendingBytes sw \<ge> maxPendingPartBytes);
            overTime = (sw_pendingVideoSamples sw \<noteq> [] \<and> sw_videoDTS sw - sw_pendingVideoDTS sw \<ge> videoTimeScale * maxPendingPartSeconds)
        in if \<not> overBytes \<and> \<not> overTime then (Written, sw) else flushGOP e sw)"

definition writeInit :: "writer_env \<Rightarrow> SegmentWriter \<Rightarrow> write_result \<times> SegmentWriter" where
  "writeInit e sw =
     (if env_init e
      then (Written, sw\<lparr>sw_file := sw_file sw @ [InitItem (sw_videoSPS sw) (sw_videoPPS sw) (if sw_hasAudio sw then sw_aacConfig sw else None)]\<rparr>)
      else (Failed ErrInit, sw\<lparr>sw_file := sw_file sw @ [Torn]\<rparr>))"

section \<open>Audio that is transcoded\<close>

definition restart :: "writer_env \<Rightarrow> nat \<Rightarrow> recordingAudio \<Rightarrow> recordingAudio option" where
  "restart e base r =
     (case env_newEncoder e of
        None \<Rightarrow> None
      | Some delay \<Rightarrow> Some (r\<lparr>ra_encoder := True, ra_skip := delay div 1024, ra_input := 0, ra_written := 0, ra_base := base\<rparr>))"

definition failAudio :: "SegmentWriter \<Rightarrow> SegmentWriter" where
  "failAudio sw =
     (if sw_audioErr sw then sw
      else sw\<lparr>sw_recordingAudio := map_option (\<lambda>r. r\<lparr>ra_encoder := False\<rparr>) (sw_recordingAudio sw), sw_audioErr := True, sw_preAudio := []\<rparr>)"

text \<open>Appending an audio sample: \<open>t\<close> is the time of the sample, \<open>a\<close> the end of the track after it.\<close>

definition push_audio :: "nat \<Rightarrow> nat \<Rightarrow> bytes \<Rightarrow> nat \<Rightarrow> SegmentWriter \<Rightarrow> SegmentWriter" where
  "push_audio t dur payload a sw =
     (let sw1 = (if sw_pendingAudioSamples sw = [] then sw\<lparr>sw_pendingAudioDTS := t\<rparr> else sw)
      in sw1\<lparr>sw_pendingAudioSamples := sw_pendingAudioSamples sw1 @ [\<lparr>sm_Duration = dur, sm_IsNonSync = False, sm_Payload = payload\<rparr>],
             sw_pendingBytes := sw_pendingBytes sw1 + length payload, sw_audioDTS := a\<rparr>)"

fun appendEncodedAudio :: "bytes list \<Rightarrow> recordingAudio \<Rightarrow> SegmentWriter \<Rightarrow> SegmentWriter" where
  "appendEncodedAudio [] r sw = sw\<lparr>sw_recordingAudio := Some r\<rparr>"
| "appendEncodedAudio (payload # frames) r sw =
     (if ra_skip r > 0 then appendEncodedAudio frames (r\<lparr>ra_skip := ra_skip r - 1\<rparr>) sw
      else if ra_input r - ra_written r = 0 then appendEncodedAudio frames r sw
      else
        let dur = min 1024 (ra_input r - ra_written r)
        in appendEncodedAudio frames (r\<lparr>ra_written := ra_written r + dur\<rparr>)
             (push_audio (ra_base r + ra_written r) dur payload (ra_base r + (ra_written r + dur)) sw))"

definition close_encoder :: "SegmentWriter \<Rightarrow> SegmentWriter" where
  "close_encoder sw = sw\<lparr>sw_recordingAudio := map_option (\<lambda>r. r\<lparr>ra_encoder := False\<rparr>) (sw_recordingAudio sw)\<rparr>"

definition append_audio :: "bytes list \<Rightarrow> SegmentWriter \<Rightarrow> SegmentWriter" where
  "append_audio frames sw = (case sw_recordingAudio sw of None \<Rightarrow> sw | Some r \<Rightarrow> appendEncodedAudio frames r sw)"

definition finishRecordingAudio :: "writer_env \<Rightarrow> SegmentWriter \<Rightarrow> SegmentWriter" where
  "finishRecordingAudio e sw =
     (case sw_recordingAudio sw of
        None \<Rightarrow> sw
      | Some r \<Rightarrow>
          if \<not> ra_encoder r then sw
          else
            (case env_flushResampler e of
               None \<Rightarrow> close_encoder (failAudio sw)
             | Some frames \<Rightarrow>
                 let sw1 = append_audio frames sw
                 in case env_drain e of
                      None \<Rightarrow> close_encoder (failAudio sw1)
                    | Some frames' \<Rightarrow> close_encoder (append_audio frames' sw1)))"

text \<open>Conversions to the signed types.\<close>

definition s16 :: "int \<Rightarrow> int" where "s16 x = (x + 2 ^ 15) mod 2 ^ 16 - 2 ^ 15"
definition s32 :: "int \<Rightarrow> int" where "s32 x = (x + 2 ^ 31) mod 2 ^ 32 - 2 ^ 31"

definition video_audio_time :: "SegmentWriter \<Rightarrow> nat" where
  "video_audio_time sw = sw_videoDTS sw * recordingAudioRate div videoTimeScale"

text \<open>Where the audio goes on after a loss: the new base, in 48 kHz ticks.\<close>

definition audio_resume :: "rtp_packet \<Rightarrow> rtp_packet \<Rightarrow> recordingAudio \<Rightarrow> SegmentWriter \<Rightarrow> nat" where
  "audio_resume pkt prev r sw =
     (let delta = s32 (rp_Timestamp pkt - rp_Timestamp prev); len = int (length (rp_Payload prev)); next = ra_base r + ra_input r
      in if rp_SSRC pkt = rp_SSRC prev \<and> delta \<ge> len \<and> delta \<le> s32 (ra_ClockRate r * 10)
         then ra_base r + ra_input r + nat (delta - len) * ra_factor r
         else max next (video_audio_time sw))"

text \<open>The end of \<open>writeG711Audio\<close>: the packet is encoded.\<close>

definition encode_packet :: "writer_env \<Rightarrow> rtp_packet \<Rightarrow> recordingAudio \<Rightarrow> SegmentWriter \<Rightarrow> write_result \<times> SegmentWriter" where
  "encode_packet e pkt r sw =
     (let r1 = r\<lparr>ra_previous := Some pkt, ra_input := ra_input r + length (rp_Payload pkt) * ra_factor r\<rparr>
      in case env_encode e (ra_input r) (rp_Payload pkt) of
           None \<Rightarrow> (Written, failAudio (sw\<lparr>sw_recordingAudio := Some r1\<rparr>))
         | Some frames \<Rightarrow> capPendingPart e (appendEncodedAudio frames r1 sw))"

definition restart_audio :: "writer_env \<Rightarrow> rtp_packet \<Rightarrow> nat \<Rightarrow> SegmentWriter \<Rightarrow> write_result \<times> SegmentWriter" where
  "restart_audio e pkt next sw =
     (case flushGOP e (finishRecordingAudio e sw) of
        (Written, sw1) \<Rightarrow>
          if sw_audioErr sw1 then (Written, sw1)
          else (case sw_recordingAudio sw1 of
                  None \<Rightarrow> (Written, sw1)
                | Some r \<Rightarrow> (case restart e next r of
                               None \<Rightarrow> (Written, failAudio sw1)
                             | Some r' \<Rightarrow> encode_packet e pkt r' sw1))
      | (bad, sw1) \<Rightarrow> (bad, sw1))"

definition writeG711Audio :: "writer_env \<Rightarrow> gotime \<Rightarrow> rtp_packet option \<Rightarrow> SegmentWriter \<Rightarrow> write_result \<times> SegmentWriter" where
  "writeG711Audio e now packet sw =
     (case (sw_recordingAudio sw, packet) of
        (Some r, Some pkt) \<Rightarrow>
          if \<not> ra_encoder r \<or> rp_Payload pkt = [] \<or> length (rp_Payload pkt) > 8192 \<or> rp_PayloadType pkt \<noteq> ra_PayloadType r then (Written, sw)
          else if \<not> sw_initWritten sw then
            (Written, if sw_hasPendingVideoTime sw \<and> length (sw_preAudio sw) < 16
                      then sw\<lparr>sw_preAudio := sw_preAudio sw @ [(pkt, now)]\<rparr> else sw)
          else
            (case ra_previous r of
               None \<Rightarrow> encode_packet e pkt (r\<lparr>ra_base := video_audio_time sw\<rparr>) sw
             | Some prev \<Rightarrow>
                 let seq = s16 (rp_SequenceNumber pkt - rp_SequenceNumber prev);
                     delta = s32 (rp_Timestamp pkt - rp_Timestamp prev)
                 in if rp_SSRC pkt = rp_SSRC prev \<and> seq \<le> 0 \<and> seq \<ge> - 64 then (Written, sw)
                    else if rp_SSRC pkt \<noteq> rp_SSRC prev \<or> seq \<noteq> 1 \<or> delta \<noteq> int (length (rp_Payload prev))
                    then restart_audio e pkt (audio_resume pkt prev r sw) sw
                    else encode_packet e pkt r sw)
      | _ \<Rightarrow> (Written, sw))"

section \<open>Writing video\<close>

text \<open>The audio packets that waited for the opening keyframe.\<close>

fun write_queued :: "writer_env \<Rightarrow> gotime \<Rightarrow> gotime \<Rightarrow> (rtp_packet \<times> gotime) list \<Rightarrow> SegmentWriter \<Rightarrow> write_result \<times> SegmentWriter" where
  "write_queued e now sampleTime [] sw = (Written, sw)"
| "write_queued e now sampleTime ((pkt, received) # queued) sw =
     (if \<not> tbefore received sampleTime
      then (case writeG711Audio e now (Some pkt) sw of
              (Written, sw1) \<Rightarrow> write_queued e now sampleTime queued sw1
            | (bad, sw1) \<Rightarrow> (bad, sw1))
      else write_queued e now sampleTime queued sw)"

definition open_file :: "writer_env \<Rightarrow> gotime \<Rightarrow> gotime \<Rightarrow> SegmentWriter \<Rightarrow> write_result \<times> SegmentWriter" where
  "open_file e now sampleTime sw =
     (case writeInit e sw of
        (Written, sw1) \<Rightarrow> write_queued e now sampleTime (sw_preAudio sw1)
          (sw1\<lparr>sw_initWritten := True, sw_firstSampleTime := sampleTime, sw_preAudio := []\<rparr>)
      | (bad, sw1) \<Rightarrow> (bad, sw1))"

definition push_sample :: "sample \<Rightarrow> SegmentWriter \<Rightarrow> SegmentWriter" where
  "push_sample s sw =
     (let sw1 = (if sw_pendingVideoSamples sw = [] then sw\<lparr>sw_pendingVideoDTS := sw_videoDTS sw\<rparr> else sw)
      in sw1\<lparr>sw_pendingVideoSamples := sw_pendingVideoSamples sw1 @ [s], sw_pendingBytes := sw_pendingBytes sw1 + length (sm_Payload s),
             sw_videoDTS := sw_videoDTS sw1 + sm_Duration s, sw_lastVideoDuration := sm_Duration s\<rparr>)"

text \<open>The part of \<open>writeVideoAccessUnit\<close> after the init segment.\<close>

definition append_unit :: "writer_env \<Rightarrow> access_unit \<Rightarrow> nat \<Rightarrow> SegmentWriter \<Rightarrow> write_result \<times> SegmentWriter" where
  "append_unit e au sampleDuration sw =
     (case env_AVCC e au of
        None \<Rightarrow> (Failed ErrFillSample, sw)
      | Some payload \<Rightarrow>
          let s = \<lparr>sm_Duration = (if sampleDuration = 0 then videoTimeScale div 30 else sampleDuration),
                   sm_IsNonSync = (\<not> env_IsRandomAccess e au), sm_Payload = payload\<rparr>
          in case (if env_IsRandomAccess e au \<and> sw_pendingVideoSamples sw \<noteq> [] then flushGOP e sw else (Written, sw)) of
               (Written, sw1) \<Rightarrow> capPendingPart e (push_sample s sw1)
             | (bad, sw1) \<Rightarrow> (bad, sw1))"

definition writeVideoAccessUnit :: "writer_env \<Rightarrow> gotime \<Rightarrow> access_unit \<Rightarrow> nat \<Rightarrow> gotime \<Rightarrow> SegmentWriter \<Rightarrow> write_result \<times> SegmentWriter" where
  "writeVideoAccessUnit e now unit sampleDuration sampleTime sw0 =
     (let au = DropSEI unit
      in if au = [] then (Written, sw0)
         else
           (case TrackParameterSets au (sw_videoSPS sw0) (sw_videoPPS sw0) of
              (sps, pps, _) \<Rightarrow>
                let sw = sw0\<lparr>sw_videoSPS := sps, sw_videoPPS := pps\<rparr>
                in if \<not> sw_initWritten sw then
                     if \<not> env_IsRandomAccess e au then (Written, sw\<lparr>sw_preAudio := []\<rparr>)
                     else if sps = [] \<or> pps = [] then (Written, sw)
                     else (case open_file e now sampleTime sw of
                             (Written, sw1) \<Rightarrow> append_unit e au sampleDuration sw1
                           | (bad, sw1) \<Rightarrow> (bad, sw1))
                   else append_unit e au sampleDuration sw))"

text \<open>The clock of the access unit that a packet completes.\<close>

definition note_packet :: "gotime \<Rightarrow> int \<Rightarrow> SegmentWriter \<Rightarrow> gotime \<times> SegmentWriter" where
  "note_packet now timestamp sw =
     (if \<not> sw_hasPendingVideoTime sw
      then (now, sw\<lparr>sw_pendingVideoTimestamp := timestamp, sw_pendingVideoTime := now, sw_hasPendingVideoTime := True\<rparr>)
      else if timestamp \<noteq> sw_pendingVideoTimestamp sw
      then (sw_pendingVideoTime sw, sw\<lparr>sw_pendingVideoTimestamp := timestamp, sw_pendingVideoTime := now\<rparr>)
      else (sw_pendingVideoTime sw, sw))"

definition WriteVideo :: "writer_env \<Rightarrow> gotime \<Rightarrow> depacketized \<Rightarrow> rtp_packet option \<Rightarrow> SegmentWriter \<Rightarrow> write_result \<times> SegmentWriter" where
  "WriteVideo e now out packet sw =
     (case sw_h264Decoder sw of
        None \<Rightarrow> (Written, sw)
      | Some d \<Rightarrow>
          (case packet of
             None \<Rightarrow> (Panicked, sw)
           | Some pkt \<Rightarrow>
               (case (note_packet now (rp_Timestamp pkt) sw, Decode out (rp_Timestamp pkt) d) of
                  ((accessUnitTime, sw1), ((au, rtpTimestamp, err), d1)) \<Rightarrow>
                    let sw2 = sw1\<lparr>sw_h264Decoder := Some d1\<rparr>;
                        sampleDuration = nat (u32 (rp_Timestamp pkt - rtpTimestamp))
                    in if err \<or> au = [] then (Written, sw2)
                       else if sampleDuration \<noteq> 0 \<and> sampleDuration \<ge> videoTimeScale * 2
                       then (Failed ErrTimestampGap, sw2\<lparr>sw_skipDecoderFlush := True\<rparr>)
                       else writeVideoAccessUnit e now au
                              (if sampleDuration = 0 then videoTimeScale div 30 else sampleDuration) accessUnitTime sw2)))"

section \<open>Writing audio, and closing\<close>

fun push_aac :: "bytes list \<Rightarrow> SegmentWriter \<Rightarrow> SegmentWriter" where
  "push_aac [] sw = sw"
| "push_aac (au # aus) sw = push_aac aus (push_audio (sw_audioDTS sw) 1024 au (sw_audioDTS sw + 1024) sw)"

text \<open>\<open>aus\<close>: the AAC frames of the packet, or an error of the depacketizer.\<close>

definition WriteAudio :: "writer_env \<Rightarrow> gotime \<Rightarrow> bytes list option \<Rightarrow> rtp_packet option \<Rightarrow> SegmentWriter \<Rightarrow> write_result \<times> SegmentWriter" where
  "WriteAudio e now aus packet sw =
     (if sw_recordingAudio sw \<noteq> None then writeG711Audio e now packet sw
      else if \<not> sw_aacDecoder sw then (Written, sw)
      else case aus of
        None \<Rightarrow> (Written, sw)
      | Some frames \<Rightarrow> if \<not> sw_initWritten sw then (Written, sw) else capPendingPart e (push_aac frames sw))"

definition StartTime :: "SegmentWriter \<Rightarrow> gotime" where
  "StartTime sw =
     (if \<not> isZero (sw_firstSampleTime sw) then sw_firstSampleTime sw
      else if sw_hasPendingVideoTime sw then sw_pendingVideoTime sw else sw_startTime sw)"

definition HasMedia :: "SegmentWriter \<Rightarrow> bool" where
  "HasMedia sw \<longleftrightarrow> \<not> isZero (sw_firstSampleTime sw)"

text \<open>\<^verbatim>\<open>time.Duration(dts * uint64(time.Second) / uint64(videoTimeScale))\<close>\<close>

definition ticks_duration :: "nat \<Rightarrow> duration" where
  "ticks_duration dts = u64 (int dts * Second) div int videoTimeScale"

definition FlushedDuration :: "SegmentWriter \<Rightarrow> duration" where
  "FlushedDuration sw = (if sw_flushedVideoDTS sw = 0 then 0 else ticks_duration (sw_flushedVideoDTS sw))"

text \<open>The last access unit, which only the decoder holds; the result says whether there was an error.\<close>

definition close_video :: "writer_env \<Rightarrow> gotime \<Rightarrow> depacketized \<Rightarrow> SegmentWriter \<Rightarrow> bool \<times> SegmentWriter" where
  "close_video e now out sw =
     (case sw_h264Decoder sw of
        None \<Rightarrow> (False, sw)
      | Some d \<Rightarrow>
          if sw_skipDecoderFlush sw then (False, sw)
          else (case Flush out d of
                  ((au, _, err), d1) \<Rightarrow>
                    let sw1 = sw\<lparr>sw_h264Decoder := Some d1\<rparr>;
                        lastDur = (if sw_lastVideoDuration sw = 0 then videoTimeScale div 30 else sw_lastVideoDuration sw)
                    in if err then (True, sw1)
                       else if au \<noteq> []
                       then (case writeVideoAccessUnit e now au lastDur (sw_pendingVideoTime sw1) sw1 of (r, sw2) \<Rightarrow> (r \<noteq> Written, sw2))
                       else (False, sw1)))"

record close_result =
  cl_duration :: duration
  cl_gopErr :: bool
  cl_closeErr :: bool
  cl_flushErr :: bool

text \<open>\<open>fclose\<close>: whether closing the file succeeds.\<close>

definition sw_Close :: "writer_env \<Rightarrow> gotime \<Rightarrow> depacketized \<Rightarrow> bool \<Rightarrow> SegmentWriter \<Rightarrow> close_result \<times> SegmentWriter" where
  "sw_Close e now out fclose sw =
     (case close_video e now out sw of
        (flushErr, sw1) \<Rightarrow>
          let sw2 = (finishRecordingAudio e sw1)\<lparr>sw_preAudio := []\<rparr>
          in case flushGOP e sw2 of
               (r, sw3) \<Rightarrow>
                 (\<lparr>cl_duration = (if sw_videoDTS sw3 > 0 then ticks_duration (sw_videoDTS sw3) else tsub now (sw_startTime sw3)),
                   cl_gopErr = (r \<noteq> Written), cl_closeErr = (\<not> fclose), cl_flushErr = flushErr\<rparr>, sw3))"

definition close_failed :: "close_result \<Rightarrow> bool" where
  "close_failed c \<longleftrightarrow> cl_gopErr c \<or> cl_closeErr c \<or> cl_flushErr c"

section \<open>Opening a writer\<close>

record TrackInfo =
  ti_Codec :: string
  ti_SPS :: nalu
  ti_PPS :: nalu
  ti_ClockRate :: int
  ti_ChannelCount :: int
  ti_PayloadType :: int
  ti_IsVideo :: bool

definition newRecordingAudio :: "writer_env \<Rightarrow> TrackInfo \<Rightarrow> recordingAudio option" where
  "newRecordingAudio e track =
     (if ti_ChannelCount track > 1 \<or> ti_ClockRate track \<le> 0 \<or> int recordingAudioRate mod ti_ClockRate track \<noteq> 0 \<or>
         int recordingAudioRate div ti_ClockRate track > 6 then None
      else restart e 0 \<lparr>ra_PayloadType = ti_PayloadType track, ra_ClockRate = ti_ClockRate track, ra_encoder = False,
             ra_factor = nat (int recordingAudioRate div ti_ClockRate track), ra_skip = 0, ra_input = 0, ra_written = 0, ra_base = 0,
             ra_previous = None\<rparr>)"

definition empty_writer :: "gotime \<Rightarrow> SegmentWriter" where
  "empty_writer now =
     \<lparr>sw_file = [], sw_h264Decoder = None, sw_videoSPS = [], sw_videoPPS = [], sw_aacDecoder = False, sw_aacConfig = None,
      sw_recordingAudio = None, sw_audioErr = False, sw_preAudio = [], sw_initWritten = False, sw_seqNum = 0, sw_videoDTS = 0,
      sw_lastVideoDuration = 0, sw_audioDTS = 0, sw_startTime = now, sw_firstSampleTime = zeroTime, sw_hasAudio = False,
      sw_pendingVideoTimestamp = 0, sw_pendingVideoTime = zeroTime, sw_hasPendingVideoTime = False, sw_skipDecoderFlush = False,
      sw_pendingVideoSamples = [], sw_pendingAudioSamples = [], sw_pendingVideoDTS = 0, sw_pendingAudioDTS = 0, sw_pendingBytes = 0,
      sw_flushedVideoDTS = 0\<rparr>"

definition aac_config :: "TrackInfo \<Rightarrow> int \<times> int" where
  "aac_config audio =
     (let channels = (if ti_ChannelCount audio \<le> 0 then 1 else ti_ChannelCount audio)
      in (ti_ClockRate audio, if channels = 8 then 7 else channels mod 256))"

definition with_video :: "TrackInfo option \<Rightarrow> SegmentWriter \<Rightarrow> SegmentWriter" where
  "with_video video sw =
     (case video of
        Some t \<Rightarrow> if ti_Codec t = ''H264''
                  then sw\<lparr>sw_videoSPS := ti_SPS t, sw_videoPPS := ti_PPS t, sw_h264Decoder := Some NewH264AccessUnitDecoder\<rparr> else sw
      | None \<Rightarrow> sw)"

definition with_audio :: "writer_env \<Rightarrow> TrackInfo option \<Rightarrow> SegmentWriter \<Rightarrow> SegmentWriter" where
  "with_audio e audio sw =
     (case audio of
        None \<Rightarrow> sw
      | Some t \<Rightarrow>
          if ti_Codec t = ''AAC'' then sw\<lparr>sw_hasAudio := True, sw_aacDecoder := True, sw_aacConfig := Some (aac_config t)\<rparr>
          else if ti_Codec t = ''PCMA'' \<or> ti_Codec t = ''PCMU'' then
            (case newRecordingAudio e t of
               None \<Rightarrow> failAudio sw
             | Some r \<Rightarrow> sw\<lparr>sw_recordingAudio := Some r, sw_hasAudio := True, sw_aacConfig := Some (int recordingAudioRate, 1)\<rparr>)
          else failAudio sw)"

text \<open>A new writer, when the file and the depacketizers can be created.\<close>

definition NewSegmentWriter :: "writer_env \<Rightarrow> gotime \<Rightarrow> TrackInfo option \<Rightarrow> TrackInfo option \<Rightarrow> SegmentWriter" where
  "NewSegmentWriter e now video audio = with_audio e audio (with_video video (empty_writer now))"

section \<open>What audio leaves alone\<close>

text \<open>
  Audio and flushing change the writer only through three primitives.  A relation between the states
  before and after that holds for these holds for every operation on audio.
\<close>

locale audio_steps =
  fixes R :: "SegmentWriter \<Rightarrow> SegmentWriter \<Rightarrow> bool"
  assumes step_refl: "R sw sw"
    and step_trans: "R sw sw1 \<Longrightarrow> R sw1 sw2 \<Longrightarrow> R sw sw2"
    and step_flush: "R sw (snd (flushGOP e sw))"
    and step_codec: "R sw (sw\<lparr>sw_recordingAudio := r, sw_audioErr := err, sw_preAudio := q\<rparr>)"
    and step_push: "R sw (push_audio t d payload a sw)"
begin

lemma step_after_codec: "R sw sw' \<Longrightarrow> R sw (sw'\<lparr>sw_recordingAudio := r\<rparr>)"
  using step_trans[OF _ step_codec[of sw' "sw_preAudio sw'" "sw_audioErr sw'" r]] by simp

lemma step_preAudio: "R sw sw' \<Longrightarrow> R sw (sw'\<lparr>sw_preAudio := q\<rparr>)"
  using step_trans[OF _ step_codec[of sw' q "sw_audioErr sw'" "sw_recordingAudio sw'"]] by simp

lemma step_failAudio: "R sw sw' \<Longrightarrow> R sw (failAudio sw')"
  unfolding failAudio_def
  using step_trans[OF _ step_codec[of sw' "[]" True "map_option (\<lambda>r. r\<lparr>ra_encoder := False\<rparr>) (sw_recordingAudio sw')"]]
  by (simp add: if_split)

lemma step_append: "R sw sw' \<Longrightarrow> R sw (appendEncodedAudio frames r sw')"
proof (induction frames r sw' rule: appendEncodedAudio.induct)
  case (1 r sw')
  then show ?case by (simp add: step_after_codec)
next
  case (2 payload frames r sw')
  then show ?case by (auto simp: Let_def intro: step_trans[OF _ step_push])
qed

lemma step_append_audio: "R sw sw' \<Longrightarrow> R sw (append_audio frames sw')"
  by (auto simp: append_audio_def step_append split: option.splits)

lemma step_finish: "R sw sw' \<Longrightarrow> R sw (finishRecordingAudio e sw')"
  unfolding finishRecordingAudio_def close_encoder_def Let_def
  by (auto intro!: step_after_codec step_failAudio step_append_audio split: option.splits)

lemma step_flush_after: "R sw sw' \<Longrightarrow> R sw (snd (flushGOP e sw'))"
  by (rule step_trans[OF _ step_flush])

lemma step_cap: "R sw sw' \<Longrightarrow> R sw (snd (capPendingPart e sw'))"
  unfolding capPendingPart_def Let_def by (auto intro: step_flush_after)

lemma step_encode: "R sw sw' \<Longrightarrow> R sw (snd (encode_packet e pkt r sw'))"
  unfolding encode_packet_def Let_def
  by (auto intro!: step_failAudio step_after_codec step_cap step_append split: option.splits)

lemma step_restart: "R sw sw' \<Longrightarrow> R sw (snd (restart_audio e pkt n sw'))"
proof -
  assume R: "R sw sw'"
  let ?f = "flushGOP e (finishRecordingAudio e sw')"
  have f: "R sw (snd ?f)" by (rule step_flush_after[OF step_finish[OF R]])
  show ?thesis
  proof (cases ?f)
    case (Pair r sw1)
    then show ?thesis using f
      by (cases r) (auto simp: restart_audio_def intro!: step_failAudio step_encode split: option.splits)
  qed
qed

lemma step_G711: "R sw sw' \<Longrightarrow> R sw (snd (writeG711Audio e now pkt sw'))"
  unfolding writeG711Audio_def Let_def
  by (auto intro!: step_encode step_restart step_preAudio split: option.splits)

lemma step_queued: "R sw sw' \<Longrightarrow> R sw (snd (write_queued e now t q sw'))"
proof (induction q arbitrary: sw')
  case (Cons p q)
  obtain pkt rec where p: "p = (pkt, rec)" by (cases p)
  obtain r sw1 where w: "writeG711Audio e now (Some pkt) sw' = (r, sw1)" by (cases "writeG711Audio e now (Some pkt) sw'")
  have "R sw sw1" using step_G711[OF Cons.prems, of e now "Some pkt"] w by simp
  then show ?case using Cons p w by (cases r) auto
qed simp

lemma step_aac: "R sw sw' \<Longrightarrow> R sw (push_aac aus sw')"
  by (induction aus arbitrary: sw') (auto intro: step_trans[OF _ step_push])

lemma step_WriteAudio: "R sw (snd (WriteAudio e now aus pkt sw))"
  unfolding WriteAudio_def
  by (auto intro!: step_refl step_G711 step_cap step_aac split: option.splits)

end

end
