(* ===== verification/Mp4_Timeline.thy ===== *)
theory Mp4_Timeline
  imports Mp4_Writer
begin

text \<open>
  What a segment writer records.  The writer refines an abstract recorder, which only appends samples to
  a list of parts; the theorems about the timeline of a file, its keyframes, the buffer, closing and the
  audio track follow from it.
\<close>

section \<open>The recorded tracks\<close>

fun item_tracks :: "file_item \<Rightarrow> part_track list" where
  "item_tracks (PartItem p) = pa_Tracks p"
| "item_tracks (InitItem _ _ _) = []"
| "item_tracks Torn = []"

definition file_tracks :: "file_item list \<Rightarrow> part_track list" where
  "file_tracks file = concat (map item_tracks file)"

definition track_parts :: "int \<Rightarrow> part_track list \<Rightarrow> (nat \<times> sample list) list" where
  "track_parts i ts = map (\<lambda>t. (pt_BaseTime t, pt_Samples t)) (filter (\<lambda>t. pt_ID t = i) ts)"

text \<open>The parts of a track in the file, followed by the one that is still buffered.\<close>

definition recorded :: "int \<Rightarrow> SegmentWriter \<Rightarrow> (nat \<times> sample list) list" where
  "recorded i sw = track_parts i (file_tracks (sw_file sw) @ pending_tracks sw)"

definition media_time :: "sample list \<Rightarrow> nat" where
  "media_time ss = sum_list (map sm_Duration ss)"

definition parts_time :: "(nat \<times> sample list) list \<Rightarrow> nat" where
  "parts_time ps = sum_list (map (media_time \<circ> snd) ps)"

lemma file_tracks_snoc [simp]: "file_tracks (file @ [x]) = file_tracks file @ item_tracks x"
  and file_tracks_Nil [simp]: "file_tracks [] = []"
  by (simp_all add: file_tracks_def)

lemma track_parts_append [simp]: "track_parts i (xs @ ys) = track_parts i xs @ track_parts i ys"
  and track_parts_Nil [simp]: "track_parts i [] = []"
  by (simp_all add: track_parts_def)

lemma media_time_simps [simp]: "media_time [] = 0" "media_time [s] = sm_Duration s" "media_time (ss @ [s]) = media_time ss + sm_Duration s"
  by (simp_all add: media_time_def)

lemma parts_time_simps [simp]: "parts_time [] = 0" "parts_time (ps @ qs) = parts_time ps + parts_time qs" "parts_time [p] = media_time (snd p)"
  by (simp_all add: parts_time_def)

lemma pending_video [simp]:
  "track_parts videoTrackID (pending_tracks sw) = (if sw_pendingVideoSamples sw = [] then [] else [(sw_pendingVideoDTS sw, sw_pendingVideoSamples sw)])"
  by (simp add: track_parts_def pending_tracks_def videoTrackID_def audioTrackID_def)

lemma pending_audio [simp]:
  "track_parts audioTrackID (pending_tracks sw) = (if sw_pendingAudioSamples sw = [] then [] else [(sw_pendingAudioDTS sw, sw_pendingAudioSamples sw)])"
  by (simp add: track_parts_def pending_tracks_def videoTrackID_def audioTrackID_def)

section \<open>Flushing\<close>

definition flushed :: "SegmentWriter \<Rightarrow> SegmentWriter" where
  "flushed sw = sw\<lparr>sw_file := sw_file sw @ [PartItem \<lparr>pa_SequenceNumber = sw_seqNum sw, pa_Tracks = pending_tracks sw\<rparr>],
     sw_flushedVideoDTS := (if sw_pendingVideoSamples sw \<noteq> []
       then sw_pendingVideoDTS sw + sum_list (map sm_Duration (sw_pendingVideoSamples sw)) else sw_flushedVideoDTS sw),
     sw_seqNum := u32 (sw_seqNum sw + 1), sw_pendingVideoSamples := [], sw_pendingAudioSamples := [], sw_pendingBytes := 0\<rparr>"

lemma flush_cases:
  obtains (nothing) "pending_tracks sw = []" "flushGOP e sw = (Written, sw)"
  | (failed) "pending_tracks sw \<noteq> []" "flushGOP e sw = (Failed ErrMarshal, sw\<lparr>sw_file := sw_file sw @ [Torn]\<rparr>)"
  | (flushed) "pending_tracks sw \<noteq> []" "flushGOP e sw = (Written, flushed sw)"
  unfolding flushGOP_def Let_def flushed_def by (metis (no_types, lifting))

lemma pending_none [simp]:
  "sw_pendingVideoSamples sw = [] \<Longrightarrow> sw_pendingAudioSamples sw = [] \<Longrightarrow> pending_tracks sw = []"
  by (simp add: pending_tracks_def)

lemma pending_tracks_file [simp]: "pending_tracks (sw\<lparr>sw_file := f\<rparr>) = pending_tracks sw"
  by (simp add: pending_tracks_def)

lemma flush_recorded: "recorded i (snd (flushGOP e sw)) = recorded i sw"
  by (cases rule: flush_cases[of sw e]) (simp_all add: recorded_def flushed_def)

text \<open>What flushing and audio leave of the video.\<close>

definition same_video :: "SegmentWriter \<Rightarrow> SegmentWriter \<Rightarrow> bool" where
  "same_video sw sw' \<longleftrightarrow> recorded videoTrackID sw' = recorded videoTrackID sw \<and> sw_videoDTS sw' = sw_videoDTS sw \<and>
     sw_initWritten sw' = sw_initWritten sw \<and> sw_lastVideoDuration sw' = sw_lastVideoDuration sw \<and>
     sw_firstSampleTime sw' = sw_firstSampleTime sw"

lemma flush_fields:
  "sw_videoDTS (snd (flushGOP e sw)) = sw_videoDTS sw" "sw_initWritten (snd (flushGOP e sw)) = sw_initWritten sw"
  "sw_lastVideoDuration (snd (flushGOP e sw)) = sw_lastVideoDuration sw" "sw_firstSampleTime (snd (flushGOP e sw)) = sw_firstSampleTime sw"
  "sw_audioDTS (snd (flushGOP e sw)) = sw_audioDTS sw" "sw_recordingAudio (snd (flushGOP e sw)) = sw_recordingAudio sw"
  "sw_audioErr (snd (flushGOP e sw)) = sw_audioErr sw" "sw_aacDecoder (snd (flushGOP e sw)) = sw_aacDecoder sw"
  "sw_h264Decoder (snd (flushGOP e sw)) = sw_h264Decoder sw" "sw_preAudio (snd (flushGOP e sw)) = sw_preAudio sw"
  by (cases rule: flush_cases[of sw e]; simp add: flushed_def)+

lemma recorded_cong:
  "sw_file sw' = sw_file sw \<Longrightarrow> sw_pendingVideoSamples sw' = sw_pendingVideoSamples sw \<Longrightarrow> sw_pendingVideoDTS sw' = sw_pendingVideoDTS sw \<Longrightarrow>
     recorded videoTrackID sw' = recorded videoTrackID sw"
  by (simp add: recorded_def)

lemma push_audio_fields [simp]:
  "sw_file (push_audio t d p a sw) = sw_file sw" "sw_pendingVideoSamples (push_audio t d p a sw) = sw_pendingVideoSamples sw"
  "sw_pendingVideoDTS (push_audio t d p a sw) = sw_pendingVideoDTS sw" "sw_videoDTS (push_audio t d p a sw) = sw_videoDTS sw"
  "sw_initWritten (push_audio t d p a sw) = sw_initWritten sw" "sw_lastVideoDuration (push_audio t d p a sw) = sw_lastVideoDuration sw"
  "sw_firstSampleTime (push_audio t d p a sw) = sw_firstSampleTime sw" "sw_flushedVideoDTS (push_audio t d p a sw) = sw_flushedVideoDTS sw"
  "sw_pendingBytes (push_audio t d p a sw) = sw_pendingBytes sw + length p"
  "sw_pendingAudioSamples (push_audio t d p a sw) = sw_pendingAudioSamples sw @ [\<lparr>sm_Duration = d, sm_IsNonSync = False, sm_Payload = p\<rparr>]"
  "sw_pendingAudioDTS (push_audio t d p a sw) = (if sw_pendingAudioSamples sw = [] then t else sw_pendingAudioDTS sw)"
  "sw_audioDTS (push_audio t d p a sw) = a"
  by (simp_all add: push_audio_def Let_def)

lemma same_video_trans: "same_video sw sw1 \<Longrightarrow> same_video sw1 sw2 \<Longrightarrow> same_video sw sw2"
  by (simp add: same_video_def)

lemma same_video_fields:
  assumes "sw_file sw' = sw_file sw" and "sw_pendingVideoSamples sw' = sw_pendingVideoSamples sw" and "sw_pendingVideoDTS sw' = sw_pendingVideoDTS sw"
    and "sw_videoDTS sw' = sw_videoDTS sw" and "sw_initWritten sw' = sw_initWritten sw"
    and "sw_lastVideoDuration sw' = sw_lastVideoDuration sw" and "sw_firstSampleTime sw' = sw_firstSampleTime sw"
  shows "same_video sw sw'"
  using assms recorded_cong[OF assms(1-3)] by (simp add: same_video_def)

interpretation keeps_video: audio_steps same_video
proof
  show "same_video sw (snd (flushGOP e sw))" for sw e by (simp add: same_video_def flush_recorded flush_fields)
qed (rule same_video_fields same_video_trans; simp)+

section \<open>The buffer and the flushed time\<close>

definition bytes_ok :: "SegmentWriter \<Rightarrow> bool" where
  "bytes_ok sw \<longleftrightarrow> sw_pendingBytes sw = sum_list (map (length \<circ> sm_Payload) (sw_pendingVideoSamples sw @ sw_pendingAudioSamples sw))"

definition times_ok :: "SegmentWriter \<Rightarrow> bool" where
  "times_ok sw \<longleftrightarrow> sw_flushedVideoDTS sw = parts_time (track_parts videoTrackID (file_tracks (sw_file sw))) \<and>
     (sw_pendingVideoSamples sw \<noteq> [] \<longrightarrow> sw_pendingVideoDTS sw = sw_flushedVideoDTS sw) \<and>
     sw_videoDTS sw = sw_flushedVideoDTS sw + media_time (sw_pendingVideoSamples sw)"

definition counters_ok :: "SegmentWriter \<Rightarrow> bool" where
  "counters_ok sw \<longleftrightarrow> bytes_ok sw \<and> times_ok sw"

lemma flush_counters: "counters_ok sw \<Longrightarrow> counters_ok (snd (flushGOP e sw))"
  by (cases rule: flush_cases[of sw e]) (auto simp: counters_ok_def bytes_ok_def times_ok_def media_time_def flushed_def)

lemma counters_fields:
  assumes "counters_ok sw" and "sw_file sw' = sw_file sw" and "sw_pendingVideoSamples sw' = sw_pendingVideoSamples sw"
    and "sw_pendingVideoDTS sw' = sw_pendingVideoDTS sw" and "sw_videoDTS sw' = sw_videoDTS sw" and "sw_flushedVideoDTS sw' = sw_flushedVideoDTS sw"
    and "sw_pendingBytes sw' = sw_pendingBytes sw + sum_list (map (length \<circ> sm_Payload) as)" and "sw_pendingAudioSamples sw' = sw_pendingAudioSamples sw @ as"
  shows "counters_ok sw'"
  using assms by (simp add: counters_ok_def bytes_ok_def times_ok_def)

interpretation keeps_counters: audio_steps "\<lambda>sw sw'. counters_ok sw \<longrightarrow> counters_ok sw'"
proof
  show "counters_ok sw \<longrightarrow> counters_ok (snd (flushGOP e sw))" for sw e using flush_counters by blast
  show "counters_ok sw \<longrightarrow> counters_ok (push_audio t d p a sw)" for sw t d p a
    using counters_fields[of sw "push_audio t d p a sw" "[\<lparr>sm_Duration = d, sm_IsNonSync = False, sm_Payload = p\<rparr>]"] by simp
  show "counters_ok sw \<longrightarrow> counters_ok (sw\<lparr>sw_recordingAudio := r, sw_audioErr := err, sw_preAudio := q\<rparr>)" for sw r err q
    using counters_fields[of sw "sw\<lparr>sw_recordingAudio := r, sw_audioErr := err, sw_preAudio := q\<rparr>" "[]"] by simp
qed blast+

section \<open>The abstract recorder\<close>

text \<open>
  An abstract recorder keeps the parts of one track, each with its base time, and the end of the track.
  A sample goes to the end of the last part or opens a part there; a keyframe always opens one.
\<close>

type_synonym recording = "(nat \<times> sample list) list \<times> nat"

definition sample_ok :: "sample \<Rightarrow> bool" where
  "sample_ok s \<longleftrightarrow> 0 < sm_Duration s \<and> sm_Duration s < 2 * videoTimeScale"

inductive rec_step :: "recording \<Rightarrow> recording \<Rightarrow> bool" where
  rec_stay: "rec_step S S"
| rec_open: "sample_ok s \<Longrightarrow> rec_step (ps, t) (ps @ [(t, [s])], t + sm_Duration s)"
| rec_extend: "sample_ok s \<Longrightarrow> sm_IsNonSync s \<Longrightarrow> rec_step (ps @ [(b, ss)], t) (ps @ [(b, ss @ [s])], t + sm_Duration s)"

inductive_cases rec_stepE: "rec_step S S'"

fun contiguous :: "nat \<Rightarrow> (nat \<times> sample list) list \<Rightarrow> bool" where
  "contiguous b [] = True"
| "contiguous b ((base, ss) # ps) = (base = b \<and> ss \<noteq> [] \<and> contiguous (b + media_time ss) ps)"

lemma contiguous_append: "contiguous b (ps @ qs) \<longleftrightarrow> contiguous b ps \<and> contiguous (b + parts_time ps) qs"
  by (induction ps arbitrary: b) (auto simp: parts_time_def add.assoc)

text \<open>Only the first sample of a part may be a keyframe.\<close>

definition part_ok :: "nat \<times> sample list \<Rightarrow> bool" where
  "part_ok p \<longleftrightarrow> list_all sm_IsNonSync (tl (snd p)) \<and> list_all sample_ok (snd p)"

definition rec_ok :: "recording \<Rightarrow> bool" where
  "rec_ok S \<longleftrightarrow> contiguous 0 (fst S) \<and> parts_time (fst S) = snd S \<and> list_all part_ok (fst S)"

lemma rec_step_ok: "rec_step S S' \<Longrightarrow> rec_ok S \<Longrightarrow> rec_ok S'"
proof (induction rule: rec_step.induct)
  case (rec_extend s ps b ss t)
  then have "ss \<noteq> []" by (simp add: rec_ok_def contiguous_append)
  then show ?case using rec_extend by (cases ss) (auto simp: rec_ok_def contiguous_append part_ok_def media_time_def)
qed (auto simp: rec_ok_def contiguous_append part_ok_def)

definition opens_sync :: "(nat \<times> sample list) list \<Rightarrow> bool" where
  "opens_sync ps \<longleftrightarrow> ps \<noteq> [] \<and> snd (hd ps) \<noteq> [] \<and> \<not> sm_IsNonSync (hd (snd (hd ps)))"

lemma rec_step_opens: "rec_step S S' \<Longrightarrow> opens_sync (fst S) \<Longrightarrow> opens_sync (fst S')"
  by (induction rule: rec_step.induct) (auto simp: opens_sync_def hd_append)

section \<open>The writer refines the recorder\<close>

definition abs_video :: "SegmentWriter \<Rightarrow> recording" where
  "abs_video sw = (recorded videoTrackID sw, sw_videoDTS sw)"

lemma same_video_abs: "same_video sw sw' \<Longrightarrow> abs_video sw' = abs_video sw"
  by (simp add: same_video_def abs_video_def)

lemma push_fields [simp]:
  "sw_file (push_sample s sw) = sw_file sw" "sw_pendingVideoSamples (push_sample s sw) = sw_pendingVideoSamples sw @ [s]"
  "sw_pendingVideoDTS (push_sample s sw) = (if sw_pendingVideoSamples sw = [] then sw_videoDTS sw else sw_pendingVideoDTS sw)"
  "sw_videoDTS (push_sample s sw) = sw_videoDTS sw + sm_Duration s" "sw_lastVideoDuration (push_sample s sw) = sm_Duration s"
  "sw_pendingBytes (push_sample s sw) = sw_pendingBytes sw + length (sm_Payload s)"
  "sw_pendingAudioSamples (push_sample s sw) = sw_pendingAudioSamples sw" "sw_flushedVideoDTS (push_sample s sw) = sw_flushedVideoDTS sw"
  "sw_initWritten (push_sample s sw) = sw_initWritten sw"
  by (simp_all add: push_sample_def Let_def)

lemma recorded_video: "recorded videoTrackID sw = track_parts videoTrackID (file_tracks (sw_file sw)) @
    (if sw_pendingVideoSamples sw = [] then [] else [(sw_pendingVideoDTS sw, sw_pendingVideoSamples sw)])"
  by (simp add: recorded_def)

lemma push_rec:
  assumes "sample_ok s" and "\<not> sm_IsNonSync s \<Longrightarrow> sw_pendingVideoSamples sw = []"
  shows "rec_step (abs_video sw) (abs_video (push_sample s sw))"
proof (cases "sw_pendingVideoSamples sw = []")
  case True
  then show ?thesis using rec_open[OF assms(1)] by (simp add: abs_video_def recorded_video)
next
  case False
  then have "sm_IsNonSync s" using assms(2) by blast
  from rec_extend[OF assms(1) this] False show ?thesis by (simp add: abs_video_def recorded_video)
qed

lemma push_counters: "counters_ok sw \<Longrightarrow> counters_ok (push_sample s sw)"
  by (auto simp: counters_ok_def bytes_ok_def times_ok_def)

lemma flush_empties: "flushGOP e sw = (Written, sw') \<Longrightarrow> sw_pendingVideoSamples sw' = [] \<and> sw_pendingAudioSamples sw' = []"
  by (cases rule: flush_cases[of sw e]) (auto simp: flushed_def pending_tracks_def split: if_splits)

text \<open>What a step of the writer does to the video: it refines a step of the recorder and keeps the counters.\<close>

definition video_ok :: "SegmentWriter \<Rightarrow> bool" where
  "video_ok sw \<longleftrightarrow> counters_ok sw \<and> sw_lastVideoDuration sw < 2 * videoTimeScale"

definition video_refines :: "SegmentWriter \<Rightarrow> SegmentWriter \<Rightarrow> bool" where
  "video_refines sw sw' \<longleftrightarrow> rec_step (abs_video sw) (abs_video sw') \<and> (video_ok sw \<longrightarrow> video_ok sw')"

lemma refines_same:
  assumes "video_refines sw sw1" and "same_video sw1 sw2" and "counters_ok sw1 \<longrightarrow> counters_ok sw2"
  shows "video_refines sw sw2"
proof -
  have "sw_lastVideoDuration sw2 = sw_lastVideoDuration sw1" using assms(2) unfolding same_video_def by blast
  then show ?thesis using assms(1,3) unfolding video_refines_def video_ok_def same_video_abs[OF assms(2)] by simp
qed

lemma same_refines:
  assumes "same_video sw sw1" and "counters_ok sw \<longrightarrow> counters_ok sw1" and "video_refines sw1 sw2"
  shows "video_refines sw sw2"
proof -
  have "sw_lastVideoDuration sw1 = sw_lastVideoDuration sw" using assms(1) unfolding same_video_def by blast
  then show ?thesis using assms(2,3) unfolding video_refines_def video_ok_def same_video_abs[OF assms(1)] by simp
qed

lemma refines_refl: "video_refines sw sw"
  by (simp add: video_refines_def rec_stay)

lemma audio_refines: "same_video sw sw' \<Longrightarrow> (counters_ok sw \<longrightarrow> counters_ok sw') \<Longrightarrow> video_refines sw sw'"
  by (rule refines_same[OF refines_refl])

lemmas cap_keeps = keeps_video.step_cap[OF keeps_video.step_refl] keeps_counters.step_cap[OF keeps_counters.step_refl]
lemmas flush_keeps = keeps_video.step_flush keeps_counters.step_flush
lemmas finish_keeps = keeps_video.step_finish[OF keeps_video.step_refl] keeps_counters.step_finish[OF keeps_counters.step_refl]

lemma push_refines:
  assumes "sample_ok s" and "\<not> sm_IsNonSync s \<Longrightarrow> sw_pendingVideoSamples sw = []"
  shows "video_refines sw (push_sample s sw)"
  using push_rec[OF assms] push_counters assms(1) by (auto simp: video_refines_def video_ok_def sample_ok_def)

lemma append_unit_refines:
  assumes "dur < 2 * videoTimeScale"
  shows "video_refines sw (snd (append_unit e au dur sw))"
proof (cases "env_AVCC e au")
  case None
  then show ?thesis by (simp add: append_unit_def audio_refines keeps_video.step_refl)
next
  case (Some payload)
  let ?key = "env_IsRandomAccess e au \<and> sw_pendingVideoSamples sw \<noteq> []"
  let ?s = "\<lparr>sm_Duration = (if dur = 0 then videoTimeScale div 30 else dur), sm_IsNonSync = (\<not> env_IsRandomAccess e au), sm_Payload = payload\<rparr>"
  obtain r sw1 where f: "(if ?key then flushGOP e sw else (Written, sw)) = (r, sw1)" by fastforce
  have s1: "same_video sw sw1" "counters_ok sw \<longrightarrow> counters_ok sw1"
    using f flush_keeps[of sw e] keeps_video.step_refl by (auto split: if_splits)
  have ok: "sample_ok ?s" using assms by (auto simp: sample_ok_def videoTimeScale_def)
  show ?thesis
  proof (cases "r = Written")
    case True
    have "sw_pendingVideoSamples sw1 = []" if "\<not> sm_IsNonSync ?s"
      using that f True flush_empties by (auto split: if_splits)
    from push_refines[OF ok this] have "video_refines sw1 (push_sample ?s sw1)" .
    from refines_same[OF this cap_keeps] same_refines[OF s1] show ?thesis
      using True Some f by (simp add: append_unit_def)
  next
    case False
    then have "snd (append_unit e au dur sw) = sw1" using Some f by (cases r) (auto simp: append_unit_def)
    then show ?thesis using audio_refines[OF s1] by simp
  qed
qed

text \<open>The init segment and the packets that waited for it.\<close>

lemma init_keeps:
  assumes "writeInit e sw = (r, sw1)"
  shows "same_video sw sw1" "counters_ok sw \<longrightarrow> counters_ok sw1"
  using assms
  by (auto simp: writeInit_def same_video_def recorded_def counters_ok_def bytes_ok_def times_ok_def file_tracks_def pending_tracks_def
      split: if_splits)

lemma open_refines:
  assumes "open_file e now t sw = (r, sw2)"
  shows "abs_video sw2 = abs_video sw" "video_ok sw \<longrightarrow> video_ok sw2" "r = Written \<Longrightarrow> sw_initWritten sw2"
proof -
  obtain r1 sw1 where w: "writeInit e sw = (r1, sw1)" by fastforce
  note k = init_keeps[OF w]
  define sw' where "sw' = sw1\<lparr>sw_initWritten := True, sw_firstSampleTime := t, sw_preAudio := []\<rparr>"
  have a': "abs_video sw' = abs_video sw1" by (simp add: sw'_def abs_video_def recorded_def pending_tracks_def)
  have c': "counters_ok sw1 \<longrightarrow> counters_ok sw'" by (simp add: sw'_def counters_ok_def bytes_ok_def times_ok_def)
  have l': "sw_lastVideoDuration sw' = sw_lastVideoDuration sw1" "sw_initWritten sw'" by (simp_all add: sw'_def)
  let ?q = "write_queued e now t (sw_preAudio sw1) sw'"
  have q: "same_video sw' (snd ?q)" "counters_ok sw' \<longrightarrow> counters_ok (snd ?q)"
    by (rule keeps_video.step_queued[OF keeps_video.step_refl] keeps_counters.step_queued[OF keeps_counters.step_refl])+
  have cases: "sw2 = sw1 \<and> r \<noteq> Written \<or> sw2 = snd ?q"
    using assms w by (cases r1) (auto simp: open_file_def sw'_def)
  show "abs_video sw2 = abs_video sw"
    using cases same_video_abs[OF k(1)] same_video_abs[OF q(1)] a' by auto
  have "sw_lastVideoDuration sw1 = sw_lastVideoDuration sw" "sw_lastVideoDuration (snd ?q) = sw_lastVideoDuration sw'"
    using k(1) q(1) unfolding same_video_def by simp_all
  then show "video_ok sw \<longrightarrow> video_ok sw2" using cases k(2) q(2) c' l' unfolding video_ok_def by auto
  show "r = Written \<Longrightarrow> sw_initWritten sw2" using cases q(1) l' unfolding same_video_def by auto
qed

text \<open>Fields the recording does not depend on.\<close>

lemma abs_video_fields:
  assumes "sw_file sw' = sw_file sw" and "sw_pendingVideoSamples sw' = sw_pendingVideoSamples sw" and "sw_pendingVideoDTS sw' = sw_pendingVideoDTS sw"
    and "sw_videoDTS sw' = sw_videoDTS sw"
  shows "abs_video sw' = abs_video sw"
  using assms recorded_cong[OF assms(1-3)] by (simp add: abs_video_def)

lemma refines_fields:
  assumes "abs_video sw1 = abs_video sw" and "video_ok sw \<longrightarrow> video_ok sw1" and "video_refines sw1 sw2"
  shows "video_refines sw sw2"
  using assms by (simp add: video_refines_def)

lemma unit_refines:
  assumes "dur < 2 * videoTimeScale"
  shows "video_refines sw (snd (writeVideoAccessUnit e now au dur t sw))"
proof -
  obtain sps pps ch where tr: "TrackParameterSets (DropSEI au) (sw_videoSPS sw) (sw_videoPPS sw) = (sps, pps, ch)" by (metis prod_cases3)
  define sw0 where "sw0 = sw\<lparr>sw_videoSPS := sps, sw_videoPPS := pps\<rparr>"
  have s0: "abs_video sw0 = abs_video sw" "video_ok sw \<longrightarrow> video_ok sw0"
    by (auto simp: sw0_def abs_video_def recorded_def pending_tracks_def video_ok_def counters_ok_def bytes_ok_def times_ok_def)
  have p0: "video_refines sw0 (sw0\<lparr>sw_preAudio := q\<rparr>)" for q
    using keeps_video.step_preAudio[OF keeps_video.step_refl] keeps_counters.step_preAudio[OF keeps_counters.step_refl]
    by (rule audio_refines)
  have opened: "video_refines sw0 (snd (case open_file e now t sw0 of (Written, sw1) \<Rightarrow> append_unit e (DropSEI au) dur sw1 | (bad, sw1) \<Rightarrow> (bad, sw1)))"
  proof -
    obtain r sw1 where o: "open_file e now t sw0 = (r, sw1)" by fastforce
    have "video_refines sw0 (snd (append_unit e (DropSEI au) dur sw1))"
      by (rule refines_fields[OF open_refines(1,2)[OF o] append_unit_refines[OF assms]])
    moreover have "video_refines sw0 sw1" by (rule refines_fields[OF open_refines(1,2)[OF o] refines_refl])
    ultimately show ?thesis using o by (cases r) auto
  qed
  have "video_refines sw0 (snd (writeVideoAccessUnit e now au dur t sw))" if "DropSEI au \<noteq> []"
    using that tr opened p0 refines_refl append_unit_refines[OF assms]
    by (auto simp: writeVideoAccessUnit_def Let_def sw0_def[symmetric])
  then show ?thesis using refines_fields[OF s0] refines_refl by (cases "DropSEI au = []") (auto simp: writeVideoAccessUnit_def)
qed

lemma note_packet_keeps:
  assumes "note_packet now ts sw = (t, sw1)"
  shows "abs_video (sw1\<lparr>sw_h264Decoder := d\<rparr>) = abs_video sw" "video_ok sw \<longrightarrow> video_ok (sw1\<lparr>sw_h264Decoder := d\<rparr>)"
    "sw_initWritten sw1 = sw_initWritten sw"
  using assms by (auto simp: note_packet_def abs_video_def recorded_def pending_tracks_def video_ok_def counters_ok_def bytes_ok_def times_ok_def
      split: if_splits)

theorem WriteVideo_refines: "video_refines sw (snd (WriteVideo e now out packet sw))"
proof (cases "sw_h264Decoder sw")
  case None
  then show ?thesis by (simp add: WriteVideo_def refines_refl)
next
  case (Some d)
  show ?thesis
  proof (cases packet)
    case None
    then show ?thesis using Some by (simp add: WriteVideo_def refines_refl)
  next
    case p: (Some pkt)
    obtain t sw1 where n: "note_packet now (rp_Timestamp pkt) sw = (t, sw1)" by fastforce
    obtain au ts err d1 where dec: "Decode out (rp_Timestamp pkt) d = ((au, ts, err), d1)" by (metis prod_cases3 surj_pair)
    define sw2 where "sw2 = sw1\<lparr>sw_h264Decoder := Some d1\<rparr>"
    note k = note_packet_keeps(1,2)[OF n, of "Some d1", folded sw2_def]
    have gap: "video_refines sw2 (sw2\<lparr>sw_skipDecoderFlush := True\<rparr>)"
      by (rule refines_fields[OF _ _ refines_refl, THEN refines_fields[rotated 2]])
        (auto simp: abs_video_def recorded_def pending_tracks_def video_ok_def counters_ok_def bytes_ok_def times_ok_def)
    let ?dur = "nat (u32 (rp_Timestamp pkt - ts))"
    have unit: "video_refines sw2 (snd (writeVideoAccessUnit e now au (if ?dur = 0 then videoTimeScale div 30 else ?dur) t sw2))"
      if "\<not> (?dur \<noteq> 0 \<and> ?dur \<ge> videoTimeScale * 2)"
      using that by (intro unit_refines) (auto simp: videoTimeScale_def)
    have "video_refines sw2 (snd (WriteVideo e now out packet sw))"
      using Some p n dec gap unit refines_refl by (auto simp: WriteVideo_def Let_def sw2_def[symmetric])
    then show ?thesis by (rule refines_fields[OF k])
  qed
qed

lemma close_video_refines: "video_ok sw \<Longrightarrow> video_refines sw (snd (close_video e now out sw))"
proof -
  assume ok: "video_ok sw"
  show ?thesis
  proof (cases "sw_h264Decoder sw")
    case None
    then show ?thesis by (simp add: close_video_def refines_refl)
  next
    case (Some d)
    obtain au ts err d1 where fl: "Flush out d = ((au, ts, err), d1)" by (metis prod_cases3 surj_pair)
    define sw1 where "sw1 = sw\<lparr>sw_h264Decoder := Some d1\<rparr>"
    have k: "abs_video sw1 = abs_video sw" "video_ok sw \<longrightarrow> video_ok sw1"
      by (auto simp: sw1_def abs_video_def recorded_def pending_tracks_def video_ok_def counters_ok_def bytes_ok_def times_ok_def)
    let ?last = "if sw_lastVideoDuration sw = 0 then videoTimeScale div 30 else sw_lastVideoDuration sw"
    have "?last < 2 * videoTimeScale" using ok by (simp add: video_ok_def videoTimeScale_def)
    from unit_refines[OF this, of sw1 e now au "sw_pendingVideoTime sw1"]
    have "video_refines sw1 (snd (close_video e now out sw))" if "\<not> sw_skipDecoderFlush sw"
      using that Some fl refines_refl by (auto simp: close_video_def Let_def sw1_def[symmetric] split: prod.splits)
    then show ?thesis using refines_fields[OF k] Some refines_refl by (cases "sw_skipDecoderFlush sw") (auto simp: close_video_def)
  qed
qed

lemma Close_steps:
  obtains flushErr sw1 sw2 r sw3 c where "close_video e now out sw = (flushErr, sw1)"
    "sw2 = (finishRecordingAudio e sw1)\<lparr>sw_preAudio := []\<rparr>" "flushGOP e sw2 = (r, sw3)" "sw_Close e now out fclose sw = (c, sw3)"
    "c = \<lparr>cl_duration = (if sw_videoDTS sw3 > 0 then ticks_duration (sw_videoDTS sw3) else tsub now (sw_startTime sw3)),
          cl_gopErr = (r \<noteq> Written), cl_closeErr = (\<not> fclose), cl_flushErr = flushErr\<rparr>"
proof -
  obtain flushErr sw1 where a: "close_video e now out sw = (flushErr, sw1)" by fastforce
  obtain r sw3 where b: "flushGOP e ((finishRecordingAudio e sw1)\<lparr>sw_preAudio := []\<rparr>) = (r, sw3)" by fastforce
  show thesis by (rule that[OF a refl b _ refl]) (simp add: sw_Close_def a b)
qed

lemma Close_refines: "video_ok sw \<Longrightarrow> video_refines sw (snd (sw_Close e now out fclose sw))"
proof (cases rule: Close_steps[of e now out sw fclose])
  case (1 flushErr sw1 sw2 r sw3 c)
  assume "video_ok sw"
  from close_video_refines[OF this, of e now out] have v: "video_refines sw sw1" using 1(1) by simp
  have "same_video sw1 sw2" "counters_ok sw1 \<longrightarrow> counters_ok sw2"
    unfolding 1(2) by (rule keeps_video.step_preAudio[OF finish_keeps(1)] keeps_counters.step_preAudio[OF finish_keeps(2)])+
  from refines_same[OF v this] have "video_refines sw sw2" .
  from refines_same[OF this flush_keeps[of sw2 e]] show ?thesis using 1(3,4) by simp
qed

section \<open>Runs of a writer\<close>

text \<open>The states a writer can reach; the flag says that no operation has failed so far.\<close>

definition went_well :: "write_result \<Rightarrow> bool" where
  "went_well r \<longleftrightarrow> r = Written \<or> r = Failed ErrTimestampGap"

inductive writer_reach :: "bool \<Rightarrow> SegmentWriter \<Rightarrow> bool" where
  reach_new: "writer_reach True (NewSegmentWriter e now video audio)"
| reach_video: "writer_reach ok sw \<Longrightarrow> WriteVideo e now out pkt sw = (r, sw') \<Longrightarrow> writer_reach (ok \<and> went_well r) sw'"
| reach_audio: "writer_reach ok sw \<Longrightarrow> WriteAudio e now aus pkt sw = (r, sw') \<Longrightarrow> writer_reach (ok \<and> r = Written) sw'"
| reach_close: "writer_reach ok sw \<Longrightarrow> sw_Close e now out fclose sw = (c, sw') \<Longrightarrow> writer_reach (ok \<and> \<not> close_failed c) sw'"

lemma new_recorded:
  "sw_file (NewSegmentWriter e now video audio) = []" "sw_pendingVideoSamples (NewSegmentWriter e now video audio) = []"
  "sw_pendingAudioSamples (NewSegmentWriter e now video audio) = []" "sw_videoDTS (NewSegmentWriter e now video audio) = 0"
  "sw_flushedVideoDTS (NewSegmentWriter e now video audio) = 0" "sw_pendingBytes (NewSegmentWriter e now video audio) = 0"
  "sw_lastVideoDuration (NewSegmentWriter e now video audio) = 0" "sw_initWritten (NewSegmentWriter e now video audio) = False"
  by (auto simp: NewSegmentWriter_def with_audio_def with_video_def empty_writer_def failAudio_def split: option.splits)

lemma new_ok: "video_ok (NewSegmentWriter e now video audio)" "abs_video (NewSegmentWriter e now video audio) = ([], 0)"
  by (simp_all add: video_ok_def counters_ok_def bytes_ok_def times_ok_def new_recorded videoTimeScale_def abs_video_def recorded_def
      track_parts_def)

lemma WriteAudio_refines: "video_refines sw (snd (WriteAudio e now aus pkt sw))"
  by (rule audio_refines[OF keeps_video.step_WriteAudio keeps_counters.step_WriteAudio])

lemma writer_reach_step:
  assumes "\<And>e now video audio. Q (NewSegmentWriter e now video audio)"
    and "\<And>sw sw'. video_ok sw \<Longrightarrow> video_refines sw sw' \<Longrightarrow> Q sw \<Longrightarrow> Q sw'"
  shows "writer_reach ok sw \<Longrightarrow> video_ok sw \<and> Q sw"
proof (induction rule: writer_reach.induct)
  case (reach_new e now video audio)
  then show ?case using assms(1) new_ok(1) by blast
next
  case (reach_video ok sw e now out pkt r sw')
  then have "video_refines sw sw'" using WriteVideo_refines[of sw e now out pkt] by simp
  then show ?case using reach_video.IH assms(2) unfolding video_refines_def by blast
next
  case (reach_audio ok sw e now aus pkt r sw')
  then have "video_refines sw sw'" using WriteAudio_refines[of sw e now aus pkt] by simp
  then show ?case using reach_audio.IH assms(2) unfolding video_refines_def by blast
next
  case (reach_close ok sw e now out fclose c sw')
  then have "video_refines sw sw'" using Close_refines[of sw e now out fclose] by simp
  then show ?case using reach_close.IH assms(2) unfolding video_refines_def by blast
qed

lemma reach_rec_ok: "writer_reach ok sw \<Longrightarrow> video_ok sw \<and> rec_ok (abs_video sw)"
proof (rule writer_reach_step[where Q = "\<lambda>sw. rec_ok (abs_video sw)"])
  show "rec_ok (abs_video (NewSegmentWriter e now video audio))" for e now video audio
    by (simp add: new_ok rec_ok_def)
  show "rec_ok (abs_video sw')" if "video_ok sw" "video_refines sw sw'" "rec_ok (abs_video sw)" for sw sw'
    using that rec_step_ok unfolding video_refines_def by blast
qed



section \<open>No sample is lost\<close>

definition samples :: "(nat \<times> sample list) list \<Rightarrow> sample list" where
  "samples ps = concat (map snd ps)"

lemma samples_append [simp]: "samples (ps @ qs) = samples ps @ samples qs" "samples [] = []" "samples [p] = snd p"
  by (simp_all add: samples_def)

lemma rec_step_samples: "rec_step S S' \<Longrightarrow> \<exists>new. samples (fst S') = samples (fst S) @ new \<and> length new \<le> 1"
  by (induction rule: rec_step.induct) auto

lemma push_samples: "samples (fst (abs_video (push_sample s sw))) = samples (fst (abs_video sw)) @ [s]"
  by (auto simp: abs_video_def recorded_video)

lemma append_unit_writes:
  assumes "append_unit e au dur sw = (Written, sw')"
  shows "\<exists>s. sm_IsNonSync s = (\<not> env_IsRandomAccess e au) \<and> samples (fst (abs_video sw')) = samples (fst (abs_video sw)) @ [s]"
    and "sw_initWritten sw' = sw_initWritten sw"
proof -
  let ?key = "env_IsRandomAccess e au \<and> sw_pendingVideoSamples sw \<noteq> []"
  obtain payload where p: "env_AVCC e au = Some payload" using assms by (auto simp: append_unit_def split: option.splits)
  let ?s = "\<lparr>sm_Duration = (if dur = 0 then videoTimeScale div 30 else dur), sm_IsNonSync = (\<not> env_IsRandomAccess e au), sm_Payload = payload\<rparr>"
  obtain r sw1 where f: "(if ?key then flushGOP e sw else (Written, sw)) = (r, sw1)" by fastforce
  have s1: "same_video sw sw1" using f flush_keeps(1)[of sw e] keeps_video.step_refl by (auto split: if_splits)
  have "r = Written" using assms p f by (cases r) (auto simp: append_unit_def)
  then have c: "sw' = snd (capPendingPart e (push_sample ?s sw1))" using assms p f by (simp add: append_unit_def)
  have s2: "same_video (push_sample ?s sw1) sw'" unfolding c by (rule cap_keeps(1))
  show "\<exists>s. sm_IsNonSync s = (\<not> env_IsRandomAccess e au) \<and> samples (fst (abs_video sw')) = samples (fst (abs_video sw)) @ [s]"
    using same_video_abs[OF s1] same_video_abs[OF s2] push_samples[of ?s sw1] by (intro exI[of _ ?s]) simp
  show "sw_initWritten sw' = sw_initWritten sw" using s1 s2 unfolding same_video_def by simp
qed

text \<open>A file that is open begins with a keyframe; one that is not has no video yet.\<close>

definition opened_ok :: "SegmentWriter \<Rightarrow> bool" where
  "opened_ok sw \<longleftrightarrow>
     (if sw_initWritten sw then samples (recorded videoTrackID sw) \<noteq> [] \<and> \<not> sm_IsNonSync (hd (samples (recorded videoTrackID sw)))
      else samples (recorded videoTrackID sw) = [])"

lemma opened_cong: "abs_video sw' = abs_video sw \<Longrightarrow> sw_initWritten sw' = sw_initWritten sw \<Longrightarrow> opened_ok sw \<Longrightarrow> opened_ok sw'"
  by (simp add: opened_ok_def abs_video_def)

lemma same_opened: "same_video sw sw' \<Longrightarrow> opened_ok sw \<Longrightarrow> opened_ok sw'"
  using opened_cong[OF same_video_abs] unfolding same_video_def by blast

lemma append_opened:
  assumes "append_unit e au dur sw1 = (Written, sw')" and "sw_initWritten sw1"
    and "samples (fst (abs_video sw1)) = [] \<Longrightarrow> env_IsRandomAccess e au"
    and "samples (fst (abs_video sw1)) \<noteq> [] \<Longrightarrow> opened_ok sw1"
  shows "opened_ok sw'"
  using append_unit_writes[OF assms(1)] assms(2-4) by (cases "samples (fst (abs_video sw1)) = []") (auto simp: opened_ok_def abs_video_def)

lemma unit_opened:
  assumes "writeVideoAccessUnit e now au dur t sw = (Written, sw')" and "opened_ok sw"
  shows "opened_ok sw'"
proof (cases "DropSEI au = []")
  case True
  then show ?thesis using assms by (simp add: writeVideoAccessUnit_def)
next
  case ne: False
  obtain sps pps ch where tr: "TrackParameterSets (DropSEI au) (sw_videoSPS sw) (sw_videoPPS sw) = (sps, pps, ch)" by (metis prod_cases3)
  define sw0 where "sw0 = sw\<lparr>sw_videoSPS := sps, sw_videoPPS := pps\<rparr>"
  have a0: "abs_video sw0 = abs_video sw" "sw_initWritten sw0 = sw_initWritten sw"
    by (simp_all add: sw0_def abs_video_def recorded_def pending_tracks_def)
  have o0: "opened_ok sw0" using opened_cong[OF a0 assms(2)] .
  note w = assms(1)[unfolded writeVideoAccessUnit_def Let_def tr prod.case if_not_P[OF ne], folded sw0_def]
  show ?thesis
  proof (cases "sw_initWritten sw0")
    case True
    then have "append_unit e (DropSEI au) dur sw0 = (Written, sw')" using w by simp
    from append_opened[OF this True] o0 True show ?thesis by (auto simp: opened_ok_def abs_video_def)
  next
    case False
    show ?thesis
    proof (cases "\<not> env_IsRandomAccess e (DropSEI au) \<or> sps = [] \<or> pps = []")
      case True
      then have "sw' = sw0 \<or> sw' = sw0\<lparr>sw_preAudio := []\<rparr>" using w False by (auto split: if_splits)
      then show ?thesis using o0 same_opened[OF keeps_video.step_preAudio[OF keeps_video.step_refl]] by blast
    next
      case go: False
      obtain r sw1 where o: "open_file e now t sw0 = (r, sw1)" by fastforce
      then have r: "r = Written" using w False go by (cases r) auto
      then have "append_unit e (DropSEI au) dur sw1 = (Written, sw')" using w False go o by simp
      moreover have "samples (fst (abs_video sw1)) = []"
        using open_refines(1)[OF o] o0 False by (simp add: opened_ok_def abs_video_def)
      ultimately show ?thesis using append_opened open_refines(3)[OF o r] go by blast
    qed
  qed
qed

text \<open>Only \<open>WriteVideo\<close> itself reports a gap.\<close>

lemma flush_result: "fst (flushGOP e sw) \<noteq> Failed ErrTimestampGap"
  by (cases rule: flush_cases[of sw e]) auto

lemma cap_result: "fst (capPendingPart e sw) \<noteq> Failed ErrTimestampGap"
  by (simp add: capPendingPart_def Let_def flush_result)

lemma encode_result: "fst (encode_packet e pkt r sw) \<noteq> Failed ErrTimestampGap"
  by (auto simp: encode_packet_def Let_def cap_result split: option.splits)

lemma restart_result: "fst (restart_audio e pkt n sw) \<noteq> Failed ErrTimestampGap"
proof -
  obtain r sw1 where f: "flushGOP e (finishRecordingAudio e sw) = (r, sw1)" by fastforce
  have "r \<noteq> Failed ErrTimestampGap" using flush_result[of e "finishRecordingAudio e sw"] f by simp
  then show ?thesis using f by (cases r) (auto simp: restart_audio_def encode_result split: option.splits)
qed

lemma G711_result: "fst (writeG711Audio e now pkt sw) \<noteq> Failed ErrTimestampGap"
  by (auto simp: writeG711Audio_def Let_def encode_result restart_result split: option.splits)

lemma queued_result: "fst (write_queued e now t q sw) \<noteq> Failed ErrTimestampGap"
proof (induction q arbitrary: sw)
  case (Cons p q)
  obtain pkt rec where p: "p = (pkt, rec)" by (cases p)
  obtain r sw1 where w: "writeG711Audio e now (Some pkt) sw = (r, sw1)" by fastforce
  have "r \<noteq> Failed ErrTimestampGap" using G711_result[of e now "Some pkt" sw] w by simp
  then show ?case using Cons p w by (cases r) auto
qed simp

lemma open_result: "fst (open_file e now t sw) \<noteq> Failed ErrTimestampGap"
  by (auto simp: open_file_def writeInit_def queued_result)

lemma append_result: "fst (append_unit e au dur sw) \<noteq> Failed ErrTimestampGap"
proof (cases "env_AVCC e au")
  case (Some payload)
  obtain r sw1 where f: "(if env_IsRandomAccess e au \<and> sw_pendingVideoSamples sw \<noteq> [] then flushGOP e sw else (Written, sw)) = (r, sw1)" by fastforce
  have "r \<noteq> Failed ErrTimestampGap" using flush_result[of e sw] f by (auto split: if_splits)
  then show ?thesis using f Some by (cases r) (auto simp: append_unit_def cap_result)
qed (simp add: append_unit_def)

lemma unit_no_gap: "writeVideoAccessUnit e now au dur t sw \<noteq> (Failed ErrTimestampGap, sw')"
proof -
  have "fst (writeVideoAccessUnit e now au dur t sw) \<noteq> Failed ErrTimestampGap"
  proof -
    obtain sps pps ch where tr: "TrackParameterSets (DropSEI au) (sw_videoSPS sw) (sw_videoPPS sw) = (sps, pps, ch)" by (metis prod_cases3)
    obtain r sw1 where o: "open_file e now t (sw\<lparr>sw_videoSPS := sps, sw_videoPPS := pps\<rparr>) = (r, sw1)" by fastforce
    have "r \<noteq> Failed ErrTimestampGap" using open_result[of e now t "sw\<lparr>sw_videoSPS := sps, sw_videoPPS := pps\<rparr>"] o by simp
    then show ?thesis using tr o append_result by (cases r) (auto simp: writeVideoAccessUnit_def Let_def)
  qed
  then show ?thesis by auto
qed

lemma WriteVideo_opened:
  assumes "WriteVideo e now out packet sw = (r, sw')" and "went_well r" and "opened_ok sw"
  shows "opened_ok sw'"
proof (cases "sw_h264Decoder sw = None \<or> packet = None")
  case True
  then show ?thesis using assms by (auto simp: WriteVideo_def split: option.splits)
next
  case False
  then obtain d pkt where d: "sw_h264Decoder sw = Some d" and p: "packet = Some pkt" by auto
  obtain t sw1 where n: "note_packet now (rp_Timestamp pkt) sw = (t, sw1)" by fastforce
  obtain au ts err d1 where dec: "Decode out (rp_Timestamp pkt) d = ((au, ts, err), d1)" by (metis prod_cases3 surj_pair)
  define sw2 where "sw2 = sw1\<lparr>sw_h264Decoder := Some d1\<rparr>"
  have o2: "opened_ok sw2"
    using opened_cong[of sw2 sw] note_packet_keeps(1)[OF n, of "Some d1"] note_packet_keeps(3)[OF n] assms(3) by (simp add: sw2_def)
  have gap: "opened_ok (sw2\<lparr>sw_skipDecoderFlush := True\<rparr>)"
    using opened_cong[of "sw2\<lparr>sw_skipDecoderFlush := True\<rparr>" sw2] abs_video_fields[of "sw2\<lparr>sw_skipDecoderFlush := True\<rparr>" sw2] o2 by simp
  let ?dur = "nat (u32 (rp_Timestamp pkt - ts))"
  have unit: "opened_ok sw'" if "writeVideoAccessUnit e now au (if ?dur = 0 then videoTimeScale div 30 else ?dur) t sw2 = (r, sw')"
  proof -
    have "r \<noteq> Failed ErrTimestampGap"
      using that by (auto simp: unit_no_gap)
    then show ?thesis using that assms(2) unit_opened o2 unfolding went_well_def by blast
  qed
  from assms(1) d p n dec gap o2 unit show ?thesis
    by (auto simp: WriteVideo_def Let_def sw2_def[symmetric] split: if_splits)
qed

end
