(* ===== verification/Segment_Guarantees.thy ===== *)
theory Segment_Guarantees
  imports Mp4_Timeline
begin

text \<open>
  What the recorder may rely on: segments open on keyframes and clips of them can be decoded, the buffer
  stays bounded, closing loses nothing and reports honest durations, and audio never overlaps.
\<close>

section \<open>Keyframes\<close>

lemma close_video_opened:
  assumes "close_video e now out sw = (False, sw')" and "opened_ok sw"
  shows "opened_ok sw'"
proof (cases "sw_h264Decoder sw")
  case None
  then show ?thesis using assms by (simp add: close_video_def)
next
  case (Some d)
  obtain au ts err d1 where fl: "Flush out d = ((au, ts, err), d1)" by (metis prod_cases3 surj_pair)
  define sw1 where "sw1 = sw\<lparr>sw_h264Decoder := Some d1\<rparr>"
  have o1: "opened_ok sw1" using opened_cong[of sw1 sw] abs_video_fields[of sw1 sw] assms(2) by (simp add: sw1_def)
  let ?w = "writeVideoAccessUnit e now au (if sw_lastVideoDuration sw = 0 then videoTimeScale div 30 else sw_lastVideoDuration sw) (sw_pendingVideoTime sw1) sw1"
  have "opened_ok sw'" if "?w = (Written, sw')" using unit_opened[OF that o1] .
  then show ?thesis using assms o1 Some fl
    by (auto simp: close_video_def Let_def sw1_def[symmetric] split: if_splits prod.splits)
qed

lemma reach_opened: "writer_reach ok sw \<Longrightarrow> ok \<Longrightarrow> opened_ok sw"
proof (induction rule: writer_reach.induct)
  case (reach_new e now video audio)
  then show ?case using new_ok(2)[of e now video audio] by (simp add: opened_ok_def new_recorded abs_video_def)
next
  case (reach_video ok sw e now out pkt r sw')
  then show ?case using WriteVideo_opened by blast
next
  case (reach_audio ok sw e now aus pkt r sw')
  then show ?case using same_opened[OF keeps_video.step_WriteAudio[of sw e now aus pkt]] by simp
next
  case (reach_close ok sw e now out fclose c sw')
  show ?case
  proof (cases rule: Close_steps[of e now out sw fclose])
    case (1 flushErr sw1 sw2 r sw3 c')
    then have "sw' = sw3" "\<not> flushErr" using reach_close by (auto simp: close_failed_def)
    then have "opened_ok sw1" using close_video_opened 1(1) reach_close by simp
    moreover have "same_video sw1 sw2" unfolding 1(2) by (rule keeps_video.step_preAudio[OF finish_keeps(1)])
    moreover have "same_video sw2 sw3" using flush_keeps(1)[of sw2 e] 1(3) by simp
    ultimately show ?thesis using same_opened \<open>sw' = sw3\<close> by blast
  qed
qed

text \<open>How the index describes the video of a part that the library has marshalled.\<close>

definition reads_back :: "part \<Rightarrow> fragment \<Rightarrow> bool" where
  "reads_back p f \<longleftrightarrow>
     traf videoTrackID f =
       (case track_parts videoTrackID (pa_Tracks p) of
          [] \<Rightarrow> None
        | (base, ss) # _ \<Rightarrow> Some \<lparr>te_trackID = videoTrackID, te_decodeTime = int base, te_duration = int (media_time ss), te_isSync = (\<not> sm_IsNonSync (hd ss))\<rparr>)"

definition file_media :: "file_item list \<Rightarrow> part list" where
  "file_media file = concat (map (\<lambda>x. case x of PartItem p \<Rightarrow> [p] | _ \<Rightarrow> []) file)"

lemma file_media_tracks: "file_tracks items = concat (map pa_Tracks (file_media items))"
proof (induction items)
  case (Cons x items)
  then show ?case by (cases x) (simp_all add: file_tracks_def file_media_def)
qed (simp add: file_tracks_def file_media_def)

lemma first_video_part:
  assumes "list_all2 reads_back ps fs" and "j < length fs" and "traf videoTrackID (fs ! j) \<noteq> None"
    and "\<And>i. i < j \<Longrightarrow> traf videoTrackID (fs ! i) = None"
    and "list_all (\<lambda>p. snd p \<noteq> []) (track_parts videoTrackID (concat (map pa_Tracks ps)))"
  shows "opens_on_sync videoTrackID (fs ! j) \<longleftrightarrow> \<not> sm_IsNonSync (hd (samples (track_parts videoTrackID (concat (map pa_Tracks ps)))))"
  using assms
proof (induction arbitrary: j rule: list_all2_induct)
  case (Cons p ps f fs)
  show ?case
  proof (cases j)
    case 0
    then obtain base ss qs where t: "track_parts videoTrackID (pa_Tracks p) = (base, ss) # qs"
      using Cons.prems(2) Cons.hyps(1) by (auto simp: reads_back_def split: list.splits)
    then have "ss \<noteq> []" using Cons.prems(4) by simp
    then show ?thesis using 0 t Cons.hyps(1) by (simp add: reads_back_def opens_on_sync_def samples_def)
  next
    case (Suc i)
    have "traf videoTrackID f = None" using Cons.prems(3)[of 0] Suc by simp
    then have t: "track_parts videoTrackID (pa_Tracks p) = []" using Cons.hyps(1) by (auto simp: reads_back_def split: list.splits)
    have "opens_on_sync videoTrackID (fs ! i) \<longleftrightarrow> \<not> sm_IsNonSync (hd (samples (track_parts videoTrackID (concat (map pa_Tracks ps)))))"
    proof (rule Cons.IH)
      show "traf videoTrackID (fs ! k) = None" if "k < i" for k using Cons.prems(3)[of "Suc k"] that Suc by simp
    qed (use Cons.prems Suc t in auto)
    then show ?thesis using Suc t by simp
  qed
qed simp

lemma contiguous_nonempty: "contiguous b ps \<Longrightarrow> list_all (\<lambda>p. snd p \<noteq> []) ps"
  by (induction ps arbitrary: b) auto

lemma track_parts_concat: "track_parts i (concat tss) = concat (map (track_parts i) tss)"
  by (induction tss) auto

lemma first_in_file:
  assumes "writer_reach True sw" and "list_all2 reads_back (file_media (sw_file sw)) frags" and "j < length frags"
    and "traf videoTrackID (frags ! j) \<noteq> None" and "\<And>i. i < j \<Longrightarrow> traf videoTrackID (frags ! i) = None"
  shows "opens_on_sync videoTrackID (frags ! j)"
proof -
  let ?fp = "track_parts videoTrackID (file_tracks (sw_file sw))"
  have c: "contiguous 0 (recorded videoTrackID sw)" using reach_rec_ok[OF assms(1)] by (simp add: rec_ok_def abs_video_def)
  then have ne: "list_all (\<lambda>p. snd p \<noteq> []) ?fp" using contiguous_nonempty by (fastforce simp: recorded_def)
  have "opens_on_sync videoTrackID (frags ! j) \<longleftrightarrow> \<not> sm_IsNonSync (hd (samples ?fp))"
    using first_video_part[OF assms(2-5)] ne by (simp add: file_media_tracks)
  moreover have "samples ?fp \<noteq> []"
  proof -
    let ?p = "file_media (sw_file sw) ! j"
    have l: "j < length (file_media (sw_file sw))" using assms(2,3) by (simp add: list_all2_lengthD)
    have "reads_back ?p (frags ! j)" using assms(2) l by (simp add: list_all2_nthD)
    then have "track_parts videoTrackID (pa_Tracks ?p) \<noteq> []" using assms(4) by (auto simp: reads_back_def)
    then have "?fp \<noteq> []" using nth_mem[OF l] by (auto simp: file_media_tracks track_parts_concat)
    then show ?thesis using ne by (cases ?fp) (auto simp: samples_def)
  qed
  moreover have "samples (recorded videoTrackID sw) \<noteq> [] \<Longrightarrow> \<not> sm_IsNonSync (hd (samples (recorded videoTrackID sw)))"
    using reach_opened[OF assms(1)] by (simp add: opened_ok_def split: if_splits)
  ultimately show ?thesis by (simp add: recorded_def)
qed


text \<open>A writer for the witnesses: every library call answers at once, units of type 5 are keyframes.\<close>

definition steady_env :: "bool \<Rightarrow> writer_env" where
  "steady_env good =
     \<lparr>env_part = (\<lambda>_ _. good), env_init = True, env_IsRandomAccess = list_ex (\<lambda>n. isType n 5), env_AVCC = (\<lambda>au. Some (concat au)),
      env_newEncoder = Some 0, env_encode = (\<lambda>_ _. Some []), env_flushResampler = Some [], env_drain = Some []\<rparr>"

definition video_track :: TrackInfo where
  "video_track = \<lparr>ti_Codec = ''H264'', ti_SPS = [0x67], ti_PPS = [0x68], ti_ClockRate = 90000, ti_ChannelCount = 0, ti_PayloadType = 96, ti_IsVideo = True\<rparr>"

definition video_packet :: "int \<Rightarrow> rtp_packet" where
  "video_packet ts = \<lparr>rp_Timestamp = ts, rp_SequenceNumber = 0, rp_SSRC = 0, rp_PayloadType = 96, rp_Payload = []\<rparr>"

definition sample_writer :: SegmentWriter where
  "sample_writer = NewSegmentWriter (steady_env True) 0 (Some video_track) None"

text \<open>Feeding units one frame time apart; the depacketizer returns a unit with the first packet of the next.\<close>

fun feed :: "nat \<Rightarrow> (writer_env \<times> access_unit) list \<Rightarrow> SegmentWriter \<Rightarrow> bool \<times> SegmentWriter" where
  "feed n [] sw = (True, sw)"
| "feed n ((e, au) # us) sw =
     (case WriteVideo e (int n) (au, False) (Some (video_packet (3000 * int n))) sw of
        (r, sw') \<Rightarrow> (case feed (Suc n) us sw' of (ok, sw2) \<Rightarrow> (went_well r \<and> ok, sw2)))"

lemma feed_reach: "writer_reach ok sw \<Longrightarrow> feed n us sw = (ok', sw') \<Longrightarrow> writer_reach (ok \<and> ok') sw'"
proof (induction n us sw arbitrary: ok ok' sw' rule: feed.induct)
  case (2 n e au us sw)
  obtain r sw1 where w: "WriteVideo e (int n) (au, False) (Some (video_packet (3000 * int n))) sw = (r, sw1)" by fastforce
  obtain ok2 sw2 where f: "feed (Suc n) us sw1 = (ok2, sw2)" by fastforce
  have "writer_reach ((ok \<and> went_well r) \<and> ok2) sw2" by (rule 2(1)[OF w[symmetric] reach_video[OF 2(2) w] f])
  then show ?case using 2(3) w f by (simp add: conj_assoc)
qed simp

definition sample_run :: "bool \<times> SegmentWriter" where
  "sample_run = feed 0 [(steady_env True, []), (steady_env True, [[0x65, 1]]), (steady_env True, [[0x41, 2]]), (steady_env True, [[0x65, 3]]),
     (steady_env True, [[0x41, 4]])] sample_writer"

lemma sample_run_reach: "writer_reach (fst sample_run) (snd sample_run)"
proof -
  obtain ok sw where r: "sample_run = (ok, sw)" by fastforce
  from feed_reach[OF reach_new r[unfolded sample_run_def sample_writer_def]] show ?thesis by (simp add: r)
qed

lemmas writer_eval = steady_env_def video_track_def video_packet_def NewSegmentWriter_def with_audio_def with_video_def empty_writer_def
  NewH264AccessUnitDecoder_def WriteVideo_def note_packet_def Decode_def writeVideoAccessUnit_def DropSEI_def TrackParameterSets_def
  isType_def NALUTypeSEI_def NALUTypeSPS_def NALUTypePPS_def open_file_def writeInit_def append_unit_def push_sample_def capPendingPart_def
  flushGOP_def pending_tracks_def videoTimeScale_def maxPendingPartBytes_def maxPendingPartSeconds_def u32_def went_well_def
  videoTrackID_def audioTrackID_def Let_def

definition key_sample :: "8 word \<Rightarrow> sample" where
  "key_sample b = \<lparr>sm_Duration = 3000, sm_IsNonSync = False, sm_Payload = [0x65, b]\<rparr>"

definition delta_sample :: "8 word \<Rightarrow> sample" where
  "delta_sample b = \<lparr>sm_Duration = 3000, sm_IsNonSync = True, sm_Payload = [0x41, b]\<rparr>"

lemma sample_run_state:
  "fst sample_run" "sw_pendingVideoSamples (snd sample_run) = [key_sample 3, delta_sample 4]" "sw_pendingVideoDTS (snd sample_run) = 6000"
  "file_media (sw_file (snd sample_run)) = [\<lparr>pa_SequenceNumber = 0,
     pa_Tracks = [\<lparr>pt_ID = videoTrackID, pt_BaseTime = 0, pt_Samples = [key_sample 1, delta_sample 2]\<rparr>]\<rparr>]"
  "sw_initWritten (snd sample_run)"
  by (simp_all add: sample_run_def sample_writer_def key_sample_def delta_sample_def file_media_def writer_eval)


section \<open>The buffer\<close>

definition buffer_ok :: "SegmentWriter \<Rightarrow> bool" where
  "buffer_ok sw \<longleftrightarrow> sum_list (map (length \<circ> sm_Payload) (sw_pendingVideoSamples sw @ sw_pendingAudioSamples sw)) < maxPendingPartBytes \<and>
     media_time (sw_pendingVideoSamples sw) < maxPendingPartSeconds * videoTimeScale"

lemma buffer_cong:
  "sw_pendingVideoSamples sw' = sw_pendingVideoSamples sw \<Longrightarrow> sw_pendingAudioSamples sw' = sw_pendingAudioSamples sw \<Longrightarrow> buffer_ok sw' = buffer_ok sw"
  by (simp add: buffer_ok_def)

lemma empty_buffer: "sw_pendingVideoSamples sw = [] \<Longrightarrow> sw_pendingAudioSamples sw = [] \<Longrightarrow> buffer_ok sw"
  by (simp add: buffer_ok_def maxPendingPartBytes_def maxPendingPartSeconds_def videoTimeScale_def)

lemma flush_buffer: "flushGOP e sw = (Written, sw') \<Longrightarrow> buffer_ok sw'"
  using flush_empties empty_buffer by blast

lemma cap_buffer:
  assumes "capPendingPart e sw = (Written, sw')" and "counters_ok sw"
  shows "buffer_ok sw'"
proof -
  let ?over = "sw_pendingBytes sw \<ge> maxPendingPartBytes \<or>
    (sw_pendingVideoSamples sw \<noteq> [] \<and> sw_videoDTS sw - sw_pendingVideoDTS sw \<ge> videoTimeScale * maxPendingPartSeconds)"
  have "sw_pendingVideoSamples sw = [] \<and> sw_pendingAudioSamples sw = [] \<and> sw' = sw \<or> \<not> ?over \<and> sw' = sw \<or> flushGOP e sw = (Written, sw')"
    using assms(1) by (auto simp: capPendingPart_def Let_def split: if_splits)
  moreover have "buffer_ok sw" if "\<not> ?over"
    using that assms(2)
    by (cases "sw_pendingVideoSamples sw = []")
      (auto simp: buffer_ok_def counters_ok_def bytes_ok_def times_ok_def mult.commute maxPendingPartSeconds_def videoTimeScale_def)
  ultimately show ?thesis using flush_buffer empty_buffer by blast
qed

lemma failAudio_buffer: "buffer_ok (failAudio sw) = buffer_ok sw"
  by (rule buffer_cong) (simp_all add: failAudio_def)

lemma encode_buffer:
  assumes "encode_packet e pkt r sw = (Written, sw')" and "counters_ok sw" and "buffer_ok sw"
  shows "buffer_ok sw'"
proof (cases "env_encode e (ra_input r) (rp_Payload pkt)")
  case None
  then have "buffer_ok (sw\<lparr>sw_recordingAudio := x\<rparr>)" for x using assms(3) by (simp add: buffer_ok_def)
  then show ?thesis using assms(1) None by (auto simp: encode_packet_def Let_def failAudio_buffer)
next
  case (Some frames)
  let ?r = "r\<lparr>ra_previous := Some pkt, ra_input := ra_input r + length (rp_Payload pkt) * ra_factor r\<rparr>"
  have "counters_ok (appendEncodedAudio frames ?r sw)"
    using keeps_counters.step_append[OF keeps_counters.step_refl, of sw frames ?r] assms(2) by blast
  then show ?thesis using assms(1) Some cap_buffer by (simp add: encode_packet_def Let_def)
qed

lemma restart_buffer:
  assumes "restart_audio e pkt n sw = (Written, sw')" and "counters_ok sw"
  shows "buffer_ok sw'"
proof -
  obtain r sw1 where f: "flushGOP e (finishRecordingAudio e sw) = (r, sw1)" by fastforce
  have r: "r = Written" using assms(1) f by (cases r) (auto simp: restart_audio_def)
  have b: "buffer_ok sw1" using flush_buffer f r by blast
  have c: "counters_ok sw1" using flush_counters[of "finishRecordingAudio e sw" e] finish_keeps(2)[of sw e] assms(2) f by simp
  show ?thesis using assms(1) f r b c encode_buffer
    by (auto simp: restart_audio_def failAudio_buffer split: if_splits option.splits)
qed

lemma G711_buffer:
  assumes "writeG711Audio e now pkt sw = (Written, sw')" and "counters_ok sw" and "buffer_ok sw"
  shows "buffer_ok sw'"
proof -
  have "buffer_ok (sw\<lparr>sw_preAudio := q\<rparr>)" for q using assms(3) by (simp add: buffer_ok_def)
  then show ?thesis using assms encode_buffer restart_buffer
    by (auto simp: writeG711Audio_def Let_def split: if_splits option.splits prod.splits)
qed

lemma queued_buffer:
  "write_queued e now t q sw = (Written, sw') \<Longrightarrow> counters_ok sw \<Longrightarrow> buffer_ok sw \<Longrightarrow> buffer_ok sw'"
proof (induction q arbitrary: sw)
  case (Cons p q)
  obtain pkt rec where p: "p = (pkt, rec)" by (cases p)
  obtain r sw1 where w: "writeG711Audio e now (Some pkt) sw = (r, sw1)" by fastforce
  show ?case
  proof (cases "tbefore rec t")
    case False
    then have r: "r = Written" "write_queued e now t q sw1 = (Written, sw')" using Cons.prems(1) p w by (cases r; simp)+
    have "counters_ok sw1" using keeps_counters.step_G711[OF keeps_counters.step_refl, of sw e now "Some pkt"] w Cons.prems(2) by simp
    moreover have "buffer_ok sw1" using G711_buffer w r(1) Cons.prems(2,3) by blast
    ultimately show ?thesis using Cons.IH[OF r(2)] by blast
  qed (use Cons p in auto)
qed simp

lemma aac_counters: "counters_ok sw \<Longrightarrow> counters_ok (push_aac aus sw)"
  using keeps_counters.step_aac[OF keeps_counters.step_refl] by blast

lemma WriteAudio_buffer:
  "WriteAudio e now aus pkt sw = (Written, sw') \<Longrightarrow> counters_ok sw \<Longrightarrow> buffer_ok sw \<Longrightarrow> buffer_ok sw'"
  using G711_buffer cap_buffer aac_counters by (auto simp: WriteAudio_def split: if_splits option.splits)

lemma open_buffer:
  assumes "open_file e now t sw = (Written, sw')" and "counters_ok sw" and "buffer_ok sw"
  shows "buffer_ok sw'"
proof -
  obtain r1 sw1 where w: "writeInit e sw = (r1, sw1)" by fastforce
  define sw2 where "sw2 = sw1\<lparr>sw_initWritten := True, sw_firstSampleTime := t, sw_preAudio := []\<rparr>"
  have "r1 = Written" using assms(1) w by (cases r1) (auto simp: open_file_def)
  then have q: "write_queued e now t (sw_preAudio sw1) sw2 = (Written, sw')" using assms(1) w by (simp add: open_file_def sw2_def)
  have "counters_ok sw1" using init_keeps(2)[OF w] assms(2) by blast
  then have "counters_ok sw2" by (simp add: sw2_def counters_ok_def bytes_ok_def times_ok_def)
  moreover have "buffer_ok sw2" using w assms(3) by (auto simp: sw2_def buffer_ok_def writeInit_def split: if_splits)
  ultimately show ?thesis using queued_buffer[OF q] by blast
qed

lemma append_buffer:
  assumes "append_unit e au dur sw = (Written, sw')" and "counters_ok sw"
  shows "buffer_ok sw'"
proof -
  let ?key = "env_IsRandomAccess e au \<and> sw_pendingVideoSamples sw \<noteq> []"
  obtain payload where p: "env_AVCC e au = Some payload" using assms by (auto simp: append_unit_def split: option.splits)
  obtain r sw1 where f: "(if ?key then flushGOP e sw else (Written, sw)) = (r, sw1)" by fastforce
  have "r = Written" using assms(1) p f by (cases r) (auto simp: append_unit_def)
  moreover have "counters_ok sw1" using f flush_counters[OF assms(2), of e] assms(2) by (auto split: if_splits)
  ultimately show ?thesis using assms(1) p f cap_buffer push_counters by (auto simp: append_unit_def)
qed

lemma unit_buffer:
  assumes "writeVideoAccessUnit e now au dur t sw = (Written, sw')" and "counters_ok sw" and "buffer_ok sw"
  shows "buffer_ok sw'"
proof -
  obtain sps pps ch where tr: "TrackParameterSets (DropSEI au) (sw_videoSPS sw) (sw_videoPPS sw) = (sps, pps, ch)" by (metis prod_cases3)
  define sw0 where "sw0 = sw\<lparr>sw_videoSPS := sps, sw_videoPPS := pps\<rparr>"
  have b0: "buffer_ok sw0" "buffer_ok (sw0\<lparr>sw_preAudio := []\<rparr>)" using assms(3) by (simp_all add: sw0_def buffer_ok_def)
  have c0: "counters_ok sw0" using assms(2) by (simp add: sw0_def counters_ok_def bytes_ok_def times_ok_def)
  obtain r sw1 where o: "open_file e now t sw0 = (r, sw1)" by fastforce
  have a: "buffer_ok sw'" if "append_unit e (DropSEI au) dur sw0 = (Written, sw')" using append_buffer[OF that c0] .
  have o': "buffer_ok sw'" if "(case open_file e now t sw0 of (Written, sw1) \<Rightarrow> append_unit e (DropSEI au) dur sw1 | (bad, sw1) \<Rightarrow> (bad, sw1)) = (Written, sw')"
  proof -
    have r: "r = Written" using that o by (cases r) auto
    have "counters_ok sw1"
    proof -
      obtain r1 swi where w: "writeInit e sw0 = (r1, swi)" by fastforce
      define sw2 where "sw2 = swi\<lparr>sw_initWritten := True, sw_firstSampleTime := t, sw_preAudio := []\<rparr>"
      have "r1 = Written" using o r w by (cases r1) (auto simp: open_file_def)
      then have q: "write_queued e now t (sw_preAudio swi) sw2 = (r, sw1)" using o w by (simp add: open_file_def sw2_def)
      have "counters_ok sw2" using init_keeps(2)[OF w] c0 by (simp add: sw2_def counters_ok_def bytes_ok_def times_ok_def)
      then show ?thesis using keeps_counters.step_queued[OF keeps_counters.step_refl, of sw2 e now t "sw_preAudio swi"] q by simp
    qed
    then show ?thesis using that o r append_buffer by simp
  qed
  from assms(1,3) tr a o' b0 show ?thesis
    by (auto simp: writeVideoAccessUnit_def Let_def sw0_def[symmetric] split: if_splits)
qed

lemma WriteVideo_buffer:
  assumes "WriteVideo e now out packet sw = (r, sw')" and "went_well r" and "counters_ok sw" and "buffer_ok sw"
  shows "buffer_ok sw'"
proof (cases "sw_h264Decoder sw = None \<or> packet = None")
  case True
  then show ?thesis using assms by (auto simp: WriteVideo_def split: option.splits)
next
  case False
  then obtain d pkt where d: "sw_h264Decoder sw = Some d" and p: "packet = Some pkt" by auto
  obtain t sw1 where n: "note_packet now (rp_Timestamp pkt) sw = (t, sw1)" by fastforce
  obtain au ts err d1 where dec: "Decode out (rp_Timestamp pkt) d = ((au, ts, err), d1)" by (metis prod_cases3 surj_pair)
  define sw2 where "sw2 = sw1\<lparr>sw_h264Decoder := Some d1\<rparr>"
  have b2: "buffer_ok sw2" "buffer_ok (sw2\<lparr>sw_skipDecoderFlush := True\<rparr>)"
    using n assms(4) by (auto simp: sw2_def note_packet_def buffer_ok_def split: if_splits)
  have c2: "counters_ok sw2"
    using n assms(3) by (auto simp: sw2_def note_packet_def counters_ok_def bytes_ok_def times_ok_def split: if_splits)
  let ?dur = "nat (u32 (rp_Timestamp pkt - ts))"
  have unit: "buffer_ok sw'" if w: "writeVideoAccessUnit e now au (if ?dur = 0 then videoTimeScale div 30 else ?dur) t sw2 = (r, sw')"
  proof -
    have "r = Written" using w assms(2) unit_no_gap unfolding went_well_def by metis
    then show ?thesis using w unit_buffer[OF _ c2 b2(1)] by blast
  qed
  from assms(1) d p n dec b2 unit show ?thesis
    by (auto simp: WriteVideo_def Let_def sw2_def[symmetric] split: if_splits)
qed



section \<open>Closing\<close>

lemma ticks_duration_exact: "int dts * Second < 2 ^ 64 \<Longrightarrow> ticks_duration dts = int dts * Second div int videoTimeScale"
  by (simp add: ticks_duration_def u64_def Second_def Millisecond_def)

text \<open>
  C16. Closing loses nothing and tells the truth.  When the last part could be written, every video sample the
  writer ever accepted is in the file; in every case the flushed duration is that of the media in the file, so a
  segment whose last part failed is not registered with more than it holds, and after a good close the
  two durations agree.  This holds for segments of less than \<open>2 ^ 64 / 10 ^ 9\<close> ticks, which is 56.9 hours.
\<close>

theorem close_is_honest:
  assumes "writer_reach ok sw" and "sw_Close e now out fclose sw = (c, sw')" and "int (sw_videoDTS sw') * Second < 2 ^ 64"
  shows "FlushedDuration sw' = int (parts_time (track_parts videoTrackID (file_tracks (sw_file sw')))) * Second div int videoTimeScale \<and>
    (\<exists>new. samples (recorded videoTrackID sw') = samples (recorded videoTrackID sw) @ new) \<and>
    (\<not> cl_gopErr c \<longrightarrow> track_parts videoTrackID (file_tracks (sw_file sw')) = recorded videoTrackID sw' \<and>
       (sw_videoDTS sw' > 0 \<longrightarrow> cl_duration c = FlushedDuration sw'))"
proof -
  have ok: "video_ok sw" using reach_rec_ok[OF assms(1)] by blast
  have v: "video_refines sw sw'" using Close_refines[OF ok, of e now out fclose] assms(2) by simp
  then have t: "times_ok sw'" using ok by (simp add: video_refines_def video_ok_def counters_ok_def)
  have fl: "sw_flushedVideoDTS sw' \<le> sw_videoDTS sw'" using t by (simp add: times_ok_def)
  have "int (sw_flushedVideoDTS sw') * Second \<le> int (sw_videoDTS sw') * Second" using fl by (simp add: Second_def Millisecond_def)
  then have "ticks_duration (sw_flushedVideoDTS sw') = int (sw_flushedVideoDTS sw') * Second div int videoTimeScale"
    using assms(3) by (intro ticks_duration_exact) linarith
  then have f: "FlushedDuration sw' = int (sw_flushedVideoDTS sw') * Second div int videoTimeScale"
    by (simp add: FlushedDuration_def)
  have grow: "\<exists>new. samples (recorded videoTrackID sw') = samples (recorded videoTrackID sw) @ new"
    using v rec_step_samples[of "abs_video sw" "abs_video sw'"] by (auto simp: video_refines_def abs_video_def)
  have good: "track_parts videoTrackID (file_tracks (sw_file sw')) = recorded videoTrackID sw' \<and>
       (sw_videoDTS sw' > 0 \<longrightarrow> cl_duration c = FlushedDuration sw')" if g: "\<not> cl_gopErr c"
  proof (cases rule: Close_steps[of e now out sw fclose])
    case (1 flushErr sw1 sw2 r sw3 c')
    then have eq: "sw' = sw3" "c = c'" "r = Written" using assms(2) g by auto
    then have p: "sw_pendingVideoSamples sw' = []" using flush_empties 1(3) by blast
    then have d: "sw_videoDTS sw' = sw_flushedVideoDTS sw'" using t by (simp add: times_ok_def)
    have "cl_duration c = FlushedDuration sw'" if "sw_videoDTS sw' > 0"
      using that 1(5) eq d by (simp add: FlushedDuration_def)
    then show ?thesis using p by (simp add: recorded_video)
  qed
  show ?thesis using f grow good t by (simp add: times_ok_def)
qed

lemma sample_close:
  "sw_Close (steady_env True) 9 ([[0x41, 5]], False) True (snd sample_run) =
     (\<lparr>cl_duration = 166666666, cl_gopErr = False, cl_closeErr = False, cl_flushErr = False\<rparr>,
      snd (sw_Close (steady_env True) 9 ([[0x41, 5]], False) True (snd sample_run)))"
  "sw_videoDTS (snd (sw_Close (steady_env True) 9 ([[0x41, 5]], False) True (snd sample_run))) = 15000"
  by (simp_all add: sample_run_def sample_writer_def writer_eval sw_Close_def close_video_def Flush_def finishRecordingAudio_def
      ticks_duration_def u64_def Second_def Millisecond_def)

theorem close_is_honest_witness:
  "FlushedDuration (snd (sw_Close (steady_env True) 9 ([[0x41, 5]], False) True (snd sample_run))) = 166666666"
proof -
  let ?sw = "snd (sw_Close (steady_env True) 9 ([[0x41, 5]], False) True (snd sample_run))"
  have "int (sw_videoDTS ?sw) * Second < 2 ^ 64" by (simp add: sample_close(2) Second_def Millisecond_def)
  from close_is_honest[OF sample_run_reach sample_close(1) this] show ?thesis unfolding sample_close(2) by auto
qed

section \<open>Failed writes\<close>

text \<open>
  A write that fails at a keyframe splices two groups of pictures.  The keyframe
  is dropped with its duration, but the buffer and the segment live on: the next unit, which refers to the lost
  keyframe, is appended right behind the samples of the group before it.
\<close>

theorem failed_flush_splices:
  assumes "sw_initWritten sw" and "sw_pendingVideoSamples sw \<noteq> []"
    and "DropSEI au \<noteq> []" and "env_IsRandomAccess e (DropSEI au)" and "env_AVCC e (DropSEI au) \<noteq> None" and "env_part e = (\<lambda>_ _. False)"
    and "writeVideoAccessUnit e now au dur t sw = (r, sw1)"
    and "DropSEI au' \<noteq> []" and "\<not> env_IsRandomAccess e' (DropSEI au')"
    and "writeVideoAccessUnit e' now' au' dur' t' sw1 = (Written, sw2)"
  shows "r = Failed ErrMarshal \<and> recorded videoTrackID sw1 = recorded videoTrackID sw \<and> sw_videoDTS sw1 = sw_videoDTS sw \<and>
    (\<exists>s. sm_IsNonSync s \<and> samples (recorded videoTrackID sw2) = samples (recorded videoTrackID sw) @ [s])"
proof -
  obtain sps pps ch where tr: "TrackParameterSets (DropSEI au) (sw_videoSPS sw) (sw_videoPPS sw) = (sps, pps, ch)" by (metis prod_cases3)
  define sw0 where "sw0 = sw\<lparr>sw_videoSPS := sps, sw_videoPPS := pps\<rparr>"
  have p0: "sw_pendingVideoSamples sw0 \<noteq> []" "pending_tracks sw0 \<noteq> []" using assms(2) by (simp_all add: sw0_def pending_tracks_def)
  have f: "flushGOP e sw0 = (Failed ErrMarshal, sw0\<lparr>sw_file := sw_file sw0 @ [Torn]\<rparr>)"
    using p0(2) by (simp add: flushGOP_def assms(6) Let_def)
  have a: "append_unit e (DropSEI au) dur sw0 = (Failed ErrMarshal, sw0\<lparr>sw_file := sw_file sw0 @ [Torn]\<rparr>)"
    using assms(4,5) p0(1) f by (auto simp: append_unit_def)
  have u: "r = Failed ErrMarshal" "sw1 = sw0\<lparr>sw_file := sw_file sw0 @ [Torn]\<rparr>"
    using assms(1,3,7) tr a by (auto simp: writeVideoAccessUnit_def Let_def sw0_def)
  have v1: "recorded videoTrackID sw1 = recorded videoTrackID sw" "sw_videoDTS sw1 = sw_videoDTS sw" "sw_initWritten sw1"
    using assms(1) by (auto simp: u(2) sw0_def recorded_def pending_tracks_def)
  obtain sps' pps' ch' where tr': "TrackParameterSets (DropSEI au') (sw_videoSPS sw1) (sw_videoPPS sw1) = (sps', pps', ch')" by (metis prod_cases3)
  define sw1' where "sw1' = sw1\<lparr>sw_videoSPS := sps', sw_videoPPS := pps'\<rparr>"
  have "append_unit e' (DropSEI au') dur' sw1' = (Written, sw2)"
    using assms(8,10) tr' v1(3) by (simp add: writeVideoAccessUnit_def Let_def sw1'_def)
  from append_unit_writes(1)[OF this] assms(9) obtain s where s: "sm_IsNonSync s" "samples (recorded videoTrackID sw2) = samples (recorded videoTrackID sw1') @ [s]"
    by (auto simp: abs_video_def)
  moreover have "recorded videoTrackID sw1' = recorded videoTrackID sw1" by (rule recorded_cong) (simp_all add: sw1'_def)
  ultimately show ?thesis using u(1) v1 by auto
qed

theorem failed_flush_splices_witness:
  "\<exists>sw1 sw2. writeVideoAccessUnit (steady_env False) 5 [[0x65, 7]] 3000 5 (snd sample_run) = (Failed ErrMarshal, sw1) \<and>
     writeVideoAccessUnit (steady_env True) 6 [[0x41, 8]] 3000 6 sw1 = (Written, sw2) \<and>
     (\<exists>s. sm_IsNonSync s \<and> samples (recorded videoTrackID sw2) = samples (recorded videoTrackID (snd sample_run)) @ [s])"
proof -
  let ?w1 = "writeVideoAccessUnit (steady_env False) 5 [[0x65, 7]] 3000 5 (snd sample_run)"
  let ?w2 = "writeVideoAccessUnit (steady_env True) 6 [[0x41, 8]] 3000 6 (snd ?w1)"
  have w1: "fst ?w1 = Failed ErrMarshal" and w2: "fst ?w2 = Written"
    by (simp_all add: sample_run_def sample_writer_def writer_eval)
  have d: "DropSEI [[0x65, 7]] = [[0x65, 7]]" "DropSEI [[0x41, 8]] = [[0x41, 8]]" by (simp_all add: DropSEI_def isType_def NALUTypeSEI_def)
  have e: "sw_initWritten (snd sample_run)" "sw_pendingVideoSamples (snd sample_run) \<noteq> []" by (simp_all add: sample_run_state)
  have "\<exists>s. sm_IsNonSync s \<and> samples (recorded videoTrackID (snd ?w2)) = samples (recorded videoTrackID (snd sample_run)) @ [s]"
    using failed_flush_splices[OF e, of "[[0x65, 7]]" "steady_env False" 5 3000 5 "fst ?w1" "snd ?w1" "[[0x41, 8]]" "steady_env True" 6 3000 6 "snd ?w2"] w1 w2
    by (simp add: d steady_env_def isType_def prod_eq_iff)
  then show ?thesis using w1 w2 by (metis prod.collapse)
qed

end
