(* ===== verification/Segment_Audio.thy ===== *)
theory Segment_Audio
  imports Segment_Guarantees
begin

text \<open>
  The audio track of a segment: parts never overlap, and every sample lies where its encoder run puts it,
  through packet loss, encoder restarts and failed writes.
\<close>

section \<open>The timeline of the audio track\<close>

fun apart :: "nat \<Rightarrow> (nat \<times> sample list) list \<Rightarrow> bool" where
  "apart b [] = True"
| "apart b ((base, ss) # ps) = (b \<le> base \<and> ss \<noteq> [] \<and> apart (base + media_time ss) ps)"

fun track_end :: "nat \<Rightarrow> (nat \<times> sample list) list \<Rightarrow> nat" where
  "track_end b [] = b"
| "track_end b ((base, ss) # ps) = track_end (base + media_time ss) ps"

lemma apart_append: "apart b (ps @ qs) \<longleftrightarrow> apart b ps \<and> apart (track_end b ps) qs"
  by (induction b ps rule: apart.induct) auto

lemma track_end_append: "track_end b (ps @ qs) = track_end (track_end b ps) qs"
  by (induction b ps rule: apart.induct) auto

definition track_ok :: "SegmentWriter \<Rightarrow> bool" where
  "track_ok sw \<longleftrightarrow> apart 0 (recorded audioTrackID sw) \<and> track_end 0 (recorded audioTrackID sw) = sw_audioDTS sw"

text \<open>An encoder run and the track: nothing is pending from before the run, and the track ends where the run stands.\<close>

definition run_ok :: "recordingAudio \<Rightarrow> SegmentWriter \<Rightarrow> bool" where
  "run_ok r sw \<longleftrightarrow> ra_written r \<le> ra_input r \<and> sw_audioDTS sw \<le> ra_base r + ra_written r \<and>
     (sw_pendingAudioSamples sw \<noteq> [] \<longrightarrow> sw_audioDTS sw = ra_base r + ra_written r) \<and>
     (ra_previous r = None \<longrightarrow> ra_input r = 0 \<and> sw_pendingAudioSamples sw = [] \<and> sw_audioDTS sw = 0)"

definition audio_ok :: "SegmentWriter \<Rightarrow> bool" where
  "audio_ok sw \<longleftrightarrow> track_ok sw \<and> (case sw_recordingAudio sw of None \<Rightarrow> True | Some r \<Rightarrow> run_ok r sw)"

lemma recorded_audio: "recorded audioTrackID sw = track_parts audioTrackID (file_tracks (sw_file sw)) @
    (if sw_pendingAudioSamples sw = [] then [] else [(sw_pendingAudioDTS sw, sw_pendingAudioSamples sw)])"
  by (simp add: recorded_def)

lemma audio_cong:
  assumes "sw_file sw' = sw_file sw" and "sw_pendingAudioSamples sw' = sw_pendingAudioSamples sw" and "sw_pendingAudioDTS sw' = sw_pendingAudioDTS sw"
    and "sw_audioDTS sw' = sw_audioDTS sw"
  shows "track_ok sw' = track_ok sw" "run_ok r sw' = run_ok r sw"
  using assms by (simp_all add: track_ok_def recorded_audio run_ok_def)

lemma audio_fields:
  assumes "sw_file sw' = sw_file sw" and "sw_pendingAudioSamples sw' = sw_pendingAudioSamples sw" and "sw_pendingAudioDTS sw' = sw_pendingAudioDTS sw"
    and "sw_audioDTS sw' = sw_audioDTS sw" and "sw_recordingAudio sw' = sw_recordingAudio sw"
  shows "audio_ok sw' = audio_ok sw"
  using audio_cong[OF assms(1-4)] assms(5) by (simp add: audio_ok_def split: option.splits)

lemma push_track:
  assumes "track_ok sw" and "sw_audioDTS sw \<le> t" and "sw_pendingAudioSamples sw \<noteq> [] \<Longrightarrow> sw_audioDTS sw = t"
  shows "track_ok (push_audio t d p (t + d) sw)"
  using assms by (auto simp: track_ok_def recorded_audio apart_append track_end_append)

lemma append_run:
  "track_ok sw \<Longrightarrow> run_ok r sw \<Longrightarrow>
     \<exists>r'. sw_recordingAudio (appendEncodedAudio frames r sw) = Some r' \<and> track_ok (appendEncodedAudio frames r sw) \<and>
       run_ok r' (appendEncodedAudio frames r sw) \<and> ra_base r' = ra_base r \<and> ra_input r' = ra_input r \<and> ra_previous r' = ra_previous r \<and>
       ra_encoder r' = ra_encoder r"
proof (induction frames r sw rule: appendEncodedAudio.induct)
  case (1 r sw)
  then show ?case using audio_cong[of "sw\<lparr>sw_recordingAudio := Some r\<rparr>" sw] by simp
next
  case (2 payload frames r sw)
  consider (skip) "ra_skip r > 0" | (full) "ra_skip r = 0" "ra_input r - ra_written r = 0" | (push) "ra_skip r = 0" "ra_input r - ra_written r \<noteq> 0"
    by blast
  then show ?case
  proof cases
    case skip
    then show ?thesis using 2(1)[OF skip 2(4)] 2(5) by (simp add: run_ok_def)
  next
    case full
    then show ?thesis using 2(2)[OF _ full(2) 2(4,5)] by simp
  next
    case push
    let ?d = "min 1024 (ra_input r - ra_written r)" and ?t = "ra_base r + ra_written r"
    let ?r = "r\<lparr>ra_written := ra_written r + ?d\<rparr>" and ?sw = "push_audio ?t ?d payload (?t + ?d) sw"
    have "track_ok ?sw" using 2(5) by (intro push_track[OF 2(4)]) (auto simp: run_ok_def)
    moreover have "run_ok ?r ?sw" using 2(5) push(2) by (auto simp: run_ok_def)
    ultimately show ?thesis using 2(3)[OF _ push(2) refl] push by (simp add: Let_def add.assoc)
  qed
qed

lemma flush_audio:
  assumes "track_ok sw" shows "track_ok (snd (flushGOP e sw))" "run_ok r sw \<Longrightarrow> run_ok r (snd (flushGOP e sw))"
proof -
  show "track_ok (snd (flushGOP e sw))" using assms by (simp add: track_ok_def flush_recorded flush_fields)
  have "sw_pendingAudioSamples (snd (flushGOP e sw)) = sw_pendingAudioSamples sw \<or> sw_pendingAudioSamples (snd (flushGOP e sw)) = []"
    by (cases rule: flush_cases[of sw e]) (auto simp: flushed_def)
  then show "run_ok r sw \<Longrightarrow> run_ok r (snd (flushGOP e sw))" by (auto simp: run_ok_def flush_fields)
qed

lemma flush_audio_ok: "audio_ok sw \<Longrightarrow> audio_ok (snd (flushGOP e sw))"
  using flush_audio by (auto simp: audio_ok_def flush_fields split: option.splits)

lemma cap_audio_ok: "audio_ok sw \<Longrightarrow> audio_ok (snd (capPendingPart e sw))"
  by (auto simp: capPendingPart_def Let_def flush_audio_ok)

lemma run_ok_encoder [simp]: "run_ok (r\<lparr>ra_encoder := b\<rparr>) sw = run_ok r sw"
  by (simp add: run_ok_def)

lemma failAudio_ok: "audio_ok (failAudio sw) = audio_ok sw"
  using audio_cong[of "failAudio sw" sw] by (auto simp: audio_ok_def failAudio_def split: option.splits)

lemma close_encoder_ok: "audio_ok (close_encoder sw) = audio_ok sw"
  using audio_cong[of "close_encoder sw" sw] by (auto simp: audio_ok_def close_encoder_def split: option.splits)

lemma append_audio_ok: "audio_ok sw \<Longrightarrow> audio_ok (append_audio frames sw)"
proof (cases "sw_recordingAudio sw")
  case (Some r)
  assume "audio_ok sw"
  then show ?thesis using append_run[of sw r frames] Some by (auto simp: audio_ok_def append_audio_def)
qed (simp add: append_audio_def)

lemma finish_audio_ok: "audio_ok sw \<Longrightarrow> audio_ok (finishRecordingAudio e sw)"
  by (auto simp: finishRecordingAudio_def Let_def close_encoder_ok failAudio_ok append_audio_ok split: option.splits)

lemma encode_audio_ok:
  assumes "track_ok sw" and "run_ok r sw"
  shows "audio_ok (snd (encode_packet e pkt r sw))"
proof -
  let ?r = "r\<lparr>ra_previous := Some pkt, ra_input := ra_input r + length (rp_Payload pkt) * ra_factor r\<rparr>"
  have r: "run_ok ?r sw" using assms(2) by (auto simp: run_ok_def)
  have "audio_ok (sw\<lparr>sw_recordingAudio := Some ?r\<rparr>)"
    using audio_cong[of "sw\<lparr>sw_recordingAudio := Some ?r\<rparr>" sw] assms(1) r by (simp add: audio_ok_def)
  moreover have "audio_ok (appendEncodedAudio frames ?r sw)" for frames
    using append_run[OF assms(1) r, of frames] by (auto simp: audio_ok_def)
  ultimately show ?thesis by (auto simp: encode_packet_def Let_def failAudio_ok cap_audio_ok split: option.splits)
qed

text \<open>The audio never goes on before the end of the run it follows.\<close>

lemma resume_after: "ra_base r + ra_input r \<le> audio_resume pkt prev r sw"
  by (simp add: audio_resume_def Let_def)

lemma finish_audioDTS:
  assumes "audio_ok sw" and "sw_recordingAudio sw = Some r"
  shows "\<exists>r'. sw_recordingAudio (finishRecordingAudio e sw) = Some r' \<and> sw_audioDTS (finishRecordingAudio e sw) \<le> ra_base r + ra_input r \<and> ra_previous r' = ra_previous r"
proof -
  have bound: "sw_audioDTS s \<le> ra_base q + ra_input q" if "run_ok q s" for q s using that by (auto simp: run_ok_def)
  have ok: "track_ok sw" "run_ok r sw" using assms by (simp_all add: audio_ok_def)
  have fail: "sw_recordingAudio (close_encoder (failAudio s)) = Some (q\<lparr>ra_encoder := False\<rparr>) \<and> sw_audioDTS (close_encoder (failAudio s)) = sw_audioDTS s"
    if "sw_recordingAudio s = Some q" for s q using that by (auto simp: close_encoder_def failAudio_def)
  have appended: "\<exists>q. sw_recordingAudio (append_audio frames sw) = Some q \<and> track_ok (append_audio frames sw) \<and> run_ok q (append_audio frames sw) \<and>
      ra_base q = ra_base r \<and> ra_input q = ra_input r \<and> ra_previous q = ra_previous r" for frames
    using append_run[OF ok, of frames] assms(2) by (auto simp: append_audio_def)
  show ?thesis
  proof (cases "ra_encoder r")
    case False
    then show ?thesis using assms(2) bound[OF ok(2)] by (simp add: finishRecordingAudio_def)
  next
    case True
    show ?thesis
    proof (cases "env_flushResampler e")
      case None
      then show ?thesis using True assms(2) bound[OF ok(2)] fail[OF assms(2)] by (simp add: finishRecordingAudio_def)
    next
      case (Some frames)
      obtain q where q: "sw_recordingAudio (append_audio frames sw) = Some q" "track_ok (append_audio frames sw)" "run_ok q (append_audio frames sw)"
        "ra_base q = ra_base r" "ra_input q = ra_input r" "ra_previous q = ra_previous r" using appended by blast
      show ?thesis
      proof (cases "env_drain e")
        case None
        then show ?thesis using True Some assms(2) bound[OF q(3)] q fail[OF q(1)] by (simp add: finishRecordingAudio_def Let_def)
      next
        case d: (Some frames')
        obtain q' where "sw_recordingAudio (append_audio frames' (append_audio frames sw)) = Some q'" "run_ok q' (append_audio frames' (append_audio frames sw))"
          "ra_base q' = ra_base q" "ra_input q' = ra_input q" "ra_previous q' = ra_previous q"
          using append_run[OF q(2,3), of frames'] q(1) by (auto simp: append_audio_def)
        then show ?thesis using True Some d assms(2) bound q by (fastforce simp: finishRecordingAudio_def Let_def close_encoder_def)
      qed
    qed
  qed
qed

lemma restart_audio_ok:
  assumes "audio_ok sw" and "sw_recordingAudio sw = Some r" and "ra_previous r \<noteq> None" and "ra_base r + ra_input r \<le> n"
  shows "audio_ok (snd (restart_audio e pkt n sw))"
proof -
  let ?s = "finishRecordingAudio e sw"
  obtain r' where r': "sw_recordingAudio ?s = Some r'" "sw_audioDTS ?s \<le> ra_base r + ra_input r" "ra_previous r' = ra_previous r"
    using finish_audioDTS[OF assms(1,2)] by blast
  obtain res sw1 where f: "flushGOP e ?s = (res, sw1)" by fastforce
  have ok1: "audio_ok sw1" using flush_audio_ok[OF finish_audio_ok[OF assms(1)], of e e] f by simp
  have fields: "sw_recordingAudio sw1 = Some r'" "sw_audioDTS sw1 \<le> n"
    using flush_fields(5,6)[of e ?s] f r'(1,2) assms(4) by simp_all
  show ?thesis
  proof (cases "res = Written")
    case True
    then have p: "sw_pendingAudioSamples sw1 = []" using flush_empties f by blast
    have "run_ok q sw1" if "restart e n r' = Some q" for q
      using that fields(2) p r'(3) assms(3) by (auto simp: restart_def run_ok_def split: option.splits)
    moreover have "track_ok sw1" using ok1 by (simp add: audio_ok_def)
    ultimately have "audio_ok (snd (encode_packet e pkt q sw1))" if "restart e n r' = Some q" for q using encode_audio_ok that by blast
    then show ?thesis using ok1 fields(1) f True
      by (auto simp: restart_audio_def failAudio_ok split: option.splits)
  next
    case False
    then show ?thesis using f ok1 by (cases res) (auto simp: restart_audio_def)
  qed
qed

lemma G711_audio_ok: "audio_ok sw \<Longrightarrow> audio_ok (snd (writeG711Audio e now packet sw))"
proof -
  assume ok: "audio_ok sw"
  have q: "audio_ok (sw\<lparr>sw_preAudio := x\<rparr>)" for x using audio_fields[of "sw\<lparr>sw_preAudio := x\<rparr>" sw] ok by simp
  show ?thesis
  proof (cases "sw_recordingAudio sw")
    case (Some r)
    have t: "track_ok sw" and r: "run_ok r sw" using ok Some by (simp_all add: audio_ok_def)
    have "run_ok (r\<lparr>ra_base := video_audio_time sw\<rparr>) sw" if "ra_previous r = None" using r that by (auto simp: run_ok_def)
    then show ?thesis using ok q Some encode_audio_ok[OF t] r restart_audio_ok[OF ok Some _ resume_after]
      by (auto simp: writeG711Audio_def Let_def split: option.splits)
  qed (use ok in \<open>simp add: writeG711Audio_def\<close>)
qed

lemma queued_audio_ok: "audio_ok sw \<Longrightarrow> audio_ok (snd (write_queued e now t q sw))"
proof (induction q arbitrary: sw)
  case (Cons p q)
  obtain pkt rec where p: "p = (pkt, rec)" by (cases p)
  obtain r sw1 where w: "writeG711Audio e now (Some pkt) sw = (r, sw1)" by fastforce
  have "audio_ok sw1" using G711_audio_ok[OF Cons.prems, of e now "Some pkt"] w by simp
  then show ?case using Cons p w by (cases r) auto
qed simp

lemma aac_audio_ok: "audio_ok sw \<Longrightarrow> sw_recordingAudio sw = None \<Longrightarrow> audio_ok (push_aac aus sw)"
proof (induction aus arbitrary: sw)
  case (Cons au aus)
  have "track_ok (push_audio (sw_audioDTS sw) 1024 au (sw_audioDTS sw + 1024) sw)"
    using Cons.prems(1) by (intro push_track) (auto simp: audio_ok_def)
  moreover have "sw_recordingAudio (push_audio (sw_audioDTS sw) 1024 au (sw_audioDTS sw + 1024) sw) = None"
    using Cons.prems(2) by (simp add: push_audio_def Let_def)
  ultimately show ?case using Cons.IH by (simp add: audio_ok_def)
qed simp

lemma WriteAudio_ok: "audio_ok sw \<Longrightarrow> audio_ok (snd (WriteAudio e now aus pkt sw))"
  by (auto simp: WriteAudio_def G711_audio_ok cap_audio_ok aac_audio_ok split: option.splits)

section \<open>Video leaves the audio track alone\<close>

lemma push_audio_ok: "audio_ok sw \<Longrightarrow> audio_ok (push_sample s sw)"
  using audio_fields[of "push_sample s sw" sw] by (simp add: push_sample_def Let_def)

lemma append_unit_audio_ok: "audio_ok sw \<Longrightarrow> audio_ok (snd (append_unit e au dur sw))"
proof -
  assume ok: "audio_ok sw"
  obtain r sw1 where f: "(if env_IsRandomAccess e au \<and> sw_pendingVideoSamples sw \<noteq> [] then flushGOP e sw else (Written, sw)) = (r, sw1)" by fastforce
  then have "audio_ok sw1" using ok flush_audio_ok[OF ok, of e] by (auto split: if_splits)
  then show ?thesis using ok f by (cases r) (auto simp: append_unit_def cap_audio_ok push_audio_ok split: option.splits)
qed

lemma open_audio_ok: "audio_ok sw \<Longrightarrow> audio_ok (snd (open_file e now t sw))"
proof -
  assume ok: "audio_ok sw"
  obtain r sw1 where w: "writeInit e sw = (r, sw1)" by fastforce
  have s1: "audio_ok sw1"
    using ok w by (cases "env_init e") (auto simp: writeInit_def audio_ok_def track_ok_def recorded_def run_ok_def split: option.splits)
  let ?s = "sw1\<lparr>sw_initWritten := True, sw_firstSampleTime := t, sw_preAudio := []\<rparr>"
  have "audio_ok ?s" using audio_fields[of ?s sw1] s1 by simp
  then show ?thesis using w s1 queued_audio_ok[of ?s e now t "sw_preAudio sw1"] by (cases r) (auto simp: open_file_def)
qed

lemma unit_audio_ok: "audio_ok sw \<Longrightarrow> audio_ok (snd (writeVideoAccessUnit e now au dur t sw))"
proof -
  assume ok: "audio_ok sw"
  obtain sps pps ch where tr: "TrackParameterSets (DropSEI au) (sw_videoSPS sw) (sw_videoPPS sw) = (sps, pps, ch)" by (metis prod_cases3)
  let ?s = "sw\<lparr>sw_videoSPS := sps, sw_videoPPS := pps\<rparr>"
  have s: "audio_ok ?s" "audio_ok (?s\<lparr>sw_preAudio := []\<rparr>)" using audio_fields[of ?s sw] audio_fields[of "?s\<lparr>sw_preAudio := []\<rparr>" sw] ok by simp_all
  obtain r sw1 where o: "open_file e now t ?s = (r, sw1)" by fastforce
  have "audio_ok sw1" using open_audio_ok[OF s(1), of e now t] o by simp
  then show ?thesis using ok s tr o append_unit_audio_ok by (cases r) (auto simp: writeVideoAccessUnit_def Let_def)
qed

lemma WriteVideo_audio_ok: "audio_ok sw \<Longrightarrow> audio_ok (snd (WriteVideo e now out packet sw))"
proof (cases "sw_h264Decoder sw = None \<or> packet = None")
  case True
  assume "audio_ok sw"
  then show ?thesis using True by (auto simp: WriteVideo_def split: option.splits)
next
  case False
  assume ok: "audio_ok sw"
  obtain d pkt where d: "sw_h264Decoder sw = Some d" and p: "packet = Some pkt" using False by auto
  obtain t sw1 where n: "note_packet now (rp_Timestamp pkt) sw = (t, sw1)" by fastforce
  obtain au ts err d1 where dec: "Decode out (rp_Timestamp pkt) d = ((au, ts, err), d1)" by (metis prod_cases3 surj_pair)
  let ?s = "sw1\<lparr>sw_h264Decoder := Some d1\<rparr>"
  have "audio_ok sw1" using n ok audio_fields[of sw1 sw] by (auto simp: note_packet_def split: if_splits)
  then have "audio_ok ?s" "audio_ok (?s\<lparr>sw_skipDecoderFlush := True\<rparr>)"
    using audio_fields[of ?s sw1] audio_fields[of "?s\<lparr>sw_skipDecoderFlush := True\<rparr>" sw1] by simp_all
  then show ?thesis using d p n dec unit_audio_ok by (auto simp: WriteVideo_def Let_def)
qed

lemma close_video_audio_ok: "audio_ok sw \<Longrightarrow> audio_ok (snd (close_video e now out sw))"
proof (cases "sw_h264Decoder sw")
  case None
  assume "audio_ok sw"
  then show ?thesis using None by (simp add: close_video_def)
next
  case (Some d)
  assume ok: "audio_ok sw"
  obtain au ts err d1 where fl: "Flush out d = ((au, ts, err), d1)" by (metis prod_cases3 surj_pair)
  let ?s = "sw\<lparr>sw_h264Decoder := Some d1\<rparr>"
  have s: "audio_ok ?s" using audio_fields[of ?s sw] ok by simp
  have "audio_ok sw2" if "writeVideoAccessUnit e now au dur t ?s = (r, sw2)" for dur t r sw2
    using unit_audio_ok[OF s, of e now au dur t] that by simp
  then show ?thesis using ok s Some fl by (auto simp: close_video_def Let_def split: prod.splits)
qed

lemma Close_audio_ok: "audio_ok sw \<Longrightarrow> audio_ok (snd (sw_Close e now out fclose sw))"
proof (cases rule: Close_steps[of e now out sw fclose])
  case (1 flushErr sw1 sw2 r sw3 c)
  assume "audio_ok sw"
  then have "audio_ok sw1" using close_video_audio_ok[of sw e now out] 1(1) by simp
  then have "audio_ok sw2" using finish_audio_ok[of sw1 e] audio_fields[of sw2 "finishRecordingAudio e sw1"] 1(2) by simp
  then show ?thesis using flush_audio_ok[of sw2 e] 1(3,4) by simp
qed

lemma new_audio_ok: "audio_ok (NewSegmentWriter e now video audio)"
proof -
  let ?w = "NewSegmentWriter e now video audio"
  have e: "sw_recordingAudio (with_video video (empty_writer now)) = None" "sw_audioDTS (with_video video (empty_writer now)) = 0"
    by (simp_all add: with_video_def empty_writer_def split: option.splits)
  have dts: "sw_audioDTS ?w = 0"
    using e by (simp add: NewSegmentWriter_def with_audio_def failAudio_def split: option.splits)
  have "ra_written r = 0 \<and> ra_input r = 0 \<and> ra_base r = 0" if "sw_recordingAudio ?w = Some r" for r
    using that e by (auto simp: NewSegmentWriter_def with_audio_def failAudio_def newRecordingAudio_def restart_def split: option.splits if_splits)
  then have "run_ok r ?w" if "sw_recordingAudio ?w = Some r" for r
    using that dts new_recorded(3)[of e now video audio] by (simp add: run_ok_def)
  then show ?thesis using dts by (auto simp: audio_ok_def track_ok_def recorded_def new_recorded split: option.splits)
qed

text \<open>
  C17. Audio never overlaps.  In every state a writer reaches, whatever was lost or failed, each
  audio part begins at or after the end of the one before it, and the track ends where the writer thinks it does.
\<close>

theorem audio_never_overlaps:
  assumes "writer_reach ok sw"
  shows "apart 0 (recorded audioTrackID sw) \<and> track_end 0 (recorded audioTrackID sw) = sw_audioDTS sw"
proof -
  have "audio_ok sw" using assms
  proof (induction rule: writer_reach.induct)
    case (reach_video ok sw e now out pkt r sw')
    then show ?case using WriteVideo_audio_ok[of sw e now out pkt] by simp
  next
    case (reach_audio ok sw e now aus pkt r sw')
    then show ?case using WriteAudio_ok[of sw e now aus pkt] by simp
  next
    case (reach_close ok sw e now out fclose c sw')
    then show ?case using Close_audio_ok[of sw e now out fclose] by simp
  qed (rule new_audio_ok)
  then show ?thesis by (simp add: audio_ok_def track_ok_def)
qed

text \<open>A camera with \<mu>-law audio that loses two packets of 20 ms.\<close>

definition audio_env :: writer_env where
  "audio_env = (steady_env True)\<lparr>env_encode := (\<lambda>_ _. Some [[1]])\<rparr>"

definition audio_track :: TrackInfo where
  "audio_track = \<lparr>ti_Codec = ''PCMU'', ti_SPS = [], ti_PPS = [], ti_ClockRate = 8000, ti_ChannelCount = 1, ti_PayloadType = 0, ti_IsVideo = False\<rparr>"

definition audio_packet :: "int \<Rightarrow> int \<Rightarrow> rtp_packet" where
  "audio_packet ts n = \<lparr>rp_Timestamp = ts, rp_SequenceNumber = n, rp_SSRC = 0, rp_PayloadType = 0, rp_Payload = replicate 160 0\<rparr>"

definition audio_run :: SegmentWriter where
  "audio_run =
     snd (WriteAudio audio_env 4 None (Some (audio_packet 480 3))
       (snd (WriteAudio audio_env 3 None (Some (audio_packet 0 0))
         (snd (feed 0 [(audio_env, []), (audio_env, [[0x65, 1]])] (NewSegmentWriter audio_env 0 (Some video_track) (Some audio_track)))))))"

lemma audio_run_reach: "\<exists>ok. writer_reach ok audio_run"
proof -
  obtain ok sw where f: "feed 0 [(audio_env, []), (audio_env, [[0x65, 1]])] (NewSegmentWriter audio_env 0 (Some video_track) (Some audio_track)) = (ok, sw)"
    by fastforce
  obtain r1 sw1 where w1: "WriteAudio audio_env 3 None (Some (audio_packet 0 0)) sw = (r1, sw1)" by fastforce
  obtain r2 sw2 where w2: "WriteAudio audio_env 4 None (Some (audio_packet 480 3)) sw1 = (r2, sw2)" by fastforce
  have "writer_reach ((True \<and> ok \<and> r1 = Written) \<and> r2 = Written) sw2"
    using reach_audio[OF reach_audio[OF feed_reach[OF reach_new f] w1] w2] by simp
  then show ?thesis unfolding audio_run_def f w1 w2 snd_conv by blast
qed

lemma audio_run_parts: "recorded audioTrackID audio_run =
    [(1600, [\<lparr>sm_Duration = 960, sm_IsNonSync = False, sm_Payload = [1]\<rparr>]), (4480, [\<lparr>sm_Duration = 960, sm_IsNonSync = False, sm_Payload = [1]\<rparr>])]"
  by (simp add: audio_run_def audio_env_def audio_track_def audio_packet_def writer_eval recorded_def file_tracks_def track_parts_def
      WriteAudio_def writeG711Audio_def encode_packet_def restart_audio_def audio_resume_def finishRecordingAudio_def close_encoder_def
      append_audio_def restart_def newRecordingAudio_def push_audio_def video_audio_time_def recordingAudioRate_def s16_def s32_def)

theorem audio_never_overlaps_witness:
  "recorded audioTrackID audio_run \<noteq> [] \<and> apart 0 (recorded audioTrackID audio_run) \<and> sw_audioDTS audio_run = 5440"
proof -
  obtain ok where "writer_reach ok audio_run" using audio_run_reach by blast
  from audio_never_overlaps[OF this] show ?thesis by (simp add: audio_run_parts)
qed

end
