(* ===== verification/Mp4_Serve.thy ===== *)
theory Mp4_Serve
  imports Mp4_Timeline
begin

text \<open>
  The rest of \<^verbatim>\<open>internal/media/mp4reader.go\<close>: the duration of a fragmented file, the segments of a playlist
  as they are served, the seekable buffer they are marshalled into, and the marks of files in use.
\<close>

section \<open>The duration of a fragmented file\<close>

record probe_state =
  pb_maxDecodeTime :: int
  pb_lastDuration :: int
  pb_timeScale :: int
  pb_sawStructure :: bool

text \<open>The handler given to the parser; the result says whether reading goes on.\<close>

fun probe_box :: "mp4box \<Rightarrow> probe_state \<Rightarrow> bool \<times> probe_state"
  and probe_boxes :: "mp4box list \<Rightarrow> probe_state \<Rightarrow> bool \<times> probe_state" where
  "probe_box (Moov _ _ bs) st = probe_boxes bs st"
| "probe_box (Trak bs) st = probe_boxes bs st"
| "probe_box (Mdia bs) st = probe_boxes bs st"
| "probe_box (Mdhd ts) st = (True, st\<lparr>pb_timeScale := (if pb_timeScale st = 0 then ts else pb_timeScale st), pb_sawStructure := True\<rparr>)"
| "probe_box (Moof _ _ bs) st = probe_boxes bs st"
| "probe_box (Traf bs) st = probe_boxes bs st"
| "probe_box (Tfdt t) st = (True, if t \<ge> pb_maxDecodeTime st then st\<lparr>pb_maxDecodeTime := t\<rparr> else st)"
| "probe_box (Trun _ _ entries) st = (True, st\<lparr>pb_lastDuration := foldl (\<lambda>d e. u32 (d + fst e)) 0 entries, pb_sawStructure := True\<rparr>)"
| "probe_box (Ftyp _ _) st = (True, st)"
| "probe_box (Tkhd _) st = (True, st)"
| "probe_box (Tfhd _ _ _) st = (True, st)"
| "probe_box (Mdat _ _) st = (True, st)"
| "probe_box OtherBox st = (True, st)"
| "probe_box Unreadable st = (False, st)"
| "probe_boxes [] st = (True, st)"
| "probe_boxes (b # bs) st = (case probe_box b st of (ok, st') \<Rightarrow> if ok then probe_boxes bs st' else (False, st'))"

datatype fmp4_error = ErrReadBoxes | ErrNoStructure

definition probe_result :: "(float64 \<Rightarrow> int) \<Rightarrow> bool \<times> probe_state \<Rightarrow> fmp4_error + duration" where
  "probe_result oor r =
     (case r of (ok, st) \<Rightarrow>
        if \<not> ok then Inl ErrReadBoxes
        else if \<not> pb_sawStructure st then Inl ErrNoStructure
        else Inr (seconds_duration oor (u64 (pb_maxDecodeTime st + pb_lastDuration st)) (if pb_timeScale st = 0 then 90000 else pb_timeScale st)))"

definition probeFMP4Duration :: "(float64 \<Rightarrow> int) \<Rightarrow> mp4box list \<Rightarrow> fmp4_error + duration" where
  "probeFMP4Duration oor boxes =
     probe_result oor (probe_boxes boxes \<lparr>pb_maxDecodeTime = 0, pb_lastDuration = 0, pb_timeScale = 0, pb_sawStructure = False\<rparr>)"

text \<open>\<open>None\<close>: the probe never returns.\<close>

definition ProbeDuration :: "(float64 \<Rightarrow> int) \<Rightarrow> bytes \<Rightarrow> mp4box list \<Rightarrow> (fmp4_error + duration) option" where
  "ProbeDuration oor data boxes =
     (case probeMoovDuration oor data of
        None \<Rightarrow> None
      | Some (Inr dur) \<Rightarrow> if dur > 0 then Some (Inr dur) else Some (probeFMP4Duration oor boxes)
      | Some (Inl _) \<Rightarrow> Some (probeFMP4Duration oor boxes))"

section \<open>Serving a segment\<close>

definition strip_track :: "(int \<rightharpoonup> bool) \<Rightarrow> part_track \<Rightarrow> part_track" where
  "strip_track videoTracks tr =
     (if videoTracks (pt_ID tr) = Some True
      then tr\<lparr>pt_Samples := map (\<lambda>s. s\<lparr>sm_Payload := strip_sample (sm_Payload s)\<rparr>) (pt_Samples tr)\<rparr> else tr)"

definition clean_part :: "(int \<rightharpoonup> bool) \<Rightarrow> part \<Rightarrow> part list" where
  "clean_part videoTracks p =
     (let tracks = map (strip_track videoTracks) (pa_Tracks p)
      in if length (pa_Tracks p) > 1
         then map (\<lambda>tr. \<lparr>pa_SequenceNumber = pa_SequenceNumber p, pa_Tracks = [tr]\<rparr>) tracks
         else [p\<lparr>pa_Tracks := tracks\<rparr>])"

datatype serve_error = ErrServeOpen | ErrServeInit | ErrServeRange | ErrServeRead | ErrServeParse

text \<open>
  The parts that are marshalled for a byte range.  A range whose end is before its start panics
  (\<open>None\<close>): \<^verbatim>\<open>make\<close> is called with a negative length.
\<close>

definition ServeHLSSegment :: "(bytes \<Rightarrow> (int \<times> bool) list option) \<Rightarrow> (bytes \<Rightarrow> part list option) \<Rightarrow> bytes option \<Rightarrow> int \<Rightarrow> int \<Rightarrow>
    (serve_error + part list) option" where
  "ServeHLSSegment unmarshal_init unmarshal content byteStart byteEnd =
     (case content of
        None \<Rightarrow> Some (Inl ErrServeOpen)
      | Some data \<Rightarrow>
          (case readRecordingInit unmarshal_init data of
             Inl _ \<Rightarrow> Some (Inl ErrServeInit)
           | Inr (tracks, _) \<Rightarrow>
               if byteStart < 0 then Some (Inl ErrServeRange)
               else if byteEnd - byteStart < 0 then None
               else (case read_full data byteStart (nat (byteEnd - byteStart)) of
                       None \<Rightarrow> Some (Inl ErrServeRead)
                     | Some buf \<Rightarrow>
                         (case unmarshal buf of
                            None \<Rightarrow> Some (Inl ErrServeParse)
                          | Some parts \<Rightarrow> Some (Inr (concat (map (clean_part (map_of (rev tracks))) parts)))))))"

section \<open>The buffer\<close>

record writeSeeker =
  ws_buf :: bytes
  ws_pos :: nat

datatype whence = SeekStart | SeekCurrent | SeekEnd

text \<open>\<open>None\<close> is a panic: \<^verbatim>\<open>Truncate\<close> to more than the length of the buffer.\<close>

definition ws_Write :: "bytes \<Rightarrow> writeSeeker \<Rightarrow> writeSeeker option" where
  "ws_Write p ws =
     (if ws_pos ws < length (ws_buf ws) then
        let n = min (length p) (length (ws_buf ws) - ws_pos ws);
            buf = take (ws_pos ws) (ws_buf ws) @ take n p @ drop (ws_pos ws + n) (ws_buf ws);
            pos = ws_pos ws + length p
        in if pos > length buf then None else Some \<lparr>ws_buf = buf, ws_pos = pos\<rparr>
      else Some \<lparr>ws_buf = ws_buf ws @ p, ws_pos = ws_pos ws + length p\<rparr>)"

definition ws_Seek :: "int \<Rightarrow> whence \<Rightarrow> writeSeeker \<Rightarrow> (int \<times> writeSeeker) option" where
  "ws_Seek offset wh ws =
     (let newPos = (case wh of SeekStart \<Rightarrow> offset | SeekCurrent \<Rightarrow> int (ws_pos ws) + offset | SeekEnd \<Rightarrow> int (length (ws_buf ws)) + offset)
      in if newPos < 0 then None
         else Some (newPos, \<lparr>ws_buf = ws_buf ws @ replicate (nat newPos - length (ws_buf ws)) 0, ws_pos = nat newPos\<rparr>))"

section \<open>Files in use\<close>

text \<open>The set of marked paths; a serving goroutine marks its path when it starts and removes the mark when it ends.\<close>

definition markHLSPathInUse :: "string \<Rightarrow> string set \<Rightarrow> string set" where
  "markHLSPathInUse path marks = insert path marks"

definition unmarkHLSPathInUse :: "string \<Rightarrow> string set \<Rightarrow> string set" where
  "unmarkHLSPathInUse path marks = marks - {path}"

definition HLSPathInUse :: "string \<Rightarrow> string set \<Rightarrow> bool" where
  "HLSPathInUse path marks \<longleftrightarrow> path \<in> marks"

inductive serving :: "string multiset \<Rightarrow> string set \<Rightarrow> bool" where
  serving_idle: "serving {#} {}"
| serving_begin: "serving active marks \<Longrightarrow> serving (add_mset path active) (markHLSPathInUse path marks)"
| serving_end: "serving active marks \<Longrightarrow> path \<in># active \<Longrightarrow> serving (active - {#path#}) (unmarkHLSPathInUse path marks)"

section \<open>What the probe computes\<close>

definition run_time :: "(int \<times> 32 word) list \<Rightarrow> int" where
  "run_time entries = foldl (\<lambda>d e. u32 (d + fst e)) 0 entries"

text \<open>
  The probe takes the last run for the duration of the last fragment.  In a file with video and audio, whose audio
  comes second as the writer orders them, the duration of a fragment is that of its audio, counted
  in audio ticks and divided by the scale of the video: the durations of the video samples do not enter
  at all.
\<close>

theorem probe_ignores_video_duration:
  assumes "0 < videoTS" and "0 \<le> tv" and "0 \<le> ta"
  shows "probeFMP4Duration oor
     [Ftyp o1 s1, Moov o2 s2 [Trak [Tkhd 1, Mdia [Mdhd videoTS]], Trak [Tkhd 2, Mdia [Mdhd audioTS]]],
      Moof o3 s3 [Traf [Tfhd 1 f1 d1, Tfdt tv, Trun g1 h1 videoEntries], Traf [Tfhd 2 f2 d2, Tfdt ta, Trun g2 h2 audioEntries]], Mdat o4 s4] =
    Inr (seconds_duration oor (u64 (max tv ta + run_time audioEntries)) videoTS)"
  using assms by (simp add: probeFMP4Duration_def probe_result_def run_time_def max_def)

theorem probe_ignores_video_duration_witness:
  "probeFMP4Duration (\<lambda>_. 0)
     [Ftyp 0 24, Moov 24 500 [Trak [Tkhd 1, Mdia [Mdhd 90000]], Trak [Tkhd 2, Mdia [Mdhd 48000]]],
      Moof 524 100 [Traf [Tfhd 1 0 0, Tfdt 0, Trun 0 0 [(90000, 0), (90000, 0)]], Traf [Tfhd 2 0 0, Tfdt 0, Trun 0 0 [(48000, 0), (48000, 0)]]], Mdat 624 9000] =
    Inr 1066666666"
proof -
  have "seconds_duration (\<lambda>_. 0) (u64 (max 0 0 + run_time [(48000, 0), (48000, 0)])) 90000 = 1066666666" by code_simp
  then show ?thesis
    using probe_ignores_video_duration[of 90000 0 0 "\<lambda>_. 0" 0 24 24 500 48000 524 100 0 0 0 0 "[(90000, 0), (90000, 0)]" 0 0 0 0 "[(48000, 0), (48000, 0)]" 624 9000]
    by simp
qed

text \<open>Of a file with video only the probe computes the length.\<close>

definition video_fragment :: "nat \<times> sample list \<Rightarrow> mp4box list" where
  "video_fragment p = [Moof 0 0 [Traf [Tfhd videoTrackID 0 0, Tfdt (int (fst p)), Trun 0 0 (map (\<lambda>s. (int (sm_Duration s), 0)) (snd p))]], Mdat 0 0]"

definition video_file :: "int \<Rightarrow> (nat \<times> sample list) list \<Rightarrow> mp4box list" where
  "video_file ts ps = Ftyp 0 0 # Moov 0 0 [Trak [Tkhd videoTrackID, Mdia [Mdhd ts]]] # concat (map video_fragment ps)"

lemma run_time_sum: "n + int (media_time ss) < 2 ^ 32 \<Longrightarrow> 0 \<le> n \<Longrightarrow>
    foldl (\<lambda>d e. u32 (d + fst e)) n (map (\<lambda>s. (int (sm_Duration s), f s)) ss) = n + int (media_time ss)"
proof (induction ss arbitrary: n)
  case (Cons s ss)
  have "u32 (n + int (sm_Duration s)) = n + int (sm_Duration s)" using Cons.prems by (simp add: u32_def media_time_def)
  then show ?case using Cons.IH[of "n + int (sm_Duration s)"] Cons.prems by (simp add: media_time_def)
qed (simp add: media_time_def)

lemma probe_video_fragments:
  assumes "contiguous b ps" and "ps \<noteq> []" and "list_all (\<lambda>p. media_time (snd p) < 2 ^ 32) ps" and "pb_maxDecodeTime st \<le> int b"
  shows "\<exists>st'. probe_boxes (concat (map video_fragment ps)) st = (True, st') \<and> pb_sawStructure st' \<and> pb_timeScale st' = pb_timeScale st \<and>
    pb_maxDecodeTime st' + pb_lastDuration st' = int (b + parts_time ps)"
  using assms
proof (induction ps arbitrary: b st)
  case (Cons p ps)
  obtain base ss where p: "p = (base, ss)" by (cases p)
  define st1 where "st1 = st\<lparr>pb_maxDecodeTime := int b, pb_lastDuration := int (media_time ss), pb_sawStructure := True\<rparr>"
  have "foldl (\<lambda>d e. u32 (d + fst e)) 0 (map (\<lambda>s. (int (sm_Duration s), 0 :: 32 word)) ss) = int (media_time ss)"
    using run_time_sum[of 0 ss "\<lambda>_. 0"] Cons.prems(3) p by simp
  then have head: "probe_boxes (video_fragment p @ rest) st = probe_boxes rest st1" for rest
    using Cons.prems(1,4) p by (simp add: video_fragment_def st1_def)
  show ?case
  proof (cases "ps = []")
    case True
    then show ?thesis using head[of "[]"] p by (simp add: st1_def parts_time_def)
  next
    case False
    have "contiguous (b + media_time ss) ps" using Cons.prems(1) p by simp
    from Cons.IH[OF this False, of st1] Cons.prems(3) obtain st' where
      "probe_boxes (concat (map video_fragment ps)) st1 = (True, st')" "pb_sawStructure st'" "pb_timeScale st' = pb_timeScale st1"
      "pb_maxDecodeTime st' + pb_lastDuration st' = int (b + media_time ss + parts_time ps)"
      by (auto simp: st1_def)
    then show ?thesis using head[of "concat (map video_fragment ps)"] p by (simp add: st1_def parts_time_def)
  qed
qed simp

lemma video_probe_exact:
  assumes "contiguous 0 ps" and "ps \<noteq> []" and "list_all (\<lambda>p. media_time (snd p) < 2 ^ 32) ps" and "0 < ts"
  shows "probeFMP4Duration oor (video_file ts ps) = Inr (seconds_duration oor (u64 (int (parts_time ps))) ts)"
proof -
  let ?st = "\<lparr>pb_maxDecodeTime = 0, pb_lastDuration = 0, pb_timeScale = ts, pb_sawStructure = True\<rparr>"
  obtain st' where "probe_boxes (concat (map video_fragment ps)) ?st = (True, st')" "pb_sawStructure st'" "pb_timeScale st' = ts"
    "pb_maxDecodeTime st' + pb_lastDuration st' = int (parts_time ps)"
    using probe_video_fragments[OF assms(1-3), of ?st] by auto
  then show ?thesis using assms(4) by (simp add: probeFMP4Duration_def probe_result_def video_file_def)
qed

section \<open>What is served\<close>

text \<open>
  A served segment holds the recorded samples.  Each part that is served has one track, as browsers demand, unless the source part
  had none; the tracks come in the order of the source with their base times, durations and flags unchanged, and only
  the payloads of video tracks lose parameter sets.
\<close>

theorem served_segment:
  assumes "ServeHLSSegment unmarshal_init unmarshal content a b = Some (Inr out)"
  shows "\<exists>data tracks n buf parts. content = Some data \<and> readRecordingInit unmarshal_init data = Inr (tracks, n) \<and>
    read_full data a (nat (b - a)) = Some buf \<and> unmarshal buf = Some parts \<and>
    concat (map pa_Tracks out) = map (strip_track (map_of (rev tracks))) (concat (map pa_Tracks parts)) \<and>
    list_all (\<lambda>p. length (pa_Tracks p) \<le> 1) out"
proof -
  obtain data tracks n buf parts where s: "content = Some data" "readRecordingInit unmarshal_init data = Inr (tracks, n)"
    "read_full data a (nat (b - a)) = Some buf" "unmarshal buf = Some parts" "out = concat (map (clean_part (map_of (rev tracks))) parts)"
    using assms by (auto simp: ServeHLSSegment_def split: option.splits sum.splits if_splits prod.splits)
  have tracks1: "concat (map pa_Tracks (clean_part v p)) = map (strip_track v) (pa_Tracks p)" for v p
  proof -
    have "concat (map (pa_Tracks \<circ> ((\<lambda>tr. \<lparr>pa_SequenceNumber = q, pa_Tracks = [tr]\<rparr>) \<circ> f)) ts) = map f ts" for q f ts
      by (induction ts) auto
    from this[of "pa_SequenceNumber p" "strip_track v" "pa_Tracks p"] show ?thesis by (simp add: clean_part_def Let_def)
  qed
  have "concat (map pa_Tracks (concat (map (clean_part v) ps))) = map (strip_track v) (concat (map pa_Tracks ps))" for v ps
    by (induction ps) (simp_all add: tracks1)
  moreover have "list_all (\<lambda>p. length (pa_Tracks p) \<le> 1) (concat (map (clean_part v) ps))" for v ps
    by (induction ps) (auto simp: clean_part_def Let_def list_all_iff)
  ultimately show ?thesis using s by blast
qed

definition served_data :: bytes where
  "served_data = concat ([sample_box ''ftyp'' [1, 2, 3, 4]] @ [sample_box ''moov'' [5]]) @ [9, 9]"

definition served_part :: part where
  "served_part = \<lparr>pa_SequenceNumber = 7, pa_Tracks =
     [\<lparr>pt_ID = 1, pt_BaseTime = 0, pt_Samples = [\<lparr>sm_Duration = 3000, sm_IsNonSync = False, sm_Payload = [0, 0, 0, 1, 0x65]\<rparr>]\<rparr>,
      \<lparr>pt_ID = 2, pt_BaseTime = 0, pt_Samples = [\<lparr>sm_Duration = 1024, sm_IsNonSync = False, sm_Payload = [1]\<rparr>]\<rparr>]\<rparr>"

lemma served_data_init: "readRecordingInit (\<lambda>_. Some [(1, True), (2, False)]) served_data = Inr ([(1, True), (2, False)], 21)"
proof -
  have a: "list_all box_ok ([sample_box ''ftyp'' [1, 2, 3, 4]] @ [sample_box ''moov'' [5]])"
    "box_type (sample_box ''moov'' [5]) = fourcc ''moov''"
    "list_all (\<lambda>b. box_type b \<noteq> fourcc ''moov'') [sample_box ''ftyp'' [1, 2, 3, 4]]"
    "length (concat ([sample_box ''ftyp'' [1, 2, 3, 4]] @ [sample_box ''moov'' [5]])) = 21" by code_simp+
  show ?thesis using init_loop_boxes[OF a(1-3), of "[]" "\<lambda>_. Some [(1, True), (2, False)]" "[9, 9]"] a(4)
    by (simp add: readRecordingInit_def served_data_def max_init_def)
qed

theorem served_segment_witness:
  "\<exists>out. ServeHLSSegment (\<lambda>_. Some [(1, True), (2, False)]) (\<lambda>_. Some [served_part]) (Some served_data) 21 23 = Some (Inr out) \<and>
     list_all (\<lambda>p. length (pa_Tracks p) \<le> 1) out"
proof -
  have "read_full served_data 21 2 = Some [9, 9]" by code_simp
  then have "ServeHLSSegment (\<lambda>_. Some [(1, True), (2, False)]) (\<lambda>_. Some [served_part]) (Some served_data) 21 23 =
      Some (Inr (concat (map (clean_part (map_of (rev [(1, True), (2, False)]))) [served_part])))"
    by (simp add: ServeHLSSegment_def served_data_init)
  then show ?thesis using served_segment by blast
qed

section \<open>The buffer is a file\<close>

text \<open>
  The buffer behaves like a file written at a position, with one exception: a write that begins before the end of the buffer and
  goes beyond it panics.  Seeking zero-fills, and the position never lies beyond the end.
\<close>

theorem writeSeeker_is_a_file:
  assumes "ws_pos ws \<le> length (ws_buf ws)"
  shows "(ws_Write p ws = None \<longleftrightarrow> ws_pos ws < length (ws_buf ws) \<and> length (ws_buf ws) < ws_pos ws + length p) \<and>
    (\<forall>ws'. ws_Write p ws = Some ws' \<longrightarrow>
       ws_buf ws' = take (ws_pos ws) (ws_buf ws) @ p @ drop (ws_pos ws + length p) (ws_buf ws) \<and>
       ws_pos ws' = ws_pos ws + length p \<and> ws_pos ws' \<le> length (ws_buf ws')) \<and>
    (\<forall>n ws'. ws_Seek off wh ws = Some (n, ws') \<longrightarrow> int (ws_pos ws') = n \<and> ws_pos ws' \<le> length (ws_buf ws') \<and>
       take (length (ws_buf ws)) (ws_buf ws') = ws_buf ws)"
  using assms by (auto simp: ws_Write_def ws_Seek_def Let_def min_def split: if_splits whence.splits)

theorem writeSeeker_is_a_file_witness:
  "ws_Write [9] \<lparr>ws_buf = [1, 2, 3], ws_pos = 1\<rparr> = Some \<lparr>ws_buf = [1, 9, 3], ws_pos = 2\<rparr> \<and>
   ws_Write [9, 9, 9] \<lparr>ws_buf = [1, 2, 3], ws_pos = 1\<rparr> = None"
proof -
  have "ws_Write [9] \<lparr>ws_buf = [1, 2, 3], ws_pos = 1\<rparr> = Some \<lparr>ws_buf = [1, 9, 3], ws_pos = 2\<rparr>" by code_simp
  then show ?thesis using writeSeeker_is_a_file[of "\<lparr>ws_buf = [1, 2, 3], ws_pos = 1\<rparr>" "[9, 9, 9]"] by simp
qed

section \<open>A mark is not a count\<close>

lemma serving_sound: "serving active marks \<Longrightarrow> HLSPathInUse path marks \<Longrightarrow> path \<in># active"
  by (induction rule: serving.induct)
    (auto simp: HLSPathInUse_def markHLSPathInUse_def unmarkHLSPathInUse_def in_diff_count)

text \<open>
  A marked file is always being served, but not the other way round: when two requests read one file, the end of the first removes
  the mark of the second, which is then served without a mark.
\<close>

theorem hls_mark_lost: "\<exists>marks. serving {#path#} marks \<and> \<not> HLSPathInUse path marks"
proof -
  have "serving {#path, path#} (markHLSPathInUse path (markHLSPathInUse path {}))"
    using serving_begin[OF serving_begin[OF serving_idle]] by simp
  from serving_end[OF this, of path] have "serving {#path#} {}"
    by (simp add: markHLSPathInUse_def unmarkHLSPathInUse_def)
  then show ?thesis by (auto simp: HLSPathInUse_def)
qed

end
