(* ===== verification/Recording_Consumer.thy ===== *)
theory Recording_Consumer
  imports Segment_Guarantees
begin

text \<open>
  \<^verbatim>\<open>internal/media/recording_consumer.go\<close>: the consumer that turns the packets of a camera into segment files and
  rows of the segment index.  The files and the rows its callbacks write (\<^verbatim>\<open>internal/recording/segment.go\<close>) are part of the state; what
  the clock, the disk, the database, the libraries and the file system answer during one operation is the argument \<open>io\<close>,
  indexed by the place of the call where an operation may make several.
\<close>

section \<open>State\<close>

definition diskPauseRetryInterval :: duration where "diskPauseRetryInterval = 30 * Second"
definition dropRotateInterval :: duration where "dropRotateInterval = 5 * Second"
definition queue_capacity :: nat where "queue_capacity = 512"

record SegmentInfo =
  si_Camera :: string
  si_Path :: string
  si_StartTime :: gotime
  si_EndTime :: gotime
  si_SizeBytes :: nat

record rtpMsg =
  msg_pkt :: "rtp_packet option"
  msg_video :: bool

record RecordingConsumer =
  rc_camera :: string
  rc_segLen :: duration
  rc_videoTrack :: "TrackInfo option"
  rc_audioTrack :: "TrackInfo option"
  rc_segDir :: string
  rc_pktCh :: "rtpMsg list"
  rc_closed :: bool
  rc_createPending :: bool
  rc_droppedPackets :: nat
  rc_discontinuous :: bool
  rc_lastDropRotate :: gotime
  rc_writer :: "SegmentWriter option"
  rc_segPath :: string
  rc_currentPath :: string
  rc_segStart :: gotime
  rc_lastSegBase :: string
  rc_segDupCount :: nat
  rc_paused :: bool
  rc_audioError :: bool
  rc_pausedSince :: gotime
  rc_writeErrors :: nat
  rc_stalled :: string
  rc_reaping :: "string list"
  rc_files :: "string \<rightharpoonup> file_item list"
  rc_rows :: "string \<rightharpoonup> SegmentInfo"
  rc_doubtful :: "string set"

text \<open>
  \<open>rc_stalled\<close> is the path of the creation that was given up last, \<open>rc_reaping\<close> are the paths of late files that are about to be
  removed.  \<open>rc_doubtful\<close> is kept for the proofs only: the paths whose last update the database refused, and those whose file a late
  removal took away while the index lists them.
\<close>

text \<open>
  Creating a segment file succeeds, fails (possibly after the file was created) or does not return in time.
  \<open>io_disk\<close> is what \<open>Available\<close> and \<open>MinRequired\<close> return.
\<close>

datatype create_outcome = Created | CreateFailed bool | CreateStalled

record io =
  io_clk :: "nat \<Rightarrow> gotime"
  io_format :: "gotime \<Rightarrow> string"
  io_disk :: "nat \<Rightarrow> 64 word \<times> 64 word"
  io_create :: "nat \<Rightarrow> create_outcome"
  io_panic :: "nat \<Rightarrow> bool"
  io_env :: "nat \<Rightarrow> writer_env"
  io_video :: "nat \<Rightarrow> depacketized"
  io_audio :: "bytes list option"
  io_last :: "nat \<Rightarrow> depacketized"
  io_fclose :: "nat \<Rightarrow> bool"
  io_stat :: "nat \<Rightarrow> nat option"
  io_remove :: "nat \<Rightarrow> bool"
  io_save :: "nat \<Rightarrow> bool"
  io_delete :: "nat \<Rightarrow> bool"

definition NewRecordingConsumer :: "string \<Rightarrow> string \<Rightarrow> duration \<Rightarrow> TrackInfo option \<Rightarrow> TrackInfo option \<Rightarrow>
    (string \<rightharpoonup> file_item list) \<Rightarrow> (string \<rightharpoonup> SegmentInfo) \<Rightarrow> string set \<Rightarrow> RecordingConsumer" where
  "NewRecordingConsumer segDir camera segLen video audio disk index doubtful =
     \<lparr>rc_camera = camera, rc_segLen = segLen, rc_videoTrack = video, rc_audioTrack = audio, rc_segDir = segDir, rc_pktCh = [],
      rc_closed = False, rc_createPending = False, rc_droppedPackets = 0, rc_discontinuous = False, rc_lastDropRotate = zeroTime,
      rc_writer = None, rc_segPath = [], rc_currentPath = [], rc_segStart = zeroTime, rc_lastSegBase = [], rc_segDupCount = 0,
      rc_paused = False, rc_audioError = False, rc_pausedSince = zeroTime, rc_writeErrors = 0, rc_stalled = [], rc_reaping = [],
      rc_files = disk, rc_rows = index, rc_doubtful = doubtful\<rparr>"

section \<open>Closing and opening segments\<close>

definition updateAudioError :: "RecordingConsumer \<Rightarrow> RecordingConsumer" where
  "updateAudioError rc = (case rc_writer rc of None \<Rightarrow> rc | Some w \<Rightarrow> rc\<lparr>rc_audioError := sw_audioErr w\<rparr>)"

text \<open>
  The callbacks: the database takes the update or refuses it, which is logged and otherwise ignored.
\<close>

definition onSegment :: "bool \<Rightarrow> string \<Rightarrow> SegmentInfo \<Rightarrow> RecordingConsumer \<Rightarrow> RecordingConsumer" where
  "onSegment saved path info rc =
     (if saved then rc\<lparr>rc_rows := (rc_rows rc)(path \<mapsto> info), rc_doubtful := rc_doubtful rc - {path}\<rparr>
      else rc\<lparr>rc_doubtful := insert path (rc_doubtful rc)\<rparr>)"

definition onSegmentRemoved :: "bool \<Rightarrow> string \<Rightarrow> RecordingConsumer \<Rightarrow> RecordingConsumer" where
  "onSegmentRemoved deleted path rc =
     (if deleted then rc\<lparr>rc_rows := (rc_rows rc)(path := None), rc_doubtful := rc_doubtful rc - {path}\<rparr>
      else rc\<lparr>rc_doubtful := insert path (rc_doubtful rc)\<rparr>)"

text \<open>The row goes even when the file cannot be removed.\<close>

definition removeSegment :: "bool \<Rightarrow> bool \<Rightarrow> RecordingConsumer \<Rightarrow> RecordingConsumer" where
  "removeSegment removed deleted rc =
     (if rc_segPath rc = [] then rc
      else onSegmentRemoved deleted (rc_segPath rc)
             (if removed then rc\<lparr>rc_files := (rc_files rc)(rc_segPath rc := None)\<rparr> else rc))"

text \<open>What the writer wrote reaches a file only while the file has its name; a file without a name cannot be found.\<close>

definition written_file :: "string \<Rightarrow> file_item list \<Rightarrow> (string \<rightharpoonup> file_item list) \<Rightarrow> string \<rightharpoonup> file_item list" where
  "written_file path items disk = (if disk path = None then disk else disk(path \<mapsto> items))"

definition closeCurrentSegment :: "io \<Rightarrow> nat \<Rightarrow> RecordingConsumer \<Rightarrow> RecordingConsumer" where
  "closeCurrentSegment io k rc =
     (case rc_writer rc of
        None \<Rightarrow> rc
      | Some w \<Rightarrow>
          (case sw_Close (io_env io k) (io_clk io 0) (io_last io k) (io_fclose io k) w of
             (c, w') \<Rightarrow>
               let rc1 = updateAudioError (rc\<lparr>rc_writer := Some w', rc_files := written_file (rc_segPath rc) (sw_file w') (rc_files rc)\<rparr>);
                   start = StartTime w';
                   dur = (if close_failed c then FlushedDuration w' else cl_duration c);
                   rc2 = (case (if rc_files rc1 (rc_segPath rc1) = None then None else io_stat io k) of
                            None \<Rightarrow> removeSegment (io_remove io k) (io_delete io k) rc1
                          | Some sz \<Rightarrow>
                              if sz = 0 then removeSegment (io_remove io k) (io_delete io k) rc1
                              else if close_failed c \<and> dur = 0 then removeSegment (io_remove io k) (io_delete io k) rc1
                              else onSegment (io_save io k) (rc_segPath rc1)
                                     \<lparr>si_Camera = rc_camera rc1, si_Path = rc_segPath rc1, si_StartTime = start, si_EndTime = tadd start dur, si_SizeBytes = sz\<rparr> rc1)
               in rc2\<lparr>rc_writer := None, rc_currentPath := []\<rparr>))"

text \<open>The name of the next segment: the second it starts in, with a counter within one second.\<close>

definition next_name :: "string \<Rightarrow> string \<Rightarrow> nat \<Rightarrow> string \<times> string \<times> nat" where
  "next_name base lastBase dups =
     (if base = lastBase then (base @ ''_'' @ format_int (int (Suc dups)), lastBase, Suc dups) else (base, base, 0))"

definition segment_file :: "string \<Rightarrow> string \<Rightarrow> string" where
  "segment_file segDir base = segDir @ ''/'' @ base @ ''.mp4''"

datatype consumer_error = ErrCreatePending | ErrDiskSpace | ErrCreate | ErrStalled | ErrWrite write_error

definition ensureSegment :: "io \<Rightarrow> nat \<Rightarrow> RecordingConsumer \<Rightarrow> consumer_error option \<times> RecordingConsumer" where
  "ensureSegment io k rc =
     (if rc_writer rc \<noteq> None then (None, rc)
      else if rc_createPending rc then (Some ErrCreatePending, rc)
      else if fst (io_disk io k) < snd (io_disk io k) then (Some ErrDiskSpace, rc\<lparr>rc_paused := True, rc_pausedSince := io_clk io (10 + k)\<rparr>)
      else
        let now = io_clk io (20 + k)
        in case next_name (io_format io now) (rc_lastSegBase rc) (rc_segDupCount rc) of
             (base, lastBase, dups) \<Rightarrow>
               let path = segment_file (rc_segDir rc) base;
                   rc1 = rc\<lparr>rc_segStart := now, rc_lastSegBase := lastBase, rc_segDupCount := dups, rc_segPath := path\<rparr>
               in case io_create io k of
                    CreateFailed left \<Rightarrow> (Some ErrCreate, if left then rc1\<lparr>rc_files := (rc_files rc1)(path \<mapsto> [])\<rparr> else rc1)
                  | CreateStalled \<Rightarrow> (Some ErrStalled, rc1\<lparr>rc_createPending := True, rc_stalled := path\<rparr>)
                  | Created \<Rightarrow>
                      let w = NewSegmentWriter (io_env io k) (io_clk io (30 + k)) (rc_videoTrack rc1) (rc_audioTrack rc1);
                          rc2 = updateAudioError (rc1\<lparr>rc_writer := Some w, rc_files := (rc_files rc1)(path \<mapsto> [])\<rparr>)
                      in (None, onSegment (io_save io (10 + k)) path
                           \<lparr>si_Camera = rc_camera rc2, si_Path = path, si_StartTime = now, si_EndTime = tadd now (rc_segLen rc2), si_SizeBytes = 0\<rparr>
                           (rc2\<lparr>rc_currentPath := path\<rparr>)))"

definition handleWriteError :: "io \<Rightarrow> RecordingConsumer \<Rightarrow> RecordingConsumer" where
  "handleWriteError io rc =
     (let rc1 = rc\<lparr>rc_writeErrors := rc_writeErrors rc + 1\<rparr>
      in if rc_writeErrors rc1 \<ge> 3
         then (closeCurrentSegment io 2 rc1)\<lparr>rc_paused := True, rc_pausedSince := io_clk io 1\<rparr> else rc1)"

definition maybeRotate :: "io \<Rightarrow> RecordingConsumer \<Rightarrow> RecordingConsumer" where
  "maybeRotate io rc = (if tsub (io_clk io 2) (rc_segStart rc) < rc_segLen rc then rc else closeCurrentSegment io 3 rc)"

section \<open>Packets\<close>

text \<open>One call of the writer; a panic of the libraries leaves a writer that is thrown away.\<close>

definition write_packet :: "io \<Rightarrow> nat \<Rightarrow> rtp_packet option \<Rightarrow> RecordingConsumer \<Rightarrow> write_result \<times> RecordingConsumer" where
  "write_packet io k pkt rc =
     (case rc_writer rc of
        None \<Rightarrow> (Panicked, rc)
      | Some w \<Rightarrow>
          if io_panic io k then (Panicked, rc)
          else (case WriteVideo (io_env io (4 + k)) (io_clk io (3 + k)) (io_video io k) pkt w of (r, w') \<Rightarrow> (r, rc\<lparr>rc_writer := Some w'\<rparr>)))"

text \<open>\<open>finish_video\<close> is the end of \<open>processVideo\<close>; the flag says that it panicked.\<close>

definition finish_video :: "io \<Rightarrow> write_result \<times> RecordingConsumer \<Rightarrow> bool \<times> RecordingConsumer" where
  "finish_video io res =
     (case res of
        (Panicked, rc) \<Rightarrow> (True, rc)
      | (Failed e, rc) \<Rightarrow> (False, handleWriteError io rc)
      | (Written, rc) \<Rightarrow> (False, maybeRotate io (rc\<lparr>rc_writeErrors := 0\<rparr>)))"

definition processVideo :: "io \<Rightarrow> rtp_packet option \<Rightarrow> RecordingConsumer \<Rightarrow> bool \<times> RecordingConsumer" where
  "processVideo io pkt rc =
     (case (case ensureSegment io 0 rc of
              (Some e, rc1) \<Rightarrow> (False, handleWriteError io rc1)
            | (None, rc1) \<Rightarrow>
                (case write_packet io 0 pkt rc1 of
                   (Failed ErrTimestampGap, rc2) \<Rightarrow>
                     (case ensureSegment io 1 (closeCurrentSegment io 1 rc2) of
                        (Some e, rc3) \<Rightarrow> (False, handleWriteError io rc3)
                      | (None, rc3) \<Rightarrow> finish_video io (write_packet io 1 pkt rc3))
                 | res \<Rightarrow> finish_video io res)) of
        (panicked, rc') \<Rightarrow> (panicked, updateAudioError rc'))"

definition processAudio :: "io \<Rightarrow> rtp_packet option \<Rightarrow> RecordingConsumer \<Rightarrow> bool \<times> RecordingConsumer" where
  "processAudio io pkt rc =
     (case rc_writer rc of
        None \<Rightarrow> (False, rc)
      | Some w \<Rightarrow>
          if io_panic io 0 then (True, rc)
          else (case WriteAudio (io_env io 4) (io_clk io 3) (io_audio io) pkt w of
                  (r, w') \<Rightarrow>
                    let rc1 = rc\<lparr>rc_writer := Some w'\<rparr>
                    in (False, updateAudioError (if r = Written then rc1 else handleWriteError io rc1))))"

definition handlePaused :: "io \<Rightarrow> RecordingConsumer \<Rightarrow> RecordingConsumer" where
  "handlePaused io rc =
     (if tsub (io_clk io 5) (rc_pausedSince rc) < diskPauseRetryInterval then rc
      else if fst (io_disk io 2) < snd (io_disk io 2) then rc\<lparr>rc_pausedSince := io_clk io 6\<rparr>
      else rc\<lparr>rc_paused := False, rc_writeErrors := 0\<rparr>)"

definition rotateAtDiscontinuity :: "io \<Rightarrow> RecordingConsumer \<Rightarrow> RecordingConsumer" where
  "rotateAtDiscontinuity io rc =
     (case rc_writer rc of
        None \<Rightarrow> rc
      | Some w \<Rightarrow>
          if \<not> HasMedia w then rc
          else if \<not> isZero (rc_lastDropRotate rc) \<and> tsub (io_clk io 7) (rc_lastDropRotate rc) < dropRotateInterval then rc
          else closeCurrentSegment io 0 (rc\<lparr>rc_lastDropRotate := io_clk io 8\<rparr>))"

definition discardWriterAfterPanic :: "io \<Rightarrow> RecordingConsumer \<Rightarrow> RecordingConsumer" where
  "discardWriterAfterPanic io rc =
     (if rc_writer rc = None then rc else (removeSegment (io_remove io 4) (io_delete io 4) rc)\<lparr>rc_writer := None, rc_currentPath := []\<rparr>)"

definition dispatch :: "io \<Rightarrow> rtpMsg \<Rightarrow> RecordingConsumer \<Rightarrow> RecordingConsumer" where
  "dispatch io msg rc =
     (if rc_paused rc then handlePaused io rc
      else
        let rc1 = (if rc_discontinuous rc then rotateAtDiscontinuity io (rc\<lparr>rc_discontinuous := False\<rparr>) else rc)
        in case (if msg_video msg then processVideo io (msg_pkt msg) rc1 else processAudio io (msg_pkt msg) rc1) of
             (panicked, rc2) \<Rightarrow> if panicked then discardWriterAfterPanic io rc2 else rc2)"

section \<open>The queue and the loop\<close>

definition noteDrop :: "RecordingConsumer \<Rightarrow> RecordingConsumer" where
  "noteDrop rc = rc\<lparr>rc_droppedPackets := rc_droppedPackets rc + 1, rc_discontinuous := True\<rparr>"

text \<open>\<open>OnVideoRTP\<close> and \<open>OnAudioRTP\<close>.\<close>

definition OnRTP :: "bool \<Rightarrow> rtp_packet option \<Rightarrow> RecordingConsumer \<Rightarrow> RecordingConsumer" where
  "OnRTP video pkt rc =
     (if rc_closed rc then rc
      else if length (rc_pktCh rc) < queue_capacity then rc\<lparr>rc_pktCh := rc_pktCh rc @ [\<lparr>msg_pkt = pkt, msg_video = video\<rparr>]\<rparr>
      else noteDrop rc)"

definition OnDisconnect :: "io \<Rightarrow> RecordingConsumer \<Rightarrow> RecordingConsumer" where
  "OnDisconnect io rc = closeCurrentSegment io 0 rc"

fun drain :: "(nat \<Rightarrow> io) \<Rightarrow> rtpMsg list \<Rightarrow> RecordingConsumer \<Rightarrow> RecordingConsumer" where
  "drain ios [] rc = rc"
| "drain ios (m # ms) rc = drain (\<lambda>i. ios (Suc i)) ms (dispatch (ios 0) m rc)"

text \<open>\<open>Close\<close>: the loop empties the queue and ends, then the last segment is closed.\<close>

definition rc_Close :: "(nat \<Rightarrow> io) \<Rightarrow> io \<Rightarrow> RecordingConsumer \<Rightarrow> RecordingConsumer" where
  "rc_Close ios io rc =
     (if rc_closed rc then rc
      else closeCurrentSegment io 0 (drain ios (rc_pktCh rc) (rc\<lparr>rc_closed := True, rc_pktCh := []\<rparr>)))"

text \<open>
  The goroutine that waits for a creation that was given up: it allows new creations, then closes and removes the file that came
  late.  Creating the file truncated whatever had its name.
\<close>

definition reap :: "create_outcome \<Rightarrow> RecordingConsumer \<Rightarrow> RecordingConsumer" where
  "reap late rc =
     (if \<not> rc_createPending rc then rc
      else case late of
             Created \<Rightarrow> rc\<lparr>rc_createPending := False, rc_files := (rc_files rc)(rc_stalled rc \<mapsto> []), rc_reaping := rc_stalled rc # rc_reaping rc\<rparr>
           | CreateFailed left \<Rightarrow>
               rc\<lparr>rc_createPending := False, rc_files := (if left then (rc_files rc)(rc_stalled rc \<mapsto> []) else rc_files rc)\<rparr>
           | CreateStalled \<Rightarrow> rc)"

definition reap_remove :: "bool \<Rightarrow> string \<Rightarrow> RecordingConsumer \<Rightarrow> RecordingConsumer" where
  "reap_remove removed path rc =
     (if path \<notin> set (rc_reaping rc) then rc
      else if \<not> removed then rc\<lparr>rc_reaping := remove1 path (rc_reaping rc)\<rparr>
      else rc\<lparr>rc_reaping := remove1 path (rc_reaping rc), rc_files := (rc_files rc)(path := None),
              rc_doubtful := (if rc_rows rc path = None then rc_doubtful rc else insert path (rc_doubtful rc))\<rparr>)"

end
