(* ===== verification/Consumer_Invariant.thy ===== *)
theory Consumer_Invariant
  imports Recording_Consumer
begin

text \<open>
  What the recording consumer keeps true: the segment index never names a file that is not there, the times of closed
  segments are those of the media in them, and recording pauses and resumes when it should.
\<close>

section \<open>Honest rows\<close>

definition file_time :: "file_item list \<Rightarrow> nat" where
  "file_time items = parts_time (track_parts videoTrackID (file_tracks items))"

text \<open>
  The row of a closed segment covers exactly the video in the file; the two exceptions are a file without any video and one of
  more than 56.9 hours, where the conversion to nanoseconds wraps.
\<close>

definition honest :: "file_item list \<Rightarrow> SegmentInfo \<Rightarrow> bool" where
  "honest items row \<longleftrightarrow> file_time items = 0 \<or> 2 ^ 64 \<le> int (file_time items) * Second \<or>
     si_EndTime row = si_StartTime row + int (file_time items) * Second div int videoTimeScale"

lemma close_honest:
  assumes "writer_reach ok w" and "sw_Close e now out fclose w = (c, w')"
    and "dur = (if close_failed c then FlushedDuration w' else cl_duration c)" and "si_EndTime row = tadd (si_StartTime row) dur"
  shows "honest (sw_file w') row"
proof -
  have ok: "video_ok w" using reach_rec_ok[OF assms(1)] by blast
  have "video_refines w w'" using Close_refines[OF ok, of e now out fclose] assms(2) by simp
  then have t: "times_ok w'" using ok by (simp add: video_refines_def video_ok_def counters_ok_def)
  have f: "sw_flushedVideoDTS w' = file_time (sw_file w')" using t by (simp add: times_ok_def file_time_def)
  show ?thesis
  proof (cases "file_time (sw_file w') = 0 \<or> 2 ^ 64 \<le> int (file_time (sw_file w')) * Second")
    case False
    then have d: "ticks_duration (sw_flushedVideoDTS w') = int (file_time (sw_file w')) * Second div int videoTimeScale"
      using ticks_duration_exact f by simp
    have fd: "FlushedDuration w' = ticks_duration (sw_flushedVideoDTS w')" using False f by (simp add: FlushedDuration_def)
    have "cl_duration c = ticks_duration (sw_flushedVideoDTS w')" if "\<not> close_failed c"
    proof (cases rule: Close_steps[of e now out w fclose])
      case (1 flushErr sw1 sw2 r sw3 c')
      then have eq: "w' = sw3" "c = c'" "r = Written" using assms(2) that by (auto simp: close_failed_def)
      then have "sw_pendingVideoSamples w' = []" using flush_empties 1(3) by blast
      then have "sw_videoDTS w' = sw_flushedVideoDTS w'" using t by (simp add: times_ok_def)
      then show ?thesis using 1(5) eq False f by simp
    qed
    then show ?thesis using assms(3,4) fd d by (simp add: honest_def tadd_def)
  qed (auto simp: honest_def)
qed

section \<open>The invariant\<close>

definition index_ok :: "(string \<rightharpoonup> file_item list) \<Rightarrow> (string \<rightharpoonup> SegmentInfo) \<Rightarrow> string set \<Rightarrow> string set \<Rightarrow> bool" where
  "index_ok disk index op doubtful \<longleftrightarrow>
     (\<forall>p row. p \<notin> doubtful \<longrightarrow> index p = Some row \<longrightarrow> (\<exists>items. disk p = Some items \<and> (p \<notin> op \<longrightarrow> honest items row)))"

definition open_path :: "RecordingConsumer \<Rightarrow> string set" where
  "open_path rc = (if rc_writer rc = None then {} else {rc_segPath rc})"

abbreviation consumer_index :: "RecordingConsumer \<Rightarrow> string set \<Rightarrow> bool" where
  "consumer_index rc op \<equiv> index_ok (rc_files rc) (rc_rows rc) op (rc_doubtful rc)"

definition files_ok :: "RecordingConsumer \<Rightarrow> bool" where
  "files_ok rc \<longleftrightarrow> consumer_index rc (open_path rc) \<and>
     (case rc_writer rc of
        None \<Rightarrow> rc_currentPath rc = []
      | Some w \<Rightarrow> (\<exists>ok. writer_reach ok w) \<and> rc_segPath rc \<noteq> [] \<and> rc_currentPath rc = rc_segPath rc \<and>
          (rc_segPath rc \<notin> rc_doubtful rc \<longrightarrow> rc_rows rc (rc_segPath rc) \<noteq> None))"

definition pause_ok :: "RecordingConsumer \<Rightarrow> bool" where
  "pause_ok rc \<longleftrightarrow> (if rc_paused rc then rc_writer rc = None else rc_writeErrors rc < 3)"

lemma index_removed: "index_ok disk index op D \<Longrightarrow> index_ok disk' (index(p := None)) (op - {p}) (D - {p})"
  if "\<And>q. q \<noteq> p \<Longrightarrow> disk' q = disk q"
  using that by (fastforce simp: index_ok_def split: if_splits)

lemma index_refused: "index_ok disk index op D \<Longrightarrow> index_ok disk' index (op - {p}) (insert p D)"
  if "\<And>q. q \<noteq> p \<Longrightarrow> disk' q = disk q"
  using that by (fastforce simp: index_ok_def split: if_splits)

lemma index_added:
  "index_ok disk index op D \<Longrightarrow> disk p = Some items \<Longrightarrow> honest items row \<Longrightarrow> index_ok disk (index(p \<mapsto> row)) (op - {p}) (D - {p})"
  by (fastforce simp: index_ok_def split: if_splits)

lemma index_opened:
  "index_ok disk index op D \<Longrightarrow> index_ok (disk(p \<mapsto> items)) (index(p \<mapsto> row)) (insert p op) (D - {p})"
  "index_ok disk index op D \<Longrightarrow> index_ok (disk(p \<mapsto> items)) index (insert p op) (insert p D)"
  by (fastforce simp: index_ok_def split: if_splits)+

lemma index_empty_file: "index_ok disk index op D \<Longrightarrow> index_ok (disk(p \<mapsto> [])) index op D"
  by (auto simp: index_ok_def honest_def file_time_def split: if_splits)

lemma index_file_lost:
  "index_ok disk index op D \<Longrightarrow> index_ok (disk(p := None)) index op (if index p = None then D else insert p D)"
  by (auto simp: index_ok_def split: if_splits)

lemma updateAudioError_fields [simp]:
  "rc_writer (updateAudioError rc) = rc_writer rc" "rc_files (updateAudioError rc) = rc_files rc" "rc_rows (updateAudioError rc) = rc_rows rc"
  "rc_segPath (updateAudioError rc) = rc_segPath rc" "rc_currentPath (updateAudioError rc) = rc_currentPath rc"
  "rc_paused (updateAudioError rc) = rc_paused rc" "rc_writeErrors (updateAudioError rc) = rc_writeErrors rc"
  "rc_camera (updateAudioError rc) = rc_camera rc" "rc_segLen (updateAudioError rc) = rc_segLen rc" "rc_pktCh (updateAudioError rc) = rc_pktCh rc"
  "rc_pausedSince (updateAudioError rc) = rc_pausedSince rc" "rc_doubtful (updateAudioError rc) = rc_doubtful rc"
  by (simp_all add: updateAudioError_def split: option.splits)

lemma files_cong:
  assumes "rc_writer rc' = rc_writer rc" and "rc_files rc' = rc_files rc" and "rc_rows rc' = rc_rows rc" and "rc_segPath rc' = rc_segPath rc"
    and "rc_currentPath rc' = rc_currentPath rc" and "rc_doubtful rc' = rc_doubtful rc"
  shows "files_ok rc' = files_ok rc"
  using assms by (simp add: files_ok_def open_path_def split: option.splits)

lemma files_updateAudioError [simp]: "files_ok (updateAudioError rc) = files_ok rc"
  by (rule files_cong) simp_all

lemma callback_fields [simp]:
  "rc_writer (onSegment b p i rc) = rc_writer rc" "rc_segPath (onSegment b p i rc) = rc_segPath rc" "rc_paused (onSegment b p i rc) = rc_paused rc"
  "rc_writeErrors (onSegment b p i rc) = rc_writeErrors rc" "rc_files (onSegment b p i rc) = rc_files rc"
  "rc_currentPath (onSegment b p i rc) = rc_currentPath rc"
  "rc_rows (onSegment b p i rc) = (if b then (rc_rows rc)(p \<mapsto> i) else rc_rows rc)"
  "rc_doubtful (onSegment b p i rc) = (if b then rc_doubtful rc - {p} else insert p (rc_doubtful rc))"
  "rc_writer (onSegmentRemoved b p rc) = rc_writer rc" "rc_segPath (onSegmentRemoved b p rc) = rc_segPath rc"
  "rc_paused (onSegmentRemoved b p rc) = rc_paused rc" "rc_writeErrors (onSegmentRemoved b p rc) = rc_writeErrors rc"
  "rc_files (onSegmentRemoved b p rc) = rc_files rc"
  "rc_rows (onSegmentRemoved b p rc) = (if b then (rc_rows rc)(p := None) else rc_rows rc)"
  "rc_doubtful (onSegmentRemoved b p rc) = (if b then rc_doubtful rc - {p} else insert p (rc_doubtful rc))"
  by (simp_all add: onSegment_def onSegmentRemoved_def)

lemma removeSegment_fields [simp]:
  "rc_writer (removeSegment b d rc) = rc_writer rc" "rc_segPath (removeSegment b d rc) = rc_segPath rc"
  "rc_paused (removeSegment b d rc) = rc_paused rc" "rc_writeErrors (removeSegment b d rc) = rc_writeErrors rc"
  by (simp_all add: removeSegment_def)

lemma removeSegment_ok:
  assumes "consumer_index rc {rc_segPath rc}" and "rc_segPath rc \<noteq> []"
  shows "files_ok ((removeSegment b d rc)\<lparr>rc_writer := None, rc_currentPath := []\<rparr>)"
  using assms(2) index_removed[OF _ assms(1), of "rc_segPath rc"] index_refused[OF _ assms(1), of "rc_segPath rc"]
  by (simp add: files_ok_def open_path_def removeSegment_def)

lemma close_files_ok:
  assumes "files_ok rc"
  shows "files_ok (closeCurrentSegment io k rc)" "rc_writer (closeCurrentSegment io k rc) = None"
    "rc_paused (closeCurrentSegment io k rc) = rc_paused rc" "rc_writeErrors (closeCurrentSegment io k rc) = rc_writeErrors rc"
proof -
  show "rc_writer (closeCurrentSegment io k rc) = None" "rc_paused (closeCurrentSegment io k rc) = rc_paused rc"
    "rc_writeErrors (closeCurrentSegment io k rc) = rc_writeErrors rc"
    by (auto simp: closeCurrentSegment_def Let_def split: option.splits prod.splits)
  show "files_ok (closeCurrentSegment io k rc)"
  proof (cases "rc_writer rc")
    case None
    then show ?thesis using assms by (simp add: closeCurrentSegment_def)
  next
    case (Some w)
    obtain c w' where c: "sw_Close (io_env io k) (io_clk io 0) (io_last io k) (io_fclose io k) w = (c, w')" by fastforce
    have I: "consumer_index rc {rc_segPath rc}" and p: "rc_segPath rc \<noteq> []" and r: "\<exists>ok. writer_reach ok w"
      using assms Some by (simp_all add: files_ok_def open_path_def)
    define rc1 where "rc1 = updateAudioError (rc\<lparr>rc_writer := Some w', rc_files := written_file (rc_segPath rc) (sw_file w') (rc_files rc)\<rparr>)"
    have f1: "rc_files rc1 = written_file (rc_segPath rc) (sw_file w') (rc_files rc)" "rc_rows rc1 = rc_rows rc" "rc_segPath rc1 = rc_segPath rc"
      "rc_doubtful rc1 = rc_doubtful rc"
      by (simp_all add: rc1_def)
    have I1: "consumer_index rc1 {rc_segPath rc1}"
      using I unfolding f1 by (fastforce simp: index_ok_def written_file_def split: if_splits)
    from removeSegment_ok[OF this] have rm: "files_ok ((removeSegment b d rc1)\<lparr>rc_writer := None, rc_currentPath := []\<rparr>)" for b d
      using p f1 by simp
    define dur where "dur = (if close_failed c then FlushedDuration w' else cl_duration c)"
    define row where "row sz = \<lparr>si_Camera = rc_camera rc1, si_Path = rc_segPath rc1, si_StartTime = StartTime w', si_EndTime = tadd (StartTime w') dur, si_SizeBytes = sz\<rparr>" for sz :: nat
    have "honest (sw_file w') (row sz)" for sz using close_honest[OF _ c dur_def] r by (auto simp: row_def)
    moreover have "rc_files rc1 (rc_segPath rc1) \<noteq> None \<Longrightarrow> rc_files rc1 (rc_segPath rc1) = Some (sw_file w')"
      by (auto simp: f1 written_file_def split: if_splits)
    ultimately have add: "files_ok ((onSegment b (rc_segPath rc1) (row sz) rc1)\<lparr>rc_writer := None, rc_currentPath := []\<rparr>)"
      if "rc_files rc1 (rc_segPath rc1) \<noteq> None" for b sz
      using that index_added[OF I1, of "rc_segPath rc1"] index_refused[OF _ I1, of "rc_segPath rc1" "rc_files rc1"]
      by (simp add: files_ok_def open_path_def)
    have "closeCurrentSegment io k rc =
      (case (if rc_files rc1 (rc_segPath rc1) = None then None else io_stat io k) of
         None \<Rightarrow> removeSegment (io_remove io k) (io_delete io k) rc1
       | Some sz \<Rightarrow> if sz = 0 then removeSegment (io_remove io k) (io_delete io k) rc1
           else if close_failed c \<and> dur = 0 then removeSegment (io_remove io k) (io_delete io k) rc1
           else onSegment (io_save io k) (rc_segPath rc1) (row sz) rc1)\<lparr>rc_writer := None, rc_currentPath := []\<rparr>"
      unfolding closeCurrentSegment_def rc1_def dur_def row_def by (simp only: Some c option.case prod.case Let_def)
    then show ?thesis using rm add by (auto split: option.splits)
  qed
qed

lemma segment_file_ne [simp]: "segment_file d b \<noteq> []"
  by (simp add: segment_file_def)

lemma ensure_files_ok:
  assumes "files_ok rc" and "ensureSegment io k rc = (err, rc')"
  shows "files_ok rc'" "err = None \<Longrightarrow> rc_writer rc' \<noteq> None" "rc_writeErrors rc' = rc_writeErrors rc"
    "rc_paused rc' = (rc_paused rc \<or> err = Some ErrDiskSpace)" "err \<noteq> None \<Longrightarrow> rc_writer rc' = None"
proof -
  obtain base lb dups where n: "next_name (io_format io (io_clk io (20 + k))) (rc_lastSegBase rc) (rc_segDupCount rc) = (base, lb, dups)"
    by (metis prod_cases3)
  note d = assms(2)[unfolded ensureSegment_def Let_def n prod.case]
  show "err = None \<Longrightarrow> rc_writer rc' \<noteq> None" "rc_writeErrors rc' = rc_writeErrors rc" "rc_paused rc' = (rc_paused rc \<or> err = Some ErrDiskSpace)"
    "err \<noteq> None \<Longrightarrow> rc_writer rc' = None"
    using d by (auto split: if_splits create_outcome.splits)
  show "files_ok rc'"
  proof (cases "rc_writer rc")
    case None
    have I: "consumer_index rc {}" and cp: "rc_currentPath rc = []" using assms(1) None by (simp_all add: files_ok_def open_path_def)
    let ?p = "segment_file (rc_segDir rc) base"
    have new: "\<exists>ok. writer_reach ok (NewSegmentWriter e t v a)" for e t v a using reach_new by blast
    from d None show ?thesis
      using I cp index_opened[OF I, of ?p] index_empty_file[OF I, of ?p] new
      by (auto simp: files_ok_def open_path_def split: if_splits create_outcome.splits)
  next
    case (Some w)
    then show ?thesis using d assms(1) by simp
  qed
qed

lemma write_files_ok:
  assumes "files_ok rc" and "write_packet io k pkt rc = (r, rc')"
  shows "files_ok rc'" "rc_paused rc' = rc_paused rc" "rc_writeErrors rc' = rc_writeErrors rc"
proof -
  show "rc_paused rc' = rc_paused rc" "rc_writeErrors rc' = rc_writeErrors rc"
    using assms(2) by (auto simp: write_packet_def split: option.splits if_splits prod.splits)
  show "files_ok rc'"
  proof (cases "rc_writer rc = None \<or> io_panic io k")
    case True
    then show ?thesis using assms by (auto simp: write_packet_def split: option.splits)
  next
    case False
    then obtain w where w: "rc_writer rc = Some w" by auto
    obtain w' where v: "WriteVideo (io_env io (4 + k)) (io_clk io (3 + k)) (io_video io k) pkt w = (r, w')" "rc' = rc\<lparr>rc_writer := Some w'\<rparr>"
      using assms(2) w False by (auto simp: write_packet_def split: prod.splits)
    obtain ok where "writer_reach ok w" using assms(1) w by (auto simp: files_ok_def)
    then have "\<exists>ok. writer_reach ok w'" using reach_video[OF _ v(1)] by blast
    then show ?thesis using assms(1) w by (simp add: v(2) files_ok_def open_path_def)
  qed
qed

definition consumer_ok :: "RecordingConsumer \<Rightarrow> bool" where
  "consumer_ok rc \<longleftrightarrow> files_ok rc \<and> pause_ok rc"

lemma handleWriteError_ok:
  assumes "files_ok rc" and "rc_paused rc \<Longrightarrow> rc_writer rc = None"
  shows "consumer_ok (handleWriteError io rc)"
proof -
  let ?rc = "rc\<lparr>rc_writeErrors := rc_writeErrors rc + 1\<rparr>"
  have f: "files_ok ?rc" using files_cong[of ?rc rc] assms(1) by simp
  let ?p = "(closeCurrentSegment io 2 ?rc)\<lparr>rc_paused := True, rc_pausedSince := io_clk io 1\<rparr>"
  have "files_ok ?p" using files_cong[of ?p "closeCurrentSegment io 2 ?rc"] close_files_ok(1)[OF f] by simp
  then show ?thesis using f assms(2) close_files_ok(2)[OF f] by (auto simp: consumer_ok_def handleWriteError_def Let_def pause_ok_def)
qed

lemma maybeRotate_ok: "consumer_ok rc \<Longrightarrow> consumer_ok (maybeRotate io rc)"
  using close_files_ok[of rc io 3] by (auto simp: consumer_ok_def maybeRotate_def pause_ok_def)

lemma finish_ok:
  assumes "finish_video io (r, rc) = (panicked, rc')" and "files_ok rc" and "\<not> rc_paused rc" and "rc_writeErrors rc < 3"
  shows "consumer_ok rc'"
proof -
  have f: "files_ok (rc\<lparr>rc_writeErrors := 0\<rparr>)" using files_cong[of "rc\<lparr>rc_writeErrors := 0\<rparr>" rc] assms(2) by simp
  show ?thesis
  proof (cases r)
    case Written
    then show ?thesis using assms(1,3) maybeRotate_ok f by (auto simp: finish_video_def consumer_ok_def pause_ok_def)
  next
    case (Failed e)
    then show ?thesis using assms(1-3) handleWriteError_ok by (auto simp: finish_video_def)
  next
    case Panicked
    then show ?thesis using assms by (auto simp: finish_video_def consumer_ok_def pause_ok_def)
  qed
qed

lemma updateAudioError_ok [simp]: "consumer_ok (updateAudioError rc) = consumer_ok rc"
  by (simp add: consumer_ok_def pause_ok_def)

lemma processVideo_ok:
  assumes "consumer_ok rc" and "\<not> rc_paused rc" and "processVideo io pkt rc = (panicked, rc')"
  shows "consumer_ok rc'"
proof -
  have f: "files_ok rc" "rc_writeErrors rc < 3" using assms(1,2) by (auto simp: consumer_ok_def pause_ok_def)
  obtain err rc1 where e: "ensureSegment io 0 rc = (err, rc1)" by fastforce
  note k1 = ensure_files_ok[OF f(1) e]
  show ?thesis
  proof (cases err)
    case (Some x)
    then have "consumer_ok (handleWriteError io rc1)" using k1(1,5) handleWriteError_ok by blast
    then show ?thesis using assms(3) e Some by (auto simp: processVideo_def)
  next
    case None
    have p1: "\<not> rc_paused rc1" "rc_writeErrors rc1 < 3" using k1(3,4) None assms(2) f(2) by simp_all
    obtain r rc2 where w: "write_packet io 0 pkt rc1 = (r, rc2)" by fastforce
    note k2 = write_files_ok[OF k1(1) w]
    have p2: "\<not> rc_paused rc2" "rc_writeErrors rc2 < 3" using k2(2,3) p1 by simp_all
    show ?thesis
    proof (cases "r = Failed ErrTimestampGap")
      case False
      then have "\<exists>rc3. finish_video io (r, rc2) = (panicked, rc3) \<and> rc' = updateAudioError rc3"
        using assms(3) e w None by (cases r rule: write_result.exhaust; cases "finish_video io (r, rc2)")
          (auto simp: processVideo_def split: write_error.splits)
      then show ?thesis using finish_ok k2(1) p2 by auto
    next
      case True
      let ?c = "closeCurrentSegment io 1 rc2"
      note kc = close_files_ok[OF k2(1), of io 1]
      obtain err3 rc3 where e3: "ensureSegment io 1 ?c = (err3, rc3)" by fastforce
      note k3 = ensure_files_ok[OF kc(1) e3]
      show ?thesis
      proof (cases err3)
        case (Some x)
        then have "consumer_ok (handleWriteError io rc3)" using k3(1,5) handleWriteError_ok by blast
        then show ?thesis using assms(3) e w None True e3 Some by (auto simp: processVideo_def)
      next
        case n3: None
        obtain r4 rc4 where w4: "write_packet io 1 pkt rc3 = (r4, rc4)" by fastforce
        note k4 = write_files_ok[OF k3(1) w4]
        obtain pn rc5 where f5: "finish_video io (r4, rc4) = (pn, rc5)" by fastforce
        have "\<not> rc_paused rc4" "rc_writeErrors rc4 < 3" using k4(2,3) k3(3,4) kc(3,4) n3 p2 by simp_all
        from finish_ok[OF f5 k4(1) this] show ?thesis
          using assms(3) e w None True e3 n3 w4 f5 by (auto simp: processVideo_def)
      qed
    qed
  qed
qed

lemma processAudio_ok:
  assumes "consumer_ok rc" and "\<not> rc_paused rc" and "processAudio io pkt rc = (panicked, rc')"
  shows "consumer_ok rc'"
proof (cases "rc_writer rc = None \<or> io_panic io 0")
  case True
  then show ?thesis using assms by (auto simp: processAudio_def split: option.splits)
next
  case False
  then obtain w where w: "rc_writer rc = Some w" by auto
  obtain r w' where v: "WriteAudio (io_env io 4) (io_clk io 3) (io_audio io) pkt w = (r, w')" by fastforce
  have f: "files_ok rc" and p: "pause_ok rc" using assms(1) by (simp_all add: consumer_ok_def)
  obtain ok where "writer_reach ok w" using f w by (auto simp: files_ok_def)
  then have "\<exists>ok. writer_reach ok w'" using reach_audio[OF _ v] by blast
  then have f1: "files_ok (rc\<lparr>rc_writer := Some w'\<rparr>)" using f w by (simp add: files_ok_def open_path_def)
  moreover have "pause_ok (rc\<lparr>rc_writer := Some w'\<rparr>)" using p assms(2) by (simp add: pause_ok_def)
  ultimately have "consumer_ok (rc\<lparr>rc_writer := Some w'\<rparr>)" by (simp add: consumer_ok_def)
  moreover have "consumer_ok (handleWriteError io (rc\<lparr>rc_writer := Some w'\<rparr>))" using handleWriteError_ok[OF f1] assms(2) by simp
  ultimately show ?thesis using assms(3) w v False by (auto simp: processAudio_def Let_def split: if_splits)
qed

lemma discard_ok: "consumer_ok rc \<Longrightarrow> consumer_ok (discardWriterAfterPanic io rc)"
proof (cases "rc_writer rc")
  case (Some w)
  assume ok: "consumer_ok rc"
  then have "consumer_index rc {rc_segPath rc}" "rc_segPath rc \<noteq> []"
    using Some by (simp_all add: consumer_ok_def files_ok_def open_path_def)
  from removeSegment_ok[OF this] ok show ?thesis using Some by (auto simp: discardWriterAfterPanic_def consumer_ok_def pause_ok_def)
qed (simp add: discardWriterAfterPanic_def)

lemma rotate_ok:
  assumes "consumer_ok rc" shows "consumer_ok (rotateAtDiscontinuity io rc)" "rc_paused (rotateAtDiscontinuity io rc) = rc_paused rc"
proof -
  let ?rc = "rc\<lparr>rc_lastDropRotate := io_clk io 8\<rparr>"
  have f: "files_ok ?rc" using files_cong[of ?rc rc] assms by (simp add: consumer_ok_def)
  show "consumer_ok (rotateAtDiscontinuity io rc)"
    using assms close_files_ok[OF f, of io 0] by (auto simp: rotateAtDiscontinuity_def consumer_ok_def pause_ok_def split: option.splits)
  show "rc_paused (rotateAtDiscontinuity io rc) = rc_paused rc"
    using close_files_ok(3)[OF f, of io 0] by (auto simp: rotateAtDiscontinuity_def split: option.splits)
qed

lemma handlePaused_ok: "consumer_ok rc \<Longrightarrow> rc_paused rc \<Longrightarrow> consumer_ok (handlePaused io rc)"
proof -
  assume ok: "consumer_ok rc" "rc_paused rc"
  have "files_ok (rc\<lparr>rc_pausedSince := t\<rparr>)" "files_ok (rc\<lparr>rc_paused := False, rc_writeErrors := 0\<rparr>)" for t
    using files_cong[of "rc\<lparr>rc_pausedSince := t\<rparr>" rc] files_cong[of "rc\<lparr>rc_paused := False, rc_writeErrors := 0\<rparr>" rc] ok(1)
    by (simp_all add: consumer_ok_def)
  then show ?thesis using ok by (auto simp: handlePaused_def consumer_ok_def pause_ok_def)
qed

lemma dispatch_ok: "consumer_ok rc \<Longrightarrow> consumer_ok (dispatch io msg rc)"
proof (cases "rc_paused rc")
  case True
  assume "consumer_ok rc"
  then show ?thesis using True handlePaused_ok by (simp add: dispatch_def)
next
  case False
  assume ok: "consumer_ok rc"
  let ?rc = "rc\<lparr>rc_discontinuous := False\<rparr>"
  have d: "consumer_ok ?rc" using ok files_cong[of ?rc rc] by (simp add: consumer_ok_def pause_ok_def)
  define rc1 where "rc1 = (if rc_discontinuous rc then rotateAtDiscontinuity io ?rc else rc)"
  have ok1: "consumer_ok rc1" "\<not> rc_paused rc1" using ok False rotate_ok[OF d, of io] by (simp_all add: rc1_def)
  obtain pn rc2 where p: "(if msg_video msg then processVideo io (msg_pkt msg) rc1 else processAudio io (msg_pkt msg) rc1) = (pn, rc2)" by fastforce
  have "consumer_ok rc2" using p processVideo_ok[OF ok1] processAudio_ok[OF ok1] by (auto split: if_splits)
  then show ?thesis using False p discard_ok by (simp add: dispatch_def Let_def rc1_def[symmetric])
qed

section \<open>Runs of a consumer\<close>

text \<open>
  \<open>calm\<close> says that the database takes every update and that no late removal hits a name the index lists.
\<close>

definition db_takes :: "io \<Rightarrow> bool" where
  "db_takes io \<longleftrightarrow> (\<forall>k. io_save io k \<and> io_delete io k)"

inductive consumer_reach :: "bool \<Rightarrow> RecordingConsumer \<Rightarrow> bool" for calm :: bool where
  consumer_new: "index_ok disk index {} doubtful \<Longrightarrow> (calm \<Longrightarrow> doubtful = {}) \<Longrightarrow>
    consumer_reach calm (NewRecordingConsumer segDir camera segLen video audio disk index doubtful)"
| consumer_packet: "consumer_reach calm rc \<Longrightarrow> consumer_reach calm (OnRTP video pkt rc)"
| consumer_dispatch: "consumer_reach calm rc \<Longrightarrow> rc_pktCh rc = m # ms \<Longrightarrow> (calm \<Longrightarrow> db_takes io) \<Longrightarrow>
    consumer_reach calm (dispatch io m (rc\<lparr>rc_pktCh := ms\<rparr>))"
| consumer_disconnect: "consumer_reach calm rc \<Longrightarrow> (calm \<Longrightarrow> db_takes io) \<Longrightarrow> consumer_reach calm (OnDisconnect io rc)"
| consumer_reap: "consumer_reach calm rc \<Longrightarrow> consumer_reach calm (reap late rc)"
| consumer_reap_remove: "consumer_reach calm rc \<Longrightarrow> (calm \<Longrightarrow> rc_rows rc path = None) \<Longrightarrow> consumer_reach calm (reap_remove removed path rc)"
| consumer_close: "consumer_reach calm rc \<Longrightarrow> (\<And>i. calm \<Longrightarrow> db_takes (ios i)) \<Longrightarrow> (calm \<Longrightarrow> db_takes io) \<Longrightarrow>
    consumer_reach calm (rc_Close ios io rc)"

lemma consumer_cong:
  assumes "rc_writer rc' = rc_writer rc" and "rc_files rc' = rc_files rc" and "rc_rows rc' = rc_rows rc" and "rc_segPath rc' = rc_segPath rc"
    and "rc_currentPath rc' = rc_currentPath rc" and "rc_doubtful rc' = rc_doubtful rc" and "rc_paused rc' = rc_paused rc"
    and "rc_writeErrors rc' = rc_writeErrors rc"
  shows "consumer_ok rc' = consumer_ok rc"
  using files_cong[OF assms(1-6)] assms(1,7,8) by (simp add: consumer_ok_def pause_ok_def)

lemma close_consumer_ok: "consumer_ok rc \<Longrightarrow> consumer_ok (closeCurrentSegment io k rc)"
  using close_files_ok[of rc io k] by (auto simp: consumer_ok_def pause_ok_def)

lemma drain_ok: "consumer_ok rc \<Longrightarrow> consumer_ok (drain ios ms rc)"
  by (induction ms arbitrary: ios rc) (simp_all add: dispatch_ok)

lemma consumer_reach_ok: "consumer_reach calm rc \<Longrightarrow> consumer_ok rc"
proof (induction rule: consumer_reach.induct)
  case (consumer_new disk index doubtful segDir camera segLen video audio)
  then show ?case by (simp add: consumer_ok_def files_ok_def pause_ok_def open_path_def NewRecordingConsumer_def)
next
  case (consumer_packet rc video pkt)
  then show ?case using consumer_cong[of "OnRTP video pkt rc" rc] by (simp add: OnRTP_def noteDrop_def)
next
  case (consumer_dispatch rc m ms io)
  then show ?case using consumer_cong[of "rc\<lparr>rc_pktCh := ms\<rparr>" rc] dispatch_ok by simp
next
  case (consumer_disconnect rc io)
  then show ?case using close_consumer_ok by (simp add: OnDisconnect_def)
next
  case (consumer_reap rc late)
  then have "index_ok ((rc_files rc)(rc_stalled rc \<mapsto> [])) (rc_rows rc) (open_path rc) (rc_doubtful rc)"
    by (simp add: consumer_ok_def files_ok_def index_empty_file)
  then show ?case using consumer_reap.IH
    by (auto simp: reap_def consumer_ok_def files_ok_def pause_ok_def open_path_def split: create_outcome.split option.splits if_splits)
next
  case (consumer_reap_remove rc path removed)
  then have "index_ok ((rc_files rc)(path := None)) (rc_rows rc) (open_path rc) (if rc_rows rc path = None then rc_doubtful rc else insert path (rc_doubtful rc))"
    by (simp add: consumer_ok_def files_ok_def index_file_lost)
  then show ?case using consumer_reap_remove.IH
    by (auto simp: reap_remove_def consumer_ok_def files_ok_def pause_ok_def open_path_def split: option.splits if_splits)
next
  case (consumer_close rc ios io)
  then show ?case using consumer_cong[of "rc\<lparr>rc_closed := True, rc_pktCh := []\<rparr>" rc] drain_ok close_consumer_ok by (simp add: rc_Close_def)
qed

text \<open>Nothing is doubtful while the database takes every update.\<close>

definition settled :: "RecordingConsumer \<Rightarrow> bool" where
  "settled rc \<longleftrightarrow> rc_doubtful rc = {}"

lemma settled_simps [simp]:
  "settled (updateAudioError rc) = settled rc" "settled (rc\<lparr>rc_writer := w\<rparr>) = settled rc" "settled (rc\<lparr>rc_currentPath := p\<rparr>) = settled rc"
  "settled (rc\<lparr>rc_writeErrors := n\<rparr>) = settled rc" "settled (rc\<lparr>rc_paused := b\<rparr>) = settled rc" "settled (rc\<lparr>rc_pausedSince := t\<rparr>) = settled rc"
  "settled (rc\<lparr>rc_files := f\<rparr>) = settled rc" "settled (rc\<lparr>rc_discontinuous := d\<rparr>) = settled rc" "settled (rc\<lparr>rc_pktCh := q\<rparr>) = settled rc"
  "settled (rc\<lparr>rc_lastDropRotate := t\<rparr>) = settled rc" "settled (rc\<lparr>rc_closed := b\<rparr>) = settled rc"
  "settled (rc\<lparr>rc_droppedPackets := n\<rparr>) = settled rc" "settled (rc\<lparr>rc_createPending := b\<rparr>) = settled rc"
  "settled (rc\<lparr>rc_reaping := ps\<rparr>) = settled rc" "settled (NewRecordingConsumer dir cam len v a disk index {})"
  "settled rc \<Longrightarrow> settled (onSegment True p i rc)" "settled rc \<Longrightarrow> settled (onSegmentRemoved True p rc)"
  by (simp_all add: settled_def NewRecordingConsumer_def)

lemma close_settled: "db_takes io \<Longrightarrow> settled rc \<Longrightarrow> settled (closeCurrentSegment io k rc)"
  by (auto simp: closeCurrentSegment_def Let_def removeSegment_def db_takes_def split: option.splits prod.splits)

lemma ensure_settled: "db_takes io \<Longrightarrow> settled rc \<Longrightarrow> ensureSegment io k rc = (err, rc') \<Longrightarrow> settled rc'"
  by (auto simp: settled_def ensureSegment_def Let_def db_takes_def split: if_splits prod.splits create_outcome.splits)

lemma write_settled: "write_packet io k pkt rc = (r, rc') \<Longrightarrow> settled rc' = settled rc"
  by (auto simp: write_packet_def split: option.splits if_splits prod.splits)

lemma error_settled: "db_takes io \<Longrightarrow> settled rc \<Longrightarrow> settled (handleWriteError io rc)"
  by (simp add: handleWriteError_def Let_def close_settled)

lemma finish_settled: "db_takes io \<Longrightarrow> settled rc \<Longrightarrow> finish_video io (r, rc) = (panicked, rc') \<Longrightarrow> settled rc'"
  by (auto simp: finish_video_def maybeRotate_def error_settled close_settled split: write_result.splits)

lemma processVideo_settled:
  assumes "db_takes io" "settled rc" "processVideo io pkt rc = (panicked, rc')"
  shows "settled rc'"
proof -
  note s = ensure_settled[OF assms(1)] write_settled error_settled[OF assms(1)] finish_settled[OF assms(1)] close_settled[OF assms(1)]
  obtain err rc1 where e: "ensureSegment io 0 rc = (err, rc1)" by fastforce
  have d1: "settled rc1" using s(1)[OF assms(2) e] .
  obtain r rc2 where w: "write_packet io 0 pkt rc1 = (r, rc2)" by fastforce
  have d2: "settled rc2" using s(2)[OF w] d1 by simp
  obtain err3 rc3 where e3: "ensureSegment io 1 (closeCurrentSegment io 1 rc2) = (err3, rc3)" by fastforce
  have d3: "settled rc3" using s(1)[OF s(5)[OF d2] e3] .
  obtain r4 rc4 where w4: "write_packet io 1 pkt rc3 = (r4, rc4)" by fastforce
  have d4: "settled rc4" using s(2)[OF w4] d3 by simp
  obtain p5 rc5 where f5: "finish_video io (r4, rc4) = (p5, rc5)" by fastforce
  obtain p6 rc6 where f6: "finish_video io (r, rc2) = (p6, rc6)" by fastforce
  show ?thesis
    using assms(3) e w e3 w4 f5 f6 s(3)[OF d1] s(3)[OF d3] s(4)[OF d4 f5] s(4)[OF d2 f6]
    by (auto simp: processVideo_def split: option.splits write_result.splits write_error.splits)
qed

lemma processAudio_settled:
  "db_takes io \<Longrightarrow> settled rc \<Longrightarrow> processAudio io pkt rc = (panicked, rc') \<Longrightarrow> settled rc'"
  by (auto simp: processAudio_def Let_def error_settled split: option.splits if_splits prod.splits)

lemma dispatch_settled:
  assumes "db_takes io" "settled rc"
  shows "settled (dispatch io msg rc)"
proof (cases "rc_paused rc")
  case True
  then show ?thesis using assms by (simp add: dispatch_def handlePaused_def)
next
  case False
  define rc1 where "rc1 = (if rc_discontinuous rc then rotateAtDiscontinuity io (rc\<lparr>rc_discontinuous := False\<rparr>) else rc)"
  have d1: "settled rc1"
    using assms by (auto simp: rc1_def rotateAtDiscontinuity_def close_settled split: option.splits)
  obtain pn rc2 where p: "(if msg_video msg then processVideo io (msg_pkt msg) rc1 else processAudio io (msg_pkt msg) rc1) = (pn, rc2)" by fastforce
  have "settled rc2" using p processVideo_settled[OF assms(1) d1] processAudio_settled[OF assms(1) d1] by (auto split: if_splits)
  moreover from this have "settled (discardWriterAfterPanic io rc2)"
    using assms(1) by (simp add: discardWriterAfterPanic_def removeSegment_def db_takes_def)
  ultimately show ?thesis using False p by (simp add: dispatch_def Let_def rc1_def[symmetric])
qed

lemma drain_settled: "(\<And>i. db_takes (ios i)) \<Longrightarrow> settled rc \<Longrightarrow> settled (drain ios ms rc)"
  by (induction ms arbitrary: ios rc) (simp_all add: dispatch_settled)

lemma calm_settled: "consumer_reach True rc \<Longrightarrow> settled rc"
proof (induction rule: consumer_reach.induct)
  case (consumer_close rc ios io)
  then show ?case using drain_settled[of ios "rc\<lparr>rc_closed := True, rc_pktCh := []\<rparr>"] close_settled by (simp add: rc_Close_def)
qed (auto simp: OnRTP_def noteDrop_def OnDisconnect_def reap_def reap_remove_def dispatch_settled close_settled
    split: create_outcome.split)


text \<open>
  C19. Pausing.  A running consumer has seen fewer than three failures in a row.  A paused one has no segment open; a packet changes
  neither files nor index; and recording goes on exactly when thirty seconds have passed and the disk has the space
  it must have.
\<close>

theorem consumer_pause:
  assumes "consumer_reach calm rc"
  shows "(\<not> rc_paused rc \<longrightarrow> rc_writeErrors rc < 3) \<and>
    (rc_paused rc \<longrightarrow> rc_writer rc = None \<and>
       rc_files (dispatch io msg rc) = rc_files rc \<and> rc_rows (dispatch io msg rc) = rc_rows rc \<and> rc_writer (dispatch io msg rc) = None \<and>
       (rc_paused (dispatch io msg rc) \<longleftrightarrow>
          tsub (io_clk io 5) (rc_pausedSince rc) < diskPauseRetryInterval \<or> fst (io_disk io 2) < snd (io_disk io 2)))"
proof -
  have "pause_ok rc" using consumer_reach_ok[OF assms] by (simp add: consumer_ok_def)
  then show ?thesis by (auto simp: pause_ok_def dispatch_def handlePaused_def)
qed

section \<open>Names\<close>

fun segment_names :: "string list \<Rightarrow> string \<Rightarrow> nat \<Rightarrow> string list" where
  "segment_names [] lastBase dups = []"
| "segment_names (b # bs) lastBase dups = (case next_name b lastBase dups of (name, lb, d) \<Rightarrow> name # segment_names bs lb d)"

text \<open>A name as the second and a count within it.\<close>

fun name_of :: "string \<times> nat \<Rightarrow> string" where
  "name_of (b, 0) = b"
| "name_of (b, Suc k) = b @ ''_'' @ format_int (int (Suc k))"

fun numbered :: "string list \<Rightarrow> string \<Rightarrow> nat \<Rightarrow> (string \<times> nat) list" where
  "numbered [] lastBase dups = []"
| "numbered (b # bs) lastBase dups = (if b = lastBase then (b, Suc dups) # numbered bs lastBase (Suc dups) else (b, 0) # numbered bs b 0)"

lemma segment_names_counted: "segment_names bs lastBase dups = map name_of (numbered bs lastBase dups)"
  by (induction bs lastBase dups rule: numbered.induct) (auto simp: next_name_def)

lemma numbered_base: "(b, k) \<in> set (numbered bs lastBase dups) \<Longrightarrow> b \<in> set bs"
  by (induction bs lastBase dups rule: numbered.induct) (auto split: if_splits)

lemma format_count_inj: "format_int (int m) = format_int (int n) \<Longrightarrow> m = n"
proof -
  assume "format_int (int m) = format_int (int n)"
  then have "digits m = digits n" by (simp add: format_int_def)
  then have "Some m = Some n" using parse_digits_digits by metis
  then show ?thesis by simp
qed

lemma name_of_inj:
  assumes "length b = length b'" and "name_of (b, k) = name_of (b', k')"
  shows "(b, k) = (b', k')"
proof -
  have t: "take (length b) (name_of (b, k)) = b" "take (length b') (name_of (b', k')) = b'"
    by (cases k; simp) (cases k'; simp)
  then have b: "b = b'" using assms by metis
  moreover have "k = k'"
  proof (cases k; cases k')
    fix i j assume "k = Suc i" "k' = Suc j"
    then show ?thesis using assms(2) b format_count_inj[of "Suc i" "Suc j"] by simp
  qed (use assms(2) b in auto)
  ultimately show ?thesis by simp
qed

lemma numbered_above: "distinct (remdups_adj (lastBase # bs)) \<Longrightarrow> (lastBase, k) \<in> set (numbered bs lastBase dups) \<Longrightarrow> dups < k"
proof (induction bs arbitrary: dups)
  case (Cons b bs)
  show ?case
  proof (cases "b = lastBase")
    case True
    then have "distinct (remdups_adj (lastBase # bs))" "k = Suc dups \<or> (lastBase, k) \<in> set (numbered bs lastBase (Suc dups))"
      using Cons.prems by auto
    then show ?thesis using Cons.IH[of "Suc dups"] by auto
  next
    case False
    have "remdups_adj (lastBase # b # bs) = lastBase # remdups_adj (b # bs)" using False by simp
    then have "lastBase \<notin> set (b # bs)" using Cons.prems(1) remdups_adj_set[of "b # bs"] by (metis distinct.simps(2))
    moreover have "(lastBase, k) \<in> set (numbered bs b 0)" using Cons.prems(2) False by simp
    ultimately show ?thesis using numbered_base[of lastBase k bs b 0] by simp
  qed
qed simp

lemma numbered_starts: "map fst (filter (\<lambda>p. snd p = 0) (numbered bs lastBase dups)) = tl (remdups_adj (lastBase # bs))"
proof (induction bs lastBase dups rule: numbered.induct)
  case (2 b bs lastBase dups)
  have "b # tl (remdups_adj (b # bs)) = remdups_adj (b # bs)" by (cases "remdups_adj (b # bs)") (auto dest: arg_cong[of _ _ hd])
  then show ?case using 2 by (cases "b = lastBase") simp_all
qed simp

lemma numbered_distinct: "distinct (remdups_adj (lastBase # bs)) \<Longrightarrow> distinct (numbered bs lastBase dups)"
proof (induction bs arbitrary: lastBase dups)
  case (Cons b bs)
  show ?case
  proof (cases "b = lastBase")
    case True
    then have d: "distinct (remdups_adj (lastBase # bs))" using Cons.prems by simp
    then show ?thesis using True Cons.IH[OF d] numbered_above[OF d, of _ "Suc dups"] by auto
  next
    case False
    then have d: "distinct (remdups_adj (b # bs))" using Cons.prems by simp
    then show ?thesis using False Cons.IH[OF d] numbered_above[OF d, of _ 0] by auto
  qed
qed simp

text \<open>
  Segments never share a name unless the clock goes back.  The names a consumer gives to segments that start in the seconds \<open>bs\<close> are
  all different exactly when no second comes back after another one.  When local time is set back by an hour seconds do
  come back, and opening a segment under an old name truncates the old recording.
\<close>

theorem segment_names_distinct:
  assumes "list_all (\<lambda>b. length b = l) bs" and "0 < l"
  shows "distinct (segment_names bs [] 0) \<longleftrightarrow> distinct (remdups_adj bs)"
proof -
  let ?c = "numbered bs [] 0"
  have len: "length (fst p) = l" if "p \<in> set ?c" for p using that numbered_base[of "fst p" "snd p"] assms(1) by (auto simp: list_all_iff)
  have "inj_on name_of (set ?c)"
  proof (rule inj_onI)
    fix p q assume "p \<in> set ?c" "q \<in> set ?c" "name_of p = name_of q"
    then show "p = q" using name_of_inj[of "fst p" "fst q" "snd p" "snd q"] len by simp
  qed
  then have n: "distinct (segment_names bs [] 0) \<longleftrightarrow> distinct ?c" by (simp add: segment_names_counted distinct_map)
  have e: "[] \<notin> set bs" using assms by (auto simp: list_all_iff)
  then have r: "remdups_adj ([] # bs) = [] # remdups_adj bs" by (cases bs) auto
  have "distinct (remdups_adj bs)" if "distinct ?c"
  proof -
    have "distinct (map fst (filter (\<lambda>p. snd p = 0) ?c))" using that by (auto simp: distinct_map inj_on_def prod_eq_iff)
    then show ?thesis by (simp add: numbered_starts r)
  qed
  moreover have "distinct ?c" if "distinct (remdups_adj bs)"
    using that numbered_distinct[of "[]" bs 0] e by (simp add: r)
  ultimately show ?thesis using n by blast
qed

theorem segment_names_distinct_witness:
  "segment_names [''01-59-59'', ''01-59-59'', ''02-00-00''] [] 0 = [''01-59-59'', ''01-59-59_1'', ''02-00-00''] \<and>
   distinct (segment_names [''01-59-59'', ''01-59-59'', ''02-00-00''] [] 0) \<and>
   \<not> distinct (segment_names [''02-00-00'', ''02-59-59'', ''02-00-00''] [] 0)"
proof -
  have "segment_names [''01-59-59'', ''01-59-59'', ''02-00-00''] [] 0 = [''01-59-59'', ''01-59-59_1'', ''02-00-00'']" by code_simp
  then show ?thesis
    using segment_names_distinct[of 8 "[''01-59-59'', ''01-59-59'', ''02-00-00'']"] segment_names_distinct[of 8 "[''02-00-00'', ''02-59-59'', ''02-00-00'']"]
    by simp
qed

section \<open>A short recording\<close>

definition sample_io :: "64 word \<Rightarrow> access_unit \<Rightarrow> gotime \<Rightarrow> io" where
  "sample_io avail au now =
     \<lparr>io_clk = (\<lambda>_. now), io_format = (\<lambda>_. ''noon''), io_disk = (\<lambda>_. (avail, 1)), io_create = (\<lambda>_. Created), io_panic = (\<lambda>_. False),
      io_env = (\<lambda>_. steady_env True), io_video = (\<lambda>_. (au, False)), io_audio = None, io_last = (\<lambda>_. ([[0x41, 2]], False)),
      io_fclose = (\<lambda>_. True), io_stat = (\<lambda>_. Some 100), io_remove = (\<lambda>_. True), io_save = (\<lambda>_. True), io_delete = (\<lambda>_. True)\<rparr>"

definition fresh_consumer :: RecordingConsumer where
  "fresh_consumer = NewRecordingConsumer ''rec'' ''door'' (600 * Second) (Some video_track) None Map.empty Map.empty {}"

text \<open>Receiving a packet and processing it at once.\<close>

definition receive :: "io \<Rightarrow> int \<Rightarrow> RecordingConsumer \<Rightarrow> RecordingConsumer" where
  "receive io ts rc = dispatch io \<lparr>msg_pkt = Some (video_packet ts), msg_video = True\<rparr> rc"

lemma fresh_reach: "consumer_reach True fresh_consumer"
  unfolding fresh_consumer_def by (rule consumer_new) (simp_all add: index_ok_def)

lemma sample_io_takes: "db_takes (sample_io avail au now)"
  by (simp add: db_takes_def sample_io_def)

lemma receive_reach:
  "consumer_reach True rc \<Longrightarrow> rc_pktCh rc = [] \<Longrightarrow> \<not> rc_closed rc \<Longrightarrow> consumer_reach True (receive (sample_io avail au now) ts rc)"
proof -
  assume a: "consumer_reach True rc" "rc_pktCh rc = []" "\<not> rc_closed rc"
  let ?m = "\<lparr>msg_pkt = Some (video_packet ts), msg_video = True\<rparr>"
  have q: "OnRTP True (Some (video_packet ts)) rc = rc\<lparr>rc_pktCh := [?m]\<rparr>" using a(2,3) by (simp add: OnRTP_def queue_capacity_def)
  have "rc\<lparr>rc_pktCh := []\<rparr> = rc" using a(2) by (cases rc) simp
  then show ?thesis using consumer_dispatch[OF consumer_packet[OF a(1), of True "Some (video_packet ts)"], of ?m "[]" "sample_io avail au now"] q sample_io_takes
    by (simp add: receive_def)
qed

lemmas consumer_eval = fresh_consumer_def NewRecordingConsumer_def receive_def dispatch_def processVideo_def ensureSegment_def next_name_def
  segment_file_def sample_io_def updateAudioError_def write_packet_def finish_video_def maybeRotate_def handleWriteError_def
  closeCurrentSegment_def onSegment_def written_file_def Second_def Millisecond_def tsub_def duration_limits

definition short_recording :: RecordingConsumer where
  "short_recording = OnDisconnect (sample_io 1 [] 4) (receive (sample_io 1 [[0x65, 1]] 3) 3000 (receive (sample_io 1 [] 2) 0 fresh_consumer))"

lemma short_states:
  "rc_pktCh (receive (sample_io 1 [] 2) 0 fresh_consumer) = []" "\<not> rc_closed (receive (sample_io 1 [] 2) 0 fresh_consumer)"
  by (simp_all add: consumer_eval writer_eval)

lemma short_recording_reach: "consumer_reach True short_recording"
proof -
  have "consumer_reach True (receive (sample_io 1 [] 2) 0 fresh_consumer)"
    by (rule receive_reach[OF fresh_reach]) (simp_all add: fresh_consumer_def NewRecordingConsumer_def)
  from consumer_disconnect[OF receive_reach[OF this short_states] sample_io_takes] show ?thesis by (simp add: short_recording_def)
qed

lemma short_recording_row:
  "rc_writer short_recording = None"
  "rc_rows short_recording ''rec/noon.mp4'' =
     Some \<lparr>si_Camera = ''door'', si_Path = ''rec/noon.mp4'', si_StartTime = 2, si_EndTime = 66666668, si_SizeBytes = 100\<rparr>"
  "map_option file_time (rc_files short_recording ''rec/noon.mp4'') = Some 6000"
  by (simp_all add: short_recording_def OnDisconnect_def consumer_eval writer_eval sw_Close_def close_video_def Flush_def finishRecordingAudio_def
      close_failed_def StartTime_def isZero_def zeroTime_def ticks_duration_def u64_def tadd_def file_time_def file_tracks_def track_parts_def
      parts_time_def media_time_def)


theorem consumer_pause_witness:
  "rc_paused (receive (sample_io 0 [] 2) 0 fresh_consumer) \<and> rc_writer (receive (sample_io 0 [] 2) 0 fresh_consumer) = None \<and>
   \<not> rc_paused (dispatch (sample_io 1 [] (40 * Second)) \<lparr>msg_pkt = None, msg_video = True\<rparr> (receive (sample_io 0 [] 2) 0 fresh_consumer))"
proof -
  let ?rc = "receive (sample_io 0 [] 2) 0 fresh_consumer"
  have r: "consumer_reach True ?rc"
    by (rule receive_reach[OF fresh_reach]) (simp_all add: fresh_consumer_def NewRecordingConsumer_def)
  have p: "rc_paused ?rc" "rc_pausedSince ?rc = 2" by (simp_all add: consumer_eval)
  show ?thesis
    using consumer_pause[OF r, of "sample_io 1 [] (40 * Second)" "\<lparr>msg_pkt = None, msg_video = True\<rparr>"] p
    by (simp add: sample_io_def diskPauseRetryInterval_def Second_def Millisecond_def tsub_def duration_limits)
qed

end
