(* ===== verification/Rtsp_Source.thy ===== *)
theory Rtsp_Source
  imports Mp4_Writer
begin

text \<open>
  \<^verbatim>\<open>internal/rtsp/source.go\<close> and \<^verbatim>\<open>internal/rtsp/health.go\<close>: the state of one RTSP source, the fan-out of its
  packets to the consumers, the cache of the latest group of pictures, the parameter sets learned from the
  stream and the bookkeeping of connection attempts.  Consumers and reconnect counters are identified by
  numbers; whether a callback panics is an argument.  What \<^verbatim>\<open>net/url\<close> finds in an address is the argument
  \<open>lib\<close>.  The loop that connects is in \<open>Rtsp_Hub\<close>.
\<close>

section \<open>State\<close>

definition maxCachedGOPBytes :: nat where "maxCachedGOPBytes = 8 * 2 ^ 20"
definition maxCachedGOPPackets :: nat where "maxCachedGOPPackets = 8192"

record Source =
  src_url :: string
  src_transport :: string
  src_onDemand :: bool
  src_consumers :: "nat list"
  src_videoTrack :: "TrackInfo option"
  src_audioTrack :: "TrackInfo option"
  src_connected :: bool
  src_paramsReady :: bool
  src_consumerPanics :: nat
  src_reconnects :: nat
  src_reconnectSinks :: "nat list"
  src_lastConnected :: gotime
  src_lastAttempt :: gotime
  src_lastErr :: string
  src_unpublished :: bool
  src_failures :: nat
  src_lastWarn :: gotime
  src_latestGOP :: "rtp_packet list"
  src_gopBytes :: nat
  src_gopHasIDR :: bool
  src_gopStartTS :: int

definition newSource :: "string \<Rightarrow> string \<Rightarrow> bool \<Rightarrow> Source" where
  "newSource url transport onDemand =
     \<lparr>src_url = url, src_transport = transport, src_onDemand = onDemand, src_consumers = [], src_videoTrack = None,
      src_audioTrack = None, src_connected = False, src_paramsReady = False, src_consumerPanics = 0, src_reconnects = 0,
      src_reconnectSinks = [], src_lastConnected = zeroTime, src_lastAttempt = zeroTime, src_lastErr = [], src_unpublished = False,
      src_failures = 0, src_lastWarn = zeroTime, src_latestGOP = [], src_gopBytes = 0, src_gopHasIDR = False, src_gopStartTS = 0\<rparr>"

datatype protocol = ProtocolUDP | ProtocolTCP

definition protocolFor :: "string \<Rightarrow> protocol option" where
  "protocolFor transport = (if transport = ''udp'' then Some ProtocolUDP else if transport = ''auto'' then None else Some ProtocolTCP)"

section \<open>Parameter sets\<close>

definition params_usable :: "Source \<Rightarrow> bool" where
  "params_usable s = (case src_videoTrack s of None \<Rightarrow> False | Some t \<Rightarrow> length (ti_SPS t) \<ge> 4 \<and> ti_PPS t \<noteq> [])"

definition signalParamsReadyLocked :: "Source \<Rightarrow> Source" where
  "signalParamsReadyLocked s = (if params_usable s then s\<lparr>src_paramsReady := True\<rparr> else s)"

text \<open>The results \<open>WaitForVideoParams\<close> may return; it blocks when there is none.\<close>

definition WaitForVideoParams :: "bool \<Rightarrow> Source \<Rightarrow> bool list" where
  "WaitForVideoParams ctxDone s =
     (if params_usable s then [True]
      else (if ctxDone then [False] else []) @ (if src_paramsReady s then [True] else []))"

function learn_loop :: "bytes \<Rightarrow> nat \<Rightarrow> bytes option \<times> bytes option \<Rightarrow> (bytes option \<times> bytes option) option" where
  "learn_loop payload offset sets =
     (if offset + 2 \<le> length payload then
        let sz = nat (be (bslice payload offset (offset + 2)))
        in if sz < 1 \<or> offset + 2 + sz > length payload then None
           else
             let inner = bslice payload (offset + 2) (offset + 2 + sz); t = nal_type (inner ! 0)
             in learn_loop payload (offset + 2 + sz)
                  (if t = 7 \<and> fst sets = None then Some inner else fst sets, if t = 8 \<and> snd sets = None then Some inner else snd sets)
      else Some sets)"
  by pat_completeness auto
termination by (relation "measure (\<lambda>(payload, offset, _). length payload - offset)") auto

declare learn_loop.simps [simp del]

definition packet_sets :: "bytes \<Rightarrow> (bytes option \<times> bytes option) option" where
  "packet_sets payload =
     (if payload = [] then None
      else
        let t = nal_type (payload ! 0)
        in if t = 7 then Some (Some payload, None)
           else if t = 8 then Some (None, Some payload)
           else if t = 24 then learn_loop payload 1 (None, None)
           else Some (None, None))"

definition maybeLearnParameterSets :: "rtp_packet \<Rightarrow> Source \<Rightarrow> Source" where
  "maybeLearnParameterSets pkt s =
     (case packet_sets (rp_Payload pkt) of
        None \<Rightarrow> s
      | Some (sps, pps) \<Rightarrow>
          if sps = None \<and> pps = None then s
          else
            let t = (case src_videoTrack s of
                       Some t \<Rightarrow> t
                     | None \<Rightarrow> \<lparr>ti_Codec = ''H264'', ti_SPS = [], ti_PPS = [], ti_ClockRate = 90000, ti_ChannelCount = 0,
                                 ti_PayloadType = rp_PayloadType pkt, ti_IsVideo = True\<rparr>);
                t1 = (case sps of Some x \<Rightarrow> if ti_SPS t = [] then t\<lparr>ti_SPS := x\<rparr> else t | None \<Rightarrow> t);
                t2 = (case pps of Some x \<Rightarrow> if ti_PPS t1 = [] then t1\<lparr>ti_PPS := x\<rparr> else t1 | None \<Rightarrow> t1)
            in signalParamsReadyLocked (s\<lparr>src_videoTrack := Some t2\<rparr>))"

text \<open>The formats of a session description; an absent parameter set is empty.\<close>

datatype media_format =
    H264Format int int nalu nalu
  | MPEG4Audio int int "int option"
  | G711 int int bool int
  | OtherFormat

fun extract_track :: "media_format \<Rightarrow> Source \<Rightarrow> Source" where
  "extract_track (H264Format clock pt sps pps) s =
     s\<lparr>src_videoTrack := Some \<lparr>ti_Codec = ''H264'', ti_SPS = sps, ti_PPS = pps, ti_ClockRate = clock, ti_ChannelCount = 0,
         ti_PayloadType = pt, ti_IsVideo = True\<rparr>\<rparr>"
| "extract_track (MPEG4Audio clock pt config) s =
     (let channels = (case config of Some c \<Rightarrow> if c > 0 then (if c = 7 then 8 else c) else 1 | None \<Rightarrow> 1)
      in s\<lparr>src_audioTrack := Some \<lparr>ti_Codec = ''AAC'', ti_SPS = [], ti_PPS = [], ti_ClockRate = clock, ti_ChannelCount = channels,
         ti_PayloadType = pt, ti_IsVideo = False\<rparr>\<rparr>)"
| "extract_track (G711 clock pt muLaw channels) s =
     s\<lparr>src_audioTrack := Some \<lparr>ti_Codec = (if muLaw then ''PCMU'' else ''PCMA''), ti_SPS = [], ti_PPS = [], ti_ClockRate = clock,
         ti_ChannelCount = channels, ti_PayloadType = pt, ti_IsVideo = False\<rparr>\<rparr>"
| "extract_track OtherFormat s = s"

definition extractTracks :: "media_format list list \<Rightarrow> Source \<Rightarrow> Source" where
  "extractTracks medias s = signalParamsReadyLocked (fold extract_track (concat medias) s)"

section \<open>The latest group of pictures\<close>

function flags_loop :: "bytes \<Rightarrow> nat \<Rightarrow> bool \<times> bool \<Rightarrow> bool \<times> bool" where
  "flags_loop payload offset flags =
     (if offset + 2 \<le> length payload then
        let sz = nat (be (bslice payload offset (offset + 2)))
        in if sz < 1 \<or> offset + 2 + sz > length payload then flags
           else
             let t = nal_type (payload ! (offset + 2))
             in flags_loop payload (offset + 2 + sz) (fst flags \<or> t = 7, snd flags \<or> t = 5)
      else flags)"
  by pat_completeness auto
termination by (relation "measure (\<lambda>(payload, offset, _). length payload - offset)") auto

declare flags_loop.simps [simp del]

text \<open>Whether a packet starts a parameter set and whether it starts an IDR picture.\<close>

definition h264RandomAccessFlags :: "rtp_packet \<Rightarrow> bool \<times> bool" where
  "h264RandomAccessFlags pkt =
     (let payload = rp_Payload pkt
      in if payload = [] then (False, False)
         else
           let t = nal_type (payload ! 0)
           in if t = 5 then (False, True)
              else if t = 7 then (True, False)
              else if t = 24 then flags_loop payload 1 (False, False)
              else if t = 28 then
                (if length payload < 2 \<or> payload ! 1 AND 0x80 = 0 then (False, False)
                 else (nal_type (payload ! 1) = 7, nal_type (payload ! 1) = 5))
              else (False, False))"

definition clearLatestVideoGOP :: "Source \<Rightarrow> Source" where
  "clearLatestVideoGOP s = s\<lparr>src_latestGOP := [], src_gopBytes := 0, src_gopHasIDR := False, src_gopStartTS := 0\<rparr>"

definition cacheVideoPacket :: "rtp_packet \<Rightarrow> Source \<Rightarrow> Source" where
  "cacheVideoPacket pkt s =
     (case h264RandomAccessFlags pkt of
        (hasSPS, hasIDR) \<Rightarrow>
          let s1 = (if hasSPS \<or> hasIDR \<and> (src_latestGOP s = [] \<or> src_gopStartTS s \<noteq> rp_Timestamp pkt)
                    then s\<lparr>src_latestGOP := [], src_gopBytes := 0, src_gopHasIDR := False, src_gopStartTS := rp_Timestamp pkt\<rparr> else s)
          in if src_latestGOP s1 = [] \<and> \<not> hasSPS \<and> \<not> hasIDR then s1
             else
               let packetBytes = length (rp_Payload pkt) + 64
               in if length (src_latestGOP s1) + 1 > maxCachedGOPPackets \<or> src_gopBytes s1 + packetBytes > maxCachedGOPBytes
                  then clearLatestVideoGOP s1
                  else s1\<lparr>src_latestGOP := src_latestGOP s1 @ [pkt], src_gopBytes := src_gopBytes s1 + packetBytes,
                          src_gopHasIDR := (src_gopHasIDR s1 \<or> hasIDR)\<rparr>)"

definition LatestVideoGOP :: "Source \<Rightarrow> rtp_packet list" where
  "LatestVideoGOP s = (if \<not> src_gopHasIDR s \<or> src_latestGOP s = [] then [] else src_latestGOP s)"

section \<open>Consumers\<close>

definition AddConsumer :: "nat \<Rightarrow> Source \<Rightarrow> Source" where
  "AddConsumer c s = s\<lparr>src_consumers := src_consumers s @ [c]\<rparr>"

definition RemoveConsumer :: "nat \<Rightarrow> Source \<Rightarrow> Source" where
  "RemoveConsumer c s = s\<lparr>src_consumers := remove1 c (src_consumers s)\<rparr>"

definition HasConsumer :: "nat \<Rightarrow> Source \<Rightarrow> bool" where
  "HasConsumer c s = (c \<in> set (src_consumers s))"

definition ConsumerCount :: "Source \<Rightarrow> nat" where
  "ConsumerCount s = length (src_consumers s)"

definition snapshotConsumers :: "Source \<Rightarrow> nat list" where
  "snapshotConsumers s = src_consumers s"

definition deliver :: "nat \<Rightarrow> bool \<Rightarrow> Source \<Rightarrow> Source" where
  "deliver c panicked s = (if panicked then RemoveConsumer c (s\<lparr>src_consumerPanics := src_consumerPanics s + 1\<rparr>) else s)"

text \<open>What other goroutines do to the registrations while a callback runs.\<close>

datatype registration = Attach nat | Detach nat

fun register :: "registration \<Rightarrow> Source \<Rightarrow> Source" where
  "register (Attach c) s = AddConsumer c s"
| "register (Detach c) s = RemoveConsumer c s"

text \<open>The callbacks of a snapshot in turn: \<open>panics i\<close> is the outcome of the \<open>i\<close>th.\<close>

fun deliver_all :: "(nat \<Rightarrow> registration list) \<Rightarrow> (nat \<Rightarrow> bool) \<Rightarrow> nat list \<Rightarrow> Source \<Rightarrow> Source" where
  "deliver_all others panics [] s = s"
| "deliver_all others panics (c # cs) s =
     deliver_all (\<lambda>i. others (Suc i)) (\<lambda>i. panics (Suc i)) cs (deliver c (panics 0) (fold register (others 0) s))"

definition fanOutVideo :: "(nat \<Rightarrow> registration list) \<Rightarrow> (nat \<Rightarrow> bool) \<Rightarrow> rtp_packet \<Rightarrow> Source \<Rightarrow> Source" where
  "fanOutVideo others panics pkt s =
     (let s1 = cacheVideoPacket pkt (maybeLearnParameterSets pkt s) in deliver_all others panics (snapshotConsumers s1) s1)"

definition fanOutAudio :: "(nat \<Rightarrow> registration list) \<Rightarrow> (nat \<Rightarrow> bool) \<Rightarrow> Source \<Rightarrow> Source" where
  "fanOutAudio others panics s = deliver_all others panics (snapshotConsumers s) s"

text \<open>\<open>ReattachIfDetached\<close>: the consumer to keep and whether it is a new one; \<open>rebuilt\<close> is what \<open>rebuild\<close> returns.\<close>

definition ReattachIfDetached :: "nat option \<Rightarrow> nat \<Rightarrow> Source \<Rightarrow> (nat \<times> bool) \<times> Source" where
  "ReattachIfDetached rebuilt current s =
     (if HasConsumer current s then ((current, False), s)
      else case rebuilt of None \<Rightarrow> ((current, False), s) | Some next \<Rightarrow> ((next, True), AddConsumer next s))"

section \<open>Health\<close>

definition onDemandFaultThreshold :: nat where "onDemandFaultThreshold = 3"
definition failureLogInterval :: duration where "failureLogInterval = 5 * Minute"

record SourceHealth =
  sh_Connected :: bool
  sh_LastConnected :: gotime
  sh_LastAttempt :: gotime
  sh_LastError :: string
  sh_Unpublished :: bool
  sh_ConsecutiveFailures :: nat

definition source_Health :: "Source \<Rightarrow> SourceHealth" where
  "source_Health s =
     \<lparr>sh_Connected = src_connected s, sh_LastConnected = src_lastConnected s, sh_LastAttempt = src_lastAttempt s,
      sh_LastError = src_lastErr s, sh_Unpublished = src_unpublished s, sh_ConsecutiveFailures = src_failures s\<rparr>"

definition Faulted :: "SourceHealth \<Rightarrow> bool" where
  "Faulted h = (\<not> sh_Connected h \<and> \<not> sh_Unpublished h \<and> sh_LastError h \<noteq> [] \<and> sh_ConsecutiveFailures h \<ge> onDemandFaultThreshold)"

text \<open>An error of the client library: its text and, for a bad status code, the code.\<close>

record rtsp_error =
  re_text :: string
  re_status :: "int option"

definition streamUnpublished :: "rtsp_error \<Rightarrow> bool" where
  "streamUnpublished e = (re_status e = Some 404)"

text \<open>\<^verbatim>\<open>strings.ReplaceAll\<close> for a non-empty old string.\<close>

function ReplaceAll :: "string \<Rightarrow> string \<Rightarrow> string \<Rightarrow> string" where
  "ReplaceAll old new s =
     (if old = [] \<or> s = [] then s
      else if hasPrefix s old then new @ ReplaceAll old new (drop (length old) s)
      else hd s # ReplaceAll old new (tl s))"
  by pat_completeness auto
termination by (relation "measure (\<lambda>(old, new, s). length s)") auto

declare ReplaceAll.simps [simp del]

text \<open>What \<^verbatim>\<open>net/url\<close> makes of an address: the address for logs, and the user information as it prints, its name and password.\<close>

record url_lib =
  ul_SanitizeURL :: "string \<Rightarrow> string"
  ul_User :: "string \<Rightarrow> (string \<times> string \<times> string option) option"

definition redactCredentials :: "url_lib \<Rightarrow> string \<Rightarrow> string \<Rightarrow> string" where
  "redactCredentials lib msg rawURL =
     (if msg = [] \<or> rawURL = [] then msg
      else
        let msg1 = ReplaceAll rawURL (ul_SanitizeURL lib rawURL) msg
        in case ul_User lib rawURL of
             None \<Rightarrow> msg1
           | Some (text, name, pw) \<Rightarrow>
               let msg2 = ReplaceAll (text @ ''@'') ''***:***@'' msg1
               in case pw of None \<Rightarrow> msg2 | Some p \<Rightarrow> ReplaceAll (name @ '':'' @ p @ ''@'') ''***:***@'' msg2)"

definition recordAttempt :: "url_lib \<Rightarrow> gotime \<Rightarrow> gotime \<Rightarrow> rtsp_error option \<Rightarrow> Source \<Rightarrow> Source" where
  "recordAttempt lib now start err s =
     (let s1 = s\<lparr>src_lastAttempt := now\<rparr>
      in if tafter (src_lastConnected s1) start
         then s1\<lparr>src_failures := 0, src_lastErr := [], src_unpublished := False, src_lastWarn := zeroTime\<rparr>
         else
           let s2 = s1\<lparr>src_failures := src_failures s1 + 1\<rparr>
           in case err of
                None \<Rightarrow> s2
              | Some e \<Rightarrow> s2\<lparr>src_lastErr := redactCredentials lib (re_text e) (src_url s2), src_unpublished := streamUnpublished e\<rparr>)"

definition shouldLogFailure :: "gotime \<Rightarrow> Source \<Rightarrow> bool \<times> Source" where
  "shouldLogFailure now s =
     (if \<not> isZero (src_lastWarn s) \<and> tsub now (src_lastWarn s) < failureLogInterval then (False, s) else (True, s\<lparr>src_lastWarn := now\<rparr>))"

definition AddReconnectSink :: "nat \<Rightarrow> Source \<Rightarrow> Source" where
  "AddReconnectSink sink s =
     (if sink \<in> set (src_reconnectSinks s) then s else s\<lparr>src_reconnectSinks := src_reconnectSinks s @ [sink]\<rparr>)"

text \<open>The counters outlive the source; the disconnection also tells every consumer.\<close>

definition notifyDisconnect :: "(nat \<Rightarrow> registration list) \<Rightarrow> (nat \<Rightarrow> bool) \<Rightarrow> Source \<times> (nat \<Rightarrow> nat) \<Rightarrow> Source \<times> (nat \<Rightarrow> nat)" where
  "notifyDisconnect others panics st =
     (case st of
        (s, counters) \<Rightarrow>
          let wasConnected = (src_connected s \<and> \<not> src_onDemand s);
              s1 = clearLatestVideoGOP (s\<lparr>src_connected := False\<rparr>);
              s2 = (if wasConnected then s1\<lparr>src_reconnects := src_reconnects s1 + 1\<rparr> else s1);
              counters' = (if wasConnected then fold (\<lambda>k c. c(k := c k + 1)) (src_reconnectSinks s) counters else counters)
          in (deliver_all others panics (src_consumers s) s2, counters'))"

section \<open>The cache holds whole groups\<close>

definition starts_SPS :: "rtp_packet \<Rightarrow> bool" where "starts_SPS p = fst (h264RandomAccessFlags p)"
definition starts_IDR :: "rtp_packet \<Rightarrow> bool" where "starts_IDR p = snd (h264RandomAccessFlags p)"

text \<open>
  A group opens with parameter sets or an IDR picture, and no later packet opens another one: a later IDR
  packet belongs to the picture of the first packet.
\<close>

definition is_group :: "rtp_packet list \<Rightarrow> bool" where
  "is_group g \<longleftrightarrow> g \<noteq> [] \<and> (starts_SPS (hd g) \<or> starts_IDR (hd g)) \<and>
     (\<forall>p\<in>set (tl g). \<not> starts_SPS p \<and> (starts_IDR p \<longrightarrow> rp_Timestamp p = rp_Timestamp (hd g)))"

definition gop_bytes :: "rtp_packet list \<Rightarrow> nat" where
  "gop_bytes g = sum_list (map (\<lambda>p. length (rp_Payload p) + 64) g)"

definition fits_cache :: "rtp_packet list \<Rightarrow> bool" where
  "fits_cache g \<longleftrightarrow> length g \<le> maxCachedGOPPackets \<and> gop_bytes g \<le> maxCachedGOPBytes"

definition cache_ok :: "rtp_packet list \<Rightarrow> Source \<Rightarrow> bool" where
  "cache_ok ps s \<longleftrightarrow> src_gopBytes s = gop_bytes (src_latestGOP s) \<and> fits_cache (src_latestGOP s) \<and>
     (\<exists>pre. ps = pre @ src_latestGOP s) \<and> src_gopHasIDR s = list_ex starts_IDR (src_latestGOP s) \<and>
     (src_latestGOP s \<noteq> [] \<longrightarrow> is_group (src_latestGOP s) \<and> src_gopStartTS s = rp_Timestamp (hd (src_latestGOP s)))"

lemma gop_bytes_simps [simp]: "gop_bytes [] = 0" "gop_bytes (g @ [p]) = gop_bytes g + (length (rp_Payload p) + 64)"
  by (simp_all add: gop_bytes_def)

lemma fits_empty [simp]: "fits_cache []"
  by (simp add: fits_cache_def)

lemma clear_cache_ok: "cache_ok ps (clearLatestVideoGOP s)"
  by (simp add: cache_ok_def clearLatestVideoGOP_def)

lemma is_group_snoc:
  "g \<noteq> [] \<Longrightarrow> is_group (g @ [p]) \<longleftrightarrow> is_group g \<and> \<not> starts_SPS p \<and> (starts_IDR p \<longrightarrow> rp_Timestamp p = rp_Timestamp (hd g))"
  by (cases g) (auto simp: is_group_def)

lemma is_group_single: "is_group [p] \<longleftrightarrow> starts_SPS p \<or> starts_IDR p"
  by (simp add: is_group_def)

text \<open>The three things a packet can do to the cache.\<close>

lemma cacheVideoPacket_eq:
  "cacheVideoPacket pkt s =
     (let s1 = (if starts_SPS pkt \<or> starts_IDR pkt \<and> (src_latestGOP s = [] \<or> src_gopStartTS s \<noteq> rp_Timestamp pkt)
                then s\<lparr>src_latestGOP := [], src_gopBytes := 0, src_gopHasIDR := False, src_gopStartTS := rp_Timestamp pkt\<rparr> else s)
      in if src_latestGOP s1 = [] \<and> \<not> starts_SPS pkt \<and> \<not> starts_IDR pkt then s1
         else if length (src_latestGOP s1) + 1 > maxCachedGOPPackets \<or> src_gopBytes s1 + (length (rp_Payload pkt) + 64) > maxCachedGOPBytes
         then clearLatestVideoGOP s1
         else s1\<lparr>src_latestGOP := src_latestGOP s1 @ [pkt], src_gopBytes := src_gopBytes s1 + (length (rp_Payload pkt) + 64),
                 src_gopHasIDR := (src_gopHasIDR s1 \<or> starts_IDR pkt)\<rparr>)"
  by (cases "h264RandomAccessFlags pkt") (simp only: cacheVideoPacket_def starts_SPS_def starts_IDR_def fst_conv snd_conv prod.case Let_def)

lemma cache_extends:
  assumes "\<not> (starts_SPS p \<or> starts_IDR p \<and> (src_latestGOP s = [] \<or> src_gopStartTS s \<noteq> rp_Timestamp p))" and "src_latestGOP s \<noteq> []"
  shows "cacheVideoPacket p s =
    (if length (src_latestGOP s) + 1 > maxCachedGOPPackets \<or> src_gopBytes s + (length (rp_Payload p) + 64) > maxCachedGOPBytes
     then clearLatestVideoGOP s
     else s\<lparr>src_latestGOP := src_latestGOP s @ [p], src_gopBytes := src_gopBytes s + (length (rp_Payload p) + 64),
            src_gopHasIDR := (src_gopHasIDR s \<or> starts_IDR p)\<rparr>)"
  unfolding cacheVideoPacket_eq Let_def if_not_P[OF assms(1)] using assms(2) by simp

lemma cacheVideoPacket_ok:
  assumes "cache_ok ps s"
  shows "cache_ok (ps @ [p]) (cacheVideoPacket p s)"
proof (cases "starts_SPS p \<or> starts_IDR p \<and> (src_latestGOP s = [] \<or> src_gopStartTS s \<noteq> rp_Timestamp p)")
  case True
  then have "is_group [p]" by (auto simp: is_group_single)
  moreover have "cacheVideoPacket p s = clearLatestVideoGOP s \<or> cacheVideoPacket p s =
      s\<lparr>src_latestGOP := [p], src_gopBytes := length (rp_Payload p) + 64, src_gopHasIDR := starts_IDR p, src_gopStartTS := rp_Timestamp p\<rparr> \<and>
      fits_cache [p]"
    using True unfolding cacheVideoPacket_eq Let_def by (auto simp: clearLatestVideoGOP_def fits_cache_def gop_bytes_def)
  ultimately show ?thesis using clear_cache_ok by (auto simp: cache_ok_def gop_bytes_def)
next
  case cont: False
  show ?thesis
  proof (cases "src_latestGOP s = []")
    case True
    then have "cacheVideoPacket p s = s" using cont unfolding cacheVideoPacket_eq Let_def by simp
    then show ?thesis using assms True by (simp add: cache_ok_def)
  next
    case False
    then have g: "is_group (src_latestGOP s)" "src_gopStartTS s = rp_Timestamp (hd (src_latestGOP s))"
      using assms by (auto simp: cache_ok_def)
    then have "is_group (src_latestGOP s @ [p])" using cont False by (auto simp: is_group_snoc)
    moreover have "cacheVideoPacket p s = clearLatestVideoGOP s \<or> cacheVideoPacket p s =
        s\<lparr>src_latestGOP := src_latestGOP s @ [p], src_gopBytes := src_gopBytes s + (length (rp_Payload p) + 64),
          src_gopHasIDR := (src_gopHasIDR s \<or> starts_IDR p)\<rparr> \<and> fits_cache (src_latestGOP s @ [p])"
      using cache_extends[OF cont False] assms by (simp add: fits_cache_def cache_ok_def not_less)
    ultimately show ?thesis using assms False g clear_cache_ok by (auto simp: cache_ok_def)
  qed
qed

lemma cache_all_ok: "cache_ok ps s \<Longrightarrow> cache_ok (ps @ qs) (fold cacheVideoPacket qs s)"
proof (induction qs arbitrary: ps s)
  case (Cons q qs)
  then show ?case using cacheVideoPacket_ok[of ps s q] Cons.IH[of "ps @ [q]"] by simp
qed simp

text \<open>A group that opens with parameter sets replaces whatever the cache holds.\<close>

lemma cache_group:
  assumes "is_group (b # g)" and "starts_SPS b" and "fits_cache (b # g)"
  shows "src_latestGOP (fold cacheVideoPacket (b # g) s) = b # g \<and> src_gopStartTS (fold cacheVideoPacket (b # g) s) = rp_Timestamp b \<and>
    src_gopBytes (fold cacheVideoPacket (b # g) s) = gop_bytes (b # g) \<and>
    src_gopHasIDR (fold cacheVideoPacket (b # g) s) = list_ex starts_IDR (b # g)"
  using assms
proof (induction g rule: rev_induct)
  case Nil
  then show ?case unfolding fold_simps cacheVideoPacket_eq Let_def by (simp add: fits_cache_def gop_bytes_def)
next
  case (snoc p g)
  have "is_group (b # g)" "\<not> starts_SPS p" "starts_IDR p \<longrightarrow> rp_Timestamp p = rp_Timestamp b"
    using snoc.prems(1) is_group_snoc[of "b # g" p] by auto
  moreover have "gop_bytes ((b # g) @ [p]) \<le> maxCachedGOPBytes" "length ((b # g) @ [p]) \<le> maxCachedGOPPackets"
    using snoc.prems(3) by (auto simp: fits_cache_def)
  then have "fits_cache (b # g)" "gop_bytes (b # g) + (length (rp_Payload p) + 64) \<le> maxCachedGOPBytes" "length g + 2 \<le> maxCachedGOPPackets"
    by (auto simp: fits_cache_def simp del: append_Cons)
  moreover have "gop_bytes (b # g @ [p]) = gop_bytes (b # g) + (length (rp_Payload p) + 64)" using gop_bytes_simps(2)[of "b # g" p] by simp
  ultimately show ?case using snoc.IH snoc.prems(2) by (simp add: cacheVideoPacket_eq[of p] Let_def)
qed

text \<open>
  C22. The cached group of pictures: whatever packets arrived since the connection began, the group a new viewer gets
  is the end of the stream, opens with parameter sets or an IDR picture and opens no second one, has an IDR
  picture and stays within the limits; and whenever the stream ends with such a group that opens
  with parameter sets, the viewer gets exactly it.
\<close>

theorem latest_gop_is_the_last_group:
  "(let g = LatestVideoGOP (fold cacheVideoPacket ps (clearLatestVideoGOP s))
    in g \<noteq> [] \<longrightarrow> (\<exists>pre. ps = pre @ g) \<and> is_group g \<and> list_ex starts_IDR g \<and> fits_cache g) \<and>
   (ps = pre @ g \<and> is_group g \<and> starts_SPS (hd g) \<and> list_ex starts_IDR g \<and> fits_cache g \<longrightarrow>
      LatestVideoGOP (fold cacheVideoPacket ps (clearLatestVideoGOP s)) = g)"
proof -
  let ?s = "fold cacheVideoPacket ps (clearLatestVideoGOP s)"
  have "cache_ok ps ?s" using cache_all_ok[OF clear_cache_ok[of "[]"], of ps] by simp
  then have 1: "LatestVideoGOP ?s \<noteq> [] \<longrightarrow>
      (\<exists>pre. ps = pre @ LatestVideoGOP ?s) \<and> is_group (LatestVideoGOP ?s) \<and> list_ex starts_IDR (LatestVideoGOP ?s) \<and> fits_cache (LatestVideoGOP ?s)"
    unfolding cache_ok_def LatestVideoGOP_def by auto
  have 2: "LatestVideoGOP ?s = g" if h: "ps = pre @ g" "is_group g" "starts_SPS (hd g)" "list_ex starts_IDR g" "fits_cache g"
  proof -
    obtain b r where g: "g = b # r" using h(2) by (cases g) (auto simp: is_group_def)
    have "?s = fold cacheVideoPacket (b # r) (fold cacheVideoPacket pre (clearLatestVideoGOP s))" by (simp add: h(1) g)
    then show ?thesis using cache_group[of b r "fold cacheVideoPacket pre (clearLatestVideoGOP s)"] h(2-5)
      unfolding g LatestVideoGOP_def by simp
  qed
  show ?thesis unfolding Let_def using 1 2 by blast
qed

definition video_packet :: "int \<Rightarrow> bytes \<Rightarrow> rtp_packet" where
  "video_packet ts payload = \<lparr>rp_Timestamp = ts, rp_SequenceNumber = 0, rp_SSRC = 0, rp_PayloadType = 96, rp_Payload = payload\<rparr>"

theorem latest_gop_is_the_last_group_witness:
  "LatestVideoGOP (fold cacheVideoPacket
      [video_packet 0 [0x41, 1], video_packet 3000 [0x67, 1], video_packet 3000 [0x65, 1], video_packet 6000 [0x41, 2]]
      (clearLatestVideoGOP (newSource ''rtsp://door'' [] False))) =
    [video_packet 3000 [0x67, 1], video_packet 3000 [0x65, 1], video_packet 6000 [0x41, 2]]"
  using latest_gop_is_the_last_group[of "[video_packet 0 [0x41, 1], video_packet 3000 [0x67, 1], video_packet 3000 [0x65, 1], video_packet 6000 [0x41, 2]]"
      "newSource ''rtsp://door'' [] False" "[video_packet 0 [0x41, 1]]"
      "[video_packet 3000 [0x67, 1], video_packet 3000 [0x65, 1], video_packet 6000 [0x41, 2]]"]
  by (simp add: is_group_def starts_SPS_def starts_IDR_def h264RandomAccessFlags_def nal_type_def video_packet_def fits_cache_def gop_bytes_def
      maxCachedGOPBytes_def maxCachedGOPPackets_def)

section \<open>Waiting for the parameter sets\<close>

lemma params_usable_learn: "params_usable s \<Longrightarrow> params_usable (maybeLearnParameterSets pkt s)"
  by (auto simp: maybeLearnParameterSets_def params_usable_def signalParamsReadyLocked_def Let_def split: option.splits)

lemma ready_learn:
  assumes "src_paramsReady s = params_usable s"
  shows "src_paramsReady (maybeLearnParameterSets pkt s) = params_usable (maybeLearnParameterSets pkt s)"
proof -
  have sig: "src_paramsReady (signalParamsReadyLocked t) = params_usable (signalParamsReadyLocked t)"
    if "src_paramsReady t \<Longrightarrow> params_usable t" for t
    using that by (auto simp: signalParamsReadyLocked_def params_usable_def)
  have "src_paramsReady s \<Longrightarrow> params_usable (maybeLearnParameterSets pkt s)" using assms params_usable_learn by simp
  then show ?thesis using assms sig
    unfolding maybeLearnParameterSets_def Let_def
    by (auto split: option.splits prod.splits if_splits simp: signalParamsReadyLocked_def params_usable_def)
qed

lemma extract_track_ready: "src_paramsReady (fold extract_track fs s) = src_paramsReady s"
proof (induction fs arbitrary: s)
  case (Cons f fs)
  then show ?case by (cases f) (simp_all add: Let_def)
qed simp

lemma extractTracks_ready: "src_paramsReady (extractTracks medias s) \<longleftrightarrow> src_paramsReady s \<or> params_usable (extractTracks medias s)"
  by (auto simp: extractTracks_def signalParamsReadyLocked_def extract_track_ready params_usable_def)

lemma learn_all_ready:
  "src_paramsReady s = params_usable s \<Longrightarrow> src_paramsReady (fold maybeLearnParameterSets pkts s) = params_usable (fold maybeLearnParameterSets pkts s)"
  by (induction pkts arbitrary: s) (simp_all add: ready_learn)

lemma learn_keeps:
  assumes "src_videoTrack s = Some t" and "ti_SPS t \<noteq> []"
  shows "\<exists>t'. src_videoTrack (maybeLearnParameterSets pkt s) = Some t' \<and> ti_SPS t' = ti_SPS t \<and> (ti_PPS t \<noteq> [] \<longrightarrow> ti_PPS t' = ti_PPS t)"
  using assms by (auto simp: maybeLearnParameterSets_def signalParamsReadyLocked_def Let_def split: option.splits)

text \<open>
  C25. Waiting for parameter sets.  During the first connection \<open>WaitForVideoParams\<close> reports success exactly when the
  parameter sets are there, and the first ones stay.  After a reconnection to a camera whose description
  has no SPS it reports success at once although there is none: the channel was closed by the first
  connection and the description replaced the track.
\<close>

theorem params_wait_stale:
  assumes "s1 = fold maybeLearnParameterSets pkts (extractTracks medias (newSource url transport onDemand))"
    and "s2 = extractTracks [[H264Format clock pt [] pps]] s1"
  shows "(True \<in> set (WaitForVideoParams ctxDone s1) \<longleftrightarrow> params_usable s1) \<and>
    (params_usable s1 \<longrightarrow> True \<in> set (WaitForVideoParams ctxDone s2) \<and> WaitForVideoParams False s2 = [True] \<and>
       map_option ti_SPS (src_videoTrack s2) = Some [])"
proof -
  have "src_paramsReady (extractTracks medias (newSource url transport onDemand)) = params_usable (extractTracks medias (newSource url transport onDemand))"
    using extractTracks_ready[of medias "newSource url transport onDemand"] by (simp add: newSource_def)
  from learn_all_ready[OF this, of pkts] have r: "src_paramsReady s1 = params_usable s1" by (simp add: assms(1))
  moreover have "src_paramsReady s2 = src_paramsReady s1" "\<not> params_usable s2" "map_option ti_SPS (src_videoTrack s2) = Some []"
    by (simp_all add: assms(2) extractTracks_def signalParamsReadyLocked_def params_usable_def)
  ultimately show ?thesis by (simp add: WaitForVideoParams_def)
qed

theorem params_wait_stale_witness:
  "let s1 = fold maybeLearnParameterSets [video_packet 0 [0x67, 0x42, 0, 0x1E], video_packet 0 [0x68, 1]]
         (extractTracks [[H264Format 90000 96 [] []]] (newSource ''rtsp://door'' [] False));
       s2 = extractTracks [[H264Format 90000 96 [] []]] s1
   in params_usable s1 \<and> WaitForVideoParams False s2 = [True] \<and> map_option ti_SPS (src_videoTrack s2) = Some []"
proof -
  let ?s1 = "fold maybeLearnParameterSets [video_packet 0 [0x67, 0x42, 0, 0x1E], video_packet 0 [0x68, 1]]
         (extractTracks [[H264Format 90000 96 [] []]] (newSource ''rtsp://door'' [] False))"
  have "params_usable ?s1"
    by (simp add: maybeLearnParameterSets_def packet_sets_def video_packet_def nal_type_def extractTracks_def signalParamsReadyLocked_def
        params_usable_def newSource_def)
  then show ?thesis using params_wait_stale[OF refl, of "extractTracks [[H264Format 90000 96 [] []]] ?s1"]
    unfolding Let_def by blast
qed

section \<open>Fan-out\<close>

definition untouched :: "nat \<Rightarrow> registration list \<Rightarrow> bool" where
  "untouched c rs \<longleftrightarrow> Attach c \<notin> set rs \<and> Detach c \<notin> set rs"

lemma count_remove1: "count_list (remove1 a xs) c = count_list xs c - (if a = c then 1 else 0)"
  by (induction xs) auto

lemma register_count: "untouched c rs \<Longrightarrow> count_list (src_consumers (fold register rs s)) c = count_list (src_consumers s) c"
proof (induction rs arbitrary: s)
  case (Cons r rs)
  then show ?case by (cases r) (auto simp: untouched_def AddConsumer_def RemoveConsumer_def count_remove1)
qed simp

text \<open>The panics of one consumer among the callbacks of a snapshot.\<close>

definition panics_of :: "nat \<Rightarrow> (nat \<Rightarrow> bool) \<Rightarrow> nat list \<Rightarrow> nat" where
  "panics_of c panics cs = length (filter (\<lambda>i. cs ! i = c \<and> panics i) [0..<length cs])"

lemma panics_of_Cons: "panics_of c panics (a # cs) = (if a = c \<and> panics 0 then 1 else 0) + panics_of c (\<lambda>i. panics (Suc i)) cs"
  unfolding panics_of_def by (simp add: upt_conv_Cons map_Suc_upt[symmetric] filter_map o_def del: upt_Suc)

lemma deliver_all_count:
  assumes "\<forall>i<length cs. untouched c (others i)"
  shows "count_list (src_consumers (deliver_all others panics cs s)) c = count_list (src_consumers s) c - panics_of c panics cs"
  using assms
proof (induction others panics cs s rule: deliver_all.induct)
  case (1 others panics s)
  then show ?case by (simp add: panics_of_def)
next
  case (2 others panics a cs s)
  have u: "untouched c (others 0)" "\<forall>i<length cs. untouched c (others (Suc i))" using "2.prems" by auto
  show ?case using "2.IH"[OF u(2)] register_count[OF u(1), of s]
    by (simp add: deliver_def RemoveConsumer_def count_remove1 panics_of_Cons)
qed

text \<open>
  A packet reaches every consumer of the snapshot and a panic costs only its own registration: after the fan-out a
  consumer that nobody else attached or detached meanwhile has lost exactly as many registrations as its
  callbacks panicked.
\<close>

lemma fanOutVideo_consumers:
  assumes "\<forall>i<length (src_consumers s). untouched c (others i)"
  shows "count_list (src_consumers (fanOutVideo others panics pkt s)) c = count_list (src_consumers s) c - panics_of c panics (src_consumers s)"
proof -
  have "src_consumers (cacheVideoPacket pkt (maybeLearnParameterSets pkt s)) = src_consumers s"
    unfolding cacheVideoPacket_eq Let_def
    by (auto simp: clearLatestVideoGOP_def maybeLearnParameterSets_def signalParamsReadyLocked_def Let_def split: option.splits)
  then show ?thesis using deliver_all_count[of "src_consumers s" c others panics "cacheVideoPacket pkt (maybeLearnParameterSets pkt s)"] assms
    by (simp add: fanOutVideo_def snapshotConsumers_def Let_def)
qed

end
