(* ===== verification/Float_Rounding.thy ===== *)
theory Float_Rounding
  imports Go_Float
begin

text \<open>
  Facts about rounding to \<^verbatim>\<open>float64\<close>: the exponent brackets its argument, numbers of at most 53 bits are exact,
  and a product with a fraction below one stays below the other factor.
\<close>

lemma pow2_powi: "pow2 e = 2 powi e"
  by (simp only: pow2_def power_int_def power_inverse divide_inverse mult_1_left)

lemma pow2_mono: "a \<le> b \<Longrightarrow> pow2 a \<le> pow2 b"
  by (simp add: pow2_powi power_int_increasing)

lemma pow2_less: "pow2 a < pow2 b \<Longrightarrow> a < b"
  using pow2_mono[of b a] by linarith

lemma pow2_add: "pow2 (a + b) = pow2 a * pow2 b"
  by (simp add: pow2_powi power_int_add)

lemma pow2_nat: "pow2 (int n) = 2 ^ n"
  by (simp add: pow2_def)

lemma bitlen_bracket:
  assumes "0 < (p::int)"
  shows "pow2 (bitlen p - 1) \<le> of_int p \<and> of_int p < pow2 (bitlen p)"
proof -
  have b: "1 \<le> bitlen p" using assms by (simp add: bitlen_alt_def)
  then have p: "pow2 (bitlen p - 1) = of_int (2 ^ nat (bitlen p - 1))" "pow2 (bitlen p) = of_int (2 ^ nat (bitlen p))"
    by (simp_all add: pow2_def)
  show ?thesis unfolding p of_int_le_iff of_int_less_iff by (rule bitlen_bounds[OF assms])
qed

lemma exponent_bracket:
  assumes "0 < x"
  shows "pow2 (exponent x) \<le> x \<and> x < pow2 (exponent x + 1)"
proof -
  obtain p q where pq: "quotient_of x = (p, q)" by fastforce
  have q: "0 < q" using quotient_of_denom_pos[OF pq] .
  have x: "x = of_int p / of_int q" using quotient_of_div[OF pq] .
  then have "0 < p" using assms q by (simp add: zero_less_divide_iff)
  note bp = bitlen_bracket[OF this] and bq = bitlen_bracket[OF q]
  let ?d = "bitlen p - bitlen q"
  have "pow2 (?d - 1) * of_int q \<le> pow2 (?d - 1) * pow2 (bitlen q)" using bq by (simp add: less_imp_le)
  also have "\<dots> = pow2 (bitlen p - 1)" by (simp add: pow2_add[symmetric])
  finally have lo: "pow2 (?d - 1) \<le> x" using bp q by (simp add: x pos_le_divide_eq)
  have "pow2 (?d + 1) * pow2 (bitlen q - 1) \<le> pow2 (?d + 1) * of_int q" using bq by simp
  moreover have "pow2 (?d + 1) * pow2 (bitlen q - 1) = pow2 (bitlen p)" by (simp add: pow2_add[symmetric])
  ultimately have hi: "x < pow2 (?d + 1)" using bp q by (simp add: x pos_divide_less_eq)
  show ?thesis using lo hi by (auto simp: exponent_def pq Let_def)
qed

lemma round_even_int [simp]: "round_even (of_int n) = n"
  by (simp add: round_even_def)

lemma round_even_le: "y < of_int n + 1 / 2 \<Longrightarrow> round_even y \<le> n"
proof -
  assume y: "y < of_int n + 1 / 2"
  then have "\<lfloor>y\<rfloor> \<le> n" by (simp add: floor_le_iff)
  moreover have "y - of_int \<lfloor>y\<rfloor> < 1 / 2" if "\<lfloor>y\<rfloor> = n" using y that by simp
  ultimately show ?thesis by (fastforce simp: round_even_def Let_def)
qed

lemma fl64_exact:
  assumes "x = of_int m * pow2 e" and "0 \<le> m" and "m < 2 ^ 53"
  shows "fl64 x = x"
proof (cases "m = 0")
  case False
  then have m: "0 < m" using assms(2) by simp
  then have x: "0 < x" by (simp add: assms(1))
  have "of_int m < pow2 53" using assms(3) of_int_less_iff[of m "2 ^ 53", where 'a = rat] by (simp add: pow2_def)
  then have "x < pow2 (53 + e)" unfolding assms(1) pow2_add by (rule mult_strict_right_mono) simp
  then have "exponent x < 53 + e" using exponent_bracket[OF x] by (intro pow2_less) linarith
  then have "e = exponent x - 52 + int (nat (e - (exponent x - 52)))" by simp
  then obtain k where k: "e = exponent x - 52 + int k" by blast
  define p where "p = pow2 (exponent x - 52)"
  have p: "0 < p" by (simp add: p_def)
  have xp: "x = of_int (m * 2 ^ k) * p" using assms(1) unfolding k pow2_add[of "exponent x - 52"] pow2_nat p_def[symmetric] by simp
  then have "x / p = of_int (m * 2 ^ k)" using p by simp
  then have "round_even (x / p) = m * 2 ^ k" by (simp only: round_even_int)
  then have "of_int (round_even (x / p)) * p = x" by (simp only: xp[symmetric])
  then show ?thesis using x by (simp add: fl64_def Let_def p_def)
qed (simp add: assms(1))

lemma float_of_int_exact: "0 \<le> n \<Longrightarrow> n < 2 ^ 53 \<Longrightarrow> float_of_int n = of_int n"
  unfolding float_of_int_def by (rule fl64_exact[of _ n 0]) (simp_all add: pow2_def)

text \<open>A product with a fraction \<open>k / 2 ^ 53\<close>, the values of \<^verbatim>\<open>rand.Float64\<close>.\<close>

lemma fl64_fraction:
  assumes "0 < h" and "h < 2 ^ 53" and "0 \<le> k" and "k < 2 ^ 53"
  shows "fl64 (of_int k / 2 ^ 53 * of_int h) < of_int h"
proof (cases "k = 0")
  case False
  let ?H = "of_int h :: rat"
  define x where "x = of_int k / 2 ^ 53 * ?H"
  have x: "0 < x" using False assms by (simp add: x_def)
  have xle: "x \<le> ?H - ?H / 2 ^ 53"
  proof -
    have "of_int k \<le> (of_int (2 ^ 53 - 1) :: rat)" using assms(4) unfolding of_int_le_iff by simp
    then have "of_int k / 2 ^ 53 \<le> (1 - 1 / 2 ^ 53 :: rat)" by (simp add: field_simps)
    then have "x \<le> (1 - 1 / 2 ^ 53) * ?H" using assms(1) unfolding x_def by (intro mult_right_mono) simp_all
    then show ?thesis by (simp add: algebra_simps)
  qed
  define E where "E = exponent x"
  define u where "u = pow2 (E - 52)"
  have u: "0 < u" by (simp add: u_def)
  have br: "pow2 E \<le> x" "x < pow2 (E + 1)" using exponent_bracket[OF x] by (simp_all add: E_def)
  have uE: "pow2 E = 2 ^ 52 * u" "pow2 (E + 1) = 2 ^ 53 * u"
    using pow2_add[of "int 52" "E - 52"] pow2_add[of "int 53" "E - 52"] unfolding pow2_nat by (simp_all add: u_def algebra_simps)
  have fl: "fl64 x = of_int (round_even (x / u)) * u" unfolding fl64_def u_def E_def Let_def abs_of_pos[OF x] using x by (simp only: if_not_P less_imp_neq[THEN not_sym] if_False)
  have "\<exists>n. x / u < of_int n + 1 / 2 \<and> of_int n * u < ?H"
  proof (cases "2 ^ 53 * u \<le> ?H")
    case True
    show ?thesis
    proof (cases "2 ^ 53 * u = ?H")
      case True
      have "x \<le> 2 ^ 53 * u - u" using xle unfolding True[symmetric] by simp
      then have "x / u \<le> 2 ^ 53 - 1" using u by (simp add: pos_divide_le_eq algebra_simps)
      then have "x / u < of_int (2 ^ 53 - 1) + 1 / 2" by (simp only: of_int_diff of_int_power of_int_numeral of_int_1)
      moreover have "of_int (2 ^ 53 - 1) * u < ?H" using True u by (simp add: algebra_simps)
      ultimately show ?thesis by blast
    next
      case False
      then have "2 ^ 53 * u < ?H" using True by simp
      moreover have "x / u < 2 ^ 53" using br(2) u uE by (simp add: pos_divide_less_eq)
      then have "x / u < of_int (2 ^ 53) + 1 / 2" by (simp only: of_int_power of_int_numeral)
      ultimately show ?thesis by (intro exI[of _ "2 ^ 53"] conjI) simp_all
    qed
  next
    case False
    have "pow2 E < pow2 53" using br(1) xle assms(1,2) of_int_less_iff[of h "2 ^ 53", where 'a = rat]
      by (simp add: pow2_def)
    then have "E \<le> 52" using pow2_less by fastforce
    then obtain d where d: "52 - E = int d" using zero_le_imp_eq_int[of "52 - E"] by auto
    have "pow2 (E - 52) * pow2 (int d) = 1" unfolding pow2_add[symmetric] d[symmetric] by (simp add: pow2_def)
    then have Hn: "?H = of_int (h * 2 ^ d) * u" by (simp add: u_def pow2_nat mult.assoc mult.commute)
    have "0 < ?H / 2 ^ 53" using assms(1) by simp
    then have "2 ^ 52 * u < ?H" using br(1) uE xle by linarith
    then have "u / 2 < ?H / 2 ^ 53" by (simp add: field_simps)
    moreover have half: "(of_int (h * 2 ^ d - 1) + 1 / 2) * u = ?H - u / 2" unfolding Hn of_int_diff by (simp add: left_diff_distrib distrib_right)
    ultimately have "x < (of_int (h * 2 ^ d - 1) + 1 / 2) * u" using xle by linarith
    then have "x / u < of_int (h * 2 ^ d - 1) + 1 / 2" using u by (simp add: pos_divide_less_eq)
    moreover have "of_int (h * 2 ^ d - 1) * u < ?H" using half u unfolding distrib_right by linarith
    ultimately show ?thesis by blast
  qed
  then obtain n where n: "x / u < of_int n + 1 / 2" "of_int n * u < ?H" by blast
  have "of_int (round_even (x / u)) * u \<le> of_int n * u" using round_even_le[OF n(1)] u by simp
  then show ?thesis using fl n(2) unfolding x_def by simp
qed (use assms in simp)

end
