(* ===== verification/Rtsp_Hub.thy ===== *)
theory Rtsp_Hub
  imports Rtsp_Source Float_Rounding
begin

text \<open>
  \<^verbatim>\<open>internal/rtsp/hub.go\<close>, the loop \<open>Connect\<close> of \<^verbatim>\<open>internal/rtsp/source.go\<close> and \<^verbatim>\<open>internal/backoff\<close>: how long a source waits
  between attempts, what one pass of the loop does, and the hub that shares one source per address.
\<close>

section \<open>Waiting between attempts\<close>

definition onDemandRetry :: duration where "onDemandRetry = 3 * Second"
definition maxBackoff :: duration where "maxBackoff = 2 * Minute"

text \<open>\<^verbatim>\<open>time.Duration(f)\<close> of a value in range.\<close>

definition duration_of :: "float64 \<Rightarrow> duration" where
  "duration_of x = (if 0 \<le> x then \<lfloor>x\<rfloor> else \<lceil>x\<rceil>)"

definition Jitter :: "duration \<Rightarrow> float64 \<Rightarrow> duration" where
  "Jitter d r = (if d \<le> 0 then d else d div 2 + duration_of (fmul r (float_of_int (d div 2))))"

definition next_backoff :: "duration \<Rightarrow> duration" where
  "next_backoff b = min (duration_of (fmul (float_of_int b) (3 / 2))) maxBackoff"

section \<open>One pass of the loop\<close>

text \<open>
  An attempt: the description it got, the time at which it reached PLAY and the error it ended with.  What
  happens to the source while it plays, packets and registrations, is \<open>cp_while\<close>.
\<close>

datatype source_event =
    Video "nat \<Rightarrow> registration list" "nat \<Rightarrow> bool" rtp_packet
  | Audio "nat \<Rightarrow> registration list" "nat \<Rightarrow> bool"
  | Registration registration
  | Sink nat

fun on_event :: "source_event \<Rightarrow> Source \<Rightarrow> Source" where
  "on_event (Video others panics pkt) s = fanOutVideo others panics pkt s"
| "on_event (Audio others panics) s = fanOutAudio others panics s"
| "on_event (Registration r) s = register r s"
| "on_event (Sink k) s = AddReconnectSink k s"

record connect_pass =
  cp_start :: gotime
  cp_medias :: "media_format list list option"
  cp_played :: "gotime option"
  cp_while :: "source_event list"
  cp_err :: "rtsp_error option"
  cp_now :: gotime
  cp_logTime :: gotime
  cp_others :: "nat \<Rightarrow> registration list"
  cp_panics :: "nat \<Rightarrow> bool"
  cp_frac :: float64

definition play :: "gotime \<Rightarrow> Source \<Rightarrow> Source" where
  "play t s = s\<lparr>src_connected := True, src_lastConnected := t\<rparr>"

definition connectOnce :: "connect_pass \<Rightarrow> Source \<Rightarrow> rtsp_error option \<times> Source" where
  "connectOnce p s =
     (let s1 = (case cp_medias p of None \<Rightarrow> s | Some m \<Rightarrow> extractTracks m s)
      in (cp_err p, case cp_played p of None \<Rightarrow> s1 | Some t \<Rightarrow> fold on_event (cp_while p) (play t s1)))"

text \<open>The log line of a pass: only a failure that is due one is stamped.\<close>

definition log_attempt :: "gotime \<Rightarrow> rtsp_error option \<Rightarrow> Source \<Rightarrow> Source" where
  "log_attempt now err s =
     (if src_onDemand s \<and> \<not> Faulted (source_Health s) then s
      else if src_onDemand s \<or> err \<noteq> None then snd (shouldLogFailure now s)
      else s)"

text \<open>The rest of a pass of \<open>Connect\<close> that was not cancelled: the time to wait and the state after it.\<close>

definition finish_pass :: "url_lib \<Rightarrow> connect_pass \<Rightarrow> rtsp_error option \<Rightarrow> duration \<Rightarrow> Source \<times> (nat \<Rightarrow> nat) \<Rightarrow>
    duration \<times> duration \<times> Source \<times> (nat \<Rightarrow> nat)" where
  "finish_pass lib p err b st =
     (let s1 = recordAttempt lib (cp_now p) (cp_start p) err (fst st);
          b1 = (if err = None then Second else b);
          wait = (if src_onDemand s1 then onDemandRetry else b1);
          st' = notifyDisconnect (cp_others p) (cp_panics p) (log_attempt (cp_logTime p) err s1, snd st)
      in (Jitter wait (cp_frac p), if src_onDemand s1 then b1 else next_backoff b1, st'))"

definition Connect_pass :: "url_lib \<Rightarrow> connect_pass \<Rightarrow> duration \<times> Source \<times> (nat \<Rightarrow> nat) \<Rightarrow> duration \<times> duration \<times> Source \<times> (nat \<Rightarrow> nat)" where
  "Connect_pass lib p st =
     (case st of (b, s, counters) \<Rightarrow> case connectOnce p s of (err, s1) \<Rightarrow> finish_pass lib p err b (s1, counters))"

text \<open>The loop over a list of passes, with the times it waited.\<close>

fun Connect :: "url_lib \<Rightarrow> connect_pass list \<Rightarrow> duration \<times> Source \<times> (nat \<Rightarrow> nat) \<Rightarrow> duration list \<times> duration \<times> Source \<times> (nat \<Rightarrow> nat)" where
  "Connect lib [] st = ([], st)"
| "Connect lib (p # ps) st =
     (case Connect_pass lib p st of (wait, st1) \<Rightarrow> case Connect lib ps st1 of (waits, st2) \<Rightarrow> (wait # waits, st2))"

definition initial_backoff :: duration where "initial_backoff = 5 * Second"

section \<open>Bounds of the waiting time\<close>

text \<open>The fractions \<^verbatim>\<open>rand.Float64\<close> returns.\<close>

definition rand_fraction :: "float64 \<Rightarrow> bool" where
  "rand_fraction f \<longleftrightarrow> (\<exists>k::int. 0 \<le> k \<and> k < 2 ^ 53 \<and> f = of_int k / 2 ^ 53)"

lemma Jitter_range:
  assumes "rand_fraction f" and "0 < d" and "d < 2 ^ 53"
  shows "d div 2 \<le> Jitter d f \<and> (1 < d \<longrightarrow> Jitter d f < d)"
proof -
  obtain k :: int where k: "0 \<le> k" "k < 2 ^ 53" "f = of_int k / 2 ^ 53" using assms(1) by (auto simp: rand_fraction_def)
  let ?h = "d div 2"
  have h: "0 \<le> ?h" "?h < 2 ^ 53" using assms(2,3) by auto
  have j: "Jitter d f = ?h + duration_of (fl64 (f * of_int ?h))" using assms(2) using float_of_int_exact[OF h] by (simp add: Jitter_def fmul_def)
  have nn: "0 \<le> fl64 (f * of_int ?h)" using k h by (intro fl64_nonneg) simp
  have "fl64 (f * of_int ?h) < of_int ?h" if "1 < d"
    unfolding k(3) using that k(1,2) h(2) by (intro fl64_fraction) auto
  then have "duration_of (fl64 (f * of_int ?h)) < ?h" if "1 < d" using nn that by (simp add: duration_of_def floor_less_iff)
  moreover have "0 \<le> duration_of (fl64 (f * of_int ?h))" using nn by (simp add: duration_of_def)
  ultimately show ?thesis using j by fastforce
qed

lemma next_backoff_eq:
  assumes "0 \<le> b" and "b < 2 ^ 50"
  shows "next_backoff b = min (3 * b div 2) maxBackoff"
proof -
  define y where "y = (of_int b * (3 / 2) :: rat)"
  have "fl64 y = y" by (rule fl64_exact[of _ "3 * b" "-1"]) (use assms in \<open>simp_all add: y_def pow2_def\<close>)
  moreover have "0 \<le> y" using assms by (simp add: y_def)
  moreover have "fmul (float_of_int b) (3 / 2) = fl64 y" using assms float_of_int_exact[of b] by (simp add: fmul_def y_def)
  ultimately have "duration_of (fmul (float_of_int b) (3 / 2)) = \<lfloor>y\<rfloor>" by (simp add: duration_of_def)
  also have "\<dots> = \<lfloor>(of_int (3 * b) / of_int 2 :: rat)\<rfloor>" by (simp add: y_def mult.commute)
  also have "\<dots> = 3 * b div 2" by (rule floor_divide_of_int_eq)
  finally show ?thesis by (simp add: next_backoff_def)
qed

text \<open>What neither packets nor registrations touch: the settings and the record of the attempts.\<close>

definition ledger :: "Source \<Rightarrow> string \<times> bool \<times> bool \<times> gotime \<times> string \<times> bool \<times> nat" where
  "ledger s = (src_url s, src_onDemand s, src_connected s, src_lastConnected s, src_lastErr s, src_unpublished s, src_failures s)"

lemma ledger_register: "ledger (register r s) = ledger s"
  by (cases r) (simp_all add: ledger_def AddConsumer_def RemoveConsumer_def)

lemma ledger_registers: "ledger (fold register rs s) = ledger s"
  by (induction rs arbitrary: s) (simp_all add: ledger_register)

lemma ledger_deliver_all: "ledger (deliver_all others panics cs s) = ledger s"
proof (induction others panics cs s rule: deliver_all.induct)
  case (2 others panics c cs s)
  have "ledger (deliver c (panics 0) (fold register (others 0) s)) = ledger s"
    using ledger_registers[of "others 0" s] by (simp add: deliver_def RemoveConsumer_def ledger_def)
  then show ?case using "2.IH" by simp
qed simp

lemma ledger_signal: "ledger (signalParamsReadyLocked s) = ledger s"
  by (simp add: signalParamsReadyLocked_def ledger_def)

lemma ledger_learn: "ledger (maybeLearnParameterSets pkt s) = ledger s"
  by (auto simp: maybeLearnParameterSets_def ledger_signal Let_def split: option.splits) (simp_all add: ledger_def)

lemma ledger_clear: "ledger (clearLatestVideoGOP s) = ledger s"
  by (simp add: clearLatestVideoGOP_def ledger_def)

lemma ledger_cache: "ledger (cacheVideoPacket pkt s) = ledger s"
  unfolding cacheVideoPacket_eq Let_def by (auto simp: ledger_clear) (simp_all add: ledger_def)

lemma ledger_event: "ledger (on_event e s) = ledger s"
proof (cases e)
  case (Sink k)
  then show ?thesis by (simp add: AddReconnectSink_def ledger_def)
qed (simp_all add: fanOutVideo_def fanOutAudio_def Let_def ledger_deliver_all ledger_cache ledger_learn ledger_register)

lemma ledger_events: "ledger (fold on_event es s) = ledger s"
  by (induction es arbitrary: s) (simp_all add: ledger_event)

lemma ledger_extract: "ledger (extractTracks m s) = ledger s"
proof -
  have "ledger (fold extract_track fs s) = ledger s" for fs
  proof (induction fs arbitrary: s)
    case (Cons f fs)
    have "ledger (extract_track f s) = ledger s" by (cases f) (simp_all add: ledger_def Let_def)
    then show ?case using Cons by simp
  qed simp
  then show ?thesis by (simp add: extractTracks_def ledger_signal)
qed

lemma ledger_log: "ledger (log_attempt now err s) = ledger s"
  by (simp add: log_attempt_def shouldLogFailure_def ledger_def)

lemma ledger_connectOnce:
  "ledger (snd (connectOnce p s)) = (case cp_played p of None \<Rightarrow> ledger s | Some t \<Rightarrow> ledger (play t s))"
proof (cases "cp_played p")
  case None
  then show ?thesis by (simp add: connectOnce_def ledger_extract Let_def split: option.split)
next
  case (Some t)
  have "ledger (play t s') = ledger (play t s)" if "ledger s' = ledger s" for s' using that by (simp add: play_def ledger_def)
  note play = this
  show ?thesis
  proof (cases "cp_medias p")
    case (Some m)
    show ?thesis using play[OF ledger_extract[of m s]] \<open>cp_played p = Some t\<close> Some by (simp add: connectOnce_def ledger_events)
  qed (simp add: connectOnce_def ledger_events Some)
qed

lemma ledger_notify: "ledger (fst (notifyDisconnect others panics (s, counters))) = ledger (s\<lparr>src_connected := False\<rparr>)"
  by (simp add: notifyDisconnect_def ledger_deliver_all Let_def) (simp add: ledger_def clearLatestVideoGOP_def)

lemma Connect_pass_ledger:
  assumes "Connect_pass lib p (b, s, counters) = (wait, b', s', counters')"
  shows "ledger s' = ledger ((recordAttempt lib (cp_now p) (cp_start p) (cp_err p) (case cp_played p of None \<Rightarrow> s | Some t \<Rightarrow> play t s))\<lparr>src_connected := False\<rparr>)"
proof -
  obtain s1 where c: "connectOnce p s = (cp_err p, s1)" by (simp add: connectOnce_def Let_def)
  have "ledger s' = ledger ((log_attempt (cp_logTime p) (cp_err p) (recordAttempt lib (cp_now p) (cp_start p) (cp_err p) s1))\<lparr>src_connected := False\<rparr>)"
    using assms ledger_notify[of "cp_others p" "cp_panics p" "log_attempt (cp_logTime p) (cp_err p) (recordAttempt lib (cp_now p) (cp_start p) (cp_err p) s1)" counters]
    unfolding Connect_pass_def prod.case c by (simp add: finish_pass_def Let_def)
  moreover have "ledger (s1\<lparr>src_connected := False\<rparr>) = ledger (s2\<lparr>src_connected := False\<rparr>)" if "ledger s1 = ledger s2" for s1 s2
    using that by (simp add: ledger_def)
  moreover have "ledger (recordAttempt lib now start err s1) = ledger (recordAttempt lib now start err s2)" if "ledger s1 = ledger s2" for now start err s1 s2
    using that by (simp add: ledger_def recordAttempt_def Let_def split: option.split)
  moreover have "ledger s1 = ledger (case cp_played p of None \<Rightarrow> s | Some t \<Rightarrow> play t s)" using ledger_connectOnce[of p s] c by (simp split: option.splits)
  ultimately show ?thesis using ledger_log by metis
qed

definition backoff_ok :: "duration \<Rightarrow> bool" where
  "backoff_ok b \<longleftrightarrow> Second \<le> b \<and> b \<le> maxBackoff"

lemma backoff_units: "Second < 2 ^ 31" "maxBackoff < 2 ^ 37" "Second \<le> maxBackoff" "onDemandRetry < 2 ^ 32" "onDemandRetry = 3 * Second" "0 < Second"
  by (simp_all add: maxBackoff_def onDemandRetry_def Second_def Minute_def Millisecond_def)

lemma next_backoff_ok: "backoff_ok b \<Longrightarrow> backoff_ok (next_backoff b)"
  using next_backoff_eq[of b] backoff_units by (auto simp: backoff_ok_def)

text \<open>The waiting time of a pass by the kind of source.\<close>

definition wait_ok :: "bool \<Rightarrow> duration \<Rightarrow> bool" where
  "wait_ok onDemand w \<longleftrightarrow>
     (if onDemand then onDemandRetry div 2 \<le> w \<and> w < onDemandRetry else Second div 2 \<le> w \<and> w < maxBackoff)"

lemma Connect_pass_wait:
  assumes "Connect_pass lib p (b, s, counters) = (wait, b', s', counters')" and "backoff_ok b" and "rand_fraction (cp_frac p)"
  shows "wait_ok (src_onDemand s) wait \<and> backoff_ok b' \<and> src_onDemand s' = src_onDemand s"
proof -
  obtain s1 where c: "connectOnce p s = (cp_err p, s1)" by (simp add: connectOnce_def Let_def)
  let ?b1 = "if cp_err p = None then Second else b" and ?s2 = "recordAttempt lib (cp_now p) (cp_start p) (cp_err p) s1"
  have "src_onDemand s1 = src_onDemand s" using ledger_connectOnce[of p s] c by (simp add: ledger_def play_def split: option.splits)
  then have o: "src_onDemand ?s2 = src_onDemand s" by (simp add: recordAttempt_def Let_def split: option.split)
  have o': "src_onDemand s' = src_onDemand s"
    using Connect_pass_ledger[OF assms(1)] by (simp add: ledger_def recordAttempt_def play_def Let_def split: option.splits if_splits)
  have b1: "backoff_ok ?b1" using assms(2) backoff_units by (simp add: backoff_ok_def)
  have w: "wait = Jitter (if src_onDemand s then onDemandRetry else ?b1) (cp_frac p)" and b': "b' = (if src_onDemand s then ?b1 else next_backoff ?b1)"
    using assms(1) unfolding Connect_pass_def prod.case c by (simp_all add: finish_pass_def Let_def o)
  have "wait_ok (src_onDemand s) wait"
  proof (cases "src_onDemand s")
    case True
    then show ?thesis using Jitter_range[OF assms(3), of onDemandRetry] backoff_units w by (simp add: wait_ok_def)
  next
    case False
    have u: "1 < Second" by (simp add: Second_def Millisecond_def)
    have "Second \<le> ?b1" "?b1 \<le> maxBackoff" using b1 by (simp_all add: backoff_ok_def)
    moreover from this have "?b1 div 2 \<le> wait \<and> wait < ?b1"
      using Jitter_range[OF assms(3), of ?b1] backoff_units(2) u False unfolding w by simp
    moreover have "Second div 2 \<le> ?b1 div 2" using calculation(1) by (intro zdiv_mono1) simp_all
    ultimately show ?thesis using False by (simp add: wait_ok_def)
  qed
  then show ?thesis using o' b' b1 next_backoff_ok[OF b1] by simp
qed

text \<open>
  C24. Every wait of the connection loop is bounded, however the attempts end: an on-demand source waits at least one
  and a half and less than three seconds, any other source at least half a second and less than two minutes.
  The jitter stays strictly below the backoff although it is computed in floating point.
\<close>

theorem connect_waits_bounded:
  assumes "\<forall>p\<in>set ps. rand_fraction (cp_frac p)" and "Connect lib ps (initial_backoff, s, counters) = (waits, st)"
  shows "length waits = length ps \<and> (\<forall>w\<in>set waits. wait_ok (src_onDemand s) w)"
proof -
  have "length waits = length ps \<and> (\<forall>w\<in>set waits. wait_ok (src_onDemand s) w)"
    if "backoff_ok b" "Connect lib ps (b, s, counters) = (waits, st)" for b s counters waits st
    using assms(1) that
  proof (induction ps arbitrary: b s counters waits)
    case (Cons p ps)
    obtain wait b1 s1 c1 where 1: "Connect_pass lib p (b, s, counters) = (wait, b1, s1, c1)" by (metis prod_cases4)
    obtain ws where 2: "Connect lib ps (b1, s1, c1) = (ws, st)" "waits = wait # ws" using Cons.prems(3) 1 by (auto split: prod.splits)
    have "wait_ok (src_onDemand s) wait \<and> backoff_ok b1 \<and> src_onDemand s1 = src_onDemand s"
      using Connect_pass_wait[OF 1 Cons.prems(2)] Cons.prems(1) by simp
    then show ?case using Cons.IH[of b1 s1 c1 ws] Cons.prems(1) 2 by simp
  qed simp
  moreover have "backoff_ok initial_backoff"
    by (simp add: backoff_ok_def initial_backoff_def maxBackoff_def Second_def Minute_def Millisecond_def)
  ultimately show ?thesis using assms(2) by blast
qed

section \<open>When a source is reported as broken\<close>

text \<open>
  Passes in the order of time: an attempt begins after the previous ones connected, and one that never
  reached PLAY has an error.
\<close>

definition passes_ok :: "connect_pass list \<Rightarrow> bool" where
  "passes_ok ps \<longleftrightarrow> (\<forall>p\<in>set ps. zeroTime \<le> cp_start p \<and> (case cp_played p of None \<Rightarrow> cp_err p \<noteq> None | Some t \<Rightarrow> cp_start p < t)) \<and>
     sorted_wrt (\<lambda>p q. \<forall>t. cp_played p = Some t \<longrightarrow> t \<le> cp_start q) ps"

text \<open>The attempts at the end that never reached PLAY.\<close>

definition failing :: "connect_pass list \<Rightarrow> connect_pass list" where
  "failing ps = takeWhile (\<lambda>p. cp_played p = None) (rev ps)"

definition pass_error :: "url_lib \<Rightarrow> string \<Rightarrow> connect_pass \<Rightarrow> string \<times> bool" where
  "pass_error lib url p = (case cp_err p of None \<Rightarrow> ([], False) | Some e \<Rightarrow> (redactCredentials lib (re_text e) url, streamUnpublished e))"

lemma Connect_snoc:
  "snd (Connect lib (ps @ [p]) st) = snd (Connect_pass lib p (snd (Connect lib ps st)))"
  by (induction ps arbitrary: st) (simp_all add: split_beta)

text \<open>What the record of the attempts says after them.\<close>

definition ledger_after :: "url_lib \<Rightarrow> connect_pass list \<Rightarrow> Source \<Rightarrow> bool" where
  "ledger_after lib ps s \<longleftrightarrow> \<not> src_connected s \<and> src_failures s = length (failing ps) \<and>
     (src_lastErr s, src_unpublished s) = (case failing ps of [] \<Rightarrow> ([], False) | p # _ \<Rightarrow> pass_error lib (src_url s) p) \<and>
     src_lastConnected s \<in> insert zeroTime {t. \<exists>p\<in>set ps. cp_played p = Some t}"

lemma ledger_after_pass:
  assumes "ledger_after lib ps s" and "passes_ok (ps @ [p])" and "Connect_pass lib p (b, s, counters) = (wait, b', s', counters')"
  shows "ledger_after lib (ps @ [p]) s' \<and> src_url s' = src_url s"
proof (cases "cp_played p")
  case None
  have "src_lastConnected s \<le> cp_start p" using assms(1,2) by (auto simp: ledger_after_def passes_ok_def sorted_wrt_append)
  moreover obtain e where "cp_err p = Some e" using assms(2) None by (auto simp: passes_ok_def)
  moreover have "failing (ps @ [p]) = p # failing ps" using None by (simp add: failing_def)
  ultimately show ?thesis using Connect_pass_ledger[OF assms(3)] assms(1) None
    by (auto simp: ledger_def recordAttempt_def Let_def tafter_def ledger_after_def pass_error_def)
next
  case (Some t)
  then have "cp_start p < t" "failing (ps @ [p]) = []" using assms(2) by (auto simp: passes_ok_def failing_def)
  then show ?thesis using Connect_pass_ledger[OF assms(3)] Some
    by (auto simp: ledger_def recordAttempt_def play_def Let_def tafter_def ledger_after_def)
qed

lemma ledger_after_Connect:
  assumes "passes_ok ps" and "Connect lib ps (b, newSource url transport onDemand, counters) = (waits, b', s', counters')"
  shows "ledger_after lib ps s' \<and> src_url s' = url"
  using assms
proof (induction ps arbitrary: waits b' s' counters' rule: rev_induct)
  case Nil
  then show ?case by (auto simp: ledger_after_def failing_def newSource_def)
next
  case (snoc p ps)
  obtain ws b1 s1 c1 where 1: "Connect lib ps (b, newSource url transport onDemand, counters) = (ws, b1, s1, c1)" by (metis prod_cases4)
  obtain w where 2: "Connect_pass lib p (b1, s1, c1) = (w, b', s', counters')"
    using Connect_snoc[of lib ps p "(b, newSource url transport onDemand, counters)"] 1 snoc.prems(2) by (metis prod.collapse snd_conv)
  have "passes_ok ps" using snoc.prems(1) by (auto simp: passes_ok_def sorted_wrt_append)
  then show ?case using snoc.IH[OF _ 1] ledger_after_pass[OF _ snoc.prems(1) 2] by auto
qed

text \<open>
  When a source is reported as broken: exactly when its last three attempts, at least, did not reach PLAY and the
  last of them failed with a message other than a missing stream.  The earlier ones may all be missing
  streams: a single refusal after a night of routine answers is enough, although the threshold is documented as a
  number of consecutive non-routine failures.
\<close>

theorem faulted_exactly:
  assumes "passes_ok ps" and "Connect lib ps (initial_backoff, newSource url transport onDemand, counters) = (waits, b, s, counters')"
  shows "Faulted (source_Health s) \<longleftrightarrow>
    3 \<le> length (failing ps) \<and> \<not> snd (pass_error lib url (last ps)) \<and> fst (pass_error lib url (last ps)) \<noteq> []"
proof -
  have l: "ledger_after lib ps s" "src_url s = url" using ledger_after_Connect[OF assms] by auto
  have "hd (failing ps) = last ps" if "failing ps \<noteq> []"
    using that by (cases ps rule: rev_cases) (auto simp: failing_def split: if_splits)
  then show ?thesis using l
    by (cases "failing ps") (auto simp: ledger_after_def Faulted_def source_Health_def onDemandFaultThreshold_def prod_eq_iff)
qed

text \<open>A battery camera that answered twice that it has no stream, and then refused once.\<close>

definition plain_lib :: url_lib where
  "plain_lib = \<lparr>ul_SanitizeURL = (\<lambda>u. u), ul_User = (\<lambda>_. None)\<rparr>"

definition failed_pass :: "gotime \<Rightarrow> string \<Rightarrow> int option \<Rightarrow> connect_pass" where
  "failed_pass start text status =
     \<lparr>cp_start = start, cp_medias = None, cp_played = None, cp_while = [], cp_err = Some \<lparr>re_text = text, re_status = status\<rparr>, cp_now = start + 1,
      cp_logTime = start + 1, cp_others = (\<lambda>_. []), cp_panics = (\<lambda>_. False), cp_frac = 1 / 2\<rparr>"

definition night :: "connect_pass list" where
  "night = [failed_pass 1 ''no stream'' (Some 404), failed_pass 4 ''no stream'' (Some 404), failed_pass 7 ''refused'' None]"

theorem faulted_exactly_witness:
  "\<exists>waits b s c. Connect plain_lib night (initial_backoff, newSource [] [] True, \<lambda>_. 0) = (waits, b, s, c) \<and> Faulted (source_Health s)"
proof -
  obtain waits b s c where r: "Connect plain_lib night (initial_backoff, newSource [] [] True, \<lambda>_. 0) = (waits, b, s, c)" by (metis prod_cases4)
  have "passes_ok night" by (simp add: passes_ok_def night_def failed_pass_def zeroTime_def)
  moreover have "length (failing night) = 3" by (simp add: failing_def night_def failed_pass_def)
  moreover have "pass_error plain_lib [] (last night) = (''refused'', False)"
    by (simp add: pass_error_def night_def failed_pass_def redactCredentials_def streamUnpublished_def)
  ultimately show ?thesis using faulted_exactly[of night plain_lib "[]" "[]" True "\<lambda>_. 0" waits b s c] r by auto
qed

theorem connect_waits_bounded_witness:
  "length (fst (Connect plain_lib night (initial_backoff, newSource [] [] True, \<lambda>_. 0))) = 3 \<and>
   list_all (\<lambda>w. onDemandRetry div 2 \<le> w \<and> w < onDemandRetry) (fst (Connect plain_lib night (initial_backoff, newSource [] [] True, \<lambda>_. 0)))"
proof -
  obtain waits st where r: "Connect plain_lib night (initial_backoff, newSource [] [] True, \<lambda>_. 0) = (waits, st)" by (metis surj_pair)
  have "rand_fraction (1 / 2)" unfolding rand_fraction_def by (rule exI[of _ "2 ^ 52"]) simp
  then have "\<forall>p\<in>set night. rand_fraction (cp_frac p)" by (simp add: night_def failed_pass_def)
  from connect_waits_bounded[OF this r] have "length waits = length night" "\<forall>w\<in>set waits. wait_ok True w" by (simp_all add: newSource_def)
  moreover have "length night = 3" by (simp add: night_def)
  ultimately show ?thesis unfolding r fst_conv wait_ok_def by (simp add: list_all_iff)
qed

section \<open>The hub\<close>

text \<open>
  Every source ever created keeps its place in \<open>hub_all\<close>; the table has the places of the current ones.
  \<open>hub_cancelled\<close> are the sources whose own context was cancelled, \<open>hub_closed\<close> is the context of the hub.  The
  counters belong to the cameras.
\<close>

record Hub =
  hub_sources :: "string \<rightharpoonup> nat"
  hub_all :: "Source list"
  hub_cancelled :: "nat set"
  hub_closed :: bool
  hub_reconnectSinks :: "string \<Rightarrow> nat list"
  hub_transports :: "string \<Rightarrow> string"
  hub_onDemand :: "string \<Rightarrow> bool"
  hub_counters :: "nat \<Rightarrow> nat"

definition NewHub :: Hub where
  "NewHub = \<lparr>hub_sources = Map.empty, hub_all = [], hub_cancelled = {}, hub_closed = False, hub_reconnectSinks = (\<lambda>_. []),
     hub_transports = (\<lambda>_. []), hub_onDemand = (\<lambda>_. False), hub_counters = (\<lambda>_. 0)\<rparr>"

definition RegisterOnDemand :: "string \<Rightarrow> Hub \<Rightarrow> Hub" where
  "RegisterOnDemand url h = (if url = [] then h else h\<lparr>hub_onDemand := (hub_onDemand h)(url := True)\<rparr>)"

definition RegisterTransport :: "string \<Rightarrow> string \<Rightarrow> Hub \<Rightarrow> Hub" where
  "RegisterTransport url transport h =
     (if transport = [] \<or> transport = ''tcp'' then h else h\<lparr>hub_transports := (hub_transports h)(url := transport)\<rparr>)"

definition GetOrCreateWithTransport :: "string \<Rightarrow> string \<Rightarrow> Hub \<Rightarrow> nat \<times> Hub" where
  "GetOrCreateWithTransport url transport h =
     (case hub_sources h url of
        Some i \<Rightarrow> (i, h)
      | None \<Rightarrow>
          let t = (if transport = [] then hub_transports h url else transport);
              src = fold AddReconnectSink (hub_reconnectSinks h url) (newSource url t (hub_onDemand h url));
              i = length (hub_all h)
          in (i, h\<lparr>hub_sources := (hub_sources h)(url \<mapsto> i), hub_all := hub_all h @ [src]\<rparr>))"

definition GetOrCreate :: "string \<Rightarrow> Hub \<Rightarrow> nat \<times> Hub" where
  "GetOrCreate url h = GetOrCreateWithTransport url [] h"

definition RegisterReconnectSink :: "string \<Rightarrow> nat option \<Rightarrow> Hub \<Rightarrow> Hub" where
  "RegisterReconnectSink url sink h =
     (case sink of
        None \<Rightarrow> h
      | Some k \<Rightarrow>
          if url = [] \<or> k \<in> set (hub_reconnectSinks h url) then h
          else
            let h1 = h\<lparr>hub_reconnectSinks := (hub_reconnectSinks h)(url := hub_reconnectSinks h url @ [k])\<rparr>
            in case hub_sources h1 url of
                 None \<Rightarrow> h1
               | Some i \<Rightarrow> h1\<lparr>hub_all := (hub_all h1)[i := AddReconnectSink k (hub_all h1 ! i)]\<rparr>)"

definition hub_Get :: "string \<Rightarrow> Hub \<Rightarrow> nat option" where
  "hub_Get url h = hub_sources h url"

definition hub_Health :: "string \<Rightarrow> Hub \<Rightarrow> SourceHealth option" where
  "hub_Health url h = map_option (\<lambda>i. source_Health (hub_all h ! i)) (hub_sources h url)"

definition hub_Remove :: "string \<Rightarrow> Hub \<Rightarrow> Hub" where
  "hub_Remove url h =
     (case hub_sources h url of
        None \<Rightarrow> h
      | Some i \<Rightarrow> h\<lparr>hub_sources := (hub_sources h)(url := None), hub_cancelled := insert i (hub_cancelled h)\<rparr>)"

definition hub_Close :: "Hub \<Rightarrow> Hub" where
  "hub_Close h = h\<lparr>hub_closed := True, hub_sources := Map.empty, hub_cancelled := hub_cancelled h \<union> ran (hub_sources h)\<rparr>"

text \<open>What the loop of a source does to the hub: an effect on the source, and the end of a pass.\<close>

definition hub_update :: "nat \<Rightarrow> (Source \<Rightarrow> Source) \<Rightarrow> Hub \<Rightarrow> Hub" where
  "hub_update i f h = h\<lparr>hub_all := (hub_all h)[i := f (hub_all h ! i)]\<rparr>"

definition hub_finish :: "url_lib \<Rightarrow> connect_pass \<Rightarrow> rtsp_error option \<Rightarrow> duration \<Rightarrow> nat \<Rightarrow> Hub \<Rightarrow> Hub" where
  "hub_finish lib p err b i h =
     (case finish_pass lib p err b (hub_all h ! i, hub_counters h) of
        (wait, b', s, counters) \<Rightarrow> h\<lparr>hub_all := (hub_all h)[i := s], hub_counters := counters\<rparr>)"

text \<open>
  The operations of the hub and the loops of its sources in any order; a source that was removed may still be at
  any point of its loop.
\<close>

inductive hub_reach :: "Hub \<Rightarrow> bool" where
  hub_new: "hub_reach NewHub"
| hub_on_demand: "hub_reach h \<Longrightarrow> hub_reach (RegisterOnDemand url h)"
| hub_transport: "hub_reach h \<Longrightarrow> hub_reach (RegisterTransport url transport h)"
| hub_create: "hub_reach h \<Longrightarrow> hub_reach (snd (GetOrCreateWithTransport url transport h))"
| hub_sink: "hub_reach h \<Longrightarrow> hub_reach (RegisterReconnectSink url sink h)"
| hub_remove: "hub_reach h \<Longrightarrow> hub_reach (hub_Remove url h)"
| hub_close: "hub_reach h \<Longrightarrow> hub_reach (hub_Close h)"
| hub_describe: "hub_reach h \<Longrightarrow> i < length (hub_all h) \<Longrightarrow> hub_reach (hub_update i (extractTracks medias) h)"
| hub_play: "hub_reach h \<Longrightarrow> i < length (hub_all h) \<Longrightarrow> hub_reach (hub_update i (play t) h)"
| hub_video: "hub_reach h \<Longrightarrow> i < length (hub_all h) \<Longrightarrow> hub_reach (hub_update i (fanOutVideo others panics pkt) h)"
| hub_audio: "hub_reach h \<Longrightarrow> i < length (hub_all h) \<Longrightarrow> hub_reach (hub_update i (fanOutAudio others panics) h)"
| hub_register: "hub_reach h \<Longrightarrow> i < length (hub_all h) \<Longrightarrow> hub_reach (hub_update i (register r) h)"
| hub_finish: "hub_reach h \<Longrightarrow> i < length (hub_all h) \<Longrightarrow> hub_reach (hub_finish lib p err b i h)"

text \<open>The wiring: what the address of a source and its counters are.\<close>

definition wiring :: "Source \<Rightarrow> string \<times> nat list" where
  "wiring s = (src_url s, src_reconnectSinks s)"

definition hub_ok :: "Hub \<Rightarrow> bool" where
  "hub_ok h \<longleftrightarrow> (\<forall>url. distinct (hub_reconnectSinks h url)) \<and> hub_cancelled h \<subseteq> {..<length (hub_all h)} \<and>
     (\<forall>url i. hub_sources h url = Some i \<longrightarrow> i < length (hub_all h) \<and> i \<notin> hub_cancelled h \<and> wiring (hub_all h ! i) = (url, hub_reconnectSinks h url)) \<and>
     (\<forall>i<length (hub_all h). i \<notin> hub_cancelled h \<longrightarrow> hub_sources h (src_url (hub_all h ! i)) = Some i)"

lemma wiring_deliver_all: "wiring (deliver_all others panics cs s) = wiring s"
proof (induction others panics cs s rule: deliver_all.induct)
  case (2 others panics c cs s)
  have "wiring (fold register rs t) = wiring t" for rs t
  proof (induction rs arbitrary: t)
    case (Cons r rs)
    then show ?case by (cases r) (simp_all add: AddConsumer_def RemoveConsumer_def wiring_def)
  qed simp
  then have "wiring (deliver c (panics 0) (fold register (others 0) s)) = wiring s"
    by (simp add: deliver_def RemoveConsumer_def wiring_def)
  then show ?case using "2.IH" by simp
qed simp

lemma wiring_extract: "wiring (extractTracks medias s) = wiring s"
proof -
  have "wiring (fold extract_track fs t) = wiring t" for fs t
  proof (induction fs arbitrary: t)
    case (Cons f fs)
    have "wiring (extract_track f t) = wiring t" by (cases f) (simp_all add: wiring_def Let_def)
    then show ?case using Cons by simp
  qed simp
  then show ?thesis by (simp add: extractTracks_def signalParamsReadyLocked_def wiring_def)
qed

lemma wiring_video: "wiring (fanOutVideo others panics pkt s) = wiring s"
proof -
  have "wiring (maybeLearnParameterSets pkt s) = wiring s"
    by (auto simp: maybeLearnParameterSets_def signalParamsReadyLocked_def wiring_def Let_def split: option.splits)
  moreover have "wiring (cacheVideoPacket pkt t) = wiring t" for t
    unfolding cacheVideoPacket_eq Let_def by (simp add: clearLatestVideoGOP_def wiring_def)
  ultimately show ?thesis by (simp add: fanOutVideo_def wiring_deliver_all Let_def)
qed

lemma wiring_finish: "finish_pass lib p err b (s, counters) = (wait, b', s', counters') \<Longrightarrow> wiring s' = wiring s"
  by (auto simp: finish_pass_def notifyDisconnect_def wiring_deliver_all clearLatestVideoGOP_def log_attempt_def shouldLogFailure_def
      recordAttempt_def Let_def split: option.splits if_splits) (simp_all add: wiring_def)

lemma hub_ok_update:
  assumes "hub_ok h" and "i < length (hub_all h)" and "wiring s = wiring (hub_all h ! i)"
  shows "hub_ok (h\<lparr>hub_all := (hub_all h)[i := s], hub_counters := c\<rparr>)"
proof -
  have "wiring ((hub_all h)[i := s] ! j) = wiring (hub_all h ! j)" if "j < length (hub_all h)" for j
    using assms(2,3) that by (cases "j = i") simp_all
  moreover from this have "src_url ((hub_all h)[i := s] ! j) = src_url (hub_all h ! j)" if "j < length (hub_all h)" for j
    using that by (simp add: wiring_def)
  ultimately show ?thesis using assms(1) by (simp add: hub_ok_def)
qed

lemma add_sinks: "distinct (src_reconnectSinks s @ ks) \<Longrightarrow> wiring (fold AddReconnectSink ks s) = (src_url s, src_reconnectSinks s @ ks)"
proof (induction ks arbitrary: s)
  case (Cons k ks)
  then show ?case using Cons.IH[of "AddReconnectSink k s"] by (simp add: AddReconnectSink_def)
qed (simp add: wiring_def)

lemma hub_ok_create:
  assumes "hub_ok h"
  shows "hub_ok (snd (GetOrCreateWithTransport url transport h))"
proof (cases "hub_sources h url")
  case None
  define s where "s = fold AddReconnectSink (hub_reconnectSinks h url)
    (newSource url (if transport = [] then hub_transports h url else transport) (hub_onDemand h url))"
  have w: "wiring s = (url, hub_reconnectSinks h url)"
    using assms add_sinks[of "newSource url (if transport = [] then hub_transports h url else transport) (hub_onDemand h url)" "hub_reconnectSinks h url"]
    by (simp add: s_def hub_ok_def newSource_def)
  have h': "snd (GetOrCreateWithTransport url transport h) = h\<lparr>hub_sources := (hub_sources h)(url \<mapsto> length (hub_all h)), hub_all := hub_all h @ [s]\<rparr>"
    using None by (simp add: GetOrCreateWithTransport_def s_def Let_def)
  have fresh: "src_url (hub_all h ! i) \<noteq> url" if "i < length (hub_all h)" "i \<notin> hub_cancelled h" for i
    using assms that None by (auto simp: hub_ok_def)
  show ?thesis unfolding h' using assms w fresh
    by (auto simp: hub_ok_def nth_append wiring_def less_Suc_eq split: if_splits)
next
  case (Some i)
  then show ?thesis using assms by (simp add: GetOrCreateWithTransport_def)
qed

lemma hub_ok_sink:
  assumes "hub_ok h"
  shows "hub_ok (RegisterReconnectSink url sink h)"
proof (cases sink)
  case (Some k)
  show ?thesis
  proof (cases "url = [] \<or> k \<in> set (hub_reconnectSinks h url)")
    case False
    note new = False
    show ?thesis
    proof (cases "hub_sources h url")
      case None
      then show ?thesis using assms new Some by (auto simp: RegisterReconnectSink_def hub_ok_def Let_def)
    next
      case (Some i)
      let ?s = "AddReconnectSink k (hub_all h ! i)"
      have i: "i < length (hub_all h)" "wiring (hub_all h ! i) = (url, hub_reconnectSinks h url)" using assms Some by (auto simp: hub_ok_def)
      then have w: "wiring ?s = (url, hub_reconnectSinks h url @ [k])" using new by (simp add: AddReconnectSink_def wiring_def)
      have u: "src_url ((hub_all h)[i := ?s] ! j) = src_url (hub_all h ! j)" if "j < length (hub_all h)" for j
        using that i w by (cases "j = i") (simp_all add: wiring_def)
      have other: "(hub_all h)[i := ?s] ! j = hub_all h ! j" if "hub_sources h url' = Some j" "url' \<noteq> url" for url' j
        using that assms i by (intro nth_list_update_neq) (auto simp: hub_ok_def)
      have h': "RegisterReconnectSink url sink h =
          h\<lparr>hub_reconnectSinks := (hub_reconnectSinks h)(url := hub_reconnectSinks h url @ [k]), hub_all := (hub_all h)[i := ?s]\<rparr>"
        using \<open>sink = Some k\<close> new Some by (simp add: RegisterReconnectSink_def Let_def)
      show ?thesis unfolding h' using assms new w u i(1) other Some by (auto simp: hub_ok_def)
    qed
  qed (use assms Some in \<open>simp add: RegisterReconnectSink_def\<close>)
qed (use assms in \<open>simp add: RegisterReconnectSink_def\<close>)

lemma hub_ok_remove:
  assumes "hub_ok h"
  shows "hub_ok (hub_Remove url h)"
proof (cases "hub_sources h url")
  case (Some i)
  then have "i < length (hub_all h)" "src_url (hub_all h ! i) = url" using assms by (auto simp: hub_ok_def wiring_def)
  moreover have "j \<noteq> i" if "hub_sources h url' = Some j" "url' \<noteq> url" for url' j
    using that calculation assms by (auto simp: hub_ok_def wiring_def)
  moreover have "src_url (hub_all h ! j) \<noteq> url" if "j < length (hub_all h)" "j \<notin> hub_cancelled h" "j \<noteq> i" for j
    using that Some assms by (auto simp: hub_ok_def)
  ultimately show ?thesis using assms Some by (auto simp: hub_Remove_def hub_ok_def)
qed (use assms in \<open>simp add: hub_Remove_def\<close>)

lemma hub_ok_close: "hub_ok h \<Longrightarrow> hub_ok (hub_Close h)"
  by (auto simp: hub_Close_def hub_ok_def ran_def)

lemma hub_update_ok: "hub_ok h \<Longrightarrow> i < length (hub_all h) \<Longrightarrow> (\<And>s. wiring (f s) = wiring s) \<Longrightarrow> hub_ok (hub_update i f h)"
  using hub_ok_update[of h i "f (hub_all h ! i)" "hub_counters h"] by (simp add: hub_update_def)

lemma hub_reach_ok: "hub_reach h \<Longrightarrow> hub_ok h"
proof (induction rule: hub_reach.induct)
  case hub_new
  then show ?case by (simp add: hub_ok_def NewHub_def)
next
  case (hub_finish h i lib p err b)
  then show ?case using wiring_finish hub_ok_update by (fastforce simp: hub_finish_def split: prod.splits)
next
  case (hub_register h i r)
  have "wiring (register r s) = wiring s" for s by (cases r) (simp_all add: AddConsumer_def RemoveConsumer_def wiring_def)
  then show ?case using hub_register hub_update_ok by blast
next
  case (hub_play h i t)
  then show ?case using hub_update_ok[of h i "play t"] by (simp add: play_def wiring_def)
next
  case (hub_audio h i others panics)
  then show ?case using hub_update_ok[of h i "fanOutAudio others panics"] by (simp add: fanOutAudio_def wiring_deliver_all)
qed (auto simp: hub_ok_create hub_ok_sink hub_ok_remove hub_ok_close hub_update_ok wiring_extract wiring_video
    RegisterOnDemand_def RegisterTransport_def, (simp add: hub_ok_def)+)

lemma bump_counters: "fold (\<lambda>k c. c(k := Suc (c k))) ks counters j = counters j + count_list ks (j::nat)"
  by (induction ks arbitrary: counters) auto

lemma count_list_distinct: "distinct ks \<Longrightarrow> count_list ks k = (if k \<in> set ks then 1 else 0)"
  by (induction ks) auto

text \<open>
  C23. Reconnects are counted once.  In every state the hub can reach there is one current source per address, and
  when its connection ends every counter registered for the address, before or after the source was created, goes
  up by exactly one and no other counter moves; the end of an attempt that never connected, or of an
  on-demand stream, moves none.
\<close>

theorem reconnects_counted_once:
  assumes "hub_reach h" and "hub_sources h url = Some i"
  shows "hub_counters (hub_finish lib p err b i h) k = hub_counters h k +
      (if src_connected (hub_all h ! i) \<and> \<not> src_onDemand (hub_all h ! i) \<and> k \<in> set (hub_reconnectSinks h url) then 1 else 0) \<and>
    (\<forall>j<length (hub_all h). src_url (hub_all h ! j) = url \<and> j \<notin> hub_cancelled h \<longrightarrow> j = i)"
proof -
  let ?s = "hub_all h ! i"
  have ok: "hub_ok h" using hub_reach_ok[OF assms(1)] .
  then have w: "src_reconnectSinks ?s = hub_reconnectSinks h url" "distinct (hub_reconnectSinks h url)"
    using assms(2) by (auto simp: hub_ok_def wiring_def)
  define s1 where "s1 = log_attempt (cp_logTime p) err (recordAttempt lib (cp_now p) (cp_start p) err ?s)"
  have s1: "src_connected s1 = src_connected ?s" "src_onDemand s1 = src_onDemand ?s" "src_reconnectSinks s1 = src_reconnectSinks ?s"
    by (auto simp: s1_def log_attempt_def shouldLogFailure_def recordAttempt_def Let_def split: option.splits)
  have "hub_counters (hub_finish lib p err b i h) =
      (if src_connected ?s \<and> \<not> src_onDemand ?s then fold (\<lambda>k c. c(k := c k + 1)) (hub_reconnectSinks h url) (hub_counters h) else hub_counters h)"
    using s1 w(1) by (simp add: hub_finish_def finish_pass_def notifyDisconnect_def s1_def[symmetric] Let_def)
  then show ?thesis using w(2) ok assms(2) by (auto simp: bump_counters hub_ok_def count_list_distinct)
qed

text \<open>A source that one counter was registered for before it was created and another one after.\<close>

definition sample_hub :: Hub where
  "sample_hub = hub_update 0 (play 5) (RegisterReconnectSink ''rtsp://door'' (Some 8)
     (snd (GetOrCreateWithTransport ''rtsp://door'' [] (RegisterReconnectSink ''rtsp://door'' (Some 7) NewHub))))"

lemmas sample_hub_eval = sample_hub_def hub_update_def play_def RegisterReconnectSink_def GetOrCreateWithTransport_def NewHub_def
  AddReconnectSink_def newSource_def

theorem reconnects_counted_once_witness:
  "hub_counters (hub_finish plain_lib (failed_pass 1 ''closed'' None) None Second 0 sample_hub) 7 = 1 \<and>
   hub_counters (hub_finish plain_lib (failed_pass 1 ''closed'' None) None Second 0 sample_hub) 8 = 1"
proof -
  have r: "hub_reach sample_hub"
    unfolding sample_hub_def
    by (intro hub_play hub_sink hub_create hub_new) (simp add: RegisterReconnectSink_def GetOrCreateWithTransport_def NewHub_def)
  have s: "hub_sources sample_hub ''rtsp://door'' = Some 0" by (simp add: sample_hub_eval)
  have "src_connected (hub_all sample_hub ! 0)" "\<not> src_onDemand (hub_all sample_hub ! 0)" "hub_counters sample_hub = (\<lambda>_. 0)"
    "hub_reconnectSinks sample_hub ''rtsp://door'' = [7, 8]"
    by (simp_all add: sample_hub_eval)
  then show ?thesis
    using reconnects_counted_once[OF r s, of plain_lib "failed_pass 1 ''closed'' None" None Second 7]
      reconnects_counted_once[OF r s, of plain_lib "failed_pass 1 ''closed'' None" None Second 8] by simp
qed

end
