(* ===== verification/Audio_Upsampler.thy ===== *)
theory Audio_Upsampler
  imports Go_Float
begin

text \<open>
  \<^verbatim>\<open>internal/audio/resample.go\<close>: the interpolation of PCM samples by a 64-tap filter that keeps its history across
  calls.  The sine and cosine of \<^verbatim>\<open>math\<close> are arguments, and so is the step \<open>mac\<close> that multiplies and
  adds, which a compiler may fuse into one rounding.
\<close>

section \<open>The resampler\<close>

record Upsampler =
  up_factor :: nat
  up_coefficients :: "float64 list list"
  up_history :: "int list"
  up_input :: nat
  up_output :: nat
  up_flushed :: bool

text \<open>The constant \<^verbatim>\<open>math.Pi\<close>.\<close>

definition Pi :: rat where
  "Pi = 314159265358979323846264338327950288419716939937510582097494459 / 10 ^ 62"

definition tap_weight :: "(float64 \<Rightarrow> float64) \<Rightarrow> (float64 \<Rightarrow> float64) \<Rightarrow> nat \<Rightarrow> nat \<Rightarrow> nat \<Rightarrow> float64" where
  "tap_weight fsin fcos factor phase tap =
     (let x = fsub (of_int (int tap - 31)) (fdiv (of_nat phase) (of_nat factor));
          v = (if x \<noteq> 0 then fdiv (fsin (fmul (fl64 (Pi * (94 / 100))) x)) (fmul (fl64 Pi) x) else fl64 (94 / 100));
          window = fadd (fsub (fl64 (42 / 100)) (fmul (1 / 2) (fcos (fdiv (fmul (fl64 (2 * Pi)) (of_nat tap)) 63))))
                        (fmul (fl64 (8 / 100)) (fcos (fdiv (fmul (fl64 (4 * Pi)) (of_nat tap)) 63)))
      in fmul v window)"

definition phase_weights :: "(float64 \<Rightarrow> float64) \<Rightarrow> (float64 \<Rightarrow> float64) \<Rightarrow> nat \<Rightarrow> nat \<Rightarrow> float64 list" where
  "phase_weights fsin fcos factor phase =
     (let ws = map (tap_weight fsin fcos factor phase) [0..<64]; total = foldl fadd 0 ws in map (\<lambda>w. fdiv w total) ws)"

text \<open>\<open>None\<close> is the panic.\<close>

definition NewUpsampler :: "(float64 \<Rightarrow> float64) \<Rightarrow> (float64 \<Rightarrow> float64) \<Rightarrow> nat \<Rightarrow> Upsampler option" where
  "NewUpsampler fsin fcos factor =
     (if factor < 1 \<or> factor > 6 then None
      else Some \<lparr>up_factor = factor, up_coefficients = map (phase_weights fsin fcos factor) [0..<factor], up_history = replicate 64 0,
                 up_input = 0, up_output = 0, up_flushed = False\<rparr>)"

text \<open>\<^verbatim>\<open>math.Round\<close> rounds halves away from zero; the result is clamped to 16 bits.\<close>

definition to_int16 :: "float64 \<Rightarrow> int" where
  "to_int16 x = max (-32768) (min 32767 (if 0 \<le> x then \<lfloor>x + 1 / 2\<rfloor> else \<lceil>x - 1 / 2\<rceil>))"

definition interpolate :: "(float64 \<Rightarrow> int \<Rightarrow> float64 \<Rightarrow> float64) \<Rightarrow> Upsampler \<Rightarrow> nat \<Rightarrow> int" where
  "interpolate mac r phase =
     to_int16 (foldl (\<lambda>acc tap.
       let index = int (up_output r) + int tap - 31
       in if index \<ge> 0 then mac acc (up_history r ! nat (index mod 64)) (up_coefficients r ! phase ! tap) else acc) 0 [0..<64])"

fun process_loop :: "(float64 \<Rightarrow> int \<Rightarrow> float64 \<Rightarrow> float64) \<Rightarrow> int list \<Rightarrow> Upsampler \<Rightarrow> int list \<times> Upsampler" where
  "process_loop mac [] r = ([], r)"
| "process_loop mac (value # pcm) r =
     (let r1 = r\<lparr>up_history := (up_history r)[up_input r mod 64 := value], up_input := up_input r + 1\<rparr>
      in if up_output r1 + 32 \<ge> up_input r1 then process_loop mac pcm r1
         else case process_loop mac pcm (r1\<lparr>up_output := up_output r1 + 1\<rparr>) of
                (out, r2) \<Rightarrow> (map (interpolate mac r1) [0..<up_factor r1] @ out, r2))"

definition Process :: "(float64 \<Rightarrow> int \<Rightarrow> float64 \<Rightarrow> float64) \<Rightarrow> int list \<Rightarrow> Upsampler \<Rightarrow> int list \<times> Upsampler" where
  "Process mac pcm r =
     (if up_flushed r \<or> pcm = [] then ([], r)
      else if up_factor r = 1 then (pcm, r\<lparr>up_input := up_input r + length pcm, up_output := up_input r + length pcm\<rparr>)
      else process_loop mac pcm r)"

definition up_Flush :: "(float64 \<Rightarrow> int \<Rightarrow> float64 \<Rightarrow> float64) \<Rightarrow> Upsampler \<Rightarrow> int list \<times> Upsampler" where
  "up_Flush mac r =
     (if up_flushed r then ([], r)
      else case (if up_factor r \<noteq> 1 \<and> up_input r > 0 then Process mac (replicate 32 0) r else ([], r)) of
             (out, r1) \<Rightarrow> (out, r1\<lparr>up_flushed := True\<rparr>))"

text \<open>A stream cut into packets.\<close>

fun process_packets :: "(float64 \<Rightarrow> int \<Rightarrow> float64 \<Rightarrow> float64) \<Rightarrow> int list list \<Rightarrow> Upsampler \<Rightarrow> int list \<times> Upsampler" where
  "process_packets mac [] r = ([], r)"
| "process_packets mac (p # ps) r = (case Process mac p r of (out, r1) \<Rightarrow> case process_packets mac ps r1 of (out', r2) \<Rightarrow> (out @ out', r2))"

section \<open>The filter on a whole signal\<close>

text \<open>One output sample as the convolution of the whole signal \<open>xs\<close> with the weights of a phase.\<close>

definition convolve :: "(float64 \<Rightarrow> int \<Rightarrow> float64 \<Rightarrow> float64) \<Rightarrow> float64 list list \<Rightarrow> int list \<Rightarrow> nat \<Rightarrow> nat \<Rightarrow> int" where
  "convolve mac coef xs n phase =
     to_int16 (foldl (\<lambda>acc tap. if n + tap < 31 then acc else mac acc (xs ! (n + tap - 31)) (coef ! phase ! tap)) 0 [0..<64])"

definition resampled_frames :: "(float64 \<Rightarrow> int \<Rightarrow> float64 \<Rightarrow> float64) \<Rightarrow> float64 list list \<Rightarrow> nat \<Rightarrow> int list \<Rightarrow> nat \<Rightarrow> int list" where
  "resampled_frames mac coef factor xs m = concat (map (\<lambda>n. map (convolve mac coef xs n) [0..<factor]) [0..<m])"

text \<open>The reference: every sample of the signal, followed by silence.\<close>

definition resample :: "(float64 \<Rightarrow> int \<Rightarrow> float64 \<Rightarrow> float64) \<Rightarrow> float64 list list \<Rightarrow> nat \<Rightarrow> int list \<Rightarrow> int list" where
  "resample mac coef factor xs = resampled_frames mac coef factor (xs @ replicate 32 0) (length xs)"

text \<open>The ring holds the last 64 samples and the output trails the input by 32.\<close>

definition ring_ok :: "int list \<Rightarrow> Upsampler \<Rightarrow> bool" where
  "ring_ok xs r \<longleftrightarrow> up_input r = length xs \<and> up_output r = length xs - 32 \<and> length (up_history r) = 64 \<and>
     (\<forall>i<length xs. length xs \<le> i + 64 \<longrightarrow> up_history r ! (i mod 64) = xs ! i)"

lemma convolve_append: "n + 32 < length xs \<Longrightarrow> convolve mac coef (xs @ ys) n = convolve mac coef xs n"
  unfolding convolve_def by (intro ext arg_cong[where f = to_int16] foldl_cong) (auto simp: nth_append)

lemma resampled_frames_append: "m + 32 \<le> length xs \<Longrightarrow> resampled_frames mac coef factor (xs @ ys) m = resampled_frames mac coef factor xs m"
  unfolding resampled_frames_def by (intro arg_cong[where f = concat] map_cong refl) (simp add: convolve_append)

lemma ring_push:
  assumes "ring_ok xs r"
  shows "length (up_history r) = 64" and
    "i < length (xs @ [v]) \<Longrightarrow> length (xs @ [v]) \<le> i + 64 \<Longrightarrow> (up_history r)[up_input r mod 64 := v] ! (i mod 64) = (xs @ [v]) ! i"
proof -
  show l: "length (up_history r) = 64" using assms by (simp add: ring_ok_def)
  assume i: "i < length (xs @ [v])" "length (xs @ [v]) \<le> i + 64"
  show "(up_history r)[up_input r mod 64 := v] ! (i mod 64) = (xs @ [v]) ! i"
  proof (cases "i = length xs")
    case True
    then show ?thesis using assms l by (simp add: ring_ok_def)
  next
    case False
    then have lt: "i < length xs" "length xs < i + 64" using i by auto
    have "i mod 64 \<noteq> length xs mod 64"
    proof
      assume "i mod 64 = length xs mod 64"
      then have "64 dvd length xs - i" by (metis lt(1) less_imp_le mod_eq_dvd_iff_nat)
      then show False using lt by (auto dest!: dvd_imp_le)
    qed
    then show ?thesis using assms lt by (simp add: ring_ok_def nth_append)
  qed
qed

lemma interpolate_convolve:
  assumes "ring_ok xs r" and "64 \<le> length (up_history r)"
    and r1: "r1 = r\<lparr>up_history := (up_history r)[up_input r mod 64 := v], up_input := up_input r + 1\<rparr>"
    and late: "32 \<le> length xs"
  shows "interpolate mac r1 = convolve mac (up_coefficients r) (xs @ [v]) (length xs - 32)"
proof -
  have out: "up_output r1 = length xs - 32" using assms(1) by (simp add: r1 ring_ok_def)
  have "(let index = int (up_output r1) + int tap - 31
         in if index \<ge> 0 then mac acc (up_history r1 ! nat (index mod 64)) (up_coefficients r1 ! phase ! tap) else acc) =
        (if length xs - 32 + tap < 31 then acc else mac acc ((xs @ [v]) ! (length xs - 32 + tap - 31)) (up_coefficients r ! phase ! tap))"
    if "tap < 64" for tap phase acc
  proof (cases "length xs - 32 + tap < 31")
    case True
    then show ?thesis by (simp add: out Let_def)
  next
    case False
    let ?i = "length xs - 32 + tap - 31"
    have i: "int (up_output r1) + int tap - 31 = int ?i" using False by (simp add: out)
    have b: "?i < length (xs @ [v])" "length (xs @ [v]) \<le> ?i + 64" using that late False by auto
    have "nat (int ?i mod 64) = ?i mod 64" by (simp add: nat_mod_as_int)
    then show ?thesis using ring_push(2)[OF assms(1) b] False unfolding i by (simp add: r1)
  qed
  then show ?thesis unfolding interpolate_def convolve_def by (intro ext arg_cong[where f = to_int16] foldl_cong) auto
qed

lemma process_loop_frames:
  assumes "ring_ok xs r" and "process_loop mac pcm r = (out, r')"
  shows "ring_ok (xs @ pcm) r' \<and> up_coefficients r' = up_coefficients r \<and> up_factor r' = up_factor r \<and> up_flushed r' = up_flushed r \<and>
    resampled_frames mac (up_coefficients r) (up_factor r) xs (length xs - 32) @ out =
    resampled_frames mac (up_coefficients r) (up_factor r) (xs @ pcm) (length (xs @ pcm) - 32)"
  using assms
proof (induction pcm arbitrary: xs r out)
  case (Cons v pcm)
  define r1 where "r1 = r\<lparr>up_history := (up_history r)[up_input r mod 64 := v], up_input := up_input r + 1\<rparr>"
  note loop = Cons.prems(2)[unfolded process_loop.simps Let_def, folded r1_def]
  have in1: "up_input r1 = length xs + 1" "up_output r1 = length xs - 32" using Cons.prems(1) by (simp_all add: r1_def ring_ok_def)
  show ?case
  proof (cases "length xs < 32")
    case True
    then have "ring_ok (xs @ [v]) r1" using Cons.prems(1) ring_push[OF Cons.prems(1)] by (auto simp: r1_def ring_ok_def)
    moreover have "process_loop mac pcm r1 = (out, r')" using loop True in1 by simp
    moreover have "resampled_frames mac c f (xs @ [v]) (length (xs @ [v]) - 32) = resampled_frames mac c f xs (length xs - 32)" for c f
      using True by (simp add: resampled_frames_def)
    ultimately show ?thesis using Cons.IH[of "xs @ [v]" r1 out] by (simp add: r1_def)
  next
    case False
    obtain out' where o: "process_loop mac pcm (r1\<lparr>up_output := up_output r1 + 1\<rparr>) = (out', r')"
        "out = map (interpolate mac r1) [0..<up_factor r1] @ out'"
      using loop False in1 by (auto split: prod.splits)
    have "ring_ok (xs @ [v]) (r1\<lparr>up_output := up_output r1 + 1\<rparr>)"
      using Cons.prems(1) ring_push[OF Cons.prems(1)] False by (auto simp: r1_def ring_ok_def)
    note IH = Cons.IH[OF this o(1)]
    have "interpolate mac r1 = convolve mac (up_coefficients r) (xs @ [v]) (length xs - 32)"
      using interpolate_convolve[OF Cons.prems(1) _ r1_def] False Cons.prems(1) by (simp add: ring_ok_def)
    moreover have "length (xs @ [v]) - 32 = Suc (length xs - 32)" using False by simp
    ultimately have "resampled_frames mac (up_coefficients r) (up_factor r) (xs @ [v]) (length (xs @ [v]) - 32) =
        resampled_frames mac (up_coefficients r) (up_factor r) xs (length xs - 32) @ map (interpolate mac r1) [0..<up_factor r]"
      using resampled_frames_append[of "length xs - 32" xs mac "up_coefficients r" "up_factor r" "[v]"] False by (simp add: resampled_frames_def)
    then show ?thesis using IH o(2) by (simp add: r1_def)
  qed
qed simp

lemma process_packets_frames:
  assumes "ring_ok xs r" and "up_factor r \<noteq> 1" and "\<not> up_flushed r" and "process_packets mac ps r = (out, r')"
  shows "ring_ok (xs @ concat ps) r' \<and> up_coefficients r' = up_coefficients r \<and> up_factor r' = up_factor r \<and> \<not> up_flushed r' \<and>
    resampled_frames mac (up_coefficients r) (up_factor r) xs (length xs - 32) @ out =
    resampled_frames mac (up_coefficients r) (up_factor r) (xs @ concat ps) (length (xs @ concat ps) - 32)"
  using assms
proof (induction ps arbitrary: xs r out)
  case (Cons p ps)
  obtain o1 r1 where 1: "Process mac p r = (o1, r1)" by fastforce
  obtain o2 where 2: "process_packets mac ps r1 = (o2, r')" "out = o1 @ o2" using Cons.prems(4) 1 by (auto split: prod.splits)
  have "process_loop mac p r = (o1, r1)" using 1 Cons.prems(2,3) by (auto simp: Process_def split: if_splits)
  note s = process_loop_frames[OF Cons.prems(1) this]
  then show ?case using Cons.IH[of "xs @ p" r1 o2] Cons.prems(2,3) 2 by (metis append_assoc concat.simps(2))
qed simp

text \<open>
  C26. Packet boundaries leave no trace.  However a signal is cut into packets, the samples a fresh resampler returns for
  them and for the final flush are the convolution of the whole signal with the filter, exactly as many as the
  factor says (for the factor one, the signal itself), and a second flush returns nothing.
\<close>

theorem upsampler_is_convolution:
  assumes "NewUpsampler fsin fcos factor = Some r" and "process_packets mac packets r = (out, r1)" and "up_Flush mac r1 = (tail, r2)"
  shows "out @ tail = (if factor = 1 then concat packets else resample mac (up_coefficients r) factor (concat packets)) \<and>
    length (out @ tail) = factor * length (concat packets) \<and> up_Flush mac r2 = ([], r2)"
proof -
  have r: "up_factor r = factor" "up_flushed r = False" "ring_ok [] r" "up_input r = 0"
    using assms(1) by (auto simp: NewUpsampler_def ring_ok_def split: if_splits)
  have f2: "up_Flush mac r2 = ([], r2)" using assms(3) by (auto simp: up_Flush_def split: prod.splits if_splits)
  have main: "out @ tail = (if factor = 1 then concat packets else resample mac (up_coefficients r) factor (concat packets))"
  proof (cases "factor = 1")
    case True
    have "out = concat packets \<and> up_factor r1 = 1 \<and> \<not> up_flushed r1" if "process_packets mac packets r = (out, r1)" "up_factor r = 1" "\<not> up_flushed r"
      for packets r out using that
    proof (induction packets arbitrary: r out)
      case (Cons p ps)
      then show ?case by (fastforce simp: Process_def split: prod.splits if_splits)
    qed simp
    from this[OF assms(2)] have "out = concat packets" "up_factor r1 = 1" using r True by auto
    then show ?thesis using assms(3) True by (auto simp: up_Flush_def split: if_splits)
  next
    case False
    let ?xs = "concat packets"
    from process_packets_frames[OF r(3) _ _ assms(2)] False r
    have p: "ring_ok ?xs r1" "up_coefficients r1 = up_coefficients r" "up_factor r1 = factor" "\<not> up_flushed r1"
      "out = resampled_frames mac (up_coefficients r) factor ?xs (length ?xs - 32)" by (auto simp: resampled_frames_def)
    show ?thesis
    proof (cases "?xs = []")
      case True
      have "up_input r1 = 0" "out = []" using p(1,5) unfolding True by (simp_all add: ring_ok_def resampled_frames_def)
      then show ?thesis using assms(3) False p(4) unfolding True by (simp add: up_Flush_def resampled_frames_def resample_def)
    next
      case False
      then have "up_input r1 > 0" using p(1) by (simp add: ring_ok_def)
      then obtain r3 where "process_loop mac (replicate 32 0) r1 = (tail, r3)"
        using assms(3) p(3,4) \<open>factor \<noteq> 1\<close> by (auto simp: up_Flush_def Process_def split: prod.splits)
      from process_loop_frames[OF p(1) this] show ?thesis using p(2,3,5) \<open>factor \<noteq> 1\<close> by (simp add: resample_def)
    qed
  qed
  have "length (resampled_frames mac c f xs m) = f * m" for c f xs m
    unfolding resampled_frames_def by (induction m) (simp_all add: algebra_simps)
  then show ?thesis using main f2 by (simp add: resample_def)
qed

definition mac_rounded :: "float64 \<Rightarrow> int \<Rightarrow> float64 \<Rightarrow> float64" where
  "mac_rounded acc sample c = fadd acc (fmul (of_int sample) c)"

theorem upsampler_is_convolution_witness:
  "\<exists>r out r1 tail r2. NewUpsampler (\<lambda>_. 1) (\<lambda>_. 0) 2 = Some r \<and> process_packets mac_rounded [[1, 2], [3]] r = (out, r1) \<and>
     up_Flush mac_rounded r1 = (tail, r2) \<and> length (out @ tail) = 6 \<and> out @ tail = resample mac_rounded (up_coefficients r) 2 [1, 2, 3]"
proof -
  obtain r where r: "NewUpsampler (\<lambda>_. 1) (\<lambda>_. 0) 2 = Some r" by (simp add: NewUpsampler_def)
  obtain out r1 where o: "process_packets mac_rounded [[1, 2], [3]] r = (out, r1)" by fastforce
  obtain tail r2 where t: "up_Flush mac_rounded r1 = (tail, r2)" by fastforce
  note u = upsampler_is_convolution[OF r o t]
  have "out @ tail = resample mac_rounded (up_coefficients r) 2 [1, 2, 3]" using conjunct1[OF u] by simp
  moreover have "length (out @ tail) = 6" using conjunct1[OF conjunct2[OF u]] by simp
  ultimately show ?thesis using r o t by blast
qed

end
