(* ===== verification/Audio_Windows.thy ===== *)
theory Audio_Windows
  imports Mp4_Writer
begin

text \<open>
  \<^verbatim>\<open>internal/audio/consumer.go\<close>: the consumer that cuts the audio of a camera into overlapping windows for
  recognition.  Packets arrive on one goroutine and a worker decodes them on another; an iteration of the worker takes the
  values of the shared counters it reads as arguments, so that the theorems hold whatever happens
  in between.  The G.711 decoder is the argument \<open>dec\<close>.
\<close>

section \<open>State\<close>

definition maxPayload :: nat where "maxPayload = 8192"
definition maxTimestampJitterSamples :: int where "maxTimestampJitterSamples = 800"
definition maxPacketArrivalJitter :: duration where "maxPacketArrivalJitter = 250 * Millisecond"

record packet =
  pk_seq :: int
  pk_ts :: int
  pk_ssrc :: int
  pk_epoch :: nat
  pk_payload :: bytes
  pk_received :: gotime

record Window =
  wd_PCM :: "int list"
  wd_SampleRate :: int
  wd_RTPStart :: int
  wd_Epoch :: nat
  wd_Generation :: nat
  wd_ReceivedAt :: gotime

record Options =
  op_Window :: duration
  op_Hop :: duration
  op_PacketBuffer :: int
  op_WindowBuffer :: int

record audio_Consumer =
  ac_track :: TrackInfo
  ac_size :: nat
  ac_hop :: nat
  ac_packets :: "packet channel"
  ac_windows :: "Window channel"
  ac_closed :: bool
  ac_epoch :: nat
  ac_generation :: nat
  ac_droppedPackets :: nat
  ac_droppedWindows :: nat
  ac_discontinuities :: nat
  ac_rejected :: nat

text \<open>The variables of \<open>run\<close>.\<close>

record worker =
  wk_pcm :: "int list"
  wk_prev :: "packet option"
  wk_epoch :: nat
  wk_queueEpoch :: nat
  wk_start :: int

definition new_worker :: worker where
  "new_worker = \<lparr>wk_pcm = [], wk_prev = None, wk_epoch = 0, wk_queueEpoch = 0, wk_start = 0\<rparr>"

section \<open>Operations\<close>

definition ToUpper :: "string \<Rightarrow> string" where
  "ToUpper = map (\<lambda>c. let n = (of_char c :: nat) in if 97 \<le> n \<and> n \<le> 122 then char_of (n - 32) else c)"

definition default_options :: "Options \<Rightarrow> Options" where
  "default_options o1 =
     \<lparr>op_Window = (if op_Window o1 = 0 then 2 * Second else op_Window o1), op_Hop = (if op_Hop o1 = 0 then 480 * Millisecond else op_Hop o1),
      op_PacketBuffer = (if op_PacketBuffer o1 = 0 then 64 else op_PacketBuffer o1),
      op_WindowBuffer = (if op_WindowBuffer o1 = 0 then 2 else op_WindowBuffer o1)\<rparr>"

definition options_bounded :: "Options \<Rightarrow> bool" where
  "options_bounded q \<longleftrightarrow> \<not> (op_Window q < Millisecond \<or> op_Window q > 10 * Second \<or> op_Hop q < Millisecond \<or> op_Hop q > op_Window q \<or>
     op_PacketBuffer q < 1 \<or> op_PacketBuffer q > 1024 \<or> op_WindowBuffer q < 1 \<or> op_WindowBuffer q > 16)"

definition NewConsumer :: "TrackInfo \<Rightarrow> Options \<Rightarrow> audio_Consumer option" where
  "NewConsumer track0 opts =
     (let track = track0\<lparr>ti_Codec := ToUpper (ti_Codec track0)\<rparr>; q = default_options opts
      in if ti_Codec track \<noteq> ''PCMA'' \<and> ti_Codec track \<noteq> ''PCMU'' \<or> ti_ClockRate track \<noteq> 8000 \<or> ti_IsVideo track \<or> ti_ChannelCount track \<noteq> 1 then None
         else if \<not> options_bounded q then None
         else Some \<lparr>ac_track = track, ac_size = nat (op_Window q * 8000 div Second), ac_hop = nat (op_Hop q * 8000 div Second),
                    ac_packets = make_chan (nat (op_PacketBuffer q)), ac_windows = make_chan (nat (op_WindowBuffer q)), ac_closed = False,
                    ac_epoch = 1, ac_generation = 1, ac_droppedPackets = 0, ac_droppedWindows = 0, ac_discontinuities = 0, ac_rejected = 0\<rparr>)"

definition discontinue :: "audio_Consumer \<Rightarrow> audio_Consumer" where
  "discontinue c = c\<lparr>ac_epoch := ac_epoch c + 1, ac_generation := ac_generation c + 1\<rparr>"

definition audio_OnDisconnect :: "audio_Consumer \<Rightarrow> audio_Consumer" where
  "audio_OnDisconnect c = discontinue c"

definition OnAudioRTP :: "gotime \<Rightarrow> rtp_packet option \<Rightarrow> audio_Consumer \<Rightarrow> audio_Consumer" where
  "OnAudioRTP now pkt c =
     (if ac_closed c then c
      else case pkt of
             None \<Rightarrow> discontinue (c\<lparr>ac_rejected := ac_rejected c + 1\<rparr>)
           | Some p \<Rightarrow>
               if rp_PayloadType p \<noteq> ti_PayloadType (ac_track c) \<or> rp_Payload p = [] \<or> length (rp_Payload p) > maxPayload
               then discontinue (c\<lparr>ac_rejected := ac_rejected c + 1\<rparr>)
               else
                 (case try_send \<lparr>pk_seq = rp_SequenceNumber p, pk_ts = rp_Timestamp p, pk_ssrc = rp_SSRC p, pk_epoch = ac_epoch c,
                                 pk_payload = rp_Payload p, pk_received = now\<rparr> (ac_packets c) of
                    (True, ch) \<Rightarrow> c\<lparr>ac_packets := ch\<rparr>
                  | (False, ch) \<Rightarrow> discontinue (c\<lparr>ac_droppedPackets := ac_droppedPackets c + 1\<rparr>)))"

definition audio_Close :: "audio_Consumer \<Rightarrow> audio_Consumer" where
  "audio_Close c = c\<lparr>ac_closed := True\<rparr>"

section \<open>The worker\<close>

text \<open>The local function \<open>reset\<close>: also drops the windows nobody took.\<close>

definition worker_reset :: "worker \<times> audio_Consumer \<Rightarrow> worker \<times> audio_Consumer" where
  "worker_reset st =
     (case st of (w, c) \<Rightarrow>
        (w\<lparr>wk_pcm := [], wk_prev := None, wk_epoch := wk_epoch w + 1\<rparr>,
         c\<lparr>ac_generation := ac_generation c + 1, ac_discontinuities := ac_discontinuities c + 1,
           ac_droppedWindows := ac_droppedWindows c + length (ch_buf (ac_windows c)), ac_windows := (ac_windows c)\<lparr>ch_buf := []\<rparr>\<rparr>))"

text \<open>Taking notice of the epoch of a packet.\<close>

definition enter_epoch :: "packet \<Rightarrow> worker \<times> audio_Consumer \<Rightarrow> worker \<times> audio_Consumer" where
  "enter_epoch p st =
     (case st of (w, c) \<Rightarrow>
        if pk_epoch p = wk_queueEpoch w then (w, c)
        else
          (case (if wk_queueEpoch w \<noteq> 0 then worker_reset (w, c) else (w\<lparr>wk_epoch := 1\<rparr>, c)) of
             (w1, c1) \<Rightarrow> (w1\<lparr>wk_queueEpoch := pk_epoch p\<rparr>, c1)))"

definition late_packet :: "packet \<Rightarrow> packet option \<Rightarrow> bool" where
  "late_packet p prev =
     (case prev of
        None \<Rightarrow> False
      | Some q \<Rightarrow> pk_ssrc p = pk_ssrc q \<and> (let delta = s16 (pk_seq p - pk_seq q) in delta = 0 \<or> delta < 0 \<and> delta \<ge> -64))"

text \<open>Whether a packet continues the one before.\<close>

definition continues :: "packet \<Rightarrow> packet \<Rightarrow> bool" where
  "continues q p \<longleftrightarrow>
     (let stampError = s32 (pk_ts p - u32 (pk_ts q + int (length (pk_payload q))));
          arrivalBudget = int (max (length (pk_payload q)) (length (pk_payload p))) * Second div 8000 + maxPacketArrivalJitter
      in \<not> (pk_ssrc p \<noteq> pk_ssrc q \<or> pk_seq p \<noteq> (pk_seq q + 1) mod 2 ^ 16 \<or>
            stampError < - maxTimestampJitterSamples \<or> stampError > maxTimestampJitterSamples \<or> tsub (pk_received p) (pk_received q) > arrivalBudget))"

text \<open>
  The loop that cuts windows; \<open>epochs\<close> are the values of the epoch it reads.  The constructor makes the hop
  positive and at most the size.
\<close>

function cut_windows :: "(nat \<Rightarrow> nat) \<Rightarrow> nat \<Rightarrow> packet \<Rightarrow> worker \<times> audio_Consumer \<Rightarrow> worker \<times> audio_Consumer" where
  "cut_windows epochs generation p (w, c) =
     (if 0 < ac_hop c \<and> ac_hop c \<le> ac_size c \<and> ac_size c \<le> length (wk_pcm w) then
        if wk_queueEpoch w \<noteq> epochs 0 then (w, c)
        else
          let win = \<lparr>wd_PCM = take (ac_size c) (wk_pcm w), wd_SampleRate = 8000, wd_RTPStart = wk_start w, wd_Epoch = wk_epoch w,
                     wd_Generation = generation, wd_ReceivedAt = pk_received p\<rparr>;
              c1 = (case try_send win (ac_windows c) of
                      (True, ch) \<Rightarrow> c\<lparr>ac_windows := ch\<rparr>
                    | (False, ch) \<Rightarrow> c\<lparr>ac_droppedWindows := ac_droppedWindows c + 1\<rparr>);
              w1 = w\<lparr>wk_pcm := drop (ac_hop c) (wk_pcm w), wk_start := u32 (wk_start w + int (ac_hop c))\<rparr>
          in cut_windows (\<lambda>i. epochs (Suc i)) generation p (w1, c1)
      else (w, c))"
  by pat_completeness auto
termination by (relation "measure (\<lambda>(_, _, _, w, c). length (wk_pcm w))") (auto simp: Let_def)

declare cut_windows.simps [simp del]

text \<open>One iteration of \<open>run\<close>: \<open>epoch0\<close> and \<open>generation\<close> are the values it reads before the loop.\<close>

definition worker_packet :: "(bytes \<Rightarrow> bool \<Rightarrow> int list) \<Rightarrow> nat \<Rightarrow> (nat \<Rightarrow> nat) \<Rightarrow> nat \<Rightarrow> packet \<Rightarrow> worker \<times> audio_Consumer \<Rightarrow> worker \<times> audio_Consumer" where
  "worker_packet dec epoch0 epochs generation p st =
     (if pk_epoch p \<noteq> epoch0 then st
      else
        (case enter_epoch p st of
           (w, c) \<Rightarrow>
             if late_packet p (wk_prev w) then (w, c)
             else
               (case (case wk_prev w of None \<Rightarrow> (w, c) | Some q \<Rightarrow> if continues q p then (w, c) else worker_reset (w, c)) of
                  (w1, c1) \<Rightarrow>
                    let w2 = (if wk_prev w1 = None then w1\<lparr>wk_start := pk_ts p\<rparr> else w1);
                        w3 = w2\<lparr>wk_pcm := wk_pcm w2 @ dec (pk_payload p) (ti_Codec (ac_track c1) = ''PCMA''), wk_prev := Some p\<rparr>
                    in cut_windows epochs generation p (w3, c1))))"

text \<open>
  The consumer and its worker, in any order of packets, disconnections, iterations and windows taken; the list records the
  packets that the worker took from the queue.
\<close>

inductive audio_reach :: "(bytes \<Rightarrow> bool \<Rightarrow> int list) \<Rightarrow> packet list \<Rightarrow> worker \<times> audio_Consumer \<Rightarrow> bool" for dec where
  audio_new: "NewConsumer track opts = Some c \<Longrightarrow> audio_reach dec [] (new_worker, c)"
| audio_rtp: "audio_reach dec taken (w, c) \<Longrightarrow> audio_reach dec taken (w, OnAudioRTP now pkt c)"
| audio_disconnect: "audio_reach dec taken (w, c) \<Longrightarrow> audio_reach dec taken (w, audio_OnDisconnect c)"
| audio_close: "audio_reach dec taken (w, c) \<Longrightarrow> audio_reach dec taken (w, audio_Close c)"
| audio_work: "audio_reach dec taken (w, c) \<Longrightarrow> try_recv (ac_packets c) = (Some p, ch) \<Longrightarrow>
    audio_reach dec (taken @ [p]) (worker_packet dec epoch0 epochs generation p (w, c\<lparr>ac_packets := ch\<rparr>))"
| audio_take: "audio_reach dec taken (w, c) \<Longrightarrow> try_recv (ac_windows c) = (Some win, ch) \<Longrightarrow> audio_reach dec taken (w, c\<lparr>ac_windows := ch\<rparr>)"

section \<open>Windows are cut from continuous audio\<close>

definition decoded :: "(bytes \<Rightarrow> bool \<Rightarrow> int list) \<Rightarrow> audio_Consumer \<Rightarrow> packet list \<Rightarrow> int list" where
  "decoded dec c ps = concat (map (\<lambda>p. dec (pk_payload p) (ti_Codec (ac_track c) = ''PCMA'')) ps)"

text \<open>The \<open>k\<close>th sample of a run of packets is where the window begins.\<close>

definition cut_from :: "(bytes \<Rightarrow> bool \<Rightarrow> int list) \<Rightarrow> audio_Consumer \<Rightarrow> packet list \<Rightarrow> Window \<Rightarrow> bool" where
  "cut_from dec c ps win \<longleftrightarrow>
     (\<exists>k. ac_hop c dvd k \<and> k + ac_size c \<le> length (decoded dec c ps) \<and> wd_PCM win = take (ac_size c) (drop k (decoded dec c ps)) \<and>
          u32 (wd_RTPStart win) = u32 (pk_ts (hd ps) + int k))"

definition at_sample :: "(bytes \<Rightarrow> bool \<Rightarrow> int list) \<Rightarrow> audio_Consumer \<Rightarrow> packet list \<Rightarrow> worker \<Rightarrow> nat \<Rightarrow> bool" where
  "at_sample dec c ps w k \<longleftrightarrow> ac_hop c dvd k \<and> k \<le> length (decoded dec c ps) \<and> wk_pcm w = drop k (decoded dec c ps) \<and>
     (ps \<noteq> [] \<longrightarrow> u32 (wk_start w) = u32 (pk_ts (hd ps) + int k))"

definition shape_ok :: "audio_Consumer \<Rightarrow> bool" where
  "shape_ok c \<longleftrightarrow> 0 < ac_hop c \<and> ac_hop c \<le> ac_size c \<and> 0 < ac_epoch c \<and> (\<forall>p\<in>set (ch_buf (ac_packets c)). 0 < pk_epoch p)"

definition run_of :: "(bytes \<Rightarrow> bool \<Rightarrow> int list) \<Rightarrow> packet list \<Rightarrow> worker \<times> audio_Consumer \<Rightarrow> bool" where
  "run_of dec ps st \<longleftrightarrow> (case st of (w, c) \<Rightarrow>
     shape_ok c \<and> successively continues ps \<and> (\<forall>p\<in>set ps. pk_epoch p = wk_queueEpoch w) \<and>
     wk_prev w = (if ps = [] then None else Some (last ps)) \<and> (\<exists>k. at_sample dec c ps w k) \<and>
     (\<forall>win\<in>set (ch_buf (ac_windows c)). wd_Epoch win = wk_epoch w \<and> cut_from dec c ps win) \<and>
     (wk_queueEpoch w = 0 \<longrightarrow> ps = [] \<and> ch_buf (ac_windows c) = []))"

lemma decoded_snoc: "decoded dec c (ps @ [p]) = decoded dec c ps @ dec (pk_payload p) (ti_Codec (ac_track c) = ''PCMA'')"
  by (simp add: decoded_def)

lemma cut_from_snoc: "ps \<noteq> [] \<Longrightarrow> cut_from dec c ps win \<Longrightarrow> cut_from dec c (ps @ [p]) win"
  unfolding cut_from_def decoded_snoc by (elim exE conjE, intro exI conjI) auto

lemma cut_from_empty: "0 < ac_size c \<Longrightarrow> \<not> cut_from dec c [] win"
  by (auto simp: cut_from_def decoded_def)

lemma u32_add: "u32 a = u32 b \<Longrightarrow> u32 (a + d) = u32 (b + d)"
  unfolding u32_def by (metis mod_add_left_eq)

lemma NewConsumer_shape:
  assumes "NewConsumer track opts = Some c"
  shows "run_of dec [] (new_worker, c)"
proof -
  let ?q = "default_options opts"
  have q: "options_bounded ?q" and c: "ac_size c = nat (op_Window ?q * 8000 div Second)" "ac_hop c = nat (op_Hop ?q * 8000 div Second)"
      "ac_epoch c = 1" "ch_buf (ac_packets c) = []" "ch_buf (ac_windows c) = []"
    using assms by (auto simp: NewConsumer_def Let_def make_chan_def split: if_splits)
  have "8 \<le> op_Hop ?q * 8000 div Second" "op_Hop ?q * 8000 div Second \<le> op_Window ?q * 8000 div Second"
    using q zdiv_mono1[of "Millisecond * 8000" "op_Hop ?q * 8000" Second] zdiv_mono1[of "op_Hop ?q * 8000" "op_Window ?q * 8000" Second]
    by (auto simp: options_bounded_def Second_def Millisecond_def)
  then have "shape_ok c" using c by (simp add: shape_ok_def nat_mono)
  then show ?thesis using c by (auto simp: run_of_def new_worker_def at_sample_def decoded_def)
qed

lemma run_of_reset:
  assumes "run_of dec ps st"
  shows "run_of dec [] (worker_reset st)"
  using assms by (auto simp: run_of_def worker_reset_def at_sample_def decoded_def shape_ok_def split: prod.splits)

lemma run_of_epoch: "run_of dec [] (w, c) \<Longrightarrow> 0 < e \<Longrightarrow> run_of dec [] (w\<lparr>wk_queueEpoch := e\<rparr>, c)"
  by (simp add: run_of_def at_sample_def)

lemma run_of_enter:
  assumes "run_of dec ps st" and "0 < pk_epoch p"
  shows "\<exists>ps'. (ps' = ps \<or> ps' = []) \<and> run_of dec ps' (enter_epoch p st) \<and> wk_queueEpoch (fst (enter_epoch p st)) = pk_epoch p"
proof -
  obtain w c where st: "st = (w, c)" by fastforce
  consider "pk_epoch p = wk_queueEpoch w" | "pk_epoch p \<noteq> wk_queueEpoch w" "wk_queueEpoch w = 0" | "pk_epoch p \<noteq> wk_queueEpoch w" "wk_queueEpoch w \<noteq> 0"
    by blast
  then show ?thesis
  proof cases
    case 1
    then show ?thesis using assms(1) by (auto simp: enter_epoch_def st)
  next
    case 2
    then have "run_of dec [] (w\<lparr>wk_epoch := 1, wk_queueEpoch := pk_epoch p\<rparr>, c)"
      using assms by (auto simp: run_of_def st at_sample_def)
    then show ?thesis using 2 by (auto simp: enter_epoch_def st)
  next
    case 3
    obtain w1 c1 where r: "worker_reset (w, c) = (w1, c1)" by fastforce
    have "run_of dec [] (w1\<lparr>wk_queueEpoch := pk_epoch p\<rparr>, c1)"
      using run_of_epoch[of dec w1 c1, OF _ assms(2)] run_of_reset[OF assms(1)] r by (simp add: st)
    then show ?thesis using 3 r by (auto simp: enter_epoch_def st)
  qed
qed

lemma run_of_cut:
  assumes "run_of dec ps (w, c)" and "ps \<noteq> []" and "wk_queueEpoch w \<noteq> 0"
  shows "run_of dec ps (cut_windows epochs generation p (w, c))"
  using assms
proof (induction epochs generation p "(w, c)" arbitrary: w c rule: cut_windows.induct[case_names step])
  case (step epochs generation p w c)
  show ?case
  proof (cases "0 < ac_hop c \<and> ac_hop c \<le> ac_size c \<and> ac_size c \<le> length (wk_pcm w) \<and> wk_queueEpoch w = epochs 0")
    case False
    then show ?thesis using step.prems(1) by (subst cut_windows.simps) auto
  next
    case True
    define win where "win = \<lparr>wd_PCM = take (ac_size c) (wk_pcm w), wd_SampleRate = 8000, wd_RTPStart = wk_start w, wd_Epoch = wk_epoch w,
                     wd_Generation = generation, wd_ReceivedAt = pk_received p\<rparr>"
    define c1 where "c1 = (case try_send win (ac_windows c) of (True, ch) \<Rightarrow> c\<lparr>ac_windows := ch\<rparr>
                    | (False, ch) \<Rightarrow> c\<lparr>ac_droppedWindows := ac_droppedWindows c + 1\<rparr>)"
    define w1 where "w1 = w\<lparr>wk_pcm := drop (ac_hop c) (wk_pcm w), wk_start := u32 (wk_start w + int (ac_hop c))\<rparr>"
    have u: "cut_windows epochs generation p (w, c) = cut_windows (\<lambda>i. epochs (Suc i)) generation p (w1, c1)"
      using True by (subst cut_windows.simps) (simp add: win_def[symmetric] c1_def[symmetric] w1_def[symmetric] Let_def)
    have same: "ac_hop c1 = ac_hop c" "ac_size c1 = ac_size c" "ac_track c1 = ac_track c" "shape_ok c1 = shape_ok c"
      and buf: "set (ch_buf (ac_windows c1)) \<subseteq> insert win (set (ch_buf (ac_windows c)))"
      by (auto simp: c1_def try_send_def shape_ok_def)
    then have eqs: "decoded dec c1 = decoded dec c" "cut_from dec c1 = cut_from dec c"
      by (auto simp: decoded_def cut_from_def fun_eq_iff)
    obtain k where k: "at_sample dec c ps w k" using step.prems(1) by (auto simp: run_of_def)
    have cut: "cut_from dec c ps win"
      unfolding cut_from_def using k True step.prems(2) by (intro exI[of _ k]) (auto simp: at_sample_def win_def)
    have "u32 (u32 (wk_start w + int (ac_hop c))) = u32 (pk_ts (hd ps) + int (k + ac_hop c))"
      using u32_add[of "wk_start w" "pk_ts (hd ps) + int k" "int (ac_hop c)"] k step.prems(2)
      by (simp add: at_sample_def u32_def add.assoc)
    then have "at_sample dec c1 ps w1 (k + ac_hop c)"
      using k True step.prems(2) same(1) eqs(1) by (auto simp: at_sample_def w1_def add.commute)
    then have "run_of dec ps (w1, c1)"
      using step.prems(1,3) same(4) eqs(2) buf cut by (auto simp: run_of_def w1_def win_def)
    moreover have "wk_queueEpoch w1 \<noteq> 0" using step.prems(3) by (simp add: w1_def)
    ultimately show ?thesis
      unfolding u using step.hyps[OF _ _ win_def c1_def w1_def] True step.prems(2) by blast
  qed
qed

lemma run_of_packet:
  assumes "run_of dec ps st" and "0 < pk_epoch p"
  shows "\<exists>ps'. subseq ps' (ps @ [p]) \<and> run_of dec ps' (worker_packet dec epoch0 epochs generation p st)"
proof (cases "pk_epoch p = epoch0")
  case False
  then show ?thesis using assms(1) by (intro exI[of _ ps]) (simp add: worker_packet_def list_emb_prefix)
next
  case ep: True
  obtain w c where e: "enter_epoch p st = (w, c)" by fastforce
  obtain qs where q: "run_of dec qs (w, c)" "wk_queueEpoch w = pk_epoch p" and qs: "qs = ps \<or> qs = []" using run_of_enter[OF assms] e by auto
  show ?thesis
  proof (cases "late_packet p (wk_prev w)")
    case True
    then show ?thesis using q qs ep by (intro exI[of _ qs]) (auto simp: worker_packet_def e list_emb_prefix)
  next
    case late: False
    define st1 where "st1 = (case wk_prev w of None \<Rightarrow> (w, c) | Some x \<Rightarrow> if continues x p then (w, c) else worker_reset (w, c))"
    obtain w1 c1 where s1: "st1 = (w1, c1)" by fastforce
    have "\<exists>rs. (rs = ps \<or> rs = []) \<and> run_of dec rs (w1, c1) \<and> (rs \<noteq> [] \<longrightarrow> continues (last rs) p)"
    proof (cases "qs = [] \<or> continues (last qs) p")
      case True
      then show ?thesis using q(1) qs s1 by (intro exI[of _ qs]) (auto simp: st1_def run_of_def)
    next
      case False
      then show ?thesis using run_of_reset[OF q(1)] q(1) s1 by (intro exI[of _ "[]"]) (auto simp: st1_def run_of_def)
    qed
    then obtain rs where rs: "run_of dec rs (w1, c1)" "rs \<noteq> [] \<longrightarrow> continues (last rs) p" and sub: "rs = ps \<or> rs = []" by blast
    have qe: "wk_queueEpoch w1 = pk_epoch p" using q(2) s1 by (auto simp: st1_def worker_reset_def split: option.splits if_splits)
    define w2 where "w2 = (if wk_prev w1 = None then w1\<lparr>wk_start := pk_ts p\<rparr> else w1)"
    define w3 where "w3 = w2\<lparr>wk_pcm := wk_pcm w2 @ dec (pk_payload p) (ti_Codec (ac_track c1) = ''PCMA''), wk_prev := Some p\<rparr>"
    obtain k where k: "at_sample dec c1 rs w1 k" using rs(1) by (auto simp: run_of_def)
    have prev: "wk_prev w1 = None \<longleftrightarrow> rs = []" using rs(1) by (auto simp: run_of_def)
    have "at_sample dec c1 (rs @ [p]) w3 k"
    proof (cases "rs = []")
      case True
      then have "k = 0" using k by (simp add: at_sample_def decoded_def)
      then show ?thesis using k True prev by (auto simp: at_sample_def w3_def w2_def decoded_def)
    next
      case False
      then show ?thesis using k prev by (auto simp: at_sample_def w3_def w2_def decoded_snoc)
    qed
    moreover have "successively continues (rs @ [p])" using rs by (auto simp: run_of_def successively_append_iff)
    moreover have "cut_from dec c1 (rs @ [p]) win" if "win \<in> set (ch_buf (ac_windows c1))" for win
    proof -
      have "cut_from dec c1 rs win" "0 < ac_size c1" using that rs(1) by (auto simp: run_of_def shape_ok_def)
      then show ?thesis using cut_from_snoc cut_from_empty by metis
    qed
    ultimately have "run_of dec (rs @ [p]) (w3, c1)"
      using rs(1) qe assms(2) by (auto simp: run_of_def w3_def w2_def)
    then have "run_of dec (rs @ [p]) (cut_windows epochs generation p (w3, c1))"
      by (rule run_of_cut) (use qe assms(2) in \<open>auto simp: w3_def w2_def\<close>)
    moreover have "worker_packet dec epoch0 epochs generation p st = cut_windows epochs generation p (w3, c1)"
      using ep late e s1 by (simp add: worker_packet_def st1_def[symmetric] w2_def[symmetric] w3_def[symmetric] Let_def)
    moreover have "subseq (rs @ [p]) (ps @ [p])" using sub by auto
    ultimately show ?thesis by metis
  qed
qed

lemma run_of_shared:
  assumes "run_of dec ps (w, c)" and "ac_hop c' = ac_hop c" "ac_size c' = ac_size c" "ac_track c' = ac_track c" "shape_ok c'"
    and "set (ch_buf (ac_windows c')) \<subseteq> set (ch_buf (ac_windows c))"
  shows "run_of dec ps (w, c')"
proof -
  have "decoded dec c' = decoded dec c" "cut_from dec c' = cut_from dec c" using assms(2-4) by (auto simp: decoded_def cut_from_def fun_eq_iff)
  then show ?thesis using assms by (auto simp: run_of_def at_sample_def)
qed

lemma run_of_rtp: "run_of dec ps (w, c) \<Longrightarrow> run_of dec ps (w, OnAudioRTP now pkt c)"
proof -
  assume ps: "run_of dec ps (w, c)"
  then have "shape_ok (OnAudioRTP now pkt c)"
    by (auto simp: run_of_def shape_ok_def OnAudioRTP_def discontinue_def try_send_def split: option.splits)
  then show ?thesis
    by (intro run_of_shared[OF ps]) (auto simp: OnAudioRTP_def discontinue_def try_send_def split: option.splits)
qed

lemma audio_reach_run: "audio_reach dec taken st \<Longrightarrow> \<exists>ps. subseq ps taken \<and> run_of dec ps st"
proof (induction rule: audio_reach.induct)
  case (audio_new track opts c)
  then show ?case using NewConsumer_shape by blast
next
  case (audio_rtp taken w c now pkt)
  then show ?case using run_of_rtp by blast
next
  case (audio_disconnect taken w c)
  then obtain ps where ps: "subseq ps taken" "run_of dec ps (w, c)" by blast
  have "run_of dec ps (w, audio_OnDisconnect c)"
    by (rule run_of_shared[OF ps(2)]) (use ps in \<open>auto simp: audio_OnDisconnect_def discontinue_def run_of_def shape_ok_def\<close>)
  then show ?case using ps(1) by blast
next
  case (audio_close taken w c)
  then obtain ps where ps: "subseq ps taken" "run_of dec ps (w, c)" by blast
  have "run_of dec ps (w, audio_Close c)"
    by (rule run_of_shared[OF ps(2)]) (use ps in \<open>auto simp: audio_Close_def run_of_def shape_ok_def\<close>)
  then show ?case using ps(1) by blast
next
  case (audio_work taken w c p ch epoch0 epochs generation)
  then obtain ps where ps: "subseq ps taken" "run_of dec ps (w, c)" by blast
  have b: "ch_buf (ac_packets c) = p # ch_buf ch" using audio_work.hyps(2) by (auto simp: try_recv_def split: list.splits)
  then have "0 < pk_epoch p" using ps by (simp add: run_of_def shape_ok_def)
  moreover have "run_of dec ps (w, c\<lparr>ac_packets := ch\<rparr>)"
    by (rule run_of_shared[OF ps(2)]) (use ps b in \<open>auto simp: run_of_def shape_ok_def\<close>)
  ultimately obtain ps' where "subseq ps' (ps @ [p])" "run_of dec ps' (worker_packet dec epoch0 epochs generation p (w, c\<lparr>ac_packets := ch\<rparr>))"
    using run_of_packet by blast
  moreover have "subseq (ps @ [p]) (taken @ [p])" using ps(1) by (simp add: list_emb_append_mono)
  ultimately show ?case using subseq_order.trans by blast
next
  case (audio_take taken w c win ch)
  then obtain ps where ps: "subseq ps taken" "run_of dec ps (w, c)" by blast
  have b: "ch_buf (ac_windows c) = win # ch_buf ch" using audio_take.hyps(2) by (auto simp: try_recv_def split: list.splits)
  have "run_of dec ps (w, c\<lparr>ac_windows := ch\<rparr>)"
    by (rule run_of_shared[OF ps(2)]) (use ps b in \<open>auto simp: run_of_def shape_ok_def\<close>)
  then show ?case using ps(1) by blast
qed

text \<open>Two packets of one stream with nothing lost between them: consecutive numbers, and clocks that agree to a tenth of a second.\<close>

definition in_sequence :: "packet \<Rightarrow> packet \<Rightarrow> bool" where
  "in_sequence q p \<longleftrightarrow> pk_ssrc p = pk_ssrc q \<and> pk_seq p = (pk_seq q + 1) mod 2 ^ 16 \<and>
     \<bar>s32 (pk_ts p - u32 (pk_ts q + int (length (pk_payload q))))\<bar> \<le> 800 \<and>
     tsub (pk_received p) (pk_received q) \<le> int (max (length (pk_payload q)) (length (pk_payload p))) * Second div 8000 + 250 * Millisecond"

lemma continues_in_sequence: "continues q p \<Longrightarrow> in_sequence q p"
  by (auto simp: continues_def in_sequence_def maxTimestampJitterSamples_def maxPacketArrivalJitter_def Let_def)

text \<open>
  C27. No window spans a gap.  Whatever arrives and is dropped, all windows waiting in the channel are cut, at multiples
  of the hop, from the audio of packets that the worker took from the queue in this order and of one connection, each following the
  one before it without loss, reordering or a jump of the clock; their timestamps count the samples of that run and they carry its
  epoch.
\<close>

theorem windows_are_continuous:
  assumes "audio_reach dec taken (w, c)"
  shows "\<exists>ps. subseq ps taken \<and> successively in_sequence ps \<and> (\<forall>p\<in>set ps. pk_epoch p = wk_queueEpoch w) \<and>
    (\<forall>win\<in>set (ch_buf (ac_windows c)). wd_Epoch win = wk_epoch w \<and> cut_from dec c ps win)"
proof -
  obtain ps where ps: "subseq ps taken" "run_of dec ps (w, c)" using audio_reach_run[OF assms] by blast
  then have "successively in_sequence ps" using successively_mono[of continues ps in_sequence] continues_in_sequence by (auto simp: run_of_def)
  then show ?thesis using ps by (auto simp: run_of_def)
qed

text \<open>Two packets of 12 samples fill a window of 16 samples and its successor.\<close>

definition plain_decoder :: "bytes \<Rightarrow> bool \<Rightarrow> int list" where
  "plain_decoder payload aLaw = map uint payload"

definition sample_audio :: audio_Consumer where
  "sample_audio = the (NewConsumer \<lparr>ti_Codec = ''PCMA'', ti_SPS = [], ti_PPS = [], ti_ClockRate = 8000, ti_ChannelCount = 1, ti_PayloadType = 8,
     ti_IsVideo = False\<rparr> \<lparr>op_Window = 2 * Millisecond, op_Hop = Millisecond, op_PacketBuffer = 4, op_WindowBuffer = 2\<rparr>)"

definition sample_packet :: "int \<Rightarrow> rtp_packet" where
  "sample_packet n = \<lparr>rp_Timestamp = 12 * n, rp_SequenceNumber = n, rp_SSRC = 1, rp_PayloadType = 8, rp_Payload = replicate 12 (word_of_int n)\<rparr>"

text \<open>An iteration of the worker with nothing else going on.\<close>

definition work :: "worker \<times> audio_Consumer \<Rightarrow> worker \<times> audio_Consumer" where
  "work st = (case st of (w, c) \<Rightarrow> case try_recv (ac_packets c) of
     (Some p, ch) \<Rightarrow> worker_packet plain_decoder (ac_epoch c) (\<lambda>_. ac_epoch c) (ac_generation c) p (w, c\<lparr>ac_packets := ch\<rparr>) | (None, ch) \<Rightarrow> st)"

definition worked :: "worker \<times> audio_Consumer" where
  "worked = work (work (new_worker, OnAudioRTP 2 (Some (sample_packet 1)) (OnAudioRTP 1 (Some (sample_packet 0)) sample_audio)))"

lemma sample_audio_new: "NewConsumer \<lparr>ti_Codec = ''PCMA'', ti_SPS = [], ti_PPS = [], ti_ClockRate = 8000, ti_ChannelCount = 1, ti_PayloadType = 8,
     ti_IsVideo = False\<rparr> \<lparr>op_Window = 2 * Millisecond, op_Hop = Millisecond, op_PacketBuffer = 4, op_WindowBuffer = 2\<rparr> = Some sample_audio"
  by (simp add: sample_audio_def NewConsumer_def ToUpper_def default_options_def options_bounded_def Millisecond_def Second_def Let_def)

lemma worked_windows: "map wd_PCM (ch_buf (ac_windows (snd worked))) = [replicate 12 0 @ replicate 4 1, replicate 4 0 @ replicate 12 1]"
  by code_simp

definition sample_taken :: "packet list" where
  "sample_taken = map (\<lambda>n. \<lparr>pk_seq = n, pk_ts = 12 * n, pk_ssrc = 1, pk_epoch = 1, pk_payload = replicate 12 (word_of_int n), pk_received = n + 1\<rparr>) [0, 1]"

lemma work_reach:
  "audio_reach plain_decoder taken st \<Longrightarrow> ch_buf (ac_packets (snd st)) = p # ps \<Longrightarrow> audio_reach plain_decoder (taken @ [p]) (work st)"
  using audio_work by (cases st) (auto simp: work_def try_recv_def)

lemma worked_reach: "audio_reach plain_decoder sample_taken worked"
proof -
  let ?st = "(new_worker, OnAudioRTP 2 (Some (sample_packet 1)) (OnAudioRTP 1 (Some (sample_packet 0)) sample_audio))"
  have q: "ch_buf (ac_packets (snd ?st)) = sample_taken" "ch_buf (ac_packets (snd (work ?st))) = drop 1 sample_taken" by code_simp+
  have sample_0: "sample_taken = sample_taken ! 0 # drop 1 sample_taken" and sample_1: "drop 1 sample_taken = [sample_taken ! 1]"
    by (simp_all add: sample_taken_def)
  have "audio_reach plain_decoder [] ?st" by (intro audio_rtp audio_new[OF sample_audio_new])
  then have "audio_reach plain_decoder ([] @ [sample_taken ! 0]) (work ?st)" by (rule work_reach[where ps = "drop 1 sample_taken"]) (rule trans[OF q(1) sample_0])
  then have "audio_reach plain_decoder (([] @ [sample_taken ! 0]) @ [sample_taken ! 1]) (work (work ?st))"
    by (rule work_reach[where ps = "[]"]) (rule trans[OF q(2) sample_1])
  moreover have "([] @ [sample_taken ! 0]) @ [sample_taken ! 1] = sample_taken" by (simp add: sample_taken_def)
  ultimately show ?thesis by (simp only: worked_def)
qed

theorem windows_are_continuous_witness:
  "\<exists>ps. subseq ps sample_taken \<and> successively in_sequence ps \<and> length (ch_buf (ac_windows (snd worked))) = 2 \<and>
     list_all (cut_from plain_decoder (snd worked) ps) (ch_buf (ac_windows (snd worked)))"
proof -
  obtain w c where wc: "worked = (w, c)" by fastforce
  from windows_are_continuous[OF worked_reach[unfolded wc]] obtain ps where
    "subseq ps sample_taken" "successively in_sequence ps" "list_all (cut_from plain_decoder c ps) (ch_buf (ac_windows c))"
    by (auto simp: list_all_iff)
  moreover have "length (ch_buf (ac_windows c)) = 2" using arg_cong[OF worked_windows, of length] by (simp add: wc)
  ultimately show ?thesis by (auto simp: wc)
qed

end
