(* ===== verification/Cry_Monitor.thy ===== *)
theory Cry_Monitor
  imports Audio_Windows
begin

text \<open>
  \<^verbatim>\<open>internal/cry/episode.go\<close> and \<^verbatim>\<open>internal/cry/monitor.go\<close>: when recognised crying begins and ends, and the loop that turns
  windows of audio into the transitions of events.  Scores come from the model, an argument; whether the queue of
  events takes a transition is an argument of every step.  A camera that is stopped and started again runs \<open>Run\<close> anew on the
  same monitor, with fresh local variables: \<open>mo_accepted\<close> records what the queue took in the current run and \<open>mo_runs\<close> what it took
  in the runs before.
\<close>

section \<open>Episodes\<close>

text \<open>Rounding to \<^verbatim>\<open>float32\<close>.\<close>

definition fl32 :: "rat \<Rightarrow> rat" where
  "fl32 x = (if x = 0 then 0 else let u = pow2 (exponent \<bar>x\<bar> - 23) in of_int (round_even (x / u)) * u)"

definition maxWindowGap :: duration where "maxWindowGap = 720 * Millisecond"

record episodeState =
  es_threshold :: rat
  es_high :: nat
  es_low :: nat
  es_active :: bool
  es_last :: gotime
  es_epoch :: nat

definition new_episode :: "rat \<Rightarrow> episodeState" where
  "new_episode threshold = \<lparr>es_threshold = threshold, es_high = 0, es_low = 0, es_active = False, es_last = zeroTime, es_epoch = 0\<rparr>"

definition es_reset :: "episodeState \<Rightarrow> bool \<times> episodeState" where
  "es_reset s = (es_active s, s\<lparr>es_active := False, es_high := 0, es_low := 0, es_last := zeroTime, es_epoch := 0\<rparr>)"

definition es_update :: "gotime \<Rightarrow> nat \<Rightarrow> rat \<Rightarrow> episodeState \<Rightarrow> (bool \<times> bool) \<times> episodeState" where
  "es_update now epoch score s0 =
     (case (if \<not> isZero (es_last s0) \<and> (epoch \<noteq> es_epoch s0 \<or> \<not> tafter now (es_last s0) \<or> tsub now (es_last s0) > maxWindowGap)
            then es_reset s0 else (False, s0)) of
        (ended, s1) \<Rightarrow>
          let s = s1\<lparr>es_last := now, es_epoch := epoch\<rparr>
          in if score \<ge> es_threshold s then
               let s2 = s\<lparr>es_high := es_high s + 1, es_low := 0\<rparr>
               in if \<not> es_active s2 \<and> es_high s2 \<ge> 2 then ((True, ended), s2\<lparr>es_active := True\<rparr>) else ((False, ended), s2)
             else if score < fl32 (es_threshold s * fl32 (7 / 10)) then
               let s2 = s\<lparr>es_high := 0, es_low := es_low s + 1\<rparr>
               in if es_active s2 \<and> es_low s2 \<ge> 3 then ((False, True), s2\<lparr>es_active := False, es_low := 0\<rparr>) else ((False, ended), s2)
             else ((False, ended), s\<lparr>es_high := 0, es_low := 0\<rparr>))"

section \<open>The monitor\<close>

record Transition =
  tr_ID :: string
  tr_At :: gotime
  tr_Score :: rat
  tr_End :: bool
  tr_Notify :: bool

record Monitor =
  mo_cooldown :: duration
  mo_es :: episodeState
  mo_lastAlert :: gotime
  mo_attached :: bool
  mo_track :: "TrackInfo option"
  mo_id :: string
  mo_pending :: "Transition option"
  mo_shed :: nat
  mo_droppedBase :: nat
  mo_lastAudio :: gotime
  mo_State :: string
  mo_Reason :: string
  mo_Alerts :: bool
  mo_SnoozedUntil :: gotime
  mo_Score :: rat
  mo_LastAnalyzed :: gotime
  mo_Episodes :: nat
  mo_DroppedWindows :: nat
  mo_running :: bool
  mo_accepted :: "Transition list"
  mo_runs :: "Transition list list"

definition NewMonitor :: "rat \<Rightarrow> duration \<Rightarrow> bool \<Rightarrow> Monitor" where
  "NewMonitor threshold cooldown alerts =
     \<lparr>mo_cooldown = cooldown, mo_es = new_episode threshold, mo_lastAlert = zeroTime, mo_attached = False, mo_track = None, mo_id = [],
      mo_pending = None, mo_shed = 0, mo_droppedBase = 0, mo_lastAudio = zeroTime, mo_State = ''starting'', mo_Reason = [], mo_Alerts = alerts,
      mo_SnoozedUntil = zeroTime, mo_Score = 0, mo_LastAnalyzed = zeroTime, mo_Episodes = 0, mo_DroppedWindows = 0, mo_running = False,
      mo_accepted = [], mo_runs = []\<rparr>"

definition Snooze :: "gotime \<Rightarrow> Monitor \<Rightarrow> Monitor" where
  "Snooze until m = m\<lparr>mo_SnoozedUntil := until\<rparr>"

definition PersistSnooze :: "gotime \<Rightarrow> bool \<Rightarrow> Monitor \<Rightarrow> bool \<times> Monitor" where
  "PersistSnooze until persisted m = (if \<not> persisted then (False, m) else (True, Snooze until m))"

definition AlertsAt :: "gotime \<Rightarrow> Monitor \<Rightarrow> bool" where
  "AlertsAt tm m = (mo_Alerts m \<and> \<not> tbefore tm (mo_SnoozedUntil m))"

definition mo_state :: "string \<Rightarrow> string \<Rightarrow> Monitor \<Rightarrow> Monitor" where
  "mo_state st reason m = m\<lparr>mo_State := st, mo_Reason := reason\<rparr>"

definition sameTrack :: "TrackInfo option \<Rightarrow> TrackInfo option \<Rightarrow> bool" where
  "sameTrack x y =
     (case (x, y) of
        (Some a, Some b) \<Rightarrow> ti_Codec a = ti_Codec b \<and> ti_ClockRate a = ti_ClockRate b \<and> ti_PayloadType a = ti_PayloadType b \<and>
          ti_ChannelCount a = ti_ChannelCount b \<and> ti_IsVideo a = ti_IsVideo b
      | _ \<Rightarrow> False)"

text \<open>The local functions \<open>end\<close>, \<open>reset\<close> and \<open>detach\<close> of \<open>Run\<close>; \<open>ok\<close> is what \<open>emit\<close> returns.\<close>

definition mo_end :: "gotime \<Rightarrow> bool \<Rightarrow> Monitor \<Rightarrow> Monitor" where
  "mo_end tm ok m =
     (if mo_id m = [] then m
      else
        let t = \<lparr>tr_ID = mo_id m, tr_At = tm, tr_Score = 0, tr_End = True, tr_Notify = False\<rparr>;
            m1 = (if ok then m\<lparr>mo_accepted := mo_accepted m @ [t]\<rparr> else m\<lparr>mo_pending := Some t\<rparr>)
        in m1\<lparr>mo_id := []\<rparr>)"

definition mo_reset :: "gotime \<Rightarrow> bool \<Rightarrow> Monitor \<Rightarrow> Monitor" where
  "mo_reset tm ok m = mo_end tm ok (m\<lparr>mo_es := snd (es_reset (mo_es m))\<rparr>)"

definition mo_detach :: "nat \<Rightarrow> Monitor \<Rightarrow> Monitor" where
  "mo_detach dropped m =
     (if mo_attached m then m\<lparr>mo_droppedBase := mo_droppedBase m + dropped, mo_attached := False, mo_track := None\<rparr> else m)"

text \<open>What a tick of the timer sees; \<open>tk_err\<close> is the text of the error a new consumer may return.\<close>

record tick =
  tk_now :: gotime
  tk_connected :: bool
  tk_track :: "TrackInfo option"
  tk_hasConsumer :: bool
  tk_dropped :: nat
  tk_err :: string
  tk_pendingOK :: bool
  tk_endOK :: bool

definition monitor_options :: Options where
  "monitor_options = \<lparr>op_Window = 2 * Second, op_Hop = 480 * Millisecond, op_PacketBuffer = 0, op_WindowBuffer = 1\<rparr>"

definition retry_pending :: "bool \<Rightarrow> Monitor \<Rightarrow> Monitor" where
  "retry_pending ok m =
     (case mo_pending m of
        Some t \<Rightarrow> if ok then m\<lparr>mo_pending := None, mo_accepted := mo_accepted m @ [t]\<rparr> else m
      | None \<Rightarrow> m)"

definition on_tick :: "tick \<Rightarrow> Monitor \<Rightarrow> Monitor" where
  "on_tick k m0 =
     (let m = retry_pending (tk_pendingOK k) m0;
          stale = (\<lambda>m. if tsub (tk_now k) (mo_lastAudio m) > 3 * Second
                       then mo_state ''unavailable'' ''No fresh camera audio'' (mo_reset (tk_now k) (tk_endOK k) m) else m)
      in if \<not> tk_connected k then mo_state ''unavailable'' ''Camera audio disconnected'' (mo_reset (tk_now k) (tk_endOK k) m)
         else
           (case tk_track k of
              None \<Rightarrow> mo_state ''unavailable'' ''Camera has no audio track'' (mo_detach (tk_dropped k) (mo_reset (tk_now k) (tk_endOK k) m))
            | Some current \<Rightarrow>
                if \<not> mo_attached m \<or> \<not> sameTrack (mo_track m) (Some current) \<or> \<not> tk_hasConsumer k then
                  let m1 = mo_detach (tk_dropped k) (mo_reset (tk_now k) (tk_endOK k) m)
                  in (case NewConsumer current monitor_options of
                        None \<Rightarrow> mo_state ''unsupported'' (tk_err k) m1
                      | Some _ \<Rightarrow>
                          stale (mo_state ''starting'' [] (m1\<lparr>mo_attached := True, mo_track := Some current, mo_lastAudio := tk_now k\<rparr>)))
                else stale m))"

text \<open>Asking the model: a busy model is asked again for at most 200 ms; each answer comes with the time since the first.\<close>

datatype score_result = Scored rat | ScoreBusy | ScoreFailed

fun score_loop :: "(score_result \<times> duration) list \<Rightarrow> score_result" where
  "score_loop [] = ScoreFailed"
| "score_loop ((r, elapsed) # rest) = (if r = ScoreBusy \<and> elapsed < 200 * Millisecond \<and> rest \<noteq> [] then score_loop rest else r)"

record window_event =
  we_win :: Window
  we_age :: duration
  we_generation :: nat
  we_connected :: bool
  we_answers :: "(score_result \<times> duration) list"
  we_took :: duration
  we_age2 :: duration
  we_generation2 :: nat
  we_connected2 :: bool
  we_dropped :: nat
  we_candidate :: string
  we_endOK :: bool
  we_startOK :: bool

definition analysed :: "window_event \<Rightarrow> rat \<Rightarrow> Monitor \<Rightarrow> Monitor" where
  "analysed e score m =
     m\<lparr>mo_Score := score, mo_LastAnalyzed := wd_ReceivedAt (we_win e), mo_State := (if es_active (mo_es m) then ''crying'' else ''listening''),
       mo_Reason := [], mo_DroppedWindows := we_dropped e + mo_droppedBase m + mo_shed m\<rparr>"

definition queue_full :: "Monitor \<Rightarrow> Monitor" where
  "queue_full m = mo_state ''overloaded'' ''Event queue unavailable'' (m\<lparr>mo_es := snd (es_reset (mo_es m))\<rparr>)"

text \<open>A score that arrived in time.\<close>

definition on_score :: "window_event \<Rightarrow> rat \<Rightarrow> Monitor \<Rightarrow> Monitor" where
  "on_score e score m =
     (let tm = wd_ReceivedAt (we_win e)
      in case es_update tm (wd_Epoch (we_win e)) score (mo_es m) of
           ((begin_it, finish), es) \<Rightarrow>
             let m1 = m\<lparr>mo_es := es\<rparr>; m2 = (if finish then mo_end tm (we_endOK e) m1 else m1)
             in if begin_it then
                  if mo_pending m2 \<noteq> None then queue_full m2
                  else
                    let notify = (AlertsAt tm m2 \<and> (isZero (mo_lastAlert m2) \<or> tsub tm (mo_lastAlert m2) \<ge> mo_cooldown m2));
                        t = \<lparr>tr_ID = we_candidate e, tr_At = tm, tr_Score = score, tr_End = False, tr_Notify = notify\<rparr>
                    in if \<not> we_startOK e then queue_full m2
                       else analysed e score (m2\<lparr>mo_accepted := mo_accepted m2 @ [t], mo_id := we_candidate e,
                              mo_lastAlert := (if notify then tm else mo_lastAlert m2), mo_Episodes := mo_Episodes m2 + 1\<rparr>)
                else analysed e score m2)"

definition on_window :: "window_event \<Rightarrow> Monitor \<Rightarrow> Monitor" where
  "on_window e m0 =
     (let tm = wd_ReceivedAt (we_win e); m = m0\<lparr>mo_lastAudio := tm\<rparr>; g = wd_Generation (we_win e);
          failed = (\<lambda>reason. mo_state ''unavailable'' reason (mo_reset tm (we_endOK e) m))
      in if we_age e > Second \<or> g \<noteq> we_generation e \<or> \<not> we_connected e then failed ''Camera audio interrupted''
         else
           (case score_loop (we_answers e) of
              ScoreBusy \<Rightarrow>
                let m1 = mo_reset tm (we_endOK e) m
                in mo_state ''overloaded'' ''Recognition capacity exceeded''
                     (m1\<lparr>mo_shed := mo_shed m1 + 1, mo_DroppedWindows := mo_shed m1 + 1 + mo_droppedBase m1 + we_dropped e\<rparr>)
            | ScoreFailed \<Rightarrow> failed ''Audio recognition failed''
            | Scored score \<Rightarrow>
                if score < 0 \<or> score > 1 then failed ''Audio recognition failed''
                else if we_took e > Second \<or> we_age2 e > Second \<or> g \<noteq> we_generation2 e \<or> \<not> we_connected2 e then failed ''Recognition result expired''
                else on_score e score m))"

definition on_stop :: "gotime \<Rightarrow> bool \<Rightarrow> nat \<Rightarrow> Monitor \<Rightarrow> Monitor" where
  "on_stop now ok dropped m = (mo_state ''stopped'' [] (mo_detach dropped (mo_reset now ok m)))\<lparr>mo_running := False\<rparr>"

text \<open>The call of \<open>Run\<close>: its local variables are new, the status and the threshold are the monitor's.\<close>

definition on_start :: "Monitor \<Rightarrow> Monitor" where
  "on_start m =
     m\<lparr>mo_es := new_episode (es_threshold (mo_es m)), mo_lastAlert := zeroTime, mo_attached := False, mo_track := None, mo_id := [],
       mo_pending := None, mo_shed := 0, mo_droppedBase := 0, mo_lastAudio := zeroTime, mo_running := True,
       mo_accepted := [], mo_runs := mo_runs m @ [mo_accepted m]\<rparr>"

text \<open>Runs with a model: ticks and windows in any order, snoozes from outside, stops and starts.\<close>

inductive mon_reach :: "Monitor \<Rightarrow> bool" where
  mon_new: "mon_reach (NewMonitor threshold cooldown alerts)"
| mon_start: "mon_reach m \<Longrightarrow> \<not> mo_running m \<Longrightarrow> mon_reach (on_start m)"
| mon_tick: "mon_reach m \<Longrightarrow> mo_running m \<Longrightarrow> mon_reach (on_tick k m)"
| mon_window: "mon_reach m \<Longrightarrow> mo_running m \<Longrightarrow> mo_attached m \<Longrightarrow> zeroTime < wd_ReceivedAt (we_win e) \<Longrightarrow> we_candidate e \<noteq> [] \<Longrightarrow>
    mon_reach (on_window e m)"
| mon_snooze: "mon_reach m \<Longrightarrow> mon_reach (snd (PersistSnooze until persisted m))"
| mon_stop: "mon_reach m \<Longrightarrow> mo_running m \<Longrightarrow> mon_reach (on_stop now ok dropped m)"

section \<open>Onset\<close>

datatype es_input = EsReset | EsScore gotime nat rat

fun es_feed :: "es_input list \<Rightarrow> episodeState \<Rightarrow> episodeState" where
  "es_feed [] s = s"
| "es_feed (EsReset # is) s = es_feed is (snd (es_reset s))"
| "es_feed (EsScore t e sc # is) s = es_feed is (snd (es_update t e sc s))"

lemma es_feed_append: "es_feed (xs @ ys) s = es_feed ys (es_feed xs s)"
  by (induction xs s rule: es_feed.induct) simp_all

lemma es_threshold_feed: "es_threshold (es_feed is s) = es_threshold s"
  by (induction "is" s rule: es_feed.induct) (simp_all add: es_reset_def es_update_def Let_def split: prod.splits if_splits)

text \<open>What the counter of high windows stands for.\<close>

lemma es_high_feed:
  assumes "0 < es_high (es_feed is (new_episode threshold))"
  shows "\<exists>pre t e sc. is = pre @ [EsScore t e sc] \<and> threshold \<le> sc \<and>
    es_last (es_feed is (new_episode threshold)) = t \<and> es_epoch (es_feed is (new_episode threshold)) = e"
proof (cases "is" rule: rev_cases)
  case Nil
  then show ?thesis using assms by (simp add: new_episode_def)
next
  case (snoc pre x)
  let ?s = "es_feed pre (new_episode threshold)"
  have th: "es_threshold ?s = threshold" by (simp add: es_threshold_feed new_episode_def)
  show ?thesis
  proof (cases x)
    case EsReset
    then show ?thesis using assms snoc by (simp add: es_feed_append es_reset_def)
  next
    case (EsScore t e sc)
    have "threshold \<le> sc"
      using assms snoc EsScore th by (auto simp: es_feed_append es_update_def es_reset_def Let_def split: prod.splits if_splits)
    moreover have "es_last (snd (es_update t e sc ?s)) = t" "es_epoch (snd (es_update t e sc ?s)) = e"
      by (simp_all add: es_update_def Let_def split: prod.splits)
    ultimately show ?thesis using snoc EsScore by (auto simp: es_feed_append)
  qed
qed

lemma es_update_high: "threshold \<le> sc \<Longrightarrow> es_threshold s = threshold \<Longrightarrow> 0 < es_high (snd (es_update t e sc s))"
  by (simp add: es_update_def es_reset_def Let_def split: prod.splits)

text \<open>
  Crying begins exactly when no episode is on and two windows in a row, of one uninterrupted stream and at most
  720 ms apart, score at least the threshold: whatever scores and resets came before.
\<close>

theorem cry_begins_exactly:
  assumes "s = es_feed is (new_episode threshold)" and "list_all (\<lambda>i. case i of EsScore t _ _ \<Rightarrow> zeroTime < t | EsReset \<Rightarrow> True) is"
  shows "fst (fst (es_update t e sc s)) \<longleftrightarrow> \<not> es_active s \<and> threshold \<le> sc \<and>
    (\<exists>pre t' sc'. is = pre @ [EsScore t' e sc'] \<and> threshold \<le> sc' \<and> t' < t \<and> tsub t t' \<le> maxWindowGap)"
proof -
  have th: "es_threshold s = threshold" by (simp add: assms(1) es_threshold_feed new_episode_def)
  show ?thesis
  proof
    assume "fst (fst (es_update t e sc s))"
    then have sc: "threshold \<le> sc" "\<not> es_active s" "0 < es_high s"
        "isZero (es_last s) \<or> e = es_epoch s \<and> tafter t (es_last s) \<and> tsub t (es_last s) \<le> maxWindowGap"
      using th by (auto simp: es_update_def es_reset_def Let_def split: prod.splits if_splits)
    from es_high_feed[of "is" threshold] sc(3) obtain pre t' e' sc' where
      p: "is = pre @ [EsScore t' e' sc']" "threshold \<le> sc'" "es_last s = t'" "es_epoch s = e'"
      unfolding assms(1) by blast
    then have "\<not> isZero (es_last s)" using assms(2) by (simp add: isZero_def)
    then show "\<not> es_active s \<and> threshold \<le> sc \<and> (\<exists>pre t' sc'. is = pre @ [EsScore t' e sc'] \<and> threshold \<le> sc' \<and> t' < t \<and> tsub t t' \<le> maxWindowGap)"
      using sc p by (auto simp: tafter_def)
  next
    assume "\<not> es_active s \<and> threshold \<le> sc \<and> (\<exists>pre t' sc'. is = pre @ [EsScore t' e sc'] \<and> threshold \<le> sc' \<and> t' < t \<and> tsub t t' \<le> maxWindowGap)"
    then obtain pre t' sc' where p: "is = pre @ [EsScore t' e sc']" "threshold \<le> sc'" "t' < t" "tsub t t' \<le> maxWindowGap"
      and a: "\<not> es_active s" "threshold \<le> sc" by blast
    let ?s = "es_feed pre (new_episode threshold)"
    have s: "s = snd (es_update t' e sc' ?s)" by (simp add: assms(1) p(1) es_feed_append)
    have "0 < es_high s" unfolding s by (rule es_update_high[OF p(2)]) (simp add: es_threshold_feed new_episode_def)
    moreover have "es_last s = t'" "es_epoch s = e" by (simp_all add: s es_update_def Let_def split: prod.splits)
    ultimately show "fst (fst (es_update t e sc s))" using a p(3,4) th by (simp add: es_update_def tafter_def Let_def)
  qed
qed

theorem cry_begins_exactly_witness:
  "fst (fst (es_update (3 * Second) 1 (9 / 10) (es_feed [EsReset, EsScore (3 * Second - 480 * Millisecond) 1 (8 / 10)] (new_episode (7 / 10)))))"
proof -
  let ?is = "[EsReset, EsScore (3 * Second - 480 * Millisecond) 1 (8 / 10)]"
  have pos: "list_all (\<lambda>i. case i of EsScore t _ _ \<Rightarrow> zeroTime < t | EsReset \<Rightarrow> True) ?is"
    by (simp add: zeroTime_def Second_def Millisecond_def)
  have off: "\<not> es_active (es_feed ?is (new_episode (7 / 10)))" by (simp add: es_reset_def es_update_def new_episode_def isZero_def Let_def)
  have "\<exists>pre t' sc'. ?is = pre @ [EsScore t' 1 sc'] \<and> 7 / 10 \<le> sc' \<and> t' < 3 * Second \<and> tsub (3 * Second) t' \<le> maxWindowGap"
    by (rule exI[of _ "[EsReset]"], rule exI[of _ "3 * Second - 480 * Millisecond"], rule exI[of _ "8 / 10"])
      (simp add: maxWindowGap_def Second_def Millisecond_def tsub_def duration_limits)
  then show ?thesis using cry_begins_exactly[OF refl pos, of "3 * Second" 1 "9 / 10" "7 / 10"] off by simp
qed

section \<open>What the queue of events gets\<close>

text \<open>The episode a list of transitions leaves open: every end belongs to the start before it.\<close>

fun episodes :: "string option \<Rightarrow> Transition list \<Rightarrow> string option option" where
  "episodes opened [] = Some opened"
| "episodes None (t # ts) = (if tr_End t then None else episodes (Some (tr_ID t)) ts)"
| "episodes (Some i) (t # ts) = (if tr_End t \<and> tr_ID t = i then episodes None ts else None)"

lemma episodes_snoc: "episodes opened (ts @ [t]) = (case episodes opened ts of None \<Rightarrow> None | Some o1 \<Rightarrow> episodes o1 [t])"
  by (induction opened ts rule: episodes.induct) auto

definition unended :: "Monitor \<Rightarrow> string option" where
  "unended m = (if mo_id m \<noteq> [] then Some (mo_id m) else map_option tr_ID (mo_pending m))"

lemma episodes_append: "episodes opened (ts @ us) = (case episodes opened ts of None \<Rightarrow> None | Some o1 \<Rightarrow> episodes o1 us)"
  by (induction opened ts rule: episodes.induct) auto

definition alert_times :: "Monitor \<Rightarrow> gotime list" where
  "alert_times m = map tr_At (filter tr_Notify (mo_accepted m))"

definition mon_ok :: "Monitor \<Rightarrow> bool" where
  "mon_ok m \<longleftrightarrow> episodes None (mo_accepted m) = Some (unended m) \<and>
     (mo_id m \<noteq> [] \<longrightarrow> mo_pending m = None \<and> es_active (mo_es m)) \<and> (\<forall>t. mo_pending m = Some t \<longrightarrow> tr_End t \<and> \<not> tr_Notify t) \<and>
     mo_lastAlert m = (if alert_times m = [] then zeroTime else last (alert_times m)) \<and>
     (\<forall>t\<in>set (alert_times m). zeroTime < t) \<and> successively (\<lambda>t u. mo_cooldown m \<le> tsub u t) (alert_times m) \<and>
     (\<forall>ts\<in>set (mo_runs m). (\<exists>o1. episodes None ts = Some o1) \<and> successively (\<lambda>t u. mo_cooldown m \<le> tsub (tr_At u) (tr_At t)) (filter tr_Notify ts))"

text \<open>The fields the invariant is about.\<close>

lemma mon_ok_cong:
  assumes "mon_ok m" and "mo_accepted m' = mo_accepted m" "mo_id m' = mo_id m" "mo_pending m' = mo_pending m" "mo_lastAlert m' = mo_lastAlert m"
    "mo_cooldown m' = mo_cooldown m" "mo_runs m' = mo_runs m" "mo_id m \<noteq> [] \<Longrightarrow> es_active (mo_es m')"
  shows "mon_ok m'"
  using assms by (auto simp: mon_ok_def unended_def alert_times_def)

lemma mon_ok_active: "mon_ok m \<Longrightarrow> mo_id m \<noteq> [] \<Longrightarrow> es_active (mo_es m)"
  by (simp add: mon_ok_def)

lemma mon_ok_state [simp]: "mon_ok (mo_state st reason m) = mon_ok m"
  by (auto simp: mo_state_def mon_ok_def unended_def alert_times_def)

lemma mon_ok_end:
  assumes "mon_ok (m\<lparr>mo_es := es\<rparr>)"
  shows "mon_ok ((mo_end tm ok m)\<lparr>mo_es := es'\<rparr>) \<and> mo_id (mo_end tm ok m) = []"
  using assms by (auto simp: mon_ok_def mo_end_def unended_def alert_times_def episodes_snoc Let_def)

lemma mo_end_es: "mo_end tm ok (m\<lparr>mo_es := es\<rparr>) = (mo_end tm ok m)\<lparr>mo_es := es\<rparr>"
  by (simp add: mo_end_def Let_def)

lemma mon_ok_reset: "mon_ok m \<Longrightarrow> mon_ok (mo_reset tm ok m)"
  using mon_ok_end[where m = m and es = "mo_es m"] by (simp add: mo_reset_def mo_end_es)

lemma mon_ok_detach: "mon_ok m \<Longrightarrow> mon_ok (mo_detach dropped m)"
  by (rule mon_ok_cong, assumption) (auto simp: mo_detach_def dest: mon_ok_active)

lemma mon_ok_retry: "mon_ok m \<Longrightarrow> mon_ok (retry_pending ok m)"
  by (auto simp: retry_pending_def mon_ok_def unended_def alert_times_def episodes_snoc split: option.splits)

lemma mon_ok_tick:
  assumes "mon_ok m"
  shows "mon_ok (on_tick k m)"
proof -
  let ?m = "retry_pending (tk_pendingOK k) m"
  have m: "mon_ok ?m" by (rule mon_ok_retry[OF assms])
  have d: "mon_ok (mo_detach (tk_dropped k) (mo_reset (tk_now k) (tk_endOK k) ?m))" by (intro mon_ok_detach mon_ok_reset m)
  have "mon_ok (mo_state ''starting'' [] (x\<lparr>mo_attached := True, mo_track := y, mo_lastAudio := z\<rparr>))" if "mon_ok x" for x y z
    using that by (auto simp: mon_ok_def unended_def alert_times_def mo_state_def)
  then show ?thesis using m d mon_ok_reset by (simp add: on_tick_def Let_def split: option.split)
qed

lemma es_update_ends:
  "es_update tm e sc s = ((begin_it, finish), s') \<Longrightarrow>
     \<not> (begin_it \<and> finish) \<and> (es_active s \<longrightarrow> \<not> begin_it \<and> (finish \<or> es_active s')) \<and> (begin_it \<longrightarrow> es_active s')"
  by (auto simp: es_update_def es_reset_def Let_def split: prod.splits if_splits)

lemma mon_ok_analysed: "mon_ok m \<Longrightarrow> mon_ok (analysed e score m)"
  by (rule mon_ok_cong, assumption) (auto simp: analysed_def dest: mon_ok_active)

lemma mon_ok_queue_full: "mon_ok m \<Longrightarrow> mo_id m = [] \<Longrightarrow> mon_ok (queue_full m)"
  using mon_ok_cong[of m "m\<lparr>mo_es := snd (es_reset (mo_es m))\<rparr>"] by (simp add: queue_full_def)

lemma mon_ok_score:
  assumes "mon_ok m" and "zeroTime < wd_ReceivedAt (we_win e)" and "we_candidate e \<noteq> []"
  shows "mon_ok (on_score e score m)"
proof -
  let ?at = "wd_ReceivedAt (we_win e)"
  obtain begin_it finish es where u: "es_update ?at (wd_Epoch (we_win e)) score (mo_es m) = ((begin_it, finish), es)" by (metis surj_pair)
  note ends = es_update_ends[OF u]
  define m2 where "m2 = (if finish then mo_end ?at (we_endOK e) (m\<lparr>mo_es := es\<rparr>) else m\<lparr>mo_es := es\<rparr>)"
  have ok2: "mon_ok m2"
  proof (cases finish)
    case True
    then show ?thesis using mon_ok_end[where m = m and es = "mo_es m" and tm = ?at and ok = "we_endOK e" and es' = es] assms(1) by (simp add: m2_def mo_end_es)
  next
    case False
    then show ?thesis using assms(1) ends by (simp add: m2_def) (rule mon_ok_cong[OF assms(1)], auto simp: mon_ok_def)
  qed
  show ?thesis
  proof (cases begin_it)
    case False
    then show ?thesis using ok2 by (simp add: on_score_def u m2_def[symmetric] mon_ok_analysed Let_def)
  next
    case True
    then have m2: "m2 = m\<lparr>mo_es := es\<rparr>" and act: "es_active es" "\<not> es_active (mo_es m)" using ends by (auto simp: m2_def)
    then have id: "mo_id m2 = []" using assms(1) by (auto simp: mon_ok_def)
    define notify where "notify = (AlertsAt ?at m2 \<and> (isZero (mo_lastAlert m2) \<or> tsub ?at (mo_lastAlert m2) \<ge> mo_cooldown m2))"
    define t where "t = \<lparr>tr_ID = we_candidate e, tr_At = ?at, tr_Score = score, tr_End = False, tr_Notify = notify\<rparr>"
    define m3 where "m3 = m2\<lparr>mo_accepted := mo_accepted m2 @ [t], mo_id := we_candidate e, mo_lastAlert := (if notify then ?at else mo_lastAlert m2),
      mo_Episodes := mo_Episodes m2 + 1\<rparr>"
    have "mon_ok m3" if "mo_pending m2 = None"
    proof -
      have al: "alert_times m3 = (if notify then alert_times m2 @ [?at] else alert_times m2)" by (simp add: m3_def alert_times_def t_def)
      have "mo_cooldown m2 \<le> tsub ?at (last (alert_times m2))" if "notify" "alert_times m2 \<noteq> []"
      proof -
        have "zeroTime < last (alert_times m2)" "mo_lastAlert m2 = last (alert_times m2)" using that(2) ok2 by (auto simp: mon_ok_def)
        then show ?thesis using that(1) by (auto simp: notify_def isZero_def)
      qed
      then have "successively (\<lambda>t u. mo_cooldown m2 \<le> tsub u t) (alert_times m3)"
        using ok2 unfolding al by (auto simp: mon_ok_def successively_append_iff)
      moreover have "episodes None (mo_accepted m3) = Some (Some (we_candidate e))"
        using ok2 id that by (simp add: m3_def mon_ok_def unended_def episodes_snoc t_def)
      ultimately show ?thesis using ok2 assms(2,3) act that al by (auto simp: mon_ok_def m3_def unended_def m2)
    qed
    moreover have "on_score e score m = (if mo_pending m2 \<noteq> None \<or> \<not> we_startOK e then queue_full m2 else analysed e score m3)"
      unfolding on_score_def Let_def u prod.case m2_def[symmetric] notify_def[symmetric] t_def[symmetric] m3_def[symmetric] using True by simp
    ultimately show ?thesis using mon_ok_queue_full[OF ok2 id] mon_ok_analysed[of m3] by simp
  qed
qed

lemma mon_ok_start: "mon_ok m \<Longrightarrow> mon_ok (on_start m)"
  by (auto simp: on_start_def mon_ok_def unended_def alert_times_def successively_map)

lemma mon_ok_stop: "mon_ok m \<Longrightarrow> mon_ok (on_stop now ok dropped m)"
proof -
  assume "mon_ok m"
  then have d: "mon_ok (mo_detach dropped (mo_reset now ok m))" by (intro mon_ok_detach mon_ok_reset)
  show ?thesis by (rule mon_ok_cong[OF d]) (simp_all add: on_stop_def mo_state_def mon_ok_active[OF d])
qed

lemma mon_reach_ok: "mon_reach m \<Longrightarrow> mon_ok m"
proof (induction rule: mon_reach.induct)
  case (mon_new threshold cooldown alerts)
  then show ?case by (simp add: mon_ok_def NewMonitor_def unended_def alert_times_def)
next
  case (mon_tick m k)
  then show ?case by (simp add: mon_ok_tick)
next
  case (mon_window m e)
  let ?m = "m\<lparr>mo_lastAudio := wd_ReceivedAt (we_win e)\<rparr>"
  have m: "mon_ok ?m" by (rule mon_ok_cong[OF mon_window.IH]) (use mon_window.IH in \<open>auto simp: mon_ok_def\<close>)
  have "mon_ok (x\<lparr>mo_shed := y, mo_DroppedWindows := z\<rparr>)" if "mon_ok x" for x y z
    using that by (auto simp: mon_ok_def unended_def alert_times_def)
  then show ?case using m mon_ok_reset[OF m] mon_ok_score[OF m mon_window.hyps(4,5)]
    by (simp add: on_window_def Let_def split: score_result.split)
next
  case (mon_snooze m until persisted)
  then show ?case by (auto simp: PersistSnooze_def Snooze_def mon_ok_def unended_def alert_times_def)
next
  case (mon_stop m now ok dropped)
  then show ?case by (simp add: mon_ok_stop)
next
  case (mon_start m)
  then show ?case by (simp add: mon_ok_start)
qed



section \<open>A night with two episodes\<close>

definition cry_track :: TrackInfo where
  "cry_track = \<lparr>ti_Codec = ''PCMA'', ti_SPS = [], ti_PPS = [], ti_ClockRate = 8000, ti_ChannelCount = 1, ti_PayloadType = 8, ti_IsVideo = False\<rparr>"

definition cry_tick :: "gotime \<Rightarrow> bool \<Rightarrow> tick" where
  "cry_tick now up = \<lparr>tk_now = now, tk_connected = up, tk_track = Some cry_track, tk_hasConsumer = True, tk_dropped = 0, tk_err = [],
     tk_pendingOK = True, tk_endOK = True\<rparr>"

definition cry_window :: "gotime \<Rightarrow> string \<Rightarrow> window_event" where
  "cry_window tm name = \<lparr>we_win = \<lparr>wd_PCM = [], wd_SampleRate = 8000, wd_RTPStart = 0, wd_Epoch = 1, wd_Generation = 1, wd_ReceivedAt = tm\<rparr>,
     we_age = 0, we_generation = 1, we_connected = True, we_answers = [(Scored (9 / 10), 0)], we_took = 0, we_age2 = 0, we_generation2 = 1,
     we_connected2 = True, we_dropped = 0, we_candidate = name, we_endOK = True, we_startOK = True\<rparr>"

definition cry_twice :: "gotime \<Rightarrow> string \<Rightarrow> Monitor \<Rightarrow> Monitor" where
  "cry_twice tm name m = on_window (cry_window tm name) (on_window (cry_window (tm - 1) ''cry-0'') m)"

definition cry_started :: Monitor where
  "cry_started = on_tick (cry_tick Second True) (on_start (NewMonitor (7 / 10) (5 * Second) True))"

definition first_cry :: Monitor where
  "first_cry = cry_twice (2 * Second) ''cry-1'' cry_started"

definition second_cry :: Monitor where
  "second_cry = cry_twice (12 * Second) ''cry-2'' (on_tick (cry_tick (4 * Second) False) first_cry)"

text \<open>The camera is stopped while the queue is full, and started again.\<close>

definition first_start :: Transition where
  "first_start = \<lparr>tr_ID = ''cry-1'', tr_At = 2 * Second, tr_Score = 9 / 10, tr_End = False, tr_Notify = True\<rparr>"

definition stopped_cry :: Monitor where
  "stopped_cry = \<lparr>mo_cooldown = 5 * Second, mo_es = new_episode (7 / 10), mo_lastAlert = 2 * Second, mo_attached = False, mo_track = None, mo_id = [],
     mo_pending = Some \<lparr>tr_ID = ''cry-1'', tr_At = 3 * Second, tr_Score = 0, tr_End = True, tr_Notify = False\<rparr>, mo_shed = 0, mo_droppedBase = 0,
     mo_lastAudio = 2 * Second, mo_State = ''stopped'', mo_Reason = [], mo_Alerts = True, mo_SnoozedUntil = zeroTime, mo_Score = 9 / 10,
     mo_LastAnalyzed = 2 * Second, mo_Episodes = 1, mo_DroppedWindows = 0, mo_running = False, mo_accepted = [first_start], mo_runs = [[]]\<rparr>"

definition restarted_cry :: Monitor where
  "restarted_cry = cry_twice (4 * Second) ''cry-3'' (on_tick (cry_tick (3 * Second) True) (on_start stopped_cry))"

lemma on_window_keeps [simp]: "mo_attached (on_window e m) = mo_attached m" "mo_running (on_window e m) = mo_running m"
  by (simp_all add: on_window_def on_score_def mo_reset_def mo_end_def mo_state_def queue_full_def analysed_def Let_def
      split: score_result.split prod.split)

lemma on_tick_running [simp]: "mo_running (on_tick k m) = mo_running m"
  by (simp add: on_tick_def retry_pending_def mo_reset_def mo_end_def mo_detach_def mo_state_def Let_def split: option.split)

lemma cry_twice_reach:
  assumes "mon_reach m" "mo_running m" "mo_attached m" "1 < tm" "name \<noteq> []"
  shows "mon_reach (cry_twice tm name m)"
  unfolding cry_twice_def using assms by (intro mon_window) (simp_all add: cry_window_def zeroTime_def)

lemma first_cry_reach: "mon_reach first_cry" "mo_running first_cry"
proof -
  have "mo_attached cry_started" by code_simp
  moreover have "mon_reach cry_started" "mo_running cry_started"
    unfolding cry_started_def by (intro mon_tick mon_start mon_new) (simp_all add: NewMonitor_def on_start_def)
  ultimately show "mon_reach first_cry" "mo_running first_cry"
    by (auto simp: first_cry_def cry_twice_def[symmetric] Second_def Millisecond_def intro!: cry_twice_reach) (simp add: cry_twice_def)
qed

lemma second_cry_reach: "mon_reach second_cry"
proof -
  have "mo_attached (on_tick (cry_tick (4 * Second) False) first_cry)" by code_simp
  then show ?thesis unfolding second_cry_def
    by (intro cry_twice_reach mon_tick first_cry_reach) (simp_all add: first_cry_reach(2) Second_def Millisecond_def)
qed

lemma stopped_cry_reach: "mon_reach stopped_cry"
proof -
  have "stopped_cry = on_stop (3 * Second) False 0 first_cry" by code_simp
  then show ?thesis using mon_stop[OF first_cry_reach, of "3 * Second" False 0] by simp
qed

lemma restarted_cry_reach: "mon_reach restarted_cry"
proof -
  have "mo_attached (on_tick (cry_tick (3 * Second) True) (on_start stopped_cry))" by code_simp
  then show ?thesis unfolding restarted_cry_def
    by (intro cry_twice_reach mon_tick mon_start stopped_cry_reach) (simp_all add: on_start_def stopped_cry_def Second_def Millisecond_def)
qed

lemma second_cry_value:
  "(map (\<lambda>t. (tr_ID t, tr_At t, tr_Notify t)) (mo_accepted second_cry), mo_id second_cry, mo_cooldown second_cry, mo_runs second_cry) =
     ([(''cry-1'', 2 * Second, True), (''cry-1'', 4 * Second, False), (''cry-2'', 12 * Second, True)], ''cry-2'', 5 * Second, [[]])"
  by code_simp

lemma second_cry_eval:
  "length (mo_accepted second_cry) = 3" "length (filter tr_Notify (mo_accepted second_cry)) = 2" "mo_id second_cry = ''cry-2''"
  "mo_cooldown second_cry = 5 * Second" "mo_runs second_cry = [[]]"
  using second_cry_value by (auto simp: map_eq_Cons_conv)



text \<open>
  A restart forgets both: an end that the queue refused at the stop is never sent, so that the queue takes two starts in a
  row, and the second start asks for a notification two seconds after the first although the cooldown is five.
\<close>

theorem restart_forgets:
  "mon_reach restarted_cry \<and> episodes None (concat (mo_runs restarted_cry) @ mo_accepted restarted_cry) = None \<and>
   map (\<lambda>t. (tr_ID t, tr_End t, tr_Notify t)) (concat (mo_runs restarted_cry) @ mo_accepted restarted_cry) =
     [(''cry-1'', False, True), (''cry-3'', False, True)] \<and>
   map tr_At (concat (mo_runs restarted_cry) @ mo_accepted restarted_cry) = [2 * Second, 4 * Second] \<and> mo_cooldown restarted_cry = 5 * Second"
proof -
  have "(mo_runs restarted_cry, mo_accepted restarted_cry, mo_cooldown restarted_cry) =
    ([[], [first_start]], [first_start\<lparr>tr_ID := ''cry-3'', tr_At := 4 * Second\<rparr>], 5 * Second)" by code_simp
  then show ?thesis using restarted_cry_reach by (simp add: first_start_def)
qed

end
