(* ===== verification/Recompression.thy ===== *)
theory Recompression
  imports Retention
begin

text \<open>
  \<^verbatim>\<open>internal/recording/recompress.go\<close>, the tables it works on (\<^verbatim>\<open>internal/storage/db.go\<close>) and the commit of a transcoded file
  (\<^verbatim>\<open>internal/recording/transcode_subprocess.go\<close>).  What the clock, the disk, the worker process and the database
  answer during one pass is the argument \<open>re\<close>.
\<close>

section \<open>Tables\<close>

text \<open>The clip columns of an event; the failure kind of a segment is a column of its own.\<close>

record clip_row =
  cr_id :: string
  cr_camera :: string
  cr_path :: string
  cr_available :: bool
  cr_size :: int
  cr_end :: "gotime option"
  cr_recompressed :: bool
  cr_recompressedAt :: gotime
  cr_failures :: int
  cr_kind :: string

record tables =
  tb_segments :: store
  tb_segKind :: "int \<Rightarrow> string"
  tb_clips :: "clip_row list"

record ClipRecord =
  cp_EventID :: string
  cp_Camera :: string
  cp_ClipPath :: string
  cp_ClipSizeBytes :: int
  cp_EndTime :: gotime
  cp_RecompressFailures :: int

definition segment_eligible :: "string \<Rightarrow> gotime \<Rightarrow> SegmentRecord \<Rightarrow> bool" where
  "segment_eligible cam cutoff r \<longleftrightarrow> seg_Camera r = cam \<and> seg_EndTime r < cutoff \<and> \<not> seg_Recompressed r \<and> seg_RecompressFailures r < 3"

definition GetRecompressionCandidatesBySize :: "string \<Rightarrow> gotime \<Rightarrow> nat \<Rightarrow> tables \<Rightarrow> SegmentRecord list" where
  "GetRecompressionCandidatesBySize cam cutoff limit tb =
     take limit (sort_key (\<lambda>r. - seg_SizeBytes r) (sort_key seg_StartTime (filter (segment_eligible cam cutoff) (rows (tb_segments tb)))))"

definition GetSegmentsForRecompression :: "string \<Rightarrow> gotime \<Rightarrow> tables \<Rightarrow> SegmentRecord list" where
  "GetSegmentsForRecompression cam olderThan tb = sort_key seg_EndTime (filter (segment_eligible cam olderThan) (rows (tb_segments tb)))"

definition clip_eligible :: "string \<Rightarrow> gotime \<Rightarrow> clip_row \<Rightarrow> bool" where
  "clip_eligible cam cutoff r \<longleftrightarrow> cr_camera r = cam \<and> cr_available r \<and> (case cr_end r of None \<Rightarrow> False | Some t \<Rightarrow> t < cutoff) \<and>
     \<not> cr_recompressed r \<and> cr_failures r < 3"

definition scanClip :: "clip_row \<Rightarrow> ClipRecord" where
  "scanClip r = \<lparr>cp_EventID = cr_id r, cp_Camera = cr_camera r, cp_ClipPath = cr_path r, cp_ClipSizeBytes = cr_size r,
     cp_EndTime = (case cr_end r of None \<Rightarrow> zeroTime | Some t \<Rightarrow> t), cp_RecompressFailures = cr_failures r\<rparr>"

definition GetClipsForRecompression :: "string \<Rightarrow> gotime \<Rightarrow> tables \<Rightarrow> ClipRecord list" where
  "GetClipsForRecompression cam cutoff tb = sort_key cp_EndTime (map scanClip (filter (clip_eligible cam cutoff) (tb_clips tb)))"

definition GetClipRecompressionCandidatesBySize :: "string \<Rightarrow> gotime \<Rightarrow> nat \<Rightarrow> tables \<Rightarrow> ClipRecord list" where
  "GetClipRecompressionCandidatesBySize cam cutoff limit tb =
     take limit (sort_key (\<lambda>r. - cp_ClipSizeBytes r) (sort_key cp_EndTime (map scanClip (filter (clip_eligible cam cutoff) (tb_clips tb)))))"

definition GetSegmentByID :: "int \<Rightarrow> tables \<Rightarrow> SegmentRecord option" where
  "GetSegmentByID i tb = find (\<lambda>r. seg_ID r = i) (rows (tb_segments tb))"

definition update_segment :: "int \<Rightarrow> (SegmentRecord \<Rightarrow> SegmentRecord) \<Rightarrow> tables \<Rightarrow> tables" where
  "update_segment i f tb =
     tb\<lparr>tb_segments := (tb_segments tb)\<lparr>rows := map (\<lambda>r. if seg_ID r = i then f r else r) (rows (tb_segments tb))\<rparr>\<rparr>"

definition update_clip :: "string \<Rightarrow> (clip_row \<Rightarrow> clip_row) \<Rightarrow> tables \<Rightarrow> tables" where
  "update_clip i f tb = tb\<lparr>tb_clips := map (\<lambda>r. if cr_id r = i then f r else r) (tb_clips tb)\<rparr>"

definition MarkSegmentRecompressed :: "gotime \<Rightarrow> int \<Rightarrow> int \<Rightarrow> tables \<Rightarrow> tables" where
  "MarkSegmentRecompressed now i newSize =
     update_segment i (\<lambda>r. r\<lparr>seg_Recompressed := True, seg_RecompressedAt := now, seg_SizeBytes := newSize\<rparr>)"

definition IncrementSegmentRecompressFailures :: "int \<Rightarrow> string \<Rightarrow> tables \<Rightarrow> tables" where
  "IncrementSegmentRecompressFailures i kind tb =
     (update_segment i (\<lambda>r. r\<lparr>seg_RecompressFailures := seg_RecompressFailures r + 1\<rparr>) tb)\<lparr>tb_segKind := (tb_segKind tb)(i := kind)\<rparr>"

definition MarkClipRecompressed :: "gotime \<Rightarrow> string \<Rightarrow> int \<Rightarrow> tables \<Rightarrow> tables" where
  "MarkClipRecompressed now i newSize = update_clip i (\<lambda>r. r\<lparr>cr_recompressed := True, cr_recompressedAt := now, cr_size := newSize\<rparr>)"

definition IncrementClipRecompressFailures :: "string \<Rightarrow> string \<Rightarrow> tables \<Rightarrow> tables" where
  "IncrementClipRecompressFailures i kind = update_clip i (\<lambda>r. r\<lparr>cr_failures := cr_failures r + 1, cr_kind := kind\<rparr>)"

definition UpdateEventClipAvailability :: "string \<Rightarrow> bool \<Rightarrow> tables \<Rightarrow> tables" where
  "UpdateEventClipAvailability i available = update_clip i (\<lambda>r. r\<lparr>cr_available := available\<rparr>)"

definition GetClipRecompressState :: "string \<Rightarrow> tables \<Rightarrow> (string \<times> bool \<times> bool) option" where
  "GetClipRecompressState i tb = map_option (\<lambda>r. (cr_path r, cr_available r, cr_recompressed r)) (find (\<lambda>r. cr_id r = i) (tb_clips tb))"

definition ResetStuckRecompressFailures :: "string list \<Rightarrow> tables \<Rightarrow> tables" where
  "ResetStuckRecompressFailures permanentKinds tb =
     tb\<lparr>tb_segments := (tb_segments tb)\<lparr>rows := map (\<lambda>r. if seg_RecompressFailures r \<ge> 3 \<and> \<not> seg_Recompressed r \<and>
          tb_segKind tb (seg_ID r) \<notin> set permanentKinds then r\<lparr>seg_RecompressFailures := 0\<rparr> else r) (rows (tb_segments tb))\<rparr>\<rparr>"

definition ResetStuckClipRecompressFailures :: "string list \<Rightarrow> tables \<Rightarrow> tables" where
  "ResetStuckClipRecompressFailures permanentKinds tb =
     tb\<lparr>tb_clips := map (\<lambda>r. if cr_failures r \<ge> 3 \<and> \<not> cr_recompressed r \<and> cr_available r \<and> cr_kind r \<notin> set permanentKinds
          then r\<lparr>cr_failures := 0\<rparr> else r) (tb_clips tb)\<rparr>"

section \<open>Configuration\<close>

record TieredStorageConfig =
  ts_Enabled :: bool
  ts_AfterDays :: int
  ts_Priority :: string
  ts_RepairClipsBefore :: gotime

record CameraConfig =
  cc_Name :: string
  cc_Enabled :: "bool option"
  cc_AfterDays :: "int option"

definition EffectiveTieredStorage :: "CameraConfig \<Rightarrow> TieredStorageConfig \<Rightarrow> TieredStorageConfig" where
  "EffectiveTieredStorage c g =
     g\<lparr>ts_Enabled := (case cc_Enabled c of None \<Rightarrow> ts_Enabled g | Some b \<Rightarrow> b),
       ts_AfterDays := (case cc_AfterDays c of None \<Rightarrow> ts_AfterDays g | Some d \<Rightarrow> d)\<rparr>"

fun eligibleCameras :: "TieredStorageConfig \<Rightarrow> CameraConfig list \<Rightarrow> (string \<rightharpoonup> TieredStorageConfig) \<Rightarrow> string \<rightharpoonup> TieredStorageConfig" where
  "eligibleCameras cfg [] result = result"
| "eligibleCameras cfg (cam # cams) result =
     (let eff = EffectiveTieredStorage cam cfg
      in eligibleCameras cfg cams (if ts_Enabled eff then result(cc_Name cam \<mapsto> eff) else result))"

section \<open>One artifact\<close>

datatype target_id = SegmentID int | ClipID string

record recompressTarget =
  rt_id :: target_id
  rt_camera :: string
  rt_path :: string
  rt_sizeBytes :: int
  rt_endTime :: gotime
  rt_failures :: int

record TranscodeResult =
  tr_OriginalSize :: int
  tr_NewSize :: int
  tr_Skipped :: bool

datatype stat_result = StatOK gotime | StatMissing | StatError

text \<open>A file of the disk.\<close>

record file_info =
  fi_inode :: nat
  fi_size :: int
  fi_modTime :: gotime
  fi_perm :: nat
  fi_regular :: bool

text \<open>
  The answers during one pass: \<open>re_order\<close> and \<open>re_order2\<close> are the orders in which Go visits the map of cameras; \<open>re_transcode\<close> is the
  transcoder's answer and the file it put in place of the source, if it replaced it.
\<close>

record recompress_env =
  re_now :: gotime
  re_order :: "string list"
  re_order2 :: "string list"
  re_repairErr :: "string \<Rightarrow> bool"
  re_segErr :: "string \<Rightarrow> bool"
  re_clipErr :: "string \<Rightarrow> bool"
  re_inUse :: "string \<Rightarrow> bool"
  re_tryLock :: bool
  re_stat :: "string \<Rightarrow> stat_result"
  re_readErr :: bool
  re_writeErr :: bool
  re_transcode :: "string \<Rightarrow> (string option + TranscodeResult) \<times> file_info option"
  re_chtimes :: bool
  re_cancelled :: bool

record Recompressor =
  rc_cfg :: TieredStorageConfig
  rc_cameras :: "CameraConfig list"
  rc_tables :: tables
  rc_disk :: "string \<rightharpoonup> file_info"
  rc_lastRun :: gotime
  rc_segmentsRecompressed :: nat
  rc_clipsRecompressed :: nat
  rc_bytesReclaimed :: int
  rc_transcodeFailures :: nat
  rc_workerCrashes :: nat
  rc_workerTimeouts :: nat

definition segmentCandidateBatch :: nat where "segmentCandidateBatch = 16"

definition segment_target :: "SegmentRecord \<Rightarrow> recompressTarget" where
  "segment_target s = \<lparr>rt_id = SegmentID (seg_ID s), rt_camera = seg_Camera s, rt_path = seg_Path s, rt_sizeBytes = seg_SizeBytes s,
     rt_endTime = seg_EndTime s, rt_failures = seg_RecompressFailures s\<rparr>"

definition clip_target :: "ClipRecord \<Rightarrow> recompressTarget" where
  "clip_target c = \<lparr>rt_id = ClipID (cp_EventID c), rt_camera = cp_Camera c, rt_path = cp_ClipPath c, rt_sizeBytes = cp_ClipSizeBytes c,
     rt_endTime = cp_EndTime c, rt_failures = cp_RecompressFailures c\<rparr>"

definition consider_target :: "string \<Rightarrow> recompressTarget \<Rightarrow> recompressTarget option \<Rightarrow> recompressTarget option" where
  "consider_target priority c best =
     (case best of
        None \<Rightarrow> Some c
      | Some b \<Rightarrow> if priority = ''largest'' then (if rt_sizeBytes c > rt_sizeBytes b then Some c else best)
                  else if tbefore (rt_endTime c) (rt_endTime b) then Some c else best)"

definition consider_first :: "string \<Rightarrow> recompressTarget list \<Rightarrow> recompressTarget option \<Rightarrow> recompressTarget option" where
  "consider_first priority cs best = (case cs of [] \<Rightarrow> best | c # _ \<Rightarrow> consider_target priority c best)"

definition clip_candidates :: "string \<Rightarrow> string \<Rightarrow> gotime \<Rightarrow> tables \<Rightarrow> recompressTarget list" where
  "clip_candidates priority cam cutoff tb =
     map clip_target (if priority = ''largest'' then GetClipRecompressionCandidatesBySize cam cutoff 1 tb else GetClipsForRecompression cam cutoff tb)"

definition segment_candidates :: "string \<Rightarrow> string \<Rightarrow> gotime \<Rightarrow> tables \<Rightarrow> recompressTarget list" where
  "segment_candidates priority cam cutoff tb =
     map segment_target (if priority = ''largest'' then GetRecompressionCandidatesBySize cam cutoff segmentCandidateBatch tb
       else GetSegmentsForRecompression cam cutoff tb)"

definition repair_target ::
  "recompress_env \<Rightarrow> string \<Rightarrow> (string \<rightharpoonup> TieredStorageConfig) \<Rightarrow> gotime \<Rightarrow> tables \<Rightarrow> recompressTarget option" where
  "repair_target re priority eligible before tb =
     fold (\<lambda>cam best. if eligible cam = None \<or> re_repairErr re cam then best
       else consider_first priority (clip_candidates priority cam before tb) best) (re_order re) None"

definition consider_camera :: "recompress_env \<Rightarrow> string \<Rightarrow> string \<Rightarrow> gotime \<Rightarrow> tables \<Rightarrow> recompressTarget option \<Rightarrow> recompressTarget option" where
  "consider_camera re priority cam cutoff tb best =
     (let best1 = (if re_segErr re cam then best
                   else consider_first priority (filter (\<lambda>t. \<not> re_inUse re (rt_path t)) (segment_candidates priority cam cutoff tb)) best)
      in if re_clipErr re cam then best1 else consider_first priority (clip_candidates priority cam cutoff tb) best1)"

definition regular_target :: "recompress_env \<Rightarrow> string \<Rightarrow> (string \<rightharpoonup> TieredStorageConfig) \<Rightarrow> tables \<Rightarrow> recompressTarget option" where
  "regular_target re priority eligible tb =
     fold (\<lambda>cam best. case eligible cam of None \<Rightarrow> best
       | Some eff \<Rightarrow> consider_camera re priority cam (cutoff_days (re_now re) (ts_AfterDays eff)) tb best) (re_order2 re) None"

text \<open>\<open>revalidate\<close>: whether the artifact is still to be transcoded, and the tables after cleaning up a missing file.\<close>

definition revalidate :: "recompress_env \<Rightarrow> recompressTarget \<Rightarrow> tables \<Rightarrow> bool \<times> tables" where
  "revalidate re t tb =
     (if re_readErr re then (False, tb)
      else case rt_id t of
             SegmentID i \<Rightarrow>
               (case GetSegmentByID i tb of
                  None \<Rightarrow> (False, tb)
                | Some seg \<Rightarrow>
                    if seg_Recompressed seg then (False, tb)
                    else (case re_stat re (seg_Path seg) of
                            StatOK _ \<Rightarrow> (True, tb)
                          | StatMissing \<Rightarrow> (False, if re_writeErr re then tb else tb\<lparr>tb_segments := DeleteSegmentByID i (tb_segments tb)\<rparr>)
                          | StatError \<Rightarrow> (False, tb)))
           | ClipID i \<Rightarrow>
               (case GetClipRecompressState i tb of
                  None \<Rightarrow> (False, tb)
                | Some (path, available, recompressed) \<Rightarrow>
                    if \<not> available \<or> recompressed \<or> path \<noteq> rt_path t then (False, tb)
                    else (case re_stat re (rt_path t) of
                            StatOK _ \<Rightarrow> (True, tb)
                          | _ \<Rightarrow> (False, if re_writeErr re then tb else UpdateEventClipAvailability i False tb))))"

definition markRecompressed :: "gotime \<Rightarrow> recompressTarget \<Rightarrow> int \<Rightarrow> tables \<Rightarrow> tables" where
  "markRecompressed now t newSize =
     (case rt_id t of SegmentID i \<Rightarrow> MarkSegmentRecompressed now i newSize | ClipID i \<Rightarrow> MarkClipRecompressed now i newSize)"

definition incrementFailure :: "recompressTarget \<Rightarrow> string \<Rightarrow> tables \<Rightarrow> tables" where
  "incrementFailure t cause =
     (case rt_id t of SegmentID i \<Rightarrow> IncrementSegmentRecompressFailures i cause | ClipID i \<Rightarrow> IncrementClipRecompressFailures i cause)"

text \<open>An error is \<open>Some kind\<close> when it is a \<^verbatim>\<open>transcodeWorkerError\<close>.\<close>

definition permanentTranscodeFailureKinds :: "string list" where
  "permanentTranscodeFailureKinds = [''source_not_fragmented'', ''source_undecodable'']"

definition failureKindOf :: "string option \<Rightarrow> string" where
  "failureKindOf err = (case err of Some kind \<Rightarrow> kind | None \<Rightarrow> ''transcode_error'')"

definition recordTranscodeFailure :: "string option \<Rightarrow> Recompressor \<Rightarrow> Recompressor" where
  "recordTranscodeFailure err r =
     r\<lparr>rc_transcodeFailures := rc_transcodeFailures r + 1,
       rc_workerCrashes := rc_workerCrashes r + (if err = Some ''worker_crash'' then 1 else 0),
       rc_workerTimeouts := rc_workerTimeouts r + (if err = Some ''worker_timeout'' then 1 else 0)\<rparr>"

definition is_clip :: "recompressTarget \<Rightarrow> bool" where
  "is_clip t = (case rt_id t of ClipID _ \<Rightarrow> True | SegmentID _ \<Rightarrow> False)"

text \<open>\<open>os.Chtimes\<close>, and the disk after the transcoder.\<close>

definition touch_file :: "string \<Rightarrow> gotime \<Rightarrow> (string \<rightharpoonup> file_info) \<Rightarrow> string \<rightharpoonup> file_info" where
  "touch_file p m d = d(p := map_option (\<lambda>f. f\<lparr>fi_modTime := m\<rparr>) (d p))"

definition replace_file :: "string \<Rightarrow> file_info option \<Rightarrow> Recompressor \<Rightarrow> Recompressor" where
  "replace_file p committed r = (case committed of None \<Rightarrow> r | Some f \<Rightarrow> r\<lparr>rc_disk := (rc_disk r)(p \<mapsto> f)\<rparr>)"

text \<open>After a successful transcode.\<close>

definition commit_target :: "recompress_env \<Rightarrow> recompressTarget \<Rightarrow> TranscodeResult \<Rightarrow> Recompressor \<Rightarrow> Recompressor" where
  "commit_target re t res r =
     (let clipModTime = (if is_clip t then (case re_stat re (rt_path t) of StatOK m \<Rightarrow> m | _ \<Rightarrow> zeroTime) else zeroTime);
          newSize = (if tr_Skipped res then rt_sizeBytes t else tr_NewSize res)
      in if re_writeErr re then r
         else
           let r1 = r\<lparr>rc_tables := markRecompressed (re_now re) t newSize (rc_tables r)\<rparr>;
               r2 = (if is_clip t \<and> \<not> tr_Skipped res \<and> \<not> isZero clipModTime \<and> re_chtimes re
                     then r1\<lparr>rc_disk := touch_file (rt_path t) clipModTime (rc_disk r1)\<rparr> else r1)
           in if tr_Skipped res then r2
              else r2\<lparr>rc_lastRun := re_now re, rc_bytesReclaimed := rc_bytesReclaimed r2 + (tr_OriginalSize res - tr_NewSize res),
                      rc_segmentsRecompressed := rc_segmentsRecompressed r2 + (if is_clip t then 0 else 1),
                      rc_clipsRecompressed := rc_clipsRecompressed r2 + (if is_clip t then 1 else 0)\<rparr>)"

definition processTarget :: "recompress_env \<Rightarrow> recompressTarget \<Rightarrow> Recompressor \<Rightarrow> bool \<times> Recompressor" where
  "processTarget re t r =
     (if \<not> re_tryLock re then (False, r)
      else case revalidate re t (rc_tables r) of
             (False, tb) \<Rightarrow> (True, r\<lparr>rc_tables := tb\<rparr>)
           | (True, tb) \<Rightarrow>
               (case re_transcode re (rt_path t) of (answer, committed) \<Rightarrow>
                  let r0 = replace_file (rt_path t) committed r
                  in case answer of
                       Inl err \<Rightarrow>
                         let r1 = recordTranscodeFailure err r0
                         in (True, if re_writeErr re then r1
                                   else r1\<lparr>rc_tables := incrementFailure t (failureKindOf err) (rc_tables r1)\<rparr>)
                     | Inr res \<Rightarrow> (True, commit_target re t res r0)))"

lemma replace_file_simps [simp]:
  "rc_tables (replace_file p c r) = rc_tables r" "rc_cfg (replace_file p c r) = rc_cfg r"
  "rc_cameras (replace_file p c r) = rc_cameras r" "rc_bytesReclaimed (replace_file p c r) = rc_bytesReclaimed r"
  "rc_segmentsRecompressed (replace_file p c r) = rc_segmentsRecompressed r"
  "rc_clipsRecompressed (replace_file p c r) = rc_clipsRecompressed r"
  "rc_transcodeFailures (replace_file p c r) = rc_transcodeFailures r"
  "rc_disk (replace_file p c r) = (case c of None \<Rightarrow> rc_disk r | Some f \<Rightarrow> (rc_disk r)(p \<mapsto> f))"
  by (simp_all add: replace_file_def split: option.split)

definition select_target :: "recompress_env \<Rightarrow> Recompressor \<Rightarrow> recompressTarget option" where
  "select_target re r =
     (let priority = (if ts_Priority (rc_cfg r) = [] then ''largest'' else ts_Priority (rc_cfg r));
          eligible = eligibleCameras (rc_cfg r) (rc_cameras r) Map.empty;
          repair = (if isZero (ts_RepairClipsBefore (rc_cfg r)) then None
                    else repair_target re priority eligible (ts_RepairClipsBefore (rc_cfg r)) (rc_tables r))
      in if repair \<noteq> None then repair
         else regular_target re priority eligible (rc_tables r))"

definition processOne :: "recompress_env \<Rightarrow> Recompressor \<Rightarrow> bool \<times> Recompressor" where
  "processOne re r = (case select_target re r of None \<Rightarrow> (False, r) | Some t \<Rightarrow> processTarget re t r)"

text \<open>\<open>RunNow\<close>: the number of artifacts and the state when it returns.\<close>

partial_function (option) run_loop :: "(nat \<Rightarrow> recompress_env) \<Rightarrow> nat \<Rightarrow> Recompressor \<Rightarrow> (nat \<times> Recompressor) option" where
  "run_loop envs i r =
     (if re_cancelled (envs i) then Some (i, r)
      else case processOne (envs i) r of (again, r') \<Rightarrow> if again then run_loop envs (Suc i) r' else Some (i, r'))"

definition RunNow :: "(nat \<Rightarrow> recompress_env) \<Rightarrow> bool \<Rightarrow> Recompressor \<Rightarrow> (nat \<times> Recompressor) option" where
  "RunNow envs running r = (if running then Some (0, r) else run_loop envs 0 r)"

section \<open>Backfilling the sizes of clips\<close>

text \<open>\<open>size p\<close> is the size of the file, \<open>None\<close> when it cannot be found.\<close>

definition size_unknown :: "clip_row \<Rightarrow> bool" where
  "size_unknown r \<longleftrightarrow> cr_available r \<and> cr_size r = 0 \<and> cr_path r \<noteq> []"

definition backfill_row :: "(string \<Rightarrow> int option) \<Rightarrow> clip_row \<Rightarrow> tables \<Rightarrow> tables" where
  "backfill_row fsize p tb =
     (case fsize (cr_path p) of
        None \<Rightarrow> update_clip (cr_id p) (\<lambda>r. r\<lparr>cr_available := False\<rparr>) tb
      | Some n \<Rightarrow> update_clip (cr_id p) (\<lambda>r. r\<lparr>cr_size := n\<rparr>) tb)"

text \<open>
  One batch; \<open>order\<close> is the order in which the database returns the rows, which the query leaves open, and \<open>Some k\<close> is a
  database that fails after \<open>k\<close> of its updates.
\<close>

definition BackfillClipSizes ::
  "(string \<Rightarrow> int option) \<Rightarrow> (clip_row list \<Rightarrow> clip_row list) \<Rightarrow> nat option \<Rightarrow> nat \<Rightarrow> tables \<Rightarrow> nat option \<times> tables" where
  "BackfillClipSizes fsize order fail batch tb =
     (let todo = take batch (order (filter size_unknown (tb_clips tb)))
      in case fail of
           None \<Rightarrow> (Some (length todo), fold (backfill_row fsize) todo tb)
         | Some k \<Rightarrow> (None, fold (backfill_row fsize) (take k todo) tb))"

partial_function (option) backfill_loop ::
  "(string \<Rightarrow> int option) \<Rightarrow> (nat \<Rightarrow> clip_row list \<Rightarrow> clip_row list) \<Rightarrow> (nat \<Rightarrow> nat option) \<Rightarrow> nat \<Rightarrow> nat \<Rightarrow> tables \<Rightarrow>
     tables option" where
  "backfill_loop fsize orders fails batch i tb =
     (case BackfillClipSizes fsize (orders i) (fails i) batch tb of
        (None, tb') \<Rightarrow> Some tb'
      | (Some examined, tb') \<Rightarrow> if examined < batch then Some tb' else backfill_loop fsize orders fails batch (Suc i) tb')"

definition backfillClipSizes ::
  "(string \<Rightarrow> int option) \<Rightarrow> (nat \<Rightarrow> clip_row list \<Rightarrow> clip_row list) \<Rightarrow> (nat \<Rightarrow> nat option) \<Rightarrow> tables \<Rightarrow> tables option" where
  "backfillClipSizes fsize orders fails = backfill_loop fsize orders fails 200 0"

text \<open>\<open>Start\<close> up to the point where the worker begins; the two flags say whether the resets fail.\<close>

definition Start_tables ::
  "(string \<Rightarrow> int option) \<Rightarrow> (nat \<Rightarrow> clip_row list \<Rightarrow> clip_row list) \<Rightarrow> (nat \<Rightarrow> nat option) \<Rightarrow> bool \<Rightarrow> bool \<Rightarrow>
     TieredStorageConfig \<Rightarrow> tables \<Rightarrow> tables option" where
  "Start_tables fsize orders fails segResetErr clipResetErr cfg tb =
     (if \<not> ts_Enabled cfg then Some tb
      else
        let tb1 = (if segResetErr then tb else ResetStuckRecompressFailures permanentTranscodeFailureKinds tb);
            tb2 = (if clipResetErr then tb1 else ResetStuckClipRecompressFailures permanentTranscodeFailureKinds tb1)
        in backfillClipSizes fsize orders fails tb2)"

section \<open>Example states\<close>

definition w_clip :: "nat \<Rightarrow> clip_row" where
  "w_clip n = \<lparr>cr_id = replicate n CHR ''x'', cr_camera = ''a'', cr_path = ''/c'', cr_available = True, cr_size = 0, cr_end = Some 5,
     cr_recompressed = False, cr_recompressedAt = zeroTime, cr_failures = 0, cr_kind = []\<rparr>"

definition w_segment :: SegmentRecord where
  "w_segment = \<lparr>seg_ID = 7, seg_Camera = ''a'', seg_Path = ''/s'', seg_StartTime = 1, seg_EndTime = 2, seg_SizeBytes = 100,
     seg_Recompressed = False, seg_RecompressedAt = zeroTime, seg_RecompressFailures = 1\<rparr>"

definition w_tables :: "nat \<Rightarrow> tables" where
  "w_tables n = \<lparr>tb_segments = \<lparr>rows = [w_segment], nextSegID = 8, files = {''/s''}, ops = 0\<rparr>, tb_segKind = (\<lambda>_. []),
     tb_clips = map w_clip [0..<n]\<rparr>"

definition w_file :: file_info where
  "w_file = \<lparr>fi_inode = 1, fi_size = 100, fi_modTime = 3, fi_perm = 420, fi_regular = True\<rparr>"

definition w_recompressor :: Recompressor where
  "w_recompressor = \<lparr>rc_cfg = \<lparr>ts_Enabled = True, ts_AfterDays = 0, ts_Priority = [], ts_RepairClipsBefore = zeroTime\<rparr>,
     rc_cameras = [\<lparr>cc_Name = ''a'', cc_Enabled = None, cc_AfterDays = None\<rparr>], rc_tables = w_tables 0, rc_disk = [''/s'' \<mapsto> w_file],
     rc_lastRun = zeroTime, rc_segmentsRecompressed = 0, rc_clipsRecompressed = 0, rc_bytesReclaimed = 0, rc_transcodeFailures = 0,
     rc_workerCrashes = 0, rc_workerTimeouts = 0\<rparr>"

definition w_pass :: "stat_result \<Rightarrow> recompress_env" where
  "w_pass st = \<lparr>re_now = 10, re_order = [''a''], re_order2 = [''a''], re_repairErr = (\<lambda>_. False), re_segErr = (\<lambda>_. False),
     re_clipErr = (\<lambda>_. False), re_inUse = (\<lambda>_. False), re_tryLock = True, re_stat = (\<lambda>_. st), re_readErr = False, re_writeErr = False,
     re_transcode = (\<lambda>_. (Inl None, None)), re_chtimes = True, re_cancelled = False\<rparr>"

lemmas w_defs = w_clip_def w_segment_def w_tables_def w_file_def w_recompressor_def w_pass_def

lemma length_filter_less_witness:
  assumes "\<And>x. x \<in> set xs \<Longrightarrow> P x \<Longrightarrow> Q x" "y \<in> set xs" "Q y" "\<not> P y"
  shows "length (filter P xs) < length (filter Q xs)"
proof -
  have "filter P xs = filter P (filter Q xs)" using assms(1) by (auto intro: filter_cong)
  moreover have "length (filter P (filter Q xs)) < length (filter Q xs)"
    using assms(2-4) by (intro length_filter_less[of y]) simp_all
  ultimately show ?thesis by simp
qed

section \<open>The backfill ends exactly when few enough clips are empty files\<close>

text \<open>A clip whose file exists and is empty stays in the set that the batch is drawn from.\<close>

definition empty_clip :: "(string \<Rightarrow> int option) \<Rightarrow> clip_row \<Rightarrow> bool" where
  "empty_clip fsize r \<longleftrightarrow> size_unknown r \<and> fsize (cr_path r) = Some 0"

definition examined_row :: "(string \<Rightarrow> int option) \<Rightarrow> clip_row \<Rightarrow> clip_row \<Rightarrow> clip_row" where
  "examined_row fsize p r =
     (if cr_id r = cr_id p
      then (case fsize (cr_path p) of None \<Rightarrow> r\<lparr>cr_available := False\<rparr> | Some n \<Rightarrow> r\<lparr>cr_size := n\<rparr>) else r)"

lemma tb_clips_backfill_row: "tb_clips (backfill_row fsize p tb) = map (examined_row fsize p) (tb_clips tb)"
  by (auto simp: backfill_row_def update_clip_def examined_row_def split: option.split)

lemma tb_clips_backfill: "tb_clips (fold (backfill_row fsize) ps tb) = map (fold (examined_row fsize) ps) (tb_clips tb)"
  by (induction ps arbitrary: tb) (simp_all add: tb_clips_backfill_row)

lemma cr_id_examined [simp]: "cr_id (examined_row fsize p r) = cr_id r"
  by (simp add: examined_row_def split: option.split)

lemma cr_id_examined_fold [simp]: "cr_id (fold (examined_row fsize) ps r) = cr_id r"
  by (induction ps arbitrary: r) simp_all

lemma examined_other: "cr_id r \<notin> cr_id ` set ps \<Longrightarrow> fold (examined_row fsize) ps r = r"
  by (induction ps) (auto simp: examined_row_def)

lemma examined_once:
  assumes "distinct (map cr_id ps)" "r \<in> set ps"
  shows "fold (examined_row fsize) ps r = examined_row fsize r r"
  using assms
proof (induction ps)
  case (Cons p ps)
  show ?case
  proof (cases "r = p")
    case True
    then show ?thesis using Cons.prems(1) examined_other[of "examined_row fsize p p" ps fsize] by auto
  next
    case False
    then have "r \<in> set ps" using Cons.prems(2) by simp
    then have "cr_id r \<noteq> cr_id p" using Cons.prems(1) by (metis distinct.simps(2) image_eqI list.set_map list.simps(9))
    then show ?thesis using Cons False by (simp add: examined_row_def)
  qed
qed simp

lemma examined_candidate:
  assumes "distinct (map cr_id cs)" "r \<in> set cs" and todo: "todo = take batch us" and us: "mset us = mset (filter size_unknown cs)"
  shows "fold (examined_row fsize) todo r = (if r \<in> set todo then examined_row fsize r r else r)"
proof -
  have set_us: "set us = set (filter size_unknown cs)" using us by (rule mset_eq_setD)
  then have sub: "set todo \<subseteq> set cs" by (auto simp: todo dest: in_set_takeD)
  have "mset (map cr_id us) = mset (map cr_id (filter size_unknown cs))" using us by simp
  then have "distinct (map cr_id us)" using assms(1) by (metis distinct_map_filter mset_eq_imp_distinct_iff)
  then have d: "distinct (map cr_id todo)" by (simp add: todo take_map[symmetric])
  have inj: "inj_on cr_id (set cs)" using assms(1) by (simp add: distinct_map)
  have "cr_id r \<in> cr_id ` set todo \<longleftrightarrow> r \<in> set todo" using inj_on_image_mem_iff[OF inj assms(2) sub] .
  then show ?thesis using examined_once[OF d] examined_other by (cases "r \<in> set todo") auto
qed

lemma examined_self:
  assumes "size_unknown r"
  shows "empty_clip fsize (examined_row fsize r r) \<longleftrightarrow> empty_clip fsize r"
    and "size_unknown (examined_row fsize r r) \<Longrightarrow> empty_clip fsize r"
  using assms by (cases "fsize (cr_path r)"; auto simp: empty_clip_def size_unknown_def examined_row_def)+

lemma empty_of_unknown: "filter (empty_clip fsize) cs = filter (empty_clip fsize) (filter size_unknown cs)"
  by (auto simp: empty_clip_def intro!: filter_cong)

lemma batch_beyond_empty:
  assumes todo: "todo = take batch us" and us: "mset us = mset (filter size_unknown cs)"
    and few: "length (filter (empty_clip fsize) cs) < batch" and full: "batch \<le> length (filter size_unknown cs)"
  shows "\<exists>r\<in>set todo. \<not> empty_clip fsize r"
proof (rule ccontr)
  assume "\<not> ?thesis"
  then have all: "filter (empty_clip fsize) todo = todo" by (simp add: filter_id_conv)
  have "length (filter (empty_clip fsize) cs) = length (filter (empty_clip fsize) (filter size_unknown cs))"
    by (subst empty_of_unknown) simp
  also have "\<dots> = length (filter (empty_clip fsize) us)" using us by (metis mset_filter size_mset)
  also have "us = todo @ drop batch us" by (simp add: todo)
  then have "filter (empty_clip fsize) us = todo @ filter (empty_clip fsize) (drop batch us)" by (metis all filter_append)
  finally have "length todo \<le> length (filter (empty_clip fsize) cs)" by simp
  moreover have "length us = length (filter size_unknown cs)" using us by (metis size_mset)
  ultimately show False using few full by (simp add: todo)
qed

text \<open>One full batch: the empty clips stay, and some other clip leaves the set when a batch holds more than the empty clips.\<close>

lemma backfill_batch:
  assumes "distinct (map cr_id (tb_clips tb))" "BackfillClipSizes fsize order None batch tb = (ex, tb')"
    and order: "\<And>xs. mset (order xs) = mset xs"
  shows "ex = Some (min batch (length (filter size_unknown (tb_clips tb))))"
    and "distinct (map cr_id (tb_clips tb'))"
    and "length (filter (empty_clip fsize) (tb_clips tb')) = length (filter (empty_clip fsize) (tb_clips tb))"
    and "length (filter size_unknown (tb_clips tb)) < batch \<Longrightarrow> filter size_unknown (tb_clips tb') = filter (empty_clip fsize) (tb_clips tb')"
    and "length (filter (empty_clip fsize) (tb_clips tb)) < batch \<Longrightarrow> batch \<le> length (filter size_unknown (tb_clips tb)) \<Longrightarrow>
      length (filter size_unknown (tb_clips tb')) < length (filter size_unknown (tb_clips tb))"
proof -
  define cs where "cs = tb_clips tb"
  define us where "us = order (filter size_unknown cs)"
  have us: "mset us = mset (filter size_unknown cs)" using order by (simp add: us_def)
  have set_us: "set us = {r \<in> set cs. size_unknown r}" and len_us: "length us = length (filter size_unknown cs)"
    using mset_eq_setD[OF us] mset_eq_length[OF us] by auto
  define todo where "todo = take batch us"
  define f where "f = fold (examined_row fsize) todo"
  have cs': "tb_clips tb' = map f cs" and ex: "ex = Some (length todo)"
    using assms(2) by (auto simp: BackfillClipSizes_def Let_def tb_clips_backfill f_def todo_def us_def cs_def)
  have f: "f r = (if r \<in> set todo then examined_row fsize r r else r)" if "r \<in> set cs" for r
    using examined_candidate[OF _ that todo_def us] assms(1) by (simp add: f_def cs_def)
  have in_cs: "r \<in> set cs" and unk: "size_unknown r" if "r \<in> set todo" for r
    using in_set_takeD[of r batch us] that set_us by (auto simp: todo_def)
  have stays: "empty_clip fsize (f r) = empty_clip fsize r" if "r \<in> set cs" for r
    using f[OF that] examined_self(1)[OF unk] by simp
  have leaves: "size_unknown r \<and> (r \<in> set todo \<longrightarrow> empty_clip fsize r)" if "r \<in> set cs" "size_unknown (f r)" for r
    using f[OF that(1)] examined_self(2)[OF unk] unk that(2) by (cases "r \<in> set todo") auto
  show "ex = Some (min batch (length (filter size_unknown (tb_clips tb))))" by (simp add: ex todo_def len_us cs_def min.commute)
  show "distinct (map cr_id (tb_clips tb'))" using assms(1) by (simp add: cs' cs_def f_def comp_def)
  show "length (filter (empty_clip fsize) (tb_clips tb')) = length (filter (empty_clip fsize) (tb_clips tb))"
    using stays by (simp add: cs' filter_map comp_def cs_def[symmetric] cong: filter_cong)
  show "filter size_unknown (tb_clips tb') = filter (empty_clip fsize) (tb_clips tb')" if "length (filter size_unknown (tb_clips tb)) < batch"
  proof (rule filter_cong[OF refl])
    fix x assume "x \<in> set (tb_clips tb')"
    then obtain r where r: "r \<in> set cs" "x = f r" by (auto simp: cs')
    have "set todo = {r \<in> set cs. size_unknown r}" using that set_us len_us by (simp add: todo_def cs_def)
    then show "size_unknown x = empty_clip fsize x"
      using leaves[OF r(1)] stays[OF r(1)] r by (auto simp: empty_clip_def)
  qed
  show "length (filter size_unknown (tb_clips tb')) < length (filter size_unknown (tb_clips tb))"
    if few: "length (filter (empty_clip fsize) (tb_clips tb)) < batch" and full: "batch \<le> length (filter size_unknown (tb_clips tb))"
  proof -
    have "\<exists>r\<in>set todo. \<not> empty_clip fsize r"
      using batch_beyond_empty[OF todo_def us] few full by (simp add: cs_def)
    then obtain r where r: "r \<in> set todo" "\<not> empty_clip fsize r" by blast
    then have "r \<in> set cs" by (simp add: in_cs)
    then have "length (filter (size_unknown \<circ> f) cs) < length (filter size_unknown cs)"
      using leaves r unk by (intro length_filter_less_witness[of _ _ _ r]) auto
    then show ?thesis by (simp add: cs' filter_map cs_def[symmetric])
  qed
qed

lemma backfill_returns:
  assumes "\<And>j. fails j = None" "\<And>j xs. mset (orders j xs) = mset xs"
    "distinct (map cr_id (tb_clips tb))" "length (filter (empty_clip fsize) (tb_clips tb)) < batch"
  shows "\<exists>tb'. backfill_loop fsize orders fails batch i tb = Some tb' \<and>
    filter size_unknown (tb_clips tb') = filter (empty_clip fsize) (tb_clips tb')"
  using assms(3,4)
proof (induction "length (filter size_unknown (tb_clips tb))" arbitrary: i tb rule: less_induct)
  case less
  obtain ex tb1 where run: "BackfillClipSizes fsize (orders i) None batch tb = (ex, tb1)" by fastforce
  note b = backfill_batch[OF less.prems(1) run assms(2)]
  show ?case
  proof (cases "length (filter size_unknown (tb_clips tb)) < batch")
    case True
    then show ?thesis using b(1,4) run assms(1) by (subst backfill_loop.simps) (simp add: min_def)
  next
    case False
    then have "length (filter size_unknown (tb_clips tb1)) < length (filter size_unknown (tb_clips tb))" using b(5) less.prems(2) by simp
    from less.hyps[OF this b(2), of "Suc i"] show ?thesis
      using b(1,3) run assms(1) less.prems(2) False by (subst backfill_loop.simps) (simp add: min_def)
  qed
qed

definition backfill_stuck ::
  "(string \<Rightarrow> int option) \<Rightarrow> (nat \<Rightarrow> clip_row list \<Rightarrow> clip_row list) \<Rightarrow> (nat \<Rightarrow> nat option) \<Rightarrow> nat \<Rightarrow> tables \<Rightarrow> bool" where
  "backfill_stuck fsize orders fails batch tb \<longleftrightarrow>
     fails = (\<lambda>_. None) \<and> (\<forall>j xs. mset (orders j xs) = mset xs) \<and> distinct (map cr_id (tb_clips tb)) \<and> batch \<le> length (filter (empty_clip fsize) (tb_clips tb))"

lemma backfill_never_returns:
  assumes "backfill_stuck fsize orders fails batch tb"
  shows "backfill_loop fsize orders fails batch i tb = None"
proof -
  have "\<not> backfill_stuck fsize orders fails batch tb" if "backfill_loop fsize orders fails batch i tb = Some tb'" for tb'
    using that
  proof (rule backfill_loop.raw_induct[where P = "\<lambda>fsize orders fails batch i tb _. \<not> backfill_stuck fsize orders fails batch tb", rotated])
    fix loop and fsize :: "string \<Rightarrow> int option" and orders :: "nat \<Rightarrow> clip_row list \<Rightarrow> clip_row list" and fails :: "nat \<Rightarrow> nat option" and batch i :: nat and tb tb' :: tables
    assume ih: "\<And>fsize orders fails batch i tb tb'. loop fsize orders fails batch i tb = Some tb' \<Longrightarrow> \<not> backfill_stuck fsize orders fails batch tb"
      and run: "(case BackfillClipSizes fsize (orders i) (fails i) batch tb of
        (None, tb') \<Rightarrow> Some tb'
      | (Some examined, tb') \<Rightarrow> if examined < batch then Some tb' else loop fsize orders fails batch (Suc i) tb') = Some tb'"
    show "\<not> backfill_stuck fsize orders fails batch tb"
    proof
      assume stuck: "backfill_stuck fsize orders fails batch tb"
      obtain ex tb1 where b: "BackfillClipSizes fsize (orders i) None batch tb = (ex, tb1)" by fastforce
      note step = backfill_batch[OF _ b]
      have order: "mset (orders i xs) = mset xs" for xs using stuck by (simp add: backfill_stuck_def)
      have "length (filter (empty_clip fsize) (tb_clips tb)) \<le> length (filter size_unknown (tb_clips tb))"
        by (subst empty_of_unknown) (rule length_filter_le)
      then have "ex = Some batch" using step(1)[OF _ order] stuck by (simp add: backfill_stuck_def)
      then have "loop fsize orders fails batch (Suc i) tb1 = Some tb'" using run stuck b by (simp add: backfill_stuck_def)
      moreover have "backfill_stuck fsize orders fails batch tb1"
        using stuck step(2,3)[OF _ order] by (simp add: backfill_stuck_def)
      ultimately show False using ih by blast
    qed
  qed
  then show ?thesis using assms by (cases "backfill_loop fsize orders fails batch i tb") auto
qed

text \<open>
  C8. When the database answers, the backfill of \<open>Start\<close> returns exactly when fewer than 200 of the clips without a size are
  empty files, and then it has found the size of every clip that is not empty, whatever order the rows come in.
\<close>

theorem backfill_returns_exactly:
  assumes "\<And>j. fails j = None" "\<And>j xs. mset (orders j xs) = mset xs" "distinct (map cr_id (tb_clips tb))"
  shows "(case backfillClipSizes fsize orders fails tb of
            None \<Rightarrow> 200 \<le> length (filter (empty_clip fsize) (tb_clips tb))
          | Some tb' \<Rightarrow> length (filter (empty_clip fsize) (tb_clips tb)) < 200 \<and>
              filter size_unknown (tb_clips tb') = filter (empty_clip fsize) (tb_clips tb'))"
proof (cases "length (filter (empty_clip fsize) (tb_clips tb)) < 200")
  case True
  then obtain tb' where "backfill_loop fsize orders fails 200 0 tb = Some tb'"
      "filter size_unknown (tb_clips tb') = filter (empty_clip fsize) (tb_clips tb')"
    using backfill_returns[of fails orders tb fsize 200 0] assms by blast
  then show ?thesis using True by (simp add: backfillClipSizes_def)
next
  case False
  then have "backfill_stuck fsize orders fails 200 tb" using assms by (simp add: backfill_stuck_def fun_eq_iff)
  from backfill_never_returns[OF this, of 0] show ?thesis using False by (simp add: backfillClipSizes_def)
qed

lemma w_clips_distinct: "distinct (map cr_id (tb_clips (w_tables n)))"
proof -
  have "inj_on (\<lambda>i. replicate i CHR ''x'') (set [0..<n])" by (rule inj_onI) (metis length_replicate)
  then show ?thesis by (simp add: w_tables_def w_clip_def comp_def distinct_map)
qed

lemma w_clips_empty: "filter (empty_clip (\<lambda>_. Some 0)) (tb_clips (w_tables n)) = tb_clips (w_tables n)"
  by (auto simp: filter_id_conv w_tables_def w_clip_def empty_clip_def size_unknown_def)

theorem backfill_returns_exactly_witness:
  "(\<exists>tb. backfillClipSizes (\<lambda>_. Some 0) (\<lambda>_. rev) (\<lambda>_. None) (w_tables 199) = Some tb) \<and>
   backfillClipSizes (\<lambda>_. Some 0) (\<lambda>_. rev) (\<lambda>_. None) (w_tables 200) = None"
proof
  have len: "length (filter (empty_clip (\<lambda>_. Some 0)) (tb_clips (w_tables n))) = n" for n
    unfolding w_clips_empty by (simp add: w_tables_def)
  note exactly = backfill_returns_exactly[of "\<lambda>_. None" "\<lambda>_. rev", OF refl mset_rev w_clips_distinct, where fsize = "\<lambda>_. Some 0", unfolded len]
  show "\<exists>tb. backfillClipSizes (\<lambda>_. Some 0) (\<lambda>_. rev) (\<lambda>_. None) (w_tables 199) = Some tb" using exactly[of 199] by (simp split: option.splits)
  show "backfillClipSizes (\<lambda>_. Some 0) (\<lambda>_. rev) (\<lambda>_. None) (w_tables 200) = None" using exactly[of 200] by (simp split: option.splits)
qed

section \<open>A manual pass\<close>

text \<open>The attempts that the failure caps leave.\<close>

definition seg_left :: "SegmentRecord \<Rightarrow> nat" where
  "seg_left s = (if seg_Recompressed s then 0 else nat (3 - seg_RecompressFailures s))"

definition clip_left :: "clip_row \<Rightarrow> nat" where
  "clip_left c = (if cr_recompressed c \<or> \<not> cr_available c then 0 else nat (3 - cr_failures c))"

definition attempts_left :: "tables \<Rightarrow> nat" where
  "attempts_left tb = sum_list (map seg_left (rows (tb_segments tb))) + sum_list (map clip_left (tb_clips tb))"

definition tables_ok :: "tables \<Rightarrow> bool" where
  "tables_ok tb \<longleftrightarrow> distinct (map seg_ID (rows (tb_segments tb))) \<and> distinct (map cr_id (tb_clips tb))"

text \<open>A selected artifact is a row that the failure cap leaves an attempt.\<close>

definition is_candidate :: "tables \<Rightarrow> recompressTarget \<Rightarrow> bool" where
  "is_candidate tb t \<longleftrightarrow>
     (\<exists>s\<in>set (rows (tb_segments tb)). t = segment_target s \<and> 0 < seg_left s) \<or>
     (\<exists>c\<in>set (tb_clips tb). t = clip_target (scanClip c) \<and> 0 < clip_left c)"

lemma clip_candidates_are: "t \<in> set (clip_candidates priority cam cutoff tb) \<Longrightarrow> is_candidate tb t"
  by (auto simp: clip_candidates_def GetClipRecompressionCandidatesBySize_def GetClipsForRecompression_def is_candidate_def clip_eligible_def
      clip_left_def split: if_splits dest!: in_set_takeD)

lemma segment_candidates_are: "t \<in> set (segment_candidates priority cam cutoff tb) \<Longrightarrow> is_candidate tb t"
  by (auto simp: segment_candidates_def GetRecompressionCandidatesBySize_def GetSegmentsForRecompression_def is_candidate_def
      segment_eligible_def seg_left_def split: if_splits dest!: in_set_takeD)

lemma consider_first_pred:
  assumes "\<And>t. t \<in> set cs \<Longrightarrow> P t" "pred_option P best"
  shows "pred_option P (consider_first priority cs best)"
  using assms by (auto simp: consider_first_def consider_target_def split: list.splits option.splits)

lemma repair_target_candidate: "pred_option (is_candidate tb) (repair_target re priority eligible before tb)"
  unfolding repair_target_def
  by (rule fold_invariant) (auto intro: consider_first_pred clip_candidates_are)

lemma consider_camera_candidate:
  assumes "pred_option (is_candidate tb) best"
  shows "pred_option (is_candidate tb) (consider_camera re priority cam cutoff tb best)"
proof -
  have "pred_option (is_candidate tb) (if re_segErr re cam then best
      else consider_first priority (filter (\<lambda>t. \<not> re_inUse re (rt_path t)) (segment_candidates priority cam cutoff tb)) best)"
    using assms by (auto intro!: consider_first_pred intro: segment_candidates_are)
  then show ?thesis unfolding consider_camera_def Let_def by (auto intro: consider_first_pred clip_candidates_are)
qed

lemma regular_target_candidate: "pred_option (is_candidate tb) (regular_target re priority eligible tb)"
  unfolding regular_target_def
  by (rule fold_invariant) (auto intro: consider_camera_candidate split: option.split)

lemma select_target_candidate: "pred_option (is_candidate (rc_tables r)) (select_target re r)"
  using repair_target_candidate regular_target_candidate by (auto simp: select_target_def Let_def)

text \<open>Lowering the weight of one row lowers the total; so does removing a row.\<close>

lemma sum_update_less:
  assumes "x \<in> set xs" "key x = k" "w (g x) < w x" "\<And>y. w (g y) \<le> w y"
  shows "sum_list (map w (map (\<lambda>y. if key y = k then g y else y) xs)) < (sum_list (map w xs) :: nat)"
proof -
  have le: "sum_list (map w (map (\<lambda>y. if key y = k then g y else y) ys)) \<le> sum_list (map w ys)" for ys
    using assms(4) by (induction ys) (auto intro: add_mono)
  obtain ys zs where "xs = ys @ x # zs" using assms(1) by (auto simp: in_set_conv_decomp)
  then show ?thesis using le[of ys] le[of zs] assms(2,3) by simp
qed

lemma sum_remove_less:
  assumes "x \<in> set xs" "\<not> P x" "0 < w x"
  shows "sum_list (map w (filter P xs)) < (sum_list (map w xs) :: nat)"
proof -
  have le: "sum_list (map w (filter P ys)) \<le> sum_list (map w ys)" for ys by (induction ys) auto
  obtain ys zs where "xs = ys @ x # zs" using assms(1) by (auto simp: in_set_conv_decomp)
  then show ?thesis using le[of ys] le[of zs] assms(2,3) by simp
qed

lemma tables_ok_updates [simp]:
  "(\<And>s. seg_ID (f s) = seg_ID s) \<Longrightarrow> tables_ok (update_segment i f tb) = tables_ok tb"
  "(\<And>c. cr_id (g c) = cr_id c) \<Longrightarrow> tables_ok (update_clip e g tb) = tables_ok tb"
  "tables_ok (tb\<lparr>tb_segKind := k\<rparr>) = tables_ok tb"
  by (simp_all add: tables_ok_def update_segment_def update_clip_def comp_def if_distrib cong: if_cong)

lemma update_segment_less:
  assumes "s \<in> set (rows (tb_segments tb))" "seg_left (f s) < seg_left s" "\<And>s. seg_left (f s) \<le> seg_left s"
  shows "attempts_left (update_segment (seg_ID s) f tb) < attempts_left tb"
  using sum_update_less[where key = seg_ID and w = seg_left and g = f, OF assms(1) refl] assms(2,3)
  by (simp add: attempts_left_def update_segment_def)

lemma update_clip_less:
  assumes "c \<in> set (tb_clips tb)" "clip_left (f c) < clip_left c" "\<And>c. clip_left (f c) \<le> clip_left c"
  shows "attempts_left (update_clip (cr_id c) f tb) < attempts_left tb"
  using sum_update_less[where key = cr_id and w = clip_left and g = f, OF assms(1) refl] assms(2,3)
  by (simp add: attempts_left_def update_clip_def)

lemma delete_segment_less:
  assumes "s \<in> set (rows (tb_segments tb))" "0 < seg_left s"
  shows "attempts_left (tb\<lparr>tb_segments := DeleteSegmentByID (seg_ID s) (tb_segments tb)\<rparr>) < attempts_left tb"
  using sum_remove_less[where w = seg_left, OF assms(1) _ assms(2), of "\<lambda>r. seg_ID r \<noteq> seg_ID s"]
  by (simp add: attempts_left_def DeleteSegmentByID_def)

text \<open>The answers are definitive: the database answers and a file is there or it is not.\<close>

definition definitive :: "recompress_env \<Rightarrow> bool" where
  "definitive re \<longleftrightarrow> \<not> re_readErr re \<and> \<not> re_writeErr re \<and> (\<forall>p. re_stat re p \<noteq> StatError)"

lemma find_unique:
  assumes "distinct (map key xs)" "x \<in> set xs"
  shows "find (\<lambda>y. key y = key x) xs = Some x"
  using assms
proof (induction xs)
  case (Cons a xs)
  then show ?case by (cases "x = a") (auto simp: rev_image_eqI)
qed simp

lemma revalidate_segment:
  assumes "definitive re" "tables_ok tb" "s \<in> set (rows (tb_segments tb))" "0 < seg_left s"
  shows "(case revalidate re (segment_target s) tb of (ok, tb') \<Rightarrow> if ok then tb' = tb else tables_ok tb' \<and> attempts_left tb' < attempts_left tb)"
proof -
  have "GetSegmentByID (seg_ID s) tb = Some s"
    using assms(2) find_unique[OF _ assms(3), of seg_ID] by (simp add: GetSegmentByID_def tables_ok_def)
  moreover have "\<not> seg_Recompressed s" using assms(4) by (auto simp: seg_left_def split: if_splits)
  moreover have "tables_ok (tb\<lparr>tb_segments := DeleteSegmentByID (seg_ID s) (tb_segments tb)\<rparr>)"
    using assms(2) by (simp add: tables_ok_def DeleteSegmentByID_def distinct_map_filter)
  ultimately show ?thesis using assms(1) delete_segment_less[OF assms(3,4)]
    by (auto simp: revalidate_def segment_target_def definitive_def split: stat_result.split)
qed

lemma revalidate_clip:
  assumes "definitive re" "tables_ok tb" "c \<in> set (tb_clips tb)" "0 < clip_left c"
  shows "(case revalidate re (clip_target (scanClip c)) tb of (ok, tb') \<Rightarrow> if ok then tb' = tb else tables_ok tb' \<and> attempts_left tb' < attempts_left tb)"
proof -
  have "GetClipRecompressState (cr_id c) tb = Some (cr_path c, cr_available c, cr_recompressed c)"
    using assms(2) find_unique[OF _ assms(3), of cr_id] by (simp add: GetClipRecompressState_def tables_ok_def)
  moreover have "cr_available c" "\<not> cr_recompressed c" using assms(4) by (auto simp: clip_left_def split: if_splits)
  moreover have "attempts_left (UpdateEventClipAvailability (cr_id c) False tb) < attempts_left tb"
    unfolding UpdateEventClipAvailability_def using assms(3,4) by (intro update_clip_less) (auto simp: clip_left_def)
  ultimately show ?thesis using assms(1,2)
    by (auto simp: revalidate_def clip_target_def scanClip_def definitive_def UpdateEventClipAvailability_def split: stat_result.split)
qed

lemma attempt_less:
  assumes "tables_ok tb" "is_candidate tb t"
  shows "tables_ok (markRecompressed now t n tb)" "attempts_left (markRecompressed now t n tb) < attempts_left tb"
    and "tables_ok (incrementFailure t kind tb)" "attempts_left (incrementFailure t kind tb) < attempts_left tb"
proof -
  have kindcol: "attempts_left (tb\<lparr>tb_segKind := k\<rparr>) = attempts_left tb" for k tb by (simp add: attempts_left_def)
  show "tables_ok (markRecompressed now t n tb)" "tables_ok (incrementFailure t kind tb)"
    using assms(1) by (simp_all add: markRecompressed_def incrementFailure_def MarkSegmentRecompressed_def MarkClipRecompressed_def
        IncrementSegmentRecompressFailures_def IncrementClipRecompressFailures_def split: target_id.split)
  from assms(2) consider (s) s where "s \<in> set (rows (tb_segments tb))" "t = segment_target s" "0 < seg_left s"
    | (c) c where "c \<in> set (tb_clips tb)" "t = clip_target (scanClip c)" "0 < clip_left c"
    by (auto simp: is_candidate_def)
  then show "attempts_left (markRecompressed now t n tb) < attempts_left tb"
    by cases (auto simp: markRecompressed_def segment_target_def clip_target_def scanClip_def MarkSegmentRecompressed_def
        MarkClipRecompressed_def seg_left_def clip_left_def intro!: update_segment_less update_clip_less)
  from assms(2) consider (s) s where "s \<in> set (rows (tb_segments tb))" "t = segment_target s" "0 < seg_left s"
    | (c) c where "c \<in> set (tb_clips tb)" "t = clip_target (scanClip c)" "0 < clip_left c"
    by (auto simp: is_candidate_def)
  then show "attempts_left (incrementFailure t kind tb) < attempts_left tb"
    by cases (auto simp: incrementFailure_def segment_target_def clip_target_def scanClip_def IncrementSegmentRecompressFailures_def kindcol
        IncrementClipRecompressFailures_def seg_left_def clip_left_def split: if_splits intro!: update_segment_less update_clip_less)
qed

lemma processOne_less:
  assumes "definitive re" "tables_ok (rc_tables r)" "processOne re r = (True, r')"
  shows "tables_ok (rc_tables r')" "attempts_left (rc_tables r') < attempts_left (rc_tables r)"
    "rc_cfg r' = rc_cfg r" "rc_cameras r' = rc_cameras r"
proof -
  obtain t where t: "select_target re r = Some t" and run: "processTarget re t r = (True, r')"
    using assms(3) by (auto simp: processOne_def split: option.splits)
  have cand: "is_candidate (rc_tables r) t" using select_target_candidate[of r re] t by simp
  obtain ok tb where rev: "revalidate re t (rc_tables r) = (ok, tb)" by fastforce
  have check: "if ok then tb = rc_tables r else tables_ok tb \<and> attempts_left tb < attempts_left (rc_tables r)"
    using cand revalidate_segment[OF assms(1,2)] revalidate_clip[OF assms(1,2)] rev by (fastforce simp: is_candidate_def)
  note less = attempt_less[OF assms(2) cand]
  have tb: "rc_tables r' = tb \<and> \<not> ok \<or> (\<exists>n. rc_tables r' = markRecompressed (re_now re) t n (rc_tables r)) \<or>
      (\<exists>kind. rc_tables r' = incrementFailure t kind (rc_tables r))"
    using run rev assms(1) by (auto simp: processTarget_def commit_target_def recordTranscodeFailure_def definitive_def Let_def split: if_splits bool.splits prod.splits sum.splits)
  show "tables_ok (rc_tables r')" "attempts_left (rc_tables r') < attempts_left (rc_tables r)"
    using tb check less by auto
  show "rc_cfg r' = rc_cfg r" "rc_cameras r' = rc_cameras r"
    using run rev by (auto simp: processTarget_def commit_target_def recordTranscodeFailure_def Let_def split: if_splits bool.splits prod.splits sum.splits)
qed

lemma run_loop_finishes:
  assumes "\<And>j. definitive (envs j)" "tables_ok (rc_tables r)"
  shows "\<exists>n r'. run_loop envs i r = Some (n, r') \<and> n \<le> i + attempts_left (rc_tables r) \<and>
    rc_cfg r' = rc_cfg r \<and> rc_cameras r' = rc_cameras r \<and>
    (re_cancelled (envs n) \<or> \<not> re_tryLock (envs n) \<or> select_target (envs n) r' = None)"
  using assms(2)
proof (induction "attempts_left (rc_tables r)" arbitrary: i r rule: less_induct)
  case less
  obtain again r1 where step: "processOne (envs i) r = (again, r1)" by fastforce
  consider "re_cancelled (envs i)" | "\<not> re_cancelled (envs i)" "\<not> again" | "\<not> re_cancelled (envs i)" "again" by blast
  then show ?case
  proof cases
    case 1
    then show ?thesis by (subst run_loop.simps) simp
  next
    case 2
    then have "r1 = r \<and> (\<not> re_tryLock (envs i) \<or> select_target (envs i) r = None)"
      using step by (auto simp: processOne_def processTarget_def Let_def split: option.splits if_splits prod.splits bool.splits sum.splits)
    then show ?thesis using 2 step by (subst run_loop.simps) simp
  next
    case 3
    note p = processOne_less[OF assms(1) less.prems, of i r1]
    from less.hyps[OF p(2) p(1), of "Suc i"] 3 step p show ?thesis
      by (subst run_loop.simps) force
  qed
qed

text \<open>Every camera that the pass visits offers its first candidate.\<close>

lemma consider_first_None [simp]: "consider_first priority cs best = None \<longleftrightarrow> cs = [] \<and> best = None"
  by (auto simp: consider_first_def consider_target_def split: list.split option.split)

lemma fold_None:
  assumes "fold f xs best = None" "\<And>x b. f x b = None \<Longrightarrow> b = None"
  shows "best = None \<and> (\<forall>x\<in>set xs. f x None = None)"
  using assms(1)
proof (induction xs arbitrary: best)
  case (Cons x xs)
  then have "f x best = None" "\<forall>y\<in>set xs. f y None = None" by auto
  then show ?case using assms(2) by (metis set_ConsD)
qed simp

definition priority_of :: "Recompressor \<Rightarrow> string" where
  "priority_of r = (if ts_Priority (rc_cfg r) = [] then ''largest'' else ts_Priority (rc_cfg r))"

lemma regular_target_None:
  assumes "regular_target re priority eligible tb = None" "cam \<in> set (re_order2 re)" "eligible cam = Some eff"
  shows "\<not> re_segErr re cam \<Longrightarrow> filter (\<lambda>t. \<not> re_inUse re (rt_path t)) (segment_candidates priority cam (cutoff_days (re_now re) (ts_AfterDays eff)) tb) = []"
    and "\<not> re_clipErr re cam \<Longrightarrow> clip_candidates priority cam (cutoff_days (re_now re) (ts_AfterDays eff)) tb = []"
proof -
  let ?f = "\<lambda>cam best. case eligible cam of None \<Rightarrow> best
       | Some eff \<Rightarrow> consider_camera re priority cam (cutoff_days (re_now re) (ts_AfterDays eff)) tb best"
  have "b = None" if "?f x b = None" for x b
    using that by (auto simp: consider_camera_def Let_def split: option.splits if_splits)
  from fold_None[of ?f "re_order2 re" None, OF assms(1)[unfolded regular_target_def] this] assms(2,3)
  have "consider_camera re priority cam (cutoff_days (re_now re) (ts_AfterDays eff)) tb None = None" by fastforce
  then show "\<not> re_segErr re cam \<Longrightarrow>
      filter (\<lambda>t. \<not> re_inUse re (rt_path t)) (segment_candidates priority cam (cutoff_days (re_now re) (ts_AfterDays eff)) tb) = []"
    and "\<not> re_clipErr re cam \<Longrightarrow> clip_candidates priority cam (cutoff_days (re_now re) (ts_AfterDays eff)) tb = []"
    by (auto simp: consider_camera_def Let_def split: if_splits)
qed

lemma sort_key_Nil_iff [simp]: "sort_key f xs = [] \<longleftrightarrow> xs = []"
  by (metis length_0_conv length_sort)

lemma no_clip_candidates:
  assumes "clip_candidates priority cam cutoff tb = []"
  shows "filter (clip_eligible cam cutoff) (tb_clips tb) = []"
  using assms by (simp add: clip_candidates_def GetClipRecompressionCandidatesBySize_def GetClipsForRecompression_def split: if_splits)

lemma all_in_use_take:
  assumes "filter (\<lambda>x. \<not> Q x) (take n ys) = []" "mset ys = mset xs"
  shows "(\<forall>x\<in>set xs. Q x) \<or> n \<le> length (filter Q xs)"
proof (cases "length ys \<le> n")
  case True
  then show ?thesis using assms by (auto simp: filter_empty_conv dest!: mset_eq_setD)
next
  case False
  have "filter Q (take n ys) = take n ys" using assms(1) by (simp add: filter_empty_conv filter_id_conv)
  then have "n \<le> length (filter Q ys)"
    using False by (metis append_take_drop_id filter_append le_add1 length_append length_take min.absorb2 nat_le_linear)
  also have "\<dots> = length (filter Q xs)" using assms(2) by (metis mset_filter size_mset)
  finally show ?thesis ..
qed

lemma no_segment_candidates:
  assumes "filter (\<lambda>t. \<not> re_inUse re (rt_path t)) (segment_candidates priority cam cutoff tb) = []"
  shows "(\<forall>s\<in>set (rows (tb_segments tb)). segment_eligible cam cutoff s \<longrightarrow> re_inUse re (seg_Path s)) \<or>
    (priority = ''largest'' \<and>
      16 \<le> length (filter (\<lambda>s. segment_eligible cam cutoff s \<and> re_inUse re (seg_Path s)) (rows (tb_segments tb))))"
proof -
  let ?xs = "filter (segment_eligible cam cutoff) (rows (tb_segments tb))"
  have t: "rt_path (segment_target s) = seg_Path s" for s by (simp add: segment_target_def)
  show ?thesis
  proof (cases "priority = ''largest''")
    case True
    then have "filter (\<lambda>s. \<not> re_inUse re (seg_Path s)) (take 16 (sort_key (\<lambda>r. - seg_SizeBytes r) (sort_key seg_StartTime ?xs))) = []"
      using assms by (simp add: segment_candidates_def GetRecompressionCandidatesBySize_def segmentCandidateBatch_def filter_map comp_def t)
    from all_in_use_take[OF this, of ?xs] show ?thesis using True by (auto simp: conj_commute)
  next
    case False
    then show ?thesis using assms
      by (auto simp: segment_candidates_def GetSegmentsForRecompression_def filter_map comp_def t filter_empty_conv)
  qed
qed



text \<open>A state of the tables that every pass leaves as it is keeps the loop going for ever.\<close>

definition run_stuck :: "(nat \<Rightarrow> recompress_env) \<Rightarrow> Recompressor \<Rightarrow> bool" where
  "run_stuck envs r \<longleftrightarrow> (\<forall>j. \<not> re_cancelled (envs j) \<and> processOne (envs j) r = (True, r))"

lemma run_loop_stuck:
  assumes "run_stuck envs r"
  shows "run_loop envs i r = None"
proof -
  have "\<not> run_stuck envs r" if "run_loop envs i r = Some res" for res
    using that
  proof (rule run_loop.raw_induct[where P = "\<lambda>envs i r _. \<not> run_stuck envs r", rotated])
    fix loop and envs :: "nat \<Rightarrow> recompress_env" and i :: nat and r :: Recompressor and res :: "nat \<times> Recompressor"
    assume ih: "\<And>envs i r res. loop envs i r = Some res \<Longrightarrow> \<not> run_stuck envs r"
      and run: "(if re_cancelled (envs i) then Some (i, r)
        else case processOne (envs i) r of (again, r') \<Rightarrow> if again then loop envs (Suc i) r' else Some (i, r')) = Some res"
    show "\<not> run_stuck envs r"
    proof
      assume stuck: "run_stuck envs r"
      then have "loop envs (Suc i) r = Some res" using run by (simp add: run_stuck_def)
      then show False using ih stuck by blast
    qed
  qed
  then show ?thesis using assms by (cases "run_loop envs i r") auto
qed

text \<open>
  C6. A manual pass never returns while the artifact it selects is a segment whose file cannot be examined for another reason than being
  absent: the row is skipped without a trace of the attempt and selected again.
\<close>

theorem run_now_spins:
  assumes "\<And>j. \<not> re_cancelled (envs j) \<and> re_tryLock (envs j) \<and> \<not> re_readErr (envs j) \<and> select_target (envs j) r = Some t \<and>
      re_stat (envs j) (seg_Path seg) = StatError"
    "rt_id t = SegmentID k" "GetSegmentByID k (rc_tables r) = Some seg"
  shows "RunNow envs False r = None"
proof -
  have "revalidate (envs j) t (rc_tables r) = (False, rc_tables r)" for j
    using assms by (simp add: revalidate_def)
  then have "run_stuck envs r"
    using assms(1) by (simp add: run_stuck_def processOne_def processTarget_def)
  then show ?thesis by (simp add: RunNow_def run_loop_stuck)
qed

theorem run_now_spins_witness: "RunNow (\<lambda>_. w_pass StatError) False w_recompressor = None"
proof (rule run_now_spins[where k = 7 and seg = w_segment and t = "segment_target w_segment"])
  fix j :: nat
  show "\<not> re_cancelled (w_pass StatError) \<and> re_tryLock (w_pass StatError) \<and> \<not> re_readErr (w_pass StatError) \<and>
      select_target (w_pass StatError) w_recompressor = Some (segment_target w_segment) \<and>
      re_stat (w_pass StatError) (seg_Path w_segment) = StatError"
    by code_simp
qed code_simp+

end
