(* ===== verification/Transcode_Stage.thy ===== *)
theory Transcode_Stage
  imports Recompression
begin

text \<open>
  \<^verbatim>\<open>internal/recording/transcode_subprocess.go\<close>: the tail buffers that capture a child's output and the commit of the file it
  produced, and what a pass of the recompressor does to the disk, to the rows and to its counters.
\<close>

section \<open>The tail of the output\<close>

record boundedTailBuffer =
  bt_buf :: "nat list"
  bt_limit :: int

definition newBoundedTailBuffer :: "int \<Rightarrow> boundedTailBuffer" where
  "newBoundedTailBuffer limit = \<lparr>bt_buf = [], bt_limit = limit\<rparr>"

text \<open>\<open>copy(dst, src)\<close>.\<close>

definition go_copy :: "'a list \<Rightarrow> 'a list \<Rightarrow> 'a list" where
  "go_copy dst src = take (length dst) src @ drop (length src) dst"

definition tail_Write :: "nat list \<Rightarrow> boundedTailBuffer \<Rightarrow> boundedTailBuffer" where
  "tail_Write p b =
     (if bt_limit b \<le> 0 then b
      else if int (length p) \<ge> bt_limit b then b\<lparr>bt_buf := drop (length p - nat (bt_limit b)) p\<rparr>
      else
        let overflow = int (length (bt_buf b)) + int (length p) - bt_limit b;
            kept = (if overflow > 0
                    then take (length (bt_buf b) - nat overflow) (go_copy (bt_buf b) (drop (nat overflow) (bt_buf b)))
                    else bt_buf b)
        in b\<lparr>bt_buf := kept @ p\<rparr>)"

section \<open>The commit\<close>

datatype run_result = RunOK | RunExit int | RunFailed

text \<open>
  What the system answers: the running binary's path, the source when the work starts and before the commit, the reservation of the
  stage, the outcome of the child, the failure and the result it printed, and the stage it left.
\<close>

record stage_env =
  se_self :: bool
  se_source :: "file_info option"
  se_reserve :: bool
  se_timeout :: bool
  se_run :: run_result
  se_failure :: "string option"
  se_result :: "TranscodeResult option"
  se_stage :: "file_info option"
  se_sourceNow :: "file_info option"
  se_chmod :: bool
  se_rename :: bool

definition sourceFailureKinds :: "string \<Rightarrow> string option" where
  "sourceFailureKinds srcKind =
     (if srcKind \<in> set [''codec_unavailable'', ''source_not_fragmented'', ''source_undecodable''] then Some srcKind else None)"

text \<open>The kind of a child that did not end well.\<close>

definition run_failure :: "stage_env \<Rightarrow> string" where
  "run_failure se =
     (case Option.bind (se_failure se) sourceFailureKinds of
        Some kind \<Rightarrow> kind
      | None \<Rightarrow> if se_run se = RunExit (- 1) then ''worker_crash'' else ''worker_exit'')"

definition validateTranscodeStage :: "(file_info \<Rightarrow> bool) \<Rightarrow> file_info option \<Rightarrow> int \<Rightarrow> TranscodeResult \<Rightarrow> bool" where
  "validateTranscodeStage valid stage sourceSize res =
     (if tr_OriginalSize res \<noteq> sourceSize then False
      else if tr_NewSize res \<le> 0 then False
      else case stage of
             None \<Rightarrow> False
           | Some f \<Rightarrow> fi_regular f \<and> fi_size f = tr_NewSize res \<and> valid f)"

definition validateTranscodeSource :: "file_info option \<Rightarrow> file_info \<Rightarrow> bool" where
  "validateTranscodeSource current original =
     (case current of
        None \<Rightarrow> False
      | Some c \<Rightarrow> fi_inode original = fi_inode c \<and> fi_size c = fi_size original \<and> fi_modTime c = fi_modTime original \<and>
          fi_perm c = fi_perm original)"

text \<open>The result, and the file that replaced the source, if one did.\<close>

definition outOfProcessTranscode ::
  "(file_info \<Rightarrow> bool) \<Rightarrow> stage_env \<Rightarrow> (string option + TranscodeResult) \<times> file_info option" where
  "outOfProcessTranscode valid se =
     (if \<not> se_self se then (Inl None, None)
      else case se_source se of
        None \<Rightarrow> (Inl None, None)
      | Some source \<Rightarrow>
        if \<not> se_reserve se then (Inl None, None)
        else if se_timeout se then (Inl (Some ''worker_timeout''), None)
        else if se_run se \<noteq> RunOK then (Inl (Some (run_failure se)), None)
        else case se_result se of
          None \<Rightarrow> (Inl (Some ''worker_protocol''), None)
        | Some res \<Rightarrow>
          if tr_Skipped res then (Inr res, None)
          else if \<not> validateTranscodeStage valid (se_stage se) (fi_size source) res then (Inl (Some ''invalid_output''), None)
          else if tr_NewSize res \<ge> tr_OriginalSize res
          then (Inr \<lparr>tr_OriginalSize = tr_OriginalSize res, tr_NewSize = tr_OriginalSize res, tr_Skipped = True\<rparr>, None)
          else if \<not> validateTranscodeSource (se_sourceNow se) source then (Inl (Some ''source_changed''), None)
          else if \<not> se_chmod se then (Inl None, None)
          else if \<not> se_rename se then (Inl None, None)
          else (Inr res, map_option (\<lambda>f. f\<lparr>fi_perm := fi_perm source\<rparr>) (se_stage se)))"

section \<open>Correctness\<close>

lemma take_go_copy: "n \<le> length xs \<Longrightarrow> take (length xs - n) (go_copy xs (drop n xs)) = drop n xs"
  by (simp add: go_copy_def)

definition last_bytes :: "int \<Rightarrow> 'a list \<Rightarrow> 'a list" where
  "last_bytes limit xs = drop (length xs - nat limit) xs"

lemma tail_Write_small:
  assumes "0 < bt_limit b" "int (length p) < bt_limit b"
  shows "bt_buf (tail_Write p b) = drop (length (bt_buf b) + length p - nat (bt_limit b)) (bt_buf b) @ p"
proof -
  let ?o = "length (bt_buf b) + length p - nat (bt_limit b)"
  have "nat (int (length (bt_buf b)) + int (length p) - bt_limit b) = ?o" using assms by linarith
  then show ?thesis using assms take_go_copy[of ?o "bt_buf b"] by (auto simp: tail_Write_def Let_def)
qed

lemma tail_Write_last:
  assumes "bt_buf b = last_bytes (bt_limit b) xs"
  shows "bt_buf (tail_Write p b) = last_bytes (bt_limit b) (xs @ p)"
proof -
  consider "bt_limit b \<le> 0" | "0 < bt_limit b" "bt_limit b \<le> int (length p)" | "0 < bt_limit b" "int (length p) < bt_limit b" by linarith
  then show ?thesis
  proof cases
    case 3
    have "length (bt_buf b) + length p - nat (bt_limit b) + (length xs - nat (bt_limit b)) = length xs + length p - nat (bt_limit b)"
      using 3 assms by (simp add: last_bytes_def)
    then show ?thesis using tail_Write_small[OF 3] 3(2) assms by (simp add: last_bytes_def)
  qed (use assms in \<open>auto simp: tail_Write_def last_bytes_def\<close>)
qed

lemma tail_Write_limit [simp]: "bt_limit (tail_Write p b) = bt_limit b"
  by (simp add: tail_Write_def Let_def)

text \<open>
  However a child's output is split into writes, the buffer holds the last bytes of it, at most as many as the limit.
\<close>

theorem tail_buffer_keeps_the_end:
  "bt_buf (fold tail_Write ps (newBoundedTailBuffer limit)) = drop (length (concat ps) - nat limit) (concat ps)"
proof -
  have "bt_buf (fold tail_Write ps b) = last_bytes (bt_limit b) (xs @ concat ps)" if "bt_buf b = last_bytes (bt_limit b) xs" for b xs
    using that
  proof (induction ps arbitrary: b xs)
    case (Cons p ps)
    from tail_Write_last[OF Cons.prems, of p] Cons.IH[of "tail_Write p b" "xs @ p"] show ?case by simp
  qed simp
  from this[of "newBoundedTailBuffer limit" "[]"] show ?thesis by (simp add: newBoundedTailBuffer_def last_bytes_def)
qed

text \<open>
  The recording is replaced only by a smaller, valid output of the size the child reported, when it has not changed since the child
  was started, and keeps its mode; then, and only then, is the result not a failure or a skip.
\<close>

theorem transcode_commits_safely:
  assumes "outOfProcessTranscode valid se = (res, committed)"
  shows "case committed of
      Some f \<Rightarrow> \<exists>src now stage tr. se_source se = Some src \<and> se_sourceNow se = Some now \<and> se_stage se = Some stage \<and> res = Inr tr \<and>
        \<not> tr_Skipped tr \<and> f = stage\<lparr>fi_perm := fi_perm src\<rparr> \<and> valid stage \<and> fi_inode now = fi_inode src \<and> fi_size now = fi_size src \<and>
        fi_modTime now = fi_modTime src \<and> 0 < fi_size f \<and> fi_size f = tr_NewSize tr \<and> fi_size f < fi_size src \<and> fi_size src = tr_OriginalSize tr
    | None \<Rightarrow> (\<exists>e. res = Inl e) \<or> (\<exists>tr. res = Inr tr \<and> tr_Skipped tr)"
  using assms
  by (auto simp: outOfProcessTranscode_def validateTranscodeStage_def validateTranscodeSource_def split: if_splits option.splits)

section \<open>The recompressor over the child process\<close>

text \<open>
  What the recompressor relies on in a transcoder: when it replaced the file at a path, its answer is a result that is not a skip, the
  file that was there and the new one have the sizes it reports, and the new one is smaller; otherwise the answer is an error or a
  skip.  \<open>before\<close> is the disk when the transcoder runs.
\<close>

definition replaced_by :: "file_info \<Rightarrow> TranscodeResult \<Rightarrow> file_info \<Rightarrow> bool" where
  "replaced_by old res new \<longleftrightarrow> \<not> tr_Skipped res \<and> tr_OriginalSize res = fi_size old \<and> tr_NewSize res = fi_size new \<and>
     0 < fi_size new \<and> fi_size new < fi_size old \<and> fi_perm new = fi_perm old"

locale transcoder =
  fixes transcode :: "string \<Rightarrow> (string option + TranscodeResult) \<times> file_info option"
    and before :: "string \<rightharpoonup> file_info"
  assumes replaced: "transcode p = (answer, Some f) \<Longrightarrow> \<exists>old res. answer = Inr res \<and> before p = Some old \<and> replaced_by old res f"
    and kept: "transcode p = (Inr res, None) \<Longrightarrow> tr_Skipped res"
begin

lemma target_gains:
  assumes "re_transcode re = transcode" "rc_disk r = before" "processTarget re t r = (again, r')"
  shows "if rc_disk r' = rc_disk r
    then rc_bytesReclaimed r' = rc_bytesReclaimed r \<and> rc_segmentsRecompressed r' = rc_segmentsRecompressed r \<and>
      rc_clipsRecompressed r' = rc_clipsRecompressed r
    else (\<exists>old new res. transcode (rt_path t) = (Inr res, Some new) \<and> rc_disk r (rt_path t) = Some old \<and> replaced_by old res new \<and>
      rc_transcodeFailures r' = rc_transcodeFailures r \<and>
      (if re_writeErr re
       then rc_disk r' = (rc_disk r)(rt_path t \<mapsto> new) \<and> rc_tables r' = rc_tables r \<and> rc_bytesReclaimed r' = rc_bytesReclaimed r \<and>
         rc_segmentsRecompressed r' = rc_segmentsRecompressed r \<and> rc_clipsRecompressed r' = rc_clipsRecompressed r
       else (\<exists>m. rc_disk r' = (rc_disk r)(rt_path t \<mapsto> new\<lparr>fi_modTime := m\<rparr>)) \<and>
         rc_tables r' = markRecompressed (re_now re) t (fi_size new) (rc_tables r) \<and>
         rc_bytesReclaimed r' = rc_bytesReclaimed r + (fi_size old - fi_size new) \<and>
         rc_segmentsRecompressed r' = rc_segmentsRecompressed r + (if is_clip t then 0 else 1) \<and>
         rc_clipsRecompressed r' = rc_clipsRecompressed r + (if is_clip t then 1 else 0)))"
proof (cases "re_tryLock re \<and> fst (revalidate re t (rc_tables r))")
  case False
  then have "rc_disk r' = rc_disk r \<and> rc_bytesReclaimed r' = rc_bytesReclaimed r \<and> rc_segmentsRecompressed r' = rc_segmentsRecompressed r \<and>
      rc_clipsRecompressed r' = rc_clipsRecompressed r"
    using assms(3) by (auto simp: processTarget_def split: if_splits prod.splits bool.splits)
  then show ?thesis by simp
next
  case True
  obtain answer committed where tr: "transcode (rt_path t) = (answer, committed)" by fastforce
  show ?thesis
  proof (cases committed)
    case None
    have "tr_Skipped res" if "answer = Inr res" for res using kept tr None that by blast
    then have "rc_disk r' = rc_disk r \<and> rc_bytesReclaimed r' = rc_bytesReclaimed r \<and> rc_segmentsRecompressed r' = rc_segmentsRecompressed r \<and>
      rc_clipsRecompressed r' = rc_clipsRecompressed r"
      using assms(1,3) True tr None
      by (auto simp: processTarget_def commit_target_def recordTranscodeFailure_def Let_def split: prod.splits bool.splits sum.splits if_splits)
    then show ?thesis by simp
  next
    case (Some new)
    with replaced tr obtain old res where o: "answer = Inr res" "rc_disk r (rt_path t) = Some old" "replaced_by old res new"
      using assms(2) by blast
    have r': "r' = commit_target re t res (replace_file (rt_path t) (Some new) r)"
      using assms(1,3) True tr Some o(1) by (auto simp: processTarget_def split: prod.splits bool.splits)
    have touched: "\<exists>m. rc_disk r' = (rc_disk r)(rt_path t \<mapsto> new\<lparr>fi_modTime := m\<rparr>)" if "\<not> re_writeErr re"
    proof -
      have "\<exists>m. (rc_disk r)(rt_path t \<mapsto> new) = (rc_disk r)(rt_path t \<mapsto> new\<lparr>fi_modTime := m\<rparr>)"
        by (rule exI[of _ "fi_modTime new"]) simp
      then show ?thesis using that o(3) by (auto simp: r' commit_target_def Let_def touch_file_def)
    qed
    have "fi_size old \<noteq> fi_size new" using o(3) by (simp add: replaced_by_def)
    then have "rc_disk r' \<noteq> rc_disk r"
      using touched o(2) by (cases "re_writeErr re") (auto simp: r' commit_target_def Let_def dest!: fun_cong[of _ _ "rt_path t"])
    then show ?thesis
      using tr Some o touched
      by (intro if_not_P[THEN iffD2] exI[of _ old] exI[of _ new] exI[of _ res])
        (auto simp: r' commit_target_def Let_def replaced_by_def)
  qed
qed

end

interpretation child_process: transcoder "\<lambda>p. outOfProcessTranscode valid (se p)" "\<lambda>p. se_sourceNow (se p)" for valid se
proof
  fix p answer f
  assume "outOfProcessTranscode valid (se p) = (answer, Some f)"
  then show "\<exists>old res. answer = Inr res \<and> se_sourceNow (se p) = Some old \<and> replaced_by old res f"
    by (auto simp: outOfProcessTranscode_def validateTranscodeStage_def validateTranscodeSource_def replaced_by_def
        split: if_splits option.splits)
next
  fix p res
  assume "outOfProcessTranscode valid (se p) = (Inr res, None)"
  then show "tr_Skipped res"
    by (auto simp: outOfProcessTranscode_def validateTranscodeStage_def split: if_splits option.splits)
qed

text \<open>
  C7. What one pass with the child process as the transcoder does to the disk and to the counters.  Either no file changes, and then
  the reclaimed bytes and both counts stay as they are; or the file of the selected artifact alone is replaced, by a valid output of
  the child that is not empty, strictly smaller and has the old mode.  Then, when the database accepts the update, the reclaimed bytes
  grow by exactly the old size less the new size, exactly the count of the kind of the artifact grows, by one, and the row is marked
  with the new size; when the database refuses it, rows and counters stay although the file is smaller.
\<close>

theorem recompression_gains:
  assumes "re_transcode re = (\<lambda>p. outOfProcessTranscode valid (se p))" "\<And>p. rc_disk r p = se_sourceNow (se p)"
    "processOne re r = (again, r')"
  shows "if rc_disk r' = rc_disk r
    then rc_bytesReclaimed r' = rc_bytesReclaimed r \<and> rc_segmentsRecompressed r' = rc_segmentsRecompressed r \<and>
      rc_clipsRecompressed r' = rc_clipsRecompressed r
    else (\<exists>t old stage new. select_target re r = Some t \<and> rc_disk r (rt_path t) = Some old \<and>
      se_stage (se (rt_path t)) = Some stage \<and> valid stage \<and>
      fi_inode new = fi_inode stage \<and> fi_size new = fi_size stage \<and> fi_perm new = fi_perm old \<and>
      0 < fi_size new \<and> fi_size new < fi_size old \<and> rc_disk r' = (rc_disk r)(rt_path t \<mapsto> new) \<and>
      (if re_writeErr re
       then rc_tables r' = rc_tables r \<and> rc_bytesReclaimed r' = rc_bytesReclaimed r \<and>
         rc_segmentsRecompressed r' = rc_segmentsRecompressed r \<and> rc_clipsRecompressed r' = rc_clipsRecompressed r
       else rc_tables r' = markRecompressed (re_now re) t (fi_size new) (rc_tables r) \<and>
         rc_bytesReclaimed r' = rc_bytesReclaimed r + (fi_size old - fi_size new) \<and>
         rc_segmentsRecompressed r' = rc_segmentsRecompressed r + (if is_clip t then 0 else 1) \<and>
         rc_clipsRecompressed r' = rc_clipsRecompressed r + (if is_clip t then 1 else 0)))"
proof (cases "rc_disk r' = rc_disk r")
  case True
  show ?thesis
  proof (cases "select_target re r")
    case None
    then show ?thesis using assms(3) by (simp add: processOne_def)
  next
    case (Some t)
    then have "processTarget re t r = (again, r')" using assms(3) by (simp add: processOne_def)
    from child_process.target_gains[where valid = valid and se = se, OF assms(1) ext[OF assms(2)] this] True show ?thesis by simp
  qed
next
  case False
  then obtain t where t: "select_target re r = Some t" "processTarget re t r = (again, r')"
    using assms(3) by (auto simp: processOne_def split: option.splits)
  let ?p = "rt_path t"
  from child_process.target_gains[where valid = valid and se = se, OF assms(1) ext[OF assms(2)] t(2)] False
  obtain old f res where g: "outOfProcessTranscode valid (se ?p) = (Inr res, Some f)" "rc_disk r ?p = Some old" "replaced_by old res f"
    and effect: "if re_writeErr re
       then rc_disk r' = (rc_disk r)(?p \<mapsto> f) \<and> rc_tables r' = rc_tables r \<and> rc_bytesReclaimed r' = rc_bytesReclaimed r \<and>
         rc_segmentsRecompressed r' = rc_segmentsRecompressed r \<and> rc_clipsRecompressed r' = rc_clipsRecompressed r
       else (\<exists>m. rc_disk r' = (rc_disk r)(?p \<mapsto> f\<lparr>fi_modTime := m\<rparr>)) \<and>
         rc_tables r' = markRecompressed (re_now re) t (fi_size f) (rc_tables r) \<and>
         rc_bytesReclaimed r' = rc_bytesReclaimed r + (fi_size old - fi_size f) \<and>
         rc_segmentsRecompressed r' = rc_segmentsRecompressed r + (if is_clip t then 0 else 1) \<and>
         rc_clipsRecompressed r' = rc_clipsRecompressed r + (if is_clip t then 1 else 0)" by auto
  obtain stage and src :: file_info where st: "se_stage (se ?p) = Some stage" "valid stage" "f = stage\<lparr>fi_perm := fi_perm src\<rparr>"
    using transcode_commits_safely[OF g(1)] by (simp split: option.splits) blast
  obtain new where new: "rc_disk r' = (rc_disk r)(?p \<mapsto> new)" "fi_size new = fi_size f" "fi_inode new = fi_inode f" "fi_perm new = fi_perm f"
    using effect by (cases "re_writeErr re") force+
  show ?thesis
    using False t(1) g(2,3) st new effect
    by (auto simp: replaced_by_def intro!: exI[of _ t] exI[of _ old] exI[of _ stage] exI[of _ new])
qed

definition w_stage :: stage_env where
  "w_stage = \<lparr>se_self = True, se_source = Some \<lparr>fi_inode = 1, fi_size = 100, fi_modTime = 3, fi_perm = 420, fi_regular = True\<rparr>,
     se_reserve = True, se_timeout = False, se_run = RunOK, se_failure = None,
     se_result = Some \<lparr>tr_OriginalSize = 100, tr_NewSize = 40, tr_Skipped = False\<rparr>,
     se_stage = Some \<lparr>fi_inode = 2, fi_size = 40, fi_modTime = 9, fi_perm = 384, fi_regular = True\<rparr>,
     se_sourceNow = Some \<lparr>fi_inode = 1, fi_size = 100, fi_modTime = 3, fi_perm = 420, fi_regular = True\<rparr>, se_chmod = True, se_rename = True\<rparr>"

definition w_work :: "string \<Rightarrow> stage_env" where
  "w_work p = (if p = ''/s'' then w_stage else w_stage\<lparr>se_source := None, se_sourceNow := None\<rparr>)"

definition w_worker_pass :: recompress_env where
  "w_worker_pass = (w_pass (StatOK 3))\<lparr>re_transcode := \<lambda>p. outOfProcessTranscode (\<lambda>_. True) (w_work p)\<rparr>"

theorem transcode_commits_safely_witness:
  "outOfProcessTranscode (\<lambda>_. True) w_stage =
     (Inr \<lparr>tr_OriginalSize = 100, tr_NewSize = 40, tr_Skipped = False\<rparr>,
      Some \<lparr>fi_inode = 2, fi_size = 40, fi_modTime = 9, fi_perm = 420, fi_regular = True\<rparr>) \<and> (40::int) < 100"
proof -
  have run: "outOfProcessTranscode (\<lambda>_. True) w_stage =
     (Inr \<lparr>tr_OriginalSize = 100, tr_NewSize = 40, tr_Skipped = False\<rparr>,
      Some \<lparr>fi_inode = 2, fi_size = 40, fi_modTime = 9, fi_perm = 420, fi_regular = True\<rparr>)" by code_simp
  from transcode_commits_safely[OF run] show ?thesis by (auto simp: run)
qed

theorem recompression_gains_witness:
  "rc_bytesReclaimed (snd (processOne w_worker_pass w_recompressor)) = 60 \<and>
   (\<exists>new. rc_disk (snd (processOne w_worker_pass w_recompressor)) = [''/s'' \<mapsto> new] \<and> fi_size new = 40 \<and> fi_perm new = 420)"
proof -
  have e: "re_transcode w_worker_pass = (\<lambda>p. outOfProcessTranscode (\<lambda>_. True) (w_work p))" by (simp add: w_worker_pass_def)
  have d: "rc_disk w_recompressor p = se_sourceNow (w_work p)" for p by (simp add: w_work_def w_stage_def w_defs)
  have sel: "select_target w_worker_pass w_recompressor = Some (segment_target w_segment)" by code_simp
  have gained: "rc_bytesReclaimed (snd (processOne w_worker_pass w_recompressor)) = 60" by code_simp
  have zero: "rc_bytesReclaimed w_recompressor = 0" "\<not> re_writeErr w_worker_pass" "rt_path (segment_target w_segment) = ''/s''"
    "se_stage (w_work ''/s'') = Some \<lparr>fi_inode = 2, fi_size = 40, fi_modTime = 9, fi_perm = 384, fi_regular = True\<rparr>"
    "fi_perm w_file = 420" by code_simp+
  have disk: "rc_disk w_recompressor = [''/s'' \<mapsto> w_file]" by (simp add: w_defs)
  from recompression_gains[OF e d prod.collapse[symmetric]] sel gained zero disk show ?thesis
    by (auto split: if_splits)
qed

text \<open>
  A clip keeps its modification time, by which retention deletes it, through a pass whose database update succeeds.
\<close>

theorem clip_mtime_kept:
  assumes "processTarget re t r = (again, r')" "is_clip t" "rc_disk r (rt_path t) = Some old"
    "re_stat re (rt_path t) = StatOK (fi_modTime old)" "\<not> isZero (fi_modTime old)" "re_chtimes re" "\<not> re_writeErr re"
    "\<And>err f. re_transcode re (rt_path t) \<noteq> (Inl err, Some f)"
    "\<And>res f. re_transcode re (rt_path t) = (Inr res, Some f) \<Longrightarrow> \<not> tr_Skipped res"
  shows "\<exists>new. rc_disk r' (rt_path t) = Some new \<and> fi_modTime new = fi_modTime old"
  using assms by (auto simp: processTarget_def commit_target_def recordTranscodeFailure_def Let_def touch_file_def
      split: if_splits prod.splits bool.splits sum.splits option.splits)

text \<open>When that update fails the rewritten file keeps its new time, and the retention clock of the clip starts again.\<close>

theorem clip_mtime_lost:
  assumes "re_tryLock re" "revalidate re t (rc_tables r) = (True, tb)" "re_transcode re (rt_path t) = (Inr res, Some new)" "re_writeErr re"
  shows "rc_disk (snd (processTarget re t r)) (rt_path t) = Some new"
  using assms by (simp add: processTarget_def commit_target_def Let_def)

end
