(* ===== verification/Sample_Timing.thy ===== *)
theory Sample_Timing
  imports Float_Rounding
begin

text \<open>
  The timing of live video: \<^verbatim>\<open>internal/stream/h264sampletime.go\<close> turns RTP timestamps into decode-ordered samples for the HLS and
  MSE muxers, \<^verbatim>\<open>internal/stream/mse_smoother.go\<close> evens their durations.  Of the codec library the model takes the decode time
  it finds for the access units seen since it was initialized (\<open>ext\<close>), its marshaller and its test for random access.
  Clocks count ticks of 90 kHz and stay far below the bounds of \<^verbatim>\<open>int64\<close>; products and sums of floats are
  rounded one by one.
\<close>

section \<open>Samples in decode order\<close>

type_synonym access_unit = "nat list list"

record live_sample =
  ls_Duration :: int
  ls_PTSOffset :: int
  ls_IsNonSyncSample :: bool
  ls_Payload :: "nat list"

record h264SampleTimer =
  ht_sdpSPS :: "nat list"
  ht_sdpPPS :: "nat list"
  ht_seen :: "(access_unit \<times> int) list"
  ht_unwrapInit :: bool
  ht_unwrapLast :: "32 word"
  ht_unwrapAccum :: int
  ht_inFlight :: "live_sample option"
  ht_inFlightDTS :: int
  ht_fallbackLogged :: bool

record codec =
  co_ext :: "(access_unit \<times> int) list \<Rightarrow> int option"
  co_marshal :: "access_unit \<Rightarrow> nat list option"
  co_randomAccess :: "access_unit \<Rightarrow> bool"

definition timer_reset :: "h264SampleTimer \<Rightarrow> h264SampleTimer" where
  "timer_reset t = t\<lparr>ht_seen := [], ht_unwrapInit := False, ht_unwrapLast := 0, ht_unwrapAccum := 0, ht_inFlight := None,
     ht_inFlightDTS := 0, ht_fallbackLogged := False\<rparr>"

definition newH264SampleTimer :: h264SampleTimer where
  "newH264SampleTimer = \<lparr>ht_sdpSPS = [], ht_sdpPPS = [], ht_seen = [], ht_unwrapInit = False, ht_unwrapLast = 0, ht_unwrapAccum = 0,
     ht_inFlight = None, ht_inFlightDTS = 0, ht_fallbackLogged = False\<rparr>"

definition setParameterSets :: "nat list \<Rightarrow> nat list \<Rightarrow> h264SampleTimer \<Rightarrow> h264SampleTimer" where
  "setParameterSets sps pps t = t\<lparr>ht_sdpSPS := sps, ht_sdpPPS := pps\<rparr>"

definition unwrapPTS :: "32 word \<Rightarrow> h264SampleTimer \<Rightarrow> int \<times> h264SampleTimer" where
  "unwrapPTS rtpTS t =
     (if \<not> ht_unwrapInit t
      then (uint rtpTS, t\<lparr>ht_unwrapInit := True, ht_unwrapLast := rtpTS, ht_unwrapAccum := uint rtpTS\<rparr>)
      else
        let accum = wrap64 (ht_unwrapAccum t + sint (rtpTS - ht_unwrapLast t))
        in (accum, t\<lparr>ht_unwrapAccum := accum, ht_unwrapLast := rtpTS\<rparr>))"

definition is_sps :: "nat list \<Rightarrow> bool" where
  "is_sps nalu = (case nalu of [] \<Rightarrow> False | b # _ \<Rightarrow> b mod 32 = 7)"

definition withParameterSets :: "codec \<Rightarrow> access_unit \<Rightarrow> h264SampleTimer \<Rightarrow> access_unit" where
  "withParameterSets co au t =
     (if ht_sdpSPS t = [] \<or> \<not> co_randomAccess co au then au
      else if list_ex is_sps au then au
      else ht_sdpSPS t # (if ht_sdpPPS t = [] then [] else [ht_sdpPPS t]) @ au)"

text \<open>\<open>push\<close>: the sample it finalizes, if any.\<close>

definition timer_push :: "codec \<Rightarrow> access_unit \<Rightarrow> 32 word \<Rightarrow> h264SampleTimer \<Rightarrow> live_sample option \<times> h264SampleTimer" where
  "timer_push co au0 rtpTS t0 =
     (let (pts, t1) = unwrapPTS rtpTS t0;
          au = withParameterSets co au0 t1;
          seen = ht_seen t1 @ [(au, pts)];
          (dts, logged) = (case co_ext co seen of Some d \<Rightarrow> (d, ht_fallbackLogged t1) | None \<Rightarrow> (pts, True));
          t2 = t1\<lparr>ht_seen := seen, ht_fallbackLogged := logged\<rparr>
      in case co_marshal co au of
           None \<Rightarrow> (None, t2)
         | Some avcc \<Rightarrow>
             let next = \<lparr>ls_Duration = 0, ls_PTSOffset = sint (word_of_int (pts - dts) :: 32 word),
                   ls_IsNonSyncSample = (\<not> co_randomAccess co au), ls_Payload = avcc\<rparr>;
                 delta = wrap64 (dts - ht_inFlightDTS t2);
                 dur = (if delta \<le> 0 \<or> delta > 90000 * 2 then 90000 div 30 else delta);
                 finalized = map_option (\<lambda>s. s\<lparr>ls_Duration := dur\<rparr>) (ht_inFlight t2)
             in (finalized, t2\<lparr>ht_inFlight := Some next, ht_inFlightDTS := dts\<rparr>))"

section \<open>Even durations\<close>

record durationSmoother =
  sm_ewma :: float64
  sm_count :: int
  sm_smoothClock :: int
  sm_realClock :: int

definition new_smoother :: durationSmoother where
  "new_smoother = \<lparr>sm_ewma = 0, sm_count = 0, sm_smoothClock = 0, sm_realClock = 0\<rparr>"

definition smoothAlpha :: float64 where "smoothAlpha = fl64 (1 / 10)"
definition minFrameTicks :: int where "minFrameTicks = 90000 div 60"
definition maxFrameTicks :: int where "maxFrameTicks = 90000 div 2"

definition next_ewma :: "float64 \<Rightarrow> int \<Rightarrow> float64 \<Rightarrow> float64" where
  "next_ewma mean cnt ewma =
     (let alpha0 = fdiv 1 (float_of_int cnt);
          alpha = (if alpha0 < smoothAlpha then smoothAlpha else alpha0);
          e = (if ewma = 0 then mean else fadd ewma (fmul alpha (fsub mean ewma)));
          e1 = (if e < of_int minFrameTicks then of_int minFrameTicks else e)
      in if e1 > of_int maxFrameTicks then of_int maxFrameTicks else e1)"

definition correction :: "int \<Rightarrow> int \<Rightarrow> int" where
  "correction target drift =
     (let maxCorr = (if target div 8 < 1 then 1 else target div 8)
      in if drift > maxCorr then maxCorr else if drift < - maxCorr then - maxCorr else drift)"

definition stamp :: "int \<Rightarrow> live_sample list \<Rightarrow> live_sample list" where
  "stamp fragTotal samples =
     (let n = length samples; per = fragTotal div int n
      in map (\<lambda>s. s\<lparr>ls_Duration := per mod 2 ^ 32\<rparr>) (butlast samples) @
         [(last samples)\<lparr>ls_Duration := (fragTotal - per * int (n - 1)) mod 2 ^ 32\<rparr>])"

definition smooth :: "live_sample list \<Rightarrow> int \<Rightarrow> durationSmoother \<Rightarrow> (live_sample list \<times> int) \<times> durationSmoother" where
  "smooth samples totalTicks d =
     (let n = int (length samples)
      in if n = 0 then (([], 0), d)
         else
           let mean = fdiv (float_of_int totalTicks) (float_of_int n);
               cnt = sm_count d + 1;
               ewma = next_ewma mean cnt (sm_ewma d);
               target = \<lfloor>fadd ewma (1 / 2)\<rfloor>;
               ideal = target * n;
               realClock = sm_realClock d + totalTicks;
               paced = ideal + correction target (realClock - (sm_smoothClock d + ideal));
               fragTotal = (if paced < n then n else paced)
           in ((stamp fragTotal samples, fragTotal mod 2 ^ 32),
               \<lparr>sm_ewma = ewma, sm_count = cnt, sm_smoothClock = sm_smoothClock d + fragTotal, sm_realClock = realClock\<rparr>))"

section \<open>The timeline\<close>

text \<open>The presentation times that \<open>unwrapPTS\<close> gives a sequence of RTP timestamps.\<close>

fun unwrap_all :: "32 word list \<Rightarrow> h264SampleTimer \<Rightarrow> int list" where
  "unwrap_all [] t = []"
| "unwrap_all (w # ws) t = (case unwrapPTS w t of (pts, t') \<Rightarrow> pts # unwrap_all ws t')"

fun steps_small :: "int list \<Rightarrow> bool" where
  "steps_small (p # q # ps) \<longleftrightarrow> - (2 ^ 31) \<le> q - p \<and> q - p < 2 ^ 31 \<and> steps_small (q # ps)"
| "steps_small _ \<longleftrightarrow> True"

lemma signed_step:
  assumes "- (2 ^ 31) \<le> q - p" "q - p < 2 ^ 31"
  shows "sint (word_of_int q - word_of_int p :: 32 word) = q - p"
proof -
  have "sint (word_of_int q - word_of_int p :: 32 word) = sint (word_of_int (q - p) :: 32 word)" by simp
  also have "\<dots> = q - p" unfolding int_word_sint using assms by simp
  finally show ?thesis .
qed

lemma unwrap_all_known:
  assumes "steps_small (p # ps)" "list_all in64 ps"
    "ht_unwrapInit t" "ht_unwrapLast t = word_of_int p" "ht_unwrapAccum t = p"
  shows "unwrap_all (map word_of_int ps) t = ps"
  using assms
proof (induction ps arbitrary: p t)
  case (Cons q ps)
  have u: "unwrapPTS (word_of_int q) t = (q, t\<lparr>ht_unwrapAccum := q, ht_unwrapLast := word_of_int q\<rparr>)"
    using Cons.prems signed_step[of q p] by (simp add: unwrapPTS_def Let_def)
  show ?case using Cons.prems Cons.IH[of q "t\<lparr>ht_unwrapAccum := q, ht_unwrapLast := word_of_int q\<rparr>"] by (simp add: u)
qed simp

text \<open>
  C21. The timer recovers the presentation times of a stream from their low 32 bits, through any number of wraps, when it starts with a
  time that fits them and no two access units in a row are thirteen hours apart.
\<close>

theorem unwrap_recovers:
  assumes "steps_small (p # ps)" "0 \<le> p" "p < 2 ^ 32" "list_all in64 ps" "\<not> ht_unwrapInit t"
  shows "unwrap_all (map word_of_int (p # ps)) t = p # ps"
proof -
  have "uint (word_of_int p :: 32 word) = p" using assms(2,3) by (simp add: uint_word_of_int)
  then show ?thesis using assms(5) unwrap_all_known[OF assms(1,4)] by (simp add: unwrapPTS_def)
qed

theorem unwrap_recovers_witness:
  "unwrap_all (map word_of_int [4294967290, 4294970290, 4294967296 + 2 ^ 31]) newH264SampleTimer = [4294967290, 4294970290, 4294967296 + 2 ^ 31]"
  by (rule unwrap_recovers) (simp_all add: in64_def newH264SampleTimer_def)

section \<open>Order and durations\<close>

text \<open>The finalized samples of a sequence of access units, and the timer after them.\<close>

fun push_all :: "codec \<Rightarrow> (access_unit \<times> 32 word) list \<Rightarrow> h264SampleTimer \<Rightarrow> live_sample list \<times> h264SampleTimer" where
  "push_all co [] t = ([], t)"
| "push_all co ((au, ts) # xs) t =
     (case timer_push co au ts t of (out, t1) \<Rightarrow>
        case push_all co xs t1 of (outs, t2) \<Rightarrow> ((case out of None \<Rightarrow> outs | Some s \<Rightarrow> s # outs), t2))"

definition payload_of :: "codec \<Rightarrow> h264SampleTimer \<Rightarrow> access_unit \<Rightarrow> nat list option" where
  "payload_of co t au = co_marshal co (withParameterSets co au t)"

lemma withParameterSets_cong: "ht_sdpSPS t = ht_sdpSPS t' \<Longrightarrow> ht_sdpPPS t = ht_sdpPPS t' \<Longrightarrow> withParameterSets co au t = withParameterSets co au t'"
  by (simp add: withParameterSets_def)

lemma unwrapPTS_frame:
  assumes "unwrapPTS ts t = (pts, t')"
  shows "ht_sdpSPS t' = ht_sdpSPS t" "ht_sdpPPS t' = ht_sdpPPS t" "ht_inFlight t' = ht_inFlight t" "ht_inFlightDTS t' = ht_inFlightDTS t"
  using assms by (auto simp: unwrapPTS_def Let_def split: if_splits)

lemma timer_push_step:
  assumes "timer_push co au ts t = (out, t')"
  shows "ht_sdpSPS t' = ht_sdpSPS t" "ht_sdpPPS t' = ht_sdpPPS t"
    and "payload_of co t au = None \<Longrightarrow> out = None \<and> ht_inFlight t' = ht_inFlight t"
    and "payload_of co t au = Some b \<Longrightarrow> map_option ls_Payload out = map_option ls_Payload (ht_inFlight t) \<and>
           map_option ls_Payload (ht_inFlight t') = Some b \<and> (\<forall>s. out = Some s \<longrightarrow> 0 < ls_Duration s \<and> ls_Duration s \<le> 180000)"
proof -
  obtain pts t1 where u: "unwrapPTS ts t = (pts, t1)" by fastforce
  note f = unwrapPTS_frame[OF u]
  have w: "payload_of co t au = co_marshal co (withParameterSets co au t1)"
    using withParameterSets_cong[of t1 t] f by (simp add: payload_of_def)
  show "ht_sdpSPS t' = ht_sdpSPS t" "ht_sdpPPS t' = ht_sdpPPS t"
    using assms f by (auto simp: timer_push_def u Let_def split: option.splits)
  show "out = None \<and> ht_inFlight t' = ht_inFlight t" if "payload_of co t au = None"
    using assms f that by (auto simp: timer_push_def u Let_def w split: option.splits)
  show "map_option ls_Payload out = map_option ls_Payload (ht_inFlight t) \<and>
           map_option ls_Payload (ht_inFlight t') = Some b \<and> (\<forall>s. out = Some s \<longrightarrow> 0 < ls_Duration s \<and> ls_Duration s \<le> 180000)"
    if "payload_of co t au = Some b"
    using assms f that by (auto simp: timer_push_def u Let_def w option.map_comp comp_def split: option.splits)
qed

definition opt_list :: "'a option \<Rightarrow> 'a list" where
  "opt_list x = (case x of None \<Rightarrow> [] | Some a \<Rightarrow> [a])"

lemma map_opt_list: "map f (opt_list x) = opt_list (map_option f x)"
  by (simp add: opt_list_def split: option.split)

text \<open>
  No access unit that can be marshalled is lost or reordered: the finalized samples and the one in flight are theirs, one for each,
  in order, and every finalized sample has a duration between one tick and two seconds.
\<close>

theorem timer_loses_nothing:
  assumes "push_all co xs t = (outs, t')"
  shows "map ls_Payload (outs @ opt_list (ht_inFlight t')) =
      map ls_Payload (opt_list (ht_inFlight t)) @ map the (filter (\<lambda>b. b \<noteq> None) (map (payload_of co t \<circ> fst) xs)) \<and>
    list_all (\<lambda>s. 0 < ls_Duration s \<and> ls_Duration s \<le> 180000) outs"
  using assms
proof (induction xs arbitrary: t outs)
  case (Cons x xs)
  obtain au ts where x: "x = (au, ts)" by fastforce
  obtain out t1 where p: "timer_push co au ts t = (out, t1)" by fastforce
  obtain outs1 where r: "push_all co xs t1 = (outs1, t')" using Cons.prems p x by (auto split: prod.splits)
  note s = timer_push_step[OF p]
  have same: "payload_of co t1 = payload_of co t" 
    using withParameterSets_cong[OF s(1,2), of co] by (simp add: payload_of_def fun_eq_iff)
  have outs: "outs = opt_list out @ outs1" using Cons.prems p r x by (auto simp: opt_list_def split: option.splits)
  show ?case
  proof (cases "payload_of co t au")
    case None
    then show ?thesis using s(3) Cons.IH[OF r] by (simp add: outs x same opt_list_def)
  next
    case (Some b)
    have "map ls_Payload (opt_list out) = map ls_Payload (opt_list (ht_inFlight t))" "map ls_Payload (opt_list (ht_inFlight t1)) = [b]"
      "list_all (\<lambda>s. 0 < ls_Duration s \<and> ls_Duration s \<le> 180000) (opt_list out)"
      using s(4)[OF Some] unfolding map_opt_list by (auto simp: opt_list_def split: option.split)
    then show ?thesis using Cons.IH[OF r] Some by (simp add: outs x same)
  qed
qed simp

section \<open>The smoothed clock\<close>

lemma round_even_ge: "of_int n \<le> y \<Longrightarrow> n \<le> round_even y"
proof -
  assume "of_int n \<le> y"
  then have "n \<le> \<lfloor>y\<rfloor>" by (simp add: le_floor_iff)
  then show ?thesis by (auto simp: round_even_def Let_def)
qed

text \<open>Below \<open>2 ^ 52\<close> rounding does not cross an integer.\<close>

lemma fl64_between_ints:
  assumes "of_int a \<le> x" "x \<le> of_int b" "0 < x" "x < 2 ^ 52"
  shows "of_int a \<le> fl64 x" "fl64 x \<le> of_int b"
proof -
  define u where "u = pow2 (exponent x - 52)"
  have u: "0 < u" by (simp add: u_def)
  have "pow2 (exponent x) < pow2 52" using exponent_bracket[OF assms(3)] assms(4) by (simp add: pow2_def)
  then have "exponent x \<le> 52" using pow2_less by fastforce
  then obtain d where d: "52 - exponent x = int d" using zero_le_imp_eq_int[of "52 - exponent x"] by auto
  have one: "u * 2 ^ d = 1" unfolding u_def pow2_nat[symmetric] pow2_add[symmetric] d[symmetric] by (simp add: pow2_def)
  have scale: "of_int (m * 2 ^ d) * u = of_int m" for m using one by (simp add: mult.assoc mult.commute)
  have fl: "fl64 x = of_int (round_even (x / u)) * u" using assms(3) by (simp add: fl64_def u_def Let_def)
  have "of_int (a * 2 ^ d) \<le> x / u" unfolding pos_le_divide_eq[OF u] scale using assms(1) .
  from round_even_ge[OF this] have "of_int (a * 2 ^ d) * u \<le> fl64 x" unfolding fl using u by (intro mult_right_mono) (simp_all only: of_int_le_iff less_imp_le)
  then show "of_int a \<le> fl64 x" by (simp only: scale)
  have "x / u \<le> of_int (b * 2 ^ d)" unfolding pos_divide_le_eq[OF u] scale using assms(2) .
  then have "x / u < of_int (b * 2 ^ d) + 1 / 2" by linarith
  from round_even_le[OF this] have "fl64 x \<le> of_int (b * 2 ^ d) * u" unfolding fl using u by (intro mult_right_mono) (simp_all only: of_int_le_iff less_imp_le)
  then show "fl64 x \<le> of_int b" by (simp only: scale)
qed

lemma next_ewma_bounds: "1500 \<le> next_ewma mean c e" "next_ewma mean c e \<le> 45000"
  by (simp_all add: next_ewma_def Let_def minFrameTicks_def maxFrameTicks_def)

lemma target_bounds: "1500 \<le> \<lfloor>fadd (next_ewma mean c e) (1 / 2)\<rfloor>" "\<lfloor>fadd (next_ewma mean c e) (1 / 2)\<rfloor> \<le> 45001"
proof -
  let ?x = "next_ewma mean c e + 1 / 2"
  have b: "of_int 1500 \<le> ?x" "?x \<le> of_int 45001" using next_ewma_bounds[of mean c e] by simp_all
  note f = fl64_between_ints[OF b]
  have "1500 \<le> fl64 ?x" "fl64 ?x \<le> 45001" using f b by simp_all
  then show "1500 \<le> \<lfloor>fadd (next_ewma mean c e) (1 / 2)\<rfloor>" "\<lfloor>fadd (next_ewma mean c e) (1 / 2)\<rfloor> \<le> 45001"
    by (simp_all add: fadd_def le_floor_iff floor_le_iff)
qed

lemma correction_bounds: "1500 \<le> t \<Longrightarrow> \<bar>correction t drift\<bar> \<le> t div 8"
proof -
  assume "1500 \<le> t"
  then have "1 \<le> t div 8" by simp
  then show ?thesis by (auto simp: correction_def Let_def)
qed

lemma stamp_total:
  assumes "ss \<noteq> []" "int (length ss) \<le> F" "F < 2 ^ 32"
  shows "sum_list (map ls_Duration (stamp F ss)) = F \<and> list_all (\<lambda>s. 1 \<le> ls_Duration s) (stamp F ss) \<and>
    map ls_Payload (stamp F ss) = map ls_Payload ss"
proof -
  define n where "n = int (length ss)"
  define per where "per = F div n"
  have n: "1 \<le> n" using assms(1) by (cases ss) (simp_all add: n_def)
  have per1: "1 \<le> per" using assms(2) n by (simp add: per_def n_def[symmetric] pos_imp_zdiv_pos_iff zdiv_mono1[of n F n, simplified])
  have perF: "per * n \<le> F" using pos_mod_sign[of n F] div_mult_mod_eq[of F n] n unfolding per_def by linarith
  then have "per * (n - 1) + per \<le> F" by (simp add: algebra_simps)
  moreover have "0 \<le> per * (n - 1)" using per1 n by simp
  ultimately have small: "per mod 2 ^ 32 = per" "(F - per * (n - 1)) mod 2 ^ 32 = F - per * (n - 1)" "1 \<le> F - per * (n - 1)"
    using per1 assms(3) by (simp_all)
  have len: "int (length ss - Suc 0) = n - 1" using assms(1) by (cases ss) (simp_all add: n_def)
  have st: "stamp F ss = map (\<lambda>s. s\<lparr>ls_Duration := per\<rparr>) (butlast ss) @ [(last ss)\<lparr>ls_Duration := F - per * (n - 1)\<rparr>]"
    using small(1,2) by (simp add: stamp_def Let_def len n_def[symmetric] per_def[symmetric])
  have "sum_list (map ls_Duration (stamp F ss)) = F"
    by (simp add: st comp_def sum_list_triv len mult.commute)
  moreover have "list_all (\<lambda>s. 1 \<le> ls_Duration s) (stamp F ss)" using per1 small(3) by (simp add: st list_all_iff)
  moreover have "map ls_Payload (stamp F ss) = map ls_Payload (butlast ss @ [last ss])" by (simp add: st comp_def)
  ultimately show ?thesis using assms(1) by simp
qed

text \<open>
  Smoothing stamps exactly the total that it returns and by which it advances its clock, at a pace between 1312 and 50626 ticks a
  frame, and leaves the pictures alone.
\<close>

theorem smooth_stamps_total:
  assumes "smooth samples totalTicks d = ((ss, stamped), d')" "samples \<noteq> []" "50626 * int (length samples) < 2 ^ 32"
  shows "sum_list (map ls_Duration ss) = stamped \<and> sm_smoothClock d' = sm_smoothClock d + stamped \<and>
    sm_realClock d' = sm_realClock d + totalTicks \<and> list_all (\<lambda>s. 1 \<le> ls_Duration s) ss \<and> map ls_Payload ss = map ls_Payload samples \<and>
    1312 * int (length samples) \<le> stamped \<and> stamped \<le> 50626 * int (length samples)"
proof -
  define n where "n = int (length samples)"
  define T where "T = \<lfloor>fadd (next_ewma (fdiv (float_of_int totalTicks) (float_of_int n)) (sm_count d + 1) (sm_ewma d)) (1 / 2)\<rfloor>"
  define C where "C = correction T (sm_realClock d + totalTicks - (sm_smoothClock d + T * n))"
  have n: "1 \<le> n" using assms(2) by (cases samples) (simp_all add: n_def)
  have T: "1500 \<le> T" "T \<le> 45001" unfolding T_def by (rule target_bounds)+
  have Tn: "1500 * n \<le> T * n" "T * n \<le> 45001 * n" using T n by (simp_all add: mult_right_mono)
  have "\<bar>C\<bar> \<le> T div 8" unfolding C_def by (rule correction_bounds[OF T(1)])
  then have C: "C \<le> 5625" "- C \<le> T div 8" using T(2) by simp_all
  have low: "T div 8 \<le> 188 * n + (T - 1500) * n"
  proof -
    have "T div 8 \<le> 188 + (T - 1500)" using T by simp
    also have "\<dots> \<le> (188 + (T - 1500)) * n" using T n by (simp add: mult_le_cancel_left1)
    finally show ?thesis by (simp add: algebra_simps)
  qed
  have F: "1312 * n \<le> T * n + C" using low C(2) by (simp add: algebra_simps)
  have F': "T * n + C \<le> 50626 * n" using Tn(2) C(1) n by linarith
  have frag: "(if T * n + C < n then n else T * n + C) = T * n + C" using F n by simp
  have n0: "n \<noteq> 0" using n by simp
  have run: "ss = stamp (T * n + C) samples" "stamped = (T * n + C) mod 2 ^ 32" "sm_smoothClock d' = sm_smoothClock d + (T * n + C)"
      "sm_realClock d' = sm_realClock d + totalTicks"
    using assms(1) unfolding smooth_def Let_def n_def[symmetric] T_def[symmetric] C_def[symmetric] if_not_P[OF n0] frag by auto
  have small: "T * n + C < 2 ^ 32" "int (length samples) \<le> T * n + C" using assms(3) F F' n by (simp_all add: n_def)
  then have "stamped = T * n + C" using run(2) n by simp
  then show ?thesis using stamp_total[OF assms(2) small(2,1)] run F F' by (simp add: n_def)
qed

text \<open>
  For a camera slower than two frames a second the smoothed clock falls behind the media without bound.
\<close>

definition slow_fragment :: "durationSmoother \<Rightarrow> durationSmoother" where
  "slow_fragment d = snd (smooth [\<lparr>ls_Duration = 90000, ls_PTSOffset = 0, ls_IsNonSyncSample = False, ls_Payload = []\<rparr>] 90000 d)"

lemma fl64_ge_int:
  assumes "of_int a \<le> x" "0 < x" "a \<le> 2 ^ 52"
  shows "of_int a \<le> fl64 x"
proof (cases "x < 2 ^ 52")
  case True
  show ?thesis using fl64_between_ints(1)[OF assms(1) _ assms(2) True, of "2 ^ 52"] True by simp
next
  case False
  define u where "u = pow2 (exponent x - 52)"
  have u: "0 < u" by (simp add: u_def)
  have E: "pow2 (exponent x) = of_int (2 ^ 52) * u" using pow2_add[of "int 52" "exponent x - 52"] unfolding pow2_nat by (simp add: u_def)
  have "pow2 52 < pow2 (exponent x + 1)" using False exponent_bracket[OF assms(2)] by (simp add: pow2_def)
  then have "pow2 52 \<le> pow2 (exponent x)" using pow2_less[of 52 "exponent x + 1"] by (intro pow2_mono) simp
  moreover have "of_int (2 ^ 52) \<le> x / u" unfolding pos_le_divide_eq[OF u] E[symmetric] using exponent_bracket[OF assms(2)] by simp
  then have "of_int (2 ^ 52) * u \<le> of_int (round_even (x / u)) * u"
    using u round_even_ge by (intro mult_right_mono) (simp_all only: of_int_le_iff less_imp_le)
  moreover have "fl64 x = of_int (round_even (x / u)) * u" using assms(2) by (simp add: fl64_def u_def Let_def)
  ultimately have "pow2 52 \<le> fl64 x" unfolding E by linarith
  then have "2 ^ 52 \<le> fl64 x" by (simp add: pow2_def)
  moreover have "of_int a \<le> (2 ^ 52 :: rat)" using assms(3) of_int_le_iff[of a "2 ^ 52", where 'a = rat] by simp
  ultimately show ?thesis by linarith
qed

lemma slow_ewma:
  assumes "e = 0 \<or> e = 45000"
  shows "next_ewma 90000 c e = 45000"
proof -
  define alpha where "alpha = (if fdiv 1 (float_of_int c) < smoothAlpha then smoothAlpha else fdiv 1 (float_of_int c))"
  have "0 \<le> smoothAlpha" by (simp add: smoothAlpha_def fl64_nonneg)
  then have "0 \<le> alpha" by (simp add: alpha_def)
  moreover have "0 \<le> fsub 90000 45000" by (simp add: fsub_def fl64_nonneg)
  ultimately have "0 \<le> fmul alpha (fsub 90000 45000)" by (simp add: fmul_def fl64_nonneg)
  then have "of_int 45000 \<le> fadd 45000 (fmul alpha (fsub 90000 45000))" unfolding fadd_def by (intro fl64_ge_int) simp_all
  then show ?thesis using assms by (auto simp: next_ewma_def Let_def alpha_def[symmetric] minFrameTicks_def maxFrameTicks_def)
qed

lemma slow_fragment_step:
  assumes "sm_ewma d = 0 \<or> sm_ewma d = 45000" "sm_smoothClock d \<le> sm_realClock d"
  shows "slow_fragment d = d\<lparr>sm_ewma := 45000, sm_count := sm_count d + 1, sm_smoothClock := sm_smoothClock d + 50625, sm_realClock := sm_realClock d + 90000\<rparr>"
proof -
  have mean: "fdiv (float_of_int 90000) (float_of_int 1) = 90000" by code_simp
  have target: "\<lfloor>fadd 45000 (1 / 2)\<rfloor> = 45000" by code_simp
  show ?thesis using assms(2) by (simp add: slow_fragment_def smooth_def Let_def mean[simplified] slow_ewma[OF assms(1)] target correction_def)
qed

theorem smoother_falls_behind:
  "sm_realClock ((slow_fragment ^^ k) new_smoother) - sm_smoothClock ((slow_fragment ^^ k) new_smoother) = 39375 * int k"
proof -
  have "(sm_ewma ((slow_fragment ^^ k) new_smoother) = 0 \<or> sm_ewma ((slow_fragment ^^ k) new_smoother) = 45000) \<and>
    sm_realClock ((slow_fragment ^^ k) new_smoother) - sm_smoothClock ((slow_fragment ^^ k) new_smoother) = 39375 * int k"
  proof (induction k)
    case (Suc k)
    then show ?case by (simp add: slow_fragment_step)
  qed (simp add: new_smoother_def)
  then show ?thesis ..
qed

end
