(* ===== verification/Safe_Path.thy ===== *)
theory Safe_Path
  imports Go_Prelude
begin

text \<open>
  \<^verbatim>\<open>internal/safepath/safepath.go\<close>: paths below a root and file names made of untrusted text, with the lexical functions of
  \<^verbatim>\<open>path/filepath\<close> they use (for Unix paths).  The argument \<open>wd\<close> is the working directory, \<open>None\<close> when it cannot be found.
\<close>

section \<open>Lexical paths\<close>

fun join_slash :: "string list \<Rightarrow> string" where
  "join_slash [] = []"
| "join_slash [w] = w"
| "join_slash (w # ws) = w @ CHR ''/'' # join_slash ws"

definition IsAbs :: "string \<Rightarrow> bool" where
  "IsAbs p = hasPrefix p ''/''"

text \<open>One element of a path, after the elements \<open>acc\<close> that \<^verbatim>\<open>filepath.Clean\<close> has kept.\<close>

definition clean_step :: "bool \<Rightarrow> string list \<Rightarrow> string \<Rightarrow> string list" where
  "clean_step rooted acc w =
     (if w = [] \<or> w = ''.'' then acc
      else if w = ''..'' then
        (if acc \<noteq> [] \<and> last acc \<noteq> ''..'' then butlast acc else if rooted then acc else acc @ [w])
      else acc @ [w])"

definition clean_elems :: "bool \<Rightarrow> string \<Rightarrow> string list" where
  "clean_elems rooted p = foldl (clean_step rooted) [] (splitOn CHR ''/'' p)"

definition Clean :: "string \<Rightarrow> string" where
  "Clean p =
     (if p = [] then ''.''
      else if IsAbs p then CHR ''/'' # join_slash (clean_elems True p)
      else if clean_elems False p = [] then ''.'' else join_slash (clean_elems False p))"

definition filepath_Join :: "string list \<Rightarrow> string" where
  "filepath_Join elems = (case dropWhile (\<lambda>e. e = []) elems of [] \<Rightarrow> [] | es \<Rightarrow> Clean (join_slash es))"

definition Abs :: "string option \<Rightarrow> string \<Rightarrow> string option" where
  "Abs wd p = (if IsAbs p then Some (Clean p) else map_option (\<lambda>d. filepath_Join [d, p]) wd)"

text \<open>The way from one list of elements to another.\<close>

fun rel_elems :: "string list \<Rightarrow> string list \<Rightarrow> string list" where
  "rel_elems (b # bs) (t # ts) = (if b = t then rel_elems bs ts else replicate (Suc (length bs)) ''..'' @ t # ts)"
| "rel_elems bs ts = replicate (length bs) ''..'' @ ts"

text \<open>\<^verbatim>\<open>filepath.Rel\<close> for rooted paths; for others it is not used.\<close>

definition Rel :: "string \<Rightarrow> string \<Rightarrow> string option" where
  "Rel base targ =
     (if Clean base = Clean targ then Some ''.''
      else if IsAbs base \<and> IsAbs targ then Some (join_slash (rel_elems (clean_elems True base) (clean_elems True targ)))
      else None)"

section \<open>The package\<close>

datatype path_error = RootRequired | ResolveRoot | ResolveTarget | RelTarget | EscapesRoot

definition safe_Join :: "string option \<Rightarrow> string \<Rightarrow> string list \<Rightarrow> path_error + string" where
  "safe_Join wd root elems =
     (if trimSpace root = [] then Inl RootRequired
      else case Abs wd root of
        None \<Rightarrow> Inl ResolveRoot
      | Some cleanRoot \<Rightarrow>
        (case Abs wd (filepath_Join (cleanRoot # elems)) of
           None \<Rightarrow> Inl ResolveTarget
         | Some target \<Rightarrow>
           (case Rel cleanRoot target of
              None \<Rightarrow> Inl RelTarget
            | Some rel \<Rightarrow>
                if rel = ''..'' \<or> hasPrefix rel ''../'' \<or> IsAbs rel then Inl EscapesRoot else Inr target)))"

text \<open>\<open>FileComponent\<close> of the runes of a text.\<close>

definition safe_rune :: "nat \<Rightarrow> bool" where
  "safe_rune r \<longleftrightarrow> (97 \<le> r \<and> r \<le> 122) \<or> (65 \<le> r \<and> r \<le> 90) \<or> (48 \<le> r \<and> r \<le> 57) \<or> r = 46 \<or> r = 95 \<or> r = 45"

fun component_loop :: "nat list \<Rightarrow> string \<Rightarrow> string" where
  "component_loop [] b = b"
| "component_loop (r # rs) b =
     (let b' = b @ [if safe_rune r then char_of r else CHR ''_''] in if length b' \<ge> 160 then b' else component_loop rs b')"

definition trimmed :: "char \<Rightarrow> bool" where
  "trimmed c \<longleftrightarrow> c \<in> set ''.-_''"

definition FileComponent :: "nat list \<Rightarrow> string" where
  "FileComponent runes = (let out = trimSet trimmed (component_loop runes []) in if out = [] then ''item'' else out)"

section \<open>Clean paths\<close>

definition plain :: "string \<Rightarrow> bool" where
  "plain w \<longleftrightarrow> w \<noteq> [] \<and> w \<noteq> ''.'' \<and> w \<noteq> ''..'' \<and> CHR ''/'' \<notin> set w"

lemma clean_step_plain:
  assumes "list_all plain acc" "CHR ''/'' \<notin> set w"
  shows "list_all plain (clean_step True acc w)"
  using assms by (auto simp: clean_step_def list_all_iff plain_def dest: in_set_butlastD)

lemma clean_elems_plain: "list_all plain (clean_elems True p)"
proof -
  have "list_all plain (foldl (clean_step True) [] ws)" if "\<And>w. w \<in> set ws \<Longrightarrow> CHR ''/'' \<notin> set w" for ws
  proof (rule foldl_invariant)
    show "list_all plain (clean_step True acc w)" if "w \<in> set ws" "list_all plain acc" for acc w
      using clean_step_plain[OF that(2)] \<open>\<And>w. w \<in> set ws \<Longrightarrow> CHR ''/'' \<notin> set w\<close>[OF that(1)] by blast
  qed simp
  then show ?thesis unfolding clean_elems_def using splitOn_no_sep by blast
qed

lemma foldl_clean_plain: "list_all plain ws \<Longrightarrow> foldl (clean_step True) acc ws = acc @ ws"
  by (induction ws arbitrary: acc) (auto simp: clean_step_def plain_def)

lemma splitOn_join:
  assumes "ws \<noteq> []" "\<And>w. w \<in> set ws \<Longrightarrow> sep \<notin> set w" "sep = CHR ''/''"
  shows "splitOn sep (join_slash ws) = ws"
  using assms(1,2)
proof (induction ws rule: join_slash.induct)
  case (3 w v vs)
  have "splitOn sep (u @ sep # s) = u # splitOn sep s" if "sep \<notin> set u" for u s
    using that by (induction u) (auto split: list.splits)
  then show ?case using 3 by (simp add: assms(3))
qed (simp_all add: splitOn_eq_single)

lemma clean_elems_rooted:
  assumes "list_all plain es"
  shows "clean_elems True (CHR ''/'' # join_slash es) = es"
proof (cases "es = []")
  case True
  then show ?thesis by (simp add: clean_elems_def clean_step_def)
next
  case False
  have "CHR ''/'' \<notin> set w" if "w \<in> set es" for w using assms that by (simp add: list_all_iff plain_def)
  then have "splitOn CHR ''/'' (join_slash es) = es" using splitOn_join[OF False] by simp
  then have "splitOn CHR ''/'' (CHR ''/'' # join_slash es) = [] # es" using False by (simp split: list.split)
  then have "clean_elems True (CHR ''/'' # join_slash es) = foldl (clean_step True) [] es" by (simp add: clean_elems_def clean_step_def)
  then show ?thesis using foldl_clean_plain[OF assms] by simp
qed

lemma IsAbs_Cons [simp]: "IsAbs (CHR ''/'' # s)" "\<not> IsAbs []"
  by (simp_all add: IsAbs_def hasPrefix_def)

lemma IsAbs_append [simp]: "IsAbs p \<Longrightarrow> IsAbs (p @ q)"
  by (auto simp: IsAbs_def hasPrefix_iff)

lemma Clean_rooted: "IsAbs p \<Longrightarrow> Clean p = CHR ''/'' # join_slash (clean_elems True p)"
  by (auto simp: Clean_def)

lemma IsAbs_join_slash: "IsAbs p \<Longrightarrow> IsAbs (join_slash (p # ps))"
  by (cases ps) simp_all

lemma filepath_Join_rooted:
  assumes "IsAbs p"
  shows "filepath_Join (p # ps) = CHR ''/'' # join_slash (clean_elems True (join_slash (p # ps)))"
  using assms Clean_rooted[OF IsAbs_join_slash[OF assms]] by (cases p) (auto simp: filepath_Join_def)

lemma Abs_rooted: "(\<And>d. wd = Some d \<Longrightarrow> IsAbs d) \<Longrightarrow> Abs wd p = Some R \<Longrightarrow> \<exists>es. list_all plain es \<and> R = CHR ''/'' # join_slash es"
  using clean_elems_plain Clean_rooted filepath_Join_rooted by (fastforce simp: Abs_def split: if_splits)

lemma Abs_elems: "list_all plain es \<Longrightarrow> Abs wd (CHR ''/'' # join_slash es) = Some (CHR ''/'' # join_slash es)"
  by (simp add: Abs_def Clean_rooted clean_elems_rooted)

section \<open>Staying inside\<close>

lemma rel_elems_inside: "rel_elems es (es @ r) = r"
  by (induction es) (cases r; simp)+

lemma rel_elems_outside: "\<not> (\<exists>r. ts = es @ r) \<Longrightarrow> \<exists>r. rel_elems es ts = ''..'' # r"
proof (induction es arbitrary: ts)
  case (Cons b es)
  then show ?case by (cases ts) auto
qed simp

lemma join_slash_inj: "list_all plain es \<Longrightarrow> list_all plain ts \<Longrightarrow> join_slash es = join_slash ts \<Longrightarrow> es = ts"
  using clean_elems_rooted by metis

lemma escapes_up: "join_slash (''..'' # r) = ''..'' \<or> hasPrefix (join_slash (''..'' # r)) ''../''"
  by (cases r) (simp_all add: hasPrefix_def)

lemma plain_stays:
  assumes "plain w"
  shows "join_slash (w # ws) \<noteq> ''..''" "\<not> hasPrefix (join_slash (w # ws)) ''../''" "\<not> IsAbs (join_slash (w # ws))"
proof -
  obtain s where s: "join_slash (w # ws) = w @ s" "s = [] \<or> (\<exists>v. s = CHR ''/'' # v)" by (cases ws) auto
  obtain a w' where w: "w = a # w'" "a \<noteq> CHR ''/''" using assms by (cases w) (auto simp: plain_def)
  show "\<not> IsAbs (join_slash (w # ws))" unfolding s(1) using w by (simp add: IsAbs_def hasPrefix_def)
  show "join_slash (w # ws) \<noteq> ''..''" using s assms by (auto simp: plain_def append_eq_Cons_conv)
  show "\<not> hasPrefix (join_slash (w # ws)) ''../''"
  proof (cases w')
    case Nil
    then show ?thesis using s w by (auto simp: hasPrefix_def)
  next
    case (Cons b w'')
    then show ?thesis using s w assms by (cases w'') (auto simp: hasPrefix_def plain_def)
  qed
qed

lemma safe_Join_elems:
  assumes "\<And>d. wd = Some d \<Longrightarrow> IsAbs d" "trimSpace root \<noteq> []" "Abs wd root = Some (CHR ''/'' # join_slash es)" "list_all plain es"
    and ts: "ts = clean_elems True (join_slash ((CHR ''/'' # join_slash es) # elems))"
  shows "safe_Join wd root elems = (if \<exists>r. ts = es @ r then Inr (CHR ''/'' # join_slash ts) else Inl EscapesRoot)"
proof -
  have plain: "list_all plain ts" unfolding ts by (rule clean_elems_plain)
  have target: "filepath_Join ((CHR ''/'' # join_slash es) # elems) = CHR ''/'' # join_slash ts"
    unfolding ts by (rule filepath_Join_rooted) simp
  have rel: "Rel (CHR ''/'' # join_slash es) (CHR ''/'' # join_slash ts) = Some (if es = ts then ''.'' else join_slash (rel_elems es ts))"
    using join_slash_inj[OF assms(4) plain] by (auto simp: Rel_def Clean_rooted clean_elems_rooted assms(4) plain)
  have run: "safe_Join wd root elems =
      (let rel = if es = ts then ''.'' else join_slash (rel_elems es ts)
       in if rel = ''..'' \<or> hasPrefix rel ''../'' \<or> IsAbs rel then Inl EscapesRoot else Inr (CHR ''/'' # join_slash ts))"
    using assms(2,3) Abs_elems[OF plain, of wd] by (simp add: safe_Join_def target rel Let_def)
  show ?thesis
  proof (cases "\<exists>r. ts = es @ r")
    case True
    then obtain r where r: "ts = es @ r" by blast
    show ?thesis
    proof (cases r)
      case Nil
      then show ?thesis using r by (simp add: run Let_def hasPrefix_def IsAbs_def)
    next
      case (Cons w ws)
      then have "plain w" using plain r by simp
      then show ?thesis using plain_stays[of w ws] r Cons by (simp add: run Let_def rel_elems_inside del: join_slash.simps)
    qed
  next
    case False
    then obtain r where "rel_elems es ts = ''..'' # r" using rel_elems_outside by blast
    then show ?thesis using False escapes_up[of r] by (auto simp: run Let_def simp del: join_slash.simps)
  qed
qed

lemma splitOn_append: "splitOn sep (u @ sep # s) = splitOn sep u @ splitOn sep s"
proof (induction u)
  case Nil
  show ?case by (cases "splitOn sep s") simp_all
next
  case (Cons c u)
  then show ?case by (cases "splitOn sep u") simp_all
qed

lemma clean_elems_names:
  assumes "list_all plain es" "list_all plain names"
  shows "clean_elems True (join_slash ((CHR ''/'' # join_slash es) # names)) = es @ names"
proof (cases "names = []")
  case True
  then show ?thesis using clean_elems_rooted[OF assms(1)] by simp
next
  case False
  have j: "join_slash (p # names) = p @ CHR ''/'' # join_slash names" for p using False by (cases names) simp_all
  have n: "splitOn CHR ''/'' (join_slash names) = names"
    using splitOn_join[OF False] assms(2) by (simp add: list_all_iff plain_def)
  have "clean_elems True (join_slash ((CHR ''/'' # join_slash es) # names)) =
      foldl (clean_step True) (clean_elems True (CHR ''/'' # join_slash es)) names"
    unfolding j clean_elems_def splitOn_append n by simp
  then show ?thesis using clean_elems_rooted[OF assms(1)] foldl_clean_plain[OF assms(2)] by simp
qed

text \<open>
  C20. A path that is accepted lies in the root: its elements are those of the root followed by plain names, none of them empty,
  \<^verbatim>\<open>.\<close> or \<^verbatim>\<open>..\<close>; and plain names are accepted below every root.
\<close>

theorem join_stays_inside:
  assumes "\<And>d. wd = Some d \<Longrightarrow> IsAbs d" "Abs wd root = Some R" "trimSpace root \<noteq> []"
  shows "\<exists>es. R = CHR ''/'' # join_slash es \<and> list_all plain es \<and>
    (\<forall>elems target. safe_Join wd root elems = Inr target \<longrightarrow>
       (\<exists>rest. list_all plain rest \<and> target = CHR ''/'' # join_slash (es @ rest))) \<and>
    (\<forall>names. list_all plain names \<longrightarrow> safe_Join wd root names = Inr (CHR ''/'' # join_slash (es @ names)))"
proof -
  obtain es where es: "list_all plain es" "R = CHR ''/'' # join_slash es" using Abs_rooted[OF assms(1,2)] by blast
  note run = safe_Join_elems[OF assms(1,3) assms(2)[unfolded es(2)] es(1) refl]
  have "\<exists>rest. list_all plain rest \<and> target = CHR ''/'' # join_slash (es @ rest)" if acc: "safe_Join wd root elems = Inr target" for elems target
  proof -
    define ts where "ts = clean_elems True (join_slash ((CHR ''/'' # join_slash es) # elems))"
    have "(if \<exists>r. ts = es @ r then Inr (CHR ''/'' # join_slash ts) else Inl EscapesRoot) = Inr target"
      using acc run[of elems] unfolding ts_def by simp
    then obtain r where r: "ts = es @ r" "target = CHR ''/'' # join_slash ts" by (auto split: if_splits)
    have "list_all plain ts" unfolding ts_def by (rule clean_elems_plain)
    then show ?thesis using r by auto
  qed
  moreover have "safe_Join wd root names = Inr (CHR ''/'' # join_slash (es @ names))" if "list_all plain names" for names
    using run[of names] clean_elems_names[OF es(1) that] by simp
  ultimately show ?thesis using es by blast
qed

theorem join_stays_inside_witness:
  "safe_Join (Some ''/srv'') ''rec'' [''cam'', ''a.jpg''] = Inr ''/srv/rec/cam/a.jpg'' \<and>
   safe_Join (Some ''/srv'') ''rec'' [''..'', ''x''] = Inl EscapesRoot \<and>
   (\<exists>es. ''/srv/rec'' = CHR ''/'' # join_slash es \<and> list_all plain es)"
proof -
  have a: "Abs (Some ''/srv'') ''rec'' = Some ''/srv/rec''" "trimSpace ''rec'' \<noteq> []" by code_simp+
  have "IsAbs d" if "Some ''/srv'' = Some d" for d using that by auto
  note inside = join_stays_inside[OF this a]
  have "safe_Join (Some ''/srv'') ''rec'' [''cam'', ''a.jpg''] = Inr ''/srv/rec/cam/a.jpg''"
    "safe_Join (Some ''/srv'') ''rec'' [''..'', ''x''] = Inl EscapesRoot" by code_simp+
  then show ?thesis using inside by blast
qed

section \<open>File names\<close>

lemma component_loop_spec:
  assumes "list_all (\<lambda>c. safe_rune (of_char c)) b" "length b < 160"
  shows "list_all (\<lambda>c. safe_rune (of_char c)) (component_loop rs b) \<and> length (component_loop rs b) \<le> 160"
  using assms
proof (induction rs arbitrary: b)
  case (Cons r rs)
  have "safe_rune (of_char (if safe_rune r then char_of r else CHR ''_''))" by (auto simp: safe_rune_def)
  then show ?case using Cons by (simp add: Let_def)
qed simp

lemma trimSet_length: "length (trimSet f s) \<le> length s"
  using length_dropWhile_le[of f "rev (dropWhile f s)"] length_dropWhile_le[of f s] by (simp add: trimSet_def)

text \<open>
  Whatever the text, the file name made of it is one plain element of letters, digits, dots, dashes and underscores, at most 160 of
  them, and begins and ends with a letter or digit.
\<close>

theorem file_component_plain:
  "plain (FileComponent runes) \<and> length (FileComponent runes) \<le> 160 \<and> list_all (\<lambda>c. safe_rune (of_char c)) (FileComponent runes) \<and>
   \<not> trimmed (List.hd (FileComponent runes)) \<and> \<not> trimmed (last (FileComponent runes))"
proof -
  define out where "out = trimSet trimmed (component_loop runes [])"
  have loop: "list_all (\<lambda>c. safe_rune (of_char c)) (component_loop runes [])" "length (component_loop runes []) \<le> 160"
    using component_loop_spec[of "[]" runes] by simp_all
  have safe: "list_all (\<lambda>c. safe_rune (of_char c)) out" "length out \<le> 160"
    using loop trimSet_set trimSet_length by (fastforce simp: out_def list_all_iff intro: le_trans)+
  have fc: "FileComponent runes = (if out = [] then ''item'' else out)" by (simp add: FileComponent_def out_def Let_def)
  show ?thesis
  proof (cases "out = []")
    case True
    then show ?thesis unfolding fc by (simp add: plain_def safe_rune_def trimmed_def)
  next
    case False
    note ends = trimSet_hd[OF False[unfolded out_def], folded out_def] trimSet_last[OF False[unfolded out_def], folded out_def]
    have "CHR ''/'' \<notin> set out" using safe(1) by (auto simp: list_all_iff safe_rune_def)
    moreover have "out \<noteq> ''.''" "out \<noteq> ''..''" using ends by (auto simp: trimmed_def)
    ultimately show ?thesis unfolding fc using False safe ends by (simp add: plain_def)
  qed
qed

end
