(* ===== verification/Spec2Isabelle.thy ===== *)
theory Spec2Isabelle
  imports Retention Storage_Cap Disk_Pressure Recording_Sessions Event_Processor Auth_Checker Notify Zones
    Watchdog Activity_Components Segment_Audio Mp4_Serve Consumer_Invariant Rtsp_Hub
    Audio_Upsampler Cry_Monitor Transcode_Stage Sample_Timing Safe_Path
begin

text \<open>
  A verification of the core of Vedetta, a network video recorder: cameras are read over RTSP,
  frames are analysed, detections are tracked and turned into events and zone presence, recordings
  are kept on a disk of limited size, users log in over HTTP and are notified.

  \<^bold>\<open>Layout.\<close> Every theory models one part of the Go sources under \<^verbatim>\<open>internal/\<close>; a definition has the
  name of the Go function it translates wherever that is not a name of HOL.

  \<^item> \<open>Go_Prelude\<close>: the parts of the language and its standard library that the sources use: 64-bit
    wrap-around, \<^verbatim>\<open>time.Time\<close> and saturating \<^verbatim>\<open>Sub\<close>, strings, decimal numbers, buffered channels (with
    the interface \<open>bounded_queue\<close>), and fold invariants.  \<open>Go_Float\<close>: \<^verbatim>\<open>float64\<close> as exact rationals rounded
    after every operation.
  \<^item> \<open>Segment_Store\<close> (\<^verbatim>\<open>storage/db.go\<close>, \<^verbatim>\<open>recording/segment.go\<close>): the segments table, its queries and
    \<open>RemoveSegment\<close>, with the failures a disk and a database can have as a parameter; the interface
    \<open>segment_remover\<close> states what retention relies on.  \<open>Retention\<close> (\<^verbatim>\<open>recording/retention.go\<close>),
    \<open>Storage_Cap\<close> (also \<^verbatim>\<open>emergency_cleanup.go\<close>) and \<open>Disk_Pressure\<close> (\<^verbatim>\<open>media/diskspace.go\<close>,
    \<^verbatim>\<open>recording/diskpressure.go\<close>) are its clients: which segments a pass deletes, that it returns, and
    when a disk counts as low.
  \<^item> \<open>Recording_Sessions\<close> (\<^verbatim>\<open>recording/segment.go\<close>): recording sessions, their leases and the hand-over
    from one session to the next, as a step relation over all interleavings.
  \<^item> \<open>Tracker\<close> (\<^verbatim>\<open>detect/tracker.go\<close>, \<^verbatim>\<open>detect/yolo.go\<close>): tracks and non-maximum suppression, for every
    result \<^verbatim>\<open>sort.Slice\<close> may give (interface \<open>slice_sort\<close>).  \<open>Zones\<close> (\<^verbatim>\<open>camera/zone.go\<close>): which zones
    contain an object and what presence is told.  \<open>Presence\<close> (\<^verbatim>\<open>camera/presence.go\<close>): the state
    machine of every zone and label.  The last section of this theory composes the three.
  \<^item> \<open>Event_Processor\<close> (\<^verbatim>\<open>event/processor.go\<close>, \<^verbatim>\<open>object_count.go\<close>, \<^verbatim>\<open>publisher_queue.go\<close>): events, ends and
    timeouts, parked ends, cooldowns, object counts and the background tasks, as a step relation.
  \<^item> \<open>Auth_Scopes\<close> and \<open>Auth_Checker\<close> (\<^verbatim>\<open>auth/auth.go\<close>, \<^verbatim>\<open>storage/db_auth.go\<close>): what a principal may do,
    login limits under concurrency, sessions, tokens.
  \<^item> \<open>Notify\<close> (\<^verbatim>\<open>notify/\<close>): cooldown cache, per-user dispatch, provider fan-out, signed URLs.
  \<^item> \<open>H264_Units\<close> (\<^verbatim>\<open>h264au/\<close>): access units and the level an SPS declares.
  \<^item> \<open>Watchdog\<close> (\<^verbatim>\<open>watchdog/\<close>): memory guard, liveness watchdog, supervisor.
  \<^item> \<open>Activities\<close> (\<^verbatim>\<open>storage/db_activities.go\<close>, \<^verbatim>\<open>db_events_retention.go\<close>, the event writes of \<^verbatim>\<open>db.go\<close>):
    the tables that group raw events into incidents and every transaction on them.
    \<open>Activity_Invariant\<close>: summaries stay exact, activities stay apart, notifications are not
    repeated, old events are deleted.  \<open>Activity_Components\<close>: the activities are the connected
    components of the events within ninety seconds of each other, so backfill and live ingestion agree.
  \<^item> \<open>Mp4_Boxes\<close> (\<^verbatim>\<open>media/mp4reader.go\<close>, byte level): patching fragments in place, probing durations, reading
    init segments, removing parameter sets.  \<open>Mp4_Fragments\<close>: the index, trimming, joining, playlists;
    clips open on keyframes and playlists lose nothing.  \<open>Mp4_Serve\<close>: probing a fragmented file, serving
    HLS segments, the seekable buffer, the marks of files in use.
  \<^item> \<open>Mp4_Writer\<close> (\<^verbatim>\<open>mp4writer.go\<close>, \<^verbatim>\<open>recording_audio.go\<close>, \<^verbatim>\<open>rtsp/h264_access_unit.go\<close>): the segment writer, every
    operation with the answers of the libraries and the disk as its argument.  \<open>Mp4_Timeline\<close>: an
    abstract recorder it refines (interface \<open>audio_steps\<close>: audio leaves the video alone), so the recorded
    video is one gapless track.  \<open>Segment_Guarantees\<close>: keyframes, the bound on the buffer, what closing
    reports, what a failed write loses.  \<open>Segment_Audio\<close>: audio parts never overlap.
  \<^item> \<open>Recording_Consumer\<close> (\<^verbatim>\<open>recording_consumer.go\<close>): the queue, opening, rotating and closing segments, pauses,
    panics, and the rows of the index.  \<open>Consumer_Invariant\<close>: over every sequence of its operations the
    index names only existing files with the times of their media; pauses; names of segments.
  \<^item> \<open>Rtsp_Source\<close> and \<open>Rtsp_Hub\<close> (\<^verbatim>\<open>rtsp/source.go\<close>, \<^verbatim>\<open>health.go\<close>, \<^verbatim>\<open>reattach.go\<close>, \<^verbatim>\<open>hub.go\<close>, \<^verbatim>\<open>backoff/\<close>): sources, their
    connection loop, fan-out, health and cached group of pictures, and the hub that shares them.
    \<open>Float_Rounding\<close>: rounding is exact on 53 bits and keeps a random fraction below one.
  \<^item> \<open>Audio_Upsampler\<close>, \<open>Audio_Windows\<close> (\<^verbatim>\<open>audio/\<close>) and \<open>Cry_Monitor\<close> (\<^verbatim>\<open>cry/episode.go\<close>, \<^verbatim>\<open>monitor.go\<close>): resampling, windows of
    continuous audio, and the episodes of crying reported from them.
  \<^item> \<open>Recompression\<close> and \<open>Transcode_Stage\<close> (\<^verbatim>\<open>recording/recompress.go\<close>, \<^verbatim>\<open>transcode_subprocess.go\<close>, the queries of \<^verbatim>\<open>db.go\<close>): the
    choice of old segments and clips to transcode, the manual pass and the backfill as loops that may not
    end (\<open>None\<close>), the commit of a child's output (interface \<open>transcoder\<close>: a replaced file became smaller).
  \<^item> \<open>Sample_Timing\<close> (\<^verbatim>\<open>stream/h264sampletime.go\<close>, \<^verbatim>\<open>mse_smoother.go\<close>): timestamps of live video through wraps, no
    sample lost, stamped durations.  \<open>Safe_Path\<close> (\<^verbatim>\<open>safepath/\<close>): paths stay below their root.

  \<^bold>\<open>Conventions.\<close> A struct is a record, an enumeration a datatype, a Go map a partial function or, where
  its order of iteration matters, an association list with the order as an argument.  A method
  takes the state and returns it updated; an error result is a value of a sum or option type.  Time
  is a parameter: every reading of a clock is an argument.  Integers are \<open>int\<close> with \<open>wrap64\<close> where an
  overflow can be reached, or words.  Goroutines are steps: a step relation has one rule per locked
  section or channel operation.

  \<^bold>\<open>Bounds and fuel.\<close> Loops are structural recursions or have a measure (the merging loop of
  \<open>reconcileActivityTx\<close>, the batches of \<open>deleteEventsOlderThan\<close>), except the storage-cap loop, a
  \<^verbatim>\<open>partial_function\<close> whose termination without failures, and divergence with them, are both proved,
  and the box walk of \<open>probeMoovDuration\<close>, likewise.
  No fuel is used.

  \<^bold>\<open>Parameters.\<close> Code outside the repository is an argument: hash functions, \<^verbatim>\<open>statfs\<close>, the SPS
  parser, \<^verbatim>\<open>sort.Slice\<close>, the transports of notifications, the outcome of database and file
  operations.

  \<^bold>\<open>Not modelled.\<close> HTTP handlers and generated routing, live streaming over third-party stacks, codec
  bindings and transcoding, the neural-network kernels, ONVIF, configuration files, migrations,
  logging, metrics and tracing; \<^verbatim>\<open>PROJECT.json\<close> lists every part with the reason.
\<close>

section \<open>From detections to presence\<close>

text \<open>The analysis of frames: every frame's detections update the tracker of the camera.\<close>

definition tracker_after ::
  "(assignment list \<Rightarrow> assignment list) \<Rightarrow> Detection list list \<Rightarrow> Tracker \<Rightarrow> Tracker" where
  "tracker_after srt frames t = foldl (\<lambda>t ds. snd (tracker_Update srt ds t)) t frames"

definition misses_ok :: "Tracker \<Rightarrow> bool" where
  "misses_ok t \<longleftrightarrow> (\<forall>tr\<in>set (tracks t). 0 \<le> disappeared tr)"

lemma new_tracks_misses_ok: "misses_ok t \<Longrightarrow> misses_ok (new_tracks ds t)"
  using new_tracks_spec[of ds t] by (auto simp: misses_ok_def)

lemma survivors_misses_ok:
  assumes "slice_sort by_iou srt" and "misses_ok t"
  shows "misses_ok (t\<lparr>tracks := survivors srt ds t\<rparr>)"
proof -
  have "0 \<le> disappeared (tracks t ! i)" if "i < length (tracks t)" for i
    using assms(2) that by (simp add: misses_ok_def)
  then show ?thesis unfolding survivors_nth[OF assms(1)] misses_ok_def by (auto split: option.splits)
qed

lemma update_misses_ok:
  assumes "slice_sort by_iou srt" and "misses_ok t"
  shows "misses_ok (snd (tracker_Update srt ds t))"
proof -
  have aged: "misses_ok (t\<lparr>tracks := aged t\<rparr>)" using assms(2) by (auto simp: misses_ok_def aged_def)
  then have "misses_ok (t\<lparr>tracks := map (miss (t\<lparr>tracks := aged t\<rparr>)) (aged t)\<rparr>)" by (auto simp: misses_ok_def)
  then show ?thesis unfolding tracker_Update_eq Let_def
    using new_tracks_misses_ok[OF aged, of ds]
      new_tracks_misses_ok[OF survivors_misses_ok[OF assms(1) aged, of ds], of "unmatched srt ds (t\<lparr>tracks := aged t\<rparr>)"]
    by (cases "aged t = []") simp_all
qed

lemma tracker_after_misses_ok:
  "slice_sort by_iou srt \<Longrightarrow> misses_ok t \<Longrightarrow> misses_ok (tracker_after srt frames t)"
  unfolding tracker_after_def by (rule foldl_invariant[where I = misses_ok]) (auto intro: update_misses_ok)

lemma empty_frame_nothing_detected:
  assumes "misses_ok t" and "obj \<in> set (fst (tracker_Update srt [] t))"
  shows "\<not> to_Detected obj"
proof -
  have "fst (tracker_Update srt [] t) = confirmedObjects (snd (tracker_Update srt [] t))"
    by (simp add: tracker_Update_def Let_def)
  then have "obj \<in> set (confirmedObjects (t\<lparr>tracks := map (miss t) (aged t)\<rparr>))" using assms(2) by (simp add: update_empty)
  moreover have "0 < disappeared tr" if "tr \<in> set (map (miss t) (aged t))" for tr
    using that assms(1) by (auto simp: misses_ok_def aged_def)
  ultimately show ?thesis by (fastforce simp: confirmedObjects_def)
qed

lemma nothing_detected_observations:
  "(\<And>obj. obj \<in> set objs \<Longrightarrow> \<not> to_Detected obj) \<Longrightarrow>
     fst (matchZones zones objs w h) = [] \<and> fst (snd (matchZones zones objs w h)) = []"
  by (induction objs rule: rev_induct)
    (simp add: matchZones_def, auto simp: matchZones_snoc match_object_def Let_def split: prod.splits)

lemma missed_loop_blind:
  "missed_loop pt now zones inZone [] keys st = (st', evs) \<Longrightarrow> ev \<in> set evs \<Longrightarrow> pe_Type ev = EventZoneUnknown"
proof (induction keys arbitrary: st evs)
  case (Cons key keys)
  show ?case
  proof (cases "tracks_at inZone key \<noteq> [] \<or> st key = None")
    case True
    then show ?thesis using Cons by (auto split: if_splits)
  next
    case False
    then obtain s0 where s0: "st key = Some s0" and none: "tracks_at inZone key = []" by auto
    obtain s' ty where step: "missed_step pt now [] s0 = (s', ty)" by (cases "missed_step pt now [] s0")
    obtain evs' where rest: "missed_loop pt now zones inZone [] keys (st(key \<mapsto> s')) = (st', evs')"
      and evs: "evs = emit zones now key ty @ evs'"
      using Cons.prems(1) s0 none step by (auto split: prod.splits)
    have "ty = None \<or> ty = Some EventZoneUnknown"
      using step by (auto simp: missed_step_def membersStillDetected_def list_ex_iff Let_def split: if_splits)
    then show ?thesis using Cons.IH[OF rest] Cons.prems(2) evs by (auto simp: emit_def mk_event_def)
  qed
qed simp

text \<open>
  Losing sight is not a departure.  Whatever a camera has seen before, a frame on which the
  detector finds nothing tells presence nothing, although the tracker may still report stationary
  objects; and the presence machines then emit only \<^verbatim>\<open>zone_unknown\<close> events: no zone is entered and none
  is reported left.
\<close>

theorem empty_frame_never_enters_or_leaves:
  assumes "slice_sort by_iou srt"
    and "t = tracker_after srt frames (NewTrackerWithStationary maxDis minH statMax statThreshold statIoU statDrift)"
    and "tracker_Update srt [] t = (objs, t')"
    and "matchZones zones objs w h = (inZone, detected, trackZones)"
    and "UpdateObserved inZone detected names now ord2 ord3 pt = (evs, pt')"
  shows "inZone = [] \<and> detected = [] \<and> (\<forall>ev\<in>set evs. pe_Type ev = EventZoneUnknown)"
proof -
  have "misses_ok (NewTrackerWithStationary maxDis minH statMax statThreshold statIoU statDrift)"
    by (simp add: misses_ok_def NewTrackerWithStationary_def)
  then have "misses_ok t" unfolding assms(2) by (rule tracker_after_misses_ok[OF assms(1)])
  then have "\<not> to_Detected obj" if "obj \<in> set objs" for obj
    using empty_frame_nothing_detected[of t obj srt] that assms(3) by simp
  then have blind: "inZone = []" "detected = []" using nothing_detected_observations[of objs zones w h] assms(4) by auto
  obtain st3 evs3 where m: "missed_loop pt now names [] [] ord3 (stale_loop now ord2 (pt_states pt)) = (st3, evs3)"
    by (cases "missed_loop pt now names [] [] ord3 (stale_loop now ord2 (pt_states pt))")
  then have "evs = evs3" using assms(5) blind by (simp add: UpdateObserved_def)
  then show ?thesis using missed_loop_blind[OF m] blind by blast
qed

definition coasting_car :: Tracker where
  "coasting_car = tracker_after sort_iou [[car (0, 0, 100, 100)]] (NewTrackerWithStationary 30 1 1500 10 (1 / 2) (1 / 4))"

theorem empty_frame_never_enters_or_leaves_witness:
  "let objs = fst (tracker_Update sort_iou [] coasting_car);
       obs = matchZones [] objs 640 480;
       evs = fst (UpdateObserved (fst obs) (fst (snd obs)) Map.empty 5 [] [] NewPresenceTracker)
   in objs \<noteq> [] \<and> fst obs = [] \<and> (\<forall>ev\<in>set evs. pe_Type ev = EventZoneUnknown)"
proof -
  let ?u = "tracker_Update sort_iou [] coasting_car"
  let ?obs = "matchZones [] (fst ?u) 640 480"
  let ?upd = "UpdateObserved (fst ?obs) (fst (snd ?obs)) Map.empty 5 [] [] NewPresenceTracker"
  have some: "length (fst ?u) = 1" by code_simp
  have obs: "?obs = (fst ?obs, fst (snd ?obs), snd (snd ?obs))" by simp
  have "fst ?obs = [] \<and> fst (snd ?obs) = [] \<and> (\<forall>ev\<in>set (fst ?upd). pe_Type ev = EventZoneUnknown)"
    by (rule empty_frame_never_enters_or_leaves[OF iou_order.slice_sort_axioms coasting_car_def
        prod.collapse[symmetric] obs prod.collapse[symmetric]])
  with some show ?thesis by (auto simp: Let_def)
qed

end
